(* ===== verification/Prelude.thy ===== *)
theory Prelude
  imports Main "HOL-Library.Word" "HOL-Library.List_Lexorder"
begin

unbundle bit_operations_syntax

text \<open>
  What every component of the development shares.

  Machine integers keep their width: \<open>u8\<close>, \<open>u32\<close>, \<open>u64\<close> and \<open>u128\<close> are words, and an
  \<open>i64\<close> is the same 64-bit word read with \<open>sint\<close>.  A \<open>usize\<close> that only counts or indexes
  what is held in memory is a \<open>nat\<close>; where the code narrows one with \<open>as u32\<close> the model
  narrows it too, with \<open>word_of_nat\<close>.  Text is the list of its UTF-8 bytes, which is what
  \<open>str\<close> compares, slices and searches, and byte strings are ordered lexicographically
  (\<open>List_Lexorder\<close>) as \<open>str\<close> and \<open>[u8]\<close> are.

  A call that can panic (an out-of-range slice, a failed \<open>expect\<close>) has the type \<open>'a run\<close>:
  \<open>Panic\<close> or \<open>Ret x\<close>.
\<close>

section \<open>Types\<close>

type_synonym u8 = "8 word"
type_synonym u16 = "16 word"
type_synonym u32 = "32 word"
type_synonym u64 = "64 word"
type_synonym i64 = "64 word"
type_synonym u128 = "128 word"
type_synonym bytes = "8 word list"

datatype 'a run = Panic | Ret 'a

fun bind_run :: "'a run \<Rightarrow> ('a \<Rightarrow> 'b run) \<Rightarrow> 'b run" where
  "bind_run Panic f = Panic"
| "bind_run (Ret x) f = f x"

text \<open>The \<open>?\<close> operator of a call that can also panic.\<close>

fun try_run :: "'a option \<Rightarrow> ('a \<Rightarrow> 'b option run) \<Rightarrow> 'b option run" where
  "try_run None f = Ret None"
| "try_run (Some x) f = f x"

text \<open>A literal: the bytes of an ASCII string.\<close>

abbreviation str :: "string \<Rightarrow> bytes" where
  "str s \<equiv> map of_char s"

text \<open>The separator of every path.\<close>

abbreviation SLASH :: u8 where
  "SLASH \<equiv> 0x2F"

text \<open>\<open>str::split(c)\<close>, and ASCII case.\<close>

fun split_on :: "'a \<Rightarrow> 'a list \<Rightarrow> 'a list list" where
  "split_on c [] = [[]]"
| "split_on c (b # bs) =
     (if b = c then [] # split_on c bs
      else (case split_on c bs of [] \<Rightarrow> [[b]] | w # ws \<Rightarrow> (b # w) # ws))"

definition ascii_lower :: "u8 \<Rightarrow> u8" where
  "ascii_lower b = (if 0x41 \<le> b \<and> b \<le> 0x5A then b + 0x20 else b)"

definition eq_ignore_ascii_case :: "bytes \<Rightarrow> bytes \<Rightarrow> bool" where
  "eq_ignore_ascii_case a b \<longleftrightarrow> map ascii_lower a = map ascii_lower b"

named_theorems file_simps \<open>reading back what a writer wrote\<close>

section \<open>Slices and little-endian integers\<close>

text \<open>\<open>bytes.get(a..b)\<close> and \<open>bytes.get(a..)\<close>.\<close>

definition get_range :: "'a list \<Rightarrow> nat \<Rightarrow> nat \<Rightarrow> 'a list option" where
  "get_range bs a b = (if a \<le> b \<and> b \<le> length bs then Some (take (b - a) (drop a bs)) else None)"

definition get_from :: "'a list \<Rightarrow> nat \<Rightarrow> 'a list option" where
  "get_from bs a = (if a \<le> length bs then Some (drop a bs) else None)"

definition nth_opt :: "'a list \<Rightarrow> nat \<Rightarrow> 'a option" where
  "nth_opt xs i = (if i < length xs then Some (xs ! i) else None)"

text \<open>\<open>to_le_bytes\<close> of an \<open>n\<close>-byte integer, and \<open>from_le_bytes\<close>.\<close>

fun le_bytes :: "nat \<Rightarrow> 'a::len word \<Rightarrow> bytes" where
  "le_bytes 0 w = []"
| "le_bytes (Suc n) w = ucast w # le_bytes n (drop_bit 8 w)"

fun le_word :: "bytes \<Rightarrow> 'a::len word" where
  "le_word [] = 0"
| "le_word (b # bs) = ucast b OR push_bit 8 (le_word bs)"

definition u32_at :: "bytes \<Rightarrow> nat \<Rightarrow> u32 option" where
  "u32_at bs i = map_option le_word (get_range bs i (i + 4))"

definition u64_at :: "bytes \<Rightarrow> nat \<Rightarrow> u64 option" where
  "u64_at bs i = map_option le_word (get_range bs i (i + 8))"

text \<open>\<open>n as u32\<close> for a \<open>usize\<close>, and the way back.\<close>

abbreviation as_u32 :: "nat \<Rightarrow> u32" where
  "as_u32 n \<equiv> word_of_nat n"

lemma unat_u32: "n < 2 ^ 32 \<Longrightarrow> unat (as_u32 n) = n"
  by (simp add: unat_of_nat)

lemma unat_u64: "n < 2 ^ 64 \<Longrightarrow> unat (word_of_nat n :: u64) = n"
  by (simp add: unat_of_nat)

lemma length_le_bytes [simp]: "length (le_bytes n w) = n"
  by (induction n arbitrary: w) auto

lemma le_word_le_bytes: "le_word (le_bytes n w) = take_bit (8 * n) w"
proof (induction n arbitrary: w)
  case (Suc n)
  show ?case
    by (rule bit_word_eqI) (auto simp: Suc bit_simps)
qed simp

lemma le_word_le_bytes_u32 [simp]: "le_word (le_bytes 4 (w :: u32)) = w"
  by (simp add: le_word_le_bytes take_bit_word_eq_self)

lemma le_word_le_bytes_u64 [simp]: "le_word (le_bytes 8 (w :: u64)) = w"
  by (simp add: le_word_le_bytes take_bit_word_eq_self)

lemma u32_at_append [file_simps]:
  "length pre = i \<Longrightarrow> u32_at (pre @ le_bytes 4 w @ post) i = Some w"
  by (simp add: u32_at_def get_range_def)

lemma u64_at_append [file_simps]:
  "length pre = i \<Longrightarrow> u64_at (pre @ le_bytes 8 w @ post) i = Some w"
  by (simp add: u64_at_def get_range_def)

lemma u32_at_0 [file_simps]: "u32_at (le_bytes 4 w @ post) 0 = Some w"
  using u32_at_append [of "[]" 0] by simp

lemma get_from_append [file_simps]: "length pre = i \<Longrightarrow> get_from (pre @ post) i = Some post"
  by (simp add: get_from_def)

lemma get_range_append [file_simps]:
  "length pre = i \<Longrightarrow> i + length mid = j \<Longrightarrow> get_range (pre @ mid @ post) i j = Some mid"
  by (simp add: get_range_def)

text \<open>Reading past a prefix is reading what follows it.\<close>

lemma get_range_shift: "get_range (pre @ xs) (length pre + i) (length pre + j) = get_range xs i j"
  by (simp add: get_range_def)

lemma u32_at_shift [file_simps]: "u32_at (pre @ xs) (length pre + i) = u32_at xs i"
  using get_range_shift [of pre xs i "i + 4"] by (simp add: u32_at_def add.assoc)

lemma u64_at_shift [file_simps]: "u64_at (pre @ xs) (length pre + i) = u64_at xs i"
  using get_range_shift [of pre xs i "i + 8"] by (simp add: u64_at_def add.assoc)

lemma nth_opt_shift [file_simps]: "nth_opt (pre @ xs) (length pre + i) = nth_opt xs i"
  by (simp add: nth_opt_def)

lemma get_from_shift [file_simps]: "get_from (pre @ xs) (length pre + i) = get_from xs i"
  by (simp add: get_from_def)

lemma length_concat_map_const:
  "(\<And>x. x \<in> set xs \<Longrightarrow> length (f x) = k) \<Longrightarrow> length (concat (map f xs)) = k * length xs"
  by (induction xs) (auto simp: algebra_simps)

text \<open>An array of 32-bit numbers written one after another is read back by position.\<close>

lemma u32_at_array:
  assumes "i < length ws"
  shows "u32_at (concat (map (le_bytes 4) ws) @ post) (4 * i) = Some (ws ! i)"
proof -
  have "ws = take i ws @ ws ! i # drop (Suc i) ws"
    using assms by (rule id_take_nth_drop)
  then have "concat (map (le_bytes 4) ws) @ post
      = concat (map (le_bytes 4) (take i ws)) @ le_bytes 4 (ws ! i)
        @ (concat (map (le_bytes 4) (drop (Suc i) ws)) @ post)"
    by (metis (no_types, lifting) append.assoc concat.simps(2) concat_append list.simps(9) map_append)
  moreover have "length (concat (map (le_bytes 4) (take i ws))) = 4 * i"
    using assms by (subst length_concat_map_const [where k = 4]) auto
  ultimately show ?thesis
    by (simp add: u32_at_append)
qed

lemma u64_at_array:
  assumes "i < length ws"
  shows "u64_at (concat (map (le_bytes 8) ws) @ post) (8 * i) = Some (ws ! i)"
proof -
  have "concat (map (le_bytes 8) ws) @ post
      = concat (map (le_bytes 8) (take i ws)) @ le_bytes 8 (ws ! i)
        @ (concat (map (le_bytes 8) (drop (Suc i) ws)) @ post)"
    using assms by (subst id_take_nth_drop [OF assms]) simp
  moreover have "length (concat (map (le_bytes 8) (take i ws))) = 8 * i"
    using assms by (subst length_concat_map_const [where k = 8]) auto
  ultimately show ?thesis
    by (simp add: u64_at_append)
qed

text \<open>An array of pairs of 32-bit numbers.\<close>

definition pair_bytes :: "u32 \<times> u32 \<Rightarrow> bytes" where
  "pair_bytes = (\<lambda>(a, b). le_bytes 4 a @ le_bytes 4 b)"

lemma length_pair_bytes [simp]: "length (pair_bytes z) = 8"
  by (simp add: pair_bytes_def split: prod.split)

lemma length_pairs: "length (concat (map pair_bytes zs)) = length zs * 8"
  by (subst length_concat_map_const [where k = 8]) simp_all

lemma pair_at:
  assumes "i < length zs"
  shows "u32_at (concat (map pair_bytes zs)) (i * 8) = Some (fst (zs ! i))"
    and "u32_at (concat (map pair_bytes zs)) (i * 8 + 4) = Some (snd (zs ! i))"
proof -
  let ?pre = "concat (map pair_bytes (take i zs))" and ?post = "concat (map pair_bytes (drop (Suc i) zs))"
  have pre: "length ?pre = i * 8" using assms length_pairs [of "take i zs"] by simp
  have all: "concat (map pair_bytes zs)
      = ?pre @ le_bytes 4 (fst (zs ! i)) @ (le_bytes 4 (snd (zs ! i)) @ ?post)"
    using assms by (subst id_take_nth_drop [OF assms]) (simp add: pair_bytes_def split: prod.split)
  show "u32_at (concat (map pair_bytes zs)) (i * 8) = Some (fst (zs ! i))"
    unfolding all by (rule u32_at_append [OF pre])
  have "concat (map pair_bytes zs)
      = (?pre @ le_bytes 4 (fst (zs ! i))) @ le_bytes 4 (snd (zs ! i)) @ ?post"
    using all by simp
  then show "u32_at (concat (map pair_bytes zs)) (i * 8 + 4) = Some (snd (zs ! i))"
    using u32_at_append [of "?pre @ le_bytes 4 (fst (zs ! i))" "i * 8 + 4" "snd (zs ! i)" ?post] pre
    by simp
qed

text \<open>The multiples of \<open>m\<close> below \<open>n\<close>.\<close>

lemma every_nth:
  assumes "0 < m"
  shows "filter (\<lambda>i. i mod m = 0) [0 ..< n] = map (\<lambda>b. b * m) [0 ..< (n + (m - 1)) div m]"
proof (induction n)
  case 0
  have "(m - 1) div m = 0" using assms by simp
  then show ?case by simp
next
  case (Suc n)
  show ?case
  proof (cases "n mod m = 0")
    case True
    then obtain k where n: "n = m * k" by (metis mod_eq_0_iff_dvd dvd_def)
    have "(Suc n + (m - 1)) div m = Suc k" "(n + (m - 1)) div m = k"
      by (rule div_nat_eqI; use n assms in simp)+
    then show ?thesis using Suc True n by (simp add: mult.commute)
  next
    case False
    then have r: "0 < n mod m" by simp
    have "n mod m < m" using assms by simp
    then have "m * (n div m) + 1 \<le> n" "n < m + m * (n div m)"
      using r mult_div_mod_eq [of m n] by linarith+
    then have "(Suc n + (m - 1)) div m = Suc (n div m)" "(n + (m - 1)) div m = Suc (n div m)"
      by - (rule div_nat_eqI; use assms in \<open>simp; linarith\<close>)+
    then show ?thesis using Suc False by simp
  qed
qed

text \<open>Rows cut into blocks of \<open>n\<close>: the row at \<open>i\<close> is row \<open>i mod n\<close> of block \<open>i div n\<close>.\<close>

definition blocks_of :: "nat \<Rightarrow> 'a list list \<Rightarrow> bool" where
  "blocks_of n css \<longleftrightarrow> (\<forall>k. Suc k < length css \<longrightarrow> length (css ! k) = n)
     \<and> (\<forall>cs \<in> set css. cs \<noteq> [] \<and> length cs \<le> n)"

lemma blocks_of_Nil [simp]: "blocks_of n []"
  by (simp add: blocks_of_def)

lemma blocks_of_tl: "blocks_of n (cs # css) \<Longrightarrow> blocks_of n css"
  unfolding blocks_of_def by fastforce

lemma nth_blocks:
  "0 < n \<Longrightarrow> blocks_of n css \<Longrightarrow> i < length (concat css) \<Longrightarrow>
     i div n < length css \<and> i mod n < length (css ! (i div n))
     \<and> concat css ! i = css ! (i div n) ! (i mod n)"
proof (induction css arbitrary: i)
  case (Cons cs css)
  show ?case
  proof (cases "i < length cs")
    case True
    moreover have "length cs \<le> n" using Cons.prems(2) by (simp add: blocks_of_def)
    ultimately show ?thesis by (simp add: nth_append)
  next
    case False
    then have "css \<noteq> []" using Cons.prems(3) by auto
    then have len: "length cs = n" using Cons.prems(2) by (auto simp: blocks_of_def)
    have "i - n < length (concat css)" using Cons.prems(3) False len by simp
    from Cons.IH [OF Cons.prems(1) blocks_of_tl [OF Cons.prems(2)] this] show ?thesis
      using False len Cons.prems(1) by (simp add: nth_append le_div_geq le_mod_geq)
  qed
qed simp

lemma nth_blocks_conv:
  "blocks_of n css \<Longrightarrow> b < length css \<Longrightarrow> j < length (css ! b) \<Longrightarrow>
     b * n + j < length (concat css) \<and> concat css ! (b * n + j) = css ! b ! j \<and> j < n"
proof (induction css arbitrary: b)
  case (Cons cs css)
  show ?case
  proof (cases b)
    case 0
    then show ?thesis
      using Cons.prems by (auto simp: nth_append blocks_of_def)
  next
    case (Suc b')
    then have "css \<noteq> []" using Cons.prems(2) by auto
    then have "length cs = n" using Cons.prems(1) by (auto simp: blocks_of_def)
    then show ?thesis
      using Suc Cons.IH [OF blocks_of_tl [OF Cons.prems(1)], of b'] Cons.prems
      by (simp add: nth_append add.commute add.left_commute)
  qed
qed simp

lemma blocks_of_snoc:
  assumes "blocks_of n css" "\<forall>cs \<in> set css. length cs = n" "cs \<noteq> []" "length cs \<le> n"
  shows "blocks_of n (css @ [cs])"
  using assms by (auto simp: blocks_of_def nth_append)

lemma length_concat_const:
  "\<forall>cs \<in> set css. length cs = n \<Longrightarrow> length (concat css) = n * length css"
  by (induction css) auto

text \<open>Pieces written one after another are found at the sum of the lengths before them.\<close>

definition starts :: "'a list list \<Rightarrow> nat list" where
  "starts xss = map (\<lambda>i. length (concat (take i xss))) [0 ..< length xss]"

lemma length_starts [simp]: "length (starts xss) = length xss"
  by (simp add: starts_def)

lemma nth_starts: "i < length xss \<Longrightarrow> starts xss ! i = length (concat (take i xss))"
  by (simp add: starts_def)

lemma starts_snoc: "starts (xss @ [xs]) = starts xss @ [length (concat xss)]"
  by (auto simp: starts_def)

lemma concat_split_nth:
  "i < length xss \<Longrightarrow> concat xss = concat (take i xss) @ xss ! i @ concat (drop (Suc i) xss)"
  by (metis concat.simps(2) concat_append id_take_nth_drop)

lemma starts_le: "i < length xss \<Longrightarrow> starts xss ! i + length (xss ! i) \<le> length (concat xss)"
  using concat_split_nth [of i xss] by (simp add: nth_starts)

lemma foldl_append_concat: "foldl (\<lambda>out c. out @ g c) out cs = out @ concat (map g cs)"
  by (induction cs arbitrary: out) auto

text \<open>The bits of a word bound it.\<close>

lemma take_bit_eq_iff_bits:
  "take_bit n (w :: 'a::len word) = w \<longleftrightarrow> (\<forall>i. bit w i \<longrightarrow> i < n)"
  by (auto simp: bit_eq_iff bit_take_bit_iff dest: bit_imp_le_length)

lemma unat_less_power_iff:
  "unat (w :: 'a::len word) < 2 ^ n \<longleftrightarrow> (\<forall>i. bit w i \<longrightarrow> i < n)"
proof -
  have "unat w < 2 ^ n \<longleftrightarrow> unat (take_bit n w) = unat w"
    by (simp add: unsigned_take_bit_eq take_bit_nat_eq_self_iff)
  also have "\<dots> \<longleftrightarrow> take_bit n w = w" by (metis unsigned_word_eqI)
  finally show ?thesis by (simp add: take_bit_eq_iff_bits)
qed

text \<open>A byte string comes before everything it begins.\<close>

lemma less_append_Cons [simp]: "(p :: 'a::linorder list) < p @ x # r"
  by (induction p) auto

section \<open>Binary search\<close>

text \<open>
  The loop every table shares: \<open>lo\<close> and \<open>hi\<close> close in on the first position where \<open>before\<close>
  fails.
\<close>

function bsearch :: "(nat \<Rightarrow> bool) \<Rightarrow> nat \<Rightarrow> nat \<Rightarrow> nat" where
  "bsearch before lo hi =
     (if lo < hi
      then let mid = lo + (hi - lo) div 2
           in if before mid then bsearch before (mid + 1) hi else bsearch before lo mid
      else lo)"
  by pat_completeness auto
termination
  by (relation "measure (\<lambda>(before, lo, hi). hi - lo)") auto

declare bsearch.simps [simp del]

lemma bsearch_stop [simp]: "hi \<le> lo \<Longrightarrow> bsearch before lo hi = lo"
  by (simp add: bsearch.simps)

lemma bsearch_cong:
  "(\<And>i. i < hi \<Longrightarrow> before i = before' i) \<Longrightarrow> bsearch before lo hi = bsearch before' lo hi"
proof (induction before lo hi rule: bsearch.induct)
  case (1 before lo hi)
  let ?mid = "lo + (hi - lo) div 2"
  show ?case
  proof (cases "lo < hi")
    case True
    then have "?mid < hi" by auto
    with 1 True show ?thesis
      by (simp add: bsearch.simps [of before lo hi] bsearch.simps [of before' lo hi] Let_def)
  qed simp
qed

lemma bsearch_bounds: "lo \<le> hi \<Longrightarrow> lo \<le> bsearch before lo hi \<and> bsearch before lo hi \<le> hi"
proof (induction before lo hi rule: bsearch.induct)
  case (1 before lo hi)
  let ?mid = "lo + (hi - lo) div 2"
  show ?case
  proof (cases "lo < hi")
    case True
    then have mid: "lo \<le> ?mid" "?mid < hi" by auto
    show ?thesis
      using 1(1) [OF True refl] 1(2) [OF True refl] mid True
      by (cases "before ?mid") (auto simp: bsearch.simps [of before lo hi] Let_def)
  next
    case False
    with 1(3) show ?thesis by simp
  qed
qed

lemma bsearch_spec:
  assumes down: "\<And>i j. i \<le> j \<Longrightarrow> j < n \<Longrightarrow> before j \<Longrightarrow> before i"
    and "lo \<le> hi" "hi \<le> n" "\<And>i. i < lo \<Longrightarrow> before i" "\<And>i. hi \<le> i \<Longrightarrow> i < n \<Longrightarrow> \<not> before i"
  shows "(\<forall>i < bsearch before lo hi. before i) \<and> (\<forall>i < n. bsearch before lo hi \<le> i \<longrightarrow> \<not> before i)"
  using assms
proof (induction before lo hi rule: bsearch.induct)
  case (1 before lo hi)
  let ?mid = "lo + (hi - lo) div 2"
  show ?case
  proof (cases "lo < hi")
    case True
    then have mid: "lo \<le> ?mid" "?mid < hi" by auto
    show ?thesis
    proof (cases "before ?mid")
      case yes: True
      have below: "before i" if "i < ?mid + 1" for i
        using 1(3) [of i ?mid] yes mid that 1(5) by simp
      have "(\<forall>i < bsearch before (?mid + 1) hi. before i)
          \<and> (\<forall>i < n. bsearch before (?mid + 1) hi \<le> i \<longrightarrow> \<not> before i)"
        by (rule 1(1) [OF True refl yes]) (use mid 1(3,5,7) below in auto)
      then show ?thesis
        using True yes by (simp add: bsearch.simps [of before lo hi] Let_def)
    next
      case no: False
      have above: "\<not> before i" if "?mid \<le> i" "i < n" for i
        using 1(3) [of ?mid i] no that by auto
      have "(\<forall>i < bsearch before lo ?mid. before i)
          \<and> (\<forall>i < n. bsearch before lo ?mid \<le> i \<longrightarrow> \<not> before i)"
        by (rule 1(2) [OF True refl no]) (use mid 1(3,5,6) above in auto)
      then show ?thesis
        using True no by (simp add: bsearch.simps [of before lo hi] Let_def)
    qed
  next
    case False
    with 1(4,6,7) show ?thesis by simp
  qed
qed

text \<open>
  The interface of a sorted table: \<open>key t i\<close> never falls as \<open>i\<close> rises through a table that
  is \<open>ok\<close>.  What the search over it answers is proved once, here.
\<close>

locale sorted_table =
  fixes len :: "'t \<Rightarrow> nat"
    and key :: "'t \<Rightarrow> nat \<Rightarrow> 'k::linorder"
    and ok :: "'t \<Rightarrow> bool"
  assumes key_mono: "ok t \<Longrightarrow> i \<le> j \<Longrightarrow> j < len t \<Longrightarrow> key t i \<le> key t j"
begin

lemma search_le: "bsearch (\<lambda>m. key t m < x) 0 (len t) \<le> len t"
  using bsearch_bounds [of 0 "len t"] by simp

lemma search_spec:
  assumes "ok t"
  shows "(\<forall>i < bsearch (\<lambda>m. key t m < x) 0 (len t). key t i < x)
    \<and> (\<forall>i < len t. bsearch (\<lambda>m. key t m < x) 0 (len t) \<le> i \<longrightarrow> \<not> key t i < x)"
  by (rule bsearch_spec) (auto intro: le_less_trans [OF key_mono [OF assms]])

lemma search_below:
  "ok t \<Longrightarrow> i < bsearch (\<lambda>m. key t m < x) 0 (len t) \<Longrightarrow> key t i < x"
  using search_spec by blast

lemma search_above:
  "ok t \<Longrightarrow> bsearch (\<lambda>m. key t m < x) 0 (len t) \<le> i \<Longrightarrow> i < len t \<Longrightarrow> x \<le> key t i"
  using search_spec [of t x] by (simp add: not_less)

text \<open>The rows from there that still carry the key are all the rows that carry it.\<close>

lemma run_of_key:
  assumes "ok t"
  shows "takeWhile (\<lambda>i. key t i = x) [bsearch (\<lambda>m. key t m < x) 0 (len t) ..< len t]
       = filter (\<lambda>i. key t i = x) [0 ..< len t]"
proof -
  let ?lo = "bsearch (\<lambda>m. key t m < x) 0 (len t)"
  have split: "[0 ..< len t] = [0 ..< ?lo] @ [?lo ..< len t]"
    using upt_add_eq_append [of 0 ?lo "len t - ?lo"] search_le [of t x] by simp
  have "filter (\<lambda>i. key t i = x) [0 ..< ?lo] = []"
    using search_below [OF assms, of _ x] by (force simp: filter_empty_conv)
  moreover have "takeWhile (\<lambda>i. key t i = x) (map id is) = filter (\<lambda>i. key t i = x) is"
    if "sorted is" "\<forall>i \<in> set is. ?lo \<le> i \<and> i < len t" for "is"
    using that
  proof (induction "is")
    case (Cons i js)
    show ?case
    proof (cases "key t i = x")
      case False
      then have "x < key t i"
        using search_above [OF assms, of x i] Cons.prems(2) by (auto simp: order.order_iff_strict)
      then have "\<forall>j \<in> set js. x < key t j"
        using Cons.prems key_mono [OF assms] by (auto intro: less_le_trans)
      then have "filter (\<lambda>i. key t i = x) js = []"
        by (force simp: filter_empty_conv)
      with False show ?thesis by simp
    qed (use Cons in auto)
  qed simp
  from this [of "[?lo ..< len t]"] have "takeWhile (\<lambda>i. key t i = x) [?lo ..< len t]
      = filter (\<lambda>i. key t i = x) [?lo ..< len t]"
    by simp
  ultimately show ?thesis
    by (simp add: split)
qed

end

section \<open>Table files\<close>

text \<open>
  The interface of a file the index reads in place: what \<open>finish\<close> writes, \<open>open\<close> accepts,
  and every row is then given back by its number.  \<open>fits\<close> is the size limit of the format.
\<close>

locale table_file =
  fixes finish :: "'a list \<Rightarrow> bytes"
    and load :: "bytes \<Rightarrow> 't option"
    and rows :: "'t \<Rightarrow> nat"
    and row :: "'t \<Rightarrow> nat \<Rightarrow> 'b option"
    and view :: "'a list \<Rightarrow> 'b list"
    and fits :: "'a list \<Rightarrow> bool"
  assumes load_finish: "fits xs \<Longrightarrow> \<exists>t. load (finish xs) = Some t"
    and rows_finish: "fits xs \<Longrightarrow> load (finish xs) = Some t \<Longrightarrow> rows t = length (view xs)"
    and row_finish: "fits xs \<Longrightarrow> load (finish xs) = Some t \<Longrightarrow> i < length (view xs)
      \<Longrightarrow> row t i = Some (view xs ! i)"
begin

lemma read_all:
  "fits xs \<Longrightarrow> load (finish xs) = Some t \<Longrightarrow> map (row t) [0 ..< rows t] = map Some (view xs)"
  by (rule nth_equalityI) (simp_all add: rows_finish row_finish)

text \<open>Two tables that write the same bytes hold the same rows.\<close>

lemma finish_injective:
  assumes "fits xs" "fits ys" "finish xs = finish ys"
  shows "view xs = view ys"
proof -
  obtain t where "load (finish xs) = Some t" using load_finish [OF assms(1)] by blast
  then have "map Some (view xs) = map Some (view ys)"
    using read_all [OF assms(1)] read_all [OF assms(2)] assms(3) by metis
  then show ?thesis by (simp add: inj_map_eq_map)
qed

end

end
