(* ===== verification/Paths.thy ===== *)
theory Paths
  imports Prelude "HOL-Library.Sublist"
begin

text \<open>
  Paths as every layer sees them: \<open>/\<close>-separated byte strings.

  \<^item> \<open>under\<close>, \<open>ancestors\<close> and \<open>prefix_set\<close>: \<open>crates/scour-core/src/types/prefix.rs\<close>, a set of
    paths asked whether anything is at or below a member.
  \<^item> \<open>entry_name\<close>, \<open>entry_parent\<close>, \<open>ext_str\<close>: \<open>crates/scour-core/src/types/entry.rs\<close>.
  \<^item> \<open>split_path\<close>, \<open>join_path\<close>: how a row stores a path and gives it back,
    \<open>Segment::split_path\<close> and \<open>Segment::path\<close> of \<open>crates/scour-index-native/src/search.rs\<close>.

  The lemmas show that a prefix set answers like the slow question over every path it was
  given, whichever of its two strategies it takes, that every operation keeps its
  invariant, and when splitting a path and joining it again gives the path back.
\<close>

section \<open>Separators\<close>

text \<open>\<open>p.trim_end_matches('/')\<close>.\<close>

definition trim_slash :: "bytes \<Rightarrow> bytes" where
  "trim_slash p = rev (dropWhile (\<lambda>b. b = SLASH) (rev p))"

text \<open>\<open>p.rfind(c)\<close>: where the last \<open>c\<close> is.\<close>

definition rfind :: "'a \<Rightarrow> 'a list \<Rightarrow> nat option" where
  "rfind c p = (let n = length (takeWhile (\<lambda>b. b \<noteq> c) (rev p))
     in if n < length p then Some (length p - 1 - n) else None)"

lemma rfind_None [simp]:
  assumes "c \<notin> set p"
  shows "rfind c p = None"
proof -
  have "takeWhile (\<lambda>b. b \<noteq> c) (rev p) = rev p"
    using assms by (auto simp: takeWhile_eq_all_conv)
  then have "length (takeWhile (\<lambda>b. b \<noteq> c) (rev p)) = length p"
    by (simp only: length_rev)
  then show ?thesis by (simp add: rfind_def Let_def)
qed

lemma rfind_Some: "c \<notin> set q \<Longrightarrow> rfind c (p @ c # q) = Some (length p)"
proof -
  assume "c \<notin> set q"
  then have "takeWhile (\<lambda>b. b \<noteq> c) (rev (p @ c # q)) = rev q"
    by (auto simp: takeWhile_append2 intro!: takeWhile_append2 [THEN trans])
  then show ?thesis by (simp add: rfind_def Let_def)
qed

lemma rfind_cases:
  obtains (none) "c \<notin> set p" "rfind c p = None"
  | (some) q r where "p = q @ c # r" "c \<notin> set r" "rfind c p = Some (length q)"
proof (cases "c \<in> set p")
  case True
  then obtain q r where "p = q @ c # r" "c \<notin> set r"
    by (meson split_list_last)
  then show ?thesis using some rfind_Some by metis
qed (use none in simp)

lemma rfind_less: "rfind c p = Some i \<Longrightarrow> i < length p"
  by (rule rfind_cases [of c p]) auto

lemma trim_slash_Nil [simp]: "trim_slash [] = []"
  by (simp add: trim_slash_def)

lemma trim_slash_snoc: "trim_slash (p @ [b]) = (if b = SLASH then trim_slash p else p @ [b])"
  by (simp add: trim_slash_def)

lemma trim_slash_last: "trim_slash p = [] \<or> last (trim_slash p) \<noteq> SLASH"
  by (induction p rule: rev_induct) (auto simp: trim_slash_snoc)

lemma trim_slash_id: "p = [] \<or> last p \<noteq> SLASH \<Longrightarrow> trim_slash p = p"
  by (induction p rule: rev_induct) (auto simp: trim_slash_snoc)

lemma trim_slash_idem [simp]: "trim_slash (trim_slash p) = trim_slash p"
  by (rule trim_slash_id [OF trim_slash_last])

lemma trim_slash_split: "\<exists>k. p = trim_slash p @ replicate k SLASH"
proof (induction p rule: rev_induct)
  case (snoc b p)
  then obtain k where k: "p = trim_slash p @ replicate k SLASH" by blast
  show ?case
  proof (cases "b = SLASH")
    case True
    then have "p @ [b] = trim_slash (p @ [b]) @ replicate (Suc k) SLASH"
      using k by (metis append.assoc replicate_append_same replicate_Suc trim_slash_snoc)
    then show ?thesis by blast
  next
    case False
    then show ?thesis by (intro exI [of _ 0]) (simp add: trim_slash_snoc)
  qed
qed simp

lemma trim_slash_append:
  "trim_slash (p @ q) = (if trim_slash q = [] then trim_slash p else p @ trim_slash q)"
  by (induction q rule: rev_induct) (auto simp: trim_slash_snoc simp flip: append_assoc)

section \<open>At or below\<close>

text \<open>\<open>under\<close> (prefix.rs): a separator boundary, not a string prefix.\<close>

definition under :: "bytes \<Rightarrow> bytes \<Rightarrow> bool" where
  "under path pre =
     (let p = trim_slash pre
      in if p = [] then True
         else path = p
            \<or> (length p < length path \<and> take (length p) path = p \<and> path ! length p = SLASH))"

text \<open>What it means: the path itself, or the path, a separator and more.\<close>

lemma at_boundary_iff:
  "(length p < length path \<and> take (length p) path = p \<and> path ! length p = c)
     \<longleftrightarrow> (\<exists>rest. path = p @ c # rest)"
proof
  assume "length p < length path \<and> take (length p) path = p \<and> path ! length p = c"
  then have "path = p @ c # drop (Suc (length p)) path"
    by (metis id_take_nth_drop)
  then show "\<exists>rest. path = p @ c # rest" by blast
qed auto

lemma under_iff:
  "under path pre \<longleftrightarrow> trim_slash pre = [] \<or> path = trim_slash pre
     \<or> (\<exists>rest. path = trim_slash pre @ SLASH # rest)"
  by (simp add: under_def at_boundary_iff Let_def)

lemma under_refl: "under p p"
proof -
  obtain k where "p = trim_slash p @ replicate k SLASH"
    using trim_slash_split by blast
  then show ?thesis
    by (cases k) (auto simp: under_iff)
qed

lemma under_trim [simp]: "under p (trim_slash q) = under p q"
  by (simp add: under_iff)

lemma trim_slash_join:
  assumes "q \<noteq> []" "last q \<noteq> SLASH"
  shows "trim_slash (q @ SLASH # r) = q \<or> (\<exists>r'. trim_slash (q @ SLASH # r) = q @ SLASH # r')"
proof (cases "trim_slash r = []")
  case True
  have "trim_slash (SLASH # r) = trim_slash ([SLASH] @ r)" by simp
  then have "trim_slash (SLASH # r) = []"
    using True by (simp only: trim_slash_append) (simp add: trim_slash_def)
  then show ?thesis
    using assms by (simp add: trim_slash_append trim_slash_id)
next
  case False
  have "trim_slash (q @ SLASH # r) = trim_slash ((q @ [SLASH]) @ r)" by simp
  then show ?thesis
    using False by (simp only: trim_slash_append) simp
qed

text \<open>Trailing separators of the path asked about change nothing.\<close>

lemma under_trim_path: "under (trim_slash p) q = under p q"
proof (cases "trim_slash q = []")
  case False
  let ?q = "trim_slash q"
  have last: "last ?q \<noteq> SLASH" using trim_slash_last [of q] False by blast
  obtain k where k: "p = trim_slash p @ replicate k SLASH"
    using trim_slash_split by blast
  show ?thesis
  proof
    assume "under (trim_slash p) q"
    then consider "trim_slash p = ?q" | rest where "trim_slash p = ?q @ SLASH # rest"
      using False by (auto simp: under_iff)
    then show "under p q"
      by cases (use k False in \<open>cases k; auto simp: under_iff\<close>)+
  next
    assume "under p q"
    then consider "p = ?q" | rest where "p = ?q @ SLASH # rest"
      using False by (auto simp: under_iff)
    then show "under (trim_slash p) q"
    proof cases
      case 1
      then show ?thesis by (metis trim_slash_idem under_refl under_trim)
    next
      case 2
      with trim_slash_join [OF False last] show ?thesis
        by (auto simp: under_iff)
    qed
  qed
qed (simp add: under_iff)

lemma under_trans:
  assumes "under p q" "under q r"
  shows "under p r"
proof (cases "trim_slash r = []")
  case False
  have "under (trim_slash q) r" using assms(2) by (simp add: under_trim_path)
  then have "trim_slash q \<noteq> []" using False by (auto simp: under_iff)
  with assms(1) \<open>under (trim_slash q) r\<close> False show ?thesis
    by (auto simp: under_iff)
qed (simp add: under_iff)

section \<open>Ancestors\<close>

text \<open>
  \<open>ancestors\<close> (prefix.rs): the path, then its parent, down to the empty string.
\<close>

function ancestors_from :: "bytes \<Rightarrow> bytes list" where
  "ancestors_from p =
     p # (if p = [] then []
          else ancestors_from (take (case rfind SLASH p of None \<Rightarrow> 0 | Some i \<Rightarrow> i) p))"
  by pat_completeness auto
termination
  by (relation "measure length") (auto split: option.splits dest: rfind_less)

declare ancestors_from.simps [simp del]

definition ancestors :: "bytes \<Rightarrow> bytes list" where
  "ancestors path = ancestors_from (trim_slash path)"

lemma ancestors_from_Nil [simp]: "ancestors_from [] = [[]]"
  by (simp add: ancestors_from.simps)

lemma set_ancestors_from:
  "set (ancestors_from p) = {a. a = [] \<or> a = p \<or> (\<exists>rest. p = a @ SLASH # rest)}"
proof (induction p rule: ancestors_from.induct)
  case (1 p)
  show ?case
  proof (cases "p = []")
    case False
    show ?thesis
    proof (cases p rule: rfind_cases [of SLASH])
      case none
      then show ?thesis
        using False by (auto simp: ancestors_from.simps [of p])
    next
      case (some q r)
      have "(\<exists>rest. p = a @ SLASH # rest) \<longleftrightarrow> a = q \<or> (\<exists>rest. q = a @ SLASH # rest)" for a
        using some(1,2) by (auto simp: append_eq_append_conv2 append_eq_Cons_conv Cons_eq_append_conv)
      moreover have "set (ancestors_from q)
          = {a. a = [] \<or> a = q \<or> (\<exists>rest. q = a @ SLASH # rest)}"
        using 1 [OF False] some by simp
      moreover have "ancestors_from p = p # ancestors_from q"
        using False some by (subst ancestors_from.simps) simp
      ultimately show ?thesis
        unfolding some(1) by auto
    qed
  qed simp
qed

text \<open>Asked of a normalised member, the ancestors are exactly what \<open>under\<close> accepts.\<close>

lemma ancestors_under:
  assumes "trim_slash q = q"
  shows "q \<in> set (ancestors path) \<longleftrightarrow> under path q"
proof -
  have "q \<in> set (ancestors path) \<longleftrightarrow> under (trim_slash path) q"
    using assms by (auto simp: ancestors_def set_ancestors_from under_iff)
  then show ?thesis by (simp add: under_trim_path)
qed

section \<open>Sets of paths\<close>

text \<open>\<open>PrefixSet\<close> (prefix.rs): the sorted, reduced paths, and the same paths hashed.\<close>

record prefix_set =
  ps_paths :: "bytes list"
  ps_lookup :: "bytes set"

text \<open>The loop of \<open>reduce\<close>: a path is kept unless it is under the last one kept.\<close>

fun keep_loop :: "bytes list \<Rightarrow> bytes list \<Rightarrow> bytes list" where
  "keep_loop kept [] = kept"
| "keep_loop kept (p # ps) =
     keep_loop (if kept = [] \<or> \<not> under p (last kept) then kept @ [p] else kept) ps"

definition reduce :: "prefix_set \<Rightarrow> prefix_set" where
  "reduce s =
     (let paths = remdups_adj (sort (map trim_slash (ps_paths s)));
          kept = keep_loop [] paths
      in \<lparr>ps_paths = kept, ps_lookup = set kept\<rparr>)"

definition prefix_set_new :: "bytes list \<Rightarrow> prefix_set" where
  "prefix_set_new paths = reduce \<lparr>ps_paths = paths, ps_lookup = {}\<rparr>"

definition prefix_set_extend :: "prefix_set \<Rightarrow> bytes list \<Rightarrow> prefix_set" where
  "prefix_set_extend s paths = reduce (s\<lparr>ps_paths := ps_paths s @ paths\<rparr>)"

definition covers :: "prefix_set \<Rightarrow> bytes \<Rightarrow> bool" where
  "covers s path =
     (let n = length (ps_paths s)
      in if n = 0 then False
         else if n \<le> 4 then list_ex (\<lambda>p. under path p) (ps_paths s)
         else list_ex (\<lambda>a. a \<in> ps_lookup s) (ancestors path))"

definition forget :: "prefix_set \<Rightarrow> bytes \<Rightarrow> bool \<times> prefix_set" where
  "forget s path =
     (let path = trim_slash path
      in if path \<notin> ps_lookup s then (False, s)
         else (True, s\<lparr>ps_lookup := ps_lookup s - {path},
                       ps_paths := filter (\<lambda>p. p \<noteq> path) (ps_paths s)\<rparr>))"

definition prefix_set_clear :: "prefix_set \<Rightarrow> prefix_set" where
  "prefix_set_clear s = s\<lparr>ps_paths := [], ps_lookup := {}\<rparr>"

definition prefix_set_is_empty :: "prefix_set \<Rightarrow> bool" where
  "prefix_set_is_empty s = (ps_paths s = [])"

definition prefix_set_len :: "prefix_set \<Rightarrow> nat" where
  "prefix_set_len s = length (ps_paths s)"

definition into_paths :: "prefix_set \<Rightarrow> bytes list" where
  "into_paths s = ps_paths s"

text \<open>What every operation keeps: sorted, no duplicate, normalised, and hashed.\<close>

definition prefix_set_ok :: "prefix_set \<Rightarrow> bool" where
  "prefix_set_ok s \<longleftrightarrow> sorted (ps_paths s) \<and> distinct (ps_paths s)
     \<and> (\<forall>p \<in> set (ps_paths s). trim_slash p = p) \<and> ps_lookup s = set (ps_paths s)"

text \<open>What a set of paths promises: some path it was given is at or above the one asked about.\<close>

definition covered_by :: "bytes list \<Rightarrow> bytes \<Rightarrow> bool" where
  "covered_by ps path \<longleftrightarrow> (\<exists>p \<in> set ps. under path p)"

lemma covers_ok:
  assumes "prefix_set_ok s"
  shows "covers s path = covered_by (ps_paths s) path"
  using assms ancestors_under [of _ path]
  by (auto simp: covers_def covered_by_def prefix_set_ok_def list_ex_iff Let_def)

lemma keep_loop_append: "\<exists>more. keep_loop kept ps = kept @ more"
  by (induction kept ps rule: keep_loop.induct) (auto split: if_splits)

lemma set_keep_loop: "set (keep_loop kept ps) \<subseteq> set kept \<union> set ps"
  by (induction kept ps rule: keep_loop.induct) (auto split: if_splits)

text \<open>What is dropped is under something kept.\<close>

lemma keep_loop_covers:
  "p \<in> set kept \<union> set ps \<Longrightarrow> \<exists>k \<in> set (keep_loop kept ps). under p k"
proof (induction kept ps rule: keep_loop.induct)
  case (1 kept)
  then show ?case using under_refl by auto
next
  case (2 kept q ps)
  show ?case
  proof (cases "kept = [] \<or> \<not> under q (last kept)")
    case False
    obtain more where "keep_loop kept ps = kept @ more"
      using keep_loop_append by blast
    then have "last kept \<in> set (keep_loop kept ps)" using False by simp
    then show ?thesis using 2 False by auto
  qed (use 2 in auto)
qed

lemma keep_loop_sorted:
  "sorted (kept @ ps) \<Longrightarrow> distinct (kept @ ps)
     \<Longrightarrow> sorted (keep_loop kept ps) \<and> distinct (keep_loop kept ps)"
proof (induction kept ps rule: keep_loop.induct)
  case (2 kept p ps)
  have "sorted (kept @ ps)" "distinct (kept @ ps)"
    using 2(2,3) by (auto simp: sorted_append)
  then show ?case using 2 by simp
qed simp

lemma distinct_remdups_adj: "sorted xs \<Longrightarrow> distinct (remdups_adj xs)"
  by (induction xs rule: remdups_adj.induct) (auto dest: antisym)

lemma set_reduced: "set (remdups_adj (sort (map trim_slash ps))) = trim_slash ` set ps"
  by simp

lemma reduce_ok: "prefix_set_ok (reduce s)"
proof -
  let ?ps = "remdups_adj (sort (map trim_slash (ps_paths s)))"
  have "sorted ?ps" "distinct ?ps"
    by (simp_all add: distinct_remdups_adj sorted_remdups_adj)
  then have "sorted (keep_loop [] ?ps)" "distinct (keep_loop [] ?ps)"
    using keep_loop_sorted [of "[]" ?ps] by auto
  moreover have "\<forall>p \<in> set (keep_loop [] ?ps). trim_slash p = p"
    using set_keep_loop [of "[]" ?ps] by auto
  ultimately show ?thesis
    by (simp add: prefix_set_ok_def reduce_def Let_def)
qed

lemma reduce_covers: "covered_by (ps_paths (reduce s)) path = covered_by (ps_paths s) path"
proof -
  let ?ps = "remdups_adj (sort (map trim_slash (ps_paths s)))"
  have sub: "set (keep_loop [] ?ps) \<subseteq> trim_slash ` set (ps_paths s)"
    using set_keep_loop [of "[]" ?ps] by simp
  have "\<exists>k \<in> set (keep_loop [] ?ps). under path k" if "p \<in> set (ps_paths s)" "under path p" for p
  proof -
    have "trim_slash p \<in> set [] \<union> set ?ps" using that by simp
    then obtain k where "k \<in> set (keep_loop [] ?ps)" "under (trim_slash p) k"
      using keep_loop_covers by blast
    moreover have "under path (trim_slash p)" using that by simp
    ultimately show ?thesis using under_trans by blast
  qed
  moreover have "\<exists>p \<in> set (ps_paths s). under path p"
    if "k \<in> set (keep_loop [] ?ps)" "under path k" for k
    using subsetD [OF sub that(1)] that(2) by auto
  ultimately show ?thesis
    unfolding covered_by_def reduce_def Let_def by auto
qed

text \<open>The operations keep the invariant.\<close>

lemma prefix_set_new_ok: "prefix_set_ok (prefix_set_new ps)"
  by (simp add: prefix_set_new_def reduce_ok)

lemma prefix_set_extend_ok: "prefix_set_ok (prefix_set_extend s ps)"
  by (simp add: prefix_set_extend_def reduce_ok)

lemma forget_ok: "prefix_set_ok s \<Longrightarrow> prefix_set_ok (snd (forget s path))"
  by (auto simp: prefix_set_ok_def forget_def Let_def sorted_wrt_filter)

lemma prefix_set_clear_ok: "prefix_set_ok (prefix_set_clear s)"
  by (simp add: prefix_set_ok_def prefix_set_clear_def)

section \<open>When the reduction is complete\<close>

text \<open>
  Where no byte sorts below the separator, what lies between a path and something under it
  in the sorted list is itself under the path, and then the one comparison with the last
  path kept is enough.
\<close>

lemma between_under:
  assumes "k \<le> q" "q \<le> k @ SLASH # rest" "\<forall>b \<in> set q. SLASH \<le> b"
  shows "q = k \<or> (\<exists>r. q = k @ SLASH # r)"
  using assms
proof (induction k arbitrary: q)
  case Nil
  then show ?case
    by (cases q) (auto simp: dest!: antisym [of SLASH])
next
  case (Cons a k)
  from Cons.prems(1) obtain b q' where q: "q = b # q'" "a < b \<or> a = b \<and> k \<le> q'"
    by (cases q) auto
  from Cons.prems(2) q have "a = b" "k \<le> q'" "q' \<le> k @ SLASH # rest" by auto
  then show ?case using Cons.IH [of q'] Cons.prems(3) q by auto
qed

definition antichain :: "bytes list \<Rightarrow> bool" where
  "antichain ps \<longleftrightarrow> (\<forall>p \<in> set ps. \<forall>q \<in> set ps. under p q \<longrightarrow> p = q)"

lemma keep_loop_antichain:
  assumes "sorted (kept @ ps)" "distinct (kept @ ps)"
    and "\<forall>p \<in> set (kept @ ps). trim_slash p = p \<and> (\<forall>b \<in> set p. SLASH \<le> b)"
    and "antichain kept"
  shows "antichain (keep_loop kept ps)"
  using assms
proof (induction kept ps rule: keep_loop.induct)
  case (2 kept p ps)
  have rest: "sorted (kept @ ps)" "distinct (kept @ ps)"
    using 2(2,3) by (auto simp: sorted_append)
  show ?case
  proof (cases "kept = [] \<or> \<not> under p (last kept)")
    case True
    have up: "\<not> under p k" if k: "k \<in> set kept" for k
    proof
      assume pk: "under p k"
      have kp: "k \<le> p" "k \<noteq> p" using 2(2,3) k by (auto simp: sorted_append)
      have lastk: "last kept \<in> set kept" using k by (cases kept rule: rev_cases) auto
      have trims: "trim_slash k = k" "trim_slash (last kept) = last kept"
        using 2(4) k lastk by auto
      show False
      proof (cases "k = []")
        case True
        then have "last kept = []"
          using 2(5) k lastk unfolding antichain_def by (auto simp: under_iff)
        then show False using True k \<open>kept = [] \<or> \<not> under p (last kept)\<close>
          by (auto simp: under_iff)
      next
        case False
        with pk kp trims obtain r where r: "p = k @ SLASH # r"
          by (auto simp: under_iff)
        have "k \<le> last kept" "last kept \<le> p"
          using 2(2) k by (cases kept rule: rev_cases; auto simp: sorted_append)+
        moreover have "\<forall>b \<in> set (last kept). SLASH \<le> b"
          using 2(4) k lastk by auto
        ultimately have "last kept = k \<or> (\<exists>r. last kept = k @ SLASH # r)"
          using between_under [of k "last kept" r] r by simp
        then have "under (last kept) k" using trims(1) by (auto simp: under_iff)
        then have "last kept = k"
          using 2(5) k lastk unfolding antichain_def by force
        then show False using True pk k by auto
      qed
    qed
    have down: "\<not> under k p" if k: "k \<in> set kept" for k
    proof
      assume kp: "under k p"
      have le: "k \<le> p" "k \<noteq> p" "trim_slash p = p" using 2(2,3,4) k by (auto simp: sorted_append)
      show False
      proof (cases "p = []")
        case False
        then obtain r where "k = p @ SLASH # r" using kp le by (auto simp: under_iff)
        then have "\<not> k \<le> p" by (simp add: not_le)
        with le show False by simp
      qed (use le in auto)
    qed
    have "antichain (kept @ [p])"
      using 2(5) up down by (auto simp: antichain_def)
    then show ?thesis using 2(1-4) True by simp
  qed (use 2 rest in auto)
qed simp

lemma reduce_antichain:
  assumes "\<forall>p \<in> set (ps_paths s). \<forall>b \<in> set p. SLASH \<le> b"
  shows "antichain (ps_paths (reduce s))"
proof -
  let ?ps = "remdups_adj (sort (map trim_slash (ps_paths s)))"
  have "sorted ?ps" "distinct ?ps"
    by (simp_all add: distinct_remdups_adj sorted_remdups_adj)
  moreover have "\<forall>p \<in> set ?ps. trim_slash p = p \<and> (\<forall>b \<in> set p. SLASH \<le> b)"
    using assms by (auto simp: trim_slash_def dest!: set_dropWhileD)
  ultimately show ?thesis
    using keep_loop_antichain [of "[]" ?ps] by (simp add: reduce_def Let_def antichain_def)
qed

section \<open>The interface of a set of paths\<close>

text \<open>
  What the engine relies on when it collects pending removals: paths are added in batches,
  and a question is answered by what was added, whatever the order of the batches.
\<close>

locale path_cover =
  fixes empty :: 's
    and extend :: "'s \<Rightarrow> bytes list \<Rightarrow> 's"
    and covers :: "'s \<Rightarrow> bytes \<Rightarrow> bool"
    and ok :: "'s \<Rightarrow> bool"
  assumes ok_empty: "ok empty"
    and covers_empty: "\<not> covers empty path"
    and ok_extend: "ok s \<Longrightarrow> ok (extend s ps)"
    and covers_extend: "ok s \<Longrightarrow> covers (extend s ps) path \<longleftrightarrow> covers s path \<or> covered_by ps path"
begin

lemma ok_batches: "ok s \<Longrightarrow> ok (foldl extend s pss)"
  by (induction pss arbitrary: s) (auto intro: ok_extend)

lemma covers_batches_from:
  "ok s \<Longrightarrow> covers (foldl extend s pss) path
     \<longleftrightarrow> covers s path \<or> covered_by (concat pss) path"
  by (induction pss arbitrary: s) (auto simp: covers_extend ok_extend covered_by_def)

lemma covers_batches: "covers (foldl extend empty pss) path \<longleftrightarrow> covered_by (concat pss) path"
  using covers_batches_from [OF ok_empty] covers_empty by simp

lemma batches_commute:
  "set (concat pss) = set (concat qss)
     \<Longrightarrow> covers (foldl extend empty pss) path = covers (foldl extend empty qss) path"
  unfolding covers_batches by (simp add: covered_by_def)

end

definition prefix_set_default :: prefix_set where
  "prefix_set_default = \<lparr>ps_paths = [], ps_lookup = {}\<rparr>"

interpretation pset: path_cover prefix_set_default prefix_set_extend covers prefix_set_ok
proof
  show "prefix_set_ok prefix_set_default"
    by (simp add: prefix_set_ok_def prefix_set_default_def)
  show "\<not> covers prefix_set_default path" for path
    by (simp add: covers_def prefix_set_default_def)
next
  fix s ps path
  assume ok: "prefix_set_ok s"
  show "prefix_set_ok (prefix_set_extend s ps)" by (rule prefix_set_extend_ok)
  show "covers (prefix_set_extend s ps) path = (covers s path \<or> covered_by ps path)"
    using covers_ok [OF prefix_set_extend_ok, of s ps path] covers_ok [OF ok, of path]
      reduce_covers [of "s\<lparr>ps_paths := ps_paths s @ ps\<rparr>" path]
    by (auto simp: prefix_set_extend_def covered_by_def)
qed

section \<open>A row's path\<close>

text \<open>\<open>Entry::name\<close> and \<open>Entry::parent\<close> (entry.rs).\<close>

definition entry_name :: "bytes \<Rightarrow> bytes" where
  "entry_name path = (case rfind SLASH path of Some i \<Rightarrow> drop (i + 1) path | None \<Rightarrow> path)"

definition entry_parent :: "bytes \<Rightarrow> bytes" where
  "entry_parent path =
     (case rfind SLASH path of
        Some i \<Rightarrow> if i = 0 then [SLASH] else take i path
      | None \<Rightarrow> [])"

text \<open>\<open>path.rsplit_once(c)\<close>.\<close>

definition rsplit_once :: "'a \<Rightarrow> 'a list \<Rightarrow> ('a list \<times> 'a list) option" where
  "rsplit_once c p = map_option (\<lambda>i. (take i p, drop (Suc i) p)) (rfind c p)"

text \<open>\<open>ext_str\<close> (entry.rs): the extension as spelled.\<close>

definition ext_str :: "bytes \<Rightarrow> bytes" where
  "ext_str name =
     (case rsplit_once 0x2E name of
        Some (stem, ext) \<Rightarrow> if stem \<noteq> [] \<and> ext \<noteq> [] \<and> length ext \<le> 12 then ext else []
      | None \<Rightarrow> [])"

text \<open>\<open>Segment::split_path\<close> and the join of \<open>Segment::path\<close> (search.rs).\<close>

definition split_path :: "bytes \<Rightarrow> bytes \<times> bytes" where
  "split_path path =
     (case rsplit_once SLASH path of
        Some (parent, name) \<Rightarrow> if parent = [] then ([SLASH], name) else (parent, name)
      | None \<Rightarrow> ([], path))"

definition join_path :: "bytes \<Rightarrow> bytes \<Rightarrow> bytes" where
  "join_path dir name =
     (if dir = [] then name
      else if dir = [SLASH] then SLASH # name
      else dir @ SLASH # name)"

lemma split_path_entry: "split_path p = (entry_parent p, entry_name p)"
  by (rule rfind_cases [of SLASH p])
     (auto simp: split_path_def entry_parent_def entry_name_def rsplit_once_def)

lemma entry_name_no_slash: "SLASH \<notin> set (entry_name p)"
  by (rule rfind_cases [of SLASH p]) (auto simp: entry_name_def)

text \<open>
  A path is the join of its two halves, unless what precedes its last separator is exactly
  one separator: \<open>//name\<close> splits as \<open>/name\<close> does.
\<close>

lemma join_split:
  assumes "\<not> (\<exists>name. p = SLASH # SLASH # name \<and> SLASH \<notin> set name)"
  shows "join_path (entry_parent p) (entry_name p) = p"
  using assms
  by (cases rule: rfind_cases [of SLASH p])
     (auto simp: join_path_def entry_parent_def entry_name_def append_eq_Cons_conv)

lemma split_join:
  assumes "SLASH \<notin> set name"
  shows "split_path (join_path dir name) = (dir, name)"
  using assms rfind_Some [OF assms, of dir] rfind_Some [OF assms, of "[]"]
  by (auto simp: join_path_def split_path_def rsplit_once_def)

section \<open>Properties\<close>

text \<open>
  C22: a prefix set answers the slow question.  However many paths it was made from, and
  whichever of the two strategies \<open>covers\<close> takes (a scan of at most four members, or the
  path's ancestors looked up in the hashed set), it says yes exactly when one of the paths
  it was given is at or above the path asked about.
\<close>

theorem prefix_set_covers:
  "covers (prefix_set_new ps) path \<longleftrightarrow> (\<exists>p \<in> set ps. under path p)"
  using covers_ok [OF prefix_set_new_ok, of ps path]
    reduce_covers [of "\<lparr>ps_paths = ps, ps_lookup = {}\<rparr>" path]
  by (simp add: prefix_set_new_def covered_by_def)

text \<open>
  Batches of paths may be added in any order.  After any sequence of \<open>extend\<close> calls on
  an empty set the answer depends only on which paths were added, and the set keeps its
  invariant (sorted, no duplicate, no trailing separator, hashed alike).
\<close>

theorem prefix_set_batches:
  "prefix_set_ok (foldl prefix_set_extend prefix_set_default pss)
   \<and> (covers (foldl prefix_set_extend prefix_set_default pss) path
       \<longleftrightarrow> (\<exists>p \<in> set (concat pss). under path p))"
  using pset.ok_batches [OF pset.ok_empty, of pss] pset.covers_batches [of pss path]
  by (simp add: covered_by_def)

text \<open>
  Forgetting a path drops that member and no other.  It answers whether the path was a
  member in its own right, keeps the invariant, and whatever was covered through another
  member stays covered.
\<close>

theorem forget_exact:
  assumes "prefix_set_ok s"
  shows "fst (forget s path) = (trim_slash path \<in> set (ps_paths s))
    \<and> prefix_set_ok (snd (forget s path))
    \<and> (covers (snd (forget s path)) q
        \<longleftrightarrow> (\<exists>p \<in> set (ps_paths s) - {trim_slash path}. under q p))"
proof -
  have look: "ps_lookup s = set (ps_paths s)" using assms by (simp add: prefix_set_ok_def)
  have "set (ps_paths (snd (forget s path))) = set (ps_paths s) - {trim_slash path}"
    by (auto simp: forget_def Let_def look)
  moreover have "covers (snd (forget s path)) q = covered_by (ps_paths (snd (forget s path))) q"
    by (rule covers_ok [OF forget_ok [OF assms]])
  moreover have "fst (forget s path) = (trim_slash path \<in> set (ps_paths s))"
    by (simp add: forget_def Let_def look)
  ultimately show ?thesis
    using forget_ok [OF assms, of path] by (simp add: covered_by_def)
qed

theorem forget_exact_witness:
  "fst (forget (prefix_set_new [str ''/a/'', str ''/b'']) (str ''/a''))
   \<and> \<not> covers (snd (forget (prefix_set_new [str ''/a/'', str ''/b'']) (str ''/a''))) (str ''/a/x'')"
  using forget_exact [OF prefix_set_new_ok, of "[str ''/a/'', str ''/b'']" "str ''/a''" "str ''/a/x''"]
  by (simp add: prefix_set_new_def reduce_def trim_slash_def under_def Let_def)

text \<open>
  The reduction is complete where no byte of a path sorts below the separator: no
  member is then under another.
\<close>

theorem prefix_set_reduced:
  assumes "\<forall>p \<in> set ps. \<forall>b \<in> set p. SLASH \<le> b"
    and "p \<in> set (ps_paths (prefix_set_new ps))" "q \<in> set (ps_paths (prefix_set_new ps))"
    and "under p q"
  shows "p = q"
  using reduce_antichain [of "\<lparr>ps_paths = ps, ps_lookup = {}\<rparr>"] assms
  by (simp add: prefix_set_new_def antichain_def)

theorem prefix_set_reduced_witness:
  "ps_paths (prefix_set_new [str ''/a/b'', str ''/a'']) = [str ''/a''] \<and> str ''/a'' = str ''/a''"
proof -
  have e: "ps_paths (prefix_set_new [str ''/a/b'', str ''/a'']) = [str ''/a'']"
    by (simp add: prefix_set_new_def reduce_def trim_slash_def under_def Let_def)
  have "str ''/a'' = str ''/a''"
    by (rule prefix_set_reduced [of "[str ''/a/b'', str ''/a'']"], simp, unfold e)
       (simp_all add: under_refl)
  with e show ?thesis by simp
qed

text \<open>
  In general it is not.  \<open>-\<close> sorts below the separator, so \<open>/a-b\<close> stands between \<open>/a\<close>
  and \<open>/a/c\<close> and is the last path kept when \<open>/a/c\<close> is reached: the set keeps a path that
  is under another of its members, which the type's documentation rules out.
\<close>

theorem prefix_set_not_reduced:
  "ps_paths (prefix_set_new [str ''/a'', str ''/a-b'', str ''/a/c''])
     = [str ''/a'', str ''/a-b'', str ''/a/c'']
   \<and> under (str ''/a/c'') (str ''/a'')"
  by (simp add: prefix_set_new_def reduce_def trim_slash_def under_def Let_def)

text \<open>
  C26: a row gives its path back.  Splitting a path into the directory and the name a row
  stores and joining them again is the identity on every path that is not two separators
  and a bare name, and splitting a join gives back the two halves.
\<close>

theorem row_path_roundtrip:
  assumes "\<not> (\<exists>name. p = SLASH # SLASH # name \<and> SLASH \<notin> set name)"
  shows "join_path (fst (split_path p)) (snd (split_path p)) = p
    \<and> split_path (join_path (fst (split_path p)) (snd (split_path p))) = split_path p"
  using join_split [OF assms] split_join [OF entry_name_no_slash, of p "entry_parent p"]
  by (simp add: split_path_entry)

theorem row_path_roundtrip_witness:
  "join_path (fst (split_path (str ''/home/u.rs''))) (snd (split_path (str ''/home/u.rs'')))
     = str ''/home/u.rs''"
  using row_path_roundtrip [of "str ''/home/u.rs''"] by simp

end
