(* ===== verification/Varint.thy ===== *)
theory Varint
  imports Prelude
begin

text \<open>
  Variable-length integers and frame-of-reference bit packing,
  \<open>crates/scour-index-native/src/varint.rs\<close>.

  \<^item> \<open>put\<close> and \<open>get\<close>: a LEB128 varint of an unsigned 64-bit integer.
  \<^item> \<open>width_for\<close>, \<open>pack\<close> and \<open>unpack_one\<close>: a block of signed 64-bit values, each stored as
    its offset from the least at the fewest bits that hold the greatest.

  The lemmas show that what \<open>put\<close> appended \<open>get\<close> reads back, in at most ten bytes, and that
  every value of a packed block is read back by position, at every width from none to
  sixty-four.
\<close>

section \<open>Varints\<close>

text \<open>\<open>put\<close>: the loop pushes seven bits a round while more than seven are left.\<close>

function put :: "bytes \<Rightarrow> u64 \<Rightarrow> bytes" where
  "put out v =
     (if 0x80 \<le> v then put (out @ [ucast v OR 0x80]) (drop_bit 7 v) else out @ [ucast v])"
  by pat_completeness auto

lemma drop_bit_less: "0x80 \<le> v \<Longrightarrow> unat (drop_bit 7 v) < unat (v :: u64)"
proof -
  assume "0x80 \<le> v"
  then have "unat (0x80 :: u64) \<le> unat v" by (rule word_le_nat_alt [THEN iffD1])
  then have "128 \<le> unat v" by simp
  then have "unat v div 128 < unat v" by simp
  then show ?thesis by (simp add: drop_bit_eq_div unat_div)
qed

termination put
  by (relation "measure (\<lambda>(out, v). unat v)") (auto intro: drop_bit_less)

declare put.simps [simp del]

text \<open>
  \<open>get\<close>: the loop carries the position, the value so far and the shift; past the tenth byte
  the shift would be undefined and the read is refused.
\<close>

fun get_loop :: "bytes \<Rightarrow> nat \<Rightarrow> u64 \<Rightarrow> nat \<Rightarrow> (u64 \<times> nat) option" where
  "get_loop [] i v shift = None"
| "get_loop (b # bs) i v shift =
     (if 63 < shift then None
      else let v = v OR push_bit shift (ucast (b AND 0x7F))
           in if b < 0x80 then Some (v, i + 1) else get_loop bs (i + 1) v (shift + 7))"

definition get :: "bytes \<Rightarrow> (u64 \<times> nat) option" where
  "get bs = get_loop bs 0 0 0"

lemma put_append_gen: "put (a @ out) v = a @ put out v"
proof (induction out v rule: put.induct)
  case (1 out v)
  then show ?case
    by (cases "0x80 \<le> v") (simp_all add: put.simps [of _ v])
qed

lemma put_append: "put out v = out @ put [] v"
  using put_append_gen [of out "[]"] by simp

lemma put_small: "v < 0x80 \<Longrightarrow> put [] v = [ucast v]"
  by (simp add: put.simps [of _ v] not_le [symmetric])

lemma put_big: "0x80 \<le> v \<Longrightarrow> put [] v = (ucast v OR 0x80) # put [] (drop_bit 7 v)"
  by (simp add: put.simps [of _ v] put_append [of "[_]"])

lemma put_not_Nil [simp]: "put [] v \<noteq> []"
  by (cases "0x80 \<le> v") (auto simp: put_small put_big not_le)

lemma small_iff_bits: "v < (0x80 :: u64) \<longleftrightarrow> (\<forall>i. bit v i \<longrightarrow> i < 7)"
  using unat_less_power_iff [of v 7] by (simp add: word_less_nat_alt)

lemma bit_0x7F: "bit (0x7F :: int) i \<longleftrightarrow> i < 7"
proof -
  have "bit (0x7F :: int) i \<longleftrightarrow> bit (mask 7 :: int) i" by (simp add: mask_eq_exp_minus_1)
  also have "\<dots> \<longleftrightarrow> i < 7" unfolding bit_mask_iff by auto
  finally show ?thesis .
qed

lemma bit_0x80: "bit (0x80 :: int) i \<longleftrightarrow> i = 7"
proof -
  have "bit (0x80 :: int) i \<longleftrightarrow> bit (2 ^ 7 :: int) i" by simp
  also have "\<dots> \<longleftrightarrow> i = 7" unfolding bit_exp_iff by auto
  finally show ?thesis .
qed

lemmas varint_bits = bit_simps bit_0x7F bit_0x80

lemma small_byte_iff: "b < (0x80 :: u8) \<longleftrightarrow> (\<forall>i. bit b i \<longrightarrow> i < 7)"
  using unat_less_power_iff [of b 7] by (simp add: word_less_nat_alt)

lemma continuation_byte: "\<not> (ucast v OR 0x80 :: u8) < 0x80"
proof -
  have "bit (ucast v OR 0x80 :: u8) 7" by (simp add: varint_bits)
  then show ?thesis unfolding small_byte_iff by blast
qed

lemma last_byte: "v < (0x80 :: u64) \<Longrightarrow> (ucast v :: u8) < 0x80"
  by (auto simp: small_byte_iff small_iff_bits varint_bits)

text \<open>Seven bits of payload at a time, placed where the shift says.\<close>

lemma payload_last:
  "v < (0x80 :: u64) \<Longrightarrow> ucast ((ucast v :: u8) AND 0x7F) = v"
  by (rule bit_word_eqI) (auto simp: small_iff_bits varint_bits)

lemma payload_more:
  "push_bit sh (ucast ((ucast v OR 0x80 :: u8) AND 0x7F)) OR push_bit (sh + 7) (drop_bit 7 v)
     = push_bit sh (v :: u64)"
proof (rule bit_word_eqI)
  fix n
  have "7 + (n - (sh + 7)) = n - sh" if "sh + 7 \<le> n" using that by simp
  then show "bit (push_bit sh (ucast ((ucast v OR 0x80 :: u8) AND 0x7F))
      OR push_bit (sh + 7) (drop_bit 7 v)) n = bit (push_bit sh v) n"
    by (cases "sh + 7 \<le> n") (auto simp: varint_bits)
qed

text \<open>
  The read is the inverse of the write wherever it starts, as long as the bits still to come
  fit above the shift.
\<close>

lemma get_loop_put:
  assumes "sh \<le> 63" "\<forall>k. bit v k \<longrightarrow> sh + k < 64"
  shows "get_loop (put [] v @ rest) i acc sh
       = Some (acc OR push_bit sh v, i + length (put [] v))"
  using assms
proof (induction v arbitrary: i acc sh rule: measure_induct_rule [where f = unat])
  case (less v)
  show ?case
  proof (cases "0x80 \<le> v")
    case True
    then obtain k where k: "bit v k" "7 \<le> k"
      using small_iff_bits [of v] by (meson not_le not_less)
    then have sh: "sh + 7 \<le> 63" using less.prems(2) by fastforce
    have top: "\<forall>k. bit (drop_bit 7 v) k \<longrightarrow> sh + 7 + k < 64"
      using less.prems(2) by (auto simp: bit_simps)
    show ?thesis
      using less.prems(1) less.IH [OF drop_bit_less [OF True] sh top]
      by (simp add: put_big [OF True] continuation_byte payload_more or.assoc Let_def)
  next
    case False
    then show ?thesis
      using less.prems(1) by (simp add: put_small last_byte payload_last not_le Let_def)
  qed
qed

lemma bits_below: "\<forall>k. bit (v :: u64) k \<longrightarrow> k < 64"
  by (auto dest: bit_imp_le_length)

lemma get_put [file_simps]: "get (put [] v @ rest) = Some (v, length (put [] v))"
  using get_loop_put [of 0 v rest 0 0] bits_below [of v] by (simp add: get_def)

lemma length_put: "\<forall>k. bit v k \<longrightarrow> k < 7 * n \<Longrightarrow> length (put [] v) \<le> max 1 n"
proof (induction n arbitrary: v)
  case 0
  then have "v < 0x80" by (simp add: small_iff_bits)
  then show ?case by (simp add: put_small)
next
  case (Suc n)
  show ?case
  proof (cases "0x80 \<le> v")
    case True
    then obtain k where "bit v k" "7 \<le> k"
      using small_iff_bits [of v] by (meson not_le not_less)
    then have "n \<noteq> 0" using Suc.prems by fastforce
    moreover have "length (put [] (drop_bit 7 v)) \<le> max 1 n"
      by (rule Suc.IH) (use Suc.prems in \<open>force simp: bit_simps\<close>)
    ultimately show ?thesis by (simp add: put_big [OF True])
  qed (simp add: put_small not_le)
qed

lemma length_put_le: "length (put [] v) \<le> 10"
  using length_put [of v 10] bits_below [of v] by force

text \<open>A read never reports more bytes than there are, nor more than ten.\<close>

lemma get_loop_used:
  "get_loop bs i acc sh = Some (v, used) \<Longrightarrow> i < used \<and> used \<le> i + length bs \<and> 7 * (used - i - 1) + sh \<le> 63"
proof (induction bs i acc sh rule: get_loop.induct)
  case (2 b bs i acc sh)
  show ?case
  proof (cases "b < 0x80")
    case False
    with 2(2) have "get_loop bs (i + 1) (acc OR push_bit sh (ucast (b AND 0x7F))) (sh + 7) = Some (v, used)"
      "\<not> 63 < sh"
      by (auto simp: Let_def split: if_splits)
    then have "i + 1 < used \<and> used \<le> i + 1 + length bs \<and> 7 * (used - (i + 1) - 1) + (sh + 7) \<le> 63"
      using 2(1) [OF _ refl False] by simp
    then show ?thesis by auto
  qed (use 2(2) in \<open>auto simp: Let_def split: if_splits\<close>)
qed simp

lemma get_used: "get bs = Some (v, used) \<Longrightarrow> 0 < used \<and> used \<le> length bs \<and> used \<le> 10"
  using get_loop_used [of bs 0 0 0 v used] by (auto simp: get_def)

section \<open>Frame-of-reference packing\<close>

text \<open>\<open>vals.iter().min()\<close> and \<open>max()\<close> over signed values, and \<open>leading_zeros\<close>.\<close>

fun i64_min :: "i64 list \<Rightarrow> i64 option" where
  "i64_min [] = None"
| "i64_min (x # xs) = Some (foldl (\<lambda>m v. if v <s m then v else m) x xs)"

fun i64_max :: "i64 list \<Rightarrow> i64 option" where
  "i64_max [] = None"
| "i64_max (x # xs) = Some (foldl (\<lambda>m v. if m <s v then v else m) x xs)"

definition leading_zeros :: "u64 \<Rightarrow> nat" where
  "leading_zeros w = length (takeWhile (\<lambda>i. \<not> bit w (63 - i)) [0 ..< 64])"

definition width_for :: "i64 list \<Rightarrow> i64 \<times> nat" where
  "width_for vals =
     (case i64_min vals of
        None \<Rightarrow> (0, 0)
      | Some least \<Rightarrow>
          let max_offset = fold max (map (\<lambda>v. v - least) vals) 0
          in (least, 64 - leading_zeros max_offset))"

text \<open>The inner loop of \<open>pack\<close>: whole bytes leave the accumulator.\<close>

function flush :: "u128 \<Rightarrow> nat \<Rightarrow> bytes \<Rightarrow> u128 \<times> nat \<times> bytes" where
  "flush acc held out =
     (if 8 \<le> held then flush (drop_bit 8 acc) (held - 8) (out @ [ucast acc])
      else (acc, held, out))"
  by pat_completeness auto
termination
  by (relation "measure (\<lambda>(acc, held, out). held)") auto

declare flush.simps [simp del]

fun pack_loop :: "i64 \<Rightarrow> nat \<Rightarrow> i64 list \<Rightarrow> u128 \<Rightarrow> nat \<Rightarrow> bytes \<Rightarrow> u128 \<times> nat \<times> bytes" where
  "pack_loop least bits [] acc held out = (acc, held, out)"
| "pack_loop least bits (v # vs) acc held out =
     (let acc = acc OR push_bit held (ucast (v - least));
          (acc, held, out) = flush acc (held + bits) out
      in pack_loop least bits vs acc held out)"

definition pack :: "bytes \<Rightarrow> i64 list \<Rightarrow> i64 \<Rightarrow> nat \<Rightarrow> bytes" where
  "pack out vals least bits =
     (if bits = 0 then out
      else let (acc, held, out) = pack_loop least bits vals 0 0 out
           in if 0 < held then out @ [ucast acc] else out)"

text \<open>\<open>unpack_one\<close>: \<open>Panic\<close> where the slice from the first byte of the value is out of range.\<close>

definition unpack_one :: "bytes \<Rightarrow> i64 \<Rightarrow> nat \<Rightarrow> nat \<Rightarrow> i64 run" where
  "unpack_one bs least bits i =
     (if bits = 0 then Ret least
      else
        let start_bit = i * bits;
            start_byte = start_bit div 8;
            offset = start_bit mod 8
        in case get_from bs start_byte of
             None \<Rightarrow> Panic
           | Some rest \<Rightarrow>
               let acc = foldl (\<lambda>acc (n, b). acc OR push_bit (n * 8) (ucast b)) (0 :: u128)
                           (List.enumerate 0 (take 9 rest));
                   mask = (if 64 \<le> bits then - 1 else push_bit bits 1 - 1 :: u64);
                   raw = ucast (drop_bit offset acc) AND mask
               in Ret (least + raw))"

definition packed_len :: "nat \<Rightarrow> nat \<Rightarrow> nat" where
  "packed_len n bits = (n * bits + 7) div 8"

subsection \<open>The width holds every offset\<close>

lemma leading_zeros_bits: "bit w i \<Longrightarrow> i < 64 - leading_zeros w"
proof (rule ccontr)
  assume b: "bit w i" and "\<not> i < 64 - leading_zeros w"
  then have i: "i < 64" "63 - i < leading_zeros w" using bits_below [of w] by auto
  then have "63 - i < length (takeWhile (\<lambda>i. \<not> bit w (63 - i)) [0 ..< 64])"
    by (simp only: leading_zeros_def)
  from takeWhile_nth [OF this] nth_mem [OF this] have "\<not> bit w (63 - (63 - i))"
    using i by (auto dest!: set_takeWhileD)
  with b i show False by simp
qed

lemma fold_max_ge: "x \<in> set xs \<or> x = a \<Longrightarrow> x \<le> fold max xs (a :: 'a::linorder)"
proof (induction xs arbitrary: a x)
  case (Cons y xs)
  have le: "max y a \<le> fold max xs (max y a)" by (rule Cons.IH) simp
  show ?case
  proof (cases "x \<in> set xs")
    case True
    then show ?thesis using Cons.IH [of x "max y a"] by simp
  next
    case False
    then have "x \<le> max y a" using Cons.prems by auto
    from order_trans [OF this le] show ?thesis by simp
  qed
qed simp

lemma width_for_bits:
  assumes "width_for vals = (least, bits)" "v \<in> set vals"
  shows "\<forall>k. bit (v - least) k \<longrightarrow> k < bits" and "bits \<le> 64"
proof -
  let ?off = "fold max (map (\<lambda>v. v - least) vals) 0"
  from assms have bits: "bits = 64 - leading_zeros ?off"
    by (cases vals) (auto simp: width_for_def Let_def)
  then show "bits \<le> 64" by simp
  have "v - least \<le> ?off" using assms(2) by (intro fold_max_ge) auto
  then have "unat (v - least) \<le> unat ?off" by (simp add: word_le_nat_alt)
  also have "unat ?off < 2 ^ bits"
    unfolding unat_less_power_iff bits using leading_zeros_bits by blast
  finally show "\<forall>k. bit (v - least) k \<longrightarrow> k < bits" by (simp add: unat_less_power_iff)
qed

subsection \<open>Packing and unpacking as streams of bits\<close>

definition bytes_bit :: "bytes \<Rightarrow> nat \<Rightarrow> bool" where
  "bytes_bit bs k \<longleftrightarrow> k < 8 * length bs \<and> bit (bs ! (k div 8)) (k mod 8)"

definition value_bit :: "i64 \<Rightarrow> nat \<Rightarrow> i64 list \<Rightarrow> nat \<Rightarrow> bool" where
  "value_bit least bits vals k \<longleftrightarrow>
     k < bits * length vals \<and> bit (vals ! (k div bits) - least) (k mod bits)"

lemma bytes_bit_Cons:
  "bytes_bit (b # bs) k \<longleftrightarrow> (if k < 8 then bit b k else bytes_bit bs (k - 8))"
proof (cases "k < 8")
  case False
  then have "k div 8 = Suc ((k - 8) div 8)" "k mod 8 = (k - 8) mod 8"
    by (simp_all add: le_div_geq le_mod_geq)
  then show ?thesis using False by (auto simp: bytes_bit_def)
qed (simp add: bytes_bit_def)

lemma bytes_bit_append:
  "bytes_bit (as @ bs) k \<longleftrightarrow>
     (if k < 8 * length as then bytes_bit as k else bytes_bit bs (k - 8 * length as))"
proof (induction as arbitrary: k)
  case (Cons a as)
  show ?case by (cases "k < 8") (auto simp: bytes_bit_Cons Cons)
qed (simp add: bytes_bit_def)

lemma bytes_bit_drop: "bytes_bit (drop n bs) k \<longleftrightarrow> bytes_bit bs (8 * n + k)"
  by (auto simp: bytes_bit_def)

lemma bytes_bit_take: "bytes_bit (take n bs) k \<longleftrightarrow> k < 8 * n \<and> bytes_bit bs k"
  by (auto simp: bytes_bit_def)

lemma bit_le_word: "bit (le_word bs :: 'a::len word) k \<longleftrightarrow> k < LENGTH('a) \<and> bytes_bit bs k"
proof (induction bs arbitrary: k)
  case (Cons b bs)
  have "bit (le_word (b # bs) :: 'a word) k
      \<longleftrightarrow> k < LENGTH('a) \<and> (bit b k \<or> (8 \<le> k \<and> bit (le_word bs :: 'a word) (k - 8)))"
    by (auto simp: bit_simps)
  moreover have "\<not> bit b k" if "8 \<le> k"
    using bit_imp_le_length [of b k] that by auto
  ultimately show ?case
    by (cases "k < 8") (auto simp: bytes_bit_Cons Cons)
qed (simp add: bytes_bit_def)

lemma foldl_le_word:
  "foldl (\<lambda>acc (n, b). acc OR push_bit (n * 8) (ucast b)) acc (List.enumerate m bs)
     = acc OR push_bit (8 * m) (le_word bs :: 'a::len word)"
proof (induction bs arbitrary: acc m)
  case (Cons b bs)
  have "push_bit (8 * Suc m) (le_word bs :: 'a word) = push_bit (8 * m) (push_bit 8 (le_word bs))"
    by (simp add: push_bit_push_bit add.commute)
  then show ?case
    by (simp add: Cons or.assoc push_bit_or mult.commute)
qed simp

lemma value_bit_snoc:
  "value_bit least bits (vals @ [v]) k \<longleftrightarrow>
     (if k < bits * length vals then value_bit least bits vals k
      else k < bits * length vals + bits \<and> bit (v - least) (k - bits * length vals))"
proof (cases "k < bits * length vals")
  case True
  then have "k div bits < length vals" by (simp add: less_mult_imp_div_less mult.commute)
  then show ?thesis using True by (auto simp: value_bit_def nth_append)
next
  case False
  show ?thesis
  proof (cases "k < bits * length vals + bits")
    case less: True
    then obtain r where k: "k = bits * length vals + r" and r: "r < bits"
      using False by (metis add_less_cancel_left le_add_diff_inverse not_less)
    then have "k div bits = length vals" "k mod bits = r" by simp_all
    then show ?thesis using False k r by (simp add: value_bit_def)
  qed (use False in \<open>auto simp: value_bit_def\<close>)
qed

text \<open>
  What the loop keeps: the bits already written and the bits still held are, in order, the
  bits of the values packed so far.
\<close>

definition stream :: "(nat \<Rightarrow> bool) \<Rightarrow> u128 \<Rightarrow> nat \<Rightarrow> bytes \<Rightarrow> bool" where
  "stream f acc held out \<longleftrightarrow> (\<forall>k < 8 * length out. bytes_bit out k = f k)
     \<and> (\<forall>t. bit acc t \<longleftrightarrow> t < held \<and> f (8 * length out + t))"

lemma stream_flush:
  assumes "stream f acc held out" "flush acc held out = (acc', held', out')"
  shows "stream f acc' held' out' \<and> held' < 8
    \<and> 8 * length out' + held' = 8 * length out + held"
  using assms
proof (induction acc held out rule: flush.induct)
  case (1 acc held out)
  show ?case
  proof (cases "8 \<le> held")
    case True
    have written: "bytes_bit (out @ [ucast acc]) k = f k" if k: "k < 8 * length (out @ [ucast acc])" for k
    proof (cases "k < 8 * length out")
      case False
      define t where "t = k - 8 * length out"
      have t: "t < 8" "k = 8 * length out + t" using False k by (auto simp: t_def)
      have "bytes_bit (out @ [ucast acc]) k = bit acc t"
        using t by (simp add: bytes_bit_append bytes_bit_Cons bit_simps)
      also have "\<dots> = f k" using 1(2) True t by (simp add: stream_def)
      finally show ?thesis .
    qed (use 1(2) in \<open>simp add: bytes_bit_append stream_def\<close>)
    have "bit (drop_bit 8 acc) t \<longleftrightarrow> t < held - 8 \<and> f (8 * length (out @ [ucast acc]) + t)" for t
    proof -
      have "bit (drop_bit 8 acc) t = bit acc (8 + t)" by (simp add: bit_simps)
      also have "\<dots> = (8 + t < held \<and> f (8 * length out + (8 + t)))"
        using 1(2) by (simp only: stream_def)
      finally show ?thesis using True by (simp add: algebra_simps) linarith
    qed
    then have "stream f (drop_bit 8 acc) (held - 8) (out @ [ucast acc])"
      using written by (simp only: stream_def) blast
    moreover have "flush (drop_bit 8 acc) (held - 8) (out @ [ucast acc]) = (acc', held', out')"
      using 1(3) True by (simp add: flush.simps [of acc held out])
    ultimately show ?thesis using 1(1) [OF True] True by simp
  qed (use 1(2,3) in \<open>simp add: flush.simps [of acc held out]\<close>)
qed

lemma stream_add:
  assumes inv: "stream (value_bit least bits past) acc held out"
    and len: "8 * length out + held = bits * length past" and "held < 8" "bits \<le> 64"
    and fits: "\<forall>k. bit (v - least) k \<longrightarrow> k < bits"
  shows "stream (value_bit least bits (past @ [v])) (acc OR push_bit held (ucast (v - least)))
           (held + bits) out"
proof -
  have "bit (acc OR push_bit held (ucast (v - least))) t
      \<longleftrightarrow> t < held + bits \<and> value_bit least bits (past @ [v]) (8 * length out + t)" for t
  proof (cases "t < held")
    case True
    then have "8 * length out + t < bits * length past" using len by simp
    then show ?thesis
      using True inv by (simp add: bit_simps value_bit_snoc stream_def)
  next
    case False
    then have pos: "\<not> 8 * length out + t < bits * length past"
      "8 * length out + t - bits * length past = t - held"
      using len by auto
    have "bit (acc OR push_bit held (ucast (v - least))) t
        \<longleftrightarrow> t < 128 \<and> bit (v - least) (t - held)"
      using False inv bit_imp_le_length [of acc t] bit_imp_le_length [of "v - least" "t - held"]
      by (auto simp: bit_simps stream_def)
    also have "\<dots> \<longleftrightarrow> t < held + bits \<and> bit (v - least) (t - held)"
      using fits False \<open>held < 8\<close> \<open>bits \<le> 64\<close> by auto
    finally show ?thesis
      using pos len False by (auto simp: value_bit_snoc)
  qed
  moreover have "bytes_bit out k = value_bit least bits (past @ [v]) k" if "k < 8 * length out" for k
    using that inv len by (simp add: stream_def value_bit_snoc)
  ultimately show ?thesis by (simp only: stream_def) blast
qed

lemma pack_loop_stream:
  assumes "stream (value_bit least bits past) acc held out"
    and "8 * length out + held = bits * length past" "held < 8" "bits \<le> 64"
    and "\<forall>v \<in> set vs. \<forall>k. bit (v - least) k \<longrightarrow> k < bits"
    and "pack_loop least bits vs acc held out = (acc', held', out')"
  shows "stream (value_bit least bits (past @ vs)) acc' held' out' \<and> held' < 8
    \<and> 8 * length out' + held' = bits * length (past @ vs)"
  using assms
proof (induction vs arbitrary: past acc held out)
  case (Cons v vs)
  obtain acc1 held1 out1
    where f: "flush (acc OR push_bit held (ucast (v - least))) (held + bits) out = (acc1, held1, out1)"
    by (metis prod_cases3)
  have fits: "\<forall>k. bit (v - least) k \<longrightarrow> k < bits" using Cons.prems(5) by simp
  have s: "stream (value_bit least bits (past @ [v])) acc1 held1 out1 \<and> held1 < 8
      \<and> 8 * length out1 + held1 = 8 * length out + (held + bits)"
    by (rule stream_flush [OF stream_add [OF Cons.prems(1-4) fits] f])
  have "pack_loop least bits vs acc1 held1 out1 = (acc', held', out')"
    using Cons.prems(6) f by simp
  moreover have "8 * length out1 + held1 = bits * length (past @ [v])"
    using s Cons.prems(2) by simp
  ultimately show ?case
    using Cons.IH [of "past @ [v]" acc1 held1 out1] s Cons.prems(4,5) by simp
qed simp

lemma flush_append:
  "flush acc held (pre @ out) = (case flush acc held out of (a, h, o') \<Rightarrow> (a, h, pre @ o'))"
proof (induction acc held out rule: flush.induct)
  case (1 acc held out)
  then show ?case by (cases "8 \<le> held") (simp_all add: flush.simps [of acc held])
qed

lemma pack_loop_append:
  "pack_loop least bits vs acc held (pre @ out)
     = (case pack_loop least bits vs acc held out of (a, h, o') \<Rightarrow> (a, h, pre @ o'))"
  by (induction vs arbitrary: acc held out) (auto simp: flush_append Let_def split: prod.splits)

lemma pack_append: "pack out vals least bits = out @ pack [] vals least bits"
  using pack_loop_append [of least bits vals 0 0 out "[]"]
  by (auto simp: pack_def split: prod.splits)

lemma pack_stream:
  assumes "bits \<le> 64" "0 < bits" "\<forall>v \<in> set vals. \<forall>k. bit (v - least) k \<longrightarrow> k < bits"
  shows "bytes_bit (pack [] vals least bits) k = value_bit least bits vals k"
    and "length (pack [] vals least bits) = packed_len (length vals) bits"
proof -
  obtain acc held out where p: "pack_loop least bits vals 0 0 [] = (acc, held, out)"
    by (metis prod_cases3)
  have "stream (value_bit least bits []) 0 0 []" by (simp add: stream_def)
  from pack_loop_stream [OF this _ _ assms(1,3) p]
  have s: "stream (value_bit least bits vals) acc held out" "held < 8"
    "8 * length out + held = bits * length vals" by simp_all
  have none: "\<not> value_bit least bits vals k" if "8 * length out + held \<le> k"
    using that s(3) by (simp add: value_bit_def)
  show "bytes_bit (pack [] vals least bits) k = value_bit least bits vals k"
  proof (cases "k < 8 * length out")
    case True
    then show ?thesis
      using s(1) p assms(2) by (simp add: pack_def stream_def bytes_bit_append)
  next
    case False
    then obtain t where t: "k = 8 * length out + t" by (metis le_add_diff_inverse not_less)
    have "bit acc t \<longleftrightarrow> t < held \<and> value_bit least bits vals k"
      using s(1) t by (simp add: stream_def)
    moreover have "bytes_bit (pack [] vals least bits) k \<longleftrightarrow> 0 < held \<and> t < 8 \<and> bit acc t"
      using p assms(2) t by (auto simp: pack_def bytes_bit_append bytes_bit_Cons bit_simps bytes_bit_def)
    ultimately show ?thesis using none s(2) t by auto
  qed
  show "length (pack [] vals least bits) = packed_len (length vals) bits"
    using s(2,3) p assms(2) by (auto simp: pack_def packed_len_def mult.commute)
qed

subsection \<open>Reading a value by its position\<close>

lemma bit_width_mask:
  "bits \<le> 64 \<Longrightarrow> bit (if 64 \<le> bits then - 1 else push_bit bits 1 - 1 :: u64) k \<longleftrightarrow> k < bits \<and> k < 64"
proof -
  have "push_bit bits 1 - 1 = (mask bits :: u64)" by (simp add: mask_eq_exp_minus_1 push_bit_eq_mult)
  then show "bits \<le> 64 \<Longrightarrow> ?thesis" by (auto simp: bit_simps)
qed

lemma value_bit_at:
  assumes "i < length vals" "t < bits"
  shows "value_bit least bits vals (i * bits + t) \<longleftrightarrow> bit (vals ! i - least) t"
proof -
  have "(i * bits + t) div bits = i" "(i * bits + t) mod bits = t" using assms(2) by simp_all
  moreover have "i * bits + t < bits * length vals"
    using assms mult_le_mono1 [of "Suc i" "length vals" bits] by (simp add: mult.commute)
  ultimately show ?thesis by (simp add: value_bit_def)
qed

lemma unpack_pack:
  assumes bits: "bits \<le> 64" and fits: "\<forall>v \<in> set vals. \<forall>k. bit (v - least) k \<longrightarrow> k < bits"
    and i: "i < length vals"
  shows "unpack_one (pack [] vals least bits @ rest) least bits i = Ret (vals ! i)"
proof (cases "bits = 0")
  case True
  then have "\<forall>k. \<not> bit (vals ! i - least) k" using fits i by fastforce
  then have "vals ! i - least = 0" by (intro bit_word_eqI) simp
  then show ?thesis using True by (simp add: unpack_one_def)
next
  case False
  let ?p = "pack [] vals least bits" and ?s = "i * bits"
  let ?acc = "le_word (take 9 (drop (?s div 8) (?p @ rest))) :: u128"
  let ?mask = "if 64 \<le> bits then - 1 else push_bit bits 1 - 1 :: u64"
  have last: "?s + bits \<le> 8 * length ?p"
  proof -
    have "Suc i * bits \<le> length vals * bits" using i by (intro mult_le_mono1) simp
    then show ?thesis
      using pack_stream(2) [OF bits _ fits] False by (simp add: packed_len_def)
  qed
  then have inside: "?s div 8 \<le> length (?p @ rest)" by simp
  have raw: "ucast (drop_bit (?s mod 8) ?acc) AND ?mask = vals ! i - least"
  proof (rule bit_word_eqI)
    fix t assume t: "t < LENGTH(64)"
    have at: "8 * (?s div 8) + (?s mod 8 + t) = ?s + t" by simp
    have small: "?s mod 8 + t < 72" using t mod_less_divisor [of 8 ?s] by simp
    have "bit (ucast (drop_bit (?s mod 8) ?acc) AND ?mask) t \<longleftrightarrow> t < bits \<and> bit ?acc (?s mod 8 + t)"
      using t bits bit_width_mask [OF bits, of t] by (simp add: bit_and_iff bit_ucast_iff bit_drop_bit_eq) auto
    also have "\<dots> \<longleftrightarrow> t < bits \<and> bytes_bit (?p @ rest) (?s + t)"
      using small by (auto simp: bit_le_word bytes_bit_take bytes_bit_drop at simp del: take_append drop_append)
    also have "\<dots> \<longleftrightarrow> t < bits \<and> value_bit least bits vals (?s + t)"
      using last pack_stream(1) [OF bits _ fits, of "?s + t"] False by (auto simp: bytes_bit_append)
    also have "\<dots> \<longleftrightarrow> bit (vals ! i - least) t"
      using value_bit_at [OF i, of t bits least] fits nth_mem [OF i] by blast
    finally show "bit (ucast (drop_bit (?s mod 8) ?acc) AND ?mask) t = bit (vals ! i - least) t" .
  qed
  have "least + (vals ! i - least) = vals ! i" by simp
  then show ?thesis
    using False inside raw
    by (simp add: unpack_one_def Let_def get_from_def foldl_le_word del: take_append drop_append)
qed

section \<open>Properties\<close>

text \<open>
  C24: a varint is read back.  Wherever it was appended, \<open>get\<close> gives the value written and
  the number of bytes it took, whatever follows it, and it took between one byte and ten.
\<close>

theorem varint_roundtrip:
  "put out v = out @ put [] v
   \<and> get (put [] v @ rest) = Some (v, length (put [] v))
   \<and> 1 \<le> length (put [] v) \<and> length (put [] v) \<le> 10"
  using put_append [of out v] get_put [of v rest] length_put_le [of v]
  by (auto simp: Suc_le_eq)

text \<open>
  C25: reading a varint out of untrusted bytes stays inside them.  Whatever the bytes,
  a successful read has consumed at least one byte, no more than there are, and never more
  than ten.
\<close>

theorem varint_bounded:
  "case get bs of None \<Rightarrow> True | Some (v, used) \<Rightarrow> 0 < used \<and> used \<le> length bs \<and> used \<le> 10"
  using get_used [of bs] by (cases "get bs") auto

text \<open>
  C23: a packed block gives its values back by position.  At the least value and the width
  \<open>width_for\<close> chooses, every value of the block is read back exactly, whatever bytes follow
  the block, and the block takes exactly the bytes \<open>packed_len\<close> says.
\<close>

theorem pack_roundtrip:
  assumes "width_for vals = (least, bits)" "i < length vals"
  shows "unpack_one (pack [] vals least bits @ rest) least bits i = Ret (vals ! i)
    \<and> length (pack [] vals least bits) = packed_len (length vals) bits"
proof -
  have fits: "bits \<le> 64" "\<forall>v \<in> set vals. \<forall>k. bit (v - least) k \<longrightarrow> k < bits"
    using width_for_bits [OF assms(1)] nth_mem [OF assms(2)] by blast+
  have "length (pack [] vals least bits) = packed_len (length vals) bits"
    by (cases "bits = 0") (use pack_stream(2) [OF fits(1) _ fits(2)] in \<open>simp_all add: pack_def packed_len_def\<close>)
  with unpack_pack [OF fits assms(2)] show ?thesis by simp
qed

theorem pack_roundtrip_witness:
  "unpack_one (pack [] [5, -3, 1000] (-3) 10 @ [0xFF]) (-3) 10 1 = Ret (-3)"
proof -
  have "width_for [5, -3, 1000] = (-3, 10)" by code_simp
  from pack_roundtrip [OF this, of 1 "[0xFF]"] show ?thesis by simp
qed

end
