(* ===== verification/Utf8.thy ===== *)
theory Utf8
  imports Prelude
begin

text \<open>
  Text as its UTF-8 bytes: what \<open>std::str::from_utf8\<close>, \<open>str::is_char_boundary\<close> and
  \<open>String::truncate\<close> do, which the directory table and the name arena rely on when they cut
  and rebuild paths.

  \<^item> \<open>utf8_seq\<close>: the length of the well-formed character a byte string begins with, by the
    table of well-formed sequences (no overlong form, no surrogate, nothing above U+10FFFF).
  \<^item> \<open>utf8_valid\<close>: \<open>from_utf8\<close> succeeds.
  \<^item> \<open>char_boundary\<close>, \<open>truncate_str\<close>: cutting inside a character panics.
\<close>

section \<open>Well-formed text\<close>

definition cont :: "u8 \<Rightarrow> bool" where
  "cont b \<longleftrightarrow> 0x80 \<le> b \<and> b < 0xC0"

fun utf8_seq :: "bytes \<Rightarrow> nat option" where
  "utf8_seq [] = None"
| "utf8_seq (a # bs) =
     (if a < 0x80 then Some 1
      else if 0xC2 \<le> a \<and> a < 0xE0 then
        (case bs of b # _ \<Rightarrow> if cont b then Some 2 else None | _ \<Rightarrow> None)
      else if 0xE0 \<le> a \<and> a < 0xF0 then
        (case bs of
           b # c # _ \<Rightarrow>
             if cont b \<and> cont c \<and> (a = 0xE0 \<longrightarrow> 0xA0 \<le> b) \<and> (a = 0xED \<longrightarrow> b < 0xA0)
             then Some 3 else None
         | _ \<Rightarrow> None)
      else if 0xF0 \<le> a \<and> a < 0xF5 then
        (case bs of
           b # c # d # _ \<Rightarrow>
             if cont b \<and> cont c \<and> cont d \<and> (a = 0xF0 \<longrightarrow> 0x90 \<le> b) \<and> (a = 0xF4 \<longrightarrow> b < 0x90)
             then Some 4 else None
         | _ \<Rightarrow> None)
      else None)"

lemma utf8_seq_bounds: "utf8_seq bs = Some n \<Longrightarrow> 0 < n \<and> n \<le> length bs"
  by (cases bs) (auto split: if_splits list.splits)

function utf8_valid :: "bytes \<Rightarrow> bool" where
  "utf8_valid bs \<longleftrightarrow>
     bs = [] \<or> (case utf8_seq bs of None \<Rightarrow> False | Some n \<Rightarrow> utf8_valid (drop n bs))"
  by pat_completeness auto
termination
  by (relation "measure length") (auto dest: utf8_seq_bounds)

declare utf8_valid.simps [simp del]

lemma utf8_valid_Nil [simp]: "utf8_valid []"
  by (simp add: utf8_valid.simps)

text \<open>\<open>is_char_boundary\<close>: not before a continuation byte, and not past the end.\<close>

definition char_boundary :: "bytes \<Rightarrow> nat \<Rightarrow> bool" where
  "char_boundary bs n \<longleftrightarrow> n = 0 \<or> n = length bs \<or> (n < length bs \<and> \<not> cont (bs ! n))"

text \<open>\<open>String::truncate\<close>.\<close>

definition truncate_str :: "bytes \<Rightarrow> nat \<Rightarrow> bytes run" where
  "truncate_str bs n =
     (if n \<le> length bs then if char_boundary bs n then Ret (take n bs) else Panic else Ret bs)"

section \<open>Cutting and joining text\<close>

lemma utf8_seq_lead: "utf8_seq bs = Some n \<Longrightarrow> \<not> cont (bs ! 0)"
  by (cases bs)
     (auto simp: cont_def word_le_nat_alt word_less_nat_alt split: if_splits list.splits)

lemma utf8_seq_conts: "utf8_seq bs = Some n \<Longrightarrow> 0 < k \<Longrightarrow> k < n \<Longrightarrow> cont (bs ! k)"
proof -
  assume "0 < k" "k < n" and seq: "utf8_seq bs = Some n"
  moreover have "n \<le> 4" using seq by (cases bs) (auto split: if_splits list.splits)
  ultimately have "k = 1 \<or> k = 2 \<or> k = 3" by linarith
  with \<open>k < n\<close> seq show ?thesis
    by (cases bs) (auto simp: nth_Cons' split: if_splits list.splits)
qed

lemma utf8_seq_append: "utf8_seq bs = Some n \<Longrightarrow> utf8_seq (take n bs @ xs) = Some n"
  by (cases bs) (auto split: if_splits list.splits)

lemma utf8_seq_extend: "utf8_seq bs = Some n \<Longrightarrow> utf8_seq (bs @ xs) = Some n"
  using utf8_seq_append [of bs n "drop n bs @ xs"] by (simp flip: append_assoc)

lemma utf8_valid_append: "utf8_valid p \<Longrightarrow> utf8_valid (p @ q) = utf8_valid q"
proof (induction p rule: utf8_valid.induct)
  case (1 p)
  show ?case
  proof (cases "p = []")
    case False
    then obtain n where n: "utf8_seq p = Some n" "utf8_valid (drop n p)"
      using 1(2) by (auto simp: utf8_valid.simps [of p] split: option.splits)
    have "utf8_valid (p @ q) = utf8_valid (drop n (p @ q))"
      using utf8_seq_extend [OF n(1), of q] False by (subst utf8_valid.simps) simp
    also have "drop n (p @ q) = drop n p @ q" using utf8_seq_bounds [OF n(1)] by simp
    finally show ?thesis using 1(1) [OF n] by simp
  qed simp
qed

text \<open>A boundary cuts well-formed text into two well-formed halves.\<close>

lemma utf8_valid_take: "utf8_valid p \<Longrightarrow> char_boundary p n \<Longrightarrow> utf8_valid (take n p)"
proof (induction p arbitrary: n rule: utf8_valid.induct)
  case (1 p)
  show ?case
  proof (cases "p = [] \<or> n = 0")
    case False
    then obtain m where m: "utf8_seq p = Some m" "utf8_valid (drop m p)"
      using 1(2) by (auto simp: utf8_valid.simps [of p] split: option.splits)
    have b: "0 < m" "m \<le> length p" using utf8_seq_bounds [OF m(1)] by auto
    have "m \<le> n"
    proof (rule ccontr)
      assume "\<not> m \<le> n"
      then have "cont (p ! n)" using utf8_seq_conts [OF m(1)] False by simp
      then show False using 1(3) False \<open>\<not> m \<le> n\<close> b by (auto simp: char_boundary_def)
    qed
    have "char_boundary (drop m p) (n - m)"
      using 1(3) b \<open>m \<le> n\<close> False by (auto simp: char_boundary_def)
    then have "utf8_valid (take (n - m) (drop m p))" using 1(1) False m by simp
    moreover have "take n p = take m p @ take (n - m) (drop m p)"
      using \<open>m \<le> n\<close> by (metis le_add_diff_inverse take_add)
    moreover have "utf8_seq (take n p) = Some m"
      using utf8_seq_append [OF m(1), of "take (n - m) (drop m p)"] calculation(2) by simp
    moreover have "drop m (take n p) = take (n - m) (drop m p)" by (simp add: drop_take)
    ultimately show ?thesis by (subst utf8_valid.simps) simp
  qed auto
qed

lemma utf8_valid_drop: "utf8_valid p \<Longrightarrow> char_boundary p n \<Longrightarrow> utf8_valid (drop n p)"
  using utf8_valid_append [OF utf8_valid_take, of p n "drop n p"] by simp

text \<open>Text follows text at a boundary.\<close>

lemma char_boundary_append:
  assumes "utf8_valid q"
  shows "char_boundary (p @ q) (length p)"
proof (cases "q = []")
  case False
  then obtain n where "utf8_seq q = Some n"
    using assms by (auto simp: utf8_valid.simps [of q] split: option.splits)
  then show ?thesis using utf8_seq_lead False by (simp add: char_boundary_def nth_append)
qed (simp add: char_boundary_def)

lemma truncate_str_append: "utf8_valid q \<Longrightarrow> truncate_str (p @ q) (length p) = Ret p"
  using char_boundary_append by (simp add: truncate_str_def)

text \<open>Plain ASCII is text.\<close>

lemma utf8_valid_ascii: "\<forall>b \<in> set bs. b < 0x80 \<Longrightarrow> utf8_valid bs"
  by (induction bs) (simp_all add: utf8_valid.simps [of "_ # _"])

end
