(* ===== verification/Columns.thy ===== *)
theory Columns
  imports Varint
begin

text \<open>
  The numbers of every row, in columns: \<open>crates/scour-index-native/src/columns.rs\<close>.

  \<open>column_writer\<close> is the writer's state; \<open>column_push\<close>, \<open>column_seal\<close> and \<open>column_finish\<close> are
  its operations.  \<open>column_open\<close>, \<open>column_get\<close> and \<open>block_range\<close> read the file in place.  The
  lemmas show that every value pushed is read back by its row and field, and that a block's
  range, the zone map, bounds every value in it, so that skipping by it loses no row.
\<close>

section \<open>Fields\<close>

datatype field =
  DirId | Size | Mtime | Ctime | Atime | Mode | Uid | Gid | Disk | Items | Kind | IsDir | Links | Source

fun field_index :: "field \<Rightarrow> nat" where
  "field_index DirId = 0"
| "field_index Size = 1"
| "field_index Mtime = 2"
| "field_index Ctime = 3"
| "field_index Atime = 4"
| "field_index Mode = 5"
| "field_index Uid = 6"
| "field_index Gid = 7"
| "field_index Disk = 8"
| "field_index Items = 9"
| "field_index Kind = 10"
| "field_index IsDir = 11"
| "field_index Links = 13"
| "field_index Source = 12"

text \<open>\<open>Field::ALL\<close>, and the derived order: by discriminant.\<close>

definition field_all :: "field list" where
  "field_all = [DirId, Size, Mtime, Ctime, Atime, Mode, Uid, Gid, Disk, Items, Kind, IsDir, Source, Links]"

lemma field_index_inj: "field_index f = field_index g \<Longrightarrow> f = g"
  by (cases f; cases g) simp_all

instantiation field :: linorder
begin

definition less_eq_field :: "field \<Rightarrow> field \<Rightarrow> bool" where
  "less_eq_field f g \<longleftrightarrow> field_index f \<le> field_index g"

definition less_field :: "field \<Rightarrow> field \<Rightarrow> bool" where
  "less_field f g \<longleftrightarrow> field_index f < field_index g"

instance
  by standard (auto simp: less_eq_field_def less_field_def intro: field_index_inj)

end

abbreviation n_fields :: nat where
  "n_fields \<equiv> 14"

abbreviation BLOCK :: nat where
  "BLOCK \<equiv> 32"

lemma field_index_less [simp]: "field_index f < n_fields"
  by (cases f) simp_all

lemma field_all_index: "map field_index field_all = [0 ..< n_fields]"
  by (simp add: field_all_def upt_rec)

lemma distinct_field_all [simp]: "distinct field_all"
  by (simp add: field_all_def)

lemma field_in_all [simp]: "f \<in> set field_all"
  by (cases f) (simp_all add: field_all_def)

lemma field_of_index: "c < n_fields \<Longrightarrow> \<exists>f. field_index f = c"
proof -
  assume "c < n_fields"
  then have "c \<in> set (map field_index field_all)" by (simp add: field_all_index)
  then show ?thesis by auto
qed

section \<open>The writer\<close>

text \<open>A row is the array of its fourteen values.\<close>

type_synonym row = "i64 list"

record column_writer =
  cw_pending :: "row list"
  cw_blocks :: "bytes list"
  cw_offsets :: "u32 list list"
  cw_rows :: nat

definition column_writer_new :: column_writer where
  "column_writer_new =
     \<lparr>cw_pending = [], cw_blocks = replicate n_fields [], cw_offsets = replicate n_fields [],
      cw_rows = 0\<rparr>"

text \<open>One turn of the loop of \<open>seal\<close>: one column of the pending rows.\<close>

definition seal_field :: "column_writer \<Rightarrow> field \<Rightarrow> column_writer" where
  "seal_field w f =
     (let c = field_index f;
          vals = map (\<lambda>r. r ! c) (cw_pending w);
          (least, bits) = width_for vals;
          greatest = (case i64_max vals of Some m \<Rightarrow> m | None \<Rightarrow> least);
          blocks = cw_blocks w ! c
      in w\<lparr>cw_offsets := (cw_offsets w)[c := cw_offsets w ! c @ [as_u32 (length blocks)]],
           cw_blocks := (cw_blocks w)[c :=
             pack (blocks @ le_bytes 8 least @ le_bytes 8 greatest @ [word_of_nat bits])
               vals least bits]\<rparr>)"

definition column_seal :: "column_writer \<Rightarrow> column_writer" where
  "column_seal w =
     (if cw_pending w = [] then w
      else (foldl seal_field w field_all)\<lparr>cw_pending := []\<rparr>)"

definition column_push :: "column_writer \<Rightarrow> row \<Rightarrow> column_writer" where
  "column_push w r =
     (let w = w\<lparr>cw_pending := cw_pending w @ [r], cw_rows := cw_rows w + 1\<rparr>
      in if length (cw_pending w) = BLOCK then column_seal w else w)"

definition column_len :: "column_writer \<Rightarrow> nat" where
  "column_len w = cw_rows w"

definition column_is_empty :: "column_writer \<Rightarrow> bool" where
  "column_is_empty w = (cw_rows w = 0)"

text \<open>\<open>finish\<close>: the section offsets are summed as the header is written.\<close>

definition body_len :: "column_writer \<Rightarrow> nat \<Rightarrow> nat" where
  "body_len w c = 4 + length (cw_offsets w ! c) * 4 + length (cw_blocks w ! c)"

definition section_bytes :: "column_writer \<Rightarrow> nat \<Rightarrow> bytes" where
  "section_bytes w c =
     le_bytes 4 (as_u32 (length (cw_offsets w ! c)))
       @ concat (map (le_bytes 4) (cw_offsets w ! c)) @ cw_blocks w ! c"

definition column_finish :: "column_writer \<Rightarrow> bytes" where
  "column_finish w =
     (let w = column_seal w;
          header = 8 + n_fields * 8;
          (at, out) = foldl (\<lambda>(at :: u64, out) c. (at + word_of_nat (body_len w c), out @ le_bytes 8 at))
            (word_of_nat header, le_bytes 4 (as_u32 (cw_rows w)) @ le_bytes 4 (as_u32 n_fields))
            [0 ..< n_fields]
      in foldl (\<lambda>out c. out @ section_bytes w c) out [0 ..< n_fields])"

section \<open>The reader\<close>

record column_blocks =
  cb_rows :: nat
  cb_offsets :: bytes
  cb_bytes :: bytes

definition column_open :: "bytes \<Rightarrow> column_blocks option" where
  "column_open bs =
     (if length bs < 8 then None
      else Option.bind (u32_at bs 0) (\<lambda>rows.
           Option.bind (u32_at bs 4) (\<lambda>cols.
             if unat cols \<noteq> n_fields \<or> length bs < 8 + unat cols * 8 then None
             else Some \<lparr>cb_rows = unat rows, cb_offsets = take (unat cols * 8) (drop 8 bs),
                        cb_bytes = bs\<rparr>)))"

text \<open>Where a block starts, as both \<open>get\<close> and \<open>block_range\<close> find it.\<close>

definition block_at :: "column_blocks \<Rightarrow> field \<Rightarrow> nat \<Rightarrow> nat option" where
  "block_at t f block =
     Option.bind (u64_at (cb_offsets t) (field_index f * 8)) (\<lambda>sec.
     Option.bind (u32_at (cb_bytes t) (unat sec)) (\<lambda>n_blocks.
       if unat n_blocks \<le> block then None
       else Option.bind (u32_at (cb_bytes t) (unat sec + 4 + block * 4)) (\<lambda>start.
         Some (unat sec + 4 + unat n_blocks * 4 + unat start))))"

definition column_get :: "column_blocks \<Rightarrow> field \<Rightarrow> nat \<Rightarrow> i64 option run" where
  "column_get t f r =
     (if cb_rows t \<le> r then Ret None
      else try_run (block_at t f (r div BLOCK)) (\<lambda>at.
           try_run (u64_at (cb_bytes t) at) (\<lambda>least.
           try_run (nth_opt (cb_bytes t) (at + 16)) (\<lambda>bits.
           try_run (get_from (cb_bytes t) (at + 17)) (\<lambda>packed.
             bind_run (unpack_one packed least (unat bits) (r mod BLOCK)) (\<lambda>v. Ret (Some v)))))))"

definition block_range :: "column_blocks \<Rightarrow> field \<Rightarrow> nat \<Rightarrow> (i64 \<times> i64) option" where
  "block_range t f block =
     Option.bind (block_at t f block) (\<lambda>at.
     Option.bind (u64_at (cb_bytes t) at) (\<lambda>least.
     Option.bind (u64_at (cb_bytes t) (at + 8)) (\<lambda>greatest.
       Some (least, greatest))))"

section \<open>What a sealed column holds\<close>

text \<open>One block: least, greatest, width, packed values.\<close>

definition block_bytes :: "i64 list \<Rightarrow> bytes" where
  "block_bytes vals =
     (let (least, bits) = width_for vals;
          greatest = (case i64_max vals of Some m \<Rightarrow> m | None \<Rightarrow> least)
      in le_bytes 8 least @ le_bytes 8 greatest @ [word_of_nat bits] @ pack [] vals least bits)"

definition column_vals :: "nat \<Rightarrow> row list \<Rightarrow> i64 list" where
  "column_vals c rs = map (\<lambda>r. r ! c) rs"

definition column_pieces :: "nat \<Rightarrow> row list list \<Rightarrow> bytes list" where
  "column_pieces c css = map (\<lambda>rs. block_bytes (column_vals c rs)) css"

text \<open>The writer, when it has sealed the row blocks \<open>css\<close> and not yet the rows \<open>ps\<close>.\<close>

definition writer_holds :: "column_writer \<Rightarrow> row list list \<Rightarrow> row list \<Rightarrow> bool" where
  "writer_holds w css ps \<longleftrightarrow> cw_pending w = ps \<and> cw_rows w = length (concat css) + length ps
     \<and> length (cw_blocks w) = n_fields \<and> length (cw_offsets w) = n_fields
     \<and> (\<forall>c < n_fields. cw_blocks w ! c = concat (column_pieces c css)
          \<and> cw_offsets w ! c = map word_of_nat (starts (column_pieces c css)))"

lemma pack_block:
  "pack (pre @ a @ b @ c) vals least bits = pre @ a @ b @ c @ pack [] vals least bits"
  using pack_append [of "pre @ a @ b @ c"] by simp

lemma seal_field_at:
  assumes "length (cw_blocks w) = n_fields" "length (cw_offsets w) = n_fields"
  shows "cw_blocks (seal_field w f) = (cw_blocks w)[field_index f :=
      cw_blocks w ! field_index f @ block_bytes (column_vals (field_index f) (cw_pending w))]"
    and "cw_offsets (seal_field w f) = (cw_offsets w)[field_index f :=
      cw_offsets w ! field_index f @ [as_u32 (length (cw_blocks w ! field_index f))]]"
    and "cw_pending (seal_field w f) = cw_pending w" "cw_rows (seal_field w f) = cw_rows w"
  by (auto simp: seal_field_def Let_def block_bytes_def column_vals_def pack_block split: prod.splits)

lemma seal_fields:
  assumes "length (cw_blocks w) = n_fields" "length (cw_offsets w) = n_fields" "distinct fs"
  shows "length (cw_blocks (foldl seal_field w fs)) = n_fields
    \<and> length (cw_offsets (foldl seal_field w fs)) = n_fields
    \<and> cw_pending (foldl seal_field w fs) = cw_pending w \<and> cw_rows (foldl seal_field w fs) = cw_rows w
    \<and> (\<forall>f. cw_blocks (foldl seal_field w fs) ! field_index f =
          (if f \<in> set fs then cw_blocks w ! field_index f
             @ block_bytes (column_vals (field_index f) (cw_pending w)) else cw_blocks w ! field_index f)
        \<and> cw_offsets (foldl seal_field w fs) ! field_index f =
          (if f \<in> set fs then cw_offsets w ! field_index f
             @ [as_u32 (length (cw_blocks w ! field_index f))] else cw_offsets w ! field_index f))"
  using assms
proof (induction fs arbitrary: w)
  case (Cons g fs)
  let ?w = "seal_field w g"
  note at = seal_field_at [OF Cons.prems(1,2), of g]
  have IH: "length (cw_blocks (foldl seal_field ?w fs)) = n_fields
    \<and> length (cw_offsets (foldl seal_field ?w fs)) = n_fields
    \<and> cw_pending (foldl seal_field ?w fs) = cw_pending ?w \<and> cw_rows (foldl seal_field ?w fs) = cw_rows ?w
    \<and> (\<forall>f. cw_blocks (foldl seal_field ?w fs) ! field_index f =
          (if f \<in> set fs then cw_blocks ?w ! field_index f
             @ block_bytes (column_vals (field_index f) (cw_pending ?w)) else cw_blocks ?w ! field_index f)
        \<and> cw_offsets (foldl seal_field ?w fs) ! field_index f =
          (if f \<in> set fs then cw_offsets ?w ! field_index f
             @ [as_u32 (length (cw_blocks ?w ! field_index f))] else cw_offsets ?w ! field_index f))"
    by (rule Cons.IH) (use Cons.prems at in simp_all)
  have upd: "xs[field_index g := x] ! field_index f = (if f = g then x else xs ! field_index f)"
    if "length xs = n_fields" for xs :: "'x list" and x f
    using that field_index_inj [of f g] by (auto simp: nth_list_update)
  show ?case
    unfolding foldl_Cons using IH Cons.prems
    by (auto simp: at upd)
qed simp

lemma holds_new: "writer_holds column_writer_new [] []"
  by (simp add: writer_holds_def column_writer_new_def column_pieces_def starts_def)

lemma holds_seal:
  assumes "writer_holds w css ps" "ps \<noteq> []"
  shows "writer_holds (column_seal w) (css @ [ps]) []"
proof -
  have len: "length (cw_blocks w) = n_fields" "length (cw_offsets w) = n_fields"
    using assms(1) by (simp_all add: writer_holds_def)
  note fields = seal_fields [OF len distinct_field_all]
  have pieces: "column_pieces c (css @ [ps]) = column_pieces c css @ [block_bytes (column_vals c ps)]" for c
    by (simp add: column_pieces_def)
  have "cw_blocks (column_seal w) ! c = concat (column_pieces c (css @ [ps]))
      \<and> cw_offsets (column_seal w) ! c = map word_of_nat (starts (column_pieces c (css @ [ps])))"
    if c: "c < n_fields" for c
  proof -
    obtain f where f: "field_index f = c" using field_of_index [OF c] by blast
    have "cw_blocks w ! c = concat (column_pieces c css)"
      "cw_offsets w ! c = map word_of_nat (starts (column_pieces c css))" "cw_pending w = ps"
      using assms(1) c by (simp_all add: writer_holds_def)
    moreover have "cw_blocks (column_seal w) ! c = cw_blocks w ! c @ block_bytes (column_vals c (cw_pending w))"
      "cw_offsets (column_seal w) ! c = cw_offsets w ! c @ [as_u32 (length (cw_blocks w ! c))]"
    proof -
      have "cw_blocks (foldl seal_field w field_all) ! field_index f
          = cw_blocks w ! field_index f @ block_bytes (column_vals (field_index f) (cw_pending w))
        \<and> cw_offsets (foldl seal_field w field_all) ! field_index f
          = cw_offsets w ! field_index f @ [as_u32 (length (cw_blocks w ! field_index f))]"
        using fields by simp
      moreover have "column_seal w = (foldl seal_field w field_all)\<lparr>cw_pending := []\<rparr>"
        using assms by (simp add: column_seal_def writer_holds_def)
      ultimately show "cw_blocks (column_seal w) ! c = cw_blocks w ! c @ block_bytes (column_vals c (cw_pending w))"
        "cw_offsets (column_seal w) ! c = cw_offsets w ! c @ [as_u32 (length (cw_blocks w ! c))]"
        by (simp_all add: f)
    qed
    ultimately show ?thesis by (simp add: pieces starts_snoc)
  qed
  then show ?thesis
    using fields assms by (simp add: writer_holds_def column_seal_def)
qed

lemma holds_push:
  assumes "writer_holds w css ps"
  shows "writer_holds (column_push w r) (if length ps + 1 = BLOCK then css @ [ps @ [r]] else css)
           (if length ps + 1 = BLOCK then [] else ps @ [r])"
proof -
  let ?w = "w\<lparr>cw_pending := cw_pending w @ [r], cw_rows := cw_rows w + 1\<rparr>"
  have w: "writer_holds ?w css (ps @ [r])" "cw_pending ?w = ps @ [r]"
    using assms by (simp_all add: writer_holds_def)
  have "column_push w r = (if length ps + 1 = BLOCK then column_seal ?w else ?w)"
    using assms by (simp add: column_push_def writer_holds_def)
  then show ?thesis using w(1) holds_seal [OF w(1)] by simp
qed

text \<open>The writer after any rows: full blocks sealed, the rest pending.\<close>

lemma holds_pushes:
  "\<exists>css ps. writer_holds (foldl column_push column_writer_new rs) css ps
     \<and> (\<forall>cs \<in> set css. length cs = BLOCK) \<and> length ps < BLOCK \<and> concat css @ ps = rs"
proof (induction rs rule: rev_induct)
  case Nil
  show ?case by (rule exI [of _ "[]"], rule exI [of _ "[]"]) (simp add: holds_new)
next
  case (snoc r rs)
  then obtain css ps where h: "writer_holds (foldl column_push column_writer_new rs) css ps"
    and p: "\<forall>cs \<in> set css. length cs = BLOCK" "length ps < BLOCK" "concat css @ ps = rs"
    by blast
  show ?case
  proof (cases "length ps + 1 = BLOCK")
    case True
    show ?thesis
      by (rule exI [of _ "css @ [ps @ [r]]"], rule exI [of _ "[]"])
        (use holds_push [OF h, of r] True p in auto)
  next
    case False
    show ?thesis
      by (rule exI [of _ css], rule exI [of _ "ps @ [r]"])
        (use holds_push [OF h, of r] False p in auto)
  qed
qed

lemma holds_finished:
  "\<exists>css. writer_holds (column_seal (foldl column_push column_writer_new rs)) css []
     \<and> blocks_of BLOCK css \<and> concat css = rs"
proof -
  let ?w = "foldl column_push column_writer_new rs"
  obtain css ps where h: "writer_holds ?w css ps"
    and p: "\<forall>cs \<in> set css. length cs = BLOCK" "length ps < BLOCK" "concat css @ ps = rs"
    using holds_pushes by blast
  have full: "blocks_of BLOCK css" using p(1) by (force simp: blocks_of_def)
  show ?thesis
  proof (cases "ps = []")
    case True
    then have "column_seal ?w = ?w" using h by (simp add: column_seal_def writer_holds_def)
    then show ?thesis using h p True full by auto
  next
    case False
    have "blocks_of BLOCK (css @ [ps])" using blocks_of_snoc [OF full p(1) False] p(2) by simp
    then show ?thesis using holds_seal [OF h False] p(3) by (intro exI [of _ "css @ [ps]"]) simp
  qed
qed

section \<open>The file\<close>

lemma body_len_section: "body_len w c = length (section_bytes w c)"
  by (simp add: body_len_def section_bytes_def length_concat_map_const [where k = 4])

lemma header_fold:
  "foldl (\<lambda>(at :: u64, out) c. (at + word_of_nat (b c), out @ le_bytes 8 at)) (word_of_nat a, out) cs
     = (word_of_nat (a + sum_list (map b cs)),
        out @ concat (map (\<lambda>i. le_bytes 8 (word_of_nat (a + sum_list (map b (take i cs))) :: u64))
                [0 ..< length cs]))"
proof (induction cs arbitrary: a out)
  case (Cons c cs)
  have "[0 ..< length (c # cs)] = 0 # map Suc [0 ..< length cs]"
    by (simp add: map_Suc_upt upt_conv_Cons del: upt_Suc)
  then show ?case
    using Cons.IH [of "a + b c" "out @ le_bytes 8 (word_of_nat a :: u64)"]
    by (simp add: o_def add.assoc flip: of_nat_add del: upt_Suc)
qed simp

definition section_at :: "column_writer \<Rightarrow> nat \<Rightarrow> nat" where
  "section_at w c = 120 + length (concat (map (section_bytes w) [0 ..< c]))"

lemma column_finish_layout:
  assumes "w' = column_seal w"
  shows "column_finish w = le_bytes 4 (as_u32 (cw_rows w')) @ le_bytes 4 (as_u32 n_fields)
      @ concat (map (le_bytes 8) (map (\<lambda>c. word_of_nat (section_at w' c) :: u64) [0 ..< n_fields]))
      @ concat (map (section_bytes w') [0 ..< n_fields])"
proof -
  have sum: "8 + n_fields * 8 + sum_list (map (body_len w') (take c [0 ..< n_fields])) = section_at w' c"
    if "c \<le> n_fields" for c
  proof -
    have lens: "map (body_len w') [0 ..< c] = map length (map (section_bytes w') [0 ..< c])"
      by (simp add: body_len_section)
    have "take c [0 ..< n_fields] = [0 ..< c]" using that by (simp add: take_upt)
    then show ?thesis unfolding section_at_def length_concat by (simp only: lens)
  qed
  have eq: "map (\<lambda>c. le_bytes 8 (word_of_nat (8 + n_fields * 8 + sum_list (map (body_len w') (take c [0 ..< n_fields]))) :: u64)) [0 ..< n_fields]
      = map (le_bytes 8) (map (\<lambda>c. word_of_nat (section_at w' c) :: u64) [0 ..< n_fields])"
    unfolding map_map
  proof (rule map_cong [OF refl])
    fix c assume "c \<in> set [0 ..< n_fields]"
    then have "c \<le> n_fields" by simp
    then show "le_bytes 8 (word_of_nat (8 + n_fields * 8
          + sum_list (map (body_len w') (take c [0 ..< n_fields]))) :: u64)
        = (le_bytes 8 \<circ> (\<lambda>c. word_of_nat (section_at w' c) :: u64)) c"
      by (simp only: sum o_apply)
  qed
  show ?thesis
    unfolding column_finish_def Let_def assms [symmetric] header_fold prod.case foldl_append_concat
      length_upt diff_zero eq
    by (simp only: append.assoc)
qed

text \<open>The size limit of the format: offsets and counts are 32-bit.\<close>

definition column_fits :: "row list \<Rightarrow> bool" where
  "column_fits rs \<longleftrightarrow> length rs < 2 ^ 32
     \<and> length (column_finish (foldl column_push column_writer_new rs)) < 2 ^ 32"

definition column_file :: "row list \<Rightarrow> bytes" where
  "column_file rs = column_finish (foldl column_push column_writer_new rs)"

text \<open>
  A file the writer wrote, opened: the header of section offsets, and one section a column of
  block count, block offsets and blocks.
\<close>

definition column_view :: "row list \<Rightarrow> column_blocks" where
  "column_view rs = \<lparr>cb_rows = length rs,
     cb_offsets = take (n_fields * 8) (drop 8 (column_file rs)), cb_bytes = column_file rs\<rparr>"

lemma column_file_parts:
  obtains css w where "column_seal (foldl column_push column_writer_new rs) = w"
    "writer_holds w css []" "blocks_of BLOCK css" "concat css = rs"
    "column_file rs = le_bytes 4 (as_u32 (length rs)) @ le_bytes 4 (as_u32 n_fields)
      @ concat (map (le_bytes 8) (map (\<lambda>c. word_of_nat (section_at w c) :: u64) [0 ..< n_fields]))
      @ concat (map (section_bytes w) [0 ..< n_fields])"
proof -
  obtain css where css: "writer_holds (column_seal (foldl column_push column_writer_new rs)) css []"
    "blocks_of BLOCK css" "concat css = rs"
    using holds_finished by blast
  then have "cw_rows (column_seal (foldl column_push column_writer_new rs)) = length rs"
    by (simp add: writer_holds_def)
  with css show ?thesis
    using column_finish_layout [OF refl, of "foldl column_push column_writer_new rs"]
    by (intro that [OF refl]) (simp_all only: column_file_def)
qed

lemma length_header_table:
  "length (concat (map (le_bytes 8) (map g [0 ..< n_fields]))) = n_fields * 8"
  by (subst length_concat_map_const [where k = 8]) simp_all

lemma column_open_file:
  assumes "column_fits rs"
  shows "column_open (column_file rs) = Some (column_view rs)"
proof -
  obtain css w where layout: "column_file rs = le_bytes 4 (as_u32 (length rs)) @ le_bytes 4 (as_u32 n_fields)
      @ concat (map (le_bytes 8) (map (\<lambda>c. word_of_nat (section_at w c) :: u64) [0 ..< n_fields]))
      @ concat (map (section_bytes w) [0 ..< n_fields])"
    using column_file_parts by metis
  have "length (column_file rs) \<ge> 120"
    unfolding layout length_append length_header_table by simp
  moreover have "u32_at (column_file rs) 0 = Some (as_u32 (length rs))"
    unfolding layout by (rule u32_at_0)
  moreover have "u32_at (column_file rs) 4 = Some (as_u32 n_fields)"
    unfolding layout by (rule u32_at_append) simp
  moreover have "unat (as_u32 (length rs)) = length rs"
    using assms by (simp add: column_fits_def unat_of_nat)
  ultimately show ?thesis
    by (simp add: column_open_def column_view_def)
qed

lemma column_block_at:
  assumes fits: "column_fits rs"
  shows "\<exists>css. blocks_of BLOCK css \<and> concat css = rs \<and>
    (\<forall>f k. if k < length css
       then \<exists>pre post. column_file rs = pre @ block_bytes (column_vals (field_index f) (css ! k)) @ post
         \<and> block_at (column_view rs) f k = Some (length pre)
       else block_at (column_view rs) f k = None)"
proof -
  obtain css w where w: "writer_holds w css []" "blocks_of BLOCK css" "concat css = rs"
    and layout: "column_file rs = le_bytes 4 (as_u32 (length rs)) @ le_bytes 4 (as_u32 n_fields)
      @ concat (map (le_bytes 8) (map (\<lambda>c. word_of_nat (section_at w c) :: u64) [0 ..< n_fields]))
      @ concat (map (section_bytes w) [0 ..< n_fields])"
    using column_file_parts by metis
  have small: "length (column_file rs) < 2 ^ 32"
    using fits by (simp add: column_fits_def column_file_def)
  let ?head = "concat (map (le_bytes 8) (map (\<lambda>c. word_of_nat (section_at w c) :: u64) [0 ..< n_fields]))"
  have offsets: "cb_offsets (column_view rs) = ?head"
  proof -
    have "length ?head = n_fields * 8" by (rule length_header_table)
    moreover have "drop 8 (column_file rs) = ?head @ concat (map (section_bytes w) [0 ..< n_fields])"
      unfolding layout by (simp del: map_map)
    ultimately show ?thesis by (simp add: column_view_def del: map_map)
  qed
  have "if k < length css
       then \<exists>pre post. column_file rs = pre @ block_bytes (column_vals (field_index f) (css ! k)) @ post
         \<and> block_at (column_view rs) f k = Some (length pre)
       else block_at (column_view rs) f k = None" for f k
  proof -
    let ?c = "field_index f"
    let ?pieces = "column_pieces ?c css"
    let ?offs = "map word_of_nat (starts ?pieces) :: u32 list"
    let ?secs = "map (section_bytes w) [0 ..< n_fields]"
    have len: "length ?pieces = length css" by (simp add: column_pieces_def)
    have c: "?c < length ?secs" by simp
    define pre0 where "pre0 = le_bytes 4 (as_u32 (length rs)) @ le_bytes 4 (as_u32 n_fields) @ ?head
      @ concat (take ?c ?secs)"
    define rest where "rest = concat (drop (Suc ?c) ?secs)"
    have file1: "column_file rs = pre0 @ section_bytes w ?c @ rest"
      unfolding layout pre0_def rest_def using concat_split_nth [OF c] by simp
    have pre0: "length pre0 = section_at w ?c"
    proof -
      have "take ?c [0 ..< n_fields] = [0 ..< ?c]"
        using less_imp_le [OF field_index_less [of f]] by (simp add: take_upt)
      then show ?thesis
        unfolding pre0_def section_at_def length_append length_header_table by (simp add: take_map)
    qed
    have sec: "section_bytes w ?c = le_bytes 4 (as_u32 (length css)) @ concat (map (le_bytes 4) ?offs) @ concat ?pieces"
      using w(1) len by (simp add: section_bytes_def writer_holds_def)
    have offs_len: "length (concat (map (le_bytes 4) ?offs)) = 4 * length css"
      by (subst length_concat_map_const [where k = 4]) (simp_all add: len)
    have bound: "section_at w ?c + 4 + 4 * length css + length (concat ?pieces) < 2 ^ 32"
      using small unfolding file1 sec length_append pre0 offs_len by simp
    have at: "u64_at (cb_offsets (column_view rs)) (?c * 8) = Some (word_of_nat (section_at w ?c))"
      using u64_at_array [of ?c "map (\<lambda>c. word_of_nat (section_at w c) :: u64) [0 ..< n_fields]" "[]"]
      unfolding offsets by (simp add: mult.commute)
    have un: "unat (word_of_nat (section_at w ?c) :: u64) = section_at w ?c"
      using bound by (simp add: unat_of_nat)
    have count: "u32_at (column_file rs) (section_at w ?c) = Some (as_u32 (length css))"
      unfolding file1 sec append.assoc by (rule u32_at_append [OF pre0])
    have uc: "unat (as_u32 (length css)) = length css"
      using bound by (simp add: unat_of_nat)
    show ?thesis
    proof (cases "k < length css")
      case False
      then show ?thesis
        unfolding block_at_def at bind.bind_lunit un
        using count by (simp add: column_view_def uc)
    next
      case True
      define pre1 where "pre1 = pre0 @ le_bytes 4 (as_u32 (length css))"
      have "column_file rs = pre1 @ (concat (map (le_bytes 4) ?offs) @ (concat ?pieces @ rest))"
        unfolding file1 sec pre1_def by simp
      moreover have "length pre1 = section_at w ?c + 4" unfolding pre1_def using pre0 by simp
      ultimately have start: "u32_at (column_file rs) (section_at w ?c + 4 + k * 4) = Some (?offs ! k)"
        using u32_at_shift [of pre1 "concat (map (le_bytes 4) ?offs) @ (concat ?pieces @ rest)" "4 * k"]
          u32_at_array [of k ?offs "concat ?pieces @ rest"] True
        by (simp add: len mult.commute)
      have "starts ?pieces ! k \<le> length (concat ?pieces)"
        using starts_le [of k ?pieces] True len by simp
      then have us: "unat (?offs ! k) = starts ?pieces ! k"
        using bound True len by (simp add: unat_of_nat)
      define pre2 where "pre2 = pre1 @ concat (map (le_bytes 4) ?offs) @ concat (take k ?pieces)"
      have "column_file rs = pre2 @ ?pieces ! k @ (concat (drop (Suc k) ?pieces) @ rest)"
        unfolding file1 sec pre2_def pre1_def using concat_split_nth [of k ?pieces] True len by simp
      moreover have "?pieces ! k = block_bytes (column_vals ?c (css ! k))"
        using True by (simp add: column_pieces_def)
      moreover have "length pre2 = section_at w ?c + 4 + length css * 4 + starts ?pieces ! k"
        unfolding pre2_def pre1_def length_append offs_len using pre0 True len by (simp add: nth_starts)
      moreover have "block_at (column_view rs) f k = Some (section_at w ?c + 4 + length css * 4 + starts ?pieces ! k)"
        unfolding block_at_def at bind.bind_lunit un
        using True start count by (simp add: column_view_def uc us)
      ultimately show ?thesis using True by metis
    qed
  qed
  with w show ?thesis by blast
qed

section \<open>Reading a value and a range\<close>

lemma i64_min_in: "i64_min vals = Some m \<Longrightarrow> m \<in> set vals \<and> (\<forall>v \<in> set vals. \<not> v <s m)"
proof (cases vals)
  case (Cons x xs)
  have "foldl (\<lambda>m v. if v <s m then v else m) x xs \<in> set (x # xs)
      \<and> (\<forall>v \<in> set (x # xs). sint (foldl (\<lambda>m v. if v <s m then v else m) x xs) \<le> sint v)" for x :: i64 and xs
    by (induction xs arbitrary: x) (force simp: word_sless_alt)+
  then show "i64_min vals = Some m \<Longrightarrow> ?thesis" using Cons by (fastforce simp: word_sless_alt)
qed simp

lemma i64_max_in: "i64_max vals = Some m \<Longrightarrow> m \<in> set vals \<and> (\<forall>v \<in> set vals. \<not> m <s v)"
proof (cases vals)
  case (Cons x xs)
  have "foldl (\<lambda>m v. if m <s v then v else m) x xs \<in> set (x # xs)
      \<and> (\<forall>v \<in> set (x # xs). sint v \<le> sint (foldl (\<lambda>m v. if m <s v then v else m) x xs))" for x :: i64 and xs
    by (induction xs arbitrary: x) (force simp: word_sless_alt)+
  then show "i64_max vals = Some m \<Longrightarrow> ?thesis" using Cons by (fastforce simp: word_sless_alt)
qed simp

lemma block_bytes_parts:
  assumes "vals \<noteq> []"
  obtains least greatest bits where "width_for vals = (least, bits)" "i64_min vals = Some least"
    "i64_max vals = Some greatest" "bits \<le> 64"
    "block_bytes vals = le_bytes 8 least @ le_bytes 8 greatest @ [word_of_nat bits] @ pack [] vals least bits"
proof -
  obtain least bits where w: "width_for vals = (least, bits)" by fastforce
  moreover from w assms have "i64_min vals = Some least"
    by (cases vals) (auto simp: width_for_def Let_def)
  moreover obtain greatest where "i64_max vals = Some greatest" using assms by (cases vals) auto
  moreover have "bits \<le> 64" using w assms width_for_bits(2) [OF w, of "hd vals"] by simp
  ultimately show ?thesis using that [of least bits greatest] by (simp add: block_bytes_def)
qed

lemma column_get_file:
  assumes "column_fits rs" "i < length rs"
  shows "column_get (column_view rs) f i = Ret (Some (rs ! i ! field_index f))"
proof -
  obtain css where css: "blocks_of BLOCK css" "concat css = rs"
    and at: "\<And>f k. if k < length css
       then \<exists>pre post. column_file rs = pre @ block_bytes (column_vals (field_index f) (css ! k)) @ post
         \<and> block_at (column_view rs) f k = Some (length pre)
       else block_at (column_view rs) f k = None"
    using column_block_at [OF assms(1)] by blast
  let ?k = "i div BLOCK" and ?j = "i mod BLOCK"
  have i: "?k < length css" "?j < length (css ! ?k)" "rs ! i = css ! ?k ! ?j"
    using nth_blocks [OF _ css(1), of i] assms(2) css(2) by auto
  obtain pre post where layout: "column_file rs = pre @ block_bytes (column_vals (field_index f) (css ! ?k)) @ post"
    and blk: "block_at (column_view rs) f ?k = Some (length pre)"
    using at [where k = ?k and f = f] i(1) by auto
  let ?vals = "column_vals (field_index f) (css ! ?k)"
  have j: "?j < length ?vals" using i(2) by (simp add: column_vals_def)
  then have "?vals \<noteq> []" by auto
  then obtain least greatest bits where w: "width_for ?vals = (least, bits)"
    and "i64_min ?vals = Some least" "i64_max ?vals = Some greatest" and "bits \<le> 64"
    and bytes: "block_bytes ?vals = le_bytes 8 least @ le_bytes 8 greatest @ [word_of_nat bits] @ pack [] ?vals least bits"
    by (rule block_bytes_parts)
  note w = w \<open>bits \<le> 64\<close>
  have fits: "\<forall>v \<in> set ?vals. \<forall>k. bit (v - least) k \<longrightarrow> k < bits"
    using width_for_bits(1) [OF w(1)] by blast
  have r0: "u64_at (column_file rs) (length pre) = Some least"
    unfolding layout bytes append.assoc by (rule u64_at_append) simp
  have shift: "column_file rs = (pre @ le_bytes 8 least @ le_bytes 8 greatest)
      @ (word_of_nat bits # (pack [] ?vals least bits @ post))"
    unfolding layout bytes by simp
  have r1: "nth_opt (column_file rs) (length pre + 16) = Some (word_of_nat bits)"
    using nth_opt_shift [of "pre @ le_bytes 8 least @ le_bytes 8 greatest"
        "word_of_nat bits # (pack [] ?vals least bits @ post)" 0]
    unfolding shift by (simp add: nth_opt_def)
  have r2: "get_from (column_file rs) (length pre + 17) = Some (pack [] ?vals least bits @ post)"
    using get_from_shift [of "pre @ le_bytes 8 least @ le_bytes 8 greatest"
        "word_of_nat bits # (pack [] ?vals least bits @ post)" 1]
    unfolding shift by (simp add: get_from_def)
  have ub: "unat (word_of_nat bits :: u8) = bits" using w(2) by (simp add: unat_of_nat)
  have "unpack_one (pack [] ?vals least bits @ post) least bits ?j = Ret (rs ! i ! field_index f)"
    using unpack_pack [OF w(2) fits j, of post] i by (simp add: column_vals_def)
  moreover have "cb_bytes (column_view rs) = column_file rs" "cb_rows (column_view rs) = length rs"
    by (simp_all add: column_view_def)
  ultimately show ?thesis
    using assms(2) by (simp add: column_get_def blk r0 r1 r2 ub)
qed

text \<open>The rows of a block.\<close>

definition block_mates :: "'a list \<Rightarrow> nat \<Rightarrow> nat set" where
  "block_mates rs i = {j. j < length rs \<and> j div BLOCK = i div BLOCK}"

lemma column_range_block:
  assumes "column_fits rs" "i < length rs"
  shows "\<exists>least greatest. block_range (column_view rs) f (i div BLOCK) = Some (least, greatest)
    \<and> (\<forall>j \<in> block_mates rs i. sint least \<le> sint (rs ! j ! field_index f) \<and> sint (rs ! j ! field_index f) \<le> sint greatest)
    \<and> (\<exists>j \<in> block_mates rs i. rs ! j ! field_index f = least) \<and> (\<exists>j \<in> block_mates rs i. rs ! j ! field_index f = greatest)"
proof -
  define b where "b = i div BLOCK"
  obtain css where css: "blocks_of BLOCK css" "concat css = rs"
    and at: "\<And>f k. if k < length css
       then \<exists>pre post. column_file rs = pre @ block_bytes (column_vals (field_index f) (css ! k)) @ post
         \<and> block_at (column_view rs) f k = Some (length pre)
       else block_at (column_view rs) f k = None"
    using column_block_at [OF assms(1)] by blast
  have i: "b < length css" "i mod BLOCK < length (css ! b)" "rs ! i = css ! b ! (i mod BLOCK)"
    using nth_blocks [OF _ css(1), of i] assms(2) css(2) by (auto simp: b_def)
  obtain pre post where layout: "column_file rs = pre @ block_bytes (column_vals (field_index f) (css ! b)) @ post"
    and blk: "block_at (column_view rs) f b = Some (length pre)"
    using at [where k = b and f = f] i(1) by auto
  let ?vals = "column_vals (field_index f) (css ! b)"
  have mem: "rs ! i ! field_index f \<in> set ?vals"
    using nth_mem [OF i(2)] i(3) by (simp add: column_vals_def)
  then have "?vals \<noteq> []" by auto
  then obtain l g bits where m: "i64_min ?vals = Some l" "i64_max ?vals = Some g"
    and bytes: "block_bytes ?vals = le_bytes 8 l @ le_bytes 8 g @ [word_of_nat bits] @ pack [] ?vals l bits"
    using block_bytes_parts by metis
  have r0: "u64_at (column_file rs) (length pre) = Some l"
    unfolding layout bytes append.assoc by (rule u64_at_append) simp
  have "column_file rs = (pre @ le_bytes 8 l) @ le_bytes 8 g @ ([word_of_nat bits] @ pack [] ?vals l bits @ post)"
    unfolding layout bytes by simp
  then have r1: "u64_at (column_file rs) (length pre + 8) = Some g"
    using u64_at_append [of "pre @ le_bytes 8 l" "length pre + 8" g "[word_of_nat bits] @ pack [] ?vals l bits @ post"]
    by simp
  have range: "block_range (column_view rs) f b = Some (l, g)"
    using blk r0 r1 by (simp add: block_range_def column_view_def [of rs])
  have vals: "set ?vals = (\<lambda>j. rs ! j ! field_index f) ` block_mates rs i"
  proof -
    have "(\<lambda>j. rs ! j ! field_index f) ` block_mates rs i = (\<lambda>k. css ! b ! k ! field_index f) ` {..< length (css ! b)}"
    proof
      show "(\<lambda>j. rs ! j ! field_index f) ` block_mates rs i \<subseteq> (\<lambda>k. css ! b ! k ! field_index f) ` {..< length (css ! b)}"
        using nth_blocks [OF _ css(1)] by (force simp: block_mates_def b_def css(2))
      show "(\<lambda>k. css ! b ! k ! field_index f) ` {..< length (css ! b)} \<subseteq> (\<lambda>j. rs ! j ! field_index f) ` block_mates rs i"
      proof
        fix v assume "v \<in> (\<lambda>k. css ! b ! k ! field_index f) ` {..< length (css ! b)}"
        then obtain k where k: "k < length (css ! b)" "v = css ! b ! k ! field_index f" by auto
        note conv = nth_blocks_conv [OF css(1) i(1) k(1), unfolded css(2)]
        then have "(b * BLOCK + k) div BLOCK = b" by simp
        then show "v \<in> (\<lambda>j. rs ! j ! field_index f) ` block_mates rs i"
          using conv k(2) by (intro image_eqI [of _ _ "b * BLOCK + k"]) (simp_all add: block_mates_def b_def)
      qed
    qed
    then show ?thesis by (auto simp: column_vals_def in_set_conv_nth intro!: imageI nth_mem)
  qed
  have "\<forall>v \<in> set ?vals. sint l \<le> sint v \<and> sint v \<le> sint g" "l \<in> set ?vals" "g \<in> set ?vals"
    using i64_min_in [OF m(1)] i64_max_in [OF m(2)] by (auto simp: word_sless_alt not_less)
  note within = this [unfolded vals]
  show ?thesis using range within unfolding b_def [symmetric] by (intro exI [of _ l] exI [of _ g]) auto
qed

lemma column_range_vals:
  assumes "column_fits rs" "i < length rs"
  shows "\<exists>least greatest. block_range (column_view rs) f (i div BLOCK) = Some (least, greatest)
    \<and> sint least \<le> sint (rs ! i ! field_index f) \<and> sint (rs ! i ! field_index f) \<le> sint greatest
    \<and> least \<in> (\<lambda>r. r ! field_index f) ` set rs \<and> greatest \<in> (\<lambda>r. r ! field_index f) ` set rs"
proof -
  have "i \<in> block_mates rs i" "\<forall>j \<in> block_mates rs i. rs ! j \<in> set rs" using assms(2) by (simp_all add: block_mates_def)
  then show ?thesis using column_range_block [OF assms, of f] by blast
qed

lemma column_range_file:
  assumes "column_fits rs" "i < length rs"
  shows "\<exists>least greatest. block_range (column_view rs) f (i div BLOCK) = Some (least, greatest)
    \<and> sint least \<le> sint (rs ! i ! field_index f) \<and> sint (rs ! i ! field_index f) \<le> sint greatest"
  using column_range_vals [OF assms, of f] by blast

section \<open>The columns as a table file\<close>

text \<open>A whole row, read field by field.\<close>

definition column_row :: "column_blocks \<Rightarrow> nat \<Rightarrow> row option" where
  "column_row t i = those (map (\<lambda>f. case column_get t f i of Ret v \<Rightarrow> v | Panic \<Rightarrow> None) field_all)"

definition column_rows_ok :: "row list \<Rightarrow> bool" where
  "column_rows_ok rs \<longleftrightarrow> column_fits rs \<and> (\<forall>r \<in> set rs. length r = n_fields)"

lemma those_Some: "those (map (\<lambda>x. Some (g x)) xs) = Some (map g xs)"
  by (induction xs) auto

lemma column_row_file:
  assumes "column_rows_ok rs" "i < length rs"
  shows "column_row (column_view rs) i = Some (rs ! i)"
proof -
  have "column_row (column_view rs) i = Some (map (\<lambda>f. rs ! i ! field_index f) field_all)"
    using assms by (simp add: column_row_def column_rows_ok_def column_get_file those_Some)
  moreover have "map (\<lambda>f. rs ! i ! field_index f) field_all = map ((!) (rs ! i)) [0 ..< n_fields]"
    by (simp flip: field_all_index)
  moreover have "length (rs ! i) = n_fields" using assms by (simp add: column_rows_ok_def)
  ultimately show ?thesis by (metis map_nth)
qed

interpretation columns: table_file column_file column_open cb_rows column_row "\<lambda>rs. rs" column_rows_ok
proof
  fix rs t i
  assume ok: "column_rows_ok rs"
  then have fits: "column_fits rs" by (simp add: column_rows_ok_def)
  then show "\<exists>t. column_open (column_file rs) = Some t" using column_open_file by blast
  assume "column_open (column_file rs) = Some t"
  then have t: "t = column_view rs" using column_open_file [OF fits] by simp
  then show "cb_rows t = length rs" by (simp add: column_view_def)
  assume "i < length rs"
  then show "column_row t i = Some (rs ! i)" using t column_row_file [OF ok] by simp
qed

section \<open>How long the file is\<close>

lemma length_pack: "bits \<le> 64 \<Longrightarrow> (\<forall>v \<in> set vals. \<forall>k. bit (v - least) k \<longrightarrow> k < bits)
  \<Longrightarrow> length (pack [] vals least bits) \<le> 8 * length vals"
proof (cases "bits = 0")
  case False
  assume b: "bits \<le> 64" "\<forall>v \<in> set vals. \<forall>k. bit (v - least) k \<longrightarrow> k < bits"
  have "length vals * bits \<le> length vals * 64" using b(1) by (rule mult_le_mono2)
  then have "packed_len (length vals) bits \<le> 8 * length vals"
    unfolding packed_len_def by linarith
  then show ?thesis
    using pack_stream(2) [OF b(1) _ b(2)] False by simp
qed (simp add: pack_def)

lemma length_block_bytes:
  assumes "vals \<noteq> []"
  shows "length (block_bytes vals) \<le> 17 + 8 * length vals"
proof -
  obtain least greatest bits where w: "width_for vals = (least, bits)" and "i64_min vals = Some least"
    "i64_max vals = Some greatest" and b: "bits \<le> 64"
    and bytes: "block_bytes vals = le_bytes 8 least @ le_bytes 8 greatest @ [word_of_nat bits] @ pack [] vals least bits"
    using assms by (rule block_bytes_parts)
  have "\<forall>v \<in> set vals. \<forall>k. bit (v - least) k \<longrightarrow> k < bits"
    using width_for_bits(1) [OF w] by blast
  from length_pack [OF b this] show ?thesis unfolding bytes by simp
qed

lemma length_pieces:
  "\<forall>rs \<in> set css. rs \<noteq> [] \<Longrightarrow>
     length (concat (column_pieces c css)) \<le> 25 * length (concat css) \<and> length css \<le> length (concat css)"
proof (induction css)
  case (Cons rs css)
  have ne: "column_vals c rs \<noteq> []" and one: "1 \<le> length rs"
    using Cons.prems by (cases rs; simp add: column_vals_def)+
  have "length (block_bytes (column_vals c rs)) \<le> 17 + 8 * length rs"
    using length_block_bytes [OF ne] by (simp add: column_vals_def)
  then have "length (block_bytes (column_vals c rs)) \<le> 25 * length rs" using one by linarith
  then show ?case using Cons one by (simp add: column_pieces_def)
qed (simp add: column_pieces_def)

lemma column_file_length: "length (column_file rs) \<le> 176 + 406 * length rs"
proof -
  obtain css w where w: "writer_holds w css []" "blocks_of BLOCK css" "concat css = rs"
    and layout: "column_file rs = le_bytes 4 (as_u32 (length rs)) @ le_bytes 4 (as_u32 n_fields)
      @ concat (map (le_bytes 8) (map (\<lambda>c. word_of_nat (section_at w c) :: u64) [0 ..< n_fields]))
      @ concat (map (section_bytes w) [0 ..< n_fields])"
    using column_file_parts by metis
  have ne: "\<forall>cs \<in> set css. cs \<noteq> []" using w(2) by (simp add: blocks_of_def)
  have one: "length (section_bytes w c) \<le> 4 + 29 * length rs" if "c < n_fields" for c
    using w(1,3) that length_pieces [OF ne, of c]
    by (simp add: body_len_section [symmetric] body_len_def writer_holds_def column_pieces_def)
  have "sum_list (map (\<lambda>c. length (section_bytes w c)) [0 ..< n_fields])
      \<le> sum_list (map (\<lambda>c. 4 + 29 * length rs) [0 ..< n_fields])"
    by (rule sum_list_mono) (use one in simp)
  also have "\<dots> = 14 * (4 + 29 * length rs)" by (simp add: sum_list_triv)
  finally show ?thesis
    unfolding layout length_append length_header_table by (simp add: length_concat o_def)
qed

section \<open>Properties\<close>

text \<open>
  C27: every number comes back.  A column file written by pushing rows one by one opens,
  reports as many rows as were pushed, and gives back each row's value of each field, for
  any number of rows and any 64-bit values, as long as the file and its row count fit the
  format's 32-bit offsets.
\<close>

theorem column_roundtrip:
  assumes "length rs < 2 ^ 32" "length (column_file rs) < 2 ^ 32" "i < length rs"
  shows "\<exists>t. column_open (column_file rs) = Some t \<and> cb_rows t = length rs
    \<and> (\<forall>f. column_get t f i = Ret (Some (rs ! i ! field_index f)))"
proof -
  have "column_fits rs" using assms by (simp add: column_fits_def column_file_def)
  then show ?thesis
    using column_open_file column_get_file assms(3) by (simp add: column_view_def)
qed

theorem column_roundtrip_witness:
  "\<exists>t. column_open (column_file [replicate 14 7, replicate 14 (-1)]) = Some t
    \<and> column_get t Size 1 = Ret (Some (-1))"
  using column_roundtrip [of "[replicate 14 7, replicate 14 (-1)]" 1]
    column_file_length [of "[replicate 14 7, replicate 14 (-1)]"] by auto

text \<open>
  C28: the zone map is exact.  \<open>block_range\<close> reports for the block of every row a least and a
  greatest value, as signed numbers: every row of the block lies between the two and each of the two
  is the value of a row of the block, so a filter that skips a block because its own range misses
  the reported one loses no row, and no narrower range would do.
\<close>

theorem zone_map_sound:
  assumes "length rs < 2 ^ 32" "length (column_file rs) < 2 ^ 32" "i < length rs"
  shows "\<exists>t least greatest. column_open (column_file rs) = Some t \<and> block_range t f (i div BLOCK) = Some (least, greatest)
    \<and> (\<forall>j < length rs. j div BLOCK = i div BLOCK \<longrightarrow>
         sint least \<le> sint (rs ! j ! field_index f) \<and> sint (rs ! j ! field_index f) \<le> sint greatest)
    \<and> (\<exists>j < length rs. j div BLOCK = i div BLOCK \<and> rs ! j ! field_index f = least)
    \<and> (\<exists>j < length rs. j div BLOCK = i div BLOCK \<and> rs ! j ! field_index f = greatest)"
proof -
  have fits: "column_fits rs" using assms by (simp add: column_fits_def column_file_def)
  obtain least greatest where "block_range (column_view rs) f (i div BLOCK) = Some (least, greatest)"
    "\<forall>j \<in> block_mates rs i. sint least \<le> sint (rs ! j ! field_index f) \<and> sint (rs ! j ! field_index f) \<le> sint greatest"
    "\<exists>j \<in> block_mates rs i. rs ! j ! field_index f = least" "\<exists>j \<in> block_mates rs i. rs ! j ! field_index f = greatest"
    using column_range_block [OF fits assms(3), of f] by blast
  then show ?thesis
    using column_open_file [OF fits] by (intro exI [of _ "column_view rs"] exI [of _ least] exI [of _ greatest]) (auto simp: block_mates_def)
qed

theorem zone_map_sound_witness:
  "\<exists>t least greatest. column_open (column_file [replicate 14 7, replicate 14 5]) = Some t
    \<and> block_range t Mtime 0 = Some (least, greatest) \<and> sint least \<le> 5 \<and> greatest \<in> {5, 7}"
proof -
  let ?rs = "[replicate 14 7, replicate 14 5] :: row list"
  have at: "?rs ! j ! field_index Mtime \<in> {5, 7}" if "j < length ?rs" for j
    using that by (auto simp: less_Suc_eq)
  have one: "?rs ! 1 ! field_index Mtime = 5" by simp
  obtain t least greatest where z: "column_open (column_file ?rs) = Some t" "block_range t Mtime (1 div BLOCK) = Some (least, greatest)"
    "\<forall>j < length ?rs. j div BLOCK = 1 div BLOCK \<longrightarrow> sint least \<le> sint (?rs ! j ! field_index Mtime)"
    "\<exists>j < length ?rs. ?rs ! j ! field_index Mtime = greatest"
    using zone_map_sound [of ?rs 1 Mtime] column_file_length [of ?rs] by fastforce
  have "sint least \<le> 5" using z(3) [rule_format, of 1] one by simp
  then show ?thesis using z(1,2,4) at by auto
qed

text \<open>
  Two sets of rows that encode to the same bytes are the same rows, so a column file
  determines what was indexed.
\<close>

theorem column_file_injective:
  assumes "column_rows_ok rs" "column_rows_ok ss" "column_file rs = column_file ss"
  shows "rs = ss"
  using columns.finish_injective [OF assms] .

theorem column_file_injective_witness:
  "[replicate 14 (7 :: i64)] = [replicate 14 7]"
proof -
  have "column_rows_ok [replicate 14 7]"
    using column_file_length [of "[replicate 14 7]"]
    by (simp add: column_rows_ok_def column_fits_def column_file_def)
  from column_file_injective [OF this this refl] show ?thesis .
qed

end
