(* ===== verification/Dirs.thy ===== *)
theory Dirs
  imports Paths Varint Utf8 "HOL-Library.Multiset"
begin

text \<open>
  The directory table: \<open>crates/scour-index-native/src/dirs.rs\<close>.

  Every directory is stored once, sorted and front-coded, restarting every sixteen rows.
  \<open>dir_writer\<close>, \<open>intern\<close> and \<open>dir_finish\<close> write it; \<open>dir_open\<close>, \<open>dir_get\<close>, \<open>depths\<close>,
  \<open>each_bytes\<close>, \<open>join_prefixes\<close>, \<open>lower_bound\<close>, \<open>exact\<close> and \<open>subtree\<close> read it in place.

  The lemmas show that every reader decodes what was written, that the two-level search is
  the position of a path in the sorted table, and that a scope holds exactly the
  directories at or below the one asked for.
\<close>

section \<open>Distance of a directory\<close>

abbreviation AWAY :: nat where "AWAY \<equiv> 3"
abbreviation STEP_CAP :: nat where "STEP_CAP \<equiv> 60"

definition GENERATED :: "bytes list" where
  "GENERATED = [str ''target'', str ''build'', str ''out'', str ''dist'', str ''node_modules'',
     str ''vendor'', str ''__pycache__'', str ''site-packages'', str ''obj'', str ''.gradle'',
     str ''cmakefiles'']"

definition part_steps :: "bytes \<Rightarrow> nat" where
  "part_steps part =
     (if take 1 part = [0x2E] \<or> list_ex (\<lambda>g. eq_ignore_ascii_case part g) GENERATED then AWAY else 1)"

fun steps_loop :: "nat \<Rightarrow> bytes list \<Rightarrow> u8" where
  "steps_loop steps [] = word_of_nat steps"
| "steps_loop steps (part # parts) =
     (let steps = steps + part_steps part
      in if STEP_CAP \<le> steps then word_of_nat STEP_CAP else steps_loop steps parts)"

definition steps_of :: "bytes \<Rightarrow> u8" where
  "steps_of dir = steps_loop 0 (filter (\<lambda>p. p \<noteq> []) (split_on SLASH dir))"

definition dir_part :: "bytes \<Rightarrow> bytes" where
  "dir_part path =
     (case rfind SLASH path of
        Some i \<Rightarrow> if i = 0 then [SLASH] else take i path
      | None \<Rightarrow> [])"

section \<open>The writer\<close>

abbreviation RESTART :: nat where "RESTART \<equiv> 16"

record dir_writer =
  dw_paths :: "bytes list"
  dw_seen :: "bytes \<rightharpoonup> u32"

definition dir_writer_new :: dir_writer where
  "dir_writer_new = \<lparr>dw_paths = [], dw_seen = Map.empty\<rparr>"

definition intern :: "dir_writer \<Rightarrow> bytes \<Rightarrow> u32 \<times> dir_writer" where
  "intern w path =
     (case dw_seen w path of
        Some num \<Rightarrow> (num, w)
      | None \<Rightarrow>
          let num = as_u32 (length (dw_paths w))
          in (num, w\<lparr>dw_paths := dw_paths w @ [path], dw_seen := (dw_seen w)(path \<mapsto> num)\<rparr>))"

definition dir_writer_len :: "dir_writer \<Rightarrow> nat" where
  "dir_writer_len w = length (dw_paths w)"

text \<open>The shared prefix, cut back to a character boundary.\<close>

fun back_to_boundary :: "bytes \<Rightarrow> nat \<Rightarrow> nat" where
  "back_to_boundary b 0 = 0"
| "back_to_boundary b (Suc n) = (if char_boundary b (Suc n) then Suc n else back_to_boundary b n)"

definition common_prefix :: "bytes \<Rightarrow> bytes \<Rightarrow> nat" where
  "common_prefix a b =
     (let n = length (takeWhile (\<lambda>(x, y). x = y) (zip a b));
          n = min (min n (length a)) (length b)
      in back_to_boundary b n)"

text \<open>The coding loop of \<open>finish\<close>, over the paths in order.\<close>

fun code_loop ::
  "nat \<Rightarrow> bytes \<Rightarrow> bytes list \<Rightarrow> bytes \<Rightarrow> u32 list \<Rightarrow> bytes \<Rightarrow> bytes \<times> u32 list \<times> bytes" where
  "code_loop i previous [] rows restarts pens = (rows, restarts, pens)"
| "code_loop i previous (path # paths) rows restarts pens =
     (let pens = pens @ [steps_of path];
          (restarts, shared) =
            (if i mod RESTART = 0 then (restarts @ [as_u32 (length rows)], 0)
             else (restarts, common_prefix previous path));
          rows = put rows (word_of_nat shared);
          rows = put rows (word_of_nat (length path - shared));
          rows = rows @ drop shared path
      in code_loop (i + 1) path paths rows restarts pens)"

definition dir_order :: "bytes list \<Rightarrow> nat list" where
  "dir_order paths = sort_key (\<lambda>a. paths ! a) [0 ..< length paths]"

definition dir_finish :: "dir_writer \<Rightarrow> bytes \<times> u32 list" where
  "dir_finish w =
     (let order = dir_order (dw_paths w);
          remap = foldl (\<lambda>remap (final, provisional). remap[provisional := as_u32 final])
                    (replicate (length (dw_paths w)) 0) (List.enumerate 0 order);
          (rows, restarts, pens) = code_loop 0 [] (map (\<lambda>a. dw_paths w ! a) order) [] [] []
      in (le_bytes 4 (as_u32 (length order)) @ le_bytes 4 (as_u32 (length restarts))
            @ concat (map (le_bytes 4) restarts) @ pens @ rows,
          remap))"

section \<open>The reader\<close>

record dir_table =
  dt_count :: nat
  dt_restarts :: bytes
  dt_pens :: bytes
  dt_rows :: bytes

definition dir_open :: "bytes \<Rightarrow> dir_table option" where
  "dir_open bs =
     (if length bs < 8 then None
      else Option.bind (u32_at bs 0) (\<lambda>n_rows.
           Option.bind (u32_at bs 4) (\<lambda>n_restarts.
             let end_at = 8 + unat n_restarts * 4;
                 rows_at = end_at + unat n_rows
             in if length bs < rows_at then None
                else Some \<lparr>dt_count = unat n_rows, dt_restarts = take (end_at - 8) (drop 8 bs),
                           dt_pens = take (rows_at - end_at) (drop end_at bs),
                           dt_rows = drop rows_at bs\<rparr>)))"

definition dir_steps :: "dir_table \<Rightarrow> u32 \<Rightarrow> u8" where
  "dir_steps t num = (case nth_opt (dt_pens t) (unat num) of Some s \<Rightarrow> s | None \<Rightarrow> 0)"

definition dir_len :: "dir_table \<Rightarrow> nat" where
  "dir_len t = dt_count t"

definition restart_at :: "dir_table \<Rightarrow> nat \<Rightarrow> nat option" where
  "restart_at t block = map_option unat (u32_at (dt_restarts t) (block * 4))"

text \<open>The two varints a row begins with: how much is shared, and how much follows.\<close>

definition read_head :: "bytes \<Rightarrow> nat \<Rightarrow> (nat \<times> nat \<times> nat) option" where
  "read_head rows at =
     Option.bind (get_from rows at) (\<lambda>bs. Option.bind (get bs) (\<lambda>(shared, used).
     Option.bind (get_from rows (at + used)) (\<lambda>bs. Option.bind (get bs) (\<lambda>(rest, used').
       Some (unat shared, unat rest, at + used + used')))))"

fun get_steps :: "bytes \<Rightarrow> nat \<Rightarrow> nat \<Rightarrow> bytes \<Rightarrow> bytes option run" where
  "get_steps rows 0 at path = Ret (Some path)"
| "get_steps rows (Suc k) at path =
     try_run (read_head rows at) (\<lambda>(shared, rest, at).
       bind_run (truncate_str path shared) (\<lambda>path.
         try_run (get_range rows at (at + rest)) (\<lambda>bs.
           if utf8_valid bs then get_steps rows k (at + rest) (path @ bs) else Ret None)))"

definition dir_get :: "dir_table \<Rightarrow> u32 \<Rightarrow> bytes option run" where
  "dir_get t num =
     (if dt_count t \<le> unat num then Ret None
      else try_run (restart_at t (unat num div RESTART)) (\<lambda>at.
             get_steps (dt_rows t) (unat num mod RESTART + 1) at []))"

text \<open>\<open>depths\<close>: the positions of the separators are carried from row to row.\<close>

fun depths_loop :: "bytes \<Rightarrow> nat \<Rightarrow> nat \<Rightarrow> bytes \<Rightarrow> nat list \<Rightarrow> u16 list \<Rightarrow> u16 list run" where
  "depths_loop rows 0 at path slashes out = Ret out"
| "depths_loop rows (Suc k) at path slashes out =
     (case read_head rows at of
        None \<Rightarrow> Ret out
      | Some (shared, rest, at) \<Rightarrow>
          let slashes = rev (dropWhile (\<lambda>p. shared \<le> p) (rev slashes))
          in bind_run (truncate_str path shared) (\<lambda>path.
               case get_range rows at (at + rest) of
                 None \<Rightarrow> Ret out
               | Some tail \<Rightarrow>
                   if \<not> utf8_valid tail then Ret out
                   else
                     let slashes = slashes @ map (\<lambda>i. shared + i)
                           (filter (\<lambda>i. tail ! i = SLASH) [0 ..< length tail])
                     in depths_loop rows k (at + rest) (path @ tail) slashes
                          (out @ [word_of_nat (min (length slashes) 65535)])))"

definition depths :: "dir_table \<Rightarrow> u16 list run" where
  "depths t = (case restart_at t 0 of None \<Rightarrow> Ret [] | Some at \<Rightarrow> depths_loop (dt_rows t) (dt_count t) at [] [] [])"

text \<open>\<open>each_bytes\<close>: what the callback is called with, in order.\<close>

fun each_loop :: "bytes \<Rightarrow> nat \<Rightarrow> nat \<Rightarrow> nat \<Rightarrow> bytes \<Rightarrow> (nat \<times> bytes) list" where
  "each_loop rows 0 num at path = []"
| "each_loop rows (Suc k) num at path =
     (case read_head rows at of
        None \<Rightarrow> []
      | Some (shared, rest, at) \<Rightarrow>
          (case get_range rows at (at + rest) of
             None \<Rightarrow> []
           | Some bs \<Rightarrow>
               let path = take shared path @ bs
               in (num, path) # each_loop rows k (num + 1) (at + rest) path))"

definition each_bytes :: "dir_table \<Rightarrow> (nat \<times> bytes) list" where
  "each_bytes t =
     (case restart_at t 0 of None \<Rightarrow> [] | Some at \<Rightarrow> each_loop (dt_rows t) (dt_count t) 0 at [])"

text \<open>\<open>join_prefixes\<close>: what a name is appended to, flattened.\<close>

definition join_prefix :: "bytes \<Rightarrow> bytes" where
  "join_prefix path = path @ (if path \<noteq> [] \<and> path \<noteq> [SLASH] then [SLASH] else [])"

fun join_loop :: "bytes \<Rightarrow> nat \<Rightarrow> nat \<Rightarrow> bytes \<Rightarrow> bytes \<Rightarrow> u32 list \<Rightarrow> (bytes \<times> u32 list) run" where
  "join_loop rows 0 at path out offsets = Ret (out, offsets)"
| "join_loop rows (Suc k) at path out offsets =
     (case read_head rows at of
        None \<Rightarrow> Ret (out, offsets)
      | Some (shared, rest, at) \<Rightarrow>
          bind_run (truncate_str path shared) (\<lambda>path.
            case get_range rows at (at + rest) of
              None \<Rightarrow> Ret (out, offsets)
            | Some tail \<Rightarrow>
                if \<not> utf8_valid tail then Ret (out, offsets)
                else
                  let path = path @ tail
                  in join_loop rows k (at + rest) path (out @ join_prefix path)
                       (offsets @ [as_u32 (length out)])))"

definition join_prefixes :: "dir_table \<Rightarrow> (bytes \<times> u32 list) run" where
  "join_prefixes t =
     bind_run (join_loop (dt_rows t) (dt_count t)
                 (case restart_at t 0 of None \<Rightarrow> 0 | Some at \<Rightarrow> at) [] [] [])
       (\<lambda>(out, offsets).
          Ret (out, take (dt_count t) offsets
                 @ replicate (dt_count t - length offsets) (as_u32 (length out))
                 @ [as_u32 (length out)]))"

section \<open>Searching the table\<close>

definition restart_bytes :: "dir_table \<Rightarrow> nat \<Rightarrow> bytes option" where
  "restart_bytes t block =
     Option.bind (restart_at t block) (\<lambda>at.
     Option.bind (read_head (dt_rows t) at) (\<lambda>(shared, rest, at).
       get_range (dt_rows t) at (at + rest)))"

text \<open>The walk through one block; indexing past the rows panics.\<close>

fun walk :: "bytes \<Rightarrow> nat \<Rightarrow> bytes \<Rightarrow> nat \<Rightarrow> nat \<Rightarrow> nat \<Rightarrow> bytes \<Rightarrow> nat option run" where
  "walk rows n_rows pre 0 num at path = Ret None"
| "walk rows n_rows pre (Suc k) num at path =
     (if n_rows \<le> num then Ret None
      else if length rows < at then Panic
      else (case read_head rows at of
              None \<Rightarrow> Ret None
            | Some (shared, rest, at) \<Rightarrow>
                (case get_range rows at (at + rest) of
                   None \<Rightarrow> Ret None
                 | Some bs \<Rightarrow>
                     let path = take shared path @ bs
                     in if pre \<le> path then Ret (Some num)
                        else walk rows n_rows pre k (num + 1) (at + rest) path)))"

definition lower_bound :: "dir_table \<Rightarrow> bytes \<Rightarrow> u32 run" where
  "lower_bound t pre =
     (if dt_count t = 0 then Ret 0
      else
        let blocks = length (dt_restarts t) div 4;
            lo = bsearch (\<lambda>mid. case restart_bytes t mid of Some p \<Rightarrow> p < pre | None \<Rightarrow> False) 0 blocks;
            block = lo - 1
        in case restart_at t block of
             None \<Rightarrow> Ret (as_u32 (dt_count t))
           | Some at \<Rightarrow>
               let first = block * RESTART
               in bind_run (walk (dt_rows t) (dt_count t) pre RESTART first at []) (\<lambda>r.
                    Ret (case r of Some num \<Rightarrow> as_u32 num
                         | None \<Rightarrow> as_u32 (min (first + RESTART) (dt_count t)))))"

definition exact :: "dir_table \<Rightarrow> bytes \<Rightarrow> u32 option run" where
  "exact t path =
     (let path = trim_slash path
      in bind_run (lower_bound t path) (\<lambda>at.
         bind_run (dir_get t at) (\<lambda>p. Ret (if p = Some path then Some at else None))))"

text \<open>\<open>DirScope\<close>: a directory and everything below it.\<close>

record dir_scope =
  own :: "u32 option"
  below_start :: u32
  below_end :: u32

definition subtree :: "dir_table \<Rightarrow> bytes \<Rightarrow> dir_scope run" where
  "subtree t pre =
     (let pre = trim_slash pre
      in bind_run (exact t pre) (\<lambda>own.
         bind_run (lower_bound t (pre @ [SLASH])) (\<lambda>from.
         bind_run (lower_bound t (pre @ [0x30])) (\<lambda>to.
           Ret \<lparr>own = own, below_start = from, below_end = max to from\<rparr>))))"

definition scope_contains :: "dir_scope \<Rightarrow> u32 \<Rightarrow> bool" where
  "scope_contains s num \<longleftrightarrow> own s = Some num \<or> (below_start s \<le> num \<and> num < below_end s)"

definition scope_intersects :: "dir_scope \<Rightarrow> u32 \<Rightarrow> u32 \<Rightarrow> bool" where
  "scope_intersects s lo hi \<longleftrightarrow>
     (case own s of Some o' \<Rightarrow> lo \<le> o' \<and> o' \<le> hi | None \<Rightarrow> False)
     \<or> (below_start s \<le> hi \<and> lo < below_end s)"

definition scope_is_empty :: "dir_scope \<Rightarrow> bool" where
  "scope_is_empty s \<longleftrightarrow> own s = None \<and> \<not> below_start s < below_end s"

definition scope_len :: "dir_scope \<Rightarrow> nat" where
  "scope_len s = (if own s \<noteq> None then 1 else 0) + (unat (below_end s) - unat (below_start s))"

definition scope_ids :: "dir_scope \<Rightarrow> u32 list" where
  "scope_ids s = (case own s of Some o' \<Rightarrow> [o'] | None \<Rightarrow> [])
     @ map word_of_nat [unat (below_start s) ..< unat (below_end s)]"

section \<open>What the coded rows are\<close>

definition shared_at :: "bytes list \<Rightarrow> nat \<Rightarrow> nat" where
  "shared_at ps i = (if i mod RESTART = 0 then 0 else common_prefix (ps ! (i - 1)) (ps ! i))"

definition row_piece :: "bytes list \<Rightarrow> nat \<Rightarrow> bytes" where
  "row_piece ps i =
     put [] (word_of_nat (shared_at ps i)) @ put [] (word_of_nat (length (ps ! i) - shared_at ps i))
       @ drop (shared_at ps i) (ps ! i)"

definition coded_rows :: "bytes list \<Rightarrow> nat \<Rightarrow> bytes" where
  "coded_rows ps n = concat (map (row_piece ps) [0 ..< n])"

definition row_start :: "bytes list \<Rightarrow> nat \<Rightarrow> nat" where
  "row_start ps i = length (coded_rows ps i)"

lemma coded_rows_Suc: "coded_rows ps (Suc n) = coded_rows ps n @ row_piece ps n"
  by (simp add: coded_rows_def)

lemma row_start_0 [simp]: "row_start ps 0 = 0"
  by (simp add: row_start_def coded_rows_def)

lemma coded_rows_split:
  "i < n \<Longrightarrow> \<exists>post. coded_rows ps n = coded_rows ps i @ row_piece ps i @ post"
proof (induction n)
  case (Suc n)
  then show ?case
    by (cases "i = n") (auto simp: coded_rows_Suc)
qed simp

definition restarts_below :: "bytes list \<Rightarrow> nat \<Rightarrow> u32 list" where
  "restarts_below ps n =
     map (\<lambda>i. as_u32 (row_start ps i)) (filter (\<lambda>i. i mod RESTART = 0) [0 ..< n])"

lemma code_loop_from:
  assumes "ps = past @ todo"
  shows "code_loop (length past) (if past = [] then [] else last past) todo
      (coded_rows ps (length past)) (restarts_below ps (length past)) (map steps_of past)
    = (coded_rows ps (length ps), restarts_below ps (length ps), map steps_of ps)"
  using assms
proof (induction todo arbitrary: past)
  case (Cons p todo)
  let ?n = "length past" and ?prev = "if past = [] then [] else last past"
  have p: "ps ! ?n = p" "?n < length ps" using Cons.prems by simp_all
  have prev: "past \<noteq> [] \<Longrightarrow> ps ! (?n - 1) = last past"
    using Cons.prems by (simp add: nth_append last_conv_nth)
  have sh: "shared_at ps ?n = (if ?n mod RESTART = 0 then 0 else common_prefix ?prev p)"
    using p prev by (auto simp: shared_at_def)
  have rows: "put (put (coded_rows ps ?n) (word_of_nat (shared_at ps ?n)))
        (word_of_nat (length p - shared_at ps ?n)) @ drop (shared_at ps ?n) p
      = coded_rows ps (length (past @ [p]))"
    using p put_append [of "put (coded_rows ps ?n) (word_of_nat (shared_at ps ?n))"]
      put_append [of "coded_rows ps ?n"]
    by (simp add: coded_rows_Suc row_piece_def)
  have restarts: "restarts_below ps (length (past @ [p]))
      = restarts_below ps ?n @ (if ?n mod RESTART = 0 then [as_u32 (length (coded_rows ps ?n))] else [])"
    by (simp add: restarts_below_def row_start_def)
  have "code_loop (length (past @ [p])) (last (past @ [p])) todo
      (coded_rows ps (length (past @ [p]))) (restarts_below ps (length (past @ [p])))
      (map steps_of (past @ [p]))
    = (coded_rows ps (length ps), restarts_below ps (length ps), map steps_of ps)"
    using Cons.IH [of "past @ [p]"] Cons.prems by simp
  then show ?case
    unfolding code_loop.simps Let_def
    using rows restarts sh p by (cases "?n mod RESTART = 0") simp_all
qed simp

lemma code_loop_all:
  "code_loop 0 [] ps [] [] [] = (coded_rows ps (length ps), restarts_below ps (length ps), map steps_of ps)"
  using code_loop_from [of ps "[]" ps] by (simp add: coded_rows_def restarts_below_def)

lemma restart_rows: "filter (\<lambda>i. i mod RESTART = 0) [0 ..< n] = map (\<lambda>b. b * RESTART) [0 ..< (n + 15) div RESTART]"
proof (induction n)
  case (Suc n)
  show ?case
  proof (cases "n mod RESTART = 0")
    case True
    then obtain k where "n = 16 * k" by (metis mod_eq_0_iff_dvd dvd_def)
    then have "(Suc n + 15) div RESTART = Suc ((n + 15) div RESTART)" "(n + 15) div RESTART * RESTART = n"
      by simp_all
    then show ?thesis using Suc True by simp
  next
    case False
    then obtain k r where n: "n = 16 * k + Suc r" "Suc r < 16"
      by (metis div_mult_mod_eq mult.commute mod_less_divisor not0_implies_Suc zero_less_numeral)
    have "(Suc n + 15) div RESTART = Suc k" "(n + 15) div RESTART = Suc k"
      by (rule div_nat_eqI; use n in simp)+
    then have "(Suc n + 15) div RESTART = (n + 15) div RESTART" by simp
    then show ?thesis using Suc False by simp
  qed
qed simp

section \<open>Decoding a row\<close>

lemma back_to_boundary: "back_to_boundary b n \<le> n \<and> char_boundary b (back_to_boundary b n)"
  by (induction n) (auto simp: char_boundary_def)

lemma takeWhile_zip_take:
  "take (length (takeWhile (\<lambda>(x, y). x = y) (zip a b))) a = take (length (takeWhile (\<lambda>(x, y). x = y) (zip a b))) b"
proof (induction a arbitrary: b)
  case (Cons x a)
  then show ?case by (cases b) auto
qed simp

lemma common_prefix_spec:
  "common_prefix a b \<le> length a" "common_prefix a b \<le> length b"
  "take (common_prefix a b) a = take (common_prefix a b) b" "char_boundary b (common_prefix a b)"
proof -
  let ?m = "length (takeWhile (\<lambda>(x, y). x = y) (zip a b))"
  let ?n = "min (min ?m (length a)) (length b)"
  have c: "common_prefix a b = back_to_boundary b ?n" by (simp add: common_prefix_def)
  have le: "common_prefix a b \<le> ?n" and bd: "char_boundary b (common_prefix a b)"
    unfolding c using back_to_boundary by blast+
  show "common_prefix a b \<le> length a" "common_prefix a b \<le> length b" using le by simp_all
  show "char_boundary b (common_prefix a b)" by (rule bd)
  have "common_prefix a b \<le> ?m" using le by simp
  then show "take (common_prefix a b) a = take (common_prefix a b) b"
    using arg_cong [OF takeWhile_zip_take [of a b], of "take (common_prefix a b)"]
    by (simp add: min_absorb1)
qed

text \<open>What the table is asked to hold: text, and lengths within the format.\<close>

definition dirs_fit :: "bytes list \<Rightarrow> bool" where
  "dirs_fit ps \<longleftrightarrow> (\<forall>p \<in> set ps. utf8_valid p \<and> length p < 2 ^ 64)
     \<and> length ps < 2 ^ 32 \<and> row_start ps (length ps) < 2 ^ 32"

lemma shared_le: "shared_at ps i \<le> length (ps ! i)"
  using common_prefix_spec(2) [of "ps ! (i - 1)" "ps ! i"] by (auto simp: shared_at_def)

lemma read_row:
  assumes "dirs_fit ps" "i < length ps"
  shows "\<exists>at. read_head (coded_rows ps (length ps)) (row_start ps i)
        = Some (shared_at ps i, length (ps ! i) - shared_at ps i, at)
      \<and> get_range (coded_rows ps (length ps)) at (at + (length (ps ! i) - shared_at ps i))
        = Some (drop (shared_at ps i) (ps ! i))
      \<and> at + (length (ps ! i) - shared_at ps i) = row_start ps (Suc i)"
proof -
  let ?s = "shared_at ps i" and ?p = "ps ! i"
  obtain post where rows: "coded_rows ps (length ps) = coded_rows ps i @ row_piece ps i @ post"
    using coded_rows_split [OF assms(2)] by blast
  define a where "a = put [] (word_of_nat ?s :: u64)"
  define b where "b = put [] (word_of_nat (length ?p - ?s) :: u64)"
  have piece: "row_piece ps i = a @ b @ drop ?s ?p" by (simp add: row_piece_def a_def b_def)
  have small: "length ?p < 2 ^ 64" using assms by (simp add: dirs_fit_def)
  then have un: "unat (word_of_nat ?s :: u64) = ?s" "unat (word_of_nat (length ?p - ?s) :: u64) = length ?p - ?s"
    using shared_le [of ps i] by - (rule unat_u64, linarith)+
  have pos: "length (coded_rows ps i) = row_start ps i" by (simp add: row_start_def)
  have g1: "get_from (coded_rows ps (length ps)) (row_start ps i) = Some (a @ b @ drop ?s ?p @ post)"
    unfolding rows piece append.assoc by (rule get_from_append [OF pos])
  have h1: "get (a @ b @ drop ?s ?p @ post) = Some (word_of_nat ?s, length a)"
    unfolding a_def by (rule get_put)
  have "coded_rows ps (length ps) = (coded_rows ps i @ a) @ (b @ drop ?s ?p @ post)"
    unfolding rows piece by simp
  then have g2: "get_from (coded_rows ps (length ps)) (row_start ps i + length a) = Some (b @ drop ?s ?p @ post)"
    using get_from_append [of "coded_rows ps i @ a" "row_start ps i + length a"] pos by simp
  have h2: "get (b @ drop ?s ?p @ post) = Some (word_of_nat (length ?p - ?s), length b)"
    unfolding b_def by (rule get_put)
  have "coded_rows ps (length ps) = (coded_rows ps i @ a @ b) @ drop ?s ?p @ post"
    unfolding rows piece by simp
  then have r: "get_range (coded_rows ps (length ps)) (row_start ps i + length a + length b)
      (row_start ps i + length a + length b + (length ?p - ?s)) = Some (drop ?s ?p)"
    using get_range_append [of "coded_rows ps i @ a @ b" _ "drop ?s ?p" _ post] pos by simp
  have "read_head (coded_rows ps (length ps)) (row_start ps i)
      = Some (?s, length ?p - ?s, row_start ps i + length a + length b)"
    by (simp add: read_head_def g1 h1 g2 h2 un)
  moreover have "row_start ps i + length a + length b + (length ?p - ?s) = row_start ps (Suc i)"
    using piece pos by (simp add: row_start_def coded_rows_Suc)
  ultimately show ?thesis using r by blast
qed

text \<open>
  The path before a row, when the row is not a restart; anything at a restart.
\<close>

definition follows :: "bytes list \<Rightarrow> nat \<Rightarrow> bytes \<Rightarrow> bool" where
  "follows ps i path \<longleftrightarrow> i mod RESTART = 0 \<or> path = ps ! (i - 1)"

lemma follows_Suc [simp]: "follows ps (Suc i) (ps ! i)"
  by (simp add: follows_def)

lemma rebuild:
  assumes "follows ps i path"
  shows "take (shared_at ps i) path @ drop (shared_at ps i) (ps ! i) = ps ! i"
  using assms common_prefix_spec(3) [of "ps ! (i - 1)" "ps ! i"]
  by (cases "i mod RESTART = 0") (simp_all add: follows_def shared_at_def)

lemma shared_boundary: "char_boundary (ps ! i) (shared_at ps i)"
  using common_prefix_spec(4) [of "ps ! i" "ps ! (i - 1)"] by (simp add: shared_at_def char_boundary_def)

lemma truncate_shared:
  assumes "dirs_fit ps" "i < length ps" "follows ps i path"
  shows "truncate_str path (shared_at ps i) = Ret (take (shared_at ps i) path)"
proof (cases "i mod RESTART = 0")
  case False
  let ?s = "shared_at ps i"
  have path: "path = ps ! (i - 1)" using assms(3) False by (simp add: follows_def)
  have valid: "utf8_valid (ps ! i)" "utf8_valid path"
    using assms(1,2) path by (auto simp: dirs_fit_def)
  have eq: "take ?s path = take ?s (ps ! i)" and le: "?s \<le> length path"
    using False path common_prefix_spec by (simp_all add: shared_at_def)
  have "utf8_valid (take ?s path)"
    unfolding eq by (rule utf8_valid_take [OF valid(1) shared_boundary])
  then have "utf8_valid (drop ?s path)"
    using valid(2) utf8_valid_append [of "take ?s path" "drop ?s path"] by simp
  from truncate_str_append [OF this, of "take ?s path"] show ?thesis using le by (simp add: min_absorb2)
qed (simp add: shared_at_def truncate_str_def char_boundary_def)

lemma suffix_valid: "dirs_fit ps \<Longrightarrow> i < length ps \<Longrightarrow> utf8_valid (drop (shared_at ps i) (ps ! i))"
  by (rule utf8_valid_drop [OF _ shared_boundary]) (simp add: dirs_fit_def)

section \<open>What the readers give back\<close>

text \<open>The table of the sorted paths \<open>ps\<close>, as bytes and as opened.\<close>

definition dir_bytes :: "bytes list \<Rightarrow> bytes" where
  "dir_bytes ps =
     le_bytes 4 (as_u32 (length ps)) @ le_bytes 4 (as_u32 (length (restarts_below ps (length ps))))
       @ concat (map (le_bytes 4) (restarts_below ps (length ps))) @ map steps_of ps
       @ coded_rows ps (length ps)"

definition dir_view :: "bytes list \<Rightarrow> dir_table" where
  "dir_view ps = \<lparr>dt_count = length ps,
     dt_restarts = concat (map (le_bytes 4) (restarts_below ps (length ps))),
     dt_pens = map steps_of ps, dt_rows = coded_rows ps (length ps)\<rparr>"

lemma dir_view_simps [simp]:
  "dt_count (dir_view ps) = length ps" "dt_pens (dir_view ps) = map steps_of ps"
  "dt_rows (dir_view ps) = coded_rows ps (length ps)"
  "dt_restarts (dir_view ps) = concat (map (le_bytes 4) (restarts_below ps (length ps)))"
  by (simp_all add: dir_view_def)

definition n_restarts :: "bytes list \<Rightarrow> nat" where
  "n_restarts ps = (length ps + 15) div RESTART"

lemma length_restarts: "length (restarts_below ps (length ps)) = n_restarts ps"
  by (simp add: restarts_below_def restart_rows n_restarts_def)

lemma length_restart_bytes:
  "length (concat (map (le_bytes 4) (restarts_below ps (length ps)))) = 4 * n_restarts ps"
  by (subst length_concat_map_const [where k = 4]) (simp_all add: length_restarts)

lemma n_restarts_bounds:
  "n_restarts ps \<le> length ps" "length ps \<le> RESTART * n_restarts ps"
  "b < n_restarts ps \<Longrightarrow> RESTART * b < length ps"
  unfolding n_restarts_def by linarith+

lemma row_start_mono: "i \<le> j \<Longrightarrow> row_start ps i \<le> row_start ps j"
  by (induction rule: dec_induct) (auto simp: row_start_def coded_rows_Suc)

lemma dir_open_view:
  assumes "dirs_fit ps"
  shows "dir_open (dir_bytes ps) = Some (dir_view ps)"
proof -
  let ?rs = "concat (map (le_bytes 4) (restarts_below ps (length ps)))"
  have len: "length ?rs = 4 * n_restarts ps" by (rule length_restart_bytes)
  have n: "length ps < 2 ^ 32" "n_restarts ps < 2 ^ 32"
    using assms n_restarts_bounds(1) [of ps] by (simp_all add: dirs_fit_def)
  have c: "u32_at (dir_bytes ps) 0 = Some (as_u32 (length ps))"
    unfolding dir_bytes_def by (rule u32_at_0)
  have r: "u32_at (dir_bytes ps) 4 = Some (as_u32 (n_restarts ps))"
    unfolding dir_bytes_def length_restarts by (rule u32_at_append) simp
  have tail: "drop 8 (dir_bytes ps) = ?rs @ map steps_of ps @ coded_rows ps (length ps)"
    by (simp add: dir_bytes_def)
  have "drop (8 + 4 * n_restarts ps) (dir_bytes ps) = drop (4 * n_restarts ps) (drop 8 (dir_bytes ps))"
    by (simp add: add.commute)
  also have "\<dots> = map steps_of ps @ coded_rows ps (length ps)" unfolding tail using len by simp
  finally have pens: "drop (8 + 4 * n_restarts ps) (dir_bytes ps) = map steps_of ps @ coded_rows ps (length ps)" .
  have "drop (8 + 4 * n_restarts ps + length ps) (dir_bytes ps) = drop (length ps) (drop (8 + 4 * n_restarts ps) (dir_bytes ps))"
    by (simp add: add.commute)
  also have "\<dots> = coded_rows ps (length ps)" unfolding pens by simp
  finally have rows: "drop (8 + 4 * n_restarts ps + length ps) (dir_bytes ps) = coded_rows ps (length ps)" .
  have "length (dir_bytes ps) \<ge> 8 + 4 * n_restarts ps + length ps"
    unfolding dir_bytes_def length_append len by simp
  moreover have "take (4 * n_restarts ps) (drop 8 (dir_bytes ps)) = ?rs" unfolding tail using len by simp
  moreover have "take (length ps) (drop (8 + 4 * n_restarts ps) (dir_bytes ps)) = map steps_of ps"
    unfolding pens by simp
  ultimately show ?thesis
    using rows by (simp add: dir_open_def c r unat_u32 [OF n(1)] unat_u32 [OF n(2)] Let_def dir_view_def mult.commute)
qed

lemma restart_at_view:
  assumes "dirs_fit ps" "b < n_restarts ps"
  shows "restart_at (dir_view ps) b = Some (row_start ps (RESTART * b))"
proof -
  have "restarts_below ps (length ps) ! b = as_u32 (row_start ps (RESTART * b))"
    using assms(2) unfolding restarts_below_def restart_rows n_restarts_def by (simp add: mult.commute)
  moreover have "row_start ps (RESTART * b) < 2 ^ 32"
    using row_start_mono [of "RESTART * b" "length ps" ps] n_restarts_bounds(3) [OF assms(2)] assms(1)
    by (simp add: dirs_fit_def)
  ultimately show ?thesis
    using u32_at_array [of b "restarts_below ps (length ps)" "[]"] assms(2)
    by (simp add: restart_at_def length_restarts mult.commute unat_u32)
qed

lemma get_steps_rows:
  assumes "dirs_fit ps"
  shows "follows ps i path \<Longrightarrow> i + k \<le> length ps \<Longrightarrow>
    get_steps (coded_rows ps (length ps)) k (row_start ps i) path
      = Ret (Some (if k = 0 then path else ps ! (i + k - 1)))"
proof (induction k arbitrary: i path)
  case (Suc k)
  then have i: "i < length ps" by simp
  obtain at where r: "read_head (coded_rows ps (length ps)) (row_start ps i)
        = Some (shared_at ps i, length (ps ! i) - shared_at ps i, at)"
    "get_range (coded_rows ps (length ps)) at (at + (length (ps ! i) - shared_at ps i))
        = Some (drop (shared_at ps i) (ps ! i))"
    "at + (length (ps ! i) - shared_at ps i) = row_start ps (Suc i)"
    using read_row [OF assms i] by blast
  have "get_steps (coded_rows ps (length ps)) (Suc k) (row_start ps i) path
      = get_steps (coded_rows ps (length ps)) k (row_start ps (Suc i)) (ps ! i)"
    using r truncate_shared [OF assms i Suc.prems(1)] suffix_valid [OF assms i]
      rebuild [OF Suc.prems(1)] by simp
  also have "\<dots> = Ret (Some (ps ! (i + k)))"
    using Suc.IH [of "Suc i" "ps ! i"] Suc.prems(2) by (cases k) simp_all
  finally show ?case by simp
qed simp

lemma dir_get_view:
  assumes "dirs_fit ps"
  shows "dir_get (dir_view ps) num = Ret (if unat num < length ps then Some (ps ! unat num) else None)"
proof (cases "unat num < length ps")
  case True
  let ?i = "unat num"
  have b: "?i div RESTART < n_restarts ps" using True unfolding n_restarts_def by linarith
  have "RESTART * (?i div RESTART) + (?i mod RESTART + 1) \<le> length ps"
    using True mult_div_mod_eq [of RESTART ?i] by linarith
  moreover have "follows ps (RESTART * (?i div RESTART)) []" by (simp add: follows_def)
  moreover have "RESTART * (?i div RESTART) + (?i mod RESTART + 1) - 1 = ?i"
    using mult_div_mod_eq [of RESTART ?i] by linarith
  ultimately show ?thesis
    using True get_steps_rows [OF assms, of "RESTART * (?i div RESTART)" "[]" "?i mod RESTART + 1"]
    by (simp add: dir_get_def restart_at_view [OF assms b] del: get_steps.simps)
qed (simp add: dir_get_def)

lemma each_loop_rows:
  assumes "dirs_fit ps"
  shows "follows ps i path \<Longrightarrow> i + k \<le> length ps \<Longrightarrow>
    each_loop (coded_rows ps (length ps)) k i (row_start ps i) path
      = map (\<lambda>j. (j, ps ! j)) [i ..< i + k]"
proof (induction k arbitrary: i path)
  case (Suc k)
  then have i: "i < length ps" by simp
  obtain at where r: "read_head (coded_rows ps (length ps)) (row_start ps i)
        = Some (shared_at ps i, length (ps ! i) - shared_at ps i, at)"
    "get_range (coded_rows ps (length ps)) at (at + (length (ps ! i) - shared_at ps i))
        = Some (drop (shared_at ps i) (ps ! i))"
    "at + (length (ps ! i) - shared_at ps i) = row_start ps (Suc i)"
    using read_row [OF assms i] by blast
  have "[i ..< i + Suc k] = i # [Suc i ..< Suc i + k]" by (simp add: upt_conv_Cons del: upt_Suc)
  then show ?case
    using r rebuild [OF Suc.prems(1)] Suc.IH [of "Suc i" "ps ! i"] Suc.prems(2)
    by (simp del: upt_Suc)
qed simp

lemma each_bytes_view:
  assumes "dirs_fit ps"
  shows "each_bytes (dir_view ps) = map (\<lambda>j. (j, ps ! j)) [0 ..< length ps]"
proof (cases "ps = []")
  case True
  then show ?thesis by (simp add: each_bytes_def split: option.split)
next
  case False
  then have "0 < n_restarts ps" by (cases ps) (simp_all add: n_restarts_def)
  from restart_at_view [OF assms this] show ?thesis
    using each_loop_rows [OF assms, of 0 "[]" "length ps"] by (simp add: each_bytes_def follows_def)
qed

subsection \<open>Depths\<close>

definition slash_pos :: "bytes \<Rightarrow> nat list" where
  "slash_pos p = filter (\<lambda>i. p ! i = SLASH) [0 ..< length p]"

lemma dropWhile_none: "(\<And>x. x \<in> set xs \<Longrightarrow> \<not> P x) \<Longrightarrow> dropWhile P xs = xs"
  by (cases xs) auto

lemma pop_filter:
  "rev (dropWhile (\<lambda>p. s \<le> p) (rev (filter Q [0 ..< n]))) = filter Q [0 ..< min s n]"
proof (induction n)
  case (Suc n)
  show ?case
  proof (cases "s \<le> n")
    case True
    with Suc show ?thesis by (cases "Q n") (simp_all add: min_def)
  next
    case False
    then have "dropWhile (\<lambda>p. s \<le> p) (rev (filter Q [0 ..< Suc n])) = rev (filter Q [0 ..< Suc n])"
      by (intro dropWhile_none) (auto split: if_splits)
    moreover have "min s (Suc n) = Suc n" using False by simp
    ultimately show ?thesis by (simp only: rev_rev_ident)
  qed
qed simp

lemma slash_pos_append:
  "slash_pos (p @ q) = slash_pos p @ map (\<lambda>i. length p + i) (slash_pos q)"
proof -
  have "[0 ..< length (p @ q)] = [0 ..< length p] @ map (\<lambda>i. i + length p) [0 ..< length q]"
    by (simp add: map_add_upt upt_add_eq_append [of 0 "length p" "length q"] add.commute)
  moreover have "filter (\<lambda>i. (p @ q) ! i = SLASH) [0 ..< length p] = slash_pos p"
    unfolding slash_pos_def by (rule filter_cong) (auto simp: nth_append)
  moreover have "filter (\<lambda>i. (p @ q) ! i = SLASH) (map (\<lambda>i. i + length p) [0 ..< length q])
      = map (\<lambda>i. length p + i) (slash_pos q)"
    unfolding slash_pos_def filter_map o_def by (simp add: nth_append add.commute)
  ultimately show ?thesis by (simp only: slash_pos_def [of "p @ q"] filter_append)
qed

lemma pop_slashes: "rev (dropWhile (\<lambda>i. s \<le> i) (rev (slash_pos p))) = slash_pos (take s p)"
  unfolding slash_pos_def pop_filter by (auto simp: min.commute intro: filter_cong)

lemma length_slash_pos: "length (slash_pos p) = length (filter (\<lambda>b. b = SLASH) p)"
proof (induction p rule: rev_induct)
  case (snoc b p)
  have "length (slash_pos [b]) = (if b = SLASH then 1 else 0)" by (simp add: slash_pos_def)
  with snoc show ?case by (simp add: slash_pos_append)
qed (simp add: slash_pos_def)

definition depth_of :: "bytes \<Rightarrow> u16" where
  "depth_of p = word_of_nat (min (length (filter (\<lambda>b. b = SLASH) p)) 65535)"

lemma shared_le_prev:
  "follows ps i path \<Longrightarrow> shared_at ps i \<le> length path"
  using common_prefix_spec(1) [of "ps ! (i - 1)" "ps ! i"] by (auto simp: follows_def shared_at_def)

lemma depths_loop_rows:
  assumes "dirs_fit ps"
  shows "follows ps i path \<Longrightarrow> i + k \<le> length ps \<Longrightarrow>
    depths_loop (coded_rows ps (length ps)) k (row_start ps i) path (slash_pos path) out
      = Ret (out @ map (\<lambda>j. depth_of (ps ! j)) [i ..< i + k])"
proof (induction k arbitrary: i path out)
  case (Suc k)
  then have i: "i < length ps" by simp
  obtain at where r: "read_head (coded_rows ps (length ps)) (row_start ps i)
        = Some (shared_at ps i, length (ps ! i) - shared_at ps i, at)"
    "get_range (coded_rows ps (length ps)) at (at + (length (ps ! i) - shared_at ps i))
        = Some (drop (shared_at ps i) (ps ! i))"
    "at + (length (ps ! i) - shared_at ps i) = row_start ps (Suc i)"
    using read_row [OF assms i] by blast
  let ?s = "shared_at ps i"
  have le: "length (take ?s path) = ?s" using shared_le_prev [OF Suc.prems(1)] by simp
  have "slash_pos (take ?s path) @ map (\<lambda>i. ?s + i)
      (filter (\<lambda>j. drop ?s (ps ! i) ! j = SLASH) [0 ..< length (drop ?s (ps ! i))]) = slash_pos (ps ! i)"
    using slash_pos_append [of "take ?s path" "drop ?s (ps ! i)"] rebuild [OF Suc.prems(1)] le
    by (simp only: slash_pos_def [of "drop ?s (ps ! i)"])
  then have "depths_loop (coded_rows ps (length ps)) (Suc k) (row_start ps i) path (slash_pos path) out
      = depths_loop (coded_rows ps (length ps)) k (row_start ps (Suc i)) (ps ! i) (slash_pos (ps ! i))
          (out @ [depth_of (ps ! i)])"
    using r truncate_shared [OF assms i Suc.prems(1)] suffix_valid [OF assms i] rebuild [OF Suc.prems(1)]
    by (simp add: pop_slashes Let_def depth_of_def length_slash_pos)
  moreover have "[i ..< i + Suc k] = i # [Suc i ..< Suc i + k]" by (simp add: upt_conv_Cons del: upt_Suc)
  ultimately show ?case
    using Suc.IH [of "Suc i" "ps ! i" "out @ [depth_of (ps ! i)]"] Suc.prems(2) by (simp del: upt_Suc)
qed simp

lemma depths_view:
  assumes "dirs_fit ps"
  shows "depths (dir_view ps) = Ret (map depth_of ps)"
proof (cases "ps = []")
  case True
  then show ?thesis by (simp add: depths_def split: option.split)
next
  case False
  then have "0 < n_restarts ps" by (cases ps) (simp_all add: n_restarts_def)
  from restart_at_view [OF assms this] show ?thesis
    using depths_loop_rows [OF assms, of 0 "[]" "length ps" "[]"]
    by (simp add: depths_def follows_def slash_pos_def) (metis map_nth map_map o_def map_cong)
qed

subsection \<open>Join prefixes\<close>

lemma join_loop_rows:
  assumes "dirs_fit ps"
  shows "follows ps i path \<Longrightarrow> i + k \<le> length ps \<Longrightarrow>
    join_loop (coded_rows ps (length ps)) k (row_start ps i) path
        (concat (map join_prefix (take i ps)))
        (map (\<lambda>j. as_u32 (length (concat (map join_prefix (take j ps))))) [0 ..< i])
      = Ret (concat (map join_prefix (take (i + k) ps)),
          map (\<lambda>j. as_u32 (length (concat (map join_prefix (take j ps))))) [0 ..< i + k])"
proof (induction k arbitrary: i path)
  case (Suc k)
  then have i: "i < length ps" by simp
  obtain at where r: "read_head (coded_rows ps (length ps)) (row_start ps i)
        = Some (shared_at ps i, length (ps ! i) - shared_at ps i, at)"
    "get_range (coded_rows ps (length ps)) at (at + (length (ps ! i) - shared_at ps i))
        = Some (drop (shared_at ps i) (ps ! i))"
    "at + (length (ps ! i) - shared_at ps i) = row_start ps (Suc i)"
    using read_row [OF assms i] by blast
  have "concat (map join_prefix (take (Suc i) ps)) = concat (map join_prefix (take i ps)) @ join_prefix (ps ! i)"
    using i by (simp add: take_Suc_conv_app_nth)
  then show ?case
    using r truncate_shared [OF assms i Suc.prems(1)] suffix_valid [OF assms i]
      rebuild [OF Suc.prems(1)] Suc.IH [of "Suc i" "ps ! i"] Suc.prems(2)
    by (simp add: Let_def)
qed simp

lemma join_prefixes_view:
  assumes "dirs_fit ps"
  shows "join_prefixes (dir_view ps) = Ret (concat (map join_prefix ps),
    map (\<lambda>j. as_u32 (length (concat (map join_prefix (take j ps))))) [0 ..< Suc (length ps)])"
proof -
  have "(case restart_at (dir_view ps) 0 of None \<Rightarrow> 0 | Some at \<Rightarrow> at) = 0 \<or> ps = []"
  proof (cases "ps = []")
    case False
    then have "0 < n_restarts ps" by (cases ps) (simp_all add: n_restarts_def)
    from restart_at_view [OF assms this] show ?thesis by simp
  qed simp
  then show ?thesis
    using join_loop_rows [OF assms, of 0 "[]" "length ps"]
    by (auto simp: join_prefixes_def follows_def)
qed

section \<open>The search is the position\<close>

definition first_ge :: "bytes list \<Rightarrow> bytes \<Rightarrow> nat" where
  "first_ge ps x = length (takeWhile (\<lambda>p. p < x) ps)"

lemma first_ge_le: "first_ge ps x \<le> length ps"
  by (simp add: first_ge_def length_takeWhile_le)

lemma first_ge_unique:
  assumes "n \<le> length ps" "\<And>i. i < n \<Longrightarrow> ps ! i < x" "n < length ps \<Longrightarrow> x \<le> ps ! n"
  shows "first_ge ps x = n"
  using takeWhile_eq_take_P_nth [of n ps "\<lambda>p. p < x"] assms by (simp add: first_ge_def not_less)

lemma first_ge_less_iff:
  assumes "sorted ps" "i < length ps"
  shows "i < first_ge ps x \<longleftrightarrow> ps ! i < x"
proof
  assume "i < first_ge ps x"
  then show "ps ! i < x"
    using takeWhile_nth [of i "\<lambda>p. p < x" ps] nth_mem [of i "takeWhile (\<lambda>p. p < x) ps"]
    by (auto simp: first_ge_def dest: set_takeWhileD)
next
  assume x: "ps ! i < x"
  show "i < first_ge ps x"
  proof (rule ccontr)
    assume "\<not> i < first_ge ps x"
    then have le: "first_ge ps x \<le> i" by simp
    then have "\<not> ps ! first_ge ps x < x"
      using assms(2) nth_length_takeWhile [of "\<lambda>p. p < x" ps] by (simp add: first_ge_def)
    moreover have "ps ! first_ge ps x \<le> ps ! i"
      using assms le by (simp add: sorted_nth_mono)
    ultimately show False using x by simp
  qed
qed

text \<open>The paths at the restarts are sorted as the table is.\<close>

interpretation restarts: sorted_table n_restarts "\<lambda>ps b. ps ! (RESTART * b)" sorted
  by unfold_locales (use n_restarts_bounds(3) in \<open>auto intro: sorted_nth_mono\<close>)

lemma restart_bytes_view:
  assumes "dirs_fit ps" "b < n_restarts ps"
  shows "restart_bytes (dir_view ps) b = Some (ps ! (RESTART * b))"
proof -
  have i: "RESTART * b < length ps" using n_restarts_bounds(3) [OF assms(2)] .
  have "shared_at ps (RESTART * b) = 0" by (simp add: shared_at_def)
  with read_row [OF assms(1) i] show ?thesis
    by (auto simp: restart_bytes_def restart_at_view [OF assms])
qed

lemma walk_rows:
  assumes "dirs_fit ps"
  shows "follows ps i path \<Longrightarrow>
    walk (coded_rows ps (length ps)) (length ps) x k i (row_start ps i) path
      = Ret (find (\<lambda>j. x \<le> ps ! j) [i ..< min (i + k) (length ps)])"
proof (induction k arbitrary: i path)
  case (Suc k)
  show ?case
  proof (cases "i < length ps")
    case i: True
    obtain at where r: "read_head (coded_rows ps (length ps)) (row_start ps i)
        = Some (shared_at ps i, length (ps ! i) - shared_at ps i, at)"
      "get_range (coded_rows ps (length ps)) at (at + (length (ps ! i) - shared_at ps i))
        = Some (drop (shared_at ps i) (ps ! i))"
      "at + (length (ps ! i) - shared_at ps i) = row_start ps (Suc i)"
      using read_row [OF assms i] by blast
    have inside: "row_start ps i \<le> length (coded_rows ps (length ps))"
      using row_start_mono [of i "length ps" ps] i by (simp add: row_start_def)
    have "[i ..< min (i + Suc k) (length ps)] = i # [Suc i ..< min (Suc i + k) (length ps)]"
      using i by (subst upt_conv_Cons) auto
    then show ?thesis
      using r inside i rebuild [OF Suc.prems(1)] Suc.IH [of "Suc i" "ps ! i"]
      by (simp add: not_less)
  qed simp
qed simp

lemma find_upt_Some:
  "find P [a ..< b] = Some j \<longleftrightarrow> a \<le> j \<and> j < b \<and> P j \<and> (\<forall>i. a \<le> i \<longrightarrow> i < j \<longrightarrow> \<not> P i)"
proof -
  have "find P [a ..< b] = Some j \<longleftrightarrow> (\<exists>i < b - a. P (a + i) \<and> j = a + i \<and> (\<forall>k < i. \<not> P (a + k)))"
    by (auto simp: find_Some_iff)
  also have "\<dots> \<longleftrightarrow> a \<le> j \<and> j < b \<and> P j \<and> (\<forall>i. a \<le> i \<longrightarrow> i < j \<longrightarrow> \<not> P i)"
  proof (rule iffI)
    assume "\<exists>i < b - a. P (a + i) \<and> j = a + i \<and> (\<forall>k < i. \<not> P (a + k))"
    then obtain i where i: "i < b - a" "P (a + i)" "j = a + i" "\<forall>k < i. \<not> P (a + k)" by blast
    have "\<not> P l" if "a \<le> l" "l < j" for l
      using i(3,4) that by (metis add_less_cancel_left le_add_diff_inverse)
    with i show "a \<le> j \<and> j < b \<and> P j \<and> (\<forall>i. a \<le> i \<longrightarrow> i < j \<longrightarrow> \<not> P i)" by auto
  next
    assume j: "a \<le> j \<and> j < b \<and> P j \<and> (\<forall>i. a \<le> i \<longrightarrow> i < j \<longrightarrow> \<not> P i)"
    then show "\<exists>i < b - a. P (a + i) \<and> j = a + i \<and> (\<forall>k < i. \<not> P (a + k))"
      by (intro exI [of _ "j - a"]) auto
  qed
  finally show ?thesis .
qed

lemma lower_bound_view:
  assumes fit: "dirs_fit ps" and srt: "sorted ps"
  shows "lower_bound (dir_view ps) x = Ret (as_u32 (first_ge ps x))"
proof (cases "ps = []")
  case True
  then show ?thesis by (simp add: lower_bound_def first_ge_def)
next
  case False
  let ?n = "length ps" and ?nb = "n_restarts ps"
  let ?lo = "bsearch (\<lambda>b. ps ! (RESTART * b) < x) 0 ?nb"
  have nb: "0 < ?nb" using False by (cases ps) (simp_all add: n_restarts_def)
  have lo: "bsearch (\<lambda>mid. case restart_bytes (dir_view ps) mid of Some p \<Rightarrow> p < x | None \<Rightarrow> False) 0 ?nb = ?lo"
    by (rule bsearch_cong) (simp add: restart_bytes_view [OF fit])
  have le: "?lo \<le> ?nb" by (rule restarts.search_le)
  define first where "first = RESTART * (?lo - 1)"
  have block: "?lo - 1 < ?nb" using le nb by linarith
  let ?r = "find (\<lambda>j. x \<le> ps ! j) [first ..< min (first + RESTART) ?n]"
  have w: "walk (coded_rows ps ?n) ?n x RESTART first (row_start ps first) [] = Ret ?r"
    by (rule walk_rows [OF fit]) (simp add: follows_def first_def)
  have before: "ps ! i < x" if "i < first" for i
  proof -
    have "0 < ?lo" using that by (cases ?lo) (auto simp: first_def)
    then have "ps ! first < x" using restarts.search_below [OF srt, of "?lo - 1" x] by (simp add: first_def)
    moreover have "ps ! i \<le> ps ! first"
      using that n_restarts_bounds(3) [OF block] by (intro sorted_nth_mono [OF srt]) (simp_all add: first_def)
    ultimately show ?thesis by simp
  qed
  have "(case ?r of Some num \<Rightarrow> as_u32 num | None \<Rightarrow> as_u32 (min (first + RESTART) ?n)) = as_u32 (first_ge ps x)"
  proof (cases ?r)
    case (Some j)
    then have j: "first \<le> j" "j < ?n" "x \<le> ps ! j" "\<forall>i. first \<le> i \<longrightarrow> i < j \<longrightarrow> \<not> x \<le> ps ! i"
      by (simp_all add: find_upt_Some)
    have "first_ge ps x = j"
    proof (rule first_ge_unique)
      fix i assume i: "i < j"
      show "ps ! i < x"
      proof (cases "i < first")
        case False
        then have "\<not> x \<le> ps ! i" using j(4) i by (metis not_less)
        then show ?thesis by (simp only: not_le)
      qed (rule before)
    qed (use j in simp_all)
    then show ?thesis using Some by simp
  next
    case None
    then have all: "ps ! i < x" if "first \<le> i" "i < min (first + RESTART) ?n" for i
      using that by (auto simp: find_None_iff)
    have pos: "0 < ?lo"
    proof (rule ccontr)
      assume "\<not> 0 < ?lo"
      then have "x \<le> ps ! 0" using restarts.search_above [OF srt, of x 0] nb by simp
      moreover have "ps ! 0 < x" using all [of 0] \<open>\<not> 0 < ?lo\<close> False by (simp add: first_def)
      ultimately show False by simp
    qed
    have "first_ge ps x = min (first + RESTART) ?n"
    proof (rule first_ge_unique)
      fix i assume "i < min (first + RESTART) ?n"
      then show "ps ! i < x" using before all by (cases "i < first") auto
    next
      assume lt: "min (first + RESTART) ?n < ?n"
      have next_: "first + RESTART = RESTART * ?lo" using pos unfolding first_def by (cases ?lo) simp_all
      have "?lo < ?nb"
        using lt next_ n_restarts_bounds(2) [of ps] le by (cases "?lo = ?nb") auto
      then have "x \<le> ps ! (RESTART * ?lo)" using restarts.search_above [OF srt, of x ?lo] by simp
      then show "x \<le> ps ! min (first + RESTART) ?n" using lt next_ by (simp add: min_def split: if_splits)
    qed simp
    then show ?thesis using None by simp
  qed
  moreover have at: "restart_at (dir_view ps) (?lo - 1) = Some (row_start ps first)"
    using restart_at_view [OF fit block] by (simp only: first_def)
  moreover have blocks: "length (dt_restarts (dir_view ps)) div 4 = ?nb"
    using length_restart_bytes [of ps] by simp
  moreover have first': "(?lo - 1) * RESTART = first" by (simp only: first_def mult.commute)
  ultimately show ?thesis
    unfolding lower_bound_def Let_def blocks lo at first' option.case(2) dir_view_simps(1,3) w
    using False by simp
qed

lemma first_ge_member:
  assumes "sorted ps" "distinct ps" "x \<in> set ps"
  shows "first_ge ps x < length ps \<and> ps ! first_ge ps x = x"
proof -
  obtain j where j: "j < length ps" "ps ! j = x" using assms(3) by (auto simp: in_set_conv_nth)
  have "first_ge ps x = j"
  proof (rule first_ge_unique)
    fix i assume "i < j"
    then have "ps ! i \<le> ps ! j" "ps ! i \<noteq> ps ! j"
      using j(1) sorted_nth_mono [OF assms(1), of i j] nth_eq_iff_index_eq [OF assms(2), of i j] by auto
    then show "ps ! i < x" using j(2) by simp
  qed (use j in simp_all)
  then show ?thesis using j by simp
qed

lemma exact_view:
  assumes fit: "dirs_fit ps" and srt: "sorted ps" "distinct ps"
  shows "exact (dir_view ps) path =
    Ret (if trim_slash path \<in> set ps then Some (as_u32 (first_ge ps (trim_slash path))) else None)"
proof -
  let ?x = "trim_slash path"
  have small: "first_ge ps ?x < 2 ^ 32"
    using first_ge_le [of ps ?x] fit by (simp add: dirs_fit_def)
  have iff: "(if first_ge ps ?x < length ps then Some (ps ! first_ge ps ?x) else None) = Some ?x \<longleftrightarrow> ?x \<in> set ps"
    using first_ge_member [OF srt, of ?x] by (metis nth_mem option.discI option.inject)
  show ?thesis
    by (simp only: exact_def Let_def lower_bound_view [OF fit srt(1)] dir_get_view [OF fit]
        bind_run.simps unat_u32 [OF small] iff)
qed

section \<open>A scope is a subtree\<close>

text \<open>What sorts between a path with a separator and the path with the next byte is below it.\<close>

lemma between_children:
  "p @ [SLASH] \<le> q \<and> q < p @ [0x30] \<longleftrightarrow> (\<exists>rest. q = p @ SLASH # rest)"
proof (induction p arbitrary: q)
  case Nil
  have "SLASH \<le> b \<and> b < 0x30 \<longleftrightarrow> b = SLASH" for b :: u8
  proof
    assume "SLASH \<le> b \<and> b < 0x30"
    then have "unat (SLASH :: u8) \<le> unat b" "unat b < unat (0x30 :: u8)"
      by (simp_all only: word_le_nat_alt word_less_nat_alt)
    then have "unat b = 47" by simp
    then have "word_of_nat (unat b) = (47 :: u8)" by simp
    then show "b = SLASH" by simp
  qed simp
  then have one: "(SLASH < b \<or> SLASH = b) \<and> b < 0x30 \<longleftrightarrow> b = SLASH" for b :: u8
    by (metis order.order_iff_strict)
  show ?case
  proof (cases q)
    case (Cons b r)
    have "[SLASH] \<le> b # r \<longleftrightarrow> SLASH < b \<or> SLASH = b" "b # r < [0x30] \<longleftrightarrow> b < 0x30" by auto
    with one [of b] show ?thesis unfolding Cons by simp
  qed simp
next
  case (Cons a p)
  show ?case
  proof (cases q)
    case (Cons b r)
    then show ?thesis using Cons.IH [of r] by auto
  qed simp
qed

lemma scope_contains_view:
  assumes fit: "dirs_fit ps" and srt: "sorted ps" "distinct ps"
    and num: "unat num < length ps" and scope: "subtree (dir_view ps) pre = Ret s"
  shows "scope_contains s num \<longleftrightarrow> ps ! unat num = trim_slash pre
    \<or> (\<exists>rest. ps ! unat num = trim_slash pre @ SLASH # rest)"
proof -
  let ?p = "trim_slash pre" and ?i = "unat num"
  have small: "first_ge ps x < 2 ^ 32" for x
    using first_ge_le [of ps x] fit by (simp add: dirs_fit_def)
  have s: "s = \<lparr>own = (if ?p \<in> set ps then Some (as_u32 (first_ge ps ?p)) else None),
      below_start = as_u32 (first_ge ps (?p @ [SLASH])),
      below_end = max (as_u32 (first_ge ps (?p @ [0x30]))) (as_u32 (first_ge ps (?p @ [SLASH])))\<rparr>"
    using scope
    unfolding subtree_def Let_def exact_view [OF fit srt] lower_bound_view [OF fit srt(1)]
      bind_run.simps trim_slash_idem run.inject by (rule sym)
  have own: "own s = Some num \<longleftrightarrow> ps ! ?i = ?p"
  proof
    assume "own s = Some num"
    then have "?p \<in> set ps" "num = as_u32 (first_ge ps ?p)" by (auto simp: s split: if_splits)
    then show "ps ! ?i = ?p" using first_ge_member [OF srt, of ?p] unat_u32 [OF small] by simp
  next
    assume i: "ps ! ?i = ?p"
    then have mem: "?p \<in> set ps" using num nth_mem by force
    then have "first_ge ps ?p = ?i"
      using first_ge_member [OF srt mem] i num srt(2) by (metis nth_eq_iff_index_eq)
    then show "own s = Some num" using mem by (simp add: s)
  qed
  have "below_start s \<le> num \<longleftrightarrow> first_ge ps (?p @ [SLASH]) \<le> ?i"
    using unat_u32 [OF small] by (simp add: s word_le_nat_alt)
  also have "\<dots> \<longleftrightarrow> ?p @ [SLASH] \<le> ps ! ?i"
    using first_ge_less_iff [OF srt(1) num] by (meson not_le)
  finally have lo: "below_start s \<le> num \<longleftrightarrow> ?p @ [SLASH] \<le> ps ! ?i" .
  have "num < as_u32 (first_ge ps (?p @ [0x30])) \<longleftrightarrow> ?i < first_ge ps (?p @ [0x30])"
    using unat_u32 [OF small] by (simp add: word_less_nat_alt)
  also have "\<dots> \<longleftrightarrow> ps ! ?i < ?p @ [0x30]" by (rule first_ge_less_iff [OF srt(1) num])
  finally have hi: "num < as_u32 (first_ge ps (?p @ [0x30])) \<longleftrightarrow> ps ! ?i < ?p @ [0x30]" .
  have "below_start s \<le> num \<and> num < below_end s \<longleftrightarrow> below_start s \<le> num \<and> num < as_u32 (first_ge ps (?p @ [0x30]))"
    by (auto simp: s less_max_iff_disj)
  then have below: "below_start s \<le> num \<and> num < below_end s \<longleftrightarrow> (\<exists>rest. ps ! ?i = ?p @ SLASH # rest)"
    unfolding lo hi between_children .
  show ?thesis unfolding scope_contains_def own below ..
qed

text \<open>A block of numbers the scope does not meet holds nothing in the scope.\<close>

lemma scope_intersects:
  "scope_contains s num \<Longrightarrow> lo \<le> num \<Longrightarrow> num \<le> hi \<Longrightarrow> scope_intersects s lo hi"
  by (auto simp: scope_contains_def scope_intersects_def)

lemma scope_ids_contains: "num \<in> set (scope_ids s) \<longleftrightarrow> scope_contains s num"
proof -
  have "num \<in> (\<lambda>n. word_of_nat n) ` {unat (below_start s) ..< unat (below_end s)}
      \<longleftrightarrow> below_start s \<le> num \<and> num < below_end s"
  proof
    assume "num \<in> (\<lambda>n. word_of_nat n) ` {unat (below_start s) ..< unat (below_end s)}"
    then obtain n where n: "num = word_of_nat n" "unat (below_start s) \<le> n" "n < unat (below_end s)" by auto
    moreover have "n < 2 ^ 32" using n(3) unsigned_less [of "below_end s", where ?'a = nat] by simp
    ultimately show "below_start s \<le> num \<and> num < below_end s"
      by (simp add: word_le_nat_alt word_less_nat_alt unat_u32)
  next
    assume "below_start s \<le> num \<and> num < below_end s"
    then have "unat num \<in> {unat (below_start s) ..< unat (below_end s)}"
      by (simp add: word_le_nat_alt word_less_nat_alt)
    then show "num \<in> (\<lambda>n. word_of_nat n) ` {unat (below_start s) ..< unat (below_end s)}"
      by (intro image_eqI [where x = "unat num"]) simp_all
  qed
  then show ?thesis by (auto simp: scope_ids_def scope_contains_def split: option.splits)
qed

section \<open>Writing the table\<close>

text \<open>What interning keeps: the paths are distinct, and the map knows each one's number.\<close>

definition dir_writer_ok :: "dir_writer \<Rightarrow> bool" where
  "dir_writer_ok w \<longleftrightarrow> distinct (dw_paths w)
     \<and> (\<forall>p. case dw_seen w p of
           None \<Rightarrow> p \<notin> set (dw_paths w)
         | Some num \<Rightarrow> \<exists>i < length (dw_paths w). dw_paths w ! i = p \<and> num = as_u32 i)"

lemma dir_writer_ok_new: "dir_writer_ok dir_writer_new"
  by (simp add: dir_writer_ok_def dir_writer_new_def)

lemma intern_ok:
  assumes "dir_writer_ok w" "intern w p = (num, w')"
  shows "dir_writer_ok w' \<and> (\<exists>new. dw_paths w' = dw_paths w @ new) \<and> set (dw_paths w') = insert p (set (dw_paths w))
    \<and> (\<exists>i < length (dw_paths w'). dw_paths w' ! i = p \<and> num = as_u32 i)"
proof (cases "dw_seen w p")
  case None
  then have p: "p \<notin> set (dw_paths w)" using assms(1) by (auto simp: dir_writer_ok_def dest: spec [of _ p])
  have w': "num = as_u32 (length (dw_paths w))" "dw_paths w' = dw_paths w @ [p]"
    "dw_seen w' = (dw_seen w)(p \<mapsto> num)"
    using assms(2) None by (auto simp: intern_def Let_def)
  have "case dw_seen w' q of
           None \<Rightarrow> q \<notin> set (dw_paths w')
         | Some num \<Rightarrow> \<exists>i < length (dw_paths w'). dw_paths w' ! i = q \<and> num = as_u32 i" for q
  proof (cases "q = p")
    case True
    then show ?thesis using w' by (auto intro: exI [of _ "length (dw_paths w)"])
  next
    case False
    have "case dw_seen w q of
           None \<Rightarrow> q \<notin> set (dw_paths w)
         | Some num \<Rightarrow> \<exists>i < length (dw_paths w). dw_paths w ! i = q \<and> num = as_u32 i"
      using assms(1) by (simp add: dir_writer_ok_def)
    then show ?thesis
      using False w' by (auto simp: nth_append split: option.splits intro: less_SucI)
  qed
  then have "dir_writer_ok w'"
    using assms(1) p w'(2) by (auto simp: dir_writer_ok_def)
  then show ?thesis using w' by (auto intro: exI [of _ "length (dw_paths w)"])
next
  case (Some k)
  then have "num = k" "w' = w" using assms(2) by (simp_all add: intern_def)
  moreover have "\<exists>i < length (dw_paths w). dw_paths w ! i = p \<and> k = as_u32 i"
    using assms(1) Some by (auto simp: dir_writer_ok_def dest: spec [of _ p])
  ultimately show ?thesis using assms(1) nth_mem by fastforce
qed

text \<open>Interning one path after another, as a rebuild does for its rows.\<close>

fun intern_all :: "dir_writer \<Rightarrow> bytes list \<Rightarrow> u32 list \<times> dir_writer" where
  "intern_all w [] = ([], w)"
| "intern_all w (p # ps) =
     (let (num, w) = intern w p; (nums, w) = intern_all w ps in (num # nums, w))"

lemma intern_all_ok:
  "dir_writer_ok w \<Longrightarrow> intern_all w ps = (nums, w') \<Longrightarrow>
     dir_writer_ok w' \<and> (\<exists>new. dw_paths w' = dw_paths w @ new)
     \<and> set (dw_paths w') = set (dw_paths w) \<union> set ps \<and> length nums = length ps
     \<and> (\<forall>k < length ps. \<exists>i < length (dw_paths w'). dw_paths w' ! i = ps ! k \<and> nums ! k = as_u32 i)"
proof (induction ps arbitrary: w nums)
  case (Cons p ps)
  obtain num w1 where i: "intern w p = (num, w1)" by fastforce
  obtain nums1 w2 where ia: "intern_all w1 ps = (nums1, w2)" by fastforce
  have r: "nums = num # nums1" "w' = w2" using Cons.prems(2) i ia by simp_all
  have one: "dir_writer_ok w1 \<and> (\<exists>new. dw_paths w1 = dw_paths w @ new) \<and> set (dw_paths w1) = insert p (set (dw_paths w))
    \<and> (\<exists>i < length (dw_paths w1). dw_paths w1 ! i = p \<and> num = as_u32 i)"
    by (rule intern_ok [OF Cons.prems(1) i])
  have rest: "dir_writer_ok w2 \<and> (\<exists>new. dw_paths w2 = dw_paths w1 @ new)
     \<and> set (dw_paths w2) = set (dw_paths w1) \<union> set ps \<and> length nums1 = length ps
     \<and> (\<forall>k < length ps. \<exists>i < length (dw_paths w2). dw_paths w2 ! i = ps ! k \<and> nums1 ! k = as_u32 i)"
    using Cons.IH [of w1 nums1] ia one r(2) by simp
  have "\<exists>i < length (dw_paths w2). dw_paths w2 ! i = (p # ps) ! k \<and> nums ! k = as_u32 i"
    if "k < length (p # ps)" for k
  proof (cases k)
    case 0
    obtain i new where "i < length (dw_paths w1)" "dw_paths w1 ! i = p" "num = as_u32 i"
      "dw_paths w2 = dw_paths w1 @ new"
      using one rest by blast
    then show ?thesis using 0 r by (intro exI [of _ i]) (simp add: nth_append)
  next
    case (Suc k')
    then show ?thesis using rest that r by auto
  qed
  moreover have "\<exists>new. dw_paths w2 = dw_paths w @ new" using one rest by force
  ultimately show ?case using one rest r by auto
qed simp

lemma map_dir_order: "map (\<lambda>a. paths ! a) (dir_order paths) = sort paths"
proof (rule properties_for_sort [symmetric])
  have "mset (map (\<lambda>a. paths ! a) (dir_order paths)) = image_mset (\<lambda>a. paths ! a) (mset [0 ..< length paths])"
    by (simp only: dir_order_def mset_map mset_sort)
  also have "\<dots> = mset paths" by (metis map_nth mset_map)
  finally show "mset (map (\<lambda>a. paths ! a) (dir_order paths)) = mset paths" .
  show "sorted (map (\<lambda>a. paths ! a) (dir_order paths))"
    by (simp add: dir_order_def)
qed

lemma remap_fold:
  "distinct order \<Longrightarrow> set order \<subseteq> {..< length remap} \<Longrightarrow> i < length order \<Longrightarrow>
     foldl (\<lambda>remap (final, provisional). remap[provisional := as_u32 final]) remap (List.enumerate k order)
       ! (order ! i) = as_u32 (k + i)"
proof (induction order arbitrary: remap k i)
  case (Cons a order)
  have keep: "foldl (\<lambda>remap (final, provisional). remap[provisional := as_u32 final]) r (List.enumerate k' os) ! a = r ! a"
    if "a \<notin> set os" for r :: "u32 list" and k' os
    using that by (induction os arbitrary: r k') auto
  show ?case
  proof (cases i)
    case 0
    then show ?thesis using Cons.prems keep by simp
  next
    case (Suc j)
    then show ?thesis using Cons.prems Cons.IH [of "remap[a := as_u32 k]" j "Suc k"] by simp
  qed
qed simp

lemma dir_finish_view:
  assumes "distinct (dw_paths w)" "dir_finish w = (bs, remap)"
  shows "bs = dir_bytes (sort (dw_paths w))"
    and "i < length (dw_paths w) \<Longrightarrow> \<exists>j < length (dw_paths w). remap ! i = as_u32 j \<and> sort (dw_paths w) ! j = dw_paths w ! i"
proof -
  let ?order = "dir_order (dw_paths w)" and ?ps = "sort (dw_paths w)"
  have len: "length ?order = length (dw_paths w)" by (simp add: dir_order_def)
  show "bs = dir_bytes ?ps"
    using assms(2) unfolding dir_finish_def Let_def map_dir_order code_loop_all
    by (simp add: dir_bytes_def len)
  assume i: "i < length (dw_paths w)"
  have remap: "remap = foldl (\<lambda>remap (final, provisional). remap[provisional := as_u32 final])
      (replicate (length (dw_paths w)) 0) (List.enumerate 0 ?order)"
    using assms(2) by (simp add: dir_finish_def Let_def split: prod.splits)
  have "i \<in> set ?order" using i by (simp add: dir_order_def)
  then obtain j where j: "j < length ?order" "?order ! j = i" by (auto simp: in_set_conv_nth)
  have "remap ! (?order ! j) = as_u32 (0 + j)"
    unfolding remap by (rule remap_fold) (use j in \<open>auto simp: dir_order_def\<close>)
  moreover have "?ps ! j = dw_paths w ! (?order ! j)"
    using j(1) map_dir_order [of "dw_paths w"] by (metis nth_map)
  ultimately show "\<exists>j < length (dw_paths w). remap ! i = as_u32 j \<and> ?ps ! j = dw_paths w ! i"
    using j len by auto
qed

section \<open>The table of a list of directories\<close>

text \<open>Intern every directory, then write the table.\<close>

definition dir_file :: "bytes list \<Rightarrow> bytes" where
  "dir_file ps = fst (dir_finish (snd (intern_all dir_writer_new ps)))"

definition sorted_dirs :: "bytes list \<Rightarrow> bytes list" where
  "sorted_dirs ps = sorted_list_of_set (set ps)"

text \<open>Text, and together below the format's four gigabytes.\<close>

definition dirs_small :: "bytes list \<Rightarrow> bool" where
  "dirs_small ps \<longleftrightarrow> (\<forall>p \<in> set ps. utf8_valid p) \<and> sum_list (map (\<lambda>p. 20 + length p) ps) < 2 ^ 32"

lemma sorted_dirs [simp]:
  "sorted (sorted_dirs ps)" "distinct (sorted_dirs ps)" "set (sorted_dirs ps) = set ps"
  by (simp_all add: sorted_dirs_def)

lemma sort_interned:
  assumes "dir_writer_ok w" "set (dw_paths w) = set ps"
  shows "sort (dw_paths w) = sorted_dirs ps"
  using assms sorted_list_of_set_sort_remdups [of "dw_paths w"]
  by (simp add: sorted_dirs_def dir_writer_ok_def distinct_remdups_id)

lemma row_start_le: "row_start ps n \<le> sum_list (map (\<lambda>i. 20 + length (ps ! i)) [0 ..< n])"
proof (induction n)
  case (Suc n)
  have "length (row_piece ps n) \<le> 20 + length (ps ! n)"
    using length_put_le [of "word_of_nat (shared_at ps n)"]
      length_put_le [of "word_of_nat (length (ps ! n) - shared_at ps n)"]
    by (simp add: row_piece_def)
  with Suc show ?case by (simp add: row_start_def coded_rows_Suc)
qed simp

lemma sum_set_le: "(\<Sum>x \<in> set xs. f x) \<le> sum_list (map (f :: 'a \<Rightarrow> nat) xs)"
  by (induction xs) (auto simp: sum.insert_if intro: le_add1 trans_le_add2)

lemma dirs_small_fit:
  assumes "dirs_small ps"
  shows "dirs_fit (sorted_dirs ps)"
proof -
  let ?qs = "sorted_dirs ps"
  have "row_start ?qs (length ?qs) \<le> sum_list (map (\<lambda>i. 20 + length (?qs ! i)) [0 ..< length ?qs])"
    by (rule row_start_le)
  also have "map (\<lambda>i. 20 + length (?qs ! i)) [0 ..< length ?qs] = map (\<lambda>p. 20 + length p) ?qs"
    by (rule nth_equalityI) simp_all
  finally have rows: "row_start ?qs (length ?qs) \<le> sum_list (map (\<lambda>p. 20 + length p) ?qs)" .
  have "sum_list (map (\<lambda>p. 20 + length p) ?qs) = (\<Sum>p \<in> set ps. 20 + length p)"
    using sum.distinct_set_conv_list [of ?qs "\<lambda>p. 20 + length p"] by simp
  also have "\<dots> \<le> sum_list (map (\<lambda>p. 20 + length p) ps)" by (rule sum_set_le)
  finally have total: "sum_list (map (\<lambda>p. 20 + length p) ?qs) < 2 ^ 32"
    using assms by (simp add: dirs_small_def)
  have "20 + length p \<le> sum_list (map (\<lambda>p. 20 + length p) ?qs)" if "p \<in> set ?qs" for p
    using that by (intro member_le_sum_list) (auto simp del: sorted_dirs)
  then have "length p < 2 ^ 64" if "p \<in> set ?qs" for p
    using that total by fastforce
  moreover have "length ?qs \<le> sum_list (map (\<lambda>p. 20 + length p) ?qs)"
    by (simp add: sum_list_addf sum_list_triv)
  ultimately show ?thesis
    using assms rows total by (auto simp: dirs_fit_def dirs_small_def)
qed

lemma dir_file_view:
  assumes "dirs_small ps"
  shows "dir_open (dir_file ps) = Some (dir_view (sorted_dirs ps))"
proof -
  obtain nums w where i: "intern_all dir_writer_new ps = (nums, w)" by fastforce
  obtain bs remap where f: "dir_finish w = (bs, remap)" by fastforce
  have w: "dir_writer_ok w" "set (dw_paths w) = set ps"
    using intern_all_ok [OF dir_writer_ok_new i] by (simp_all add: dir_writer_new_def)
  have "dir_file ps = dir_bytes (sorted_dirs ps)"
    using dir_finish_view(1) [OF _ f] w sort_interned [OF w] i f
    by (simp add: dir_file_def dir_writer_ok_def)
  then show ?thesis using dir_open_view [OF dirs_small_fit [OF assms]] by simp
qed

lemma takeWhile_sorted:
  "sorted xs \<Longrightarrow> takeWhile (\<lambda>p. p < x) xs = filter (\<lambda>p. p < (x :: 'a::linorder)) xs"
proof (induction xs)
  case (Cons a xs)
  show ?case
  proof (cases "a < x")
    case False
    then have "\<not> p < x" if "p \<in> set xs" for p
      using Cons.prems that by (meson le_less_trans sorted_simps(2))
    then show ?thesis using False by (simp add: filter_empty_conv)
  qed (use Cons in simp)
qed simp

lemma first_ge_card: "first_ge (sorted_dirs ps) x = card {p \<in> set ps. p < x}"
  using distinct_card [of "filter (\<lambda>p. p < x) (sorted_dirs ps)"]
  by (simp add: first_ge_def takeWhile_sorted)

interpretation dirs: table_file dir_file dir_open dir_len
  "\<lambda>t i. case dir_get t (as_u32 i) of Ret v \<Rightarrow> v | Panic \<Rightarrow> None" sorted_dirs dirs_small
proof
  fix ps t i
  assume small: "dirs_small ps"
  then show "\<exists>t. dir_open (dir_file ps) = Some t" using dir_file_view by blast
  assume "dir_open (dir_file ps) = Some t"
  then have t: "t = dir_view (sorted_dirs ps)" using dir_file_view [OF small] by simp
  then show "dir_len t = length (sorted_dirs ps)" by (simp add: dir_len_def)
  assume i: "i < length (sorted_dirs ps)"
  then have "unat (as_u32 i) = i"
    using dirs_small_fit [OF small] by (intro unat_u32) (simp add: dirs_fit_def)
  then show "(case dir_get t (as_u32 i) of Ret v \<Rightarrow> v | Panic \<Rightarrow> None) = Some (sorted_dirs ps ! i)"
    using t i by (simp add: dir_get_view [OF dirs_small_fit [OF small]])
qed

section \<open>Properties\<close>

text \<open>
  C29: every directory comes back by its number.  Directories are interned in any order, with
  repetitions; \<open>finish\<close> sorts and front-codes them and says how the provisional numbers moved.
  The table then opens, and the number a row ends up with decodes to the very directory it
  was interned for, without panicking, and carries that directory's distance.
\<close>

theorem dir_roundtrip:
  assumes "dirs_small ps" "intern_all dir_writer_new ps = (nums, w)" "dir_finish w = (bs, remap)"
    and "k < length ps"
  shows "\<exists>t. dir_open bs = Some t \<and> dir_get t (remap ! unat (nums ! k)) = Ret (Some (ps ! k))
    \<and> dir_steps t (remap ! unat (nums ! k)) = steps_of (ps ! k)"
proof -
  let ?qs = "sorted_dirs ps"
  note fit = dirs_small_fit [OF assms(1)]
  have w: "dir_writer_ok w" "set (dw_paths w) = set ps"
    and nums: "\<forall>k < length ps. \<exists>i < length (dw_paths w). dw_paths w ! i = ps ! k \<and> nums ! k = as_u32 i"
    using intern_all_ok [OF dir_writer_ok_new assms(2)] by (simp_all add: dir_writer_new_def)
  have sort: "sort (dw_paths w) = ?qs" by (rule sort_interned [OF w])
  then have len: "length (dw_paths w) = length ?qs" by (metis length_sort)
  obtain i where i: "i < length (dw_paths w)" "dw_paths w ! i = ps ! k" "nums ! k = as_u32 i"
    using nums assms(4) by blast
  have dist: "distinct (dw_paths w)" using w(1) by (simp add: dir_writer_ok_def)
  obtain j where j: "j < length ?qs" "remap ! i = as_u32 j" "?qs ! j = ps ! k"
    using dir_finish_view(2) [OF dist assms(3) i(1)] i(2) sort len by auto
  have u: "unat (as_u32 i) = i" "unat (as_u32 j) = j"
    using i(1) j(1) len fit by (simp_all add: unat_u32 dirs_fit_def)
  have "dir_open bs = Some (dir_view ?qs)"
    using dir_finish_view(1) [OF dist assms(3)] sort dir_open_view [OF fit] by simp
  moreover have "dir_get (dir_view ?qs) (remap ! unat (nums ! k)) = Ret (Some (ps ! k))"
    using i(3) j u by (simp add: dir_get_view [OF fit])
  moreover have "dir_steps (dir_view ?qs) (remap ! unat (nums ! k)) = steps_of (ps ! k)"
    using i(3) j u by (simp add: dir_steps_def nth_opt_def)
  ultimately show ?thesis by blast
qed

theorem dir_roundtrip_witness:
  "\<exists>nums w bs remap t. intern_all dir_writer_new [str ''/usr'', str ''/etc'', str ''/usr''] = (nums, w)
    \<and> dir_finish w = (bs, remap) \<and> dir_open bs = Some t
    \<and> dir_get t (remap ! unat (nums ! 1)) = Ret (Some (str ''/etc''))"
proof -
  let ?ps = "[str ''/usr'', str ''/etc'', str ''/usr'']"
  obtain nums w where i: "intern_all dir_writer_new ?ps = (nums, w)" by fastforce
  obtain bs remap where f: "dir_finish w = (bs, remap)" by fastforce
  have "dirs_small ?ps" by (simp add: dirs_small_def utf8_valid_ascii)
  from dir_roundtrip [OF this i f, of 1] i f show ?thesis by auto
qed

text \<open>
  The two-level search is the position in the table.  For a table of any directories,
  the binary search over the restarts and the walk through one block answer, for any text,
  how many directories sort before it, and \<open>exact\<close> answers the number of the directory
  when it is in the table and nothing when it is not; neither panics.
\<close>

theorem lower_bound_counts:
  assumes "dirs_small ps" "dir_open (dir_file ps) = Some t"
  shows "lower_bound t x = Ret (as_u32 (card {p \<in> set ps. p < x}))
    \<and> exact t x = Ret (if trim_slash x \<in> set ps
        then Some (as_u32 (card {p \<in> set ps. p < trim_slash x})) else None)"
proof -
  have "t = dir_view (sorted_dirs ps)" using dir_file_view [OF assms(1)] assms(2) by simp
  then show ?thesis
    using lower_bound_view [OF dirs_small_fit [OF assms(1)], of x] exact_view [OF dirs_small_fit [OF assms(1)], of x]
    by (simp add: first_ge_card)
qed

theorem lower_bound_counts_witness:
  "\<exists>t. dir_open (dir_file [str ''/b'', str ''/a'']) = Some t \<and> lower_bound t (str ''/b'') = Ret 1"
proof -
  have small: "dirs_small [str ''/b'', str ''/a'']" by (simp add: dirs_small_def utf8_valid_ascii)
  then obtain t where t: "dir_open (dir_file [str ''/b'', str ''/a'']) = Some t"
    using dir_file_view by blast
  have "{p \<in> set [str ''/b'', str ''/a'']. p < str ''/b''} = {str ''/a''}" by auto
  then show ?thesis using lower_bound_counts [OF small t, of "str ''/b''"] t by simp
qed

text \<open>
  C30: a scope is exactly a subtree.  The two ranges \<open>subtree\<close> finds contain a directory's
  number if and only if the directory is at or below the one asked for, by whole components,
  although siblings such as \<open>/a-b\<close> sort between \<open>/a\<close> and \<open>/a/c\<close>; and a range of numbers the
  scope does not meet holds no directory of it, so skipping on \<open>intersects\<close> loses nothing.
\<close>

theorem scope_is_subtree:
  assumes "dirs_small ps" "dir_open (dir_file ps) = Some t" "trim_slash pre \<noteq> []"
    and "dir_get t num = Ret (Some path)"
  shows "\<exists>s. subtree t pre = Ret s \<and> (scope_contains s num \<longleftrightarrow> under path pre)
    \<and> (num \<in> set (scope_ids s) \<longleftrightarrow> under path pre)
    \<and> (lo \<le> num \<and> num \<le> hi \<and> under path pre \<longrightarrow> scope_intersects s lo hi)"
proof -
  let ?qs = "sorted_dirs ps"
  note fit = dirs_small_fit [OF assms(1)]
  have t: "t = dir_view ?qs" using dir_file_view [OF assms(1)] assms(2) by simp
  obtain s where s: "subtree t pre = Ret s"
    unfolding t subtree_def Let_def exact_view [OF fit sorted_dirs(1,2)] lower_bound_view [OF fit sorted_dirs(1)]
    by simp
  have num: "unat num < length ?qs" "path = ?qs ! unat num"
    using assms(4) by (simp_all add: t dir_get_view [OF fit] split: if_splits)
  have "scope_contains s num \<longleftrightarrow> under path pre"
    using scope_contains_view [OF fit sorted_dirs(1,2) num(1), of pre s] s num(2) assms(3)
    by (simp add: t under_iff)
  then show ?thesis
    using s scope_ids_contains [of num s] scope_intersects [of s num lo hi] by blast
qed

theorem scope_is_subtree_witness:
  "\<exists>t s. dir_open (dir_file [str ''/a/c'', str ''/a-b'', str ''/a'']) = Some t
    \<and> subtree t (str ''/a'') = Ret s \<and> scope_contains s 2 \<and> \<not> scope_contains s 1"
proof -
  let ?ps = "[str ''/a/c'', str ''/a-b'', str ''/a'']"
  have small: "dirs_small ?ps" by (simp add: dirs_small_def utf8_valid_ascii)
  define t where "t = dir_view (sorted_dirs ?ps)"
  have t: "dir_open (dir_file ?ps) = Some t" using dir_file_view [OF small] by (simp add: t_def)
  have order: "sorted_dirs ?ps = [str ''/a'', str ''/a-b'', str ''/a/c'']"
    by (simp add: sorted_dirs_def)
  have g: "dir_get t 2 = Ret (Some (str ''/a/c''))" "dir_get t 1 = Ret (Some (str ''/a-b''))"
    using dir_get_view [OF dirs_small_fit [OF small]] unfolding order t_def by simp_all
  have pre: "trim_slash (str ''/a'') \<noteq> []" by (simp add: trim_slash_def)
  have "under (str ''/a/c'') (str ''/a'')" "\<not> under (str ''/a-b'') (str ''/a'')"
    by (simp_all add: under_def trim_slash_def)
  then show ?thesis
    using scope_is_subtree [OF small t pre g(1)] scope_is_subtree [OF small t pre g(2)] t by auto
qed

text \<open>
  The one-pass readers agree with the reader of one row.  \<open>each_bytes\<close> calls back with
  every directory in number order, \<open>depths\<close> gives each directory's count of separators
  (saturating at 65535), and \<open>join_prefixes\<close> gives, end to end, what each directory's names
  are appended to, with one offset more than there are directories.
\<close>

theorem dir_scans_agree:
  assumes "dirs_small ps" "dir_open (dir_file ps) = Some t"
  shows "each_bytes t = map (\<lambda>i. (i, sorted_dirs ps ! i)) [0 ..< dir_len t]
    \<and> (\<forall>i < dir_len t. dir_get t (as_u32 i) = Ret (Some (sorted_dirs ps ! i)))
    \<and> depths t = Ret (map (\<lambda>p. word_of_nat (min (length (filter (\<lambda>b. b = SLASH) p)) 65535)) (sorted_dirs ps))
    \<and> (\<exists>offsets. join_prefixes t = Ret (concat (map join_prefix (sorted_dirs ps)), offsets)
        \<and> length offsets = dir_len t + 1)"
proof -
  let ?qs = "sorted_dirs ps"
  note fit = dirs_small_fit [OF assms(1)]
  have t: "t = dir_view ?qs" using dir_file_view [OF assms(1)] assms(2) by simp
  have "dir_get t (as_u32 i) = Ret (Some (?qs ! i))" if "i < length ?qs" for i
    using that fit by (simp add: t dir_get_view [OF fit] unat_u32 dirs_fit_def)
  moreover have "depth_of = (\<lambda>p. word_of_nat (min (length (filter (\<lambda>b. b = SLASH) p)) 65535))"
    by (rule ext) (simp add: depth_of_def)
  ultimately show ?thesis
    using each_bytes_view [OF fit] depths_view [OF fit] join_prefixes_view [OF fit]
    by (simp add: t dir_len_def)
qed

theorem dir_scans_agree_witness:
  "\<exists>t. dir_open (dir_file [str ''/b'', str ''/'']) = Some t \<and> depths t = Ret [1, 1]"
proof -
  let ?ps = "[str ''/b'', str ''/'']"
  have small: "dirs_small ?ps" by (simp add: dirs_small_def utf8_valid_ascii)
  obtain t where t: "dir_open (dir_file ?ps) = Some t" using dir_file_view [OF small] by blast
  have order: "sorted_dirs ?ps = [str ''/'', str ''/b'']" by (simp add: sorted_dirs_def)
  show ?thesis using dir_scans_agree [OF small t] t unfolding order by simp
qed

text \<open>
  The root is never found.  \<open>exact\<close> trims its argument, so asked for \<open>/\<close> it looks for the
  empty path: in a table that holds \<open>/\<close> and no empty directory the answer is nothing,
  although the row is there.
\<close>

theorem root_not_found:
  "\<exists>t. dir_open (dir_file [[SLASH], str ''/usr'']) = Some t \<and> dir_get t 0 = Ret (Some [SLASH])
    \<and> exact t [SLASH] = Ret None"
proof -
  let ?ps = "[[SLASH], str ''/usr'']"
  have small: "dirs_small ?ps" by (simp add: dirs_small_def utf8_valid_ascii)
  note fit = dirs_small_fit [OF small]
  have order: "sorted_dirs ?ps = [[SLASH], str ''/usr'']" by (simp add: sorted_dirs_def)
  have "dir_get (dir_view (sorted_dirs ?ps)) 0 = Ret (Some [SLASH])"
    using dir_get_view [OF fit, of 0] unfolding order by simp
  moreover have "exact (dir_view (sorted_dirs ?ps)) [SLASH] = Ret None"
    unfolding exact_view [OF fit sorted_dirs(1,2)] by (simp add: trim_slash_def)
  ultimately show ?thesis using dir_file_view [OF small] by blast
qed

end
