(* ===== verification/Blocks.thy ===== *)
theory Blocks
  imports Columns
begin

text \<open>
  Skipping whole blocks of rows: the interface the search relies on.

  A filter says, for a question, which blocks of \<open>BLOCK\<close> rows may hold an answer.  Whatever
  finds the blocks (the zone map of a column, a posting list, a directory scope), the walk
  over the blocks it keeps must find what the walk over every row finds.  The locale states
  that contract; the zone map of \<open>columns.rs\<close> meets it here and the trigram index in its own
  theory.
\<close>

text \<open>The rows of a block, and the walk over the blocks a filter keeps.\<close>

definition block_rows :: "nat \<Rightarrow> nat \<Rightarrow> nat list" where
  "block_rows rows b = [b * BLOCK ..< min (b * BLOCK + BLOCK) rows]"

definition n_blocks :: "nat \<Rightarrow> nat" where
  "n_blocks rows = (rows + (BLOCK - 1)) div BLOCK"

definition walk_blocks :: "(nat \<Rightarrow> bool) \<Rightarrow> nat \<Rightarrow> nat list" where
  "walk_blocks keep rows = concat (map (block_rows rows) (filter keep [0 ..< n_blocks rows]))"

lemma concat_block_rows:
  "concat (map (block_rows rows) [0 ..< b]) = [0 ..< min (b * BLOCK) rows]"
proof (induction b)
  case (Suc b)
  have "[0 ..< min (b * BLOCK) rows] @ [b * BLOCK ..< min (b * BLOCK + BLOCK) rows]
      = [0 ..< min (b * BLOCK + BLOCK) rows]"
  proof (cases "b * BLOCK \<le> rows")
    case True
    then show ?thesis
      using upt_add_eq_append [of 0 "b * BLOCK" "min (b * BLOCK + BLOCK) rows - b * BLOCK"] by simp
  qed simp
  with Suc show ?case by (simp add: block_rows_def add.commute)
qed simp

lemma all_block_rows: "concat (map (block_rows rows) [0 ..< n_blocks rows]) = [0 ..< rows]"
proof -
  have "rows \<le> n_blocks rows * BLOCK" unfolding n_blocks_def by linarith
  then show ?thesis by (simp add: concat_block_rows)
qed

lemma block_rows_block: "i \<in> set (block_rows rows b) \<longleftrightarrow> i < rows \<and> i div BLOCK = b"
proof -
  have "i div BLOCK = b \<longleftrightarrow> b * BLOCK \<le> i \<and> i < b * BLOCK + BLOCK" by linarith
  then show ?thesis by (auto simp: block_rows_def)
qed

locale block_filter =
  fixes rows :: "'t \<Rightarrow> nat"
    and hit :: "'t \<Rightarrow> 'q \<Rightarrow> nat \<Rightarrow> bool"
    and keep :: "'t \<Rightarrow> 'q \<Rightarrow> nat \<Rightarrow> bool"
    and ok :: "'t \<Rightarrow> bool"
  assumes keep_hit: "ok t \<Longrightarrow> i < rows t \<Longrightarrow> hit t q i \<Longrightarrow> keep t q (i div BLOCK)"
begin

lemma filter_blocks:
  assumes "ok t"
  shows "filter (hit t q) (concat (map (block_rows (rows t)) (filter (keep t q) bs)))
    = filter (hit t q) (concat (map (block_rows (rows t)) bs))"
proof (induction bs)
  case (Cons b bs)
  have "filter (hit t q) (block_rows (rows t) b) = []" if "\<not> keep t q b"
    using that keep_hit [OF assms] by (auto simp: filter_empty_conv block_rows_block)
  with Cons show ?case by simp
qed simp

text \<open>The walk over the kept blocks finds every hit, in order.\<close>

lemma walk_complete:
  "ok t \<Longrightarrow> filter (hit t q) (walk_blocks (keep t q) (rows t)) = filter (hit t q) [0 ..< rows t]"
  unfolding walk_blocks_def using filter_blocks [of t q "[0 ..< n_blocks (rows t)]"]
  by (simp only: all_block_rows)

text \<open>Two filters of one question may be used together.\<close>

lemma walk_complete_both:
  assumes "ok t" "\<And>i. i < rows t \<Longrightarrow> hit t q i \<Longrightarrow> keep' (i div BLOCK)"
  shows "filter (hit t q) (walk_blocks (\<lambda>b. keep t q b \<and> keep' b) (rows t)) = filter (hit t q) [0 ..< rows t]"
proof -
  have "filter (hit t q) (concat (map (block_rows (rows t)) (filter (\<lambda>b. keep t q b \<and> keep' b) bs)))
      = filter (hit t q) (concat (map (block_rows (rows t)) bs))" for bs
  proof (induction bs)
    case (Cons b bs)
    have "filter (hit t q) (block_rows (rows t) b) = []" if "\<not> (keep t q b \<and> keep' b)"
      using that keep_hit [OF assms(1)] assms(2) by (auto simp: filter_empty_conv block_rows_block)
    with Cons show ?case by simp
  qed simp
  then show ?thesis unfolding walk_blocks_def by (simp only: all_block_rows)
qed

end

section \<open>The zone map as a block filter\<close>

text \<open>
  A question about one column: its value lies in a range of signed numbers.  A block is kept
  unless its reported range misses the one asked for.
\<close>

record range_query =
  rq_field :: field
  rq_least :: i64
  rq_greatest :: i64

definition range_hit :: "row list \<Rightarrow> range_query \<Rightarrow> nat \<Rightarrow> bool" where
  "range_hit rs q i \<longleftrightarrow> rq_least q \<le>s rs ! i ! field_index (rq_field q)
     \<and> rs ! i ! field_index (rq_field q) \<le>s rq_greatest q"

definition range_keep :: "row list \<Rightarrow> range_query \<Rightarrow> nat \<Rightarrow> bool" where
  "range_keep rs q b \<longleftrightarrow>
     (case block_range (column_view rs) (rq_field q) b of
        None \<Rightarrow> True
      | Some (least, greatest) \<Rightarrow> rq_least q \<le>s greatest \<and> least \<le>s rq_greatest q)"

interpretation zone: block_filter length range_hit range_keep column_fits
proof
  fix rs q i
  assume "column_fits rs" "i < length rs" "range_hit rs q i"
  then show "range_keep rs q (i div BLOCK)"
    using column_range_file [of rs i "rq_field q"]
    by (auto simp: range_keep_def range_hit_def word_sle_eq)
qed

section \<open>Properties\<close>

text \<open>
  Skipping by the zone map finds what walking every row finds.  For any range of any
  column, the rows of the blocks whose recorded range meets the one asked for, tested one by
  one, are all the rows of the file whose value is in the range, in row order.
\<close>

theorem zone_walk_complete:
  assumes "column_rows_ok rs"
  shows "filter (range_hit rs q) (walk_blocks (range_keep rs q) (length rs))
    = filter (range_hit rs q) [0 ..< length rs]"
  using assms by (intro zone.walk_complete) (simp add: column_rows_ok_def)

theorem zone_walk_complete_witness:
  "filter (range_hit [replicate 14 7] \<lparr>rq_field = Size, rq_least = 5, rq_greatest = 9\<rparr>)
     (walk_blocks (range_keep [replicate 14 7] \<lparr>rq_field = Size, rq_least = 5, rq_greatest = 9\<rparr>) 1) = [0]"
proof -
  have "column_rows_ok [replicate 14 7]"
    using column_file_length [of "[replicate 14 7]"]
    by (simp add: column_rows_ok_def column_fits_def column_file_def)
  from zone_walk_complete [OF this, of "\<lparr>rq_field = Size, rq_least = 5, rq_greatest = 9\<rparr>"]
  show ?thesis by (simp add: range_hit_def word_sle_eq)
qed

end
