(* ===== verification/Trigram.thy ===== *)
theory Trigram
  imports Blocks "HOL-Library.AList" "HOL-Library.Sublist"
begin

text \<open>
  The trigram index: \<open>crates/scour-index-native/src/trigram.rs\<close>.

  A posting list holds the numbers of the blocks whose names hold a trigram.
  \<open>trigram_writer\<close> collects one block at a time; \<open>tri_finish\<close> writes the dictionary and the
  postings; \<open>lookup\<close>, \<open>decode\<close>, \<open>intersect\<close> and \<open>candidates\<close> read them.  The lemmas show that
  the ls decode to the blocks that hold the trigram, and that a name containing the text
  searched for is always in a candidate block: the index narrows, and never loses a match.

  Folding a name (\<open>Folded::fold_bytes\<close>) is a parameter.  The limit-off \<open>(f64::from(blocks) * 0.4)
  as u32\<close> is two fifths of the number of blocks, rounded down: the product is exact to within
  half a unit in the last place, and no block count is that close below a whole result.
\<close>

section \<open>Trigrams\<close>

fun for_each :: "bytes \<Rightarrow> u32 list" where
  "for_each (a # b # c # bs) =
     (push_bit 16 (ucast a) OR push_bit 8 (ucast b) OR ucast c) # for_each (b # c # bs)"
| "for_each _ = []"

abbreviation UNINDEXED :: u32 where "UNINDEXED \<equiv> - 1"

section \<open>The writer\<close>

record tri_list =
  tl_last :: u32
  tl_count :: u32
  tl_bytes :: bytes

definition tri_list_default :: tri_list where
  "tri_list_default = \<lparr>tl_last = 0, tl_count = 0, tl_bytes = []\<rparr>"

text \<open>
  The hash map of ls is an association list, whose order nothing depends on; the bitmap is
  the function from word number to word, indexed below \<open>2 ^ 18\<close>.
\<close>

record trigram_writer =
  tw_lists :: "(u32 \<times> tri_list) list"
  tw_bits :: "nat \<Rightarrow> u64"
  tw_seen :: "u32 list"
  tw_block :: u32
  tw_rows :: nat

definition trigram_writer_new :: trigram_writer where
  "trigram_writer_new = \<lparr>tw_lists = [], tw_bits = (\<lambda>_. 0), tw_seen = [], tw_block = 0, tw_rows = 0\<rparr>"

definition key_word :: "u32 \<Rightarrow> nat" where
  "key_word key = unat (drop_bit 6 key)"

definition key_bit :: "u32 \<Rightarrow> u64" where
  "key_bit key = push_bit (unat (key AND 63)) 1"

definition record_key :: "(nat \<Rightarrow> u64) \<times> u32 list \<Rightarrow> u32 \<Rightarrow> (nat \<Rightarrow> u64) \<times> u32 list" where
  "record_key = (\<lambda>(bits, seen) key.
     if bits (key_word key) AND key_bit key = 0
     then (bits(key_word key := bits (key_word key) OR key_bit key), seen @ [key])
     else (bits, seen))"

definition record_keys :: "bytes \<Rightarrow> (nat \<Rightarrow> u64) \<times> u32 list \<Rightarrow> (nat \<Rightarrow> u64) \<times> u32 list" where
  "record_keys folded st = foldl record_key st (for_each folded)"

definition seal_key :: "trigram_writer \<Rightarrow> u32 \<Rightarrow> trigram_writer" where
  "seal_key w key =
     (let bits = (tw_bits w)(key_word key := tw_bits w (key_word key) AND NOT (key_bit key));
          l = (case map_of (tw_lists w) key of Some l \<Rightarrow> l | None \<Rightarrow> tri_list_default);
          l = l\<lparr>tl_bytes := put (tl_bytes l) (ucast (tw_block w - tl_last l)),
                tl_last := tw_block w, tl_count := tl_count l + 1\<rparr>
      in w\<lparr>tw_bits := bits, tw_lists := AList.update key l (tw_lists w)\<rparr>)"

definition tri_seal :: "trigram_writer \<Rightarrow> trigram_writer" where
  "tri_seal w =
     (let w = foldl seal_key (w\<lparr>tw_seen := []\<rparr>) (tw_seen w)
      in w\<lparr>tw_block := tw_block w + 1\<rparr>)"

definition finish_row :: "trigram_writer \<Rightarrow> trigram_writer" where
  "finish_row w =
     (let w = w\<lparr>tw_rows := tw_rows w + 1\<rparr>
      in if tw_rows w mod BLOCK = 0 then tri_seal w else w)"

definition push_folded :: "trigram_writer \<Rightarrow> bytes \<Rightarrow> trigram_writer" where
  "push_folded w name =
     (let (bits, seen) = record_keys name (tw_bits w, tw_seen w)
      in finish_row (w\<lparr>tw_bits := bits, tw_seen := seen\<rparr>))"

definition tri_push :: "(bytes \<Rightarrow> bytes) \<Rightarrow> trigram_writer \<Rightarrow> bytes \<Rightarrow> trigram_writer" where
  "tri_push fold_bytes w name = push_folded w (fold_bytes name)"

definition cutoff :: "u32 \<Rightarrow> u32" where
  "cutoff blocks = word_of_nat (2 * unat blocks div 5)"

text \<open>The loop of \<open>finish\<close>: the postings and the offset of every key.\<close>

fun post_loop :: "u32 \<Rightarrow> (u32 \<times> tri_list) list \<Rightarrow> u32 list \<Rightarrow> bytes \<Rightarrow> u32 list \<Rightarrow> bytes \<times> u32 list" where
  "post_loop limit ls [] post offsets = (post, offsets)"
| "post_loop limit ls (k # ks) post offsets =
     (let l = (case map_of ls k of Some l \<Rightarrow> l | None \<Rightarrow> tri_list_default)
      in if limit < tl_count l then post_loop limit ls ks post (offsets @ [UNINDEXED])
         else post_loop limit ls ks (put post (ucast (tl_count l)) @ tl_bytes l)
                (offsets @ [as_u32 (length post)]))"

definition tri_finish :: "trigram_writer \<Rightarrow> bytes \<times> bytes" where
  "tri_finish w =
     (let w = (if tw_seen w \<noteq> [] then tri_seal w else w);
          blocks = tw_block w;
          limit = cutoff blocks;
          keys = sort (map fst (tw_lists w));
          (post, offsets) = post_loop limit (tw_lists w) keys [] []
      in (le_bytes 4 (as_u32 (length keys)) @ le_bytes 4 blocks
            @ concat (map pair_bytes (zip keys offsets)),
          post))"

section \<open>The reader\<close>

datatype lookup_result = Absent | Everywhere | Blocks u32 bytes

record trigram_index =
  ti_entries :: bytes
  ti_post :: bytes
  ti_len :: nat
  ti_blocks :: u32

definition tri_open :: "bytes \<Rightarrow> bytes \<Rightarrow> trigram_index option" where
  "tri_open dict post =
     (if length dict < 8 then None
      else Option.bind (u32_at dict 0) (\<lambda>len.
           Option.bind (u32_at dict 4) (\<lambda>blocks.
           Option.bind (get_range dict 8 (8 + unat len * 8)) (\<lambda>entries.
             Some \<lparr>ti_entries = entries, ti_post = post, ti_len = unat len, ti_blocks = blocks\<rparr>))))"

text \<open>\<open>key_at\<close> and \<open>off_at\<close>; an opened index holds eight bytes for each of its entries.\<close>

definition key_at :: "trigram_index \<Rightarrow> nat \<Rightarrow> u32 run" where
  "key_at t i = (case u32_at (ti_entries t) (i * 8) of Some k \<Rightarrow> Ret k | None \<Rightarrow> Panic)"

definition off_at :: "trigram_index \<Rightarrow> nat \<Rightarrow> u32 run" where
  "off_at t i = (case u32_at (ti_entries t) (i * 8 + 4) of Some k \<Rightarrow> Ret k | None \<Rightarrow> Panic)"

definition posting :: "trigram_index \<Rightarrow> u32 \<Rightarrow> lookup_result" where
  "posting t off =
     (if off = UNINDEXED then Everywhere
      else case get_from (ti_post t) (unat off) of
             None \<Rightarrow> Everywhere
           | Some rest \<Rightarrow>
               (case get rest of
                  None \<Rightarrow> Everywhere
                | Some (n, used) \<Rightarrow> Blocks (ucast n) (drop used rest)))"

function lookup_loop :: "trigram_index \<Rightarrow> u32 \<Rightarrow> nat \<Rightarrow> nat \<Rightarrow> lookup_result run" where
  "lookup_loop t key lo hi =
     (if lo < hi
      then let mid = lo + (hi - lo) div 2
           in bind_run (key_at t mid) (\<lambda>k.
                if k < key then lookup_loop t key (mid + 1) hi
                else if key < k then lookup_loop t key lo mid
                else bind_run (off_at t mid) (\<lambda>off. Ret (posting t off)))
      else Ret Absent)"
  by pat_completeness auto
termination
  by (relation "measure (\<lambda>(t, key, lo, hi). hi - lo)") auto

declare lookup_loop.simps [simp del]

definition lookup :: "trigram_index \<Rightarrow> u32 \<Rightarrow> lookup_result run" where
  "lookup t key = lookup_loop t key 0 (ti_len t)"

fun decode_loop :: "nat \<Rightarrow> bytes \<Rightarrow> u32 \<Rightarrow> u32 list \<Rightarrow> u32 list" where
  "decode_loop 0 bs block out = out"
| "decode_loop (Suc n) bs block out =
     (case get bs of
        None \<Rightarrow> out
      | Some (delta, used) \<Rightarrow>
          let block = block + ucast delta
          in decode_loop n (drop used bs) block (out @ [block]))"

definition decode :: "u32 \<Rightarrow> bytes \<Rightarrow> u32 list" where
  "decode n bs = decode_loop (unat n) bs 0 []"

text \<open>Both sorted; one pass.\<close>

fun intersect :: "u32 list \<Rightarrow> u32 list \<Rightarrow> u32 list" where
  "intersect (a # as) (b # bs) =
     (if a < b then intersect as (b # bs)
      else if b < a then intersect (a # as) bs
      else a # intersect as bs)"
| "intersect _ _ = []"

text \<open>The keys of the text, each looked up; one key nobody has is the whole answer.\<close>

fun gather :: "trigram_index \<Rightarrow> u32 list \<Rightarrow> (u32 \<times> bytes) list \<Rightarrow> (u32 \<times> bytes) list option run" where
  "gather t [] ls = Ret (Some ls)"
| "gather t (k # ks) ls =
     bind_run (lookup t k) (\<lambda>r. case r of
        Absent \<Rightarrow> Ret None
      | Everywhere \<Rightarrow> gather t ks ls
      | Blocks n bs \<Rightarrow> gather t ks (ls @ [(n, bs)]))"

fun intersect_lists :: "u32 list \<Rightarrow> (u32 \<times> bytes) list \<Rightarrow> u32 list" where
  "intersect_lists out [] = out"
| "intersect_lists out ((n, bs) # ls) =
     (if out = [] then out else intersect_lists (intersect out (decode n bs)) ls)"

definition candidates :: "trigram_index \<Rightarrow> bytes \<Rightarrow> u32 list option run" where
  "candidates t folded =
     (if ti_len t = 0 \<or> length folded < 3 then Ret None
      else
        let keys = remdups_adj (sort (for_each folded))
        in bind_run (gather t keys []) (\<lambda>r. case r of
             None \<Rightarrow> Ret (Some [])
           | Some ls \<Rightarrow>
               (case sort_key fst ls of
                  [] \<Rightarrow> Ret None
                | (n, bs) # ls \<Rightarrow>
                    let out = intersect_lists (decode n bs) ls
                    in if ti_blocks t < as_u32 (length out) * 2 then Ret None else Ret (Some out))))"

section \<open>Posting ls\<close>

text \<open>The differences from block to block.\<close>

fun deltas :: "nat \<Rightarrow> nat list \<Rightarrow> bytes" where
  "deltas p [] = []"
| "deltas p (b # bs) = put [] (word_of_nat (b - p)) @ deltas b bs"

lemma deltas_snoc: "deltas p (bs @ [n]) = deltas p bs @ put [] (word_of_nat (n - last (p # bs)))"
  by (induction bs arbitrary: p) auto

lemma u32_of_u64: "n < 2 ^ 32 \<Longrightarrow> ucast (word_of_nat n :: u64) = as_u32 n"
  by (simp add: unsigned_of_nat take_bit_nat_eq_self)

lemma u32_u64_u32 [simp]: "ucast (ucast x :: u64) = (x :: u32)"
  by (rule bit_word_eqI) (simp add: bit_simps)

lemma u64_of_u32: "n < 2 ^ 32 \<Longrightarrow> ucast (as_u32 n) = (word_of_nat n :: u64)"
  by (simp add: unsigned_of_nat take_bit_nat_eq_self)

lemma decode_deltas:
  "sorted (p # bs) \<Longrightarrow> \<forall>b \<in> set bs. b < 2 ^ 32 \<Longrightarrow>
     decode_loop (length bs) (deltas p bs @ rest) (as_u32 p) out = out @ map as_u32 bs"
proof (induction bs arbitrary: p out)
  case (Cons b bs)
  have "b - p < 2 ^ 32" using Cons.prems by auto
  then have "as_u32 p + ucast (word_of_nat (b - p) :: u64) = as_u32 (p + (b - p))"
    by (simp only: u32_of_u64 of_nat_add)
  moreover have "p + (b - p) = b" using Cons.prems(1) by simp
  moreover have "get (put [] (word_of_nat (b - p)) @ (deltas b bs @ rest))
      = Some (word_of_nat (b - p), length (put [] (word_of_nat (b - p))))"
    by (rule get_put)
  ultimately show ?case
    using Cons.IH [of b "out @ [as_u32 b]"] Cons.prems by (simp add: Let_def)
qed simp

section \<open>What the writer holds\<close>

definition has_key :: "bytes list \<Rightarrow> u32 \<Rightarrow> bool" where
  "has_key rs k \<longleftrightarrow> (\<exists>r \<in> set rs. k \<in> set (for_each r))"

definition key_blocks :: "bytes list list \<Rightarrow> u32 \<Rightarrow> nat list" where
  "key_blocks css k = filter (\<lambda>b. has_key (css ! b) k) [0 ..< length css]"

definition list_of :: "nat list \<Rightarrow> tri_list" where
  "list_of bl = \<lparr>tl_last = as_u32 (last bl), tl_count = as_u32 (length bl), tl_bytes = deltas 0 bl\<rparr>"

definition lists_ok :: "(u32 \<times> tri_list) list \<Rightarrow> bytes list list \<Rightarrow> bool" where
  "lists_ok ls css \<longleftrightarrow> distinct (map fst ls)
     \<and> (\<forall>k. map_of ls k = (if key_blocks css k = [] then None else Some (list_of (key_blocks css k))))"

definition key_set :: "(nat \<Rightarrow> u64) \<Rightarrow> u32 \<Rightarrow> bool" where
  "key_set bits k \<longleftrightarrow> bits (key_word k) AND key_bit k \<noteq> 0"

definition seen_ok :: "(nat \<Rightarrow> u64) \<Rightarrow> u32 list \<Rightarrow> u32 set \<Rightarrow> bool" where
  "seen_ok bits seen ks \<longleftrightarrow> distinct seen \<and> set seen = ks \<and> (\<forall>k. key_set bits k \<longleftrightarrow> k \<in> ks)"

lemma key_word_nat: "key_word k = unat k div 64"
  by (simp add: key_word_def drop_bit_eq_div unat_div)

lemma key_pos_nat: "unat (k AND 63) = unat (k :: u32) mod 64"
proof -
  have "k AND 63 = take_bit 6 k" by (simp add: take_bit_eq_mask mask_eq_exp_minus_1)
  then have "unat (k AND 63) = take_bit 6 (unat k)" by (simp only: unsigned_take_bit_eq)
  then show ?thesis by (simp add: take_bit_eq_mod)
qed

lemma bit_key_bit: "bit (key_bit k) n \<longleftrightarrow> n = unat k mod 64"
proof -
  have "unat k mod 64 < 64" by simp
  then show ?thesis by (auto simp: key_bit_def key_pos_nat bit_simps)
qed

lemma key_set_iff: "key_set bits k \<longleftrightarrow> bit (bits (unat k div 64)) (unat k mod 64)"
proof -
  have "bits (key_word k) AND key_bit k = 0 \<longleftrightarrow> \<not> bit (bits (key_word k)) (unat k mod 64)"
  proof
    assume "bits (key_word k) AND key_bit k = 0"
    then have "\<not> bit (bits (key_word k) AND key_bit k) (unat k mod 64)" by simp
    then show "\<not> bit (bits (key_word k)) (unat k mod 64)" by (simp add: bit_and_iff bit_key_bit)
  next
    assume "\<not> bit (bits (key_word k)) (unat k mod 64)"
    then show "bits (key_word k) AND key_bit k = 0"
      by (intro bit_word_eqI) (auto simp: bit_and_iff bit_key_bit)
  qed
  then show ?thesis by (simp add: key_set_def key_word_nat)
qed

lemma key_same: "unat k div 64 = unat l div 64 \<and> unat k mod 64 = unat l mod 64 \<longleftrightarrow> k = (l :: u32)"
proof
  assume "unat k div 64 = unat l div 64 \<and> unat k mod 64 = unat l mod 64"
  then have "unat k = unat l" by (metis mult_div_mod_eq)
  then show "k = l" by (rule unsigned_word_eqI)
qed simp

lemma key_set_add: "key_set (bits(key_word k := bits (key_word k) OR key_bit k)) l \<longleftrightarrow> l = k \<or> key_set bits l"
  using key_same [of l k] by (auto simp: key_set_iff key_word_nat bit_or_iff bit_key_bit)

lemma key_set_remove:
  "key_set (bits(key_word k := bits (key_word k) AND NOT (key_bit k))) l \<longleftrightarrow> l \<noteq> k \<and> key_set bits l"
proof -
  have "unat l mod 64 < 64" by simp
  then have "unat l mod 64 < LENGTH(64)" by simp
  then show ?thesis
    using key_same [of l k] by (auto simp: key_set_iff key_word_nat bit_and_iff bit_not_iff bit_key_bit)
qed

text \<open>The words of the bitmap that are touched are within it: a key has twenty-four bits.\<close>

lemma for_each_bound: "k \<in> set (for_each bs) \<Longrightarrow> unat k < 2 ^ 24"
proof (induction bs rule: for_each.induct)
  case (1 a b c bs)
  have "unat (push_bit 16 (ucast a) OR push_bit 8 (ucast b) OR ucast c :: u32) < 2 ^ 24"
    unfolding unat_less_power_iff by (auto simp: bit_simps dest!: bit_imp_le_length)
  then show ?case using 1 by auto
qed simp_all

lemma key_word_bound: "k \<in> set (for_each bs) \<Longrightarrow> key_word k < 2 ^ 24 div 64"
  using for_each_bound [of k bs] by (simp add: key_word_nat less_mult_imp_div_less)

lemma has_key_Nil [simp]: "\<not> has_key [] k"
  by (simp add: has_key_def)

lemma record_key_ok:
  assumes "seen_ok bits seen ks" "record_key (bits, seen) k = (bits', seen')"
  shows "seen_ok bits' seen' (insert k ks)"
proof (cases "key_set bits k")
  case True
  then show ?thesis
    using assms by (auto simp: record_key_def seen_ok_def key_set_def)
next
  case False
  then have "bits' = bits(key_word k := bits (key_word k) OR key_bit k)" "seen' = seen @ [k]"
    using assms(2) by (auto simp: record_key_def key_set_def)
  then show ?thesis
    using assms(1) False by (auto simp: seen_ok_def key_set_add)
qed

lemma record_keys_ok:
  assumes "seen_ok bits seen ks" "record_keys name (bits, seen) = (bits', seen')"
  shows "seen_ok bits' seen' (ks \<union> set (for_each name))"
proof -
  have "seen_ok bits' seen' (ks \<union> set qs)" if "foldl record_key (bits, seen) qs = (bits', seen')" for qs
    using assms(1) that
  proof (induction qs arbitrary: bits seen ks)
    case (Cons q qs)
    obtain b s where r: "record_key (bits, seen) q = (b, s)" by fastforce
    from Cons.IH [OF record_key_ok [OF Cons.prems(1) r]] Cons.prems(2) r show ?case by simp
  qed simp
  with assms(2) show ?thesis by (simp add: record_keys_def)
qed

text \<open>Sealing a key puts the current block at the end of its list.\<close>

definition extend_list :: "u32 \<Rightarrow> tri_list option \<Rightarrow> tri_list" where
  "extend_list block o' =
     (let l = (case o' of Some l \<Rightarrow> l | None \<Rightarrow> tri_list_default)
      in l\<lparr>tl_bytes := put (tl_bytes l) (ucast (block - tl_last l)), tl_last := block, tl_count := tl_count l + 1\<rparr>)"

lemma seal_keys:
  "distinct ks \<Longrightarrow> distinct (map fst (tw_lists w)) \<Longrightarrow>
     tw_block (foldl seal_key w ks) = tw_block w \<and> tw_rows (foldl seal_key w ks) = tw_rows w
     \<and> tw_seen (foldl seal_key w ks) = tw_seen w \<and> distinct (map fst (tw_lists (foldl seal_key w ks)))
     \<and> (\<forall>k. map_of (tw_lists (foldl seal_key w ks)) k =
           (if k \<in> set ks then Some (extend_list (tw_block w) (map_of (tw_lists w) k)) else map_of (tw_lists w) k))
     \<and> (\<forall>k. key_set (tw_bits (foldl seal_key w ks)) k \<longleftrightarrow> k \<notin> set ks \<and> key_set (tw_bits w) k)"
proof (induction ks arbitrary: w)
  case (Cons k ks)
  let ?w = "seal_key w k"
  have w: "tw_block ?w = tw_block w" "tw_rows ?w = tw_rows w" "tw_seen ?w = tw_seen w"
    "tw_lists ?w = AList.update k (extend_list (tw_block w) (map_of (tw_lists w) k)) (tw_lists w)"
    "tw_bits ?w = (tw_bits w)(key_word k := tw_bits w (key_word k) AND NOT (key_bit k))"
    by (simp_all add: seal_key_def extend_list_def Let_def)
  have d: "distinct (map fst (tw_lists ?w))"
    unfolding w(4) by (rule AList.distinct_update [OF Cons.prems(2)])
  have mo: "map_of (tw_lists ?w) = (map_of (tw_lists w))(k \<mapsto> extend_list (tw_block w) (map_of (tw_lists w) k))"
    unfolding w(4) by (rule AList.update_conv')
  have kb: "key_set (tw_bits ?w) l \<longleftrightarrow> l \<noteq> k \<and> key_set (tw_bits w) l" for l
    unfolding w(5) by (rule key_set_remove)
  have "distinct ks" "k \<notin> set ks" using Cons.prems(1) by auto
  with Cons.IH [of ?w] d show ?case
    by (auto simp: w(1-3) mo kb)
qed simp

definition tri_holds :: "trigram_writer \<Rightarrow> bytes list list \<Rightarrow> bytes list \<Rightarrow> bool" where
  "tri_holds w css ps \<longleftrightarrow> tw_block w = as_u32 (length css) \<and> tw_rows w = length (concat css) + length ps
     \<and> lists_ok (tw_lists w) css \<and> seen_ok (tw_bits w) (tw_seen w) {k. has_key ps k}"

lemma tri_holds_new: "tri_holds trigram_writer_new [] []"
  by (simp add: tri_holds_def trigram_writer_new_def lists_ok_def key_blocks_def seen_ok_def has_key_def key_set_def)

lemma key_blocks_snoc:
  "key_blocks (css @ [ps]) k = key_blocks css k @ (if has_key ps k then [length css] else [])"
  by (auto simp: key_blocks_def nth_append intro: filter_cong)

lemma key_blocks_less: "b \<in> set (key_blocks css k) \<Longrightarrow> b < length css"
  by (simp add: key_blocks_def)

lemma extend_list_of:
  assumes "\<forall>b \<in> set bl. b < n" "n < 2 ^ 32"
  shows "extend_list (as_u32 n) (if bl = [] then None else Some (list_of bl)) = list_of (bl @ [n])"
proof -
  have le: "last (0 # bl) \<le> n"
  proof (cases "bl = []")
    case False
    then show ?thesis using assms(1) last_in_set [OF False] by fastforce
  qed simp
  have "ucast (as_u32 n - as_u32 (last (0 # bl))) = (word_of_nat (n - last (0 # bl)) :: u64)"
    using le assms(2) by (simp add: u64_of_u32 flip: of_nat_diff)
  then show ?thesis
    using put_append [of "deltas 0 bl"]
    by (cases "bl = []")
      (simp_all add: extend_list_def tri_list_default_def list_of_def deltas_snoc Let_def add.commute)
qed

lemma tri_holds_seal:
  assumes "tri_holds w css ps" "length css < 2 ^ 32"
  shows "tri_holds (tri_seal w) (css @ [ps]) []"
proof -
  let ?w = "w\<lparr>tw_seen := []\<rparr>"
  have seen: "distinct (tw_seen w)" "set (tw_seen w) = {k. has_key ps k}"
    "\<And>k. key_set (tw_bits w) k \<longleftrightarrow> has_key ps k" and ls: "lists_ok (tw_lists w) css"
    using assms(1) by (simp_all add: tri_holds_def seen_ok_def)
  have d: "distinct (map fst (tw_lists ?w))" using ls by (simp add: lists_ok_def)
  note s = seal_keys [OF seen(1) d]
  have "map_of (tw_lists (tri_seal w)) k = (if key_blocks (css @ [ps]) k = [] then None
      else Some (list_of (key_blocks (css @ [ps]) k)))" for k
  proof -
    have old: "map_of (tw_lists w) k = (if key_blocks css k = [] then None else Some (list_of (key_blocks css k)))"
      using ls by (simp add: lists_ok_def)
    have "map_of (tw_lists (tri_seal w)) k = (if has_key ps k
        then Some (extend_list (tw_block w) (map_of (tw_lists w) k)) else map_of (tw_lists w) k)"
      using s seen(2) by (simp add: tri_seal_def Let_def)
    then show ?thesis
      using old extend_list_of [of "key_blocks css k" "length css"] key_blocks_less assms
      by (simp add: key_blocks_snoc tri_holds_def)
  qed
  moreover have "distinct (map fst (tw_lists (tri_seal w)))" using s by (simp add: tri_seal_def Let_def)
  moreover have "seen_ok (tw_bits (tri_seal w)) (tw_seen (tri_seal w)) {k. has_key [] k}"
    using s seen by (simp add: tri_seal_def Let_def seen_ok_def)
  moreover have "tw_block (tri_seal w) = as_u32 (length (css @ [ps]))"
    "tw_rows (tri_seal w) = length (concat (css @ [ps]))"
    using s assms(1) by (simp_all add: tri_seal_def Let_def tri_holds_def add.commute)
  ultimately show ?thesis by (simp add: tri_holds_def lists_ok_def)
qed

lemma has_key_snoc: "has_key (ps @ [r]) k \<longleftrightarrow> has_key ps k \<or> k \<in> set (for_each r)"
  by (auto simp: has_key_def)

lemma tri_holds_push:
  assumes "tri_holds w css ps" "length css < 2 ^ 32" "\<forall>cs \<in> set css. length cs = BLOCK" "length ps < BLOCK"
  shows "tri_holds (push_folded w r) (if length ps + 1 = BLOCK then css @ [ps @ [r]] else css)
           (if length ps + 1 = BLOCK then [] else ps @ [r])"
proof -
  obtain bits seen where rk: "record_keys r (tw_bits w, tw_seen w) = (bits, seen)" by fastforce
  let ?w = "w\<lparr>tw_bits := bits, tw_seen := seen, tw_rows := tw_rows w + 1\<rparr>"
  have "seen_ok (tw_bits w) (tw_seen w) {k. has_key ps k}" using assms(1) by (simp add: tri_holds_def)
  from record_keys_ok [OF this rk] have "seen_ok bits seen {k. has_key (ps @ [r]) k}"
    by (simp add: has_key_snoc Un_def)
  then have h: "tri_holds ?w css (ps @ [r])" using assms(1) by (simp add: tri_holds_def)
  have "tw_rows ?w = BLOCK * length css + (length ps + 1)"
    using assms(1) length_concat_const [OF assms(3)] by (simp add: tri_holds_def)
  then have "tw_rows ?w mod BLOCK = (length ps + 1) mod BLOCK" by (simp only: mod_mult_self4)
  moreover have "(length ps + 1) mod BLOCK = length ps + 1" if "length ps + 1 \<noteq> BLOCK"
    using that assms(4) by (intro mod_less) linarith
  ultimately have "tw_rows ?w mod BLOCK = 0 \<longleftrightarrow> length ps + 1 = BLOCK"
    by (cases "length ps + 1 = BLOCK") simp_all
  then have "push_folded w r = (if length ps + 1 = BLOCK then tri_seal ?w else ?w)"
    by (simp add: push_folded_def rk finish_row_def Let_def)
  then show ?thesis using h tri_holds_seal [OF h assms(2)] by simp
qed

lemma tri_holds_pushes:
  "length rs < 2 ^ 32 \<Longrightarrow> \<exists>css ps. tri_holds (foldl push_folded trigram_writer_new rs) css ps
     \<and> (\<forall>cs \<in> set css. length cs = BLOCK) \<and> length ps < BLOCK \<and> concat css @ ps = rs"
proof (induction rs rule: rev_induct)
  case Nil
  show ?case by (rule exI [of _ "[]"], rule exI [of _ "[]"]) (simp add: tri_holds_new)
next
  case (snoc r rs)
  then obtain css ps where h: "tri_holds (foldl push_folded trigram_writer_new rs) css ps"
    and p: "\<forall>cs \<in> set css. length cs = BLOCK" "length ps < BLOCK" "concat css @ ps = rs"
    by auto
  have "length css \<le> length (concat css)" using length_concat_const [OF p(1)] by simp
  then have len: "length css < 2 ^ 32" using snoc.prems p(3) by auto
  note push = tri_holds_push [OF h len p(1,2), of r]
  show ?case
  proof (cases "length ps + 1 = BLOCK")
    case True
    show ?thesis
      by (rule exI [of _ "css @ [ps @ [r]]"], rule exI [of _ "[]"]) (use push True p in auto)
  next
    case False
    show ?thesis
      by (rule exI [of _ css], rule exI [of _ "ps @ [r]"]) (use push False p in auto)
  qed
qed

definition block_has :: "bytes list \<Rightarrow> nat \<Rightarrow> u32 \<Rightarrow> bool" where
  "block_has rs b k \<longleftrightarrow> (\<exists>i < length rs. i div BLOCK = b \<and> k \<in> set (for_each (rs ! i)))"

text \<open>
  How many blocks the writer seals: the names of a last incomplete block are sealed only when
  one of them has a trigram.
\<close>

definition written_blocks :: "bytes list \<Rightarrow> nat" where
  "written_blocks rs = length rs div BLOCK + (if \<exists>k. block_has rs (length rs div BLOCK) k then 1 else 0)"

lemma block_has_rest:
  assumes "\<forall>cs \<in> set css. length cs = BLOCK" "length ps < BLOCK" "concat css @ ps = rs"
  shows "length rs div BLOCK = length css" "block_has rs (length css) k \<longleftrightarrow> has_key ps k"
proof -
  have c: "length (concat css) = BLOCK * length css" using length_concat_const [OF assms(1)] .
  have pos: "0 < BLOCK" using assms(2) by simp
  have "length rs = BLOCK * length css + length ps" using c assms(3) by auto
  then show "length rs div BLOCK = length css" using assms(2) by simp
  show "block_has rs (length css) k \<longleftrightarrow> has_key ps k"
  proof
    assume "block_has rs (length css) k"
    then obtain i where i: "i < length rs" "i div BLOCK = length css" "k \<in> set (for_each (rs ! i))"
      by (auto simp: block_has_def)
    have "length css * BLOCK \<le> i" using i(2) by (metis div_times_less_eq_dividend)
    then have "length (concat css) \<le> i" using c by (simp add: mult.commute)
    then have "rs ! i = ps ! (i - length (concat css))" "i - length (concat css) < length ps"
      using i(1) assms(3) by (auto simp: nth_append)
    then show "has_key ps k" using i(3) nth_mem by (fastforce simp: has_key_def)
  next
    assume "has_key ps k"
    then obtain j where j: "j < length ps" "k \<in> set (for_each (ps ! j))"
      by (metis has_key_def in_set_conv_nth)
    have "rs ! (BLOCK * length css + j) = ps ! j" using c assms(3) by (auto simp: nth_append)
    moreover have "BLOCK * length css + j < length rs" using c j(1) assms(3) by auto
    moreover have "(BLOCK * length css + j) div BLOCK = length css"
      using j(1) assms(2) pos by (simp add: div_mult_self4)
    ultimately show "block_has rs (length css) k" using j(2) by (auto simp: block_has_def)
  qed
qed

text \<open>After the last seal, what is still unsealed has no trigram at all.\<close>

lemma tri_holds_finished:
  assumes "length rs < 2 ^ 32" "w = foldl push_folded trigram_writer_new rs"
  shows "\<exists>css ps. tri_holds (if tw_seen w \<noteq> [] then tri_seal w else w) css ps
     \<and> blocks_of BLOCK css \<and> concat css @ ps = rs \<and> (\<forall>k. \<not> has_key ps k)
     \<and> (ps \<noteq> [] \<longrightarrow> (\<forall>cs \<in> set css. length cs = BLOCK)) \<and> length css \<le> length rs
     \<and> length css = written_blocks rs"
proof -
  obtain css ps where h: "tri_holds w css ps"
    and p: "\<forall>cs \<in> set css. length cs = BLOCK" "length ps < BLOCK" "concat css @ ps = rs"
    using tri_holds_pushes [OF assms(1)] assms(2) by blast
  have len: "length css \<le> length (concat css)" using length_concat_const [OF p(1)] by simp
  have full: "blocks_of BLOCK css" using p(1) by (force simp: blocks_of_def)
  have seen: "set (tw_seen w) = {k. has_key ps k}" using h by (simp add: tri_holds_def seen_ok_def)
  show ?thesis
  proof (cases "tw_seen w = []")
    case True
    then have none: "\<forall>k. \<not> has_key ps k" using seen by simp
    then have "length css = written_blocks rs" by (simp add: written_blocks_def block_has_rest [OF p])
    then show ?thesis
      using True none h p full len by (intro exI [of _ css] exI [of _ ps]) auto
  next
    case False
    then have "ps \<noteq> []" using seen by (metis Collect_empty_eq has_key_Nil set_empty)
    then have "blocks_of BLOCK (css @ [ps])" using blocks_of_snoc [OF full p(1)] p(2) by simp
    moreover have "length css + 1 \<le> length rs" using len p(3) \<open>ps \<noteq> []\<close> by (cases ps) auto
    moreover have "tri_holds (tri_seal w) (css @ [ps]) []"
      using tri_holds_seal [OF h] len p(3) assms(1) by auto
    moreover have "\<exists>k. has_key ps k" using False seen by (cases "tw_seen w") auto
    then have "length (css @ [ps]) = written_blocks rs"
      by (simp add: written_blocks_def block_has_rest [OF p])
    ultimately show ?thesis
      using False p(3) by (intro exI [of _ "css @ [ps]"] exI [of _ "[]"]) simp
  qed
qed

section \<open>What the files hold\<close>

definition piece :: "u32 \<Rightarrow> (u32 \<times> tri_list) list \<Rightarrow> u32 \<Rightarrow> bytes" where
  "piece limit ls k =
     (let l = (case map_of ls k of Some l \<Rightarrow> l | None \<Rightarrow> tri_list_default)
      in if limit < tl_count l then [] else put [] (ucast (tl_count l)) @ tl_bytes l)"

definition offset_of :: "u32 \<Rightarrow> (u32 \<times> tri_list) list \<Rightarrow> nat \<Rightarrow> u32 \<Rightarrow> u32" where
  "offset_of limit ls at k =
     (let l = (case map_of ls k of Some l \<Rightarrow> l | None \<Rightarrow> tri_list_default)
      in if limit < tl_count l then UNINDEXED else as_u32 at)"

lemma post_loop_from:
  "post_loop limit ls ks post offsets =
     (post @ concat (map (piece limit ls) ks),
      offsets @ map (\<lambda>i. offset_of limit ls (length (post @ concat (map (piece limit ls) (take i ks)))) (ks ! i))
        [0 ..< length ks])"
proof (induction ks arbitrary: post offsets)
  case (Cons k ks)
  let ?l = "case map_of ls k of Some l \<Rightarrow> l | None \<Rightarrow> tri_list_default"
  have upt: "[0 ..< length (k # ks)] = 0 # map Suc [0 ..< length ks]"
    by (simp add: map_Suc_upt upt_conv_Cons del: upt_Suc)
  have "post_loop limit ls (k # ks) post offsets
      = post_loop limit ls ks (post @ piece limit ls k) (offsets @ [offset_of limit ls (length post) k])"
    using put_append [of post] by (simp add: piece_def offset_of_def Let_def)
  then show ?case
    unfolding upt using Cons.IH [of "post @ piece limit ls k" "offsets @ [offset_of limit ls (length post) k]"]
    by (simp add: o_def)
qed simp

text \<open>The index of the names \<open>rs\<close>, as written.\<close>

definition tri_files :: "bytes list \<Rightarrow> bytes \<times> bytes" where
  "tri_files rs = tri_finish (foldl push_folded trigram_writer_new rs)"

definition tri_fits :: "bytes list \<Rightarrow> bool" where
  "tri_fits rs \<longleftrightarrow> length rs < 2 ^ 32 \<and> length (snd (tri_files rs)) < 2 ^ 32 - 1"

text \<open>What an opened index answers for one key, when it was written over the blocks \<open>css\<close>.\<close>

definition lookup_spec :: "bytes list list \<Rightarrow> u32 \<Rightarrow> u32 \<Rightarrow> lookup_result \<Rightarrow> bool" where
  "lookup_spec css limit k r \<longleftrightarrow>
     (if key_blocks css k = [] then r = Absent
      else if limit < as_u32 (length (key_blocks css k)) then r = Everywhere
      else \<exists>rest. r = Blocks (as_u32 (length (key_blocks css k))) (deltas 0 (key_blocks css k) @ rest))"

lemma lookup_loop_found:
  assumes keys: "\<And>i. i < n \<Longrightarrow> key_at t i = Ret (ks i)" and offs: "\<And>i. i < n \<Longrightarrow> off_at t i = Ret (offs i)"
    and mono: "\<And>i j. i < j \<Longrightarrow> j < n \<Longrightarrow> ks i < ks j"
  shows "hi \<le> n \<Longrightarrow> lookup_loop t key lo hi = Ret
    (case find (\<lambda>i. ks i = key) [lo ..< hi] of None \<Rightarrow> Absent | Some m \<Rightarrow> posting t (offs m))"
proof (induction "hi - lo" arbitrary: lo hi rule: less_induct)
  case less
  let ?mid = "lo + (hi - lo) div 2"
  show ?case
  proof (cases "lo < hi")
    case True
    then have mid: "lo \<le> ?mid" "?mid < hi" "?mid < n" using less.prems by auto
    have split: "[lo ..< hi] = [lo ..< ?mid] @ ?mid # [?mid + 1 ..< hi]"
      using upt_add_eq_append [of lo ?mid "hi - ?mid"] mid by (simp add: upt_conv_Cons)
    have find_append: "find P (xs @ ys) = (case find P xs of None \<Rightarrow> find P ys | Some x \<Rightarrow> Some x)" for P :: "nat \<Rightarrow> bool" and xs ys
      by (induction xs) auto
    have below: "find (\<lambda>i. ks i = key) [lo ..< ?mid] = None" if "key \<le> ks ?mid \<or> ks ?mid < key" "\<not> key < ks ?mid"
      using that mono mid by (fastforce simp: find_None_iff)
    have above: "find (\<lambda>i. ks i = key) (?mid # [?mid + 1 ..< hi]) = None" if "key < ks ?mid"
    proof -
      have "key < ks j" if "j \<in> set (?mid # [?mid + 1 ..< hi])" for j
        using that \<open>key < ks ?mid\<close> mono [of ?mid j] less.prems by (cases "j = ?mid") auto
      then show ?thesis unfolding find_None_iff by fastforce
    qed
    consider "ks ?mid < key" | "key < ks ?mid" | "ks ?mid = key" by (metis linorder_neqE)
    then show ?thesis
    proof cases
      case 1
      then have "find (\<lambda>i. ks i = key) [lo ..< hi] = find (\<lambda>i. ks i = key) [?mid + 1 ..< hi]"
        unfolding split find_append using below by auto
      then show ?thesis
        using less.hyps [of hi "?mid + 1"] less.prems True mid 1
        by (subst lookup_loop.simps) (simp add: keys Let_def)
    next
      case 2
      then have "find (\<lambda>i. ks i = key) [lo ..< hi] = find (\<lambda>i. ks i = key) [lo ..< ?mid]"
        unfolding split find_append using above by (simp split: option.split)
      moreover have "\<not> ks ?mid < key" using 2 by simp
      ultimately show ?thesis
        using less.hyps [of ?mid lo] less.prems True mid 2
        by (subst lookup_loop.simps) (simp add: keys Let_def)
    next
      case 3
      then have "find (\<lambda>i. ks i = key) [lo ..< hi] = Some ?mid"
        unfolding split find_append using below by auto
      then show ?thesis
        using True mid 3 by (subst lookup_loop.simps) (simp add: keys offs Let_def)
    qed
  qed (simp add: lookup_loop.simps)
qed

lemma decode_blocks:
  assumes "length css < 2 ^ 32"
  shows "decode (as_u32 (length (key_blocks css k))) (deltas 0 (key_blocks css k) @ rest)
    = map as_u32 (key_blocks css k)"
proof -
  have "length (key_blocks css k) \<le> length css"
    by (metis diff_zero key_blocks_def length_filter_le length_upt)
  moreover have "sorted (0 # key_blocks css k)"
    by (simp add: key_blocks_def sorted_wrt_filter)
  moreover have "\<forall>b \<in> set (key_blocks css k). b < 2 ^ 32"
    using key_blocks_less assms by fastforce
  ultimately show ?thesis
    using decode_deltas [of 0 "key_blocks css k" rest "[]"] assms by (simp add: decode_def unat_u32)
qed

lemma tri_files_written:
  assumes "tri_fits rs"
  obtains t css ps where "tri_open (fst (tri_files rs)) (snd (tri_files rs)) = Some t"
    "blocks_of BLOCK css" "concat css @ ps = rs" "\<forall>k. \<not> has_key ps k"
    "ps \<noteq> [] \<longrightarrow> (\<forall>cs \<in> set css. length cs = BLOCK)" "length css < 2 ^ 32"
    "ti_blocks t = as_u32 (length css)" "ti_len t = 0 \<longleftrightarrow> (\<forall>k. key_blocks css k = [])"
    "\<forall>k. \<exists>r. lookup t k = Ret r \<and> lookup_spec css (cutoff (as_u32 (length css))) k r"
    "length css = written_blocks rs"
proof -
  let ?w0 = "foldl push_folded trigram_writer_new rs"
  have len: "length rs < 2 ^ 32" using assms by (simp add: tri_fits_def)
  define w where "w = (if tw_seen ?w0 \<noteq> [] then tri_seal ?w0 else ?w0)"
  obtain css ps where h: "tri_holds w css ps" and css: "blocks_of BLOCK css" "concat css @ ps = rs"
    "\<forall>k. \<not> has_key ps k" "ps \<noteq> [] \<longrightarrow> (\<forall>cs \<in> set css. length cs = BLOCK)" "length css \<le> length rs"
    "length css = written_blocks rs"
    using tri_holds_finished [OF len refl] unfolding w_def by blast
  define limit where "limit = cutoff (as_u32 (length css))"
  define ks where "ks = sort (map fst (tw_lists w))"
  define offs where "offs = map (\<lambda>i. offset_of limit (tw_lists w)
      (length (concat (map (piece limit (tw_lists w)) (take i ks)))) (ks ! i)) [0 ..< length ks]"
  define post where "post = concat (map (piece limit (tw_lists w)) ks)"
  have block: "tw_block w = as_u32 (length css)" using h by (simp add: tri_holds_def)
  have kl: "length ks = length (tw_lists w)" by (simp add: ks_def)
  have files: "tri_files rs = (le_bytes 4 (as_u32 (length ks)) @ le_bytes 4 (as_u32 (length css))
      @ concat (map pair_bytes (zip ks offs)), post)"
    by (simp add: tri_files_def tri_finish_def w_def [symmetric] Let_def post_loop_from block
        limit_def [symmetric] ks_def [symmetric] offs_def post_def kl)
  have ls: "distinct (map fst (tw_lists w))"
    "\<And>k. map_of (tw_lists w) k = (if key_blocks css k = [] then None else Some (list_of (key_blocks css k)))"
    using h by (simp_all add: tri_holds_def lists_ok_def)
  have mem: "k \<in> set ks \<longleftrightarrow> key_blocks css k \<noteq> []" for k
  proof -
    have "k \<in> set ks \<longleftrightarrow> map_of (tw_lists w) k \<noteq> None" by (simp add: ks_def map_of_eq_None_iff)
    then show ?thesis using ls(2) [of k] by simp
  qed
  have srt: "sorted ks" "distinct ks" using ls(1) by (simp_all add: ks_def)
  have bound: "unat k < 2 ^ 24" if "k \<in> set ks" for k
  proof -
    have "key_blocks css k \<noteq> []" using mem that by blast
    then obtain b where "b \<in> set (key_blocks css k)" by (cases "key_blocks css k") auto
    then obtain r where "k \<in> set (for_each r)" by (auto simp: key_blocks_def has_key_def)
    then show ?thesis by (rule for_each_bound)
  qed
  have "card (set ks) \<le> card {..< 2 ^ 24 :: nat}"
    by (rule card_inj_on_le [where f = unat]) (use bound in \<open>auto simp: inj_on_def dest: unsigned_word_eqI\<close>)
  then have n: "length ks < 2 ^ 32" using distinct_card [OF srt(2)] by simp
  have zips: "length (zip ks offs) = length ks" by (simp add: offs_def)
  define t where "t = \<lparr>ti_entries = concat (map pair_bytes (zip ks offs)), ti_post = post,
      ti_len = length ks, ti_blocks = as_u32 (length css)\<rparr>"
  have entries: "length (concat (map pair_bytes (zip ks offs))) = length ks * 8"
    by (simp only: length_pairs zips)
  have dict: "fst (tri_files rs) = le_bytes 4 (as_u32 (length ks)) @ le_bytes 4 (as_u32 (length css))
      @ concat (map pair_bytes (zip ks offs))" by (simp add: files)
  have h0: "u32_at (fst (tri_files rs)) 0 = Some (as_u32 (length ks))" unfolding dict by (rule u32_at_0)
  have h4: "u32_at (fst (tri_files rs)) 4 = Some (as_u32 (length css))" unfolding dict by (rule u32_at_append) simp
  have hr: "get_range (fst (tri_files rs)) 8 (8 + length ks * 8) = Some (concat (map pair_bytes (zip ks offs)))"
    unfolding dict get_range_def using entries by simp
  have "\<not> length (fst (tri_files rs)) < 8" unfolding dict by simp
  then have op: "tri_open (fst (tri_files rs)) (snd (tri_files rs)) = Some t"
    unfolding tri_open_def h0 bind.bind_lunit h4 unat_u32 [OF n] hr by (simp add: t_def files)
  have key: "key_at t i = Ret (ks ! i)" if "i < length ks" for i
    using pair_at(1) [of i "zip ks offs"] that by (simp add: key_at_def t_def offs_def)
  have off: "off_at t i = Ret (offs ! i)" if "i < length ks" for i
    using pair_at(2) [of i "zip ks offs"] that by (simp add: off_at_def t_def offs_def)
  have mono: "ks ! i < ks ! j" if "i < j" "j < length ks" for i j
    using sorted_nth_mono [OF srt(1), of i j] nth_eq_iff_index_eq [OF srt(2), of i j] that by auto
  have "\<exists>r. lookup t k = Ret r \<and> lookup_spec css limit k r" for k
  proof -
    have l: "lookup t k = Ret (case find (\<lambda>i. ks ! i = k) [0 ..< length ks] of None \<Rightarrow> Absent | Some m \<Rightarrow> posting t (offs ! m))"
      using lookup_loop_found [of "length ks" t "\<lambda>i. ks ! i" "\<lambda>i. offs ! i" "length ks" k 0] key off mono
      by (simp add: lookup_def t_def)
    show ?thesis
    proof (cases "find (\<lambda>i. ks ! i = k) [0 ..< length ks]")
      case None
      then have "k \<notin> set ks" by (auto simp: find_None_iff in_set_conv_nth)
      then show ?thesis using l None mem by (simp add: lookup_spec_def)
    next
      case (Some m)
      then have m: "m < length ks" "ks ! m = k" by (auto simp: find_Some_iff)
      then have ne: "key_blocks css k \<noteq> []" using mem nth_mem by blast
      then have lk: "map_of (tw_lists w) k = Some (list_of (key_blocks css k))" using ls(2) by simp
      let ?at = "length (concat (map (piece limit (tw_lists w)) (take m ks)))"
      have o': "offs ! m = offset_of limit (tw_lists w) ?at k" using m by (simp add: offs_def)
      show ?thesis
      proof (cases "limit < as_u32 (length (key_blocks css k))")
        case True
        then have "offs ! m = UNINDEXED" by (simp add: o' offset_of_def lk list_of_def)
        then have "posting t (offs ! m) = Everywhere" by (simp add: posting_def)
        then show ?thesis using l Some True ne by (simp add: lookup_spec_def)
      next
        case False
        then have om: "offs ! m = as_u32 ?at" by (simp add: o' offset_of_def lk list_of_def)
        have "ks = take m ks @ k # drop (Suc m) ks" using id_take_nth_drop [OF m(1)] m(2) by simp
        then have post': "post = concat (map (piece limit (tw_lists w)) (take m ks)) @ piece limit (tw_lists w) k
            @ concat (map (piece limit (tw_lists w)) (drop (Suc m) ks))"
          unfolding post_def by (metis concat.simps(2) concat_append list.simps(9) map_append)
        have "length post < 2 ^ 32 - 1" using assms by (simp add: tri_fits_def files)
        then have at: "?at < 2 ^ 32 - 1" unfolding post' by simp
        have "as_u32 ?at \<noteq> UNINDEXED"
        proof
          assume "as_u32 ?at = UNINDEXED"
          then have "unat (as_u32 ?at) = unat (UNINDEXED)" by simp
          moreover have "unat (as_u32 ?at) = ?at" using at by (intro unat_u32) linarith
          moreover have "unat (- 1 :: u32) = 2 ^ 32 - 1"
            by (simp add: unsigned_minus_1_eq_mask mask_eq_exp_minus_1)
          ultimately show False using at by linarith
        qed
        moreover have "unat (as_u32 ?at) = ?at" using at by (intro unat_u32) linarith
        moreover have "get_from post ?at = Some (piece limit (tw_lists w) k
            @ concat (map (piece limit (tw_lists w)) (drop (Suc m) ks)))"
          unfolding post' by (rule get_from_append) simp
        moreover have pc: "piece limit (tw_lists w) k
            = put [] (ucast (as_u32 (length (key_blocks css k)))) @ deltas 0 (key_blocks css k)"
          using False by (simp add: piece_def lk list_of_def)
        moreover have "get (put [] (ucast (as_u32 (length (key_blocks css k)))) @ (deltas 0 (key_blocks css k)
              @ concat (map (piece limit (tw_lists w)) (drop (Suc m) ks))))
            = Some (ucast (as_u32 (length (key_blocks css k))), length (put [] (ucast (as_u32 (length (key_blocks css k))))))"
          by (rule get_put)
        ultimately have "posting t (offs ! m) = Blocks (as_u32 (length (key_blocks css k)))
            (deltas 0 (key_blocks css k) @ concat (map (piece limit (tw_lists w)) (drop (Suc m) ks)))"
          by (simp add: posting_def om t_def)
        then show ?thesis using l Some False ne by (simp add: lookup_spec_def)
      qed
    qed
  qed
  moreover have "ti_len t = 0 \<longleftrightarrow> (\<forall>k. key_blocks css k = [])"
    using mem by (simp add: t_def) (metis all_not_in_conv empty_set set_empty)
  ultimately show ?thesis
    using that [OF op css(1-4)] css(5,6) len by (simp add: t_def limit_def)
qed

lemma tri_files_lookup:
  assumes "tri_fits rs"
  obtains t css ps where "tri_open (fst (tri_files rs)) (snd (tri_files rs)) = Some t"
    "blocks_of BLOCK css" "concat css @ ps = rs" "\<forall>k. \<not> has_key ps k"
    "ps \<noteq> [] \<longrightarrow> (\<forall>cs \<in> set css. length cs = BLOCK)" "length css < 2 ^ 32"
    "ti_blocks t = as_u32 (length css)" "ti_len t = 0 \<longleftrightarrow> (\<forall>k. key_blocks css k = [])"
    "\<forall>k. \<exists>r. lookup t k = Ret r \<and> lookup_spec css (cutoff (as_u32 (length css))) k r"
  using tri_files_written [OF assms] by metis

section \<open>Candidates\<close>

text \<open>Sorted lists are intersected exactly.\<close>

lemma intersect_spec:
  "sorted_wrt (<) as \<Longrightarrow> sorted_wrt (<) bs \<Longrightarrow>
     set (intersect as bs) = set as \<inter> set bs \<and> sorted_wrt (<) (intersect as bs)"
proof (induction as bs rule: intersect.induct)
  case (1 a as b bs)
  consider "a < b" | "b < a" | "a = b" by (metis linorder_neqE)
  then show ?case
  proof cases
    case 1
    then have "a \<notin> set (b # bs)" using \<open>sorted_wrt (<) (b # bs)\<close> by auto
    then show ?thesis using 1 "1.IH"(1) "1.prems" by auto
  next
    case 2
    then have "b \<notin> set (a # as)" using \<open>sorted_wrt (<) (a # as)\<close> by auto
    then show ?thesis using 2 "1.IH"(2) "1.prems" by auto
  next
    case 3
    have "set (intersect as bs) = set as \<inter> set bs \<and> sorted_wrt (<) (intersect as bs)"
      using "1.IH"(3) "1.prems" 3 by simp
    then show ?thesis using 3 "1.prems" by auto
  qed
qed simp_all

lemma intersect_lists_spec:
  "sorted_wrt (<) out \<Longrightarrow> \<forall>(n, bs) \<in> set ls. sorted_wrt (<) (decode n bs) \<Longrightarrow>
     set (intersect_lists out ls) = {b \<in> set out. \<forall>(n, bs) \<in> set ls. b \<in> set (decode n bs)}"
proof (induction out ls rule: intersect_lists.induct)
  case (2 out n bs ls)
  have i: "set (intersect out (decode n bs)) = set out \<inter> set (decode n bs)"
    "sorted_wrt (<) (intersect out (decode n bs))"
    using intersect_spec [of out "decode n bs"] 2(2,3) by auto
  show ?case
  proof (cases "out = []")
    case False
    then show ?thesis using 2(1) [OF False i(2)] 2(3) i(1) by auto
  qed simp
qed simp

lemma sorted_as_u32: "sorted_wrt (<) bl \<Longrightarrow> \<forall>b \<in> set bl. b < 2 ^ 32 \<Longrightarrow> sorted_wrt (<) (map as_u32 bl)"
  by (auto simp: sorted_wrt_map word_less_nat_alt unat_u32 intro: sorted_wrt_mono_rel [rotated])

lemma key_blocks_sorted: "length css < 2 ^ 32 \<Longrightarrow> sorted_wrt (<) (map as_u32 (key_blocks css k))"
  using key_blocks_less by (intro sorted_as_u32) (fastforce simp: key_blocks_def sorted_wrt_filter)+

text \<open>A key is stored when it is in some block and in few enough of them.\<close>

definition stored :: "bytes list list \<Rightarrow> u32 \<Rightarrow> bool" where
  "stored css k \<longleftrightarrow> key_blocks css k \<noteq> []
     \<and> \<not> cutoff (as_u32 (length css)) < as_u32 (length (key_blocks css k))"

lemma gather_spec:
  assumes look: "\<forall>k. \<exists>r. lookup t k = Ret r \<and> lookup_spec css (cutoff (as_u32 (length css))) k r"
    and small: "length css < 2 ^ 32"
  shows "\<exists>r. gather t ks ls = Ret r \<and>
    (case r of
       None \<Rightarrow> \<exists>k \<in> set ks. key_blocks css k = []
     | Some ls' \<Rightarrow> (\<forall>k \<in> set ks. key_blocks css k \<noteq> [])
         \<and> map (\<lambda>(n, bs). decode n bs) ls' = map (\<lambda>(n, bs). decode n bs) ls
             @ map (\<lambda>k. map as_u32 (key_blocks css k)) (filter (stored css) ks))"
proof (induction ks arbitrary: ls)
  case (Cons k ks)
  obtain r where r: "lookup t k = Ret r" "lookup_spec css (cutoff (as_u32 (length css))) k r"
    using look by blast
  show ?case
  proof (cases r)
    case Absent
    then have "key_blocks css k = []" using r(2) by (auto simp: lookup_spec_def split: if_splits)
    then show ?thesis using r(1) Absent by simp
  next
    case Everywhere
    then have "key_blocks css k \<noteq> []" "\<not> stored css k"
      using r(2) by (auto simp: lookup_spec_def stored_def split: if_splits)
    then show ?thesis using r(1) Everywhere Cons.IH [of ls] by (fastforce split: option.splits)
  next
    case (Blocks n bs)
    then obtain rest where b: "n = as_u32 (length (key_blocks css k))" "bs = deltas 0 (key_blocks css k) @ rest"
      and s: "stored css k"
      using r(2) by (auto simp: lookup_spec_def stored_def split: if_splits)
    have "decode n bs = map as_u32 (key_blocks css k)"
      unfolding b by (rule decode_blocks [OF small])
    moreover have "key_blocks css k \<noteq> []" using s by (simp add: stored_def)
    ultimately show ?thesis
      using r(1) Blocks Cons.IH [of "ls @ [(n, bs)]"] s by (fastforce split: option.splits)
  qed
qed simp

lemma candidates_spec:
  assumes look: "\<forall>k. \<exists>r. lookup t k = Ret r \<and> lookup_spec css (cutoff (as_u32 (length css))) k r"
    and small: "length css < 2 ^ 32"
  shows "\<exists>r. candidates t folded = Ret r \<and>
    (case r of None \<Rightarrow> True | Some out \<Rightarrow> 3 \<le> length folded \<and>
       ((\<exists>k \<in> set (for_each folded). key_blocks css k = []) \<and> out = []
        \<or> (\<forall>k \<in> set (for_each folded). key_blocks css k \<noteq> []) \<and>
          set out = {as_u32 b | b. b < length css \<and>
            (\<forall>k \<in> set (for_each folded). stored css k \<longrightarrow> b \<in> set (key_blocks css k))}))"
proof (cases "ti_len t = 0 \<or> length folded < 3")
  case False
  let ?ks = "remdups_adj (sort (for_each folded))"
  let ?dec = "\<lambda>(n, bs). decode n bs"
  obtain r where g: "gather t ?ks [] = Ret r" and r: "case r of
       None \<Rightarrow> \<exists>k \<in> set ?ks. key_blocks css k = []
     | Some ls \<Rightarrow> (\<forall>k \<in> set ?ks. key_blocks css k \<noteq> [])
         \<and> map ?dec ls = map ?dec [] @ map (\<lambda>k. map as_u32 (key_blocks css k)) (filter (stored css) ?ks)"
    using gather_spec [OF look small] by blast
  have c: "candidates t folded = (case r of None \<Rightarrow> Ret (Some []) | Some ls \<Rightarrow>
      (case sort_key fst ls of [] \<Rightarrow> Ret None
       | (n, bs) # ls \<Rightarrow> (if ti_blocks t < as_u32 (length (intersect_lists (decode n bs) ls)) * 2 then Ret None
           else Ret (Some (intersect_lists (decode n bs) ls)))))"
    unfolding candidates_def Let_def if_not_P [OF False] g bind_run.simps ..
  have long: "3 \<le> length folded" using False by simp
  show ?thesis
  proof (cases r)
    case None
    then have "\<exists>k \<in> set (for_each folded). key_blocks css k = []" using r by simp
    moreover have "candidates t folded = Ret (Some [])" unfolding c None by simp
    ultimately show ?thesis using long by (intro exI [of _ "Some []"]) (unfold option.case, blast)
  next
    case (Some ls)
    then have dec: "map ?dec ls = map (\<lambda>k. map as_u32 (key_blocks css k)) (filter (stored css) ?ks)"
      using r by simp
    have img: "?dec ` set (sort_key fst ls) = (\<lambda>k. map as_u32 (key_blocks css k)) ` {k \<in> set (for_each folded). stored css k}"
      using arg_cong [OF dec, of set]
      by (simp only: set_map set_filter remdups_adj_set set_sort)
    show ?thesis
    proof (cases "sort_key fst ls")
      case Nil
      then show ?thesis using c Some by simp
    next
      case (Cons l ls')
      obtain n bs where l: "l = (n, bs)" by fastforce
      have img': "?dec ` set (l # ls') = (\<lambda>k. map as_u32 (key_blocks css k)) ` {k \<in> set (for_each folded). stored css k}"
        using img unfolding Cons .
      have srt: "sorted_wrt (<) (?dec x)" if "x \<in> set (l # ls')" for x
        using that img' key_blocks_sorted [OF small] by (metis (no_types, lifting) imageE image_eqI)
      let ?out = "intersect_lists (decode n bs) ls'"
      have "set ?out = {b \<in> set (decode n bs). \<forall>(n, bs) \<in> set ls'. b \<in> set (decode n bs)}"
        by (rule intersect_lists_spec) (use srt l in force)+
      also have "\<dots> = {b. \<forall>d \<in> ?dec ` set (l # ls'). b \<in> set d}"
        by (auto simp: l)
      also have "\<dots> = {b. \<forall>k \<in> {k \<in> set (for_each folded). stored css k}. b \<in> as_u32 ` set (key_blocks css k)}"
        unfolding img' by simp
      also have "\<dots> = {as_u32 b | b. b < length css \<and>
            (\<forall>k \<in> set (for_each folded). stored css k \<longrightarrow> b \<in> set (key_blocks css k))}"
      proof -
        have inj: "as_u32 a = as_u32 b \<longleftrightarrow> a = b" if "a < length css" "b < length css" for a b
          using that small unat_u32 [of a] unat_u32 [of b] by (metis less_trans)
        have "{k \<in> set (for_each folded). stored css k} \<noteq> {}" using img' by auto
        then obtain k0 where "k0 \<in> set (for_each folded)" "stored css k0" by blast
        then show ?thesis
          using key_blocks_less inj by (auto 0 4 simp: image_iff) (metis key_blocks_less inj)
      qed
      finally have out: "set ?out = \<dots>" .
      have "\<forall>k \<in> set (for_each folded). key_blocks css k \<noteq> []" using r Some by simp
      with out show ?thesis
        unfolding c Some option.case Cons l list.case prod.case
        using long by (cases "ti_blocks t < as_u32 (length ?out) * 2") (simp_all only: if_True if_False run.inject, auto)
    qed
  qed
qed (simp add: candidates_def)

text \<open>The candidates come in block order, each once.\<close>

lemma intersect_lists_sorted:
  "sorted_wrt (<) out \<Longrightarrow> \<forall>(n, bs) \<in> set ls. sorted_wrt (<) (decode n bs) \<Longrightarrow> sorted_wrt (<) (intersect_lists out ls)"
proof (induction out ls rule: intersect_lists.induct)
  case (2 out n bs ls)
  then show ?case using intersect_spec [of out "decode n bs"] by auto
qed simp

lemma candidates_sorted:
  assumes look: "\<forall>k. \<exists>r. lookup t k = Ret r \<and> lookup_spec css (cutoff (as_u32 (length css))) k r"
    and small: "length css < 2 ^ 32" and c: "candidates t folded = Ret (Some out)"
  shows "sorted_wrt (<) out"
proof (cases "out = []")
  case False
  let ?ks = "remdups_adj (sort (for_each folded))"
  obtain r where g: "gather t ?ks [] = Ret r" and r: "case r of
       None \<Rightarrow> \<exists>k \<in> set ?ks. key_blocks css k = []
     | Some ls \<Rightarrow> (\<forall>k \<in> set ?ks. key_blocks css k \<noteq> [])
         \<and> map (\<lambda>(n, bs). decode n bs) ls = map (\<lambda>(n, bs). decode n bs) []
             @ map (\<lambda>k. map as_u32 (key_blocks css k)) (filter (stored css) ?ks)"
    using gather_spec [OF look small] by blast
  have long: "\<not> (ti_len t = 0 \<or> length folded < 3)"
  proof
    assume "ti_len t = 0 \<or> length folded < 3"
    then have "candidates t folded = Ret None" by (simp add: candidates_def)
    then show False using c by simp
  qed
  have c': "(case r of None \<Rightarrow> Ret (Some []) | Some ls \<Rightarrow>
      (case sort_key fst ls of [] \<Rightarrow> Ret None
       | (n, bs) # ls \<Rightarrow> (if ti_blocks t < as_u32 (length (intersect_lists (decode n bs) ls)) * 2 then Ret None
           else Ret (Some (intersect_lists (decode n bs) ls))))) = Ret (Some out)"
    using c unfolding candidates_def Let_def if_not_P [OF long] g bind_run.simps .
  obtain ls where some: "r = Some ls" using c' False by (cases r) auto
  obtain n bs ls' where "sort_key fst ls = (n, bs) # ls'"
    using c' by (cases "sort_key fst ls") (auto simp: some)
  then have ls: "r = Some ls" "sort_key fst ls = (n, bs) # ls'" "out = intersect_lists (decode n bs) ls'"
    using c' some by (simp_all split: if_splits)
  have "map (\<lambda>(n, bs). decode n bs) ls = map (\<lambda>k. map as_u32 (key_blocks css k)) (filter (stored css) ?ks)"
    using r ls(1) by simp
  then have img: "(\<lambda>(n, bs). decode n bs) ` set ls = (\<lambda>k. map as_u32 (key_blocks css k)) ` set (filter (stored css) ?ks)"
    by (metis list.set_map)
  have srt: "sorted_wrt (<) (decode m cs)" if "(m, cs) \<in> set ls" for m cs
  proof -
    have "decode m cs \<in> (\<lambda>(n, bs). decode n bs) ` set ls" using that by force
    then obtain k where "decode m cs = map as_u32 (key_blocks css k)" unfolding img by blast
    then show ?thesis using key_blocks_sorted [OF small] by simp
  qed
  have "set ((n, bs) # ls') = set ls" using ls(2) by (metis set_sort)
  then have "(n, bs) \<in> set ls" "set ls' \<subseteq> set ls" by auto
  then show ?thesis unfolding ls(3) using srt by (intro intersect_lists_sorted) auto
qed simp

section \<open>Names and blocks\<close>

text \<open>A block holds a trigram when one of its names does.\<close>

lemma key_blocks_has:
  assumes "blocks_of BLOCK css" "concat css @ ps = rs" "\<forall>k. \<not> has_key ps k"
  shows "b \<in> set (key_blocks css k) \<longleftrightarrow> block_has rs b k"
proof
  assume "b \<in> set (key_blocks css k)"
  then obtain r where b: "b < length css" "r \<in> set (css ! b)" "k \<in> set (for_each r)"
    by (auto simp: key_blocks_def has_key_def)
  then obtain j where j: "j < length (css ! b)" "css ! b ! j = r" by (auto simp: in_set_conv_nth)
  have n: "b * BLOCK + j < length (concat css)" "concat css ! (b * BLOCK + j) = r" "j < BLOCK"
    using nth_blocks_conv [OF assms(1) b(1) j(1)] j(2) by auto
  have "(b * BLOCK + j) div BLOCK = b" using n(3) by simp
  moreover have "rs ! (b * BLOCK + j) = r" "b * BLOCK + j < length rs"
    using n assms(2) by (auto simp: nth_append)
  ultimately show "block_has rs b k" using b(3) by (auto simp: block_has_def)
next
  assume "block_has rs b k"
  then obtain i where i: "i < length rs" "i div BLOCK = b" "k \<in> set (for_each (rs ! i))"
    by (auto simp: block_has_def)
  have "i < length (concat css)"
  proof (rule ccontr)
    assume "\<not> i < length (concat css)"
    then have "rs ! i = ps ! (i - length (concat css))" "i - length (concat css) < length ps"
      using i(1) assms(2) by (auto simp: nth_append)
    then have "has_key ps k" using i(3) by (auto simp: has_key_def)
    then show False using assms(3) by simp
  qed
  then have "b < length css" "i mod BLOCK < length (css ! b)" "rs ! i = css ! b ! (i mod BLOCK)"
    using nth_blocks [OF _ assms(1), of i] assms(2) i(2) by (auto simp: nth_append)
  then show "b \<in> set (key_blocks css k)"
    using i(3) nth_mem by (fastforce simp: key_blocks_def has_key_def)
qed

lemma for_each_append: "set (for_each q) \<subseteq> set (for_each (q @ post))"
  by (induction q rule: for_each.induct) auto

lemma for_each_prepend: "set (for_each q) \<subseteq> set (for_each (pre @ q))"
proof (induction pre)
  case (Cons a pre)
  have "set (for_each xs) \<subseteq> set (for_each (a # xs))" for xs
    by (cases xs rule: for_each.cases) auto
  with Cons show ?case by fastforce
qed simp

lemma for_each_inside: "k \<in> set (for_each q) \<Longrightarrow> k \<in> set (for_each (pre @ q @ post))"
  using for_each_prepend [of "q @ post" pre] for_each_append [of q post] by blast

text \<open>A name contains the text searched for, and the blocks the index keeps.\<close>

definition name_hit :: "bytes list \<Rightarrow> bytes \<Rightarrow> nat \<Rightarrow> bool" where
  "name_hit rs q i \<longleftrightarrow> sublist q (rs ! i)"

definition tri_keep :: "bytes list \<Rightarrow> bytes \<Rightarrow> nat \<Rightarrow> bool" where
  "tri_keep rs q b \<longleftrightarrow>
     (case tri_open (fst (tri_files rs)) (snd (tri_files rs)) of
        None \<Rightarrow> True
      | Some t \<Rightarrow>
          (case candidates t q of Ret (Some out) \<Rightarrow> as_u32 b \<in> set out | _ \<Rightarrow> True))"

lemma tri_keep_hit:
  assumes "tri_fits rs" "i < length rs" "name_hit rs q i"
  shows "tri_keep rs q (i div BLOCK)"
proof -
  obtain t css ps where op: "tri_open (fst (tri_files rs)) (snd (tri_files rs)) = Some t"
    and css: "blocks_of BLOCK css" "concat css @ ps = rs" "\<forall>k. \<not> has_key ps k"
    and rest: "ps \<noteq> [] \<longrightarrow> (\<forall>cs \<in> set css. length cs = BLOCK)" and small: "length css < 2 ^ 32"
    and "ti_blocks t = as_u32 (length css)" "ti_len t = 0 \<longleftrightarrow> (\<forall>k. key_blocks css k = [])"
    and look: "\<forall>k. \<exists>r. lookup t k = Ret r \<and> lookup_spec css (cutoff (as_u32 (length css))) k r"
    using tri_files_lookup [OF assms(1)] .
  obtain pre post where q: "rs ! i = pre @ q @ post" using assms(3) by (auto simp: name_hit_def sublist_def)
  have in_block: "i div BLOCK \<in> set (key_blocks css k)" if "k \<in> set (for_each q)" for k
    unfolding key_blocks_has [OF css] using for_each_inside [OF that, of pre post] q assms(2)
    by (auto simp: block_has_def)
  obtain r where r: "candidates t q = Ret r" and spec: "case r of None \<Rightarrow> True | Some out \<Rightarrow> 3 \<le> length q \<and>
       ((\<exists>k \<in> set (for_each q). key_blocks css k = []) \<and> out = []
        \<or> (\<forall>k \<in> set (for_each q). key_blocks css k \<noteq> []) \<and>
          set out = {as_u32 b | b. b < length css \<and>
            (\<forall>k \<in> set (for_each q). stored css k \<longrightarrow> b \<in> set (key_blocks css k))})"
    using candidates_spec [OF look small] by blast
  show ?thesis
  proof (cases r)
    case None
    then show ?thesis using r op by (simp add: tri_keep_def)
  next
    case (Some out)
    have no: "\<not> (\<exists>k \<in> set (for_each q). key_blocks css k = [])"
      using in_block by (metis empty_iff empty_set)
    have long: "3 \<le> length q" using spec Some by simp
    then obtain k where "k \<in> set (for_each q)"
      by (cases q rule: for_each.cases) (auto simp: numeral_3_eq_3)
    then have "i div BLOCK < length css" using in_block key_blocks_less by blast
    then have "as_u32 (i div BLOCK) \<in> set out" using spec Some no in_block by auto
    then show ?thesis using r op Some by (simp add: tri_keep_def)
  qed
qed

interpretation trigrams: block_filter length name_hit tri_keep tri_fits
  by unfold_locales (rule tri_keep_hit)

section \<open>How long the postings are\<close>

lemma length_for_each: "length (for_each bs) \<le> length bs"
  by (induction bs rule: for_each.induct) auto

lemma length_deltas: "length (deltas p bl) \<le> 10 * length bl"
proof (induction bl arbitrary: p)
  case (Cons b bl)
  have "length (put [] (word_of_nat (b - p) :: u64)) \<le> 10" by (rule length_put_le)
  with Cons [of b] show ?case by simp
qed simp

lemma length_piece:
  assumes "map_of ls k = Some (list_of bl)" "bl \<noteq> []"
  shows "length (piece limit ls k) \<le> 20 * length bl"
proof -
  have "length (put [] (ucast (as_u32 (length bl)) :: u64)) \<le> 10" by (rule length_put_le)
  moreover have "1 \<le> length bl" using assms(2) by (cases bl) auto
  ultimately show ?thesis
    using length_deltas [of 0 bl] assms(1) by (simp add: piece_def list_of_def Let_def)
qed

lemma length_filter_sum: "length (filter P xs) = sum_list (map (\<lambda>x. if P x then 1 else 0) xs)"
  by (induction xs) auto

lemma sum_key_blocks:
  assumes "finite K"
  shows "(\<Sum>k \<in> K. length (key_blocks css k)) \<le> sum_list (map length (concat css))"
proof -
  have len: "length (key_blocks css k) = (\<Sum>b \<in> {0 ..< length css}. if has_key (css ! b) k then 1 else 0)" for k
  proof -
    have "length (key_blocks css k) = sum_list (map (\<lambda>b. if has_key (css ! b) k then 1 else 0) [0 ..< length css])"
      unfolding key_blocks_def by (rule length_filter_sum)
    then show ?thesis by (simp only: interv_sum_list_conv_sum_set_nat set_upt)
  qed
  have one: "(\<Sum>k \<in> K. if has_key cs k then 1 else 0) \<le> sum_list (map length cs)" for cs
  proof -
    have "(\<Sum>k \<in> K. if has_key cs k then 1 else 0) = card {k \<in> K. has_key cs k}"
      using assms by (simp add: sum.If_cases Int_def)
    also have "\<dots> \<le> card (set (concat (map for_each cs)))"
      by (rule card_mono) (auto simp: has_key_def)
    also have "\<dots> \<le> length (concat (map for_each cs))" by (rule card_length)
    also have "\<dots> = sum_list (map (\<lambda>r. length (for_each r)) cs)" by (simp add: length_concat o_def)
    also have "\<dots> \<le> sum_list (map length cs)" by (rule sum_list_mono) (rule length_for_each)
    finally show ?thesis .
  qed
  have "(\<Sum>k \<in> K. length (key_blocks css k))
      = (\<Sum>b \<in> {0 ..< length css}. \<Sum>k \<in> K. if has_key (css ! b) k then 1 else 0)"
    unfolding len by (rule sum.swap)
  also have "\<dots> \<le> (\<Sum>b \<in> {0 ..< length css}. sum_list (map length (css ! b)))"
    by (rule sum_mono) (rule one)
  also have "\<dots> = sum_list (map (\<lambda>b. sum_list (map length (css ! b))) [0 ..< length css])"
    by (simp only: interv_sum_list_conv_sum_set_nat set_upt)
  also have "map (\<lambda>b. sum_list (map length (css ! b))) [0 ..< length css] = map (\<lambda>cs. sum_list (map length cs)) css"
    by (rule nth_equalityI) simp_all
  also have "sum_list (map (\<lambda>cs. sum_list (map length cs)) css) = sum_list (map length (concat css))"
    by (induction css) simp_all
  finally show ?thesis .
qed

lemma length_postings:
  assumes "length rs < 2 ^ 32"
  shows "length (snd (tri_files rs)) \<le> 20 * sum_list (map length rs)"
proof -
  let ?w0 = "foldl push_folded trigram_writer_new rs"
  define w where "w = (if tw_seen ?w0 \<noteq> [] then tri_seal ?w0 else ?w0)"
  obtain css ps where h: "tri_holds w css ps" and css: "concat css @ ps = rs"
    using tri_holds_finished [OF assms refl] unfolding w_def by blast
  define ks where "ks = sort (map fst (tw_lists w))"
  define limit where "limit = cutoff (tw_block w)"
  have post: "snd (tri_files rs) = concat (map (piece limit (tw_lists w)) ks)"
    by (simp add: tri_files_def tri_finish_def w_def [symmetric] Let_def post_loop_from
        ks_def [symmetric] limit_def)
  have ls: "distinct (map fst (tw_lists w))"
    "\<And>k. map_of (tw_lists w) k = (if key_blocks css k = [] then None else Some (list_of (key_blocks css k)))"
    using h by (simp_all add: tri_holds_def lists_ok_def)
  have "length (piece limit (tw_lists w) k) \<le> 20 * length (key_blocks css k)" if "k \<in> set ks" for k
  proof -
    have "map_of (tw_lists w) k \<noteq> None" using that by (simp add: ks_def map_of_eq_None_iff)
    then have "key_blocks css k \<noteq> []" using ls(2) [of k] by auto
    then show ?thesis using length_piece [of "tw_lists w" k] ls(2) [of k] by simp
  qed
  then have "length (snd (tri_files rs)) \<le> sum_list (map (\<lambda>k. 20 * length (key_blocks css k)) ks)"
    unfolding post length_concat map_map o_def by (rule sum_list_mono)
  also have "\<dots> = 20 * (\<Sum>k \<in> set ks. length (key_blocks css k))"
    using sum.distinct_set_conv_list [of ks "\<lambda>k. 20 * length (key_blocks css k)"] ls(1)
    by (simp add: ks_def sum_distrib_left)
  also have "\<dots> \<le> 20 * sum_list (map length (concat css))"
    using sum_key_blocks [of "set ks" css] by simp
  also have "\<dots> \<le> 20 * sum_list (map length rs)" using css by auto
  finally show ?thesis .
qed

text \<open>Names that are together small enough for the format.\<close>

definition tri_small :: "bytes list \<Rightarrow> bool" where
  "tri_small rs \<longleftrightarrow> length rs < 2 ^ 32 \<and> 20 * sum_list (map length rs) < 2 ^ 32 - 1"

lemma tri_small_fits: "tri_small rs \<Longrightarrow> tri_fits rs"
  using length_postings [of rs] by (simp add: tri_small_def tri_fits_def)

section \<open>Properties\<close>

text \<open>
  C31: the trigram index never loses a match.  For the index written over any list of folded
  names and any text, the names of the candidate blocks that contain the text, taken in
  order, are all the names that contain it; in particular the index opens, and asking it for
  candidates does not panic.
\<close>

theorem trigram_complete:
  assumes "tri_small rs"
  shows "filter (name_hit rs q) (walk_blocks (tri_keep rs q) (length rs)) = filter (name_hit rs q) [0 ..< length rs]
    \<and> (\<exists>t r. tri_open (fst (tri_files rs)) (snd (tri_files rs)) = Some t \<and> candidates t q = Ret r)"
proof -
  obtain t css ps where op: "tri_open (fst (tri_files rs)) (snd (tri_files rs)) = Some t"
    and "blocks_of BLOCK css" "concat css @ ps = rs" "\<forall>k. \<not> has_key ps k"
    "ps \<noteq> [] \<longrightarrow> (\<forall>cs \<in> set css. length cs = BLOCK)" and small: "length css < 2 ^ 32"
    and "ti_blocks t = as_u32 (length css)" "ti_len t = 0 \<longleftrightarrow> (\<forall>k. key_blocks css k = [])"
    and look: "\<forall>k. \<exists>r. lookup t k = Ret r \<and> lookup_spec css (cutoff (as_u32 (length css))) k r"
    using tri_files_lookup [OF tri_small_fits [OF assms]] .
  show ?thesis
    using trigrams.walk_complete [OF tri_small_fits [OF assms], of q] candidates_spec [OF look small, of q] op by blast
qed

theorem trigram_complete_witness:
  "filter (name_hit [str ''notes.txt'', str ''main.rs''] (str ''tes''))
     (walk_blocks (tri_keep [str ''notes.txt'', str ''main.rs''] (str ''tes'')) 2) = [0]"
proof -
  let ?rs = "[str ''notes.txt'', str ''main.rs'']" and ?q = "str ''tes''"
  have "tri_small ?rs" by (simp add: tri_small_def)
  then have "filter (name_hit ?rs ?q) (walk_blocks (tri_keep ?rs ?q) (length ?rs)) = filter (name_hit ?rs ?q) [0 ..< length ?rs]"
    using trigram_complete [of ?rs ?q] by blast
  moreover have "name_hit ?rs ?q 0" "\<not> name_hit ?rs ?q 1"
    by (simp_all add: name_hit_def sublist_code)
  moreover have "[0 ..< length ?rs] = [0, 1]" by (simp add: upt_rec)
  moreover have "length ?rs = 2" by simp
  ultimately show ?thesis by (simp only: filter.simps) simp
qed

text \<open>The postings a dictionary promises, over the names alone.\<close>

lemma key_blocks_list:
  assumes "blocks_of BLOCK css" "concat css @ ps = rs" "\<forall>k. \<not> has_key ps k"
  shows "key_blocks css k = sorted_list_of_set {b. block_has rs b k}"
    "length (key_blocks css k) = card {b. block_has rs b k}"
proof -
  have s: "set (key_blocks css k) = {b. block_has rs b k}" using key_blocks_has [OF assms] by blast
  have "sorted (key_blocks css k)" "distinct (key_blocks css k)"
    by (simp_all add: key_blocks_def sorted_wrt_filter)
  then show "key_blocks css k = sorted_list_of_set {b. block_has rs b k}"
    "length (key_blocks css k) = card {b. block_has rs b k}"
    using s by (metis sorted_list_of_set.idem_if_sorted_distinct, metis distinct_card)
qed

text \<open>The cut-off and the length of a list, read from the words they are kept in.\<close>

lemma unat_cutoff: "n < 2 ^ 32 \<Longrightarrow> unat (cutoff (as_u32 n)) = 2 * n div 5"
proof -
  assume "n < 2 ^ 32"
  then have "unat (as_u32 n) = n" "2 * n div 5 < 2 ^ 32" by (simp_all add: unat_u32)
  then show ?thesis by (simp add: cutoff_def unat_u32)
qed

text \<open>
  C32: the posting of a trigram is exact.  Let B be the blocks that have a name holding the
  trigram.  Asked for the trigram, the index written over the names answers that it is absent
  exactly when B is empty, that it is everywhere exactly when B has more blocks than two fifths
  of the blocks the writer sealed, rounded down, and otherwise with a list that decodes to the
  numbers in B, each once, in order, and whose count is their number.  The only assumption is
  that the names are together small enough for the 32-bit offsets of the format.
\<close>

theorem postings_exact:
  assumes "tri_small rs"
  shows "\<exists>t r. tri_open (fst (tri_files rs)) (snd (tri_files rs)) = Some t \<and> lookup t k = Ret r
    \<and> (r = Absent \<longleftrightarrow> {b. block_has rs b k} = {})
    \<and> (r = Everywhere \<longleftrightarrow> 2 * written_blocks rs div 5 < card {b. block_has rs b k})
    \<and> (\<forall>n bs. r = Blocks n bs \<longrightarrow> unat n = card {b. block_has rs b k}
        \<and> decode n bs = map as_u32 (sorted_list_of_set {b. block_has rs b k}))"
proof -
  obtain t css ps where op: "tri_open (fst (tri_files rs)) (snd (tri_files rs)) = Some t"
    and css: "blocks_of BLOCK css" "concat css @ ps = rs" "\<forall>k. \<not> has_key ps k"
    and small: "length css < 2 ^ 32" and wr: "length css = written_blocks rs"
    and look: "\<forall>k. \<exists>r. lookup t k = Ret r \<and> lookup_spec css (cutoff (as_u32 (length css))) k r"
    by (rule tri_files_written [OF tri_small_fits [OF assms]])
  let ?B = "{b. block_has rs b k}"
  obtain r where r: "lookup t k = Ret r" "lookup_spec css (cutoff (as_u32 (length css))) k r"
    using look by blast
  note kb = key_blocks_list [OF css, of k]
  have "length (key_blocks css k) \<le> length css"
    by (metis diff_zero key_blocks_def length_filter_le length_upt)
  then have count_u32: "unat (as_u32 (card ?B)) = card ?B" using small kb(2) by (simp add: unat_u32)
  have none: "card ?B = 0" if "?B = {}" using that by simp
  have "set (key_blocks css k) = ?B" using key_blocks_has [OF css] by blast
  then have empty: "key_blocks css k = [] \<longleftrightarrow> ?B = {}" by (metis set_empty)
  have common: "cutoff (as_u32 (length css)) < as_u32 (card ?B) \<longleftrightarrow> 2 * written_blocks rs div 5 < card ?B"
    using unat_cutoff [OF small] count_u32 by (simp only: word_less_nat_alt wr)
  note spec = r(2) [unfolded lookup_spec_def kb(2) common empty]
  have "unat n = card ?B \<and> decode n bs = map as_u32 (sorted_list_of_set ?B)" if b: "r = Blocks n bs" for n bs
  proof -
    obtain rest where "n = as_u32 (card ?B)" "bs = deltas 0 (key_blocks css k) @ rest"
      using spec b by (auto split: if_splits)
    then show ?thesis using decode_blocks [OF small, of k rest] count_u32 unfolding kb by simp
  qed
  moreover have "r = Absent \<longleftrightarrow> ?B = {}" "r = Everywhere \<longleftrightarrow> 2 * written_blocks rs div 5 < card ?B"
    using spec none by (auto split: if_splits)
  ultimately show ?thesis using op r(1) by blast
qed

text \<open>Of ninety-six names, three blocks, only the first has the trigram: it is answered with a list.\<close>

theorem postings_exact_witness:
  "\<exists>t n bs. tri_open (fst (tri_files (str ''abc'' # replicate 95 []))) (snd (tri_files (str ''abc'' # replicate 95 []))) = Some t
    \<and> lookup t 0x616263 = Ret (Blocks n bs) \<and> decode n bs = [0]"
proof -
  let ?rs = "str ''abc'' # replicate 95 []"
  have small: "tri_small ?rs" by (simp add: tri_small_def sum_list_replicate)
  have has: "block_has ?rs b 0x616263 \<longleftrightarrow> b = 0" for b
  proof
    assume "block_has ?rs b 0x616263"
    then obtain i where i: "i < 96" "i div BLOCK = b" "0x616263 \<in> set (for_each (?rs ! i))"
      by (auto simp: block_has_def)
    have "i = 0" using i(1,3) by (cases i) simp_all
    then show "b = 0" using i(2) by simp
  qed (auto simp: block_has_def intro: exI [of _ 0])
  have "\<not> block_has ?rs 3 q" for q
  proof
    assume "block_has ?rs 3 q"
    then obtain i where "i < 96" "i div BLOCK = 3" "q \<in> set (for_each (?rs ! i))"
      by (auto simp: block_has_def)
    then show False by (cases i) simp_all
  qed
  then have wr: "written_blocks ?rs = 3" by (simp add: written_blocks_def)
  show ?thesis using postings_exact [OF small, of "0x616263"] unfolding wr has
    by (auto simp: lookup_result.exhaust) (metis lookup_result.exhaust)
qed

end
