(* ===== verification/Names.thy ===== *)
theory Names
  imports Blocks Utf8
begin

text \<open>
  The name arena: \<open>crates/scour-index-native/src/names.rs\<close>.

  \<open>name_writer\<close> holds the spelled and the folded arena; \<open>push_and_fold\<close>, \<open>name_pack\<close> and
  \<open>pack_in_place\<close> are its operations.  \<open>arena_open\<close>, \<open>arena_get\<close>, \<open>walk_range\<close> and the
  stateful \<open>reader_at\<close> read an arena in place.  The lemmas show that the in-place header is
  the ordinary one, that every name comes back by its row, and that neither the walk nor the
  reader, however its position was left, ever answers anything else.

  \<open>memchr\<close> (a third-party crate) is a parameter: it finds the first occurrence of a byte
  (\<open>memchr_law\<close>).  Folding a name is a parameter too.
\<close>

definition memchr_law :: "(u8 \<Rightarrow> bytes \<Rightarrow> nat option) \<Rightarrow> bool" where
  "memchr_law memchr \<longleftrightarrow> (\<forall>b bs. memchr b bs =
     (let n = length (takeWhile (\<lambda>c. c \<noteq> b) bs) in if n < length bs then Some n else None))"

section \<open>The writer\<close>

record name_writer =
  nw_bytes :: bytes
  nw_blocks :: "u32 list"
  nw_rows :: nat
  nw_folded :: bytes
  nw_folded_blocks :: "u32 list"

definition name_writer_new :: name_writer where
  "name_writer_new = \<lparr>nw_bytes = [], nw_blocks = [], nw_rows = 0, nw_folded = [], nw_folded_blocks = []\<rparr>"

definition push_and_fold :: "(bytes \<Rightarrow> bytes) \<Rightarrow> name_writer \<Rightarrow> bytes \<Rightarrow> name_writer \<times> bytes" where
  "push_and_fold fold_bytes w name =
     (let w = (if nw_rows w mod BLOCK = 0
               then w\<lparr>nw_blocks := nw_blocks w @ [as_u32 (length (nw_bytes w))],
                      nw_folded_blocks := nw_folded_blocks w @ [as_u32 (length (nw_folded w))]\<rparr>
               else w);
          start = length (nw_folded w);
          w = w\<lparr>nw_bytes := nw_bytes w @ name @ [0], nw_folded := nw_folded w @ fold_bytes name @ [0],
                nw_rows := nw_rows w + 1\<rparr>
      in (w, take (length (nw_folded w) - 1 - start) (drop start (nw_folded w))))"

definition name_pack :: "nat \<Rightarrow> u32 list \<Rightarrow> bytes \<Rightarrow> bytes" where
  "name_pack rows blocks bs =
     le_bytes 4 (as_u32 rows) @ le_bytes 4 (as_u32 (length blocks)) @ concat (map (le_bytes 4) blocks) @ bs"

text \<open>Growing the payload, rotating it and writing the header over the front.\<close>

definition copy_at :: "nat \<Rightarrow> 'a list \<Rightarrow> 'a list \<Rightarrow> 'a list" where
  "copy_at i ys xs = take i xs @ ys @ drop (i + length ys) xs"

definition rotate_right :: "nat \<Rightarrow> 'a list \<Rightarrow> 'a list" where
  "rotate_right k xs = drop (length xs - k) xs @ take (length xs - k) xs"

fun write_slots :: "nat \<Rightarrow> u32 list \<Rightarrow> bytes \<Rightarrow> bytes" where
  "write_slots at [] bs = bs"
| "write_slots at (b # blocks) bs = write_slots (at + 4) blocks (copy_at at (le_bytes 4 b) bs)"

definition pack_in_place :: "nat \<Rightarrow> u32 list \<Rightarrow> bytes \<Rightarrow> bytes" where
  "pack_in_place rows blocks bs =
     (let header_len = 8 + length blocks * 4;
          bs = bs @ replicate header_len 0;
          bs = rotate_right header_len bs;
          bs = copy_at 0 (le_bytes 4 (as_u32 rows)) bs;
          bs = copy_at 4 (le_bytes 4 (as_u32 (length blocks))) bs
      in write_slots 8 blocks bs)"

definition name_finish :: "name_writer \<Rightarrow> bytes" where
  "name_finish w = name_pack (nw_rows w) (nw_blocks w) (nw_bytes w)"

definition name_finish_folded :: "name_writer \<Rightarrow> bytes" where
  "name_finish_folded w = name_pack (nw_rows w) (nw_folded_blocks w) (nw_folded w)"

definition name_finish_both :: "name_writer \<Rightarrow> bytes \<times> bytes" where
  "name_finish_both w =
     (pack_in_place (nw_rows w) (nw_blocks w) (nw_bytes w),
      pack_in_place (nw_rows w) (nw_folded_blocks w) (nw_folded w))"

section \<open>The arena\<close>

record name_arena =
  na_rows :: nat
  na_blocks :: bytes
  na_bytes :: bytes

definition arena_open :: "bytes \<Rightarrow> name_arena option" where
  "arena_open bs =
     (if length bs < 8 then None
      else Option.bind (u32_at bs 0) (\<lambda>rows. Option.bind (u32_at bs 4) (\<lambda>n_blocks.
        let end_at = 8 + unat n_blocks * 4
        in if length bs < end_at then None
           else Some \<lparr>na_rows = unat rows, na_blocks = take (end_at - 8) (drop 8 bs),
                      na_bytes = drop end_at bs\<rparr>)))"

definition block_start :: "name_arena \<Rightarrow> nat \<Rightarrow> nat option" where
  "block_start a block = map_option unat (u32_at (na_blocks a) (block * 4))"

text \<open>Past \<open>k\<close> names, each ended by a NUL.\<close>

fun skip_names :: "(u8 \<Rightarrow> bytes \<Rightarrow> nat option) \<Rightarrow> bytes \<Rightarrow> nat \<Rightarrow> nat \<Rightarrow> nat option" where
  "skip_names memchr bs 0 at = Some at"
| "skip_names memchr bs (Suc k) at =
     Option.bind (get_from bs at) (\<lambda>rest. Option.bind (memchr 0 rest) (\<lambda>n.
       skip_names memchr bs k (at + n + 1)))"

definition from_utf8 :: "bytes \<Rightarrow> bytes option" where
  "from_utf8 bs = (if utf8_valid bs then Some bs else None)"

definition arena_get :: "(u8 \<Rightarrow> bytes \<Rightarrow> nat option) \<Rightarrow> name_arena \<Rightarrow> nat \<Rightarrow> bytes option" where
  "arena_get memchr a row =
     (if na_rows a \<le> row then None
      else Option.bind (block_start a (row div BLOCK)) (\<lambda>at.
           Option.bind (skip_names memchr (na_bytes a) (row mod BLOCK) at) (\<lambda>at.
           Option.bind (get_from (na_bytes a) at) (\<lambda>rest. Option.bind (memchr 0 rest) (\<lambda>n.
           Option.bind (get_range (na_bytes a) at (at + n)) from_utf8)))))"

text \<open>
  \<open>walk_range\<close>: the callback carries a state and says whether to go on.
\<close>

fun walk_loop ::
  "(u8 \<Rightarrow> bytes \<Rightarrow> nat option) \<Rightarrow> bytes \<Rightarrow> ('s \<Rightarrow> nat \<Rightarrow> bytes \<Rightarrow> 's \<times> bool) \<Rightarrow> nat \<Rightarrow> nat \<Rightarrow> nat \<Rightarrow> 's \<Rightarrow> 's"
  where
  "walk_loop memchr bs f 0 row at s = s"
| "walk_loop memchr bs f (Suc k) row at s =
     (case get_from bs at of
        None \<Rightarrow> s
      | Some rest \<Rightarrow>
          (case memchr 0 rest of
             None \<Rightarrow> s
           | Some n \<Rightarrow>
               let (s, more) = f s row (take n rest)
               in if more then walk_loop memchr bs f k (row + 1) (at + n + 1) s else s))"

definition walk_range ::
  "(u8 \<Rightarrow> bytes \<Rightarrow> nat option) \<Rightarrow> name_arena \<Rightarrow> nat \<Rightarrow> nat \<Rightarrow> ('s \<Rightarrow> nat \<Rightarrow> bytes \<Rightarrow> 's \<times> bool) \<Rightarrow> 's \<Rightarrow> 's"
  where
  "walk_range memchr a from to f s =
     (let to = min to (na_rows a)
      in if to \<le> from then s
         else case block_start a (from div BLOCK) of
                None \<Rightarrow> s
              | Some at \<Rightarrow>
                  (case skip_names memchr (na_bytes a) (from mod BLOCK) at of
                     None \<Rightarrow> s
                   | Some at \<Rightarrow> walk_loop memchr (na_bytes a) f (to - from) from at s))"

definition walk_names ::
  "(u8 \<Rightarrow> bytes \<Rightarrow> nat option) \<Rightarrow> name_arena \<Rightarrow> nat \<Rightarrow> ('s \<Rightarrow> nat \<Rightarrow> bytes \<Rightarrow> 's \<times> bool) \<Rightarrow> 's \<Rightarrow> 's" where
  "walk_names memchr a from f s = walk_range memchr a from (na_rows a) f s"

text \<open>\<open>Reader\<close>: a place kept between reads.\<close>

record reader =
  rd_at :: nat
  rd_row :: nat
  rd_placed :: bool

definition reader_default :: reader where
  "reader_default = \<lparr>rd_at = 0, rd_row = 0, rd_placed = False\<rparr>"

definition reader_start :: "reader \<Rightarrow> name_arena \<Rightarrow> nat \<Rightarrow> (nat \<times> nat) option" where
  "reader_start r a row =
     (if rd_row r \<le> row \<and> rd_placed r \<and> row - rd_row r \<le> row mod BLOCK
      then Some (rd_at r, row - rd_row r)
      else map_option (\<lambda>at. (at, row mod BLOCK)) (block_start a (row div BLOCK)))"

definition reader_at :: "(u8 \<Rightarrow> bytes \<Rightarrow> nat option) \<Rightarrow> name_arena \<Rightarrow> nat \<Rightarrow> reader \<Rightarrow> bytes \<times> reader" where
  "reader_at memchr a row r =
     (if na_rows a \<le> row then ([], r)
      else case reader_start r a row of
             None \<Rightarrow> ([], r)
           | Some (at, steps) \<Rightarrow>
               (case skip_names memchr (na_bytes a) steps at of
                  None \<Rightarrow> ([], r)
                | Some at \<Rightarrow>
                    (case get_from (na_bytes a) at of
                       None \<Rightarrow> ([], r)
                     | Some rest \<Rightarrow>
                         (case memchr 0 rest of
                            None \<Rightarrow> ([], r)
                          | Some n \<Rightarrow>
                              (case from_utf8 (take n rest) of Some s \<Rightarrow> s | None \<Rightarrow> [],
                               \<lparr>rd_at = at, rd_row = row, rd_placed = True\<rparr>)))))"

section \<open>What the writer holds\<close>

definition terminated :: "bytes list \<Rightarrow> bytes" where
  "terminated ns = concat (map (\<lambda>n. n @ [0]) ns)"

definition name_start :: "bytes list \<Rightarrow> nat \<Rightarrow> nat" where
  "name_start ns i = length (terminated (take i ns))"

definition block_starts :: "bytes list \<Rightarrow> u32 list" where
  "block_starts ns = map (\<lambda>i. as_u32 (name_start ns i)) (filter (\<lambda>i. i mod BLOCK = 0) [0 ..< length ns])"

definition names_written :: "(bytes \<Rightarrow> bytes) \<Rightarrow> bytes list \<Rightarrow> name_writer" where
  "names_written fold_bytes ns = foldl (\<lambda>w n. fst (push_and_fold fold_bytes w n)) name_writer_new ns"

lemma terminated_append: "terminated (as @ bs) = terminated as @ terminated bs"
  by (simp add: terminated_def)

lemma block_starts_snoc:
  "block_starts (ns @ [n]) = block_starts ns @ (if length ns mod BLOCK = 0 then [as_u32 (length (terminated ns))] else [])"
proof -
  have "map (\<lambda>i. as_u32 (name_start (ns @ [n]) i)) (filter (\<lambda>i. i mod BLOCK = 0) [0 ..< length ns]) = block_starts ns"
    unfolding block_starts_def by (rule map_cong) (auto simp: name_start_def)
  then show ?thesis by (simp add: block_starts_def name_start_def)
qed

lemma names_written:
  "names_written fold_bytes ns = \<lparr>nw_bytes = terminated ns, nw_blocks = block_starts ns, nw_rows = length ns,
     nw_folded = terminated (map fold_bytes ns), nw_folded_blocks = block_starts (map fold_bytes ns)\<rparr>"
proof (induction ns rule: rev_induct)
  case Nil
  then show ?case by (simp add: names_written_def name_writer_new_def terminated_def block_starts_def)
next
  case (snoc n ns)
  have step: "names_written fold_bytes (ns @ [n]) = fst (push_and_fold fold_bytes (names_written fold_bytes ns) n)"
    by (simp add: names_written_def)
  show ?case
    unfolding step snoc push_and_fold_def Let_def map_append list.map block_starts_snoc
    by (simp add: terminated_append) (simp add: terminated_def)
qed

lemma pushed_fold: "snd (push_and_fold fold_bytes w name) = fold_bytes name"
  by (simp add: push_and_fold_def Let_def)

text \<open>The header written in place is the ordinary one.\<close>

lemma copy_at_append: "length xs = i \<Longrightarrow> length ys = length zs \<Longrightarrow> copy_at i ys (xs @ zs @ rest) = xs @ ys @ rest"
  by (simp add: copy_at_def)

lemma write_slots:
  "length xs = at \<Longrightarrow> write_slots at blocks (xs @ replicate (length blocks * 4) 0 @ rest)
     = xs @ concat (map (le_bytes 4) blocks) @ rest"
proof (induction blocks arbitrary: at xs)
  case (Cons b blocks)
  have "replicate (length (b # blocks) * 4) (0 :: u8) = replicate 4 0 @ replicate (length blocks * 4) 0"
    by (simp add: replicate_add [symmetric] add.commute)
  then have "copy_at at (le_bytes 4 b) (xs @ replicate (length (b # blocks) * 4) 0 @ rest)
      = (xs @ le_bytes 4 b) @ replicate (length blocks * 4) 0 @ rest"
    using copy_at_append [of xs at "le_bytes 4 b" "replicate 4 0" "replicate (length blocks * 4) 0 @ rest"] Cons.prems
    by simp
  then show ?case using Cons.IH [of "xs @ le_bytes 4 b" "at + 4"] Cons.prems by simp
qed simp

lemma pack_in_place: "pack_in_place rows blocks bs = name_pack rows blocks bs"
proof -
  let ?h = "8 + length blocks * 4"
  have "rotate_right ?h (bs @ replicate ?h 0) = replicate ?h 0 @ bs"
    by (simp add: rotate_right_def)
  also have "\<dots> = [] @ replicate 4 0 @ (replicate 4 0 @ replicate (length blocks * 4) 0 @ bs)"
  proof -
    have "replicate ?h (0 :: u8) = replicate 4 0 @ replicate 4 0 @ replicate (length blocks * 4) 0"
      by (simp only: replicate_add [symmetric]) simp
    then show ?thesis by simp
  qed
  finally have r: "rotate_right ?h (bs @ replicate ?h 0) = \<dots>" .
  have c0: "copy_at 0 (le_bytes 4 (as_u32 rows)) \<dots>
      = le_bytes 4 (as_u32 rows) @ replicate 4 0 @ (replicate (length blocks * 4) 0 @ bs)"
    by (subst copy_at_append) simp_all
  have c4: "copy_at 4 (le_bytes 4 (as_u32 (length blocks)))
      (le_bytes 4 (as_u32 rows) @ replicate 4 0 @ (replicate (length blocks * 4) 0 @ bs))
      = le_bytes 4 (as_u32 rows) @ le_bytes 4 (as_u32 (length blocks)) @ (replicate (length blocks * 4) 0 @ bs)"
    by (subst copy_at_append) simp_all
  have "write_slots 8 blocks ((le_bytes 4 (as_u32 rows) @ le_bytes 4 (as_u32 (length blocks)))
      @ replicate (length blocks * 4) 0 @ bs)
      = (le_bytes 4 (as_u32 rows) @ le_bytes 4 (as_u32 (length blocks))) @ concat (map (le_bytes 4) blocks) @ bs"
    by (rule write_slots) simp
  then show ?thesis
    unfolding pack_in_place_def Let_def r c0 c4 by (simp add: name_pack_def)
qed

section \<open>Reading an arena back\<close>

definition names_fit :: "bytes list \<Rightarrow> bool" where
  "names_fit ns \<longleftrightarrow> (\<forall>n \<in> set ns. 0 \<notin> set n) \<and> length ns < 2 ^ 32 \<and> length (terminated ns) < 2 ^ 32"

definition arena_of :: "bytes list \<Rightarrow> name_arena" where
  "arena_of ns = \<lparr>na_rows = length ns, na_blocks = concat (map (le_bytes 4) (block_starts ns)),
     na_bytes = terminated ns\<rparr>"

lemma arena_of_simps [simp]:
  "na_rows (arena_of ns) = length ns" "na_bytes (arena_of ns) = terminated ns"
  "na_blocks (arena_of ns) = concat (map (le_bytes 4) (block_starts ns))"
  by (simp_all add: arena_of_def)

lemma block_starts_eq:
  "block_starts ns = map (\<lambda>b. as_u32 (name_start ns (b * BLOCK))) [0 ..< (length ns + 31) div BLOCK]"
  using every_nth [of BLOCK "length ns"] by (simp add: block_starts_def o_def)

lemma name_start_le: "name_start ns i \<le> length (terminated ns)"
  using terminated_append [of "take i ns" "drop i ns"] by (simp add: name_start_def)

lemma arena_open_pack:
  assumes "names_fit ns"
  shows "arena_open (name_pack (length ns) (block_starts ns) (terminated ns)) = Some (arena_of ns)"
proof -
  let ?f = "name_pack (length ns) (block_starts ns) (terminated ns)"
  let ?b = "concat (map (le_bytes 4) (block_starts ns))" and ?n = "length (block_starts ns)"
  have len: "length ?b = 4 * ?n" by (subst length_concat_map_const [where k = 4]) simp_all
  have n: "length ns < 2 ^ 32" "?n < 2 ^ 32"
    using assms by (auto simp: names_fit_def block_starts_eq)
  have h0: "u32_at ?f 0 = Some (as_u32 (length ns))" unfolding name_pack_def by (rule u32_at_0)
  have h4: "u32_at ?f 4 = Some (as_u32 ?n)" unfolding name_pack_def by (rule u32_at_append) simp
  have d8: "drop 8 ?f = ?b @ terminated ns" by (simp add: name_pack_def)
  have "drop (8 + ?n * 4) ?f = drop (?n * 4) (drop 8 ?f)" by (simp add: add.commute)
  then have d: "drop (8 + ?n * 4) ?f = terminated ns" unfolding d8 using len by simp
  have "8 + ?n * 4 \<le> length ?f" unfolding name_pack_def length_append len by simp
  moreover have "take (8 + ?n * 4 - 8) (drop 8 ?f) = ?b" unfolding d8 using len by simp
  moreover have "\<not> length ?f < 8" by (simp add: name_pack_def)
  ultimately show ?thesis
    unfolding arena_open_def h0 h4 bind.bind_lunit unat_u32 [OF n(1)] unat_u32 [OF n(2)] Let_def
    using d by (simp add: arena_of_def)
qed

lemma block_start_of:
  assumes "names_fit ns" "row < length ns"
  shows "block_start (arena_of ns) (row div BLOCK) = Some (name_start ns (row div BLOCK * BLOCK))"
proof -
  have b: "row div BLOCK < (length ns + 31) div BLOCK" using assms(2) by linarith
  have "name_start ns (row div BLOCK * BLOCK) < 2 ^ 32"
    using name_start_le [of ns "row div BLOCK * BLOCK"] assms(1) by (simp add: names_fit_def)
  then show ?thesis
    using u32_at_array [of "row div BLOCK" "block_starts ns" "[]"] b
    by (simp add: block_start_def block_starts_eq unat_u32 mult.commute)
qed

lemma read_name:
  assumes "memchr_law memchr" "names_fit ns" "i < length ns"
  shows "\<exists>rest. get_from (terminated ns) (name_start ns i) = Some (ns ! i @ 0 # rest)
      \<and> memchr 0 (ns ! i @ 0 # rest) = Some (length (ns ! i))"
    and "name_start ns (Suc i) = name_start ns i + length (ns ! i) + 1"
    and "get_range (terminated ns) (name_start ns i) (name_start ns i + length (ns ! i)) = Some (ns ! i)"
proof -
  have split: "terminated ns = terminated (take i ns) @ (ns ! i @ 0 # terminated (drop (Suc i) ns))"
    using id_take_nth_drop [OF assms(3)] terminated_append [of "take i ns" "ns ! i # drop (Suc i) ns"]
    by (simp add: terminated_def)
  have zero: "0 \<notin> set (ns ! i)" using assms(2,3) by (simp add: names_fit_def)
  then have "takeWhile (\<lambda>c. c \<noteq> 0) (ns ! i @ 0 # rest) = ns ! i" for rest
    by (simp add: takeWhile_append2 takeWhile_tail)
      (metis takeWhile_append2 append_Nil2 takeWhile.simps(2))
  then have "memchr 0 (ns ! i @ 0 # rest) = Some (length (ns ! i))" for rest
    using assms(1) by (simp add: memchr_law_def)
  moreover have "get_from (terminated ns) (name_start ns i) = Some (ns ! i @ 0 # terminated (drop (Suc i) ns))"
    unfolding split name_start_def by (rule get_from_append) simp
  ultimately show "\<exists>rest. get_from (terminated ns) (name_start ns i) = Some (ns ! i @ 0 # rest)
      \<and> memchr 0 (ns ! i @ 0 # rest) = Some (length (ns ! i))" by blast
  show "name_start ns (Suc i) = name_start ns i + length (ns ! i) + 1"
    using assms(3) by (simp add: name_start_def take_Suc_conv_app_nth terminated_append) (simp add: terminated_def)
  show "get_range (terminated ns) (name_start ns i) (name_start ns i + length (ns ! i)) = Some (ns ! i)"
    unfolding split name_start_def by (rule get_range_append) simp_all
qed

lemma skip_names_rows:
  assumes "memchr_law memchr" "names_fit ns"
  shows "i + k \<le> length ns \<Longrightarrow> skip_names memchr (terminated ns) k (name_start ns i) = Some (name_start ns (i + k))"
proof (induction k arbitrary: i)
  case (Suc k)
  then have i: "i < length ns" by simp
  obtain rest where r: "get_from (terminated ns) (name_start ns i) = Some (ns ! i @ 0 # rest)"
    "memchr 0 (ns ! i @ 0 # rest) = Some (length (ns ! i))"
    using read_name(1) [OF assms i] by blast
  show ?case using r read_name(2) [OF assms i] Suc.IH [of "Suc i"] Suc.prems by simp
qed simp

lemma arena_get_of:
  assumes "memchr_law memchr" "names_fit ns"
  shows "arena_get memchr (arena_of ns) row = (if row < length ns then from_utf8 (ns ! row) else None)"
proof (cases "row < length ns")
  case True
  have "skip_names memchr (terminated ns) (row mod BLOCK) (name_start ns (row div BLOCK * BLOCK)) = Some (name_start ns row)"
    using skip_names_rows [OF assms, of "row div BLOCK * BLOCK" "row mod BLOCK"] True
    by (simp add: div_mult_mod_eq less_imp_le)
  then show ?thesis
    using True read_name [OF assms True] block_start_of [OF assms(2) True] by (auto simp: arena_get_def)
qed (simp add: arena_get_def)

text \<open>Calling back over a list until told to stop.\<close>

fun run_while :: "('s \<Rightarrow> nat \<Rightarrow> bytes \<Rightarrow> 's \<times> bool) \<Rightarrow> (nat \<times> bytes) list \<Rightarrow> 's \<Rightarrow> 's" where
  "run_while f [] s = s"
| "run_while f ((row, name) # rest) s =
     (let (s, go) = f s row name in if go then run_while f rest s else s)"

lemma walk_loop_rows:
  assumes "memchr_law memchr" "names_fit ns"
  shows "row + k \<le> length ns \<Longrightarrow> walk_loop memchr (terminated ns) f k row (name_start ns row) s
    = run_while f (map (\<lambda>i. (i, ns ! i)) [row ..< row + k]) s"
proof (induction k arbitrary: row s)
  case (Suc k)
  then have i: "row < length ns" by simp
  obtain rest where r: "get_from (terminated ns) (name_start ns row) = Some (ns ! row @ 0 # rest)"
    "memchr 0 (ns ! row @ 0 # rest) = Some (length (ns ! row))"
    using read_name(1) [OF assms i] by blast
  have "[row ..< row + Suc k] = row # [Suc row ..< Suc row + k]" by (simp add: upt_conv_Cons del: upt_Suc)
  then show ?case
    using r read_name(2) [OF assms i] Suc.IH [of "Suc row"] Suc.prems
    by (simp add: Let_def split: prod.split del: upt_Suc)
qed simp

lemma walk_range_of:
  assumes "memchr_law memchr" "names_fit ns"
  shows "walk_range memchr (arena_of ns) from to f s
    = run_while f (map (\<lambda>i. (i, ns ! i)) [from ..< min to (length ns)]) s"
proof (cases "min to (length ns) \<le> from")
  case False
  then have row: "from < length ns" by simp
  have "skip_names memchr (terminated ns) (from mod BLOCK) (name_start ns (from div BLOCK * BLOCK)) = Some (name_start ns from)"
    using skip_names_rows [OF assms, of "from div BLOCK * BLOCK" "from mod BLOCK"] row
    by (simp add: div_mult_mod_eq less_imp_le)
  then show ?thesis
    using False block_start_of [OF assms(2) row] walk_loop_rows [OF assms, of "from" "min to (length ns) - from" f s]
    by (simp add: walk_range_def Let_def)
qed (simp add: walk_range_def)

subsection \<open>The reader and its place\<close>

definition reader_ok :: "bytes list \<Rightarrow> reader \<Rightarrow> bool" where
  "reader_ok ns r \<longleftrightarrow> (rd_placed r \<longrightarrow> rd_row r < length ns \<and> rd_at r = name_start ns (rd_row r))"

lemma reader_default_ok: "reader_ok ns reader_default"
  by (simp add: reader_ok_def reader_default_def)

lemma reader_at_of:
  assumes "memchr_law memchr" "names_fit ns" "reader_ok ns r" "reader_at memchr (arena_of ns) row r = (s, r')"
  shows "s = (case arena_get memchr (arena_of ns) row of Some n \<Rightarrow> n | None \<Rightarrow> [])" and "reader_ok ns r'"
proof -
  have "s = (case arena_get memchr (arena_of ns) row of Some n \<Rightarrow> n | None \<Rightarrow> []) \<and> reader_ok ns r'"
  proof (cases "row < length ns")
    case True
    obtain start k where st: "reader_start r (arena_of ns) row = Some (name_start ns start, k)" "start + k = row"
    proof (cases "rd_row r \<le> row \<and> rd_placed r \<and> row - rd_row r \<le> row mod BLOCK")
      case ahead: True
      then have "rd_at r = name_start ns (rd_row r)" using assms(3) by (simp add: reader_ok_def)
      then show ?thesis using that [of "rd_row r" "row - rd_row r"] ahead by (simp add: reader_start_def)
    next
      case False
      then show ?thesis
        using that [of "row div BLOCK * BLOCK" "row mod BLOCK"] block_start_of [OF assms(2) True]
        by (auto simp: reader_start_def div_mult_mod_eq)
    qed
    have skip: "skip_names memchr (terminated ns) k (name_start ns start) = Some (name_start ns row)"
      using skip_names_rows [OF assms(1,2), of start k] st(2) True by simp
    obtain rest where r: "get_from (terminated ns) (name_start ns row) = Some (ns ! row @ 0 # rest)"
      "memchr 0 (ns ! row @ 0 # rest) = Some (length (ns ! row))"
      using read_name(1) [OF assms(1,2) True] by blast
    show ?thesis
      using assms(4) True st(1) skip r by (auto simp: reader_at_def arena_get_of [OF assms(1,2)] reader_ok_def)
  next
    case False
    then show ?thesis using assms(3,4) by (auto simp: reader_at_def arena_get_def)
  qed
  then show "s = (case arena_get memchr (arena_of ns) row of Some n \<Rightarrow> n | None \<Rightarrow> [])" "reader_ok ns r'" by blast+
qed

text \<open>Any sequence of reads through one reader.\<close>

fun read_rows :: "(u8 \<Rightarrow> bytes \<Rightarrow> nat option) \<Rightarrow> name_arena \<Rightarrow> nat list \<Rightarrow> reader \<Rightarrow> bytes list" where
  "read_rows memchr a [] r = []"
| "read_rows memchr a (row # rows) r =
     (let (s, r) = reader_at memchr a row r in s # read_rows memchr a rows r)"

lemma read_rows_of:
  assumes "memchr_law memchr" "names_fit ns"
  shows "reader_ok ns r \<Longrightarrow> read_rows memchr (arena_of ns) rows r
    = map (\<lambda>row. case arena_get memchr (arena_of ns) row of Some n \<Rightarrow> n | None \<Rightarrow> []) rows"
proof (induction rows arbitrary: r)
  case (Cons row rows)
  obtain s r' where r: "reader_at memchr (arena_of ns) row r = (s, r')" by fastforce
  show ?case
    using reader_at_of [OF assms Cons.prems r] Cons.IH [of r'] r by simp
qed simp

section \<open>The arena as a table file\<close>

definition name_file :: "(bytes \<Rightarrow> bytes) \<Rightarrow> bytes list \<Rightarrow> bytes" where
  "name_file fold_bytes ns = fst (name_finish_both (names_written fold_bytes ns))"

lemma name_file_open:
  "names_fit ns \<Longrightarrow> arena_open (name_file fold_bytes ns) = Some (arena_of ns)"
  using arena_open_pack [of ns] by (simp add: name_file_def name_finish_both_def names_written pack_in_place)

definition names_text :: "bytes list \<Rightarrow> bool" where
  "names_text ns \<longleftrightarrow> names_fit ns \<and> (\<forall>n \<in> set ns. utf8_valid n)"

interpretation names: table_file "name_file fold_bytes" arena_open na_rows "arena_get memchr" "\<lambda>ns. ns"
  "\<lambda>ns. memchr_law memchr \<and> names_text ns"
  for memchr fold_bytes
proof
  fix ns t i
  assume ok: "memchr_law memchr \<and> names_text ns"
  then have fit: "names_fit ns" by (simp add: names_text_def)
  then show "\<exists>t. arena_open (name_file fold_bytes ns) = Some t" using name_file_open by blast
  assume "arena_open (name_file fold_bytes ns) = Some t"
  then have t: "t = arena_of ns" using name_file_open [OF fit] by simp
  then show "na_rows t = length ns" by simp
  assume "i < length ns"
  then show "arena_get memchr t i = Some (ns ! i)"
    using ok t arena_get_of [of memchr ns i] fit by (simp add: names_text_def from_utf8_def)
qed

section \<open>Properties\<close>

text \<open>
  C33: both arenas read back what was pushed.  The two files \<open>finish_both\<close> makes inside the
  payloads' own allocations are byte for byte the ordinary ones; opened, the first gives
  every name as spelled and the second every name as folded, by the same row number.
\<close>

theorem arenas_roundtrip:
  assumes "memchr_law memchr" "names_text ns" "names_text (map fold_bytes ns)"
    and "name_finish_both (names_written fold_bytes ns) = (spelled, folded)" "i < length ns"
  shows "spelled = name_finish (names_written fold_bytes ns)
    \<and> folded = name_finish_folded (names_written fold_bytes ns)
    \<and> (\<exists>a b. arena_open spelled = Some a \<and> arena_get memchr a i = Some (ns ! i)
        \<and> arena_open folded = Some b \<and> arena_get memchr b i = Some (fold_bytes (ns ! i)))"
proof -
  have files: "spelled = name_pack (length ns) (block_starts ns) (terminated ns)"
    "folded = name_pack (length ns) (block_starts (map fold_bytes ns)) (terminated (map fold_bytes ns))"
    using assms(4) by (simp_all add: name_finish_both_def names_written pack_in_place)
  have fit: "names_fit ns" "names_fit (map fold_bytes ns)" using assms(2,3) by (simp_all add: names_text_def)
  have "arena_get memchr (arena_of ns) i = Some (ns ! i)"
    using assms(2,5) by (simp add: arena_get_of [OF assms(1) fit(1)] from_utf8_def names_text_def)
  moreover have "arena_get memchr (arena_of (map fold_bytes ns)) i = Some (fold_bytes (ns ! i))"
    using assms(3,5) by (simp add: arena_get_of [OF assms(1) fit(2)] from_utf8_def names_text_def)
  ultimately show ?thesis
    using files arena_open_pack [OF fit(1)] arena_open_pack [OF fit(2)]
    by (simp add: name_finish_def name_finish_folded_def names_written)
qed

text \<open>The concrete search the witnesses use.\<close>

definition first_index :: "u8 \<Rightarrow> bytes \<Rightarrow> nat option" where
  "first_index b bs = (let n = length (takeWhile (\<lambda>c. c \<noteq> b) bs) in if n < length bs then Some n else None)"

lemma first_index_law: "memchr_law first_index"
  by (simp add: memchr_law_def first_index_def)

theorem arenas_roundtrip_witness:
  "\<exists>a. arena_open (fst (name_finish_both (names_written (map ascii_lower) [str ''Ab'', str ''c'']))) = Some a
    \<and> arena_get first_index a 0 = Some (str ''Ab'')"
proof -
  let ?ns = "[str ''Ab'', str ''c'']"
  have "map (map ascii_lower) ?ns = [str ''ab'', str ''c'']" by (simp add: ascii_lower_def)
  then have ok: "names_text ?ns" "names_text (map (map ascii_lower) ?ns)"
    by (simp_all add: names_text_def names_fit_def terminated_def utf8_valid_ascii)
  obtain x y where "name_finish_both (names_written (map ascii_lower) ?ns) = (x, y)" by fastforce
  with arenas_roundtrip [OF first_index_law ok this, of 0] show ?thesis by auto
qed

text \<open>
  A reader is a cache that cannot be wrong.  Rows read through one \<open>Reader\<close> in any order,
  each leaving the place where the next starts, are what \<open>get\<close> gives for each row alone,
  and the empty text where \<open>get\<close> gives nothing.
\<close>

theorem reader_agrees:
  assumes "memchr_law memchr" "names_fit ns" "arena_open (name_file fold_bytes ns) = Some a"
  shows "read_rows memchr a rows reader_default
    = map (\<lambda>row. case arena_get memchr a row of Some n \<Rightarrow> n | None \<Rightarrow> []) rows"
  using name_file_open [OF assms(2), of fold_bytes] assms(3)
    read_rows_of [OF assms(1,2) reader_default_ok] by simp

theorem reader_agrees_witness:
  "\<exists>a. arena_open (name_file (map ascii_lower) [str ''a'', str ''b'']) = Some a
    \<and> read_rows first_index a [1, 0] reader_default = [str ''b'', str ''a'']"
proof -
  let ?ns = "[str ''a'', str ''b'']"
  have fit: "names_fit ?ns" by (simp add: names_fit_def terminated_def)
  have a: "arena_open (name_file (map ascii_lower) ?ns) = Some (arena_of ?ns)" by (rule name_file_open [OF fit])
  have "map (\<lambda>row. case arena_get first_index (arena_of ?ns) row of Some n \<Rightarrow> n | None \<Rightarrow> []) [1, 0]
      = [str ''b'', str ''a'']"
    unfolding arena_get_of [OF first_index_law fit] by (simp add: from_utf8_def utf8_valid_ascii)
  then show ?thesis
    using reader_agrees [OF first_index_law fit a, of "[1, 0]"] a by metis
qed

text \<open>
  The walk hands over exactly the rows asked for.  \<open>walk_range\<close> calls back with every
  row from the first to the last asked for that the arena holds, in order, with its bytes,
  and stops as soon as the callback says so.
\<close>

theorem walk_range_rows:
  assumes "memchr_law memchr" "names_fit ns" "arena_open (name_file fold_bytes ns) = Some a"
  shows "walk_range memchr a from to f s = run_while f (map (\<lambda>i. (i, ns ! i)) [from ..< min to (na_rows a)]) s"
  using name_file_open [OF assms(2), of fold_bytes] assms(3) walk_range_of [OF assms(1,2)] by simp

theorem walk_range_rows_witness:
  "\<exists>a. arena_open (name_file (map ascii_lower) [str ''a'', str ''b'', str ''c'']) = Some a
    \<and> walk_range first_index a 1 9 (\<lambda>s row n. (s @ [(row, n)], row < 1)) [] = [(1, str ''b'')]"
proof -
  let ?ns = "[str ''a'', str ''b'', str ''c'']"
  have fit: "names_fit ?ns" by (simp add: names_fit_def terminated_def)
  have a: "arena_open (name_file (map ascii_lower) ?ns) = Some (arena_of ?ns)" by (rule name_file_open [OF fit])
  show ?thesis
    using walk_range_rows [OF first_index_law fit a, of 1 9 "\<lambda>s row n. (s @ [(row, n)], row < 1)" "[]"] a
    by (simp add: upt_rec)
qed

end
