(* ===== verification/Ids.thy ===== *)
theory Ids
  imports Prelude "HOL-Library.Multiset" "HOL-Library.Product_Lexorder"
begin

text \<open>
  Finding a row by its path: \<open>crates/scour-index-native/src/ids.rs\<close>, with \<open>path_digest\<close> of
  \<open>crates/scour-core/src/types/entry.rs\<close>.

  A table pairs the top half of a path's digest with a row number, sorted.  \<open>id_push\<close> and
  \<open>id_finish\<close> write it, \<open>id_open\<close>, \<open>hash_at\<close>, \<open>row_at\<close> and \<open>rows_for\<close> read it.  The lemmas
  show that a lookup gives exactly the rows pushed under the half-digest asked for, so a
  path's own row is always among its candidates.
\<close>

section \<open>The digest\<close>

text \<open>\<open>path.as_bytes().chunks(8)\<close>.\<close>

function chunks8 :: "bytes \<Rightarrow> bytes list" where
  "chunks8 bs = (if bs = [] then [] else take 8 bs # chunks8 (drop 8 bs))"
  by pat_completeness auto
termination
  by (relation "measure length") auto

declare chunks8.simps [simp del]

definition pad8 :: "bytes \<Rightarrow> bytes" where
  "pad8 chunk = chunk @ replicate (8 - length chunk) 0"

definition SEED :: u64 where
  "SEED = 0x517cc1b727220a95"

text \<open>Rotating left by five: the top five bits come back at the bottom.\<close>

definition rotate_left5 :: "u64 \<Rightarrow> u64" where
  "rotate_left5 h = push_bit 5 h OR drop_bit 59 h"

definition path_digest :: "u32 \<Rightarrow> bytes \<Rightarrow> u64" where
  "path_digest source path =
     foldl (\<lambda>h chunk. (rotate_left5 h XOR le_word (pad8 chunk)) * SEED) (ucast source) (chunks8 path)"

definition narrow :: "u64 \<Rightarrow> u32" where
  "narrow d = ucast (drop_bit 32 d)"

definition key_of :: "u32 \<Rightarrow> bytes \<Rightarrow> u32" where
  "key_of source path = narrow (path_digest source path)"

section \<open>The table\<close>

text \<open>\<open>IdWriter\<close>: the pairs, pushed in row order and sorted when written.\<close>

type_synonym id_writer = "(u32 \<times> u32) list"

definition id_push :: "id_writer \<Rightarrow> u32 \<Rightarrow> bytes \<Rightarrow> u32 \<Rightarrow> id_writer" where
  "id_push w source path row = w @ [(narrow (path_digest source path), row)]"

definition id_finish :: "id_writer \<Rightarrow> bytes" where
  "id_finish w =
     (let pairs = sort w
      in le_bytes 4 (as_u32 (length pairs)) @ concat (map pair_bytes pairs))"

record id_map =
  im_pairs :: bytes
  im_len :: nat

definition id_open :: "bytes \<Rightarrow> id_map option" where
  "id_open bs =
     (if length bs < 4 then None
      else Option.bind (u32_at bs 0) (\<lambda>len.
           Option.bind (get_range bs 4 (4 + unat len * 8)) (\<lambda>pairs.
             Some \<lparr>im_pairs = pairs, im_len = unat len\<rparr>)))"

definition hash_at :: "id_map \<Rightarrow> nat \<Rightarrow> u32 run" where
  "hash_at t i = (case u32_at (im_pairs t) (i * 8) of Some h \<Rightarrow> Ret h | None \<Rightarrow> Panic)"

definition row_at :: "id_map \<Rightarrow> nat \<Rightarrow> u32 run" where
  "row_at t i = (case u32_at (im_pairs t) (i * 8 + 4) of Some r \<Rightarrow> Ret r | None \<Rightarrow> Panic)"

definition id_at :: "id_map \<Rightarrow> nat \<Rightarrow> (u32 \<times> u32) run" where
  "id_at t i = bind_run (hash_at t i) (\<lambda>h. bind_run (row_at t i) (\<lambda>r. Ret (h, r)))"

text \<open>The search for the first pair, then the pairs while the hash is the one wanted.\<close>

function hash_search :: "id_map \<Rightarrow> u32 \<Rightarrow> nat \<Rightarrow> nat \<Rightarrow> nat run" where
  "hash_search t want lo hi =
     (if lo < hi
      then let mid = lo + (hi - lo) div 2
           in bind_run (hash_at t mid) (\<lambda>h.
                if h < want then hash_search t want (mid + 1) hi else hash_search t want lo mid)
      else Ret lo)"
  by pat_completeness auto
termination
  by (relation "measure (\<lambda>(t, want, lo, hi). hi - lo)") auto

declare hash_search.simps [simp del]

fun rows_while :: "id_map \<Rightarrow> u32 \<Rightarrow> nat list \<Rightarrow> u32 list run" where
  "rows_while t want [] = Ret []"
| "rows_while t want (i # is) =
     bind_run (hash_at t i) (\<lambda>h.
       if h = want then bind_run (row_at t i) (\<lambda>r. bind_run (rows_while t want is) (\<lambda>rs. Ret (r # rs)))
       else Ret [])"

definition rows_for :: "id_map \<Rightarrow> u32 \<Rightarrow> u32 list run" where
  "rows_for t want = bind_run (hash_search t want 0 (im_len t)) (\<lambda>lo. rows_while t want [lo ..< im_len t])"

definition id_candidates :: "id_map \<Rightarrow> u32 \<Rightarrow> bytes \<Rightarrow> u32 list run" where
  "id_candidates t source path = rows_for t (narrow (path_digest source path))"

section \<open>What a lookup gives\<close>

definition ids_fit :: "(u32 \<times> u32) list \<Rightarrow> bool" where
  "ids_fit w \<longleftrightarrow> length w < 2 ^ 32"

definition id_view :: "(u32 \<times> u32) list \<Rightarrow> id_map" where
  "id_view ps = \<lparr>im_pairs = concat (map pair_bytes ps), im_len = length ps\<rparr>"

lemma id_open_finish:
  assumes "ids_fit w"
  shows "id_open (id_finish w) = Some (id_view (sort w))"
proof -
  have n: "unat (as_u32 (length (sort w))) = length (sort w)"
    by (rule unat_u32) (use assms in \<open>simp add: ids_fit_def\<close>)
  have h: "u32_at (id_finish w) 0 = Some (as_u32 (length (sort w)))"
    unfolding id_finish_def Let_def by (rule u32_at_0)
  have r: "get_range (id_finish w) 4 (4 + length (sort w) * 8) = Some (concat (map pair_bytes (sort w)))"
    unfolding id_finish_def Let_def get_range_def using length_pairs [of "sort w"] by simp
  show ?thesis
    unfolding id_open_def h bind.bind_lunit n r by (simp add: id_finish_def Let_def id_view_def)
qed

lemma id_view_at:
  assumes "i < length ps"
  shows "hash_at (id_view ps) i = Ret (fst (ps ! i))" and "row_at (id_view ps) i = Ret (snd (ps ! i))"
  using pair_at [OF assms] by (simp_all add: hash_at_def row_at_def id_view_def)

text \<open>The pairs are sorted by hash: the table meets the interface of a sorted table.\<close>

interpretation ids: sorted_table "length :: (u32 \<times> u32) list \<Rightarrow> nat" "\<lambda>ps i. fst (ps ! i)" sorted
proof
  fix ps :: "(u32 \<times> u32) list" and i j
  assume "sorted ps" "i \<le> j" "j < length ps"
  then have "ps ! i \<le> ps ! j" by (rule sorted_nth_mono)
  then show "fst (ps ! i) \<le> fst (ps ! j)" by (auto simp: less_eq_prod_def)
qed

lemma hash_search_view:
  "hi \<le> length ps \<Longrightarrow> hash_search (id_view ps) want lo hi = Ret (bsearch (\<lambda>i. fst (ps ! i) < want) lo hi)"
proof (induction "hi - lo" arbitrary: lo hi rule: less_induct)
  case less
  let ?mid = "lo + (hi - lo) div 2"
  show ?case
  proof (cases "lo < hi")
    case True
    then have mid: "?mid < hi" "?mid < length ps" "hi - (?mid + 1) < hi - lo" "?mid - lo < hi - lo"
      using less.prems by auto
    show ?thesis
      using less.hyps [of hi "?mid + 1"] less.hyps [of ?mid lo] less.prems True mid
      by (subst hash_search.simps, subst bsearch.simps) (simp add: Let_def id_view_at(1))
  qed (simp add: hash_search.simps)
qed

lemma rows_while_view:
  "\<forall>i \<in> set is. i < length ps \<Longrightarrow> rows_while (id_view ps) want is
     = Ret (map (\<lambda>i. snd (ps ! i)) (takeWhile (\<lambda>i. fst (ps ! i) = want) is))"
  by (induction "is") (simp_all add: id_view_at)

lemma rows_for_view:
  assumes "sorted ps"
  shows "rows_for (id_view ps) want = Ret (map snd (filter (\<lambda>p. fst p = want) ps))"
proof -
  have "rows_for (id_view ps) want = Ret (map (\<lambda>i. snd (ps ! i)) (filter (\<lambda>i. fst (ps ! i) = want) [0 ..< length ps]))"
    using hash_search_view [of "length ps" ps want 0]
      rows_while_view [of "[bsearch (\<lambda>i. fst (ps ! i) < want) 0 (length ps) ..< length ps]" ps want]
      ids.run_of_key [OF assms, of want]
    by (simp add: rows_for_def id_view_def)
  moreover have "filter (\<lambda>p. fst p = want) ps = map ((!) ps) (filter (\<lambda>i. fst (ps ! i) = want) [0 ..< length ps])"
  proof -
    have "filter (\<lambda>p. fst p = want) (map ((!) ps) [0 ..< length ps])
        = map ((!) ps) (filter (\<lambda>i. fst (ps ! i) = want) [0 ..< length ps])"
      by (simp add: filter_map o_def)
    then show ?thesis by (simp add: map_nth)
  qed
  ultimately show ?thesis by (simp add: o_def)
qed

text \<open>Every row of a segment pushed with its source and path, in row order.\<close>

definition id_table :: "(u32 \<times> bytes) list \<Rightarrow> id_writer" where
  "id_table rows = foldl (\<lambda>w (row, source, path). id_push w source path (as_u32 row)) [] (List.enumerate 0 rows)"

lemma id_table_eq:
  "id_table rows = map (\<lambda>(row, source, path). (key_of source path, as_u32 row)) (List.enumerate 0 rows)"
proof -
  have "foldl (\<lambda>w (row, source, path). id_push w source path (as_u32 row)) w xs
      = w @ map (\<lambda>(row, source, path). (key_of source path, as_u32 row)) xs" for w and xs :: "(nat \<times> u32 \<times> bytes) list"
    by (induction xs arbitrary: w) (auto simp: id_push_def key_of_def)
  then show ?thesis by (simp add: id_table_def)
qed

interpretation id_files: table_file id_finish id_open im_len
  "\<lambda>t i. case id_at t i of Ret p \<Rightarrow> Some p | Panic \<Rightarrow> None" sort ids_fit
proof
  fix w t i
  assume fit: "ids_fit w"
  then show "\<exists>t. id_open (id_finish w) = Some t" using id_open_finish by blast
  assume "id_open (id_finish w) = Some t"
  then have t: "t = id_view (sort w)" using id_open_finish [OF fit] by simp
  then show "im_len t = length (sort w)" by (simp add: id_view_def)
  assume "i < length (sort w)"
  then show "(case id_at t i of Ret p \<Rightarrow> Some p | Panic \<Rightarrow> None) = Some (sort w ! i)"
    unfolding t id_at_def by (simp add: id_view_at)
qed

section \<open>Properties\<close>

text \<open>
  C34: a lookup gives the rows of its key and no other.  In the table of any rows, the rows
  found under a half-digest are, counted with multiplicity and in ascending order, exactly
  the rows whose source and path have that half-digest; nothing panics.
\<close>

theorem id_lookup_exact:
  assumes "length rows < 2 ^ 32"
  shows "\<exists>t found. id_open (id_finish (id_table rows)) = Some t \<and> rows_for t want = Ret found
    \<and> mset found = mset (map as_u32 (filter (\<lambda>i. key_of (fst (rows ! i)) (snd (rows ! i)) = want) [0 ..< length rows]))
    \<and> sorted found"
proof -
  let ?w = "id_table rows"
  let ?found = "map snd (filter (\<lambda>p. fst p = want) (sort ?w))"
  have w: "?w = map (\<lambda>i. (key_of (fst (rows ! i)) (snd (rows ! i)), as_u32 i)) [0 ..< length rows]"
    unfolding id_table_eq by (rule nth_equalityI) (simp_all add: nth_enumerate_eq split: prod.splits)
  have fit: "ids_fit ?w" using assms by (simp add: ids_fit_def w)
  have "mset ?found = image_mset snd (filter_mset (\<lambda>p. fst p = want) (mset ?w))"
    by (simp only: mset_map mset_filter mset_sort)
  also have "\<dots> = mset (map snd (filter (\<lambda>p. fst p = want) ?w))" by (simp only: mset_map mset_filter)
  also have "map snd (filter (\<lambda>p. fst p = want) ?w)
      = map as_u32 (filter (\<lambda>i. key_of (fst (rows ! i)) (snd (rows ! i)) = want) [0 ..< length rows])"
    unfolding w by (simp add: filter_map o_def)
  finally have ms: "mset ?found = mset (map as_u32 (filter (\<lambda>i. key_of (fst (rows ! i)) (snd (rows ! i)) = want) [0 ..< length rows]))" .
  have "sorted (map snd (filter (\<lambda>p. fst p = want) ps))" if "sorted ps" for ps :: "(u32 \<times> u32) list"
    using that by (induction ps) (auto simp: less_eq_prod_def)
  then have "sorted ?found" by simp
  with ms show ?thesis
    using id_open_finish [OF fit] rows_for_view [of "sort ?w" want] by auto
qed

theorem id_lookup_exact_witness:
  "\<exists>t found. id_open (id_finish (id_table [(0, str ''/a''), (0, str ''/b'')])) = Some t
    \<and> rows_for t (key_of 0 (str ''/b'')) = Ret found \<and> 1 \<in> set found"
proof -
  obtain t found where t: "id_open (id_finish (id_table [(0, str ''/a''), (0, str ''/b'')])) = Some t"
    "rows_for t (key_of 0 (str ''/b'')) = Ret found"
    "mset found = mset (map as_u32 (filter (\<lambda>i. key_of (fst ([(0, str ''/a''), (0, str ''/b'')] ! i))
      (snd ([(0, str ''/a''), (0, str ''/b'')] ! i)) = key_of 0 (str ''/b'')) [0 ..< length [(0 :: u32, str ''/a''), (0, str ''/b'')]]))"
    using id_lookup_exact [of "[(0, str ''/a''), (0, str ''/b'')]" "key_of 0 (str ''/b'')"] by auto
  have "1 \<in> set found"
    using arg_cong [OF t(3), of set_mset] by (auto simp: upt_rec)
  with t(1,2) show ?thesis by blast
qed

text \<open>
  A path's own row is always a candidate.  Whatever else collides with it, the
  candidates of a source and path include the row pushed for them, so confirming each
  candidate finds the row whenever it is there.
\<close>

theorem own_row_is_candidate:
  assumes "length rows < 2 ^ 32" "i < length rows" "rows ! i = (source, path)"
  shows "\<exists>t found. id_open (id_finish (id_table rows)) = Some t
    \<and> id_candidates t source path = Ret found \<and> as_u32 i \<in> set found"
proof -
  let ?w = "id_table rows"
  have "?w ! i = (key_of source path, as_u32 i)" "i < length ?w"
    using assms(2,3) by (simp_all add: id_table_eq nth_enumerate_eq)
  then have "(key_of source path, as_u32 i) \<in> set (sort ?w)"
    using nth_mem [of i ?w] by simp
  then have "as_u32 i \<in> set (map snd (filter (\<lambda>p. fst p = key_of source path) (sort ?w)))" by force
  moreover have "ids_fit ?w" using assms(1) by (simp add: ids_fit_def id_table_eq)
  ultimately show ?thesis
    using id_open_finish rows_for_view [of "sort ?w" "key_of source path"]
    by (auto simp: id_candidates_def key_of_def)
qed

theorem own_row_is_candidate_witness:
  "\<exists>t found. id_open (id_finish (id_table [(0, str ''/a''), (0, str ''/b'')])) = Some t
    \<and> id_candidates t 0 (str ''/b'') = Ret found \<and> 1 \<in> set found"
  using own_row_is_candidate [of "[(0, str ''/a''), (0, str ''/b'')]" 1 0 "str ''/b''"] by simp

end
