(* ===== verification/Orders.thy ===== *)
theory Orders
  imports Dirs Names "HOL-Library.Product_Lexorder"
begin

text \<open>
  The stored row orders of a segment: \<open>order.rs\<close> (by path), \<open>name_order.rs\<close> (by folded name,
  with the starts of equal-name groups) and \<open>extension_order.rs\<close>, all of
  \<open>crates/scour-index-native/src\<close>.

  The lemmas show that comparing two rows half by half is comparing the paths they spell,
  that each file lists every row once in the order it promises, ties in row order, and that
  a group's start is found from any position in it.
\<close>

section \<open>Comparing and sorting\<close>

datatype ordering = Less | Equal | Greater

definition cmp :: "'a::linorder \<Rightarrow> 'a \<Rightarrow> ordering" where
  "cmp a b = (if a < b then Less else if a = b then Equal else Greater)"

text \<open>\<open>Ordering::then\<close>.\<close>

fun then_cmp :: "ordering \<Rightarrow> ordering \<Rightarrow> ordering" where
  "then_cmp Equal r = r"
| "then_cmp l r = l"

text \<open>\<open>sort_unstable_by\<close>: by insertion; under a total order every sort gives the same list.\<close>

fun insert_by :: "('a \<Rightarrow> 'a \<Rightarrow> ordering) \<Rightarrow> 'a \<Rightarrow> 'a list \<Rightarrow> 'a list" where
  "insert_by c x [] = [x]"
| "insert_by c x (y # ys) = (if c x y = Greater then y # insert_by c x ys else x # y # ys)"

definition sort_by :: "('a \<Rightarrow> 'a \<Rightarrow> ordering) \<Rightarrow> 'a list \<Rightarrow> 'a list" where
  "sort_by c xs = foldr (insert_by c) xs []"

lemma insert_by_key:
  "\<forall>y \<in> set ys. c x y = cmp (f x) (f y) \<Longrightarrow> insert_by c x ys = insort_key f x ys"
  by (induction ys) (auto simp: cmp_def not_less order.order_iff_strict)

lemma sort_by_key:
  "\<forall>x \<in> set xs. \<forall>y \<in> set xs. c x y = cmp (f x) (f y) \<Longrightarrow> sort_by c xs = sort_key f xs"
proof (induction xs)
  case (Cons x xs)
  then have "sort_by c xs = sort_key f xs" by simp
  then show ?case
    using insert_by_key [of "sort_key f xs" c x f] Cons.prems by (simp add: sort_by_def)
qed (simp add: sort_by_def)

lemma cmp_prod: "cmp (a, b) (c, d) = then_cmp (cmp a c) (cmp b d)"
  by (auto simp: cmp_def less_prod_def)

section \<open>Names in the arena\<close>

fun offsets_loop ::
  "(u8 \<Rightarrow> bytes \<Rightarrow> nat option) \<Rightarrow> bytes \<Rightarrow> nat \<Rightarrow> nat \<Rightarrow> u32 list \<Rightarrow> u32 list \<times> nat" where
  "offsets_loop memchr names 0 cursor at = (at, cursor)"
| "offsets_loop memchr names (Suc k) cursor at =
     (case memchr 0 (case get_from names cursor of Some rest \<Rightarrow> rest | None \<Rightarrow> []) of
        Some n \<Rightarrow> offsets_loop memchr names k (cursor + n + 1) (at @ [as_u32 cursor])
      | None \<Rightarrow> (at @ [as_u32 cursor], cursor))"

definition name_offsets :: "(u8 \<Rightarrow> bytes \<Rightarrow> nat option) \<Rightarrow> nat \<Rightarrow> bytes \<Rightarrow> u32 list" where
  "name_offsets memchr rows names =
     (let (at, cursor) = offsets_loop memchr names rows 0 []
      in take rows at @ replicate (rows - length at) (as_u32 cursor) @ [as_u32 cursor])"

text \<open>The closure \<open>name\<close> of both builds; the offsets have one entry more than there are rows.\<close>

definition name_slice :: "u32 list \<Rightarrow> bytes \<Rightarrow> u32 \<Rightarrow> bytes" where
  "name_slice at names row =
     (case get_range names (unat (at ! unat row)) (unat (at ! (unat row + 1)) - 1) of
        Some s \<Rightarrow> s | None \<Rightarrow> [])"

lemma offsets_loop_rows:
  assumes "memchr_law memchr" "names_fit ns"
  shows "i + k \<le> length ns \<Longrightarrow> offsets_loop memchr (terminated ns) k (name_start ns i)
      (map (\<lambda>j. as_u32 (name_start ns j)) [0 ..< i])
    = (map (\<lambda>j. as_u32 (name_start ns j)) [0 ..< i + k], name_start ns (i + k))"
proof (induction k arbitrary: i)
  case (Suc k)
  then have i: "i < length ns" by simp
  obtain rest where "get_from (terminated ns) (name_start ns i) = Some (ns ! i @ 0 # rest)"
    "memchr 0 (ns ! i @ 0 # rest) = Some (length (ns ! i))"
    using read_name(1) [OF assms i] by blast
  then show ?case using read_name(2) [OF assms i] Suc.IH [of "Suc i"] Suc.prems by simp
qed simp

lemma name_offsets_rows:
  assumes "memchr_law memchr" "names_fit ns"
  shows "name_offsets memchr (length ns) (terminated ns) = map (\<lambda>j. as_u32 (name_start ns j)) [0 ..< Suc (length ns)]"
  using offsets_loop_rows [OF assms, of 0 "length ns"] by (simp add: name_offsets_def name_start_def terminated_def)

lemma name_slice_rows:
  assumes "memchr_law memchr" "names_fit ns" "i < length ns"
  shows "name_slice (name_offsets memchr (length ns) (terminated ns)) (terminated ns) (as_u32 i) = ns ! i"
proof -
  have u: "unat (as_u32 i) = i" using assms(2,3) by (intro unat_u32) (simp add: names_fit_def)
  have s: "unat (as_u32 (name_start ns j)) = name_start ns j" for j
    using name_start_le [of ns j] assms(2) by (intro unat_u32) (simp add: names_fit_def)
  have at: "name_offsets memchr (length ns) (terminated ns) ! j = as_u32 (name_start ns j)" if "j \<le> length ns" for j
    using that by (simp add: name_offsets_rows [OF assms(1,2)] nth_append del: upt_Suc)
  have a: "unat (name_offsets memchr (length ns) (terminated ns) ! i) = name_start ns i"
    using at [of i] s [of i] assms(3) by simp
  have b: "unat (name_offsets memchr (length ns) (terminated ns) ! (i + 1)) - 1 = name_start ns i + length (ns ! i)"
    using at [of "i + 1"] s [of "i + 1"] assms(3) read_name(2) [OF assms] by (simp only: Suc_eq_plus1)
  show ?thesis
    unfolding name_slice_def u a b read_name(3) [OF assms] by simp
qed

section \<open>The path order\<close>

text \<open>Comparing \<open>ha + na\<close> with \<open>hb + nb\<close> without joining.\<close>

definition joined :: "bytes \<Rightarrow> bytes \<Rightarrow> bytes \<Rightarrow> bytes \<Rightarrow> ordering" where
  "joined ha na hb nb =
     (let m = min (length ha) (length hb)
      in case cmp (take m ha) (take m hb) of
           Equal \<Rightarrow>
             (case cmp (length ha) (length hb) of
                Equal \<Rightarrow> cmp na nb
              | Less \<Rightarrow> cmp na (drop m hb)
              | Greater \<Rightarrow> cmp (drop m ha) nb)
         | o' \<Rightarrow> o')"

definition head_of :: "bytes \<Rightarrow> u32 list \<Rightarrow> u32 list \<Rightarrow> u32 \<Rightarrow> bytes" where
  "head_of heads heads_at dir_of row =
     (let d = unat (dir_of ! unat row)
      in case (nth_opt heads_at d, nth_opt heads_at (d + 1)) of
           (Some a, Some b) \<Rightarrow> (case get_range heads (unat a) (unat b) of Some s \<Rightarrow> s | None \<Rightarrow> [])
         | _ \<Rightarrow> [])"

definition path_order_build ::
  "(u8 \<Rightarrow> bytes \<Rightarrow> nat option) \<Rightarrow> dir_table \<Rightarrow> u32 list \<Rightarrow> bytes \<Rightarrow> bytes run" where
  "path_order_build memchr dirs dir_of names =
     bind_run (join_prefixes dirs) (\<lambda>(heads, heads_at).
       let rows = length dir_of;
           name_at = name_offsets memchr rows names;
           head = head_of heads heads_at dir_of;
           name = name_slice name_at names;
           order = sort_by (\<lambda>a b. then_cmp (joined (head a) (name a) (head b) (name b)) (cmp a b))
                     (map as_u32 [0 ..< rows])
       in Ret (le_bytes 4 (as_u32 rows) @ concat (map (le_bytes 4) order)))"

record path_order =
  po_rows :: nat
  po_bytes :: bytes

definition path_order_open :: "bytes \<Rightarrow> path_order option" where
  "path_order_open bs =
     Option.bind (u32_at bs 0) (\<lambda>rows.
       if length bs \<noteq> 4 + unat rows * 4 then None
       else Some \<lparr>po_rows = unat rows, po_bytes = drop 4 bs\<rparr>)"

definition path_order_at :: "path_order \<Rightarrow> nat \<Rightarrow> u32 option" where
  "path_order_at t i =
     Option.bind (u32_at (po_bytes t) (i * 4)) (\<lambda>row. if unat row < po_rows t then Some row else None)"

lemma cmp_Cons: "cmp (x # xs) (y # ys) = (case cmp x y of Equal \<Rightarrow> cmp xs (ys :: bytes) | o' \<Rightarrow> o')"
  by (auto simp: cmp_def)

lemma cmp_append_same: "length xs = length ys \<Longrightarrow>
  cmp (xs @ a) (ys @ b) = (case cmp xs ys of Equal \<Rightarrow> cmp a (b :: bytes) | o' \<Rightarrow> o')"
proof (induction xs ys rule: list_induct2)
  case Nil
  then show ?case by (simp add: cmp_def [of "[]"])
next
  case (Cons x xs y ys)
  then show ?case by (simp add: cmp_Cons split: ordering.split)
qed

text \<open>A name holds no separator and what is left of a head ends with one.\<close>

lemma cmp_name_head:
  "SLASH \<notin> set na \<Longrightarrow> d \<noteq> [] \<Longrightarrow> last d = SLASH \<Longrightarrow> cmp na (d @ nb) = cmp na d"
proof (induction na arbitrary: d)
  case Nil
  then show ?case by (cases d) (auto simp: cmp_def)
next
  case (Cons a na)
  obtain x e where d: "d = x # e" using Cons.prems(2) by (cases d) auto
  show ?case
  proof (cases "a = x")
    case True
    then have "e \<noteq> []" using Cons.prems d by auto
    then have "cmp na (e @ nb) = cmp na e" using Cons.IH [of e] Cons.prems d by simp
    then show ?thesis using True d by (auto simp: cmp_def split: if_splits)
  qed (simp add: d cmp_def)
qed

lemma cmp_flip: "cmp b a = (case cmp a b of Less \<Rightarrow> Greater | Equal \<Rightarrow> Equal | Greater \<Rightarrow> Less)"
  by (auto simp: cmp_def)

lemma joined_cmp:
  assumes "SLASH \<notin> set na" "SLASH \<notin> set nb" "ha = [] \<or> last ha = SLASH" "hb = [] \<or> last hb = SLASH"
  shows "joined ha na hb nb = cmp (ha @ na) (hb @ nb)"
proof -
  consider "length ha = length hb" | "length ha < length hb" | "length hb < length ha" by linarith
  then show ?thesis
  proof cases
    case 1
    then show ?thesis
      using cmp_append_same [OF 1, of na nb] by (auto simp: joined_def Let_def cmp_def split: ordering.splits)
  next
    case 2
    let ?d = "drop (length ha) hb"
    have d: "?d \<noteq> []" "last ?d = SLASH" using 2 assms(4) by (auto simp: last_drop)
    have "cmp (ha @ na) (hb @ nb) = cmp (ha @ na) (take (length ha) hb @ (?d @ nb))"
      by (simp flip: append_assoc)
    also have "\<dots> = (case cmp ha (take (length ha) hb) of Equal \<Rightarrow> cmp na ?d | o' \<Rightarrow> o')"
      using cmp_append_same [of ha "take (length ha) hb" na "?d @ nb"] 2 cmp_name_head [OF assms(1) d]
      by (simp add: min_absorb2 split: ordering.split)
    moreover have "cmp (length ha) (length hb) = Less" using 2 by (simp add: cmp_def)
    ultimately show ?thesis
      using 2 by (simp add: joined_def Let_def min_absorb1 split: ordering.split)
  next
    case 3
    let ?d = "drop (length hb) ha"
    have d: "?d \<noteq> []" "last ?d = SLASH" using 3 assms(3) by (auto simp: last_drop)
    have "cmp (ha @ na) (hb @ nb) = cmp (take (length hb) ha @ (?d @ na)) (hb @ nb)"
      by (simp flip: append_assoc)
    also have "\<dots> = (case cmp (take (length hb) ha) hb of Equal \<Rightarrow> cmp (?d @ na) nb | o' \<Rightarrow> o')"
      using cmp_append_same [of "take (length hb) ha" hb "?d @ na" nb] 3 by (simp add: min_absorb2)
    also have "cmp (?d @ na) nb = cmp ?d nb"
      using cmp_name_head [OF assms(2) d, of na] cmp_flip [of "?d @ na" nb] cmp_flip [of ?d nb] by simp
    finally have "cmp (ha @ na) (hb @ nb) = (case cmp (take (length hb) ha) hb of Equal \<Rightarrow> cmp ?d nb | o' \<Rightarrow> o')" .
    moreover have "cmp (length ha) (length hb) = Greater" using 3 by (simp add: cmp_def)
    ultimately show ?thesis
      using 3 by (simp add: joined_def Let_def min_absorb2 split: ordering.split)
  qed
qed

lemma join_prefix_path: "join_prefix d @ n = join_path d n"
  by (simp add: join_prefix_def join_path_def)

lemma length_join_prefixes:
  assumes "dirs_small ps"
  shows "length (concat (map join_prefix (sorted_dirs ps))) < 2 ^ 32"
proof -
  let ?qs = "sorted_dirs ps"
  have "length (concat (map join_prefix ?qs)) \<le> sum_list (map (\<lambda>p. 20 + length p) ?qs)"
    unfolding length_concat map_map by (rule sum_list_mono) (simp add: join_prefix_def)
  also have "\<dots> = (\<Sum>p \<in> set ps. 20 + length p)"
    using sum.distinct_set_conv_list [of ?qs "\<lambda>p. 20 + length p"] by simp
  also have "\<dots> \<le> sum_list (map (\<lambda>p. 20 + length p) ps)" by (rule sum_set_le)
  finally show ?thesis using assms by (simp add: dirs_small_def)
qed

lemma head_of_view:
  fixes qs :: "bytes list"
  defines "heads \<equiv> concat (map join_prefix qs)"
    and "heads_at \<equiv> map (\<lambda>j. as_u32 (length (concat (map join_prefix (take j qs))))) [0 ..< Suc (length qs)]"
  assumes "length heads < 2 ^ 32" "unat (dir_of ! unat row) < length qs"
  shows "head_of heads heads_at dir_of row = join_prefix (qs ! unat (dir_of ! unat row))"
proof -
  let ?d = "unat (dir_of ! unat row)"
  let ?at = "\<lambda>j. length (concat (map join_prefix (take j qs)))"
  have split: "heads = concat (map join_prefix (take j qs)) @ concat (map join_prefix (drop j qs))" for j
    unfolding heads_def by (metis append_take_drop_id concat_append map_append)
  then have "?at j \<le> length heads" for j by (metis length_append le_add1)
  then have u: "unat (as_u32 (?at j)) = ?at j" for j
    using assms(3) le_less_trans unat_u32 by blast
  have at: "nth_opt heads_at j = Some (as_u32 (?at j))" if "j \<le> length qs" for j
    using that by (simp add: nth_opt_def heads_at_def nth_append del: upt_Suc)
  have next_head: "?at (Suc ?d) = ?at ?d + length (join_prefix (qs ! ?d))"
    using assms(4) by (simp add: take_Suc_conv_app_nth)
  have "heads = concat (map join_prefix (take ?d qs)) @ join_prefix (qs ! ?d) @ concat (map join_prefix (drop (Suc ?d) qs))"
    using split [of ?d] Cons_nth_drop_Suc [OF assms(4)] by (metis concat.simps(2) list.simps(9))
  then have "get_range heads (?at ?d) (?at (Suc ?d)) = Some (join_prefix (qs ! ?d))"
    unfolding next_head by (metis get_range_append)
  then show ?thesis
    using at [of ?d] at [of "Suc ?d"] assms(4) u [of ?d] u [of "Suc ?d"]
    by (simp only: head_of_def Let_def Suc_eq_plus1 option.case prod.case less_imp_le_nat Suc_leI)
qed

lemma last_join_prefix: "join_prefix d = [] \<or> last (join_prefix d) = SLASH"
  by (simp add: join_prefix_def)

lemma map_u32_rows: "n < 2 ^ 32 \<Longrightarrow> row \<in> set (map as_u32 [0 ..< n]) \<Longrightarrow> unat row < n \<and> as_u32 (unat row) = row"
  by (auto simp: unat_u32)

text \<open>The list of rows in a file, and its readers.\<close>

lemma path_order_view:
  assumes "length order < 2 ^ 32" "\<forall>row \<in> set order. unat row < length order"
  shows "\<exists>t. path_order_open (le_bytes 4 (as_u32 (length order)) @ concat (map (le_bytes 4) order)) = Some t
    \<and> po_rows t = length order
    \<and> (\<forall>i < length order. path_order_at t i = Some (order ! i))"
proof -
  let ?b = "concat (map (le_bytes 4) order)"
  have len: "length ?b = 4 * length order"
    by (rule length_concat_map_const) simp
  have open_: "path_order_open (le_bytes 4 (as_u32 (length order)) @ ?b) = Some \<lparr>po_rows = length order, po_bytes = ?b\<rparr>"
    using assms(1) len by (simp add: path_order_open_def file_simps unat_u32)
  have "path_order_at \<lparr>po_rows = length order, po_bytes = ?b\<rparr> i = Some (order ! i)" if "i < length order" for i
    using u32_at_array [of i order "[]"] that assms(2) by (simp add: path_order_at_def mult.commute)
  with open_ show ?thesis by auto
qed

section \<open>Rows in the order of a key\<close>

definition row_order :: "nat \<Rightarrow> (u32 \<Rightarrow> bytes) \<Rightarrow> u32 list" where
  "row_order n f = sort_key (\<lambda>row. (f row, row)) (map as_u32 [0 ..< n])"

definition row_before :: "(u32 \<Rightarrow> bytes) \<Rightarrow> u32 \<Rightarrow> u32 \<Rightarrow> bool" where
  "row_before f a b \<longleftrightarrow> f a < f b \<or> f a = f b \<and> a < b"

lemma sort_by_row_order:
  assumes "\<And>a b. a \<in> set (map as_u32 [0 ..< n]) \<Longrightarrow> b \<in> set (map as_u32 [0 ..< n]) \<Longrightarrow> c a b = then_cmp (cmp (f a) (f b)) (cmp a b)"
  shows "sort_by c (map as_u32 [0 ..< n]) = row_order n f"
  unfolding row_order_def by (rule sort_by_key) (use assms in \<open>simp add: cmp_prod\<close>)

lemma row_order_facts:
  assumes "n < 2 ^ 32"
  shows "length (row_order n f) = n" "distinct (row_order n f)"
    "set (row_order n f) = set (map as_u32 [0 ..< n])"
    "sorted_wrt (row_before f) (row_order n f)"
    "\<forall>row \<in> set (row_order n f). unat row < n"
proof -
  have "inj_on as_u32 {0 ..< n}"
    using assms by (auto intro!: inj_onI dest!: arg_cong [of _ _ unat] simp: unat_u32)
  then have d: "distinct (row_order n f)" by (simp add: row_order_def distinct_map)
  have "sorted (map (\<lambda>row. (f row, row)) (row_order n f))" by (simp add: row_order_def)
  moreover have "distinct (map (\<lambda>row. (f row, row)) (row_order n f))"
    using d by (simp add: distinct_map inj_on_def)
  ultimately have "sorted_wrt (<) (map (\<lambda>row. (f row, row)) (row_order n f))"
    by (simp add: strict_sorted_iff)
  then show "sorted_wrt (row_before f) (row_order n f)"
    by (auto simp: sorted_wrt_map less_prod_def row_before_def elim!: sorted_wrt_mono_rel [rotated])
  show "length (row_order n f) = n" "distinct (row_order n f)"
    "set (row_order n f) = set (map as_u32 [0 ..< n])" "\<forall>row \<in> set (row_order n f). unat row < n"
    using d assms by (auto simp: row_order_def unat_u32)
qed

definition row_path :: "bytes list \<Rightarrow> u32 list \<Rightarrow> bytes list \<Rightarrow> u32 \<Rightarrow> bytes" where
  "row_path qs dir_of ns row = join_path (qs ! unat (dir_of ! unat row)) (ns ! unat row)"

lemma path_order_build_rows:
  assumes "memchr_law memchr" "names_fit ns" "\<forall>n \<in> set ns. SLASH \<notin> set n" "dirs_small ps"
    "length dir_of = length ns" "\<forall>d \<in> set dir_of. unat d < length (sorted_dirs ps)"
  defines "order \<equiv> row_order (length ns) (row_path (sorted_dirs ps) dir_of ns)"
  shows "path_order_build memchr (dir_view (sorted_dirs ps)) dir_of (terminated ns)
    = Ret (le_bytes 4 (as_u32 (length ns)) @ concat (map (le_bytes 4) order))"
proof -
  let ?qs = "sorted_dirs ps"
  let ?heads = "concat (map join_prefix ?qs)"
  let ?at = "map (\<lambda>j. as_u32 (length (concat (map join_prefix (take j ?qs))))) [0 ..< Suc (length ?qs)]"
  let ?head = "head_of ?heads ?at dir_of"
  let ?name = "name_slice (name_offsets memchr (length ns) (terminated ns)) (terminated ns)"
  have n: "length ns < 2 ^ 32" using assms(2) by (simp add: names_fit_def)
  have row: "?head r = join_prefix (?qs ! unat (dir_of ! unat r))" "?name r = ns ! unat r" "SLASH \<notin> set (?name r)"
    if "r \<in> set (map as_u32 [0 ..< length ns])" for r
  proof -
    have u: "unat r < length ns" "as_u32 (unat r) = r" using map_u32_rows [OF n that] by auto
    show "?head r = join_prefix (?qs ! unat (dir_of ! unat r))"
      by (rule head_of_view [OF length_join_prefixes [OF assms(4)]]) (use u assms(5,6) in simp)
    show name: "?name r = ns ! unat r" using name_slice_rows [OF assms(1,2) u(1)] u(2) by simp
    show "SLASH \<notin> set (?name r)" unfolding name using assms(3) u(1) by simp
  qed
  have "sort_by (\<lambda>a b. then_cmp (joined (?head a) (?name a) (?head b) (?name b)) (cmp a b)) (map as_u32 [0 ..< length ns]) = order"
    unfolding order_def
  proof (rule sort_by_row_order)
    fix a b assume a: "a \<in> set (map as_u32 [0 ..< length ns])" and b: "b \<in> set (map as_u32 [0 ..< length ns])"
    have "joined (?head a) (?name a) (?head b) (?name b) = cmp (?head a @ ?name a) (?head b @ ?name b)"
      by (rule joined_cmp) (use row(3) [OF a] row(3) [OF b] row(1) [OF a] row(1) [OF b] last_join_prefix in simp_all)
    then show "then_cmp (joined (?head a) (?name a) (?head b) (?name b)) (cmp a b)
        = then_cmp (cmp (row_path ?qs dir_of ns a) (row_path ?qs dir_of ns b)) (cmp a b)"
      using row(1,2) [OF a] row(1,2) [OF b] by (simp only: row_path_def join_prefix_path)
  qed
  then show ?thesis
    unfolding path_order_build_def join_prefixes_view [OF dirs_small_fit [OF assms(4)]]
    by (simp only: bind_run.simps prod.case Let_def assms(5))
qed

section \<open>Orders with groups\<close>

text \<open>\<open>build_keyed\<close>: a key per name, an empty one for a row that is not eligible.\<close>

definition keyed_value ::
  "(u32 \<Rightarrow> bytes) \<Rightarrow> (bytes \<Rightarrow> bytes) \<Rightarrow> bytes option \<Rightarrow> u32 \<Rightarrow> bytes" where
  "keyed_value name key eligible row =
     (let allowed =
        (case eligible of
           None \<Rightarrow> True
         | Some bits \<Rightarrow>
             (case nth_opt bits (unat row div 8) of
                Some byte \<Rightarrow> byte AND push_bit (unat row mod 8) 1 \<noteq> 0
              | None \<Rightarrow> False))
      in if allowed then key (name row) else [])"

fun group_bits :: "(nat \<Rightarrow> bool) \<Rightarrow> nat list \<Rightarrow> bytes \<Rightarrow> bytes" where
  "group_bits start [] groups = groups"
| "group_bits start (i # is) groups =
     group_bits start is
       (if start i \<and> i div 8 < length groups
        then groups[i div 8 := groups ! (i div 8) OR push_bit (i mod 8) 1] else groups)"

definition build_keyed ::
  "(u8 \<Rightarrow> bytes \<Rightarrow> nat option) \<Rightarrow> nat \<Rightarrow> bytes \<Rightarrow> (bytes \<Rightarrow> bytes) \<Rightarrow> bytes option \<Rightarrow> bytes \<times> u32 list" where
  "build_keyed memchr rows names key eligible =
     (let name = name_slice (name_offsets memchr rows names) names;
          val = keyed_value name key eligible;
          order = sort_by (\<lambda>a b. then_cmp (cmp (val a) (val b)) (cmp a b)) (map as_u32 [0 ..< rows]);
          groups = group_bits (\<lambda>i. i = 0 \<or> val (order ! (i - 1)) \<noteq> val (order ! i)) [0 ..< rows]
                     (replicate ((rows + 7) div 8) 0)
      in (le_bytes 4 (as_u32 rows) @ concat (map (le_bytes 4) order) @ groups, order))"

definition build_reusing :: "(u8 \<Rightarrow> bytes \<Rightarrow> nat option) \<Rightarrow> nat \<Rightarrow> bytes \<Rightarrow> bytes \<times> u32 list" where
  "build_reusing memchr rows names = build_keyed memchr rows names (\<lambda>name. name) None"

record name_order =
  no_rows :: nat
  no_bytes :: bytes
  no_groups :: bytes

definition name_order_open :: "bytes \<Rightarrow> name_order option" where
  "name_order_open bs =
     Option.bind (u32_at bs 0) (\<lambda>n.
       let rows = unat n; order_len = rows * 4; groups_len = (rows + 7) div 8
       in if length bs \<noteq> 4 + order_len + groups_len then None
          else
            let groups = drop (4 + order_len) bs
            in if rows > 0 \<and> (case groups of [] \<Rightarrow> True | byte # _ \<Rightarrow> byte AND 1 = 0) then None
               else Some \<lparr>no_rows = rows, no_bytes = take order_len (drop 4 bs), no_groups = groups\<rparr>)"

definition name_order_at :: "name_order \<Rightarrow> nat \<Rightarrow> u32 option" where
  "name_order_at t i =
     Option.bind (u32_at (no_bytes t) (i * 4)) (\<lambda>row. if unat row < no_rows t then Some row else None)"

text \<open>\<open>leading_zeros\<close> of a byte, and \<open>rposition\<close> of the last byte before \<open>n\<close> with a bit set.\<close>

definition leading_zeros8 :: "u8 \<Rightarrow> nat" where
  "leading_zeros8 w = length (takeWhile (\<lambda>i. \<not> bit w i) (rev [0 ..< 8]))"

fun rposition_set :: "bytes \<Rightarrow> nat \<Rightarrow> nat option" where
  "rposition_set groups 0 = None"
| "rposition_set groups (Suc n) = (if groups ! n \<noteq> 0 then Some n else rposition_set groups n)"

definition group_at_or_before :: "name_order \<Rightarrow> nat \<Rightarrow> nat option" where
  "group_at_or_before t i =
     (if no_rows t \<le> i then None
      else
        let byte = i div 8; b = i mod 8;
            mask = (if b = 7 then - 1 else push_bit (b + 1) (1 :: u8) - 1);
            here = (case nth_opt (no_groups t) byte of Some w \<Rightarrow> w | None \<Rightarrow> 0) AND mask
        in if here \<noteq> 0 then Some (byte * 8 + (7 - leading_zeros8 here))
           else
             (case rposition_set (no_groups t) byte of
                Some at \<Rightarrow> Some (at * 8 + (7 - leading_zeros8 (no_groups t ! at)))
              | None \<Rightarrow> None))"

text \<open>\<open>extension_order.rs\<close>.\<close>

definition rposition_dot :: "bytes \<Rightarrow> nat option" where
  "rposition_dot name = (case filter (\<lambda>i. name ! i = 0x2e) (rev [0 ..< length name]) of [] \<Rightarrow> None | i # _ \<Rightarrow> Some i)"

definition extension :: "bytes \<Rightarrow> bytes" where
  "extension name =
     (case rposition_dot name of
        Some i \<Rightarrow> if i > 0 \<and> i + 1 < length name then drop (i + 1) name else []
      | None \<Rightarrow> [])"

definition extension_is_eligible :: "bytes \<Rightarrow> bool" where
  "extension_is_eligible name =
     (case rposition_dot name of
        Some i \<Rightarrow> i > 0 \<and> 1 \<le> length name - i - 1 \<and> length name - i - 1 \<le> 12
      | None \<Rightarrow> False)"

definition folded_extension :: "bytes \<Rightarrow> bytes \<Rightarrow> bytes" where
  "folded_extension spelled folded = (if extension_is_eligible spelled then extension folded else [])"

text \<open>The slice is in range: \<open>memchr\<close> answers inside the rest of the arena.\<close>

fun eligible_loop :: "(u8 \<Rightarrow> bytes \<Rightarrow> nat option) \<Rightarrow> bytes \<Rightarrow> nat list \<Rightarrow> nat \<Rightarrow> bytes \<Rightarrow> bytes" where
  "eligible_loop memchr names [] cursor eligible = eligible"
| "eligible_loop memchr names (row # rest) cursor eligible =
     (case Option.bind (get_from names cursor) (memchr 0) of
        None \<Rightarrow> eligible
      | Some n \<Rightarrow>
          let last = cursor + n
          in eligible_loop memchr names rest (last + 1)
               (if extension_is_eligible (drop cursor (take last names))
                then eligible[row div 8 := eligible ! (row div 8) OR push_bit (row mod 8) 1] else eligible))"

definition eligible_rows :: "(u8 \<Rightarrow> bytes \<Rightarrow> nat option) \<Rightarrow> nat \<Rightarrow> bytes \<Rightarrow> bytes" where
  "eligible_rows memchr rows names = eligible_loop memchr names [0 ..< rows] 0 (replicate ((rows + 7) div 8) 0)"

definition extension_order_build :: "(u8 \<Rightarrow> bytes \<Rightarrow> nat option) \<Rightarrow> nat \<Rightarrow> bytes \<Rightarrow> bytes \<Rightarrow> bytes" where
  "extension_order_build memchr rows spelled folded =
     fst (build_keyed memchr rows folded extension (Some (eligible_rows memchr rows spelled)))"

section \<open>The group bits\<close>

definition group_start :: "bytes \<Rightarrow> nat \<Rightarrow> bool" where
  "group_start groups i \<longleftrightarrow> bit (groups ! (i div 8)) (i mod 8)"

lemma group_start_set:
  assumes "i div 8 < length groups"
  shows "group_start (groups[i div 8 := groups ! (i div 8) OR push_bit (i mod 8) 1]) j
    \<longleftrightarrow> group_start groups j \<or> j = i"
proof (cases "j div 8 = i div 8")
  case True
  then have "j = i \<longleftrightarrow> j mod 8 = i mod 8" by (metis div_mult_mod_eq)
  moreover have "bit (push_bit (i mod 8) (1 :: u8)) (j mod 8) \<longleftrightarrow> j mod 8 = i mod 8"
    by (auto simp: bit_exp_iff)
  ultimately show ?thesis using True assms by (simp add: group_start_def bit_or_iff del: push_bit_of_1)
qed (auto simp: group_start_def)

lemma length_group_bits [simp]: "length (group_bits start is groups) = length groups"
  by (induction start "is" groups rule: group_bits.induct) auto

lemma group_bits_start:
  "\<forall>i \<in> set is. i div 8 < length groups \<Longrightarrow>
   group_start (group_bits start is groups) j \<longleftrightarrow> group_start groups j \<or> j \<in> set is \<and> start j"
proof (induction start "is" groups rule: group_bits.induct)
  case (2 start i "is" groups)
  show ?case
  proof (cases "start i")
    case True
    have i: "i div 8 < length groups" using 2(2) by simp
    let ?g = "groups[i div 8 := groups ! (i div 8) OR push_bit (i mod 8) 1]"
    have "group_start (group_bits start is ?g) j \<longleftrightarrow> group_start ?g j \<or> j \<in> set is \<and> start j"
      using 2(1) 2(2) True i by simp
    then show ?thesis using True i unfolding group_start_set [OF i] by auto
  next
    case False
    then show ?thesis using 2 by auto
  qed
qed simp

lemma group_start_zeros: "i div 8 < n \<Longrightarrow> \<not> group_start (replicate n 0) i"
  by (simp add: group_start_def)

lemma group_bits_rows:
  "j < n \<Longrightarrow> group_start (group_bits start [0 ..< n] (replicate ((n + 7) div 8) 0)) j \<longleftrightarrow> start j"
proof -
  assume j: "j < n"
  have "i div 8 < (n + 7) div 8" if "i < n" for i
    using div_le_mono [of "i + 8" "n + 7" 8] that by simp
  then show ?thesis using j by (subst group_bits_start) (simp_all add: group_start_zeros)
qed

lemma takeWhile_rev_upt:
  assumes "\<exists>i < n. P i"
  defines "h \<equiv> n - 1 - length (takeWhile (\<lambda>i. \<not> P i) (rev [0 ..< n]))"
  shows "h < n \<and> P h \<and> (\<forall>k. h < k \<and> k < n \<longrightarrow> \<not> P k)"
  using assms(1) unfolding h_def
proof (induction n)
  case (Suc n)
  show ?case
  proof (cases "P n")
    case False
    have upt: "rev [0 ..< Suc n] = n # rev [0 ..< n]" by simp
    let ?h = "n - 1 - length (takeWhile (\<lambda>i. \<not> P i) (rev [0 ..< n]))"
    have h: "Suc n - 1 - length (takeWhile (\<lambda>i. \<not> P i) (rev [0 ..< Suc n])) = ?h"
      unfolding upt using False by simp
    have "\<exists>i < n. P i" using Suc.prems False less_Suc_eq by auto
    then have "?h < n \<and> P ?h \<and> (\<forall>k. ?h < k \<and> k < n \<longrightarrow> \<not> P k)" by (rule Suc.IH)
    then show ?thesis unfolding h using False by (metis less_Suc_eq)
  qed auto
qed simp

lemma highest_bit:
  fixes w :: u8
  assumes "bit w m" "\<And>k. m < k \<Longrightarrow> k < 8 \<Longrightarrow> \<not> bit w k"
  shows "7 - leading_zeros8 w = m"
proof -
  have m: "m < 8" using bit_imp_le_length [OF assms(1)] by simp
  let ?h = "8 - 1 - length (takeWhile (\<lambda>i. \<not> bit w i) (rev [0 ..< 8]))"
  have h: "?h < 8 \<and> bit w ?h \<and> (\<forall>k. ?h < k \<and> k < 8 \<longrightarrow> \<not> bit w k)"
    by (rule takeWhile_rev_upt) (use m assms(1) in blast)
  then have "?h = m" using assms m by (meson linorder_neqE_nat)
  then show ?thesis by (simp add: leading_zeros8_def)
qed

lemma rposition_set_at:
  assumes "at < n" "groups ! at \<noteq> 0" "\<And>k. at < k \<Longrightarrow> k < n \<Longrightarrow> groups ! k = 0"
  shows "rposition_set groups n = Some at"
  using assms
proof (induction n)
  case (Suc n)
  then show ?case by (cases "at = n") auto
qed simp

lemma low_mask: "m < 8 \<Longrightarrow> bit ((if b = 7 then - 1 else push_bit (b + 1) (1 :: u8) - 1)) m \<longleftrightarrow> m \<le> b"
  if "b < 8"
proof -
  assume m: "m < 8"
  have "push_bit (b + 1) (1 :: u8) - 1 = mask (b + 1)" by (simp add: mask_eq_decr_exp push_bit_eq_mult)
  then show ?thesis using m that by (auto simp: bit_mask_iff)
qed

lemma group_at_or_before_eq:
  assumes "i < no_rows t" "i div 8 < length (no_groups t)" "j \<le> i" "group_start (no_groups t) j"
    "\<And>k. j < k \<Longrightarrow> k \<le> i \<Longrightarrow> \<not> group_start (no_groups t) k"
  shows "group_at_or_before t i = Some j"
proof -
  let ?g = "no_groups t"
  define m where "m = (if i mod 8 = 7 then - 1 else push_bit (i mod 8 + 1) (1 :: u8) - 1)"
  define here where "here = ?g ! (i div 8) AND m"
  have bits: "bit here k \<longleftrightarrow> group_start ?g (i div 8 * 8 + k) \<and> k \<le> i mod 8" if "k < 8" for k
    using that low_mask [of "i mod 8" k] by (simp add: here_def m_def bit_and_iff group_start_def)
  show ?thesis
  proof (cases "j div 8 = i div 8")
    case True
    then have j: "i div 8 * 8 + j mod 8 = j" by (metis div_mult_mod_eq)
    then have le: "j mod 8 \<le> i mod 8" using assms(3) by (metis add_le_cancel_left div_mult_mod_eq)
    have b: "bit here (j mod 8)" using bits [of "j mod 8"] j le assms(4) by simp
    have "\<not> bit here k" if "j mod 8 < k" "k < 8" for k
    proof
      assume "bit here k"
      then have "group_start ?g (i div 8 * 8 + k)" "k \<le> i mod 8" using bits [OF that(2)] by auto
      moreover have "j < i div 8 * 8 + k" using j that(1) by linarith
      moreover have "i div 8 * 8 + k \<le> i" using calculation(2) by (metis add_le_cancel_left div_mult_mod_eq)
      ultimately show False using assms(5) by blast
    qed
    then have "7 - leading_zeros8 here = j mod 8" by (rule highest_bit [OF b])
    moreover have "here \<noteq> 0" using b by auto
    ultimately show ?thesis
      using assms(1,2) j unfolding group_at_or_before_def Let_def m_def [symmetric]
      by (simp add: nth_opt_def flip: here_def)
  next
    case False
    then have less: "j div 8 < i div 8" using assms(3) div_le_mono [of j i 8] by simp
    have j: "j div 8 * 8 + j mod 8 = j" by simp
    have "\<not> bit here m" if "m < 8" for m
    proof
      assume "bit here m"
      then have "group_start ?g (i div 8 * 8 + m)" "m \<le> i mod 8" using bits [OF that] by auto
      moreover have "j < i div 8 * 8 + m" using less by (simp add: div_less_iff_less_mult)
      moreover have "i div 8 * 8 + m \<le> i" using calculation(2) by (metis add_le_cancel_left div_mult_mod_eq)
      ultimately show False using assms(5) by blast
    qed
    then have here: "here = 0" by (intro bit_word_eqI) simp
    have clear: "\<not> bit (?g ! at) m" if "m < 8" "j < at * 8 + m" "at < i div 8" for at m
    proof -
      have "Suc at * 8 \<le> i div 8 * 8" using that(3) by (intro mult_le_mono) simp_all
      moreover have "i div 8 * 8 \<le> i" by simp
      ultimately have "at * 8 + m \<le> i" using that(1) by simp
      then show ?thesis using assms(5) [OF that(2)] that(1) by (simp add: group_start_def)
    qed
    have b: "bit (?g ! (j div 8)) (j mod 8)" using assms(4) by (simp add: group_start_def)
    have "rposition_set ?g (i div 8) = Some (j div 8)"
    proof (rule rposition_set_at [OF less])
      show "?g ! (j div 8) \<noteq> 0" using b by auto
      fix k assume k: "j div 8 < k" "k < i div 8"
      then have "j < k * 8 + m" for m by (simp add: div_less_iff_less_mult trans_less_add1)
      then show "?g ! k = 0" using clear k(2) by (intro bit_word_eqI) simp
    qed
    moreover have "7 - leading_zeros8 (?g ! (j div 8)) = j mod 8"
    proof (rule highest_bit [OF b])
      fix k assume "j mod 8 < k" "k < 8"
      then show "\<not> bit (?g ! (j div 8)) k" using clear [of k "j div 8"] less j by linarith
    qed
    ultimately show ?thesis
      using assms(1,2) j here unfolding group_at_or_before_def Let_def m_def [symmetric]
      by (simp add: nth_opt_def flip: here_def)
  qed
qed

lemma group_of:
  assumes "i < no_rows t" "i div 8 < length (no_groups t)" "group_start (no_groups t) 0"
  shows "\<exists>j \<le> i. group_at_or_before t i = Some j \<and> group_start (no_groups t) j
    \<and> (\<forall>k. j < k \<and> k \<le> i \<longrightarrow> \<not> group_start (no_groups t) k)"
proof -
  let ?P = "\<lambda>j. j \<le> i \<and> group_start (no_groups t) j"
  define j where "j = (GREATEST j. ?P j)"
  have j: "?P j" unfolding j_def by (rule GreatestI_nat [of ?P 0 i]) (use assms(3) in auto)
  have max: "k \<le> j" if "?P k" for k
    unfolding j_def by (rule Greatest_le_nat [of ?P k i]) (use that in auto)
  have none: "\<not> group_start (no_groups t) k" if "j < k" "k \<le> i" for k
    using max [of k] that by auto
  have "group_at_or_before t i = Some j"
    by (rule group_at_or_before_eq [OF assms(1,2)]) (use j none in auto)
  then show ?thesis using j none by blast
qed

text \<open>What a grouped file gives back: the rows, and the run of equal values a position is in.\<close>

definition lists_rows :: "name_order \<Rightarrow> nat \<Rightarrow> (u32 \<Rightarrow> bytes) \<Rightarrow> u32 list \<Rightarrow> bool" where
  "lists_rows t n f order \<longleftrightarrow> no_rows t = n \<and> order = row_order n f
     \<and> (\<forall>i < n. name_order_at t i = Some (order ! i))
     \<and> (\<forall>i < n. \<exists>j \<le> i. group_at_or_before t i = Some j
          \<and> (\<forall>k. j \<le> k \<and> k \<le> i \<longrightarrow> f (order ! k) = f (order ! i))
          \<and> (j = 0 \<or> f (order ! (j - 1)) \<noteq> f (order ! i)))"

lemma lists_rows_len: "lists_rows t n f order \<Longrightarrow> no_rows t = n"
  by (simp add: lists_rows_def)

lemma build_keyed_view:
  assumes "n < 2 ^ 32" "build_keyed memchr n names key eligible = (bs, order)"
    "\<And>row. row \<in> set (map as_u32 [0 ..< n]) \<Longrightarrow>
      keyed_value (name_slice (name_offsets memchr n names) names) key eligible row = f row"
  shows "\<exists>t. name_order_open bs = Some t \<and> lists_rows t n f order"
proof -
  let ?val = "keyed_value (name_slice (name_offsets memchr n names) names) key eligible"
  let ?start = "\<lambda>i. i = 0 \<or> ?val (order ! (i - 1)) \<noteq> ?val (order ! i)"
  let ?groups = "group_bits ?start [0 ..< n] (replicate ((n + 7) div 8) 0)"
  let ?b = "concat (map (le_bytes 4) order)"
  have "sort_by (\<lambda>a b. then_cmp (cmp (?val a) (?val b)) (cmp a b)) (map as_u32 [0 ..< n]) = row_order n f"
    by (rule sort_by_row_order) (simp only: assms(3))
  then have order: "order = row_order n f" and bs: "bs = le_bytes 4 (as_u32 n) @ ?b @ ?groups"
    using assms(2) unfolding build_keyed_def Let_def by auto
  note facts = row_order_facts [OF assms(1), of f, folded order]
  have len: "length ?b = n * 4"
    using length_concat_map_const [of order "le_bytes 4" 4] facts(1) by simp
  have start: "group_start ?groups i \<longleftrightarrow> ?start i" if "i < n" for i using group_bits_rows [OF that] .
  have val: "?val (order ! i) = f (order ! i)" if "i < n" for i
    using assms(3) facts(1,3) that by (metis nth_mem)
  let ?t = "\<lparr>no_rows = n, no_bytes = ?b, no_groups = ?groups\<rparr>"
  have "0 < n \<Longrightarrow> bit (?groups ! 0) 0" using start [of 0] by (simp add: group_start_def)
  moreover have "0 < n \<Longrightarrow> ?groups = ?groups ! 0 # tl ?groups"
    by (cases ?groups) (auto dest!: arg_cong [of _ _ length])
  ultimately have first: "\<not> (n > 0 \<and> (case ?groups of [] \<Rightarrow> True | byte # _ \<Rightarrow> byte AND 1 = 0))"
    by (cases ?groups) (auto simp: bit_iff_and_push_bit_not_eq_0)
  have open_: "name_order_open bs = Some ?t"
    using assms(1) len first by (simp add: name_order_open_def bs file_simps unat_u32 Let_def)
  have at: "name_order_at ?t i = Some (order ! i)" if "i < n" for i
    using u32_at_array [of i order "[]"] that facts(1,5) by (simp add: name_order_at_def mult.commute)
  have groups: "\<exists>j \<le> i. group_at_or_before ?t i = Some j
      \<and> (\<forall>k. j \<le> k \<and> k \<le> i \<longrightarrow> f (order ! k) = f (order ! i))
      \<and> (j = 0 \<or> f (order ! (j - 1)) \<noteq> f (order ! i))" if "i < n" for i
  proof -
    have "i div 8 < (n + 7) div 8" using div_le_mono [of "i + 8" "n + 7" 8] that by simp
    moreover have "group_start ?groups 0" using start [of 0] that by simp
    ultimately have "\<exists>j \<le> i. group_at_or_before ?t i = Some j \<and> group_start (no_groups ?t) j
        \<and> (\<forall>k. j < k \<and> k \<le> i \<longrightarrow> \<not> group_start (no_groups ?t) k)"
      using that by (intro group_of) simp_all
    then obtain j where j: "j \<le> i" "group_at_or_before ?t i = Some j" "group_start ?groups j"
      "\<forall>k. j < k \<and> k \<le> i \<longrightarrow> \<not> group_start ?groups k" by auto
    have step: "f (order ! (k - 1)) = f (order ! k)" if "j < k" "k \<le> i" for k
      using j(4) that \<open>i < n\<close> start [of k] val [of k] val [of "k - 1"] by auto
    have same: "j \<le> k \<Longrightarrow> k \<le> i \<Longrightarrow> f (order ! k) = f (order ! i)" for k
    proof (induction "i - k" arbitrary: k)
      case (Suc d)
      then have "f (order ! Suc k) = f (order ! i)" by simp
      then show ?case using step [of "Suc k"] Suc by simp
    qed simp
    have "j = 0 \<or> f (order ! (j - 1)) \<noteq> f (order ! i)"
      using j(1,3) that start [of j] val [of j] val [of "j - 1"] same [of j] by auto
    then show ?thesis using j(1,2) same by blast
  qed
  show ?thesis
    using open_ order at groups by (auto simp: lists_rows_def)
qed

section \<open>Eligible rows\<close>

lemma length_eligible_loop [simp]: "length (eligible_loop memchr names is cursor e) = length e"
  by (induction memchr names "is" cursor e rule: eligible_loop.induct) (auto simp: Let_def split: option.splits)

lemma eligible_loop_rows:
  assumes "memchr_law memchr" "names_fit ns"
  shows "i + k \<le> length ns \<Longrightarrow> \<forall>r < length ns. r div 8 < length e \<Longrightarrow>
    group_start (eligible_loop memchr (terminated ns) [i ..< i + k] (name_start ns i) e) j
    \<longleftrightarrow> group_start e j \<or> (i \<le> j \<and> j < i + k \<and> extension_is_eligible (ns ! j))"
proof (induction k arbitrary: i e)
  case (Suc k)
  then have i: "i < length ns" by simp
  note read = read_name [OF assms i]
  obtain rest where rest: "get_from (terminated ns) (name_start ns i) = Some (ns ! i @ 0 # rest)"
    "memchr 0 (ns ! i @ 0 # rest) = Some (length (ns ! i))"
    using read(1) by blast
  have slice: "drop (name_start ns i) (take (name_start ns i + length (ns ! i)) (terminated ns)) = ns ! i"
    using rest(1) by (simp add: get_from_def drop_take split: if_splits)
  let ?e = "if extension_is_eligible (ns ! i)
            then e[i div 8 := e ! (i div 8) OR push_bit (i mod 8) 1] else e"
  have upt: "[i ..< i + Suc k] = i # [Suc i ..< Suc i + k]" by (simp add: upt_conv_Cons)
  have loop: "eligible_loop memchr (terminated ns) [i ..< i + Suc k] (name_start ns i) e
      = eligible_loop memchr (terminated ns) [Suc i ..< Suc i + k] (name_start ns (Suc i)) ?e"
    unfolding upt using rest slice read(2) by (simp add: Let_def del: push_bit_of_1)
  have bit: "group_start ?e j \<longleftrightarrow> group_start e j \<or> (j = i \<and> extension_is_eligible (ns ! i))"
    using group_start_set [of i e j] Suc.prems(2) i by (simp del: push_bit_of_1)
  have "group_start (eligible_loop memchr (terminated ns) [Suc i ..< Suc i + k] (name_start ns (Suc i)) ?e) j
      \<longleftrightarrow> group_start ?e j \<or> (Suc i \<le> j \<and> j < Suc i + k \<and> extension_is_eligible (ns ! j))"
    by (rule Suc.IH) (use Suc.prems in simp_all)
  then show ?case unfolding loop bit by (auto simp: Suc_le_eq le_less)
qed auto

lemma eligible_rows_bit:
  assumes "memchr_law memchr" "names_fit ns" "j < length ns"
  shows "group_start (eligible_rows memchr (length ns) (terminated ns)) j \<longleftrightarrow> extension_is_eligible (ns ! j)"
proof -
  have "r div 8 < (length ns + 7) div 8" if "r < length ns" for r
    using div_le_mono [of "r + 8" "length ns + 7" 8] that by simp
  then show ?thesis
    using eligible_loop_rows [OF assms(1,2), of 0 "length ns" "replicate ((length ns + 7) div 8) 0" j] assms(3)
    by (simp add: eligible_rows_def group_start_zeros name_start_def terminated_def)
qed

lemma eligible_value:
  assumes "memchr_law memchr" "names_fit spelled" "names_fit folded" "length folded = length spelled"
    "row \<in> set (map as_u32 [0 ..< length spelled])"
  shows "keyed_value (name_slice (name_offsets memchr (length folded) (terminated folded)) (terminated folded))
      extension (Some (eligible_rows memchr (length spelled) (terminated spelled))) row
    = folded_extension (spelled ! unat row) (folded ! unat row)"
proof -
  let ?e = "eligible_rows memchr (length spelled) (terminated spelled)"
  have n: "length spelled < 2 ^ 32" using assms(2) by (simp add: names_fit_def)
  have row: "unat row < length spelled" "as_u32 (unat row) = row" using map_u32_rows [OF n assms(5)] by auto
  have "unat row div 8 < (length spelled + 7) div 8"
    using div_le_mono [of "unat row + 8" "length spelled + 7" 8] row(1) by simp
  then have "nth_opt ?e (unat row div 8) = Some (?e ! (unat row div 8))"
    by (simp add: nth_opt_def eligible_rows_def)
  moreover have "?e ! (unat row div 8) AND push_bit (unat row mod 8) 1 \<noteq> 0 \<longleftrightarrow> extension_is_eligible (spelled ! unat row)"
    using eligible_rows_bit [OF assms(1,2) row(1)]
    by (simp add: group_start_def bit_iff_and_push_bit_not_eq_0)
  moreover have "name_slice (name_offsets memchr (length folded) (terminated folded)) (terminated folded) row = folded ! unat row"
    using name_slice_rows [OF assms(1,3), of "unat row"] row assms(4) by simp
  ultimately show ?thesis by (simp add: keyed_value_def folded_extension_def)
qed

section \<open>Properties\<close>

lemma path_order_built:
  assumes "memchr_law memchr" "names_fit ns" "\<forall>n \<in> set ns. SLASH \<notin> set n"
    "dirs_small ps" "dir_open (dir_file ps) = Some t"
    "length dir_of = length ns" "\<forall>d \<in> set dir_of. unat d < length (sorted_dirs ps)"
  shows "\<exists>bs po order. path_order_build memchr t dir_of (terminated ns) = Ret bs
    \<and> path_order_open bs = Some po \<and> po_rows po = length ns
    \<and> length order = length ns \<and> (\<forall>i < length ns. path_order_at po i = Some (order ! i))
    \<and> distinct order \<and> set order = set (map as_u32 [0 ..< length ns])
    \<and> sorted_wrt (row_before (row_path (sorted_dirs ps) dir_of ns)) order"
proof -
  have n: "length ns < 2 ^ 32" using assms(2) by (simp add: names_fit_def)
  have t: "t = dir_view (sorted_dirs ps)" using dir_file_view [OF assms(4)] assms(5) by simp
  let ?order = "row_order (length ns) (row_path (sorted_dirs ps) dir_of ns)"
  note facts = row_order_facts [OF n, of "row_path (sorted_dirs ps) dir_of ns"]
  obtain po where "path_order_open (le_bytes 4 (as_u32 (length ns)) @ concat (map (le_bytes 4) ?order)) = Some po"
    "po_rows po = length ns" "\<forall>i < length ns. path_order_at po i = Some (?order ! i)"
    using path_order_view [of ?order] n facts(1,5) by auto
  then show ?thesis
    using path_order_build_rows [OF assms(1-4) assms(6,7)] facts(1-4) unfolding t by blast
qed

text \<open>
  C35: the path order lists every row once, by the path it spells.  For a segment whose names
  hold no separator and no NUL byte, \<open>build\<close> does not panic, the file opens, and reading it
  position by position gives every row exactly once, in ascending order of its directory
  joined with its name, compared as text, rows of one path in row order: although the
  comparator never joins the two halves.
\<close>

theorem path_order_sorted:
  assumes "memchr_law memchr" "names_fit ns" "\<forall>n \<in> set ns. SLASH \<notin> set n"
    "dirs_small ps" "dir_open (dir_file ps) = Some t"
    "length dir_of = length ns" "\<forall>d \<in> set dir_of. unat d < length (sorted_dirs ps)"
  shows "\<exists>bs po order. path_order_build memchr t dir_of (terminated ns) = Ret bs
    \<and> path_order_open bs = Some po \<and> po_rows po = length ns
    \<and> length order = length ns \<and> (\<forall>i < length ns. path_order_at po i = Some (order ! i))
    \<and> distinct order \<and> set order = set (map as_u32 [0 ..< length ns])
    \<and> sorted_wrt (row_before (row_path (sorted_dirs ps) dir_of ns)) order"
  using assms by (rule path_order_built)

theorem path_order_sorted_witness:
  "\<exists>t bs. dir_open (dir_file [str ''/a'', str ''/a-x'']) = Some t
    \<and> path_order_build first_index t [0, 1] (terminated [str ''c'', str ''b'']) = Ret bs"
proof -
  let ?ps = "[str ''/a'', str ''/a-x'']"
  have small: "dirs_small ?ps" by (simp add: dirs_small_def utf8_valid_ascii)
  obtain t where t: "dir_open (dir_file ?ps) = Some t" using dir_file_view [OF small] by blast
  have "length (sorted_dirs ?ps) = 2" by (simp add: sorted_dirs_def)
  then show ?thesis
    using path_order_sorted [of first_index "[str ''c'', str ''b'']" ?ps t "[0, 1]"] small t
    by (auto simp: first_index_law names_fit_def terminated_def)
qed

text \<open>
  The name order lists every row once by folded name, and knows its groups.  The file
  opens; reading it position by position gives every row exactly once, in ascending order of
  its name, equal names in row order; and from any position \<open>group_at_or_before\<close> finds the
  first position of the run of equal names that position is in, scanning whole bytes.
\<close>

theorem name_order_grouped:
  assumes "memchr_law memchr" "names_fit ns" "build_reusing memchr (length ns) (terminated ns) = (bs, order)"
  shows "\<exists>t. name_order_open bs = Some t \<and> lists_rows t (length ns) (\<lambda>row. ns ! unat row) order
    \<and> distinct order \<and> set order = set (map as_u32 [0 ..< length ns])
    \<and> sorted_wrt (row_before (\<lambda>row. ns ! unat row)) order"
proof -
  have n: "length ns < 2 ^ 32" using assms(2) by (simp add: names_fit_def)
  have "keyed_value (name_slice (name_offsets memchr (length ns) (terminated ns)) (terminated ns)) (\<lambda>name. name) None row
      = ns ! unat row" if "row \<in> set (map as_u32 [0 ..< length ns])" for row
    using map_u32_rows [OF n that] name_slice_rows [OF assms(1,2), of "unat row"] by (simp add: keyed_value_def)
  with n assms(3) have "\<exists>t. name_order_open bs = Some t \<and> lists_rows t (length ns) (\<lambda>row. ns ! unat row) order"
    unfolding build_reusing_def by (rule build_keyed_view)
  then obtain t where t: "name_order_open bs = Some t" "lists_rows t (length ns) (\<lambda>row. ns ! unat row) order"
    by blast
  then have order: "order = row_order (length ns) (\<lambda>row. ns ! unat row)" by (simp add: lists_rows_def)
  show ?thesis using t row_order_facts(2-4) [OF n, of "\<lambda>row. ns ! unat row"] unfolding order by blast
qed

theorem name_order_grouped_witness:
  "\<exists>t. name_order_open (fst (build_reusing first_index (length [str ''b'', str ''a'', str ''b'']) (terminated [str ''b'', str ''a'', str ''b'']))) = Some t
    \<and> no_rows t = 3"
proof -
  let ?ns = "[str ''b'', str ''a'', str ''b'']"
  obtain bs order where b: "build_reusing first_index (length ?ns) (terminated ?ns) = (bs, order)" by fastforce
  have "names_fit ?ns" by (simp add: names_fit_def terminated_def)
  from name_order_grouped [OF first_index_law this b] show ?thesis
    unfolding b by (auto dest: lists_rows_len)
qed

text \<open>
  The extension order does the same for extensions.  A row's key is its folded
  extension, empty unless its spelling has one of one to twelve bytes; the file gives every
  row once in ascending order of that key, and the start of each group of equal extensions.
\<close>

theorem extension_order_grouped:
  assumes "memchr_law memchr" "names_fit spelled" "names_fit folded" "length folded = length spelled"
  defines "key \<equiv> \<lambda>row. folded_extension (spelled ! unat row) (folded ! unat row)"
  shows "\<exists>t order. name_order_open (extension_order_build memchr (length spelled) (terminated spelled) (terminated folded)) = Some t
    \<and> lists_rows t (length spelled) key order
    \<and> distinct order \<and> set order = set (map as_u32 [0 ..< length spelled])
    \<and> sorted_wrt (row_before key) order"
proof -
  have n: "length spelled < 2 ^ 32" using assms(2) by (simp add: names_fit_def)
  obtain bs order where b: "build_keyed memchr (length spelled) (terminated folded) extension
      (Some (eligible_rows memchr (length spelled) (terminated spelled))) = (bs, order)" by fastforce
  have "\<exists>t. name_order_open bs = Some t \<and> lists_rows t (length spelled) key order"
    by (rule build_keyed_view [OF n b])
      (simp only: key_def eligible_value [OF assms(1-4), unfolded assms(4)])
  then obtain t where t: "name_order_open bs = Some t" "lists_rows t (length spelled) key order" by blast
  then have order: "order = row_order (length spelled) key" by (simp add: lists_rows_def)
  have bs: "extension_order_build memchr (length spelled) (terminated spelled) (terminated folded) = bs"
    by (simp only: extension_order_build_def b fst_conv)
  show ?thesis
    using t row_order_facts(2-4) [OF n, of key] unfolding order bs by blast
qed

theorem extension_order_grouped_witness:
  "\<exists>t. name_order_open (extension_order_build first_index (length [str ''b.TXT'', str ''c'']) (terminated [str ''b.TXT'', str ''c''])
      (terminated [str ''b.txt'', str ''c''])) = Some t \<and> no_rows t = 2"
proof -
  have "names_fit [str ''b.TXT'', str ''c'']" "names_fit [str ''b.txt'', str ''c'']"
    by (simp_all add: names_fit_def terminated_def)
  from extension_order_grouped [OF first_index_law this]
  show ?thesis by (auto dest: lists_rows_len)
qed

end
