(* ===== verification/Glob.thy ===== *)
theory Glob
  imports Prelude
begin

text \<open>
  Wildcard matching, \<open>crates/scour-query/src/glob.rs\<close>.  A text is the list of its
  characters, each its code point.  The matcher's loop with its one resume point is a partial
  function; the lemmas show that it always returns, and that it answers what the recursive
  meaning of a pattern says.
\<close>

type_synonym chars = "u32 list"

abbreviation STAR :: u32 where "STAR \<equiv> 0x2a"
abbreviation QUESTION :: u32 where "QUESTION \<equiv> 0x3f"

section \<open>The matcher\<close>

definition skip_stars :: "chars \<Rightarrow> nat \<Rightarrow> nat" where
  "skip_stars p i = i + length (takeWhile (\<lambda>c. c = STAR) (drop i p))"

partial_function (option) glob_loop ::
  "chars \<Rightarrow> chars \<Rightarrow> nat \<Rightarrow> nat \<Rightarrow> nat option \<Rightarrow> nat \<Rightarrow> bool option" where
  "glob_loop p t i j star resume =
     (if j < length t then
        if nth_opt p i = Some STAR then glob_loop p t (i + 1) j (Some i) j
        else if nth_opt p i = Some QUESTION then glob_loop p t (i + 1) (j + 1) star resume
        else if nth_opt p i = Some (t ! j) then glob_loop p t (i + 1) (j + 1) star resume
        else
          (case star of
             Some s \<Rightarrow> glob_loop p t (s + 1) (resume + 1) star (resume + 1)
           | None \<Rightarrow> Some False)
      else Some (skip_stars p i = length p))"

definition glob_matches :: "chars \<Rightarrow> chars \<Rightarrow> bool option" where
  "glob_matches pattern s = glob_loop pattern s 0 0 None 0"

section \<open>What a pattern means\<close>

text \<open>A star is any run of characters, a question mark any one, another character itself.\<close>

fun globs :: "chars \<Rightarrow> chars \<Rightarrow> bool" where
  "globs [] t = (t = [])"
| "globs (c # p) t =
     (if c = STAR then \<exists>k \<le> length t. globs p (drop k t)
      else (case t of [] \<Rightarrow> False | x # xs \<Rightarrow> (c = QUESTION \<or> c = x) \<and> globs p xs))"

definition one_matches :: "u32 \<Rightarrow> u32 \<Rightarrow> bool" where
  "one_matches c x \<longleftrightarrow> c \<noteq> STAR \<and> (c = QUESTION \<or> c = x)"

lemma globs_star: "globs (STAR # p) t \<longleftrightarrow> (\<exists>k \<le> length t. globs p (drop k t))"
  by simp

lemma globs_run:
  "\<forall>c \<in> set q. c \<noteq> STAR \<Longrightarrow>
   globs (q @ p) t \<longleftrightarrow> length q \<le> length t \<and> list_all2 one_matches q (take (length q) t) \<and> globs p (drop (length q) t)"
proof (induction q arbitrary: t)
  case (Cons c q)
  then show ?case by (cases t) (auto simp: one_matches_def)
qed simp

lemma globs_stars: "globs p [] \<longleftrightarrow> (\<forall>c \<in> set p. c = STAR)"
  by (induction p) auto

lemma skip_stars_end: "i \<le> length p \<Longrightarrow> skip_stars p i = length p \<longleftrightarrow> (\<forall>c \<in> set (drop i p). c = STAR)"
proof -
  assume i: "i \<le> length p"
  have "length (takeWhile (\<lambda>c. c = STAR) q) = length q \<longleftrightarrow> (\<forall>c \<in> set q. c = STAR)" for q :: chars
    by (induction q) auto
  from this [of "drop i p"] show ?thesis using i by (auto simp: skip_stars_def)
qed

section \<open>The loop's invariant\<close>

text \<open>
  Behind the last star the pattern has matched, character by character, the text from the
  resume point on; earlier stars never need to be reconsidered.
\<close>

definition glob_inv :: "chars \<Rightarrow> chars \<Rightarrow> nat \<Rightarrow> nat \<Rightarrow> nat option \<Rightarrow> nat \<Rightarrow> bool" where
  "glob_inv p t i j star resume \<longleftrightarrow> i \<le> length p \<and> j \<le> length t \<and> resume \<le> j \<and>
     (case star of
        None \<Rightarrow> True
      | Some s \<Rightarrow> s < i \<and> j = resume + (i - (s + 1))
          \<and> (\<forall>c \<in> set (take (i - (s + 1)) (drop (s + 1) p)). c \<noteq> STAR))"

text \<open>What the loop still decides: the rest from here, or from a later resume point.\<close>

definition glob_rest :: "chars \<Rightarrow> chars \<Rightarrow> nat \<Rightarrow> nat \<Rightarrow> nat option \<Rightarrow> nat \<Rightarrow> bool" where
  "glob_rest p t i j star resume \<longleftrightarrow> globs (drop i p) (drop j t) \<or>
     (case star of
        None \<Rightarrow> False
      | Some s \<Rightarrow> \<exists>r. resume < r \<and> r \<le> length t \<and> globs (drop (s + 1) p) (drop r t))"

lemma split_behind_star:
  assumes "glob_inv p t i j (Some s) resume"
  shows "drop (s + 1) p = take (i - (s + 1)) (drop (s + 1) p) @ drop i p"
    "length (take (i - (s + 1)) (drop (s + 1) p)) = j - resume"
proof -
  have "drop i p = drop (i - (s + 1)) (drop (s + 1) p)"
    using assms by (simp add: glob_inv_def)
  then show "drop (s + 1) p = take (i - (s + 1)) (drop (s + 1) p) @ drop i p" by (simp only: append_take_drop_id)
  show "length (take (i - (s + 1)) (drop (s + 1) p)) = j - resume"
    using assms by (auto simp: glob_inv_def)
qed

text \<open>A match from a later resume point has to leave room for what was matched since the star.\<close>

lemma later_match:
  assumes "glob_inv p t i j (Some s) resume" "resume < r" "r \<le> length t" "globs (drop (s + 1) p) (drop r t)"
  shows "r + (j - resume) \<le> length t" "globs (drop i p) (drop (r + (j - resume)) t)"
proof -
  let ?q = "take (i - (s + 1)) (drop (s + 1) p)"
  have "\<forall>c \<in> set ?q. c \<noteq> STAR" using assms(1) by (simp add: glob_inv_def)
  from globs_run [OF this, of "drop i p" "drop r t"] assms(3,4) split_behind_star [OF assms(1)]
  show "r + (j - resume) \<le> length t" "globs (drop i p) (drop (r + (j - resume)) t)"
    by (auto simp: add.commute)
qed

lemma rest_at_end:
  assumes "glob_inv p t i (length t) star resume"
  shows "glob_rest p t i (length t) star resume \<longleftrightarrow> (\<forall>c \<in> set (drop i p). c = STAR)"
proof (cases star)
  case (Some s)
  then have inv: "glob_inv p t i (length t) (Some s) resume" using assms by simp
  then have le: "resume \<le> length t" unfolding glob_inv_def by blast
  have "False" if "resume < r" "r \<le> length t" "globs (drop (s + 1) p) (drop r t)" for r
    using later_match(1) [OF inv that] that(1) le by linarith
  then show ?thesis using Some by (auto simp: glob_rest_def globs_stars)
qed (simp add: glob_rest_def globs_stars)

lemma rest_new_star:
  assumes "glob_inv p t i j star resume" "nth_opt p i = Some STAR" "j < length t"
  shows "glob_rest p t i j star resume = glob_rest p t (i + 1) j (Some i) j"
proof -
  have drop_i: "drop i p = STAR # drop (i + 1) p"
    using assms(2) Cons_nth_drop_Suc [of i p] by (simp add: nth_opt_def split: if_splits)
  have here: "globs (drop i p) (drop j t) \<longleftrightarrow> (\<exists>r. j \<le> r \<and> r \<le> length t \<and> globs (drop (i + 1) p) (drop r t))"
  proof
    assume "globs (drop i p) (drop j t)"
    then obtain k where "k \<le> length (drop j t)" "globs (drop (i + 1) p) (drop k (drop j t))"
      unfolding drop_i globs_star by blast
    then show "\<exists>r. j \<le> r \<and> r \<le> length t \<and> globs (drop (i + 1) p) (drop r t)"
      using assms(3) by (intro exI [of _ "j + k"]) (simp add: add.commute)
  next
    assume "\<exists>r. j \<le> r \<and> r \<le> length t \<and> globs (drop (i + 1) p) (drop r t)"
    then obtain r where r: "j \<le> r" "r \<le> length t" "globs (drop (i + 1) p) (drop r t)" by blast
    show "globs (drop i p) (drop j t)"
      unfolding drop_i globs_star by (rule exI [of _ "r - j"]) (use r in simp)
  qed
  have old: "globs (drop i p) (drop j t)"
    if s: "star = Some s" and r: "resume < r" "r \<le> length t" "globs (drop (s + 1) p) (drop r t)" for s r
  proof -
    have inv: "glob_inv p t i j (Some s) resume" using assms(1) s by simp
    let ?r = "r + (j - resume)"
    note later = later_match [OF inv r]
    then obtain k where k: "k \<le> length (drop ?r t)" "globs (drop (i + 1) p) (drop k (drop ?r t))"
      unfolding drop_i globs_star by blast
    have "j \<le> ?r + k" using r(1) by linarith
    then show ?thesis unfolding here using k later(1) by (intro exI [of _ "?r + k"]) (simp add: add.commute)
  qed
  have split: "(\<exists>r. j \<le> r \<and> r \<le> length t \<and> P r) \<longleftrightarrow> P j \<or> (\<exists>r. j < r \<and> r \<le> length t \<and> P r)" for P
    using assms(3) by (metis le_less less_imp_le)
  have "glob_rest p t i j star resume \<longleftrightarrow> globs (drop i p) (drop j t)"
    using old by (auto simp: glob_rest_def split: option.splits)
  then show ?thesis unfolding here split glob_rest_def by simp
qed

lemma globs_one: "one_matches c x \<Longrightarrow> globs (c # p) (x # xs) = globs p xs"
  by (auto simp: one_matches_def)

lemma globs_other: "c \<noteq> STAR \<Longrightarrow> \<not> one_matches c x \<Longrightarrow> \<not> globs (c # p) (x # xs)"
  by (auto simp: one_matches_def)

lemma rest_step:
  assumes "i < length p" "one_matches (p ! i) (t ! j)" "j < length t"
  shows "glob_rest p t i j star resume = glob_rest p t (i + 1) (j + 1) star resume"
  unfolding glob_rest_def Cons_nth_drop_Suc [OF assms(1), symmetric] Cons_nth_drop_Suc [OF assms(3), symmetric]
    globs_one [OF assms(2)] by simp

lemma rest_mismatch:
  assumes "j < length t" "nth_opt p i \<noteq> Some STAR" "nth_opt p i \<noteq> Some QUESTION" "nth_opt p i \<noteq> Some (t ! j)"
  shows "\<not> globs (drop i p) (drop j t)"
proof (cases "i < length p")
  case True
  then have "p ! i \<noteq> STAR" "\<not> one_matches (p ! i) (t ! j)" using assms by (auto simp: nth_opt_def one_matches_def)
  then show ?thesis
    unfolding Cons_nth_drop_Suc [OF True, symmetric] Cons_nth_drop_Suc [OF assms(1), symmetric]
    by (rule globs_other)
qed (use assms(1) in simp)

lemma rest_resume:
  assumes "\<not> globs (drop i p) (drop j t)" "resume < length t"
  shows "glob_rest p t i j (Some s) resume = glob_rest p t (s + 1) (resume + 1) (Some s) (resume + 1)"
proof -
  have "(\<exists>r. resume < r \<and> r \<le> length t \<and> P r) \<longleftrightarrow> P (resume + 1) \<or> (\<exists>r. resume + 1 < r \<and> r \<le> length t \<and> P r)" for P
    using assms(2) by (metis Suc_eq_plus1 Suc_leI Suc_lessI lessI less_trans)
  then show ?thesis using assms(1) by (simp add: glob_rest_def)
qed

lemma glob_loop_decides:
  "glob_inv p t i j star resume \<Longrightarrow> glob_loop p t i j star resume = Some (glob_rest p t i j star resume)"
proof (induction "(length t - resume, length p - i)" arbitrary: i j star resume
       rule: wf_induct_rule [OF wf_lex_prod [OF wf_less_than wf_less_than]])
  case 1
  note IH = 1(1) and inv = 1(2)
  have le: "i \<le> length p" "resume \<le> j" "j \<le> length t" using inv by (simp_all add: glob_inv_def)
  show ?case
  proof (cases "j < length t")
    case False
    then have "j = length t" using le by simp
    then show ?thesis
      using inv rest_at_end skip_stars_end [OF le(1)] by (simp add: glob_loop.simps)
  next
    case j: True
    have step: ?thesis
      if cond: "i < length p" "one_matches (p ! i) (t ! j)"
        and loop: "glob_loop p t i j star resume = glob_loop p t (i + 1) (j + 1) star resume"
    proof -
      have "glob_inv p t (i + 1) (j + 1) star resume"
      proof (cases star)
        case (Some s)
        then have "i - (s + 1) < length (drop (s + 1) p)" "drop (s + 1) p ! (i - (s + 1)) = p ! i" "Suc i - (s + 1) = Suc (i - (s + 1))"
          using inv cond(1) by (auto simp: glob_inv_def)
        then show ?thesis
          using inv cond j Some by (auto simp: glob_inv_def one_matches_def take_Suc_conv_app_nth)
      qed (use inv cond j in \<open>simp add: glob_inv_def\<close>)
      then have "glob_loop p t (i + 1) (j + 1) star resume = Some (glob_rest p t (i + 1) (j + 1) star resume)"
        by (rule IH [rotated]) (use cond(1) in \<open>simp add: in_lex_prod\<close>)
      then show ?thesis unfolding loop rest_step [OF cond j] .
    qed
    consider (star) "nth_opt p i = Some STAR"
      | (question) "nth_opt p i = Some QUESTION"
      | (same) "nth_opt p i = Some (t ! j)" "nth_opt p i \<noteq> Some STAR" "nth_opt p i \<noteq> Some QUESTION"
      | (other) "nth_opt p i \<noteq> Some STAR" "nth_opt p i \<noteq> Some QUESTION" "nth_opt p i \<noteq> Some (t ! j)"
      by blast
    then show ?thesis
    proof cases
      case star
      then have i: "i < length p" by (auto simp: nth_opt_def split: if_splits)
      have "glob_inv p t (i + 1) j (Some i) j" using i le by (simp add: glob_inv_def)
      then have "glob_loop p t (i + 1) j (Some i) j = Some (glob_rest p t (i + 1) j (Some i) j)"
        by (rule IH [rotated]) (use i le in \<open>auto simp: in_lex_prod\<close>)
      then show ?thesis
        using star j rest_new_star [OF inv star j] by (simp add: glob_loop.simps [of p t i j])
    next
      case question
      show ?thesis
        by (rule step) (use question j in \<open>auto simp: nth_opt_def one_matches_def glob_loop.simps [of p t i j] split: if_splits\<close>)
    next
      case same
      show ?thesis
        by (rule step) (use same j in \<open>auto simp: nth_opt_def one_matches_def glob_loop.simps [of p t i j] split: if_splits\<close>)
    next
      case other
      note no = rest_mismatch [OF j other]
      show ?thesis
      proof (cases star)
        case None
        then show ?thesis using other j no by (simp add: glob_loop.simps [of p t i j] glob_rest_def)
      next
        case (Some s)
        have resume: "resume < length t" using le j by simp
        have "glob_inv p t (s + 1) (resume + 1) (Some s) (resume + 1)"
          using inv resume Some by (simp add: glob_inv_def)
        then have "glob_loop p t (s + 1) (resume + 1) (Some s) (resume + 1)
            = Some (glob_rest p t (s + 1) (resume + 1) (Some s) (resume + 1))"
          by (rule IH [rotated]) (use resume in \<open>auto simp: in_lex_prod\<close>)
        then show ?thesis
          using Some other j rest_resume [OF no resume] by (simp add: glob_loop.simps [of p t i j])
      qed
    qed
  qed
qed

lemma glob_matches_total: "glob_matches p t = Some (globs p t)"
proof -
  have "glob_inv p t 0 0 None 0" by (simp add: glob_inv_def)
  then show ?thesis using glob_loop_decides by (simp add: glob_matches_def glob_rest_def)
qed

section \<open>Properties\<close>

text \<open>
  C38: the matcher returns, and answers what the pattern means.  For every pattern and every
  text the loop with its single resume point ends, and says the text matches exactly when it
  does under the recursive meaning, where a star stands for any run of characters: forgetting
  all but the last star loses no match.
\<close>

theorem glob_matches_correct: "glob_matches pattern s = Some (globs pattern s)"
  by (rule glob_matches_total)

text \<open>
  A pattern with no wildcard is an exact test.  Where the pattern holds neither a star
  nor a question mark, the only text that matches is the pattern itself.
\<close>

theorem glob_exact:
  assumes "STAR \<notin> set pattern" "QUESTION \<notin> set pattern"
  shows "glob_matches pattern s = Some (s = pattern)"
proof -
  have "globs pattern s \<longleftrightarrow> s = pattern"
    using assms by (induction pattern arbitrary: s) (auto split: list.splits)
  then show ?thesis by (simp add: glob_matches_total)
qed

theorem glob_exact_witness: "glob_matches [0x61, 0x62] [0x61, 0x62, 0x63] = Some False"
  using glob_exact [of "[0x61, 0x62]" "[0x61, 0x62, 0x63]"] by simp

end
