(* ===== verification/Rank.thy ===== *)
theory Rank
  imports Prelude
begin

text \<open>
  Reaching a row without walking to it, \<open>crates/scour-index-native/src/rank.rs\<close>: the rank of
  the live rows (one counter every 512 rows, then whole bytes, then bits) and the search for
  the first row not above a bound in a column that never rises.

  The lemmas show that the rank is the number of live rows before a row, and that the search
  finds the boundary.
\<close>

section \<open>The operations\<close>

definition STRIDE :: nat where "STRIDE = 512"

record live_rank =
  lr_prefix :: "u32 list"
  lr_rows :: nat
  lr_all_live :: bool

definition count_ones :: "u8 \<Rightarrow> nat" where
  "count_ones w = length (filter (bit w) [0 ..< 8])"

definition live_bit :: "bytes \<Rightarrow> nat \<Rightarrow> bool" where
  "live_bit alive row =
     (case nth_opt alive (row div 8) of
        Some byte \<Rightarrow> byte AND push_bit (row mod 8) 1 \<noteq> 0
      | None \<Rightarrow> False)"

text \<open>A loop over rows that adds one for each set bit.\<close>

definition count_rows :: "bytes \<Rightarrow> nat \<Rightarrow> nat \<Rightarrow> nat" where
  "count_rows alive a b = length (filter (live_bit alive) [a ..< b])"

definition ones :: "bytes \<Rightarrow> nat \<Rightarrow> nat \<Rightarrow> nat" where
  "ones alive a b =
     (if b \<le> a then 0
      else
        let first_whole = (a + 7) div 8; last_whole = b div 8
        in count_rows alive a (min (first_whole * 8) b)
           + (if first_whole < last_whole
              then sum_list (map count_ones (drop (min first_whole (length alive)) (take (min last_whole (length alive)) alive)))
              else 0)
           + count_rows alive (max (last_whole * 8) a) b)"

function prefix_loop :: "bytes \<Rightarrow> u32 \<Rightarrow> u32 list" where
  "prefix_loop alive running =
     (if alive = [] then []
      else running # prefix_loop (drop (STRIDE div 8) alive)
             (running + as_u32 (sum_list (map count_ones (take (STRIDE div 8) alive)))))"
  by pat_completeness auto
termination
  by (relation "measure (\<lambda>(alive, _). length alive)") (auto simp: STRIDE_def)

declare prefix_loop.simps [simp del]

definition live_rank_build :: "bytes \<Rightarrow> nat \<Rightarrow> live_rank" where
  "live_rank_build alive rows =
     (if alive = [] then \<lparr>lr_prefix = [], lr_rows = rows, lr_all_live = True\<rparr>
      else \<lparr>lr_prefix = prefix_loop alive 0, lr_rows = rows, lr_all_live = False\<rparr>)"

definition rank_tail :: "live_rank \<Rightarrow> bytes \<Rightarrow> nat \<Rightarrow> nat" where
  "rank_tail t alive row = ones alive ((length (lr_prefix t) - 1) * STRIDE) row"

definition upto_row :: "live_rank \<Rightarrow> bytes \<Rightarrow> nat \<Rightarrow> nat" where
  "upto_row t alive row =
     (let row = min row (lr_rows t)
      in if lr_all_live t then row
         else
           let entry = row div STRIDE
           in case nth_opt (lr_prefix t) entry of
                Some n \<Rightarrow> unat n + ones alive (entry * STRIDE) row
              | None \<Rightarrow> (if lr_prefix t = [] then 0 else unat (last (lr_prefix t))) + rank_tail t alive row)"

definition rank_total :: "live_rank \<Rightarrow> bytes \<Rightarrow> nat" where
  "rank_total t alive = upto_row t alive (lr_rows t)"

definition first_at_or_below :: "nat \<Rightarrow> i64 \<Rightarrow> (nat \<Rightarrow> i64) \<Rightarrow> nat" where
  "first_at_or_below rows bound at = bsearch (\<lambda>mid. sint bound < sint (at mid)) 0 rows"

section \<open>Counting\<close>

lemma count_rows_split: "a \<le> b \<Longrightarrow> b \<le> c \<Longrightarrow> count_rows alive a c = count_rows alive a b + count_rows alive b c"
  using upt_add_eq_append [of a b "c - b"] by (simp add: count_rows_def)

lemma count_rows_empty [simp]: "b \<le> a \<Longrightarrow> count_rows alive a b = 0"
  by (simp add: count_rows_def)

lemma count_rows_beyond: "8 * length alive \<le> a \<Longrightarrow> count_rows alive a b = 0"
  by (auto simp: count_rows_def filter_empty_conv live_bit_def nth_opt_def)

lemma live_bit_byte: "k < length alive \<Longrightarrow> i < 8 \<Longrightarrow> live_bit alive (8 * k + i) = bit (alive ! k) i"
  by (simp add: live_bit_def nth_opt_def bit_iff_and_push_bit_not_eq_0)

lemma count_rows_byte:
  assumes "k < length alive"
  shows "count_rows alive (8 * k) (8 * Suc k) = count_ones (alive ! k)"
proof -
  have "[8 * k ..< 8 * Suc k] = map (\<lambda>i. 8 * k + i) [0 ..< 8]"
    using map_add_upt [of "8 * k" 8] by (simp add: add.commute)
  then have "count_rows alive (8 * k) (8 * Suc k) = length (filter (\<lambda>i. live_bit alive (8 * k + i)) [0 ..< 8])"
    by (simp only: count_rows_def filter_map length_map o_def)
  also have "filter (\<lambda>i. live_bit alive (8 * k + i)) [0 ..< 8] = filter (bit (alive ! k)) [0 ..< 8]"
    by (rule filter_cong [OF refl]) (simp only: live_bit_byte [OF assms] set_upt atLeastLessThan_iff)
  finally show ?thesis by (simp only: count_ones_def)
qed

lemma count_rows_bytes:
  "b \<le> length alive \<Longrightarrow> a \<le> b \<Longrightarrow>
   sum_list (map count_ones (drop a (take b alive))) = count_rows alive (8 * a) (8 * b)"
proof (induction b)
  case (Suc b)
  show ?case
  proof (cases "a = Suc b")
    case False
    then have le: "a \<le> b" "b < length alive" using Suc.prems by auto
    have "drop a (take (Suc b) alive) = drop a (take b alive) @ [alive ! b]"
      using le by (simp add: take_Suc_conv_app_nth)
    then show ?thesis
      using Suc.IH le count_rows_byte [OF le(2)] count_rows_split [of "8 * a" "8 * b" "8 * Suc b" alive] by simp
  qed simp
qed simp

lemma count_whole_bytes:
  assumes "a \<le> b"
  shows "sum_list (map count_ones (drop (min a (length alive)) (take (min b (length alive)) alive)))
    = count_rows alive (8 * a) (8 * b)"
proof -
  let ?n = "length alive"
  have "sum_list (map count_ones (drop (min a ?n) (take (min b ?n) alive)))
      = count_rows alive (8 * min a ?n) (8 * min b ?n)"
    by (rule count_rows_bytes) (use assms in auto)
  also have "\<dots> = count_rows alive (8 * a) (8 * b)"
  proof (cases "a \<le> ?n")
    case True
    have "count_rows alive (8 * a) (8 * b) = count_rows alive (8 * a) (8 * min b ?n) + count_rows alive (8 * min b ?n) (8 * b)"
      by (rule count_rows_split) (use True assms in auto)
    moreover have "count_rows alive (8 * min b ?n) (8 * b) = 0"
      by (cases "b \<le> ?n") (auto simp: min_def count_rows_beyond)
    ultimately show ?thesis using True by simp
  next
    case False
    then show ?thesis using assms by (simp add: count_rows_beyond)
  qed
  finally show ?thesis .
qed

lemma ones_aligned:
  assumes "a mod 8 = 0"
  shows "ones alive a b = count_rows alive a b"
proof (cases "b \<le> a")
  case False
  have fw: "(a + 7) div 8 * 8 = a" using assms by presburger
  have le: "a \<le> b div 8 * 8" using False assms by presburger
  have le': "(a + 7) div 8 \<le> b div 8" using fw le by simp
  have "(if (a + 7) div 8 < b div 8
      then sum_list (map count_ones (drop (min ((a + 7) div 8) (length alive)) (take (min (b div 8) (length alive)) alive)))
      else 0) = count_rows alive a (b div 8 * 8)"
    using count_whole_bytes [OF le', of alive] fw le' by (auto simp: mult.commute)
  then have "ones alive a b = count_rows alive a (b div 8 * 8) + count_rows alive (b div 8 * 8) b"
    using False fw le by (simp add: ones_def Let_def max_absorb1 min_absorb1)
  also have "\<dots> = count_rows alive a b"
    by (rule count_rows_split [symmetric]) (use le in simp_all)
  finally show ?thesis .
qed (simp add: ones_def)

lemma prefix_loop_nth:
  "k * 64 < length alive \<Longrightarrow>
   nth_opt (prefix_loop alive running) k = Some (running + as_u32 (count_rows alive 0 (k * STRIDE)))"
proof (induction k arbitrary: alive running)
  case 0
  then show ?case by (cases alive) (simp_all add: prefix_loop.simps [of "_ # _"] nth_opt_def)
next
  case (Suc k)
  let ?head = "take 64 alive" and ?tail = "drop 64 alive"
  have ne: "alive \<noteq> []" using Suc.prems by auto
  have nth: "nth_opt (x # xs) (Suc i) = nth_opt xs i" for x :: u32 and xs i by (simp add: nth_opt_def)
  have head: "sum_list (map count_ones ?head) = count_rows alive 0 STRIDE"
    using count_rows_bytes [of 64 alive 0] Suc.prems by (simp add: STRIDE_def)
  have bit: "live_bit ?tail i = live_bit alive (STRIDE + i)" for i
  proof -
    have "(STRIDE + i) div 8 = 64 + i div 8" "(STRIDE + i) mod 8 = i mod 8"
      unfolding STRIDE_def by presburger+
    moreover have "nth_opt ?tail (i div 8) = nth_opt alive (64 + i div 8)" using Suc.prems by (auto simp: nth_opt_def)
    ultimately show ?thesis by (simp only: live_bit_def)
  qed
  have "[STRIDE ..< Suc k * STRIDE] = map (\<lambda>i. STRIDE + i) [0 ..< k * STRIDE]"
    using map_add_upt [of STRIDE "k * STRIDE"] by (simp add: add.commute)
  then have tail: "count_rows ?tail 0 (k * STRIDE) = count_rows alive STRIDE (Suc k * STRIDE)"
    by (simp add: count_rows_def filter_map o_def flip: bit)
  have "count_rows alive 0 (Suc k * STRIDE) = count_rows alive 0 STRIDE + count_rows alive STRIDE (Suc k * STRIDE)"
    by (rule count_rows_split) simp_all
  then show ?case
    using Suc.IH [of ?tail "running + as_u32 (count_rows alive 0 STRIDE)"] Suc.prems ne head tail
    by (simp add: prefix_loop.simps [of alive] nth STRIDE_def add.assoc)
qed

lemma length_prefix_loop: "length (prefix_loop alive running) = (length alive + 63) div 64"
proof (induction alive running rule: prefix_loop.induct)
  case (1 alive running)
  show ?case
  proof (cases "alive = []")
    case False
    then have "(length alive + 63) div 64 = Suc ((length alive - 64 + 63) div 64)"
      by (cases "64 \<le> length alive") (auto simp: div_eq_0_iff Suc_le_eq neq_Nil_conv intro!: div_nat_eqI)
    then show ?thesis using 1 False by (simp add: prefix_loop.simps [of alive] STRIDE_def)
  qed (simp add: prefix_loop.simps)
qed

section \<open>Properties\<close>

text \<open>No more rows are live than there are bits, and every stride's sum is the count up to it.\<close>

lemma count_rows_le: "count_rows alive 0 n \<le> 8 * length alive"
proof (cases "n \<le> 8 * length alive")
  case True
  then show ?thesis using length_filter_le [of "live_bit alive" "[0 ..< n]"] by (simp add: count_rows_def)
next
  case beyond: False
  then have "count_rows alive 0 n = count_rows alive 0 (8 * length alive)"
    using count_rows_split [of 0 "8 * length alive" n alive] by (simp add: count_rows_beyond)
  then show ?thesis using length_filter_le [of "live_bit alive" "[0 ..< 8 * length alive]"] by (simp add: count_rows_def)
qed

lemma prefix_at:
  assumes "k < length (prefix_loop alive 0)"
  shows "nth_opt (prefix_loop alive 0) k = Some (as_u32 (count_rows alive 0 (k * STRIDE)))"
proof -
  have "Suc k \<le> (length alive + 63) div 64" using assms by (simp only: length_prefix_loop Suc_leI)
  then have "Suc k * 64 \<le> (length alive + 63) div 64 * 64" by (rule mult_le_mono1)
  also have "\<dots> \<le> length alive + 63" by simp
  finally have "k * 64 < length alive" by simp
  from prefix_loop_nth [OF this] show ?thesis by simp
qed

text \<open>
  C39: the rank is the number of live rows before a row.  For a bitmap of any length (no
  bitmap: every row is live) and any row, past the end too, the counter and what is counted
  after it make the number of live rows before it.
\<close>

theorem rank_counts:
  assumes "8 * length alive < 2 ^ 32"
  shows "upto_row (live_rank_build alive rows) alive row
    = length (filter (\<lambda>r. alive = [] \<or> live_bit alive r) [0 ..< min row rows])"
proof (cases "alive = []")
  case False
  let ?r = "min row rows" and ?p = "prefix_loop alive 0"
  have u: "unat (as_u32 (count_rows alive 0 n)) = count_rows alive 0 n" for n
    using assms count_rows_le [of alive n] by (intro unat_u32) simp
  have aligned: "ones alive (k * STRIDE) n = count_rows alive (k * STRIDE) n" for k n
    by (rule ones_aligned) (simp add: STRIDE_def)
  have "upto_row (live_rank_build alive rows) alive row = count_rows alive 0 ?r"
  proof (cases "?r div STRIDE < length ?p")
    case True
    have "?r div STRIDE * STRIDE \<le> ?r" by (rule div_times_less_eq_dividend)
    then show ?thesis
      using prefix_at [OF True] False u count_rows_split [of 0 "?r div STRIDE * STRIDE" ?r alive]
      by (simp add: upto_row_def live_rank_build_def Let_def aligned)
  next
    case past: False
    let ?l = "length ?p - 1"
    have ne: "?p \<noteq> []" using False length_prefix_loop [of alive 0] by (cases alive) auto
    have "nth_opt ?p ?l = Some (last ?p)" using ne by (simp add: nth_opt_def last_conv_nth)
    then have last: "unat (last ?p) = count_rows alive 0 (?l * STRIDE)" using prefix_at [of ?l alive] ne u by simp
    have none: "nth_opt ?p (?r div STRIDE) = None" using past by (simp add: nth_opt_def)
    have "?l \<le> ?r div STRIDE" using past by simp
    then have "?l * STRIDE \<le> ?r" using div_times_less_eq_dividend le_trans mult_le_mono1 by blast
    then show ?thesis
      using none False ne last count_rows_split [of 0 "?l * STRIDE" ?r alive]
      by (simp add: upto_row_def live_rank_build_def Let_def aligned rank_tail_def)
  qed
  then show ?thesis using False by (simp add: count_rows_def)
qed (simp add: upto_row_def live_rank_build_def)

theorem rank_counts_witness:
  "upto_row (live_rank_build [0x0f, 0x01] 16) [0x0f, 0x01] 10
    = length (filter (\<lambda>r. live_bit [0x0f, 0x01] r) [0 ..< 10])"
  using rank_counts [of "[0x0f, 0x01]" 16 10] by (simp add: min_def)

text \<open>
  The search finds the boundary.  In a column that never rises with the row number,
  every row before the answer is above the bound and no row from it on is.
\<close>

theorem first_at_or_below_boundary:
  assumes "\<And>i j. i \<le> j \<Longrightarrow> j < rows \<Longrightarrow> sint (at j) \<le> sint (at i)"
  shows "first_at_or_below rows bound at \<le> rows
    \<and> (\<forall>i < rows. i < first_at_or_below rows bound at \<longleftrightarrow> sint bound < sint (at i))"
proof -
  have "first_at_or_below rows bound at \<le> rows"
    using bsearch_bounds [of 0 rows] by (simp add: first_at_or_below_def)
  moreover have "(\<forall>i < first_at_or_below rows bound at. sint bound < sint (at i))
      \<and> (\<forall>i < rows. first_at_or_below rows bound at \<le> i \<longrightarrow> \<not> sint bound < sint (at i))"
    unfolding first_at_or_below_def by (rule bsearch_spec) (use assms order_less_le_trans in \<open>blast | simp\<close>)+
  ultimately show ?thesis by (meson not_le)
qed

theorem first_at_or_below_boundary_witness:
  "1 < first_at_or_below 3 20 (\<lambda>i. [40, 30, 20] ! i) \<and> \<not> 2 < first_at_or_below 3 20 (\<lambda>i. [40, 30, 20] ! i)"
proof -
  have "sint (([40, 30, 20] :: i64 list) ! j) \<le> sint (([40, 30, 20] :: i64 list) ! i)" if "i \<le> j" "j < 3" for i j :: nat
    using that by (auto simp: less_Suc_eq numeral_3_eq_3 le_Suc_eq)
  from first_at_or_below_boundary [of 3 "\<lambda>i. [40, 30, 20] ! i", OF this, of 20]
  have b: "\<forall>i < 3. i < first_at_or_below 3 20 (\<lambda>i. [40, 30, 20] ! i)
      \<longleftrightarrow> sint (20 :: i64) < sint (([40, 30, 20] :: i64 list) ! i)" by blast
  from b [rule_format, of 1] b [rule_format, of 2] show ?thesis by simp
qed

text \<open>
  Within one byte the two ends overlap.  \<open>ones\<close> counts a range that starts and ends
  inside the same byte twice: of the two rows 3 and 4, both live, it makes four.  Every
  caller starts at a stride, a whole byte, where the count is right.
\<close>

theorem ones_counts_twice: "ones [0xff] 3 5 = 4 \<and> count_rows [0xff] 3 5 = 2"
  by (simp add: ones_def count_rows_def live_bit_def nth_opt_def upt_rec)

end
