(* ===== verification/Chars.thy ===== *)
theory Chars
  imports Prelude
begin

text \<open>
  Text as the query crate reads it: a list of characters, each its code point; the pieces of
  the standard library the parser calls, and the case folder of
  \<open>crates/scour-core/src/text.rs\<close>.  What Unicode says of a character (white space, letters,
  lower case) is a parameter; the lemmas use it through named facts only.
\<close>

type_synonym uchar = u32
type_synonym chars = "u32 list"

text \<open>A literal, one character of it, and the quote.\<close>

abbreviation chs :: "string \<Rightarrow> chars" where
  "chs s \<equiv> map of_char s"

abbreviation QUOTE :: uchar where "QUOTE \<equiv> 0x22"
abbreviation BANG :: uchar where "BANG \<equiv> 0x21"
abbreviation BAR :: uchar where "BAR \<equiv> 0x7c"
abbreviation SEMI :: uchar where "SEMI \<equiv> 0x3b"
abbreviation COLON :: uchar where "COLON \<equiv> 0x3a"
abbreviation DOT :: uchar where "DOT \<equiv> 0x2e"
abbreviation DASH :: uchar where "DASH \<equiv> 0x2d"
abbreviation CSLASH :: uchar where "CSLASH \<equiv> 0x2f"

text \<open>What the standard library's Unicode tables answer.\<close>

record unicode =
  is_whitespace :: "uchar \<Rightarrow> bool"
  is_alphabetic :: "uchar \<Rightarrow> bool"
  to_lowercase :: "uchar \<Rightarrow> chars"

text \<open>A table that knows ASCII.\<close>

definition ascii_unicode :: unicode where
  "ascii_unicode = \<lparr>
     is_whitespace = (\<lambda>c. c = 0x20 \<or> 9 \<le> c \<and> c \<le> 13),
     is_alphabetic = (\<lambda>c. 0x41 \<le> c \<and> c \<le> 0x5a \<or> 0x61 \<le> c \<and> c \<le> 0x7a),
     to_lowercase = (\<lambda>c. [if 0x41 \<le> c \<and> c \<le> 0x5a then c + 32 else c])\<rparr>"

section \<open>Prefixes, suffixes, pieces\<close>

fun strip_prefix :: "'a list \<Rightarrow> 'a list \<Rightarrow> 'a list option" where
  "strip_prefix [] s = Some s"
| "strip_prefix (p # ps) [] = None"
| "strip_prefix (p # ps) (c # s) = (if p = c then strip_prefix ps s else None)"

definition starts_with :: "'a list \<Rightarrow> 'a list \<Rightarrow> bool" where
  "starts_with p s = (strip_prefix p s \<noteq> None)"

definition strip_suffix :: "'a list \<Rightarrow> 'a list \<Rightarrow> 'a list option" where
  "strip_suffix p s = map_option rev (strip_prefix (rev p) (rev s))"

definition ends_with :: "'a list \<Rightarrow> 'a list \<Rightarrow> bool" where
  "ends_with p s = (strip_suffix p s \<noteq> None)"

definition trim_start :: "('a \<Rightarrow> bool) \<Rightarrow> 'a list \<Rightarrow> 'a list" where
  "trim_start P s = dropWhile P s"

definition trim_end :: "('a \<Rightarrow> bool) \<Rightarrow> 'a list \<Rightarrow> 'a list" where
  "trim_end P s = rev (dropWhile P (rev s))"

definition trim_both :: "('a \<Rightarrow> bool) \<Rightarrow> 'a list \<Rightarrow> 'a list" where
  "trim_both P s = trim_end P (trim_start P s)"

text \<open>\<open>find\<close> of a character, \<open>split_once\<close>, \<open>contains\<close>, \<open>join\<close>.\<close>

definition find_char :: "('a \<Rightarrow> bool) \<Rightarrow> 'a list \<Rightarrow> nat option" where
  "find_char P s = (let n = length (takeWhile (\<lambda>c. \<not> P c) s) in if n < length s then Some n else None)"

fun split_once :: "'a list \<Rightarrow> 'a list \<Rightarrow> ('a list \<times> 'a list) option" where
  "split_once sep [] = (if sep = [] then Some ([], []) else None)"
| "split_once sep (c # s) =
     (case strip_prefix sep (c # s) of
        Some rest \<Rightarrow> Some ([], rest)
      | None \<Rightarrow> map_option (\<lambda>(a, b). (c # a, b)) (split_once sep s))"

fun contains :: "'a list \<Rightarrow> 'a list \<Rightarrow> bool" where
  "contains p [] = (p = [])"
| "contains p (c # s) = (starts_with p (c # s) \<or> contains p s)"

fun join_with :: "'a list \<Rightarrow> 'a list list \<Rightarrow> 'a list" where
  "join_with sep [] = []"
| "join_with sep [w] = w"
| "join_with sep (w # w' # ws) = w @ sep @ join_with sep (w' # ws)"

lemma strip_prefix_Some: "strip_prefix p s = Some r \<longleftrightarrow> s = p @ r"
  by (induction p s rule: strip_prefix.induct) auto

lemma starts_with_iff: "starts_with p s \<longleftrightarrow> (\<exists>r. s = p @ r)"
  by (auto simp: starts_with_def strip_prefix_Some)

lemma strip_suffix_Some: "strip_suffix p s = Some r \<longleftrightarrow> s = r @ p"
proof -
  have "strip_suffix p s = Some r \<longleftrightarrow> rev s = rev p @ rev r"
    by (auto simp: strip_suffix_def strip_prefix_Some)
  also have "\<dots> \<longleftrightarrow> s = r @ p" by (metis rev_append rev_rev_ident)
  finally show ?thesis .
qed

lemma ends_with_iff: "ends_with p s \<longleftrightarrow> (\<exists>r. s = r @ p)"
  by (auto simp: ends_with_def strip_suffix_Some)

lemma contains_iff: "contains p s \<longleftrightarrow> (\<exists>a b. s = a @ p @ b)"
proof (induction s)
  case (Cons c s)
  show ?case
  proof
    assume "contains p (c # s)"
    then consider r where "c # s = p @ r" | a b where "s = a @ p @ b"
      using Cons.IH by (auto simp: starts_with_iff)
    then show "\<exists>a b. c # s = a @ p @ b"
      by cases (metis append_Nil, metis append_Cons)
  next
    assume "\<exists>a b. c # s = a @ p @ b"
    then obtain a b where s: "c # s = a @ p @ b" by blast
    have "starts_with p (c # s) \<or> (\<exists>a b. s = a @ p @ b)"
    proof (cases a)
      case Nil
      then show ?thesis using s unfolding starts_with_iff by auto
    qed (use s in auto)
    then show "contains p (c # s)" using Cons.IH by (simp only: contains.simps)
  qed
qed auto

lemma split_once_Some: "split_once sep s = Some (a, b) \<Longrightarrow> s = a @ sep @ b"
  by (induction sep s arbitrary: a rule: split_once.induct)
    (auto simp: strip_prefix_Some split: if_splits option.splits)

lemma find_char_Some:
  "find_char P s = Some n \<longleftrightarrow> n < length s \<and> P (s ! n) \<and> (\<forall>i < n. \<not> P (s ! i))"
proof
  assume "find_char P s = Some n"
  then have n: "n = length (takeWhile (\<lambda>c. \<not> P c) s)" "n < length s"
    by (auto simp: find_char_def Let_def split: if_splits)
  have "\<not> P (s ! i)" if "i < n" for i
    using that n set_takeWhileD [of "s ! i" "\<lambda>c. \<not> P c" s] by (metis nth_mem takeWhile_nth)
  then show "n < length s \<and> P (s ! n) \<and> (\<forall>i < n. \<not> P (s ! i))"
    using n nth_length_takeWhile [of "\<lambda>c. \<not> P c" s] by auto
next
  assume n: "n < length s \<and> P (s ! n) \<and> (\<forall>i < n. \<not> P (s ! i))"
  then have "takeWhile (\<lambda>c. \<not> P c) s = take n s" by (intro takeWhile_eq_take_P_nth) auto
  then show "find_char P s = Some n" using n by (simp add: find_char_def)
qed

lemma split_on_none: "c \<notin> set s \<Longrightarrow> split_on c s = [s]"
  by (induction s) auto

lemma split_on_append: "c \<notin> set a \<Longrightarrow> split_on c (a @ c # b) = a # split_on c b"
  by (induction a) auto

section \<open>Integers read and written\<close>

text \<open>A 64-bit signed integer as the number it holds; \<open>wrap\<close> is what a release build keeps.\<close>

definition wrap :: "int \<Rightarrow> int" where
  "wrap x = signed_take_bit 63 x"

definition in_i64 :: "int \<Rightarrow> bool" where
  "in_i64 x \<longleftrightarrow> - (2 ^ 63) \<le> x \<and> x < 2 ^ 63"

lemma wrap_id [simp]: "in_i64 x \<Longrightarrow> wrap x = x"
  by (simp add: wrap_def in_i64_def signed_take_bit_int_eq_self)

text \<open>\<open>from_str_radix\<close>: an optional sign, at least one digit, nothing else, no overflow.\<close>

fun digits_value :: "int \<Rightarrow> int \<Rightarrow> chars \<Rightarrow> int option" where
  "digits_value radix acc [] = Some acc"
| "digits_value radix acc (c # s) =
     (if 0x30 \<le> c \<and> uint c < 0x30 + radix then digits_value radix (radix * acc + (uint c - 0x30)) s else None)"

definition parse_radix :: "int \<Rightarrow> chars \<Rightarrow> int option" where
  "parse_radix radix s =
     (let (sign, ds) =
        (case s of
           c # r \<Rightarrow> if c = DASH then (- 1, r) else if c = 0x2b then (1, r) else (1, s)
         | [] \<Rightarrow> (1, s))
      in if ds = [] then None
         else Option.bind (digits_value radix 0 ds)
                (\<lambda>v. if in_i64 (sign * v) then Some (sign * v) else None))"

abbreviation parse_i64 :: "chars \<Rightarrow> int option" where
  "parse_i64 \<equiv> parse_radix 10"

definition is_digit :: "uchar \<Rightarrow> bool" where
  "is_digit c \<longleftrightarrow> 0x30 \<le> c \<and> c \<le> 0x39"

text \<open>Writing a number, padded with zeros to a width.\<close>

fun decimal :: "nat \<Rightarrow> chars" where
  "decimal n = (if n < 10 then [0x30 + of_nat n] else decimal (n div 10) @ [0x30 + of_nat (n mod 10)])"

declare decimal.simps [simp del]

definition padded :: "nat \<Rightarrow> nat \<Rightarrow> chars" where
  "padded width n = replicate (width - length (decimal n)) 0x30 @ decimal n"

definition digits :: "chars \<Rightarrow> bool" where
  "digits s \<longleftrightarrow> (\<forall>c \<in> set s. is_digit c)"

lemma digit_char: "n < 10 \<Longrightarrow> is_digit (0x30 + of_nat n) \<and> uint (0x30 + of_nat n :: uchar) = 0x30 + int n"
proof -
  assume n: "n < 10"
  have "uint (0x30 + of_nat n :: uchar) = 0x30 + int n"
    using n by (simp add: uint_word_ariths unsigned_of_nat take_bit_nat_def of_nat_mod)
  moreover from this have "is_digit (0x30 + of_nat n)"
    using n by (simp add: is_digit_def word_le_def)
  ultimately show ?thesis by simp
qed

lemma digits_value_append:
  "digits_value 10 acc (a @ b) = Option.bind (digits_value 10 acc a) (\<lambda>v. digits_value 10 v b)"
  by (induction a arbitrary: acc) auto

lemma decimal_split: "\<not> n < 10 \<Longrightarrow> decimal n = decimal (n div 10) @ [0x30 + of_nat (n mod 10)]"
  by (subst decimal.simps) (simp only: if_False)

lemma digits_decimal: "digits (decimal n)"
proof (induction n rule: decimal.induct)
  case (1 n)
  show ?case
  proof (cases "n < 10")
    case True
    then show ?thesis using digit_char [OF True] unfolding digits_def decimal.simps [of n] by simp
  next
    case False
    have "n mod 10 < 10" by simp
    note last = conjunct1 [OF digit_char [OF this]]
    show ?thesis
      unfolding decimal_split [OF False] using last 1 [OF False]
      by (simp only: digits_def set_append list.set ball_Un ball_simps simp_thms)
  qed
qed

lemma decimal_value: "\<exists>k. digits_value 10 acc (decimal n) = Some (acc * 10 ^ k + int n)"
proof (induction n arbitrary: acc rule: decimal.induct)
  case (1 n)
  have one: "digits_value 10 v [0x30 + of_nat m] = Some (v * 10 + int m)" if "m < 10" for v m
    using digit_char [OF that] that by (simp add: is_digit_def mult.commute)
  show ?case
  proof (cases "n < 10")
    case True
    then show ?thesis using one [OF True] by (simp add: decimal.simps [of n]) (metis power_one_right)
  next
    case False
    then obtain k where "digits_value 10 acc (decimal (n div 10)) = Some (acc * 10 ^ k + int (n div 10))"
      using 1 by blast
    moreover have "n mod 10 < 10" by simp
    note last = one [OF this]
    ultimately have "digits_value 10 acc (decimal n) = Some ((acc * 10 ^ k + int (n div 10)) * 10 + int (n mod 10))"
      unfolding decimal_split [OF False] digits_value_append by (simp only: bind.bind_lunit last)
    moreover have "int n = int (n div 10) * 10 + int (n mod 10)"
      by (metis div_mult_mod_eq of_nat_add of_nat_mult of_nat_numeral)
    ultimately show ?thesis by (intro exI [of _ "Suc k"]) (simp only: power_Suc algebra_simps)
  qed
qed

lemma decimal_nonempty: "decimal n \<noteq> []"
  by (simp add: decimal.simps [of n])

lemma zeros_value: "digits_value 10 0 (replicate k 0x30 @ s) = digits_value 10 0 s"
  by (induction k) auto

lemma digits_padded: "digits (padded w n)"
  using digits_decimal [of n] by (auto simp: padded_def digits_def is_digit_def)

lemma parse_padded: "in_i64 (int n) \<Longrightarrow> parse_i64 (padded w n) = Some (int n)"
proof -
  assume n: "in_i64 (int n)"
  have ne: "padded w n \<noteq> []" by (simp add: padded_def decimal_nonempty)
  then obtain c r where c: "padded w n = c # r" by (cases "padded w n") auto
  have "is_digit c" using digits_padded [of w n] by (simp add: c digits_def)
  then have "c \<noteq> DASH" "c \<noteq> 0x2b" by (auto simp: is_digit_def)
  moreover obtain k where "digits_value 10 0 (decimal n) = Some (0 * 10 ^ k + int n)" using decimal_value by blast
  then have "digits_value 10 0 (padded w n) = Some (int n)" by (simp add: padded_def zeros_value)
  ultimately show ?thesis using n by (simp add: parse_radix_def c Let_def)
qed

section \<open>The case folder\<close>

text \<open>\<open>DefaultFolder\<close>: lower case, without the combining dot above, dotless i as i.\<close>

definition fold_one :: "uchar \<Rightarrow> chars" where
  "fold_one lc = (if lc = 0x307 then [] else if lc = 0x131 then [0x69] else [lc])"

definition fold_into :: "unicode \<Rightarrow> chars \<Rightarrow> chars \<Rightarrow> chars" where
  "fold_into u src dest = foldl (\<lambda>dest c. foldl (\<lambda>dest lc. dest @ fold_one lc) dest (to_lowercase u c)) dest src"

definition fold_text :: "unicode \<Rightarrow> chars \<Rightarrow> chars" where
  "fold_text u src = fold_into u src []"

lemma fold_text_concat: "fold_text u src = concat (map (\<lambda>c. concat (map fold_one (to_lowercase u c))) src)"
  by (simp add: fold_text_def fold_into_def foldl_append_concat)

lemma fold_text_append [simp]: "fold_text u (a @ b) = fold_text u a @ fold_text u b"
  by (simp add: fold_text_concat)

lemma fold_text_Nil [simp]: "fold_text u [] = []"
  by (simp add: fold_text_concat)

text \<open>The documented laws of lower case the folder relies on.\<close>

definition lower_laws :: "unicode \<Rightarrow> bool" where
  "lower_laws u \<longleftrightarrow> (\<forall>c. \<forall>lc \<in> set (to_lowercase u c). to_lowercase u lc = [lc])
     \<and> to_lowercase u 0x69 = [0x69] \<and> to_lowercase u 0x49 = [0x69]
     \<and> to_lowercase u 0x131 = [0x131] \<and> to_lowercase u 0x130 = [0x69, 0x307]"

text \<open>
  Folding twice is folding once, and the four letters i are one.  With the documented
  laws of Unicode lower case, the folded form of any text folds to itself, so a term folded
  by the query meets a name folded by the index; and dotted, dotless, upper and lower i all
  fold to the plain one.
\<close>

theorem fold_idempotent:
  assumes "lower_laws u"
  shows "fold_text u (fold_text u s) = fold_text u s
    \<and> (\<forall>c \<in> {0x69, 0x49, 0x131, 0x130}. fold_text u [c] = [0x69])"
proof -
  have one: "fold_text u (fold_one lc) = fold_one lc" if "lc \<in> set (to_lowercase u c)" for c lc
    using assms that by (auto simp: lower_laws_def fold_one_def fold_text_concat)
  have "fold_text u (concat (map fold_one ls)) = concat (map fold_one ls)" if "set ls \<subseteq> set (to_lowercase u c)" for c ls
    using that by (induction ls) (use one in auto)
  from this [OF subset_refl] have char: "fold_text u (fold_text u [c]) = fold_text u [c]" for c
    by (simp add: fold_text_concat [of u "[c]"])
  have "fold_text u (fold_text u s) = fold_text u s"
  proof (induction s)
    case (Cons c s)
    then show ?case using char [of c] fold_text_append [of u "[c]" s] by simp
  qed simp
  then show ?thesis using assms by (auto simp: lower_laws_def fold_text_concat fold_one_def)
qed

definition turkish_unicode :: unicode where
  "turkish_unicode = ascii_unicode\<lparr>to_lowercase :=
     (\<lambda>c. if c = 0x130 then [0x69, 0x307] else to_lowercase ascii_unicode c)\<rparr>"

theorem fold_idempotent_witness: "fold_text turkish_unicode [0x130, 0x49] = [0x69, 0x69]"
proof -
  have upper: "\<not> (0x41 \<le> c + 0x20 \<and> c + 0x20 \<le> 0x5a) \<and> c + 0x20 \<noteq> 0x130" if "0x41 \<le> c" "c \<le> 0x5a" for c :: uchar
    using that by uint_arith
  have "lower_laws turkish_unicode"
    by (auto simp: lower_laws_def turkish_unicode_def ascii_unicode_def dest: upper)
  from fold_idempotent [OF this, of "[]"] show ?thesis
    using fold_text_append [of turkish_unicode "[0x130]" "[0x49]"] by simp
qed

end
