(* ===== verification/Dates.thy ===== *)
theory Dates
  imports Chars "HOL-Library.Signed_Division"
begin

text \<open>
  Dates without a calendar library: \<open>crates/scour-query/src/time.rs\<close> reads them and
  \<open>describe.rs\<close> writes them.  Days since the epoch are computed with 64-bit integers, the
  wrap-around of a release build written out as \<open>wrap\<close> and division truncating as Rust's
  does.

  The lemmas show that the two civil-date conversions are inverse, that the one counts the
  days of the Gregorian calendar, and that a day written is read back.
\<close>

section \<open>The operations\<close>

definition HOUR :: int where "HOUR = 3600"
definition DAY :: int where "DAY = 86400"

definition days_from_civil :: "int \<Rightarrow> int \<Rightarrow> int \<Rightarrow> int" where
  "days_from_civil y m d =
     (let y = (if m \<le> 2 then wrap (y - 1) else y);
          era = (if y \<ge> 0 then y else wrap (y - 399)) sdiv 400;
          yoe = wrap (y - wrap (era * 400));
          mp = wrap (m + 9) smod 12;
          doy = wrap (wrap (wrap (wrap (153 * mp) + 2) sdiv 5 + d) - 1);
          doe = wrap (wrap (wrap (wrap (yoe * 365) + yoe sdiv 4) - yoe sdiv 100) + doy)
      in wrap (wrap (wrap (era * 146097) + doe) - 719468))"

definition parse_iso_date :: "chars \<Rightarrow> int option" where
  "parse_iso_date s =
     (case split_on DASH s of
        [ys, ms, ds] \<Rightarrow>
          Option.bind (parse_i64 ys) (\<lambda>y. Option.bind (parse_i64 ms) (\<lambda>mo. Option.bind (parse_i64 ds) (\<lambda>d.
            if \<not> (1 \<le> mo \<and> mo \<le> 12) \<or> \<not> (1 \<le> d \<and> d \<le> 31) then None
            else Some (wrap (days_from_civil y mo d * DAY)))))
      | _ \<Rightarrow> None)"

definition named_window :: "chars \<Rightarrow> int option" where
  "named_window s =
     (if s \<in> {chs ''today'', chs ''bugun'', chs ''bug'' @ [0xfc] @ chs ''n''} then Some DAY
      else if s \<in> {chs ''yesterday'', chs ''dun'', chs ''d'' @ [0xfc] @ chs ''n''} then Some (2 * DAY)
      else if s \<in> {chs ''week'', chs ''thisweek'', chs ''hafta''} then Some (7 * DAY)
      else if s \<in> {chs ''month'', chs ''thismonth'', chs ''ay''} then Some (30 * DAY)
      else if s \<in> {chs ''year'', chs ''thisyear'', chs ''yil'', chs ''y'' @ [0x131] @ chs ''l''} then Some (365 * DAY)
      else None)"

definition window_unit :: "chars \<Rightarrow> int option" where
  "window_unit unit =
     (if unit \<in> {chs ''h'', chs ''s'', chs ''saat''} then Some HOUR
      else if unit \<in> {chs ''d'', chs ''g'', chs ''gun'', chs ''g'' @ [0xfc] @ chs ''n''} then Some DAY
      else if unit \<in> {chs ''w'', chs ''hafta''} then Some (7 * DAY)
      else if unit \<in> {chs ''m'', chs ''ay''} then Some (30 * DAY)
      else if unit \<in> {chs ''y'', chs ''yil'', chs ''y'' @ [0x131] @ chs ''l''} then Some (365 * DAY)
      else None)"

definition checked :: "int \<Rightarrow> int option" where
  "checked x = (if in_i64 x then Some x else None)"

definition relative_window :: "chars \<Rightarrow> int option" where
  "relative_window s =
     (case named_window s of
        Some w \<Rightarrow> Some w
      | None \<Rightarrow>
          Option.bind (find_char (\<lambda>c. \<not> is_digit c) s) (\<lambda>k.
          Option.bind (parse_i64 (take k s)) (\<lambda>n.
          Option.bind (window_unit (drop k s)) (\<lambda>mult. checked (n * mult)))))"

definition civil_from_days :: "int \<Rightarrow> int \<times> int \<times> int" where
  "civil_from_days z =
     (let z = wrap (z + 719468);
          era = (if z \<ge> 0 then z else wrap (z - 146096)) sdiv 146097;
          doe = wrap (z - wrap (era * 146097));
          yoe = (doe - doe sdiv 1460 + doe sdiv 36524 - doe sdiv 146096) sdiv 365;
          y = wrap (yoe + wrap (era * 400));
          doy = doe - (365 * yoe + yoe sdiv 4 - yoe sdiv 100);
          mp = (5 * doy + 2) sdiv 153;
          d = doy - (153 * mp + 2) sdiv 5 + 1;
          m = (if mp < 10 then mp + 3 else mp - 9)
      in (if m \<le> 2 then wrap (y + 1) else y, m, d))"

text \<open>\<open>format!("{y:04}-{m:02}-{d:02}")\<close>; the sign of a negative year counts to its width.\<close>

definition show_padded :: "nat \<Rightarrow> int \<Rightarrow> chars" where
  "show_padded width n = (if n < 0 then DASH # padded (width - 1) (nat (- n)) else padded width (nat n))"

definition iso_day :: "int \<Rightarrow> chars" where
  "iso_day secs =
     (let (y, m, d) = civil_from_days (secs div 86400)
      in show_padded 4 y @ [DASH] @ show_padded 2 m @ [DASH] @ show_padded 2 d)"

section \<open>Division\<close>

lemma sdiv_pos [simp]: "0 \<le> a \<Longrightarrow> 0 < b \<Longrightarrow> a sdiv b = (a :: int) div b"
  by (cases "a = 0") (simp_all add: signed_divide_int_def)

lemma smod_pos [simp]: "0 \<le> a \<Longrightarrow> 0 < b \<Longrightarrow> a smod b = (a :: int) mod b"
  by (cases "a = 0") (simp_all add: signed_modulo_int_def)

text \<open>The correction the code makes before dividing a negative number rounds down.\<close>

lemma sdiv_floor:
  assumes "0 < b"
  shows "(if 0 \<le> a then a else a - (b - 1)) sdiv b = (a :: int) div b"
proof (cases "0 \<le> a")
  case False
  then have "(a - (b - 1)) sdiv b = - ((b - 1 - a) div b)"
    using assms by (simp add: signed_divide_int_def sgn_mult)
  also have "\<dots> = a div b"
  proof -
    have "(b - 1 - a) div b = - (a div b)"
    proof (rule int_div_pos_eq)
      show "b - 1 - a = b * - (a div b) + (b - 1 - a mod b)"
        using mult_div_mod_eq [of b a] by (simp add: algebra_simps)
      show "0 \<le> b - 1 - a mod b" using pos_mod_bound [OF assms, of a] by simp
      show "b - 1 - a mod b < b" using pos_mod_sign [OF assms, of a] by simp
    qed
    then show ?thesis by simp
  qed
  finally show ?thesis using False by simp
qed (use assms in simp)

section \<open>The closed form\<close>

definition year_days :: "int \<Rightarrow> int" where
  "year_days y = 365 * y + y div 4 - y div 100 + y div 400"

definition month_days :: "int \<Rightarrow> int" where
  "month_days mp = (153 * mp + 2) div 5"

lemma year_days_era: "year_days y = y div 400 * 146097 + (y mod 400) * 365 + (y mod 400) div 4 - (y mod 400) div 100"
proof -
  define e r where "e = y div 400" and "r = y mod 400"
  have y: "y = 400 * e + r" by (simp add: e_def r_def)
  have r: "0 \<le> r" "r < 400" by (simp_all add: r_def)
  have "y = r + (100 * e) * 4" "y = r + (4 * e) * 100" using y by simp_all
  then have "y div 4 = 100 * e + r div 4" "y div 100 = 4 * e + r div 100"
    by (metis div_mult_self1 zero_neq_numeral)+
  then have "year_days y = e * 146097 + r * 365 + r div 4 - r div 100"
    using y r by (simp add: year_days_def e_def [symmetric])
  then show ?thesis by (simp only: e_def r_def)
qed

definition small_year :: "int \<Rightarrow> bool" where
  "small_year y \<longleftrightarrow> - 200000000000 \<le> y \<and> y \<le> 200000000000"

lemma days_from_civil_closed:
  assumes "small_year y" "1 \<le> m" "m \<le> 12" "1 \<le> d" "d \<le> 31"
  shows "days_from_civil y m d
    = year_days (if m \<le> 2 then y - 1 else y) + month_days ((m + 9) mod 12) + d - 1 - 719468"
proof -
  define y' where "y' = (if m \<le> 2 then y - 1 else y)"
  define e r where "e = y' div 400" and "r = y' mod 400"
  have y': "- 200000000001 \<le> y'" "y' \<le> 200000000000" using assms(1) by (auto simp: y'_def small_year_def)
  have e: "- 500000001 \<le> e" "e \<le> 500000000" using y' unfolding e_def by linarith+
  have r: "0 \<le> r" "r < 400" by (simp_all add: r_def)
  have split: "y' = 400 * e + r" by (simp add: e_def r_def)
  have mp: "0 \<le> (m + 9) mod 12" "(m + 9) mod 12 < 12" by simp_all
  have wy: "(if m \<le> 2 then wrap (y - 1) else y) = y'"
    using y' unfolding y'_def by (auto simp: in_i64_def intro!: wrap_id)
  have era: "(if y' \<ge> 0 then y' else wrap (y' - 399)) sdiv 400 = e"
    using sdiv_floor [of 400 y'] y' by (cases "0 \<le> y'") (simp_all add: e_def in_i64_def)
  have yoe: "wrap (y' - wrap (e * 400)) = r" using e r split by (simp add: in_i64_def)
  have md: "0 \<le> month_days ((m + 9) mod 12)" "month_days ((m + 9) mod 12) \<le> 400"
    using mp by (auto simp: month_days_def)
  have m9: "wrap (m + 9) smod 12 = (m + 9) mod 12" using assms(2,3) by (simp add: in_i64_def)
  have doy: "wrap (wrap (wrap (wrap (153 * (wrap (m + 9) smod 12)) + 2) sdiv 5 + d) - 1) = month_days ((m + 9) mod 12) + d - 1"
  proof -
    define k where "k = (m + 9) mod 12"
    have k: "0 \<le> k" "k < 12" using mp by (simp_all add: k_def)
    then have "wrap (wrap (153 * k) + 2) = 153 * k + 2" "0 \<le> 153 * k + 2" by (simp_all add: in_i64_def)
    moreover have "wrap (wrap (month_days k + d) - 1) = month_days k + d - 1"
      using md assms(4,5) unfolding k_def by (simp add: in_i64_def)
    ultimately show ?thesis unfolding m9 k_def [symmetric] month_days_def by simp
  qed
  have q: "0 \<le> r div 4" "r div 4 \<le> 99" "0 \<le> r div 100" "r div 100 \<le> 3" using r by auto
  have doe: "wrap (wrap (wrap (wrap (r * 365) + r sdiv 4) - r sdiv 100) + (month_days ((m + 9) mod 12) + d - 1))
      = r * 365 + r div 4 - r div 100 + (month_days ((m + 9) mod 12) + d - 1)"
    using r q md assms(4,5) by (simp add: in_i64_def)
  have "days_from_civil y m d
      = wrap (wrap (wrap (e * 146097) + (r * 365 + r div 4 - r div 100 + (month_days ((m + 9) mod 12) + d - 1))) - 719468)"
    unfolding days_from_civil_def Let_def wy era yoe doy doe ..
  also have "\<dots> = e * 146097 + (r * 365 + r div 4 - r div 100 + (month_days ((m + 9) mod 12) + d - 1)) - 719468"
    using e r q md assms(4,5) by (simp add: in_i64_def)
  finally show ?thesis
    using year_days_era [of y'] by (simp add: y'_def [symmetric] e_def [symmetric] r_def [symmetric])
qed

section \<open>From days to a date\<close>

text \<open>The first day, in an era of 400 years, of a year and of the year after it.\<close>

definition era_start :: "int \<Rightarrow> int" where
  "era_start r = r * 365 + r div 4 - r div 100"

definition era_end :: "int \<Rightarrow> int" where
  "era_end r = (if r = 399 then 146097 else era_start (r + 1))"

definition year_of_era :: "int \<Rightarrow> int" where
  "year_of_era doe = (doe - doe div 1460 + doe div 36524 - doe div 146096) div 365"

lemma year_of_era_step: "0 \<le> x \<Longrightarrow> x < 146096 \<Longrightarrow> year_of_era x \<le> year_of_era (x + 1)"
proof -
  assume x: "0 \<le> x" "x < 146096"
  have "x - x div 1460 + x div 36524 - x div 146096
      \<le> (x + 1) - (x + 1) div 1460 + (x + 1) div 36524 - (x + 1) div 146096"
  proof (cases "x = 146095")
    case False
    have "(x + 1) div 1460 \<le> x div 1460 + 1" by (simp add: zdiv_mono1 flip: div_add_self2)
    moreover have "x div 36524 \<le> (x + 1) div 36524" by (rule zdiv_mono1) simp_all
    moreover have "x div 146096 = 0" "(x + 1) div 146096 = 0" using x False by simp_all
    ultimately show ?thesis by linarith
  qed simp
  then show ?thesis unfolding year_of_era_def by (rule zdiv_mono1) simp
qed

lemma year_of_era_mono: "0 \<le> a \<Longrightarrow> a \<le> b \<Longrightarrow> b \<le> 146096 \<Longrightarrow> year_of_era a \<le> year_of_era b"
proof (induction "nat (b - a)" arbitrary: b)
  case (Suc n)
  then have b: "n = nat (b - 1 - a)" "a \<le> b - 1" "b - 1 \<le> 146096" "0 < b" by simp_all
  have "year_of_era a \<le> year_of_era (b - 1)" by (rule Suc.hyps(1) [OF b(1) Suc.prems(1) b(2,3)])
  moreover have "year_of_era (b - 1) \<le> year_of_era b" using year_of_era_step [of "b - 1"] b Suc.prems by simp
  ultimately show ?case by simp
qed simp

lemma year_of_era_ends: "\<forall>r \<in> set [0..399]. year_of_era (era_start r) = r \<and> year_of_era (era_end r - 1) = r"
  by code_simp

lemma era_end_le: "0 \<le> r \<Longrightarrow> r < 400 \<Longrightarrow> era_start r \<le> era_end r - 1 \<and> era_end r \<le> 146097 \<and> era_end r - era_start r \<le> 366"
proof -
  have "\<forall>r \<in> set [0..399]. era_start r \<le> era_end r - 1 \<and> era_end r \<le> 146097 \<and> era_end r - era_start r \<le> 366"
    by code_simp
  then show "0 \<le> r \<Longrightarrow> r < 400 \<Longrightarrow> era_start r \<le> era_end r - 1 \<and> era_end r \<le> 146097 \<and> era_end r - era_start r \<le> 366"
    by simp
qed

lemma year_of_era_unique:
  assumes "0 \<le> r" "r < 400" "era_start r \<le> doe" "doe < era_end r"
  shows "year_of_era doe = r"
proof -
  have "0 \<le> era_start r" using assms(1,2) by (simp add: era_start_def)
  then have "year_of_era (era_start r) \<le> year_of_era doe" "year_of_era doe \<le> year_of_era (era_end r - 1)"
    using assms era_end_le [OF assms(1,2)] by (auto intro!: year_of_era_mono)
  moreover have "r \<in> set [0..399]" using assms(1,2) by simp
  ultimately show ?thesis using year_of_era_ends by fastforce
qed

lemma year_of_era_exists:
  assumes "0 \<le> doe" "doe < 146097"
  obtains r where "0 \<le> r" "r < 400" "era_start r \<le> doe" "doe < era_end r"
proof -
  have "doe < era_start (int n) \<Longrightarrow> \<exists>r. 0 \<le> r \<and> r < int n \<and> era_start r \<le> doe \<and> doe < era_start (r + 1)" for n
  proof (induction n)
    case 0
    then show ?case using assms(1) by (simp add: era_start_def)
  next
    case (Suc n)
    then show ?case
      by (cases "doe < era_start (int n)") (force, intro exI [of _ "int n"], simp add: add.commute)
  qed
  note below = this [of 399]
  show ?thesis
  proof (cases "doe < era_start 399")
    case True
    then obtain r where r: "0 \<le> r" "r < 399" "era_start r \<le> doe" "doe < era_start (r + 1)"
      using below by auto
    then have "era_end r = era_start (r + 1)" by (simp add: era_end_def)
    with r show ?thesis by (intro that [of r]) simp_all
  next
    case False
    then show ?thesis using assms(2) by (intro that [of 399]) (simp_all add: era_end_def)
  qed
qed

lemma month_of_day:
  assumes "0 \<le> doy" "doy \<le> 365"
  shows "0 \<le> (5 * doy + 2) div 153 \<and> (5 * doy + 2) div 153 \<le> 11
    \<and> month_days ((5 * doy + 2) div 153) \<le> doy \<and> doy - month_days ((5 * doy + 2) div 153) \<le> 30"
proof -
  have "\<forall>doy \<in> set [0..365]. 0 \<le> (5 * doy + 2) div 153 \<and> (5 * doy + 2) div 153 \<le> 11
      \<and> month_days ((5 * doy + 2) div 153) \<le> doy \<and> doy - month_days ((5 * doy + 2) div 153) \<le> 30"
    by code_simp
  moreover have "doy \<in> set [0..365]" using assms by simp
  ultimately show ?thesis by blast
qed

text \<open>Days whose year stays small.\<close>

definition small_days :: "int \<Rightarrow> bool" where
  "small_days z \<longleftrightarrow> - 70000000000000 \<le> z \<and> z \<le> 70000000000000"

lemma civil_from_days_closed:
  assumes "small_days z"
  defines "e \<equiv> (z + 719468) div 146097" and "doe \<equiv> (z + 719468) mod 146097"
  defines "r \<equiv> year_of_era doe"
  defines "doy \<equiv> doe - era_start r"
  defines "mp \<equiv> (5 * doy + 2) div 153"
  shows "0 \<le> r \<and> r < 400 \<and> 0 \<le> doy \<and> doy \<le> 365
    \<and> civil_from_days z =
      ((if mp < 10 then 400 * e + r else 400 * e + r + 1), (if mp < 10 then mp + 3 else mp - 9), doy - month_days mp + 1)"
proof -
  define y where "y = z + 719468"
  have y: "- 70000000719468 \<le> y" "y \<le> 70000000719468" using assms(1) by (simp_all add: y_def small_days_def)
  have e: "e = y div 146097" and doe: "doe = y mod 146097" by (simp_all add: e_def doe_def y_def)
  have split: "y = 146097 * e + doe" by (simp add: e doe)
  have doe_range: "0 \<le> doe" "doe < 146097" by (simp_all add: doe)
  have e_range: "- 480000000 \<le> e" "e \<le> 480000000" using y unfolding e by linarith+
  obtain r' where r': "0 \<le> r'" "r' < 400" "era_start r' \<le> doe" "doe < era_end r'"
    using year_of_era_exists [OF doe_range] .
  then have r: "r = r'" unfolding r_def by (rule year_of_era_unique)
  have doy: "0 \<le> doy" "doy \<le> 365"
    using r' era_end_le [OF r'(1,2)] by (simp_all add: doy_def r)
  have mp: "0 \<le> mp" "mp \<le> 11" "month_days mp \<le> doy" "doy - month_days mp \<le> 30"
    using month_of_day [OF doy] by (simp_all add: mp_def)
  have wz: "wrap (z + 719468) = y" using y by (simp add: y_def in_i64_def)
  have era: "(if y \<ge> 0 then y else wrap (y - 146096)) sdiv 146097 = e"
    using sdiv_floor [of 146097 y] y by (cases "0 \<le> y") (simp_all add: e in_i64_def)
  have wdoe: "wrap (y - wrap (e * 146097)) = doe" using e_range doe_range split by (simp add: in_i64_def)
  have yoe: "(doe - doe sdiv 1460 + doe sdiv 36524 - doe sdiv 146096) sdiv 365 = r"
  proof -
    have "doe div 1460 \<le> doe" using zdiv_mono2 [of doe 1 1460] doe_range by simp
    moreover have "doe div 146096 \<le> doe div 36524" using doe_range by (simp add: zdiv_mono2)
    ultimately show ?thesis using doe_range by (simp add: r_def year_of_era_def)
  qed
  have wy: "wrap (r + wrap (e * 400)) = 400 * e + r" using e_range r' r by (simp add: in_i64_def)
  have wdoy: "doe - (365 * r + r sdiv 4 - r sdiv 100) = doy" using r' r by (simp add: doy_def era_start_def)
  have wmp: "(5 * doy + 2) sdiv 153 = mp" using doy by (simp add: mp_def)
  have wd: "doy - (153 * mp + 2) sdiv 5 + 1 = doy - month_days mp + 1" using mp by (simp add: month_days_def)
  have wy1: "wrap (400 * e + r + 1) = 400 * e + r + 1" using e_range r' r by (simp add: in_i64_def)
  have month: "(if mp < 10 then mp + 3 else mp - 9) \<le> 2 \<longleftrightarrow> \<not> mp < 10" using mp by simp
  show ?thesis
    using r' r doy unfolding civil_from_days_def Let_def wz era wdoe yoe wy wdoy wmp wd wy1 month by simp
qed

section \<open>The Gregorian calendar\<close>

definition leap :: "int \<Rightarrow> bool" where
  "leap y \<longleftrightarrow> y mod 4 = 0 \<and> (y mod 100 \<noteq> 0 \<or> y mod 400 = 0)"

definition month_len :: "int \<Rightarrow> int \<Rightarrow> int" where
  "month_len y m = (if m = 2 then if leap y then 29 else 28 else if m \<in> {4, 6, 9, 11} then 30 else 31)"

definition valid_date :: "int \<Rightarrow> int \<Rightarrow> int \<Rightarrow> bool" where
  "valid_date y m d \<longleftrightarrow> 1 \<le> m \<and> m \<le> 12 \<and> 1 \<le> d \<and> d \<le> month_len y m"

definition next_date :: "int \<Rightarrow> int \<Rightarrow> int \<Rightarrow> int \<times> int \<times> int" where
  "next_date y m d =
     (if d < month_len y m then (y, m, d + 1) else if m < 12 then (y, m + 1, 1) else (y + 1, 1, 1))"

lemma div_step: "0 < k \<Longrightarrow> (y :: int) div k = (y - 1) div k + (if y mod k = 0 then 1 else 0)"
proof -
  assume k: "0 < k"
  have y: "y = k * (y div k) + y mod k" by simp
  show ?thesis
  proof (cases "y mod k = 0")
    case True
    have "(y - 1) div k = y div k - 1"
      by (rule int_div_pos_eq [of _ _ _ "k - 1"]) (use y True k in \<open>auto simp: algebra_simps\<close>)
    then show ?thesis using True by simp
  next
    case False
    have "(y - 1) div k = y div k"
      by (rule int_div_pos_eq [of _ _ _ "y mod k - 1"])
        (use y False k pos_mod_sign [OF k, of y] pos_mod_bound [OF k, of y] in auto)
    then show ?thesis using False by simp
  qed
qed

lemma year_days_step: "year_days y = year_days (y - 1) + (if leap y then 366 else 365)"
proof -
  have m: "y mod 400 = 0 \<Longrightarrow> y mod 100 = 0" "y mod 100 = 0 \<Longrightarrow> y mod 4 = 0"
    using mod_mod_cancel [of 100 400 y] mod_mod_cancel [of 4 100 y] by simp_all
  define p q r where "p = (y - 1) div 4" and "q = (y - 1) div 100" and "r = (y - 1) div 400"
  have "year_days y = 365 * y + (p + (if y mod 4 = 0 then 1 else 0)) - (q + (if y mod 100 = 0 then 1 else 0))
      + (r + (if y mod 400 = 0 then 1 else 0))"
    unfolding year_days_def p_def q_def r_def
    using div_step [of 4 y] div_step [of 100 y] div_step [of 400 y] by (simp only: zero_less_numeral simp_thms)
  moreover have "year_days (y - 1) = 365 * (y - 1) + p - q + r" by (simp only: year_days_def p_def q_def r_def)
  ultimately show ?thesis
    unfolding leap_def using m
    by (cases "y mod 4 = 0"; cases "y mod 100 = 0"; cases "y mod 400 = 0") simp_all
qed

section \<open>Properties\<close>

text \<open>
  C40: the days are those of the Gregorian calendar.  The first of January 1970 is day 0, and
  for every date of the proleptic calendar, in any year up to two hundred thousand million
  either side, the date after it is one day later: across months, February in leap years,
  centuries and years.
\<close>

theorem days_count_calendar:
  assumes "valid_date y m d" "small_year y" "small_year (y + 1)" "next_date y m d = (y', m', d')"
  shows "days_from_civil 1970 1 1 = 0 \<and> days_from_civil y' m' d' = days_from_civil y m d + 1"
proof -
  have epoch: "days_from_civil 1970 1 1 = 0"
    by (simp add: days_from_civil_closed small_year_def year_days_def month_days_def)
  have "1 \<le> m" "m \<le> 12" and d: "1 \<le> d" "d \<le> 31"
    using assms(1) by (auto simp: valid_date_def month_len_def split: if_splits)
  then have "m \<in> set [1..12]" by simp
  also have "[1..12] = [1, 2, 3, 4, 5, 6, 7, 8, 9, 10, 11, 12 :: int]" by code_simp
  finally have m: "m \<in> {1, 2, 3, 4, 5, 6, 7, 8, 9, 10, 11, 12}" by simp
  show ?thesis
  proof (cases "d < month_len y m")
    case True
    then have "y' = y" "m' = m" "d' = d + 1" "d + 1 \<le> 31"
      using assms(4) by (auto simp: next_date_def month_len_def split: if_splits)
    then show ?thesis using epoch assms(1,2) d by (simp add: days_from_civil_closed valid_date_def)
  next
    case False
    then have len: "d = month_len y m" using assms(1) by (simp add: valid_date_def)
    show ?thesis
    proof (cases "m < 12")
      case True
      then have "y' = y" "m' = m + 1" "d' = 1" using assms(4) False by (auto simp: next_date_def)
      then show ?thesis
        using epoch assms(2) d m True year_days_step [of y]
        by (auto simp: days_from_civil_closed len month_len_def month_days_def)
    next
      case dec: False
      then have "y' = y + 1" "m' = 1" "d' = 1" "m = 12" using assms(4) False m by (auto simp: next_date_def)
      then show ?thesis
        using epoch assms(2,3) d by (simp add: days_from_civil_closed len month_len_def month_days_def)
    qed
  qed
qed

theorem days_count_calendar_witness: "days_from_civil 2024 3 1 = days_from_civil 2024 2 29 + 1"
  using days_count_calendar [of 2024 2 29 2024 3 1]
  by (simp add: valid_date_def small_year_def next_date_def month_len_def leap_def)

lemma civil_year_small:
  assumes "small_days z" "civil_from_days z = (y, m, d)"
  shows "y \<le> 400000000000"
proof -
  let ?e = "(z + 719468) div 146097" and ?r = "year_of_era ((z + 719468) mod 146097)"
  have "?r < 400" "y \<le> 400 * ?e + ?r + 1"
    using civil_from_days_closed [OF assms(1)] unfolding assms(2) by (auto split: if_splits)
  moreover have "?e \<le> 480000000" using assms(1) unfolding small_days_def by linarith
  ultimately show ?thesis by linarith
qed

lemma civil_roundtrip:
  assumes "small_days z" "civil_from_days z = (y, m, d)"
  shows "days_from_civil y m d = z \<and> 1 \<le> m \<and> m \<le> 12 \<and> 1 \<le> d \<and> d \<le> 31"
proof -
  define e doe where "e = (z + 719468) div 146097" and "doe = (z + 719468) mod 146097"
  define r where "r = year_of_era doe"
  define doy where "doy = doe - era_start r"
  define mp where "mp = (5 * doy + 2) div 153"
  have c: "0 \<le> r" "r < 400" "0 \<le> doy" "doy \<le> 365"
    "civil_from_days z = ((if mp < 10 then 400 * e + r else 400 * e + r + 1), (if mp < 10 then mp + 3 else mp - 9), doy - month_days mp + 1)"
    using civil_from_days_closed [OF assms(1)] unfolding e_def doe_def r_def doy_def mp_def by auto
  have mp: "0 \<le> mp" "mp \<le> 11" "month_days mp \<le> doy" "doy - month_days mp \<le> 30"
    using month_of_day [OF c(3,4)] by (simp_all add: mp_def)
  have y: "y = (if mp < 10 then 400 * e + r else 400 * e + r + 1)" and m: "m = (if mp < 10 then mp + 3 else mp - 9)"
    and d: "d = doy - month_days mp + 1" using c(5) assms(2) by auto
  have e: "- 480000000 \<le> e" "e \<le> 480000000"
    using assms(1) unfolding e_def small_days_def by linarith+
  have ok: "1 \<le> m" "m \<le> 12" "1 \<le> d" "d \<le> 31" using mp by (auto simp: m d)
  have redo: "(if m \<le> 2 then y - 1 else y) = 400 * e + r" "(m + 9) mod 12 = mp" using mp by (auto simp: m y)
  have "small_year y" using e c(1,2) by (auto simp: small_year_def y)
  then have "days_from_civil y m d = year_days (400 * e + r) + month_days mp + d - 1 - 719468"
    using days_from_civil_closed ok redo by simp
  also have "year_days (400 * e + r) = e * 146097 + era_start r"
    using year_days_era [of "400 * e + r"] c(1,2) by (simp add: era_start_def)
  finally have "days_from_civil y m d = e * 146097 + doe - 719468" by (simp add: d doy_def)
  also have "\<dots> = z" using div_mult_mod_eq [of "z + 719468" 146097] by (simp add: e_def doe_def)
  finally show ?thesis using ok by simp
qed

text \<open>
  Describing a day and reading it back gives that day.  For an instant from the year 0 on
  and up to about the year two hundred million, the day \<open>iso_day\<close> writes is read by
  \<open>parse_iso_date\<close> as the midnight, UTC, that day began.
\<close>

theorem iso_day_roundtrip:
  assumes "small_days (secs div 86400)" "0 \<le> fst (civil_from_days (secs div 86400))"
  shows "parse_iso_date (iso_day secs) = Some (secs - secs mod 86400)"
proof -
  obtain y m d where c: "civil_from_days (secs div 86400) = (y, m, d)" by (cases "civil_from_days (secs div 86400)")
  note redo = civil_roundtrip [OF assms(1) c]
  have y: "0 \<le> y" using assms(2) c by simp
  have "y \<le> 400000000000"
    using civil_year_small [OF assms(1) c] by simp
  then have i64: "in_i64 (int (nat y))" "in_i64 (int (nat m))" "in_i64 (int (nat d))" using y redo by (auto simp: in_i64_def)
  have dash: "DASH \<notin> set (padded w n)" for w n
    using digits_padded [of w n] by (auto simp: digits_def is_digit_def)
  have split: "split_on DASH (padded 4 (nat y) @ [DASH] @ padded 2 (nat m) @ [DASH] @ padded 2 (nat d))
      = [padded 4 (nat y), padded 2 (nat m), padded 2 (nat d)]"
    using dash by (simp add: split_on_append split_on_none)
  have parsed: "parse_i64 (padded 4 (nat y)) = Some y" "parse_i64 (padded 2 (nat m)) = Some m"
    "parse_i64 (padded 2 (nat d)) = Some d"
    using parse_padded [OF i64(1)] parse_padded [OF i64(2)] parse_padded [OF i64(3)] y redo by simp_all
  have day: "secs div 86400 * 86400 = secs - secs mod 86400" by (simp add: minus_mod_eq_div_mult)
  have "in_i64 (secs - secs mod 86400)"
    unfolding day [symmetric] using assms(1) by (simp add: small_days_def in_i64_def)
  with day show ?thesis
    using split redo y by (simp add: iso_day_def c show_padded_def parse_iso_date_def parsed DAY_def)
qed

theorem iso_day_roundtrip_witness: "parse_iso_date (iso_day 1700000000) = Some 1699920000"
proof -
  have "0 \<le> fst (civil_from_days (1700000000 div 86400))" by code_simp
  from iso_day_roundtrip [OF _ this] show ?thesis by (simp add: small_days_def)
qed

text \<open>
  A day too far ahead becomes one long past.  A relative window is multiplied out with a
  check and refused when it does not fit; a calendar day is not: in a release build the first
  day of the year three hundred thousand million is read as an instant before the epoch,
  and a relative window of as many days as fit in 64 bits is refused.
\<close>

theorem iso_date_wraps:
  "(\<exists>secs. parse_iso_date (chs ''300000000000-01-01'') = Some secs \<and> secs < 0)
    \<and> relative_window (chs ''9223372036854775807d'') = None"
proof -
  have "(case parse_iso_date (chs ''300000000000-01-01'') of Some secs \<Rightarrow> secs < 0 | None \<Rightarrow> False)" by code_simp
  moreover have "relative_window (chs ''9223372036854775807d'') = None" by code_simp
  ultimately show ?thesis by (auto split: option.splits)
qed

end
