(* ===== verification/Kinds.thy ===== *)
theory Kinds
  imports Chars Paths
begin

text \<open>
  What an entry is: \<open>Kind\<close>, its tables and \<open>kind_of\<close>, \<open>runs_when_opened\<close> and \<open>mode_string\<close> of
  \<open>crates/scour-core/src/types/entry.rs\<close>.  Names are bytes; the case folder is a parameter.

  The lemmas show that the tables are sorted, so that the binary search answers like the
  table read from the top, that an extension the table holds decides the kind whatever the
  mode, and that numbers, words and permission strings stand for what they were made from.
\<close>

section \<open>Kinds\<close>

datatype kind = File | Dir | Code | Image | Archive | Doc | Exec | Media | Audio | Video | Build | Data | Config | Font

definition kind_all :: "kind list" where
  "kind_all = [File, Dir, Code, Image, Archive, Doc, Exec, Media, Audio, Video, Build, Data, Config, Font]"

definition kind_offered :: "kind list" where
  "kind_offered = [Dir, Code, Doc, Image, Data, Config, Archive, Exec, Audio, Video, Font, Build, File]"

fun kind_as_u8 :: "kind \<Rightarrow> u8" where
  "kind_as_u8 File = 0" | "kind_as_u8 Dir = 1" | "kind_as_u8 Code = 2" | "kind_as_u8 Image = 3"
| "kind_as_u8 Archive = 4" | "kind_as_u8 Doc = 5" | "kind_as_u8 Exec = 6" | "kind_as_u8 Media = 7"
| "kind_as_u8 Audio = 8" | "kind_as_u8 Video = 9" | "kind_as_u8 Build = 10" | "kind_as_u8 Data = 11"
| "kind_as_u8 Config = 12" | "kind_as_u8 Font = 13"

definition kind_from_u8 :: "u8 \<Rightarrow> kind option" where
  "kind_from_u8 v = nth_opt kind_all (unat v)"

fun kind_msgid :: "kind \<Rightarrow> chars" where
  "kind_msgid File = chs ''File''" | "kind_msgid Dir = chs ''Folder''" | "kind_msgid Code = chs ''Code''"
| "kind_msgid Image = chs ''Image''" | "kind_msgid Archive = chs ''Archive''" | "kind_msgid Doc = chs ''Document''"
| "kind_msgid Exec = chs ''Executable''" | "kind_msgid Media = chs ''Media''" | "kind_msgid Audio = chs ''Audio''"
| "kind_msgid Video = chs ''Video''" | "kind_msgid Build = chs ''Build output''" | "kind_msgid Data = chs ''Data''"
| "kind_msgid Config = chs ''Configuration''" | "kind_msgid Font = chs ''Font''"

fun kind_token :: "kind \<Rightarrow> chars" where
  "kind_token File = chs ''file''" | "kind_token Dir = chs ''folder''" | "kind_token Code = chs ''code''"
| "kind_token Image = chs ''image''" | "kind_token Archive = chs ''archive''" | "kind_token Doc = chs ''doc''"
| "kind_token Exec = chs ''exec''" | "kind_token Media = chs ''media''" | "kind_token Audio = chs ''audio''"
| "kind_token Video = chs ''video''" | "kind_token Build = chs ''build''" | "kind_token Data = chs ''data''"
| "kind_token Config = chs ''config''" | "kind_token Font = chs ''font''"

text \<open>\<open>Kind::from_name\<close>, the Turkish spellings with their own letters.\<close>

definition kind_from_name :: "chars \<Rightarrow> kind list option" where
  "kind_from_name folded =
     (if folded \<in> {chs ''dir'', chs ''folder'', chs ''klasor'', chs ''klas'' @ [0xf6] @ chs ''r''} then Some [Dir]
      else if folded \<in> {chs ''code'', chs ''source'', chs ''kod'', chs ''kaynak''} then Some [Code]
      else if folded \<in> {chs ''image'', chs ''img'', chs ''pic'', chs ''gorsel'', chs ''g'' @ [0xf6] @ chs ''rsel'', chs ''resim''} then Some [Image]
      else if folded \<in> {chs ''archive'', chs ''arsiv'', chs ''ar'' @ [0x15f] @ chs ''iv'', chs ''zip''} then Some [Archive]
      else if folded \<in> {chs ''doc'', chs ''document'', chs ''belge''} then Some [Doc]
      else if folded \<in> {chs ''exec'', chs ''exe'', chs ''bin'', chs ''executable'', chs ''calistirilabilir'',
          [0xe7] @ chs ''al'' @ [0x131, 0x15f] @ chs ''t'' @ [0x131] @ chs ''r'' @ [0x131] @ chs ''labilir''} then Some [Exec]
      else if folded \<in> {chs ''audio'', chs ''ses'', chs ''muzik'', chs ''m'' @ [0xfc] @ chs ''zik''} then Some [Audio]
      else if folded \<in> {chs ''video'', chs ''film''} then Some [Video]
      else if folded \<in> {chs ''media'', chs ''medya''} then Some [Audio, Video, Media]
      else if folded \<in> {chs ''build'', chs ''derleme'', chs ''cikti'', [0xe7, 0x131] @ chs ''kt'' @ [0x131]} then Some [Build]
      else if folded \<in> {chs ''data'', chs ''veri''} then Some [Data]
      else if folded \<in> {chs ''config'', chs ''conf'', chs ''settings'', chs ''ayar'', chs ''yapilandirma'',
          chs ''yap'' @ [0x131] @ chs ''land'' @ [0x131] @ chs ''rma''} then Some [Config]
      else if folded \<in> {chs ''font'', chs ''yazitipi'', chs ''yaz'' @ [0x131] @ chs ''tipi''} then Some [Font]
      else if folded \<in> {chs ''file'', chs ''dosya''} then Some [File]
      else if folded \<in> {chs ''text'', chs ''metin''} then Some [Code, Doc, Data, Config]
      else None)"

section \<open>The tables\<close>

definition EXT_TABLE_1 :: "(bytes \<times> kind) list" where
  "EXT_TABLE_1 = [
    (str ''1'', Doc), (str ''3gp'', Video), (str ''7z'', Archive), (str ''a'', Build),
    (str ''aac'', Audio), (str ''aar'', Archive), (str ''adoc'', Doc), (str ''afdesign'', Image),
    (str ''afphoto'', Image), (str ''aif'', Audio), (str ''aiff'', Audio), (str ''apk'', Archive),
    (str ''appimage'', Exec), (str ''arb'', Data), (str ''asciidoc'', Doc), (str ''asm'', Code),
    (str ''ass'', Doc), (str ''avi'', Video), (str ''avif'', Image), (str ''avro'', Data),
    (str ''awk'', Code), (str ''azw3'', Doc), (str ''bash'', Code), (str ''bat'', Exec),
    (str ''bc'', Build), (str ''bmp'', Image), (str ''bz2'', Archive), (str ''c'', Code),
    (str ''cab'', Archive), (str ''cc'', Code), (str ''cer'', Config), (str ''cfg'', Config),
    (str ''cjs'', Code), (str ''class'', Build), (str ''clj'', Code), (str ''cljs'', Code),
    (str ''cmake'', Code), (str ''cmd'', Exec), (str ''com'', Exec), (str ''comp'', Code),
    (str ''conf'', Config), (str ''cpp'', Code), (str ''cr'', Code), (str ''cr2'', Image),
    (str ''crate'', Archive), (str ''crt'', Config), (str ''cs'', Code), (str ''css'', Code),
    (str ''csv'', Data), (str ''cxx'', Code), (str ''d'', Build), (str ''dart'', Code),
    (str ''dat'', Data), (str ''db'', Data), (str ''db3'', Data), (str ''deb'', Archive),
    (str ''der'', Config), (str ''dex'', Build), (str ''digest'', Build), (str ''dill'', Build),
    (str ''djvu'', Doc), (str ''dll'', Exec), (str ''dmg'', Archive), (str ''dng'', Image),
    (str ''doc'', Doc), (str ''docx'', Doc), (str ''dtd'', Data), (str ''dwo'', Build),
    (str ''dylib'', Exec), (str ''el'', Code), (str ''eml'', Doc), (str ''env'', Config),
    (str ''eot'', Font), (str ''epub'', Doc), (str ''erl'', Code), (str ''ex'', Code),
    (str ''exe'', Exec), (str ''exs'', Code), (str ''fish'', Code), (str ''flac'', Audio),
    (str ''flv'', Video), (str ''fon'', Font), (str ''frag'', Code), (str ''fs'', Code),
    (str ''gcda'', Build), (str ''gch'', Build), (str ''gcno'', Build), (str ''gem'', Archive),
    (str ''gguf'', Data), (str ''gif'', Image), (str ''glsl'', Code), (str ''gn'', Code),
    (str ''gni'', Code), (str ''go'', Code), (str ''gradle'', Code), (str ''groovy'', Code),
    (str ''gz'', Archive), (str ''h'', Code), (str ''h5'', Data), (str ''hcl'', Code),
    (str ''heic'', Image), (str ''hlsl'', Code), (str ''hpp'', Code), (str ''hrl'', Code),
    (str ''hs'', Code), (str ''htm'', Doc), (str ''html'', Doc), (str ''hxx'', Code),
    (str ''ico'', Image), (str ''idl'', Code), (str ''ilk'', Build), (str ''img'', Archive),
    (str ''ini'', Config), (str ''ipynb'', Code), (str ''iso'', Archive), (str ''jar'', Archive),
    (str ''java'', Code), (str ''jks'', Config), (str ''jl'', Code), (str ''jpeg'', Image),
    (str ''jpg'', Image), (str ''js'', Code), (str ''json'', Data), (str ''jsonl'', Data),
    (str ''jsx'', Code), (str ''keystore'', Config), (str ''kt'', Code), (str ''kts'', Code),
    (str ''less'', Code), (str ''lib'', Build), (str ''lock'', Data), (str ''log'', Data),
    (str ''lua'', Code), (str ''lz4'', Archive), (str ''m'', Code), (str ''m3u'', Audio),
    (str ''m3u8'', Audio), (str ''m4a'', Audio), (str ''m4v'', Video), (str ''make'', Code),
    (str ''map'', Build), (str ''mbox'', Doc), (str ''md'', Doc), (str ''metal'', Code),
    (str ''mid'', Audio), (str ''midi'', Audio), (str ''mjs'', Code), (str ''mk'', Code),
    (str ''mkv'', Video)]"

definition EXT_TABLE_2 :: "(bytes \<times> kind) list" where
  "EXT_TABLE_2 = [
    (str ''ml'', Code), (str ''mli'', Code), (str ''mm'', Code), (str ''mo'', Build),
    (str ''mobi'', Doc), (str ''mov'', Video), (str ''mp3'', Audio), (str ''mp4'', Video),
    (str ''mpeg'', Video), (str ''mpg'', Video), (str ''msg'', Doc), (str ''msi'', Exec),
    (str ''mts'', Code), (str ''nef'', Image), (str ''nim'', Code), (str ''nix'', Code),
    (str ''npy'', Data), (str ''npz'', Data), (str ''o'', Build), (str ''odp'', Doc),
    (str ''ods'', Doc), (str ''odt'', Doc), (str ''ogg'', Audio), (str ''ogv'', Video),
    (str ''onnx'', Data), (str ''opus'', Audio), (str ''org'', Doc), (str ''otf'', Font),
    (str ''pack'', Data), (str ''parquet'', Data), (str ''pbxproj'', Config), (str ''pcf'', Font),
    (str ''pch'', Build), (str ''pdb'', Build), (str ''pdf'', Doc), (str ''pem'', Config),
    (str ''pfx'', Config), (str ''php'', Code), (str ''pickle'', Data), (str ''pkg'', Archive),
    (str ''pkl'', Data), (str ''pl'', Code), (str ''plist'', Config), (str ''pls'', Audio),
    (str ''pm'', Code), (str ''png'', Image), (str ''po'', Data), (str ''pom'', Config),
    (str ''pot'', Data), (str ''ppt'', Doc), (str ''pptx'', Doc), (str ''properties'', Config),
    (str ''proto'', Code), (str ''ps1'', Code), (str ''psd'', Image), (str ''pt'', Data),
    (str ''pth'', Data), (str ''py'', Code), (str ''pyc'', Build), (str ''pyi'', Code),
    (str ''pyx'', Code), (str ''qcow2'', Archive), (str ''qm'', Build), (str ''qml'', Code),
    (str ''r'', Code), (str ''rar'', Archive), (str ''raw'', Image), (str ''rb'', Code),
    (str ''resx'', Data), (str ''rlib'', Build), (str ''rmeta'', Build), (str ''rpm'', Archive),
    (str ''rs'', Code), (str ''rst'', Doc), (str ''rtf'', Doc), (str ''run'', Exec),
    (str ''s'', Code), (str ''safetensors'', Data), (str ''sass'', Code), (str ''scala'', Code),
    (str ''scss'', Code), (str ''sh'', Code), (str ''slint'', Code), (str ''so'', Exec),
    (str ''sol'', Code), (str ''sql'', Code), (str ''sqlite'', Data), (str ''sqlite3'', Data),
    (str ''squashfs'', Archive), (str ''srt'', Doc), (str ''storyboard'', Code), (str ''sub'', Doc),
    (str ''svelte'', Code), (str ''svg'', Image), (str ''swift'', Code), (str ''tar'', Archive),
    (str ''tex'', Doc), (str ''tf'', Code), (str ''tgz'', Archive), (str ''thrift'', Code),
    (str ''tif'', Image), (str ''tiff'', Image), (str ''timestamp'', Build), (str ''toml'', Config),
    (str ''ts'', Code), (str ''tsv'', Data), (str ''tsx'', Code), (str ''ttc'', Font),
    (str ''ttf'', Font), (str ''txt'', Doc), (str ''ui'', Code), (str ''vb'', Code),
    (str ''vdi'', Archive), (str ''vert'', Code), (str ''vhd'', Archive), (str ''vhdx'', Archive),
    (str ''vim'', Code), (str ''vmdk'', Archive), (str ''vob'', Video), (str ''vtt'', Doc),
    (str ''vue'', Code), (str ''wasm'', Exec), (str ''wat'', Code), (str ''wav'', Audio),
    (str ''webm'', Video), (str ''webp'', Image), (str ''wgsl'', Code), (str ''whl'', Archive),
    (str ''wit'', Code), (str ''wma'', Audio), (str ''wmv'', Video), (str ''woff'', Font),
    (str ''woff2'', Font), (str ''xcconfig'', Config), (str ''xcf'', Image), (str ''xhtml'', Doc),
    (str ''xliff'', Data), (str ''xls'', Doc), (str ''xlsx'', Doc), (str ''xml'', Data),
    (str ''xsd'', Data), (str ''xz'', Archive), (str ''yaml'', Config), (str ''yml'', Config),
    (str ''zig'', Code), (str ''zip'', Archive), (str ''zsh'', Code), (str ''zst'', Archive)]"

definition EXT_TABLE :: "(bytes \<times> kind) list" where
  "EXT_TABLE = EXT_TABLE_1 @ EXT_TABLE_2"

definition NAME_TABLE :: "(bytes \<times> kind) list" where
  "NAME_TABLE = [
    (str ''.bash_profile'', Config), (str ''.bashrc'', Config), (str ''.cargo-ok'', Build), (str ''.dockerignore'', Config),
    (str ''.editorconfig'', Config), (str ''.env'', Config), (str ''.gitattributes'', Config), (str ''.gitconfig'', Config),
    (str ''.gitignore'', Config), (str ''.gitmodules'', Config), (str ''.npmignore'', Config), (str ''.npmrc'', Config),
    (str ''.profile'', Config), (str ''.vimrc'', Config), (str ''.zshrc'', Config), (str ''authors'', Doc),
    (str ''brewfile'', Code), (str ''contributors'', Doc), (str ''gemfile'', Code), (str ''install'', Doc),
    (str ''justfile'', Code), (str ''news'', Doc), (str ''notice'', Doc), (str ''pkgbuild'', Code),
    (str ''procfile'', Code), (str ''rakefile'', Code), (str ''todo'', Doc), (str ''vagrantfile'', Code)]"

definition NAME_PREFIX :: "(bytes \<times> kind) list" where
  "NAME_PREFIX = [
    (str ''changelog'', Doc), (str ''changes'', Doc), (str ''copying'', Doc), (str ''dockerfile'', Code),
    (str ''licence'', Doc), (str ''license'', Doc), (str ''makefile'', Code), (str ''readme'', Doc)]"

definition GENERATED_PAGES :: "bytes list" where
  "GENERATED_PAGES = [
    str ''allclasses'', str ''allclasses-frame'', str ''allclasses-index'', str ''allclasses-noframe'',
    str ''allpackages-index'', str ''constant-values'', str ''deprecated-list'', str ''element-list'',
    str ''help-doc'', str ''index-all'', str ''member-search-index'', str ''overview-frame'',
    str ''overview-summary'', str ''overview-tree'', str ''package-frame'', str ''package-search-index'',
    str ''package-summary'', str ''package-tree'', str ''package-use'', str ''serialized-form'',
    str ''type-search-index'']"

section \<open>Classifying\<close>

text \<open>A slice's binary search by key, over a sorted table.\<close>

definition table_search :: "(nat \<Rightarrow> bytes) \<Rightarrow> nat \<Rightarrow> bytes \<Rightarrow> nat option" where
  "table_search key n want =
     (let i = bsearch (\<lambda>m. key m < want) 0 n in if i < n \<and> key i = want then Some i else None)"

definition table_lookup :: "(bytes \<times> kind) list \<Rightarrow> bytes \<Rightarrow> kind option" where
  "table_lookup table folded =
     map_option (\<lambda>i. snd (table ! i)) (table_search (\<lambda>m. fst (table ! m)) (length table) folded)"

definition is_generated_page :: "(bytes \<Rightarrow> bytes) \<Rightarrow> bytes \<Rightarrow> nat \<Rightarrow> bool" where
  "is_generated_page fold_case name ext_len =
     (let stem = take (length name - ext_len - 1) name
      in 0x2e \<in> set stem
         \<or> table_search (\<lambda>m. GENERATED_PAGES ! m) (length GENERATED_PAGES) (fold_case stem) \<noteq> None)"

definition kind_of :: "(bytes \<Rightarrow> bytes) \<Rightarrow> bool \<Rightarrow> bytes \<Rightarrow> i64 \<Rightarrow> kind" where
  "kind_of fold_case is_dir name mode =
     (let by_mode = (if mode AND 0x49 \<noteq> 0 then Exec else File); ext = ext_str name
      in if is_dir then Dir
         else if ext = [] then
           (let folded = fold_case name
            in case table_lookup NAME_TABLE folded of
                 Some k \<Rightarrow> k
               | None \<Rightarrow>
                   (case find (\<lambda>(p, k). starts_with p folded) NAME_PREFIX of
                      Some (p, k) \<Rightarrow> k
                    | None \<Rightarrow> by_mode))
         else
           (let folded = fold_case ext
            in if (folded = str ''html'' \<or> folded = str ''htm'') \<and> is_generated_page fold_case name (length ext) then Build
               else if folded = str ''bin'' then Build
               else case table_lookup EXT_TABLE folded of Some k \<Rightarrow> k | None \<Rightarrow> by_mode))"

definition WINDOWS_RUNS :: "bytes list" where
  "WINDOWS_RUNS = [str ''js'', str ''jse'', str ''vbe'', str ''wsh'', str ''hta'', str ''cpl'', str ''msc'', str ''reg'',
    str ''url'', str ''application'', str ''appref-ms'', str ''pif'', str ''scf'', str ''inf'', str ''msix'', str ''appx'',
    str ''msixbundle'', str ''appxbundle'']"

text \<open>\<open>windows\<close> is \<open>cfg!(windows)\<close>, a constant of the build.\<close>

definition runs_when_opened :: "bool \<Rightarrow> (bytes \<Rightarrow> bytes) \<Rightarrow> bytes \<Rightarrow> i64 \<Rightarrow> bool" where
  "runs_when_opened windows fold_case name mode =
     (kind_of fold_case False name mode = Exec
      \<or> (let ext = fold_case (ext_str name)
         in ext \<in> {str ''desktop'', str ''sh'', str ''bash'', str ''zsh'', str ''ksh'', str ''fish'', str ''ps1'',
                   str ''scr'', str ''lnk'', str ''vbs'', str ''wsf'', str ''jar''}
            \<or> windows \<and> ext \<in> set WINDOWS_RUNS))"

text \<open>\<open>mode_string\<close>: permission bits in \<open>drwxr-xr-x\<close> form.\<close>

definition mode_type :: "u32 \<Rightarrow> u8" where
  "mode_type m =
     (let t = m AND 0xf000
      in if t = 0x4000 then 0x64 else if t = 0xa000 then 0x6c else if t = 0x6000 then 0x62
         else if t = 0x2000 then 0x63 else if t = 0x1000 then 0x70 else if t = 0xc000 then 0x73 else 0x2d)"

definition mode_triple :: "u32 \<Rightarrow> nat \<Rightarrow> bytes" where
  "mode_triple m shift =
     (let bits = drop_bit shift m AND 7
      in [if bits AND 4 \<noteq> 0 then 0x72 else 0x2d, if bits AND 2 \<noteq> 0 then 0x77 else 0x2d,
          if bits AND 1 \<noteq> 0 then 0x78 else 0x2d])"

definition mode_special :: "u32 \<Rightarrow> bytes \<Rightarrow> u32 \<times> nat \<times> u8 \<times> u8 \<Rightarrow> bytes" where
  "mode_special m b s =
     (case s of (bits, idx, letter, unset) \<Rightarrow>
        if m AND bits \<noteq> 0 then b[idx := if b ! idx = 0x78 then letter else unset] else b)"

definition mode_string :: "i64 \<Rightarrow> bytes" where
  "mode_string mode =
     (if mode = 0 then []
      else
        let m = ucast mode
        in foldl (mode_special m) (mode_type m # concat (map (mode_triple m) [6, 3, 0]))
             [(0x800, 3, 0x73, 0x53), (0x400, 6, 0x73, 0x53), (0x200, 9, 0x74, 0x54)])"

section \<open>The tables are sorted\<close>

lemma sorted_by_steps: "successively (<) xs \<Longrightarrow> sorted_wrt (<) (xs :: 'a::order list)"
  by (simp add: successively_conv_sorted_wrt transp_on_less)

lemma EXT_TABLE_sorted: "sorted_wrt (<) (map fst EXT_TABLE)"
proof -
  have "successively (<) (map fst EXT_TABLE)" by code_simp
  then show ?thesis by (rule sorted_by_steps)
qed

lemma NAME_TABLE_sorted: "sorted_wrt (<) (map fst NAME_TABLE)"
proof -
  have "successively (<) (map fst NAME_TABLE)" by code_simp
  then show ?thesis by (rule sorted_by_steps)
qed

lemma GENERATED_PAGES_sorted: "sorted_wrt (<) GENERATED_PAGES"
proof -
  have "successively (<) GENERATED_PAGES" by code_simp
  then show ?thesis by (rule sorted_by_steps)
qed

lemma table_search_sorted:
  assumes "sorted_wrt (<) keys"
  shows "table_search (\<lambda>m. keys ! m) (length keys) want = Some i \<longleftrightarrow> i < length keys \<and> keys ! i = want"
    and "table_search (\<lambda>m. keys ! m) (length keys) want = None \<longleftrightarrow> want \<notin> set keys"
proof -
  let ?n = "length keys" and ?b = "bsearch (\<lambda>m. keys ! m < want) 0 (length keys)"
  have less: "keys ! i < keys ! j" if "i < j" "j < ?n" for i j
    using assms that by (simp add: sorted_wrt_iff_nth_less)
  have spec: "(\<forall>i < ?b. keys ! i < want) \<and> (\<forall>i < ?n. ?b \<le> i \<longrightarrow> \<not> keys ! i < want)"
  proof (rule bsearch_spec)
    fix i j assume "i \<le> j" "j < ?n" "keys ! j < want"
    then show "keys ! i < want" using less [of i j] by (cases "i = j") (auto intro: order.strict_trans)
  qed simp_all
  have at: "?b = i" if "i < ?n" "keys ! i = want" for i
  proof -
    have "\<not> i < ?b" using spec that by auto
    moreover have "\<not> ?b < i"
    proof
      assume b: "?b < i"
      then have "\<not> keys ! ?b < want" using spec that(1) by auto
      moreover have "keys ! ?b < want" using less [OF b that(1)] that(2) by simp
      ultimately show False by simp
    qed
    ultimately show ?thesis by simp
  qed
  show "table_search (\<lambda>m. keys ! m) ?n want = Some i \<longleftrightarrow> i < ?n \<and> keys ! i = want"
    using at [of i] by (auto simp: table_search_def Let_def)
  show "table_search (\<lambda>m. keys ! m) ?n want = None \<longleftrightarrow> want \<notin> set keys"
  proof
    assume none: "table_search (\<lambda>m. keys ! m) ?n want = None"
    show "want \<notin> set keys"
    proof
      assume "want \<in> set keys"
      then obtain i where i: "i < ?n" "keys ! i = want" by (auto simp: in_set_conv_nth)
      then show False using none at [OF i] by (simp add: table_search_def Let_def)
    qed
  next
    assume "want \<notin> set keys"
    then show "table_search (\<lambda>m. keys ! m) ?n want = None"
      unfolding table_search_def Let_def by (metis nth_mem)
  qed
qed

lemma strict_sorted_distinct: "sorted_wrt (<) xs \<Longrightarrow> distinct (xs :: 'a::linorder list)"
  by (simp add: strict_sorted_iff)

lemma table_lookup_map_of:
  assumes "sorted_wrt (<) (map fst table)"
  shows "table_lookup table want = map_of table want"
proof -
  let ?s = "table_search (\<lambda>m. fst (table ! m)) (length table) want"
  have "?s = table_search (\<lambda>m. map fst table ! m) (length (map fst table)) want"
  proof -
    have "bsearch (\<lambda>m. fst (table ! m) < want) 0 (length table) = bsearch (\<lambda>m. map fst table ! m < want) 0 (length table)"
      by (rule bsearch_cong) simp
    then show ?thesis by (simp add: table_search_def Let_def)
  qed
  note s = table_search_sorted [OF assms, of want, folded this]
  have dist: "distinct (map fst table)" using assms by (rule strict_sorted_distinct)
  show ?thesis
  proof (cases ?s)
    case None
    then have "map_of table want = None" using s(2) by (simp add: map_of_eq_None_iff)
    then show ?thesis using None by (simp add: table_lookup_def)
  next
    case (Some i)
    then have i: "i < length table" "fst (table ! i) = want" using s(1) [of i] by auto
    then have "(want, snd (table ! i)) \<in> set table" by (metis nth_mem prod.collapse)
    then show ?thesis using Some dist by (simp add: table_lookup_def)
  qed
qed

lemmas lookups = table_lookup_map_of [OF EXT_TABLE_sorted] table_lookup_map_of [OF NAME_TABLE_sorted]

section \<open>Properties\<close>

text \<open>
  An extension the table holds decides.  For every row of the table, a file whose folded
  extension it is gets the row's kind: the binary search over the two hundred and
  ninety-seven rows finds it, and neither its name nor its permission bits matter.  Only the
  pages a documentation tool wrote are an exception.
\<close>

theorem extension_decides:
  assumes "(ext, k) \<in> set EXT_TABLE" "fold_case (ext_str name) = ext" "ext_str name \<noteq> []"
    "ext \<noteq> str ''html''" "ext \<noteq> str ''htm''"
  shows "kind_of fold_case False name mode = k"
proof -
  have "str ''bin'' \<notin> fst ` set EXT_TABLE" by code_simp
  then have "ext \<noteq> str ''bin''" using assms(1) by force
  moreover have "map_of EXT_TABLE ext = Some k"
    using assms(1) strict_sorted_distinct [OF EXT_TABLE_sorted] by simp
  ultimately show ?thesis using assms by (simp add: kind_of_def Let_def lookups)
qed

theorem extension_decides_witness: "kind_of (map ascii_lower) False (str ''main.RS'') 0x1ed = Code"
proof -
  have "(str ''rs'', Code) \<in> set EXT_TABLE" by code_simp
  moreover have "map ascii_lower (ext_str (str ''main.RS'')) = str ''rs''" "ext_str (str ''main.RS'') \<noteq> []"
    "str ''rs'' \<noteq> str ''html''" "str ''rs'' \<noteq> str ''htm''" by code_simp+
  ultimately show ?thesis by (rule extension_decides)
qed

text \<open>
  The tables say everything else.  A directory is a directory whatever its name; the
  retired kind is never produced; and what no table knows is a program exactly when an
  execute bit is set.
\<close>

theorem kind_of_total:
  "kind_of fold_case True name mode = Dir \<and> kind_of fold_case is_dir name mode \<noteq> Media
    \<and> (ext_str name \<noteq> [] \<and> fold_case (ext_str name) \<notin> {str ''bin'', str ''html'', str ''htm''}
          \<and> map_of EXT_TABLE (fold_case (ext_str name)) = None
        \<longrightarrow> kind_of fold_case False name mode = (if mode AND 0x49 \<noteq> 0 then Exec else File))"
proof -
  have no: "list_all (\<lambda>p. snd p \<noteq> Media) EXT_TABLE" "list_all (\<lambda>p. snd p \<noteq> Media) NAME_TABLE"
    "list_all (\<lambda>p. snd p \<noteq> Media) NAME_PREFIX" by code_simp+
  have e: "map_of EXT_TABLE e \<noteq> Some Media" for e
    using no(1) map_of_SomeD [of EXT_TABLE e Media] unfolding list_all_iff by force
  have n: "map_of NAME_TABLE e \<noteq> Some Media" for e
    using no(2) map_of_SomeD [of NAME_TABLE e Media] unfolding list_all_iff by force
  have "find P NAME_PREFIX = Some x \<Longrightarrow> x \<in> set NAME_PREFIX" for P x
    by (metis find_Some_iff nth_mem)
  then have p: "find P NAME_PREFIX \<noteq> Some (q, Media)" for P q
    using no(3) unfolding list_all_iff by fastforce
  have "kind_of fold_case is_dir name mode \<noteq> Media"
    unfolding kind_of_def Let_def lookups using e n p by (auto split: option.split)
  then show ?thesis by (auto simp: kind_of_def Let_def lookups)
qed

theorem kind_of_total_witness: "kind_of (map ascii_lower) False (str ''data.xyz'') 0x40 = Exec"
proof -
  have "ext_str (str ''data.xyz'') \<noteq> []" "map ascii_lower (ext_str (str ''data.xyz'')) \<notin> {str ''bin'', str ''html'', str ''htm''}"
    "map_of EXT_TABLE (map ascii_lower (ext_str (str ''data.xyz''))) = None" by code_simp+
  with kind_of_total [of "map ascii_lower" "str ''data.xyz''" "0x40"] show ?thesis by simp
qed

text \<open>
  A kind comes back from its number and from its word.  The byte stored for a kind reads
  back as the kind, no other byte reads at all, and the word offered for it in a query names
  a set the kind is in.
\<close>

theorem kind_roundtrip:
  "kind_from_u8 (kind_as_u8 k) = Some k \<and> (kind_from_u8 v = Some k \<longleftrightarrow> v = kind_as_u8 k)
    \<and> (\<exists>ks. kind_from_name (kind_token k) = Some ks \<and> k \<in> set ks)"
proof -
  have "kind_from_u8 v = Some k \<Longrightarrow> v = kind_as_u8 k"
  proof -
    assume k: "kind_from_u8 v = Some k"
    then have "unat v \<in> set [0 ..< 14]" by (simp add: kind_from_u8_def nth_opt_def kind_all_def split: if_splits)
    also have "[0 ..< 14] = [0, 1, 2, 3, 4, 5, 6, 7, 8, 9, 10, 11, 12, 13 :: nat]" by code_simp
    finally have u: "unat v \<in> {0, 1, 2, 3, 4, 5, 6, 7, 8, 9, 10, 11, 12, 13}" by simp
    have "\<forall>n \<in> {0, 1, 2, 3, 4, 5, 6, 7, 8, 9, 10, 11, 12, 13}. nth_opt kind_all n = Some k \<longrightarrow> word_of_nat n = kind_as_u8 k"
      by (simp add: nth_opt_def kind_all_def)
    then have "word_of_nat (unat v) = kind_as_u8 k" using u k unfolding kind_from_u8_def by blast
    then show ?thesis by simp
  qed
  moreover have "kind_from_u8 (kind_as_u8 k) = Some k"
    by (cases k) (simp_all add: kind_from_u8_def nth_opt_def kind_all_def)
  moreover have "\<exists>ks. kind_from_name (kind_token k) = Some ks \<and> k \<in> set ks"
    by (cases k) (simp_all add: kind_from_name_def)
  ultimately show ?thesis by auto
qed

lemma and_bit: "(m :: 'a::len word) AND push_bit n 1 \<noteq> 0 \<longleftrightarrow> bit m n"
  by (simp add: bit_iff_and_push_bit_not_eq_0)

text \<open>One letter of a triple, with the special bit that can change it.\<close>

definition exec_letter :: "bool \<Rightarrow> bool \<Rightarrow> u8 \<Rightarrow> u8 \<Rightarrow> u8" where
  "exec_letter x special lower upper = (if special then if x then lower else upper else if x then 0x78 else 0x2d)"

lemma mode_triple_bits:
  "mode_triple m shift = [if bit m (shift + 2) then 0x72 else 0x2d, if bit m (shift + 1) then 0x77 else 0x2d,
     if bit m shift then 0x78 else 0x2d]"
proof -
  have "(drop_bit shift m AND 7) AND 4 \<noteq> 0 \<longleftrightarrow> bit m (shift + 2)"
    "(drop_bit shift m AND 7) AND 2 \<noteq> 0 \<longleftrightarrow> bit m (shift + 1)"
    "(drop_bit shift m AND 7) AND 1 \<noteq> 0 \<longleftrightarrow> bit m shift"
    using and_bit [of "drop_bit shift m AND 7" 2] and_bit [of "drop_bit shift m AND 7" 1]
      and_bit [of "drop_bit shift m AND 7" 0]
    by (simp_all add: bit_and_iff bit_drop_bit_eq bit_numeral_rec)
  then show ?thesis by (simp add: mode_triple_def Let_def)
qed

lemma mode_string_letters:
  assumes "mode \<noteq> 0"
  defines "m \<equiv> ucast mode :: u32"
  shows "mode_string mode =
    [mode_type m, if bit m 8 then 0x72 else 0x2d, if bit m 7 then 0x77 else 0x2d, exec_letter (bit m 6) (bit m 11) 0x73 0x53,
     if bit m 5 then 0x72 else 0x2d, if bit m 4 then 0x77 else 0x2d, exec_letter (bit m 3) (bit m 10) 0x73 0x53,
     if bit m 2 then 0x72 else 0x2d, if bit m 1 then 0x77 else 0x2d, exec_letter (bit m 0) (bit m 9) 0x74 0x54]"
proof -
  have "m AND 0x800 \<noteq> 0 \<longleftrightarrow> bit m 11" "m AND 0x400 \<noteq> 0 \<longleftrightarrow> bit m 10" "m AND 0x200 \<noteq> 0 \<longleftrightarrow> bit m 9"
    using and_bit [of m 11] and_bit [of m 10] and_bit [of m 9] by simp_all
  moreover have "mode_triple m 0 = [if bit m 2 then 0x72 else 0x2d, if bit m 1 then 0x77 else 0x2d, if bit m 0 then 0x78 else 0x2d]"
    using mode_triple_bits [of m 0] by (simp only: add_0)
  moreover have "mode_triple m 3 = [if bit m 5 then 0x72 else 0x2d, if bit m 4 then 0x77 else 0x2d, if bit m 3 then 0x78 else 0x2d]"
    "mode_triple m 6 = [if bit m 8 then 0x72 else 0x2d, if bit m 7 then 0x77 else 0x2d, if bit m 6 then 0x78 else 0x2d]"
    using mode_triple_bits [of m 3] mode_triple_bits [of m 6] by simp_all
  ultimately show ?thesis
    using assms(1) unfolding m_def [symmetric] mode_string_def Let_def
    by (simp add: mode_special_def exec_letter_def)
qed

text \<open>
  The permission string says all twelve bits.  Two modes that are shown alike have the
  same read, write, execute, set-user, set-group and sticky bits: the letters s, S, t and T
  keep the execute bit they stand on.
\<close>

theorem mode_string_exact:
  assumes "mode \<noteq> 0" "mode' \<noteq> 0" "mode_string mode = mode_string mode'"
  shows "mode AND 0xfff = mode' AND 0xfff"
proof -
  have letter: "exec_letter x s l u = exec_letter x' s' l u \<longleftrightarrow> x = x' \<and> s = s'"
    if "l \<noteq> u" "l \<noteq> 0x78" "l \<noteq> 0x2d" "u \<noteq> 0x78" "u \<noteq> 0x2d" for x s x' s' l u
    using that by (auto simp: exec_letter_def)
  have low: "bit (ucast w :: u32) n = bit w n" if "n < 12" for w :: i64 and n
    using that by (simp add: bit_ucast_iff)
  have ite: "(if p then a else b) = (if q then a else b) \<longleftrightarrow> p = q" if "a \<noteq> b" for p q and a b :: u8
    using that by simp
  have "\<forall>n \<in> {0, 1, 2, 3, 4, 5, 6, 7, 8, 9, 10, 11}. bit mode n = bit mode' n"
    using assms(3) unfolding mode_string_letters [OF assms(1)] mode_string_letters [OF assms(2)]
    by (simp add: letter ite low)
  moreover have "{0, 1, 2, 3, 4, 5, 6, 7, 8, 9, 10, 11} = {..< 12 :: nat}" by (auto simp: less_Suc_eq numeral_eq_Suc)
  ultimately have "bit mode n = bit mode' n" if "n < 12" for n using that by blast
  moreover have "bit (0xfff :: i64) n \<Longrightarrow> n < 12" for n
  proof -
    have "(0xfff :: i64) = mask 12" by (simp add: mask_eq_exp_minus_1)
    then show "bit (0xfff :: i64) n \<Longrightarrow> n < 12" by (simp add: bit_mask_iff)
  qed
  ultimately show ?thesis by (intro bit_word_eqI) (auto simp: bit_and_iff)
qed

theorem mode_string_exact_witness: "mode_string 0x81ed \<noteq> mode_string 0x89ed"
  using mode_string_exact [of "0x81ed" "0x89ed"] by auto

end
