(* ===== verification/Ast.thy ===== *)
theory Ast
  imports Chars Kinds
begin

text \<open>
  What a query means, \<open>crates/scour-core/src/types/ast.rs\<close>: comparisons, conditions,
  alternatives and groups.  The text of a condition is a type parameter: the parser makes
  characters, the index compares bytes.  A 64-bit integer is the number it holds.
\<close>

datatype cmp_op = Lt | Le | Gt | Ge | Eq

fun cmp_holds :: "cmp_op \<Rightarrow> int \<Rightarrow> int \<Rightarrow> bool" where
  "cmp_holds Lt lhs rhs = (lhs < rhs)"
| "cmp_holds Le lhs rhs = (lhs \<le> rhs)"
| "cmp_holds Gt lhs rhs = (lhs > rhs)"
| "cmp_holds Ge lhs rhs = (lhs \<ge> rhs)"
| "cmp_holds Eq lhs rhs = (lhs = rhs)"

fun cmp_symbol :: "cmp_op \<Rightarrow> chars" where
  "cmp_symbol Lt = chs ''<''"
| "cmp_symbol Le = chs ''<=''"
| "cmp_symbol Gt = chs ''>''"
| "cmp_symbol Ge = chs ''>=''"
| "cmp_symbol Eq = chs ''=''"

datatype time_field = Modified | Created | Accessed

datatype num_field = Mode | Uid | Gid | Items | Disk

datatype 't match =
    NameContains 't
  | NameGlob 't
  | PathContains 't
  | Under 't
  | ParentIs 't
  | Ext "'t list"
  | IsDir bool
  | Size cmp_op int
  | Kind "kind list"
  | Time time_field cmp_op int
  | ContentContains 't
  | Depth cmp_op int
  | Regex 't
  | NameLen cmp_op int
  | NameContainsCased 't
  | Num num_field cmp_op int
  | Bits num_field int int bool

record 't group =
  alts :: "(bool \<times> 't match) list"

record 't ast =
  groups :: "'t group list"

definition ast_is_empty :: "'t ast \<Rightarrow> bool" where
  "ast_is_empty q \<longleftrightarrow> groups q = []"

definition ast_matches :: "'t ast \<Rightarrow> 't match list" where
  "ast_matches q = concat (map (\<lambda>g. map snd (alts g)) (groups q))"

definition needs_content :: "'t ast \<Rightarrow> bool" where
  "needs_content q = list_ex (\<lambda>m. case m of ContentContains _ \<Rightarrow> True | _ \<Rightarrow> False) (ast_matches q)"

definition narrowing_term :: "nat \<Rightarrow> chars group \<Rightarrow> chars option" where
  "narrowing_term min_chars g =
     (case alts g of
        [(False, NameContains t)] \<Rightarrow> if min_chars \<le> length t then Some t else None
      | _ \<Rightarrow> None)"

definition narrowing_terms :: "nat \<Rightarrow> chars ast \<Rightarrow> chars list" where
  "narrowing_terms min_chars q = List.map_filter (narrowing_term min_chars) (groups q)"

end
