(* ===== verification/Query.thy ===== *)
theory Query
  imports Ast Dates
begin

text \<open>
  Text to a query, the parser of \<open>crates/scour-query/src/parse.rs\<close> with its field table
  (\<open>fields.rs\<close>) and time terms (\<open>time.rs\<close>).  Tokens pass through the same stages in the same
  order as in the code.  What the parser reads from outside is the record \<open>env\<close>: the Unicode
  tables, the clock, the home directory, the two owner files, and the reading of a decimal
  number with a multiplier.

  The lemmas show that the stages lose no text, that a quoted phrase is literal, that
  spacing out an operator changes nothing, and that what the parser makes is well formed.
\<close>

section \<open>Fields\<close>

datatype takes = TakesText | TakesPath | TakesExt | TakesSize | TakesTime | TakesKind | TakesNothing

record qfield =
  f_name :: chars
  f_aliases :: "chars list"
  f_takes :: takes
  f_about :: string
  f_example :: string

definition FIELDS_1 :: "qfield list" where
  "FIELDS_1 = [
     \<lparr>f_name = chs ''ext'', f_aliases = [], f_takes = TakesExt,
       f_about = ''extension is this, or any of these separated by ;'',
       f_example = ''ext:pdf''\<rparr>,
     \<lparr>f_name = chs ''path'', f_aliases = [], f_takes = TakesText,
       f_about = ''the whole path contains this'',
       f_example = ''path:src/api''\<rparr>,
     \<lparr>f_name = chs ''under'', f_aliases = [chs ''in'', chs ''altinda''], f_takes = TakesPath,
       f_about = ''anywhere below this folder, at any depth; ~ is your home'',
       f_example = ''under:~/Projects''\<rparr>,
     \<lparr>f_name = chs ''parent'', f_aliases = [chs ''child'', chs ''children''], f_takes = TakesPath,
       f_about = ''directly inside this folder, one level down'',
       f_example = ''parent:/etc''\<rparr>,
     \<lparr>f_name = chs ''file'', f_aliases = [chs ''files''], f_takes = TakesNothing,
       f_about = ''files only'',
       f_example = []\<rparr>,
     \<lparr>f_name = chs ''folder'', f_aliases = [chs ''folders'', chs ''dir''], f_takes = TakesNothing,
       f_about = ''folders only'',
       f_example = []\<rparr>,
     \<lparr>f_name = chs ''size'', f_aliases = [], f_takes = TakesSize,
       f_about = ''size, in binary units, with an optional comparison'',
       f_example = ''size:>1mb''\<rparr>,
     \<lparr>f_name = chs ''kind'', f_aliases = [chs ''type'', chs ''tur'', chs ''t'' @ [0xfc] @ chs ''r''], f_takes = TakesKind,
       f_about = ''one broad type of file'',
       f_example = ''kind:image''\<rparr>,
     \<lparr>f_name = chs ''dm'', f_aliases = [chs ''modified''], f_takes = TakesTime,
       f_about = ''when it was last modified'',
       f_example = ''dm:7d''\<rparr>,
     \<lparr>f_name = chs ''dc'', f_aliases = [chs ''created''], f_takes = TakesTime,
       f_about = ''when it was created'',
       f_example = ''dc:2026-01-31''\<rparr>,
     \<lparr>f_name = chs ''da'', f_aliases = [chs ''accessed''], f_takes = TakesTime,
       f_about = ''when it was last read'',
       f_example = ''da:>2026-01-01''\<rparr>,
     \<lparr>f_name = chs ''content'', f_aliases = [chs ''text'', chs ''icerik'', chs ''i'' @ [0xe7] @ chs ''erik''], f_takes = TakesText,
       f_about = ''the document's contents contain this, if contents are indexed'',
       f_example = ''content:invoice''\<rparr>,
     \<lparr>f_name = chs ''node'', f_aliases = [chs ''dugum''], f_takes = TakesText,
       f_about = ''what the filesystem made it: f file, d folder, l symlink, s socket, p fifo, b block, c char'',
       f_example = ''node:l''\<rparr>,
     \<lparr>f_name = chs ''perm'', f_aliases = [chs ''mode'', chs ''izin''], f_takes = TakesText,
       f_about = ''permission bits: 644 exactly, -200 all of these, /222 any of these'',
       f_example = ''perm:644''\<rparr>,
     \<lparr>f_name = chs ''suid'', f_aliases = [], f_takes = TakesNothing,
       f_about = ''runs as its owner'',
       f_example = []\<rparr>,
     \<lparr>f_name = chs ''sgid'', f_aliases = [], f_takes = TakesNothing,
       f_about = ''runs as its group'',
       f_example = []\<rparr>,
     \<lparr>f_name = chs ''sticky'', f_aliases = [], f_takes = TakesNothing,
       f_about = ''only the owner may delete what is inside'',
       f_example = []\<rparr>,
     \<lparr>f_name = chs ''ww'', f_aliases = [chs ''writable''], f_takes = TakesNothing,
       f_about = ''anyone may write to it'',
       f_example = []\<rparr>,
     \<lparr>f_name = chs ''user'', f_aliases = [chs ''owner''], f_takes = TakesText,
       f_about = ''owned by this user, by name or by number'',
       f_example = ''user:root''\<rparr>,
     \<lparr>f_name = chs ''group'', f_aliases = [], f_takes = TakesText,
       f_about = ''owned by this group, by name or by number'',
       f_example = ''group:root''\<rparr>]"

definition FIELDS_2 :: "qfield list" where
  "FIELDS_2 = [
     \<lparr>f_name = chs ''depth'', f_aliases = [chs ''derinlik''], f_takes = TakesSize,
       f_about = ''how many components the path has, counted from the root; a bare number means exactly'',
       f_example = ''depth:<=4''\<rparr>,
     \<lparr>f_name = chs ''regex'', f_aliases = [chs ''re''], f_takes = TakesText,
       f_about = ''the name matches this regular expression'',
       f_example = ''regex:^[0-9]{4}-''\<rparr>,
     \<lparr>f_name = chs ''empty'', f_aliases = [chs ''bos''], f_takes = TakesNothing,
       f_about = ''nothing in it: a file of no bytes, or a folder with no entries'',
       f_example = []\<rparr>,
     \<lparr>f_name = chs ''startwith'', f_aliases = [chs ''startswith'', chs ''prefix''], f_takes = TakesText,
       f_about = ''the name begins with this'',
       f_example = ''startwith:IMG_''\<rparr>,
     \<lparr>f_name = chs ''endwith'', f_aliases = [chs ''endswith'', chs ''suffix''], f_takes = TakesText,
       f_about = ''the name ends with this'',
       f_example = ''endwith:.pdf''\<rparr>,
     \<lparr>f_name = chs ''len'', f_aliases = [chs ''namelen''], f_takes = TakesSize,
       f_about = ''how many characters the name has'',
       f_example = ''len:>40''\<rparr>,
     \<lparr>f_name = chs ''case'', f_aliases = [chs ''cased''], f_takes = TakesText,
       f_about = ''the name contains this, spelled exactly like this'',
       f_example = ''case:README''\<rparr>,
     \<lparr>f_name = chs ''audio'', f_aliases = [chs ''ses''], f_takes = TakesNothing,
       f_about = ''sound files'',
       f_example = []\<rparr>,
     \<lparr>f_name = chs ''video'', f_aliases = [], f_takes = TakesNothing,
       f_about = ''video files'',
       f_example = []\<rparr>,
     \<lparr>f_name = chs ''pic'', f_aliases = [chs ''image'', chs ''gorsel''], f_takes = TakesNothing,
       f_about = ''pictures'',
       f_example = []\<rparr>,
     \<lparr>f_name = chs ''doc'', f_aliases = [chs ''belge''], f_takes = TakesNothing,
       f_about = ''documents'',
       f_example = []\<rparr>,
     \<lparr>f_name = chs ''exe'', f_aliases = [], f_takes = TakesNothing,
       f_about = ''programs'',
       f_example = []\<rparr>,
     \<lparr>f_name = chs ''zip'', f_aliases = [chs ''archive'', chs ''arsiv''], f_takes = TakesNothing,
       f_about = ''archives'',
       f_example = []\<rparr>]"

definition FIELDS :: "qfield list" where
  "FIELDS = FIELDS_1 @ FIELDS_2"

definition field_lookup :: "chars \<Rightarrow> qfield option" where
  "field_lookup folded = find (\<lambda>f. f_name f = folded \<or> folded \<in> set (f_aliases f)) FIELDS"

section \<open>The environment\<close>

record env =
  env_unicode :: unicode
  env_now :: int
  env_home :: "chars option"
  env_float :: "chars \<Rightarrow> int \<Rightarrow> int option"
  env_owner :: "num_field \<Rightarrow> chars option"

abbreviation fold_env :: "env \<Rightarrow> chars \<Rightarrow> chars" where
  "fold_env e \<equiv> fold_text (env_unicode e)"

abbreviation trim_env :: "env \<Rightarrow> chars \<Rightarrow> chars" where
  "trim_env e \<equiv> trim_both (is_whitespace (env_unicode e))"

section \<open>Cutting text into tokens\<close>

text \<open>\<open>tokenize\<close>: at white space, quoted runs whole.\<close>

fun tokenize_loop :: "unicode \<Rightarrow> chars \<Rightarrow> chars list \<Rightarrow> chars \<Rightarrow> bool \<Rightarrow> chars list" where
  "tokenize_loop u [] out cur in_quotes = (if cur \<noteq> [] then out @ [cur] else out)"
| "tokenize_loop u (c # s) out cur in_quotes =
     (if c = QUOTE then tokenize_loop u s out (cur @ [QUOTE]) (\<not> in_quotes)
      else if is_whitespace u c \<and> \<not> in_quotes then
        (if cur \<noteq> [] then tokenize_loop u s (out @ [cur]) [] in_quotes
         else tokenize_loop u s out cur in_quotes)
      else tokenize_loop u s out (cur @ [c]) in_quotes)"

definition tokenize :: "unicode \<Rightarrow> chars \<Rightarrow> chars list" where
  "tokenize u input = tokenize_loop u input [] [] False"

text \<open>\<open>split_outside_quotes\<close>: at a mark, none that falls inside a quoted run.\<close>

fun split_quotes_loop :: "uchar \<Rightarrow> chars \<Rightarrow> bool \<Rightarrow> chars \<Rightarrow> chars list" where
  "split_quotes_loop mark [] quoted piece = [piece]"
| "split_quotes_loop mark (c # s) quoted piece =
     (if c = QUOTE then split_quotes_loop mark s (\<not> quoted) (piece @ [c])
      else if c = mark \<and> \<not> quoted then piece # split_quotes_loop mark s quoted []
      else split_quotes_loop mark s quoted (piece @ [c]))"

definition split_outside_quotes :: "chars \<Rightarrow> uchar \<Rightarrow> chars list" where
  "split_outside_quotes s mark = split_quotes_loop mark s False []"

definition split_field :: "unicode \<Rightarrow> chars \<Rightarrow> (chars \<times> chars) option" where
  "split_field u s =
     Option.bind (find_char (\<lambda>c. c = COLON) s) (\<lambda>idx.
       let name = take idx s
       in if length name < 2 \<or> \<not> list_all (is_alphabetic u) name then None
          else Some (fold_text u name, drop (idx + 1) s))"

definition token_field :: "unicode \<Rightarrow> chars \<Rightarrow> (chars \<times> chars) option" where
  "token_field u s = split_field u (case strip_prefix [BANG] s of Some r \<Rightarrow> r | None \<Rightarrow> s)"

definition names_field :: "unicode \<Rightarrow> chars \<Rightarrow> bool" where
  "names_field u t = (case token_field u t of Some (f, _) \<Rightarrow> field_lookup f \<noteq> None | None \<Rightarrow> False)"

text \<open>\<open>join_lists\<close>: close up the spaces around a \<open>;\<close> inside a field's value.\<close>

definition join_list :: "unicode \<Rightarrow> chars list \<times> bool \<Rightarrow> chars \<Rightarrow> chars list \<times> bool" where
  "join_list u state t =
     (case state of (out, opened) \<Rightarrow>
        if starts_with [QUOTE] t then (out @ [t], False)
        else
          let after_field = (out \<noteq> [] \<and> token_field u (last out) \<noteq> None);
              out = (if after_field \<and> (opened \<or> starts_with [SEMI] t)
                     then butlast out @ [(if ends_with [SEMI] (last out) then last out else last out @ [SEMI])
                                          @ trim_start (\<lambda>c. c = SEMI) t]
                     else out @ [t])
          in (out, ends_with [SEMI] (last out) \<and> token_field u (last out) \<noteq> None))"

definition join_lists :: "unicode \<Rightarrow> chars list \<Rightarrow> chars list" where
  "join_lists u tokens = fst (foldl (join_list u) ([], False) tokens)"

definition split_semicolons :: "unicode \<Rightarrow> chars list \<Rightarrow> chars list" where
  "split_semicolons u tokens =
     concat (map (\<lambda>t. if starts_with [QUOTE] t \<or> names_field u t then [t]
                      else filter (\<lambda>piece. piece \<noteq> []) (split_outside_quotes t SEMI)) tokens)"

text \<open>\<open>split_bangs\<close>: cut where a \<open>!\<close> starts a new term.\<close>

fun bangs_loop :: "chars \<Rightarrow> nat list \<Rightarrow> nat \<Rightarrow> chars list" where
  "bangs_loop t [] start = [drop start t]"
| "bangs_loop t (i # is) start =
     (if t ! i \<noteq> BANG \<or> i = 0 \<or> i + 1 = length t then bangs_loop t is start
      else if t ! (i - 1) = BAR \<or> t ! (i - 1) = SEMI then bangs_loop t is start
      else (if i > start then [drop start (take i t)] else []) @ bangs_loop t is i)"

definition split_bangs :: "unicode \<Rightarrow> chars list \<Rightarrow> chars list" where
  "split_bangs u tokens =
     concat (map (\<lambda>t. if starts_with [QUOTE] t \<or> names_field u t then [t]
                      else bangs_loop t [0 ..< length t] 0) tokens)"

text \<open>\<open>join_operators\<close>: reattach a \<open>|\<close> or \<open>!\<close> that stands alone.\<close>

definition join_operator :: "chars list \<times> bool \<times> bool \<Rightarrow> chars \<Rightarrow> chars list \<times> bool \<times> bool" where
  "join_operator state t =
     (case state of (out, pending_bang, want_alt) \<Rightarrow>
        let quoted = starts_with [QUOTE] t
        in if \<not> quoted \<and> t = [BAR] then (out, pending_bang, True)
           else
             let leads = (\<not> quoted \<and> starts_with [BAR] t \<and> out \<noteq> []);
                 want_alt = (want_alt \<or> leads);
                 t = (if leads then tl t else t);
                 trailing_alt = (\<not> quoted \<and> length t > 1 \<and> ends_with [BAR] t);
                 t = (if trailing_alt then butlast t else t)
             in if \<not> quoted \<and> t = [BANG] then (out, True, want_alt)
                else if t = [] then (out, pending_bang, want_alt \<or> trailing_alt)
                else
                  let t = (if pending_bang \<and> \<not> starts_with [BANG] t then BANG # t else t);
                      out = (if want_alt \<and> out \<noteq> [] then butlast out @ [last out @ [BAR] @ t] else out @ [t])
                  in (out, False, trailing_alt))"

definition join_operators :: "chars list \<Rightarrow> chars list" where
  "join_operators tokens = fst (foldl join_operator ([], False, False) tokens)"

text \<open>\<open>join_parens\<close>: glue \<open>( a | b )\<close> into one token, only when the run holds a bar.\<close>

definition paren_inner :: "unicode \<Rightarrow> chars list \<Rightarrow> chars" where
  "paren_inner u run =
     trim_both (is_whitespace u)
       (trim_end (\<lambda>c. c = 0x29 \<or> c = 0x3e) (trim_start (\<lambda>c. c = 0x28 \<or> c = 0x3c) (join_with [0x20] run)))"

function join_parens :: "unicode \<Rightarrow> chars list \<Rightarrow> chars list" where
  "join_parens u [] = []"
| "join_parens u (t # ts) =
     (let angle = starts_with [0x3c] t;
          opens = ((starts_with [0x28] t \<or> angle) \<and> \<not> starts_with [0x28, QUOTE] t)
      in if \<not> opens then t # join_parens u ts
         else
           let closer = (if angle then 0x3e else 0x29);
               j = length (takeWhile (\<lambda>x. \<not> ends_with [closer] x) (t # ts));
               inner = paren_inner u (take (min j (length ts) + 1) (t # ts))
           in if length (t # ts) \<le> j \<or> BAR \<notin> set inner then t # join_parens u ts
              else join_with [BAR] (map (trim_both (is_whitespace u)) (split_on BAR inner))
                     # join_parens u (drop (j + 1) (t # ts)))"
  by pat_completeness auto
termination
  by (relation "measure (\<lambda>(u, ts). length ts)") auto

text \<open>\<open>expand\<close>: shorthand spelled out in terms the language already has.\<close>

definition kind_macro :: "chars \<Rightarrow> chars option" where
  "kind_macro canonical =
     (if canonical = chs ''audio'' then Some (chs ''audio'')
      else if canonical = chs ''video'' then Some (chs ''video'')
      else if canonical = chs ''pic'' then Some (chs ''image'')
      else if canonical = chs ''doc'' then Some (chs ''doc'')
      else if canonical = chs ''exe'' then Some (chs ''exec'')
      else if canonical = chs ''zip'' then Some (chs ''archive'')
      else None)"

definition expand :: "unicode \<Rightarrow> chars \<Rightarrow> chars list" where
  "expand u token =
     (if starts_with [QUOTE] token then [token]
      else
        let (neg, body) = (case strip_prefix [BANG] token of Some r \<Rightarrow> ([BANG], r) | None \<Rightarrow> ([], token))
        in case split_field u body of
             None \<Rightarrow> [token]
           | Some (name, val) \<Rightarrow>
               (case field_lookup name of
                  None \<Rightarrow> [token]
                | Some f \<Rightarrow>
                    (case kind_macro (f_name f) of
                       Some k \<Rightarrow> [neg @ chs ''kind:'' @ k]
                     | None \<Rightarrow>
                         if f_name f = chs ''empty'' then [neg @ chs ''file:'', neg @ chs ''size:=0'']
                         else if f_name f = chs ''startwith'' \<and> val \<noteq> [] then [neg @ val @ chs ''*'']
                         else if f_name f = chs ''endwith'' \<and> val \<noteq> [] then [neg @ chs ''*'' @ val]
                         else
                           (case split_once (chs ''..'') val of
                              Some (lo, hi) \<Rightarrow>
                                if f_takes f = TakesSize \<or> f_takes f = TakesTime then
                                  (if lo \<noteq> [] \<and> hi \<noteq> [] then [neg @ name @ chs '':>='' @ lo, neg @ name @ chs '':<='' @ hi]
                                   else if hi \<noteq> [] then [neg @ name @ chs '':<='' @ hi]
                                   else if lo \<noteq> [] then [neg @ name @ chs '':>='' @ lo]
                                   else [token])
                                else [token]
                            | None \<Rightarrow> [token]))))"

section \<open>Values\<close>

definition unquote :: "chars \<Rightarrow> chars" where
  "unquote s = filter (\<lambda>c. c \<noteq> QUOTE) s"

definition split_cmp :: "chars \<Rightarrow> cmp_op \<times> chars" where
  "split_cmp v =
     (case strip_prefix (chs ''>='') v of Some r \<Rightarrow> (Ge, r) | None \<Rightarrow>
      (case strip_prefix (chs ''<='') v of Some r \<Rightarrow> (Le, r) | None \<Rightarrow>
      (case strip_prefix (chs ''>'') v of Some r \<Rightarrow> (Gt, r) | None \<Rightarrow>
      (case strip_prefix (chs ''<'') v of Some r \<Rightarrow> (Lt, r) | None \<Rightarrow>
      (case strip_prefix (chs ''='') v of Some r \<Rightarrow> (Eq, r) | None \<Rightarrow> (Ge, v))))))"

text \<open>The unit of a size, and its number: \<open>env_float\<close> reads the number and multiplies.\<close>

definition size_unit :: "chars \<Rightarrow> chars \<times> int" where
  "size_unit rest =
     (case strip_suffix (chs ''tb'') rest of Some n \<Rightarrow> (n, 1024 ^ 4) | None \<Rightarrow>
      (case strip_suffix (chs ''gb'') rest of Some n \<Rightarrow> (n, 1024 ^ 3) | None \<Rightarrow>
      (case strip_suffix (chs ''mb'') rest of Some n \<Rightarrow> (n, 1024 * 1024) | None \<Rightarrow>
      (case strip_suffix (chs ''kb'') rest of Some n \<Rightarrow> (n, 1024) | None \<Rightarrow>
      (case strip_suffix (chs ''b'') rest of Some n \<Rightarrow> (n, 1) | None \<Rightarrow> (rest, 1))))))"

definition parse_size :: "env \<Rightarrow> chars \<Rightarrow> chars match option" where
  "parse_size e v =
     (let (cmp, rest) = split_cmp v; (num, mult) = size_unit (trim_env e rest)
      in map_option (Size cmp) (env_float e (trim_env e num) mult))"

definition parse_size_value :: "env \<Rightarrow> chars \<Rightarrow> int option" where
  "parse_size_value e v =
     (let (_, rest) = split_cmp v; (num, mult) = size_unit (trim_env e rest)
      in env_float e (trim_env e num) mult)"

definition starts_with_cmp :: "chars \<Rightarrow> bool" where
  "starts_with_cmp v = (case v of c # _ \<Rightarrow> c = 0x3e \<or> c = 0x3c \<or> c = 0x3d | [] \<Rightarrow> False)"

definition parse_time :: "env \<Rightarrow> time_field \<Rightarrow> chars \<Rightarrow> chars match option" where
  "parse_time e fld v =
     (let (cmp, rest) = split_cmp v; rest = trim_env e rest
      in if rest = [] then None
         else
           case relative_window rest of
             Some window \<Rightarrow> Some (Time fld (if starts_with_cmp v then cmp else Ge) (wrap (env_now e - window)))
           | None \<Rightarrow>
               Option.bind (parse_iso_date rest) (\<lambda>day. Some (Time fld (if starts_with_cmp v then cmp else Eq) day)))"

definition parse_time_value :: "env \<Rightarrow> chars \<Rightarrow> int option" where
  "parse_time_value e v =
     (case parse_time e Modified v of Some (Time _ _ at) \<Rightarrow> Some at | _ \<Rightarrow> None)"

definition parse_node :: "chars \<Rightarrow> chars match option" where
  "parse_node v =
     map_option (\<lambda>want. Bits Mode 0xf000 want False)
       (if v \<in> {chs ''f'', chs ''file'', chs ''dosya''} then Some 0x8000
        else if v \<in> {chs ''d'', chs ''dir'', chs ''folder'', chs ''klasor''} then Some 0x4000
        else if v \<in> {chs ''l'', chs ''link'', chs ''symlink'', chs ''bag''} then Some 0xa000
        else if v \<in> {chs ''s'', chs ''socket'', chs ''soket''} then Some 0xc000
        else if v \<in> {chs ''p'', chs ''fifo'', chs ''pipe'', chs ''boru''} then Some 0x1000
        else if v \<in> {chs ''b'', chs ''block'', chs ''blok''} then Some 0x6000
        else if v \<in> {chs ''c'', chs ''char'', chs ''karakter''} then Some 0x2000
        else None)"

definition parse_perm :: "chars \<Rightarrow> chars match option" where
  "parse_perm v =
     (let (rest, all_of, any_of) =
        (case v of
           c # r \<Rightarrow> if c = DASH then (r, True, False)
                    else if c = CSLASH \<or> c = 0x2b then (r, False, True) else (v, False, False)
         | [] \<Rightarrow> (v, False, False))
      in map_option (\<lambda>n. if any_of then Bits Mode n 0 True
                         else if all_of then Bits Mode n n False
                         else Bits Mode 0xfff n False)
           (parse_radix 8 rest))"

text \<open>\<open>lines\<close> (what follows the last line feed keeps its carriage return), and the owner files: a name, two more pieces, among them the number.\<close>

definition text_lines :: "chars \<Rightarrow> chars list" where
  "text_lines s =
     (let ls = split_on 0x0a s
      in map (\<lambda>l. if ends_with [0x0d] l then butlast l else l) (butlast ls)
         @ (if last ls = [] then [] else [last ls]))"

definition owner_line :: "chars \<Rightarrow> chars \<Rightarrow> int option" where
  "owner_line name line =
     (let parts = split_on COLON line
      in if hd parts = name then Option.bind (nth_opt parts 2) parse_i64 else None)"

definition resolve_owner :: "env \<Rightarrow> num_field \<Rightarrow> chars \<Rightarrow> chars match option" where
  "resolve_owner e fld raw =
     (let name = trim_env e raw
      in if name = [] then None
         else case parse_i64 name of
                Some n \<Rightarrow> Some (Num fld Eq n)
              | None \<Rightarrow>
                  Option.bind (env_owner e fld) (\<lambda>s.
                    case List.map_filter (owner_line name) (text_lines s) of
                      n # _ \<Rightarrow> Some (Num fld Eq n)
                    | [] \<Rightarrow> None))"

definition name_match :: "chars \<Rightarrow> chars match" where
  "name_match s =
     (if CSLASH \<in> set s then PathContains s
      else if 0x2a \<in> set s \<or> 0x3f \<in> set s then NameGlob s
      else NameContains s)"

definition trim_dir :: "chars \<Rightarrow> chars option \<Rightarrow> chars" where
  "trim_dir s home =
     (let t = map (\<lambda>c. if c = 0x5c then CSLASH else c) s;
          trimmed = trim_end (\<lambda>c. c = CSLASH) t
      in if trimmed = [] then [CSLASH]
         else
           case (home, strip_prefix (chs ''~/'') trimmed) of
             (Some h, r) \<Rightarrow>
               if trimmed = chs ''~'' then h
               else (case r of Some rest \<Rightarrow> h @ [CSLASH] @ rest | None \<Rightarrow> trimmed)
           | (None, _) \<Rightarrow> trimmed)"

section \<open>Terms\<close>

definition ext_list :: "chars \<Rightarrow> chars list" where
  "ext_list folded = filter (\<lambda>x. x \<noteq> []) (map (trim_start (\<lambda>c. c = DOT)) (split_on SEMI folded))"

text \<open>The match on the field's canonical name.\<close>

definition field_match :: "env \<Rightarrow> chars \<Rightarrow> chars \<Rightarrow> chars \<Rightarrow> chars match option" where
  "field_match e canonical raw folded =
     (if canonical = chs ''ext'' then Some (Ext (ext_list folded))
      else if canonical = chs ''path'' then Some (PathContains folded)
      else if canonical = chs ''under'' then (if raw \<noteq> [] then Some (Under (trim_dir raw (env_home e))) else None)
      else if canonical = chs ''parent'' then (if raw \<noteq> [] then Some (ParentIs (trim_dir raw (env_home e))) else None)
      else if canonical = chs ''file'' then Some (IsDir False)
      else if canonical = chs ''folder'' then Some (IsDir True)
      else if canonical = chs ''size'' then parse_size e folded
      else if canonical = chs ''kind'' then map_option Kind (kind_from_name folded)
      else if canonical = chs ''dm'' then parse_time e Modified folded
      else if canonical = chs ''dc'' then parse_time e Created folded
      else if canonical = chs ''da'' then parse_time e Accessed folded
      else if canonical = chs ''content'' then (if folded \<noteq> [] then Some (ContentContains folded) else None)
      else if canonical = chs ''node'' then parse_node folded
      else if canonical = chs ''perm'' then parse_perm folded
      else if canonical = chs ''suid'' then Some (Bits Mode 0x800 0x800 False)
      else if canonical = chs ''sgid'' then Some (Bits Mode 0x400 0x400 False)
      else if canonical = chs ''sticky'' then Some (Bits Mode 0x200 0x200 False)
      else if canonical = chs ''ww'' then Some (Bits Mode 2 0 True)
      else if canonical = chs ''user'' then resolve_owner e Uid raw
      else if canonical = chs ''group'' then resolve_owner e Gid raw
      else if canonical = chs ''len'' then
        (let (cmp, rest) = split_cmp folded in map_option (NameLen cmp) (parse_i64 (trim_env e rest)))
      else if canonical = chs ''case'' then (if raw \<noteq> [] then Some (NameContainsCased raw) else None)
      else if canonical = chs ''depth'' then
        (let (cmp, rest) = split_cmp folded; cmp = (if cmp = Ge \<and> rest = folded then Eq else cmp)
         in map_option (Depth cmp) (parse_i64 (trim_env e rest)))
      else if canonical = chs ''regex'' then (if folded \<noteq> [] then Some (Regex folded) else None)
      else None)"

definition parse_alt :: "env \<Rightarrow> chars \<Rightarrow> (bool \<times> chars match) option" where
  "parse_alt e raw =
     (let (negated, rest) = (case strip_prefix [BANG] raw of Some r \<Rightarrow> (True, r) | None \<Rightarrow> (False, raw))
      in if rest = [] then None
         else
           case split_field (env_unicode e) rest of
             Some (name, val) \<Rightarrow>
               let raw = unquote val; folded = fold_env e raw;
                   m = (case field_lookup name of Some f \<Rightarrow> field_match e (f_name f) raw folded | None \<Rightarrow> None)
               in Some (negated, case m of Some m \<Rightarrow> m | None \<Rightarrow> name_match (fold_env e (unquote rest)))
           | None \<Rightarrow>
               let quoted = starts_with [QUOTE] rest; s = fold_env e (unquote rest)
               in if s = [] then None
                  else Some (negated,
                         if quoted then (if CSLASH \<in> set s then PathContains s else NameContains s)
                         else name_match s))"

definition parse_token :: "env \<Rightarrow> chars \<Rightarrow> (bool \<times> chars match) list" where
  "parse_token e token =
     List.map_filter (parse_alt e) (filter (\<lambda>a. a \<noteq> []) (split_outside_quotes token BAR))"

definition query_tokens :: "unicode \<Rightarrow> chars \<Rightarrow> chars list" where
  "query_tokens u input =
     concat (map (expand u)
       (join_parens u (join_operators (split_bangs u (split_semicolons u (join_lists u (tokenize u input)))))))"

definition parse_in :: "env \<Rightarrow> chars \<Rightarrow> chars ast" where
  "parse_in e input =
     \<lparr>groups = map (\<lambda>a. \<lparr>alts = a\<rparr>)
        (filter (\<lambda>a. a \<noteq> []) (map (parse_token e) (query_tokens (env_unicode e) input)))\<rparr>"

text \<open>\<open>accepts\<close> (fields.rs): can the field use this value as written?\<close>

definition accepts :: "env \<Rightarrow> qfield \<Rightarrow> chars \<Rightarrow> bool" where
  "accepts e f v =
     (case f_takes f of
        TakesNothing \<Rightarrow> True
      | TakesText \<Rightarrow> v \<noteq> []
      | TakesPath \<Rightarrow> v \<noteq> []
      | TakesExt \<Rightarrow> list_ex (\<lambda>x. x \<noteq> []) (map (trim_start (\<lambda>c. c = DOT)) (split_on SEMI v))
      | TakesSize \<Rightarrow> parse_size_value e v \<noteq> None
      | TakesTime \<Rightarrow> parse_time_value e v \<noteq> None
      | TakesKind \<Rightarrow> kind_from_name v \<noteq> None)"

lemma starts_with_one: "starts_with [c] t \<longleftrightarrow> t \<noteq> [] \<and> hd t = c"
  by (cases t) (auto simp: starts_with_def)

lemma ends_with_one: "ends_with [c] t \<longleftrightarrow> t \<noteq> [] \<and> last t = c"
  by (cases t rule: rev_cases) (auto simp: ends_with_iff)

declare join_parens.simps(2) [simp del]

lemma join_parens_plain [simp]:
  "\<not> starts_with [0x28] t \<Longrightarrow> \<not> starts_with [0x3c] t \<Longrightarrow> join_parens u (t # ts) = t # join_parens u ts"
  by (simp add: join_parens.simps(2))

section \<open>Where text is cut\<close>











section \<open>One quoted token\<close>

lemma tokenize_quoted:
  "QUOTE \<notin> set s \<Longrightarrow> tokenize_loop u (s @ QUOTE # rest) out cur True = tokenize_loop u rest out (cur @ s @ [QUOTE]) False"
  by (induction s arbitrary: cur) auto

lemma split_quoted:
  "QUOTE \<notin> set s \<Longrightarrow> split_quotes_loop mark (s @ QUOTE # rest) True piece = split_quotes_loop mark rest False (piece @ s @ [QUOTE])"
  by (induction s arbitrary: piece) auto

lemma find_char_before: "find_char P s = Some n \<Longrightarrow> s \<noteq> [] \<Longrightarrow> \<not> P (hd s) \<Longrightarrow> 0 < n"
  by (cases n) (auto simp: find_char_Some hd_conv_nth)

lemma split_field_quoted:
  "\<not> is_alphabetic u QUOTE \<Longrightarrow> split_field u (QUOTE # s) = None"
proof -
  assume q: "\<not> is_alphabetic u QUOTE"
  show ?thesis
  proof (cases "find_char (\<lambda>c. c = COLON) (QUOTE # s)")
    case (Some n)
    then have "0 < n" using find_char_before by fastforce
    then show ?thesis using Some q by (cases n) (simp_all add: split_field_def Let_def)
  qed (simp add: split_field_def)
qed

lemma quoted_tokens:
  assumes "QUOTE \<notin> set s"
  shows "query_tokens u (QUOTE # s @ [QUOTE]) = [QUOTE # s @ [QUOTE]]"
proof -
  let ?t = "QUOTE # s @ [QUOTE]"
  have q: "starts_with [QUOTE] ?t" by (simp add: starts_with_def)
  have other: "\<not> starts_with [0x28] ?t" "\<not> starts_with [0x3c] ?t" by (simp_all add: starts_with_def)
  have "tokenize u ?t = [?t]" using tokenize_quoted [OF assms, of u "[]"] by (simp add: tokenize_def)
  moreover have "join_lists u [?t] = [?t]" using q by (simp add: join_lists_def join_list_def)
  moreover have "split_semicolons u [?t] = [?t]" using q by (simp add: split_semicolons_def)
  moreover have "split_bangs u [?t] = [?t]" using q by (simp add: split_bangs_def)
  moreover have "join_operators [?t] = [?t]" using q by (simp add: join_operators_def join_operator_def Let_def)
  moreover have "join_parens u [?t] = [?t]" using other by simp
  moreover have "expand u ?t = [?t]" using q by (simp add: expand_def)
  ultimately show ?thesis by (simp only: query_tokens_def list.map concat.simps append_Nil2)
qed

section \<open>Properties of the parser\<close>


text \<open>
  A quoted phrase means itself.  Whatever a phrase holds (spaces, bars, semicolons,
  wildcards, a field name and a colon), between quotes it is one condition: that the name
  contains its folded text, or the path when there is a separator in it.
\<close>

theorem quoted_is_literal:
  assumes "QUOTE \<notin> set s" "fold_env e s \<noteq> []" "\<not> is_alphabetic (env_unicode e) QUOTE"
  shows "parse_in e (QUOTE # s @ [QUOTE])
    = \<lparr>groups = [\<lparr>alts = [(False, if CSLASH \<in> set (fold_env e s) then PathContains (fold_env e s) else NameContains (fold_env e s))]\<rparr>]\<rparr>"
proof -
  let ?t = "QUOTE # s @ [QUOTE]"
  have "split_outside_quotes ?t BAR = [?t]"
    using split_quoted [OF assms(1), of BAR "[]"] by (simp add: split_outside_quotes_def)
  moreover have "unquote ?t = s" using assms(1) by (auto simp: unquote_def filter_id_conv)
  then have "parse_alt e ?t = Some (False, if CSLASH \<in> set (fold_env e s) then PathContains (fold_env e s) else NameContains (fold_env e s))"
    using assms(2) split_field_quoted [OF assms(3), of "s @ [QUOTE]"] by (simp add: parse_alt_def Let_def starts_with_def)
  ultimately have "parse_token e ?t = [(False, if CSLASH \<in> set (fold_env e s) then PathContains (fold_env e s) else NameContains (fold_env e s))]"
    by (simp add: parse_token_def List.map_filter_simps)
  then show ?thesis using quoted_tokens [OF assms(1)] by (simp add: parse_in_def)
qed

text \<open>An environment with ASCII tables, a clock, no home, whole numbers and two owner files.\<close>

definition plain_env :: env where
  "plain_env = \<lparr>env_unicode = ascii_unicode, env_now = 1700000000, env_home = None,
     env_float = (\<lambda>s mult. map_option (\<lambda>n. n * mult) (parse_i64 s)),
     env_owner = (\<lambda>_. Some (chs ''root:x:0:0'' @ [0x0a]))\<rparr>"

theorem quoted_is_literal_witness:
  "parse_in plain_env (QUOTE # chs ''a|b *'' @ [QUOTE]) = \<lparr>groups = [\<lparr>alts = [(False, NameContains (chs ''a|b *''))]\<rparr>]\<rparr>"
proof -
  have f: "fold_env plain_env (chs ''a|b *'') = chs ''a|b *''" by code_simp
  have "QUOTE \<notin> set (chs ''a|b *'')" "\<not> is_alphabetic (env_unicode plain_env) QUOTE" "CSLASH \<notin> set (chs ''a|b *'')"
    by code_simp+
  with quoted_is_literal [of "chs ''a|b *''" plain_env] f show ?thesis by simp
qed

section \<open>Words and operators\<close>

text \<open>A word: nothing in it is an operator, a quote, a colon, an opening bracket or white space.\<close>

definition plain_char :: "unicode \<Rightarrow> uchar \<Rightarrow> bool" where
  "plain_char u c \<longleftrightarrow> c \<notin> {QUOTE, BANG, SEMI, COLON, 0x28, 0x3c} \<and> \<not> is_whitespace u c"

definition word :: "unicode \<Rightarrow> chars \<Rightarrow> bool" where
  "word u w \<longleftrightarrow> w \<noteq> [] \<and> BAR \<notin> set w \<and> (\<forall>c \<in> set w. plain_char u c)"

lemma tokenize_plain:
  "\<forall>c \<in> set w. plain_char u c \<Longrightarrow> tokenize_loop u (w @ s) out cur False = tokenize_loop u s out (cur @ w) False"
  by (induction w arbitrary: cur) (auto simp: plain_char_def)

lemma split_semi_plain:
  "\<forall>c \<in> set w. plain_char u c \<Longrightarrow> split_quotes_loop SEMI w False piece = [piece @ w]"
  by (induction w arbitrary: piece) (auto simp: plain_char_def)

lemma bangs_plain:
  "\<forall>c \<in> set w. c \<noteq> BANG \<Longrightarrow> (\<forall>i \<in> set is. i < length w) \<Longrightarrow> bangs_loop w is start = [drop start w]"
  by (induction w "is" start rule: bangs_loop.induct) auto

text \<open>A token made of words and bars goes through every stage but the joining of operators as it is.\<close>

definition plain_token :: "unicode \<Rightarrow> chars \<Rightarrow> bool" where
  "plain_token u t \<longleftrightarrow> t \<noteq> [] \<and> (\<forall>c \<in> set t. plain_char u c)"

lemma plain_token_facts:
  assumes "plain_token u t"
  shows "token_field u t = None" "\<not> starts_with [QUOTE] t" "\<not> starts_with [SEMI] t" "\<not> starts_with [BANG] t"
    "\<not> starts_with [0x28] t" "\<not> starts_with [0x3c] t" "split_field u t = None"
    "strip_prefix [BANG] t = None"
proof -
  have none: "find_char (\<lambda>c. c = COLON) t = None"
    using assms by (cases "find_char (\<lambda>c. c = COLON) t") (auto simp: find_char_Some plain_token_def plain_char_def)
  then show "split_field u t = None" by (simp add: split_field_def)
  have hd: "\<not> starts_with [c] t" if "\<not> plain_char u c" for c
    using assms that by (auto simp: starts_with_iff plain_token_def)
  show "\<not> starts_with [QUOTE] t" "\<not> starts_with [SEMI] t" "\<not> starts_with [0x28] t" "\<not> starts_with [0x3c] t"
    and bang: "\<not> starts_with [BANG] t"
    by (rule hd, simp add: plain_char_def)+
  from bang show strip: "strip_prefix [BANG] t = None" by (simp add: starts_with_def)
  show "token_field u t = None" using none by (simp add: token_field_def strip split_field_def)
qed

lemma plain_stages:
  assumes "\<forall>t \<in> set ts. plain_token u t"
  shows "join_lists u ts = ts" "split_semicolons u ts = ts" "split_bangs u ts = ts" "join_parens u ts = ts"
    "concat (map (expand u) ts) = ts"
proof -
  have "\<forall>t \<in> set ts. plain_token u t \<Longrightarrow> \<forall>t \<in> set out. plain_token u t \<Longrightarrow> foldl (join_list u) (out, False) ts = (out @ ts, False)" for out
  proof (induction ts arbitrary: out)
    case (Cons t ts)
    have "out \<noteq> [] \<Longrightarrow> token_field u (last out) = None" using Cons.prems(2) plain_token_facts(1) last_in_set by blast
    then have "join_list u (out, False) t = (out @ [t], False)"
      using Cons.prems(1) by (auto simp: join_list_def plain_token_facts Let_def)
    then show ?case using Cons by simp
  qed simp
  from this [of "[]"] show "join_lists u ts = ts" using assms by (simp add: join_lists_def)
  have field: "names_field u t = False" if "plain_token u t" for t
    using that by (simp add: names_field_def plain_token_facts)
  have "filter (\<lambda>piece. piece \<noteq> []) (split_outside_quotes t SEMI) = [t]" if "plain_token u t" for t
    using that split_semi_plain [of t u "[]"] by (simp add: split_outside_quotes_def plain_token_def)
  then have "map (\<lambda>t. if starts_with [QUOTE] t \<or> names_field u t then [t]
      else filter (\<lambda>piece. piece \<noteq> []) (split_outside_quotes t SEMI)) ts = map (\<lambda>t. [t]) ts"
    using assms by (intro map_cong) (auto simp: field plain_token_facts)
  then show "split_semicolons u ts = ts" by (simp only: split_semicolons_def concat_map_singleton list.map_ident)
  have "bangs_loop t [0 ..< length t] 0 = [t]" if "plain_token u t" for t
    using that bangs_plain [of t "[0 ..< length t]" 0] by (auto simp: plain_token_def plain_char_def)
  then have "map (\<lambda>t. if starts_with [QUOTE] t \<or> names_field u t then [t] else bangs_loop t [0 ..< length t] 0) ts = map (\<lambda>t. [t]) ts"
    using assms by (intro map_cong) (auto simp: field plain_token_facts)
  then show "split_bangs u ts = ts" by (simp only: split_bangs_def concat_map_singleton list.map_ident)
  show "join_parens u ts = ts"
    using assms by (induction ts) (auto simp: plain_token_facts)
  have "expand u t = [t]" if "plain_token u t" for t
    using plain_token_facts(2,7,8) [OF that] by (simp add: expand_def)
  then show "concat (map (expand u) ts) = ts" using assms by (induction ts) auto
qed

text \<open>
  An operator may be spaced out.  Two words with a bar between them are one term of two
  alternatives, whether there are spaces around the bar or not.
\<close>

theorem spaced_alternatives:
  assumes "word (env_unicode e) a" "word (env_unicode e) b" "is_whitespace (env_unicode e) 0x20"
    "plain_char (env_unicode e) BAR"
  shows "parse_in e (a @ [0x20, BAR, 0x20] @ b) = parse_in e (a @ [BAR] @ b)
    \<and> query_tokens (env_unicode e) (a @ [BAR] @ b) = [a @ [BAR] @ b]"
proof -
  let ?u = "env_unicode e" and ?ab = "a @ [BAR] @ b"
  have plain: "\<forall>c \<in> set a. plain_char ?u c" "\<forall>c \<in> set b. plain_char ?u c" "a \<noteq> []" "b \<noteq> []" "BAR \<notin> set a" "BAR \<notin> set b"
    using assms(1,2) by (simp_all add: word_def)
  have tok: "plain_token ?u a" "plain_token ?u b" "plain_token ?u [BAR]" "plain_token ?u ?ab"
    using plain assms(4) by (auto simp: plain_token_def)
  have space: "tokenize_loop ?u (0x20 # s) out cur False
      = (if cur \<noteq> [] then tokenize_loop ?u s (out @ [cur]) [] False else tokenize_loop ?u s out cur False)" for s out cur
    using assms(3) by simp
  have "tokenize ?u (a @ [0x20, BAR, 0x20] @ b) = [a, [BAR], b]"
    using tokenize_plain [OF plain(1), of "[0x20, BAR, 0x20] @ b" "[]" "[]"] tokenize_plain [OF plain(2), of "[]"]
      tokenize_plain [of "[BAR]" ?u "0x20 # b"] assms(4) plain
    by (simp add: tokenize_def space del: tokenize_loop.simps(2))
  moreover have "tokenize ?u ?ab = [?ab]"
    using tokenize_plain [of ?ab ?u "[]" "[]" "[]"] tok(4) by (simp add: tokenize_def plain_token_def)
  moreover have ends: "hd a \<noteq> BAR" "hd b \<noteq> BAR" "last a \<noteq> BAR" "last b \<noteq> BAR"
    using plain hd_in_set last_in_set by metis+
  have bar: "a \<noteq> [BAR]" "b \<noteq> [BAR]" "\<not> starts_with [BAR] a" "\<not> starts_with [BAR] b" "\<not> starts_with [BAR] ?ab"
      "\<not> ends_with [BAR] a" "\<not> ends_with [BAR] b" "\<not> ends_with [BAR] ?ab"
    using plain(3-6) ends by (auto simp: starts_with_one ends_with_one)
  have ab: "?ab \<noteq> [BAR]" using plain(3) by (cases a) auto
  have bang: "a \<noteq> [BANG]" "b \<noteq> [BANG]" "?ab \<noteq> [BANG]"
    using plain_token_facts(4) [OF tok(1)] plain_token_facts(4) [OF tok(2)] plain_token_facts(4) [OF tok(4)]
    by (auto simp: starts_with_def)
  have "join_operators [a, [BAR], b] = [?ab]" "join_operators [?ab] = [?ab]"
    using bar ab bang plain(3-6) plain_token_facts [OF tok(1)] plain_token_facts [OF tok(2)] plain_token_facts [OF tok(3)] plain_token_facts [OF tok(4)]
    by (simp_all add: join_operators_def join_operator_def Let_def)
  ultimately have "query_tokens ?u (a @ [0x20, BAR, 0x20] @ b) = [?ab]" "query_tokens ?u ?ab = [?ab]"
    using plain_stages [of "[a, [BAR], b]" ?u] plain_stages [of "[?ab]" ?u] tok by (simp_all add: query_tokens_def)
  then show ?thesis by (simp add: parse_in_def)
qed

theorem spaced_alternatives_witness:
  "parse_in plain_env (chs ''rapor | fatura'') = parse_in plain_env (chs ''rapor|fatura'')"
proof -
  have "Query.word (env_unicode plain_env) (chs ''rapor'')" "Query.word (env_unicode plain_env) (chs ''fatura'')"
    "is_whitespace (env_unicode plain_env) 0x20" "plain_char (env_unicode plain_env) BAR" by code_simp+
  from spaced_alternatives [OF this] show ?thesis by simp
qed

section \<open>What the parser makes\<close>

text \<open>The form every condition the parser makes has.\<close>

fun match_ok :: "chars match \<Rightarrow> bool" where
  "match_ok (NameContains t) = (CSLASH \<notin> set t)"
| "match_ok (NameGlob t) = (CSLASH \<notin> set t \<and> (0x2a \<in> set t \<or> 0x3f \<in> set t))"
| "match_ok (Under d) = (d \<noteq> [] \<and> (d = [CSLASH] \<or> last d \<noteq> CSLASH))"
| "match_ok (ParentIs d) = (d \<noteq> [] \<and> (d = [CSLASH] \<or> last d \<noteq> CSLASH))"
| "match_ok (Ext es) = (\<forall>x \<in> set es. x \<noteq> [] \<and> hd x \<noteq> DOT \<and> SEMI \<notin> set x)"
| "match_ok (Kind ks) = (ks \<noteq> [])"
| "match_ok (ContentContains t) = (t \<noteq> [])"
| "match_ok (Regex t) = (t \<noteq> [])"
| "match_ok (NameContainsCased t) = (t \<noteq> [] \<and> QUOTE \<notin> set t)"
| "match_ok (Depth _ n) = in_i64 n"
| "match_ok (NameLen _ n) = in_i64 n"
| "match_ok (Num fld c n) = (fld \<in> {Uid, Gid} \<and> c = Eq \<and> in_i64 n)"
| "match_ok (Bits fld m w any) = (fld = Mode \<and> (any \<longrightarrow> w = 0) \<and> in_i64 m \<and> in_i64 w)"
| "match_ok _ = True"

lemma parse_radix_i64: "parse_radix r s = Some n \<Longrightarrow> in_i64 n"
  by (auto simp: parse_radix_def Let_def bind_eq_Some_conv split: if_splits prod.splits)

lemma name_match_ok: "match_ok (name_match s)"
  by (simp add: name_match_def)

lemma trim_end_last: "trim_end P s \<noteq> [] \<Longrightarrow> \<not> P (last (trim_end P s))"
  using hd_dropWhile [of P "rev s"] by (auto simp: trim_end_def last_rev)

lemma trim_dir_ok:
  assumes "\<forall>h. home = Some h \<longrightarrow> h \<noteq> [] \<and> last h \<noteq> CSLASH"
  shows "trim_dir s home \<noteq> [] \<and> (trim_dir s home = [CSLASH] \<or> last (trim_dir s home) \<noteq> CSLASH)"
proof -
  let ?t = "trim_end (\<lambda>c. c = CSLASH) (map (\<lambda>c. if c = 0x5c then CSLASH else c) s)"
  have last: "?t \<noteq> [] \<Longrightarrow> last ?t \<noteq> CSLASH" using trim_end_last [of "\<lambda>c. c = CSLASH"] by blast
  have rest: "last r \<noteq> CSLASH \<and> r \<noteq> []" if "?t = chs ''~/'' @ r" for r
    using last that by (cases "r = []") auto
  show ?thesis
    using assms last rest
    by (auto simp: trim_dir_def Let_def strip_prefix_Some split: option.splits)
qed

lemma ext_list_ok: "x \<in> set (ext_list s) \<Longrightarrow> x \<noteq> [] \<and> hd x \<noteq> DOT \<and> SEMI \<notin> set x"
proof -
  assume "x \<in> set (ext_list s)"
  then obtain p where p: "x = dropWhile (\<lambda>c. c = DOT) p" "x \<noteq> []" "p \<in> set (split_on SEMI s)"
    by (auto simp: ext_list_def trim_start_def)
  have "SEMI \<notin> set q" if "q \<in> set (split_on SEMI s)" for q
    using that by (induction s arbitrary: q) (auto split: if_splits list.splits)
  then show ?thesis using p hd_dropWhile [of "\<lambda>c. c = DOT" p] set_dropWhileD [of SEMI "\<lambda>c. c = DOT" p] by auto
qed

lemma parse_perm_ok: "parse_perm v = Some m \<Longrightarrow> match_ok m"
  by (auto simp: parse_perm_def Let_def in_i64_def dest!: parse_radix_i64 split: list.splits if_splits prod.splits)

lemma parse_node_ok: "parse_node v = Some m \<Longrightarrow> match_ok m"
  by (clarsimp simp: parse_node_def in_i64_def simp del: insert_iff list.map split: if_split_asm)

lemma resolve_owner_ok: "fld \<in> {Uid, Gid} \<Longrightarrow> resolve_owner e fld raw = Some m \<Longrightarrow> match_ok m"
proof -
  assume fld: "fld \<in> {Uid, Gid}" and m: "resolve_owner e fld raw = Some m"
  have "in_i64 n" if "n \<in> set (List.map_filter (owner_line name) ls)" for n name ls
  proof -
    have "\<exists>l \<in> set ls. owner_line name l = Some n" using that by (auto simp: List.map_filter_def)
    then show ?thesis
      by (auto simp: owner_line_def Let_def bind_eq_Some_conv dest: parse_radix_i64 split: if_splits)
  qed
  then have own: "in_i64 n" if "List.map_filter (owner_line name) ls = n # ns" for n name ls ns
    using that by (metis list.set_intros(1))
  show "match_ok m"
  proof (cases "parse_i64 (trim_env e raw)")
    case None
    then obtain s where "(case List.map_filter (owner_line (trim_env e raw)) (text_lines s) of
        n # _ \<Rightarrow> Some (Num fld Eq n) | [] \<Rightarrow> None) = Some m"
      using m by (auto simp: resolve_owner_def Let_def bind_eq_Some_conv split: if_splits)
    then show ?thesis using fld own by (cases "List.map_filter (owner_line (trim_env e raw)) (text_lines s)") auto
  next
    case (Some n)
    then show ?thesis using m fld parse_radix_i64 [OF Some] by (auto simp: resolve_owner_def Let_def split: if_splits)
  qed
qed

lemma kind_from_name_ok: "kind_from_name w = Some ks \<Longrightarrow> ks \<noteq> []"
  by (auto simp: kind_from_name_def split: if_splits)

lemma name_caseE:
  "(if (s :: chars) = w then x else y) = Some m \<Longrightarrow> (x = Some m \<Longrightarrow> P) \<Longrightarrow> (y = Some m \<Longrightarrow> P) \<Longrightarrow> P"
  by (cases "s = w") auto

lemma field_match_ok:
  assumes "\<forall>h. env_home e = Some h \<longrightarrow> h \<noteq> [] \<and> last h \<noteq> CSLASH" "QUOTE \<notin> set raw"
    "field_match e canonical raw folded = Some m"
  shows "match_ok m"
proof -
  have time: "parse_time e fld v = Some m \<Longrightarrow> match_ok m" for fld v
    by (auto simp: parse_time_def Let_def bind_eq_Some_conv split: prod.splits if_splits option.splits)
  have size: "parse_size e v = Some m \<Longrightarrow> match_ok m" for v
    by (auto simp: parse_size_def Let_def split: prod.splits)
  have dir: "trim_dir raw (env_home e) \<noteq> []"
    "trim_dir raw (env_home e) \<noteq> [CSLASH] \<Longrightarrow> last (trim_dir raw (env_home e)) = CSLASH \<Longrightarrow> False"
    using trim_dir_ok [OF assms(1)] by blast+
  have len: "(case split_cmp v of (cmp, rest) \<Rightarrow> map_option (NameLen cmp) (parse_i64 (trim_env e rest))) = Some m \<Longrightarrow> match_ok m" for v
    by (auto split: prod.splits dest!: parse_radix_i64)
  have depth: "(case split_cmp v of (cmp, rest) \<Rightarrow> map_option (Depth (if cmp = Ge \<and> rest = v then Eq else cmp))
      (parse_i64 (trim_env e rest))) = Some m \<Longrightarrow> match_ok m" for v
    by (auto split: prod.splits dest!: parse_radix_i64)
  have owner: "resolve_owner e Uid raw = Some m \<Longrightarrow> match_ok m" "resolve_owner e Gid raw = Some m \<Longrightarrow> match_ok m"
    by (rule resolve_owner_ok [rotated], assumption, simp)+
  show ?thesis
    using assms(3) unfolding field_match_def
    by (elim name_caseE)
      (auto simp: in_i64_def Let_def dir(1) assms(2) ext_list_ok
        dest: dir(2) time size parse_node_ok parse_perm_ok kind_from_name_ok owner
        split: if_split_asm intro: len depth)
qed

text \<open>
  C36: whatever is typed, what comes out is well formed.  For any input, every group of the
  query has an alternative, and every condition has the form the index expects: a name term
  holds no separator and a glob holds a wildcard; a directory is not empty and has no
  trailing separator; extensions are not empty, without their dot and not a list in
  disguise; numbers fit in 64 bits.
\<close>

theorem parse_well_formed:
  assumes "\<forall>h. env_home e = Some h \<longrightarrow> h \<noteq> [] \<and> last h \<noteq> CSLASH" "g \<in> set (groups (parse_in e input))"
  shows "alts g \<noteq> [] \<and> (\<forall>(n, m) \<in> set (alts g). match_ok m)"
proof -
  have quote: "QUOTE \<notin> set (unquote s)" for s by (simp add: unquote_def)
  have alt: "match_ok m" if alt: "parse_alt e raw = Some (n, m)" for raw n m
  proof -
    obtain neg rest where r: "(case strip_prefix [BANG] raw of Some r \<Rightarrow> (True, r) | None \<Rightarrow> (False, raw)) = (neg, rest)"
      by fastforce
    show ?thesis
    proof (cases "split_field (env_unicode e) rest")
      case None
      then show ?thesis
        using alt name_match_ok [of "fold_env e (unquote rest)"] unfolding parse_alt_def r
        by (auto simp: Let_def split: if_splits)
    next
      case (Some fv)
      obtain name val where fv: "fv = (name, val)" by fastforce
      let ?m = "case field_lookup name of Some f \<Rightarrow> field_match e (f_name f) (unquote val) (fold_env e (unquote val)) | None \<Rightarrow> None"
      have "m = (case ?m of Some m \<Rightarrow> m | None \<Rightarrow> name_match (fold_env e (unquote rest)))"
        using alt Some unfolding parse_alt_def r fv by (auto simp: Let_def split: if_splits)
      moreover have "?m = Some m' \<Longrightarrow> match_ok m'" for m'
        using field_match_ok [OF assms(1) quote] by (auto split: option.splits)
      ultimately show ?thesis using name_match_ok by (cases ?m) auto
    qed
  qed
  obtain a where a: "g = \<lparr>alts = a\<rparr>" "a \<noteq> []" "\<exists>t. a = parse_token e t"
    using assms(2) by (auto simp: parse_in_def)
  then have "\<forall>(n, m) \<in> set a. match_ok m"
    using alt by (auto simp: parse_token_def List.map_filter_def)
  then show ?thesis using a by simp
qed

theorem parse_well_formed_witness:
  "\<exists>g. groups (parse_in plain_env (chs ''ext:.rs;toml'')) = [g] \<and> alts g \<noteq> []"
proof -
  have g: "groups (parse_in plain_env (chs ''ext:.rs;toml'')) = [\<lparr>alts = [(False, Ext [chs ''rs'', chs ''toml''])]\<rparr>]"
    by code_simp
  moreover have "alts (\<lparr>alts = [(False, Ext [chs ''rs'', chs ''toml''])]\<rparr> :: chars group) \<noteq> []"
    using parse_well_formed [of plain_env "\<lparr>alts = [(False, Ext [chs ''rs'', chs ''toml''])]\<rparr>" "chs ''ext:.rs;toml''"] g
    by (simp add: plain_env_def)
  ultimately show ?thesis by blast
qed

text \<open>
  Every spelling of a field is found, and means one field.  Looking up the name or any
  alias of a row of the table gives that row, so no spelling is claimed by two.
\<close>

theorem field_spellings:
  assumes "f \<in> set FIELDS" "w \<in> set (f_name f # f_aliases f)"
  shows "field_lookup w = Some f"
proof -
  have "list_all (\<lambda>f. list_all (\<lambda>w. field_lookup w = Some f) (f_name f # f_aliases f)) FIELDS"
    by code_simp
  then show ?thesis using assms by (auto simp: list_all_iff)
qed

theorem field_spellings_witness: "map_option f_name (field_lookup (chs ''altinda'')) = Some (chs ''under'')"
proof -
  have f: "FIELDS ! 2 \<in> set FIELDS" by (rule nth_mem) code_simp
  have "chs ''altinda'' \<in> set (f_name (FIELDS ! 2) # f_aliases (FIELDS ! 2))" by code_simp
  from field_spellings [OF f this] have "field_lookup (chs ''altinda'') = Some (FIELDS ! 2)" .
  moreover have "f_name (FIELDS ! 2) = chs ''under''" by code_simp
  ultimately show ?thesis by simp
qed

text \<open>
  A semicolon between words is not a bar.  The reference served to users says that the
  two are one operator; the parser makes two groups of \<open>a;b\<close>, both of which must match, and
  one group of two alternatives of \<open>a|b\<close>.
\<close>

theorem semicolon_is_and:
  "map (\<lambda>g. length (alts g)) (groups (parse_in plain_env (chs ''opus;sonnet''))) = [1, 1]
    \<and> map (\<lambda>g. length (alts g)) (groups (parse_in plain_env (chs ''opus|sonnet''))) = [2]"
  by code_simp

text \<open>A token that names a field and has no white space reaches \<open>expand\<close> whole.\<close>

lemma field_token_stages:
  assumes "tokenize u t = [t]" "names_field u t" "join_operators [t] = [t]"
    "\<not> starts_with [QUOTE] t" "\<not> starts_with [0x28] t" "\<not> starts_with [0x3c] t"
  shows "query_tokens u t = expand u t"
  using assms by (simp add: query_tokens_def join_lists_def join_list_def split_semicolons_def split_bangs_def)

lemma field_lookup_node:
  "map_option (\<lambda>f. (f_name f, f_takes f)) (field_lookup (chs ''node'')) = Some (chs ''node'', TakesText)"
  by code_simp

text \<open>
  A value can be coloured as usable and not be used.  \<open>accepts\<close> says that \<open>node:xyz\<close> is a
  value its field can use; the parser cannot read it and looks for the text instead.
\<close>

theorem accepted_but_unused:
  "(\<exists>f. field_lookup (chs ''node'') = Some f \<and> accepts plain_env f (chs ''xyz''))
    \<and> groups (parse_in plain_env (chs ''node:xyz'')) = [\<lparr>alts = [(False, NameContains (chs ''node:xyz''))]\<rparr>]"
proof -
  let ?t = "chs ''node:xyz''"
  obtain f where f: "field_lookup (chs ''node'') = Some f" "f_name f = chs ''node''" "f_takes f = TakesText"
    using field_lookup_node by auto
  have split: "token_field ascii_unicode ?t = Some (chs ''node'', chs ''xyz'')"
    "split_field ascii_unicode ?t = Some (chs ''node'', chs ''xyz'')" by code_simp+
  have "tokenize ascii_unicode ?t = [?t]" "join_operators [?t] = [?t]"
    "\<not> starts_with [QUOTE] ?t" "\<not> starts_with [0x28] ?t" "\<not> starts_with [0x3c] ?t" by code_simp+
  then have "query_tokens ascii_unicode ?t = expand ascii_unicode ?t"
    using field_token_stages [of ascii_unicode ?t] split f by (simp add: names_field_def del: list.map)
  moreover have "expand ascii_unicode ?t = [?t]"
  proof -
    have "kind_macro (chs ''node'') = None" "strip_prefix [BANG] ?t = None" "\<not> starts_with [QUOTE] ?t"
      "chs ''node'' \<noteq> chs ''empty''" "chs ''node'' \<noteq> chs ''startwith''" "chs ''node'' \<noteq> chs ''endwith''"
      "split_once (chs ''..'') (chs ''xyz'') = None" by code_simp+
    then show ?thesis using split f by (simp add: expand_def del: list.map)
  qed
  moreover have "parse_token plain_env ?t = [(False, NameContains ?t)]" by code_simp
  moreover have "env_unicode plain_env = ascii_unicode" by (simp add: plain_env_def)
  moreover have "accepts plain_env f (chs ''xyz'')" using f(3) by (simp add: accepts_def)
  moreover have "groups (parse_in e t) = [\<lparr>alts = [x]\<rparr>]"
    if "query_tokens (env_unicode e) t = [t]" "parse_token e t = [x]" for e t x
    using that by (simp add: parse_in_def)
  ultimately show ?thesis using f(1) by metis
qed

end
