(* ===== verification/Pages.thy ===== *)
theory Pages
  imports Prelude
begin

text \<open>
  The window onto a long result: \<open>crates/scour-page/src/lib.rs\<close>.  A face holds some pages
  of a list it never has whole; this is which ones to hold, which one to ask for next, and
  what to let go.

  Rows, pages and lengths are natural numbers: a \<open>usize\<close> that counts rows does not reach its
  end.  A revision is the 64-bit word it is, compared for equality only.  What a row is stays
  a type variable, as in the code.
\<close>

section \<open>State\<close>

definition SPAN :: nat where "SPAN = 200"

definition KEPT :: nat where "KEPT = 32"

record 'a held_page =
  h_rows :: "'a list"
  h_revision :: u64
  h_settled :: bool

datatype change =
    Nothing
  | Rows nat nat
  | Length nat nat "(nat \<times> nat) option"

record 'a pages =
  p_held :: "nat \<Rightarrow> 'a held_page option"
  p_order :: "nat list"
  p_total :: nat
  p_asked :: "(nat \<times> u64) option"
  p_revision :: u64
  p_served :: nat

definition pages_default :: "'a pages" where
  "pages_default = \<lparr>p_held = (\<lambda>_. None), p_order = [], p_total = 0, p_asked = None, p_revision = 0, p_served = 0\<rparr>"

section \<open>Reading\<close>

definition page_of :: "nat \<Rightarrow> nat" where
  "page_of row = row div SPAN"

definition start_of :: "nat \<Rightarrow> nat" where
  "start_of page = page * SPAN"

definition served :: "'a pages \<Rightarrow> nat" where
  "served s = max (p_served s) 1"

definition holds :: "'a pages \<Rightarrow> nat \<Rightarrow> bool" where
  "holds s page = (case p_held s page of Some h \<Rightarrow> h_rows h \<noteq> [] | None \<Rightarrow> False)"

definition row_of :: "'a pages \<Rightarrow> nat \<Rightarrow> 'a option" where
  "row_of s row =
     (let page = page_of row
      in Option.bind (p_held s page) (\<lambda>h. nth_opt (h_rows h) (row - start_of page)))"

definition asked_page :: "'a pages \<Rightarrow> nat option" where
  "asked_page s = map_option fst (p_asked s)"

section \<open>Changing\<close>

definition pages_empty :: "'a pages \<Rightarrow> 'a pages" where
  "pages_empty s = s\<lparr>p_held := (\<lambda>_. None), p_order := [], p_asked := None\<rparr>"

definition mark :: "u64 \<Rightarrow> 'a pages \<Rightarrow> 'a pages" where
  "mark revision s = s\<lparr>p_revision := revision\<rparr>"

definition asking :: "nat \<Rightarrow> 'a pages \<Rightarrow> 'a pages" where
  "asking page s = s\<lparr>p_asked := Some (page, p_revision s)\<rparr>"

definition forget_asking :: "'a pages \<Rightarrow> 'a pages" where
  "forget_asking s = s\<lparr>p_asked := None\<rparr>"

definition touch_order :: "nat \<Rightarrow> nat list \<Rightarrow> nat list" where
  "touch_order page xs = (if page \<in> set xs then remove1 page xs else xs) @ [page]"

definition touch :: "nat \<Rightarrow> 'a pages \<Rightarrow> 'a pages" where
  "touch page s = s\<lparr>p_order := touch_order page (p_order s)\<rparr>"

definition touched :: "nat \<Rightarrow> 'a pages \<Rightarrow> 'a pages" where
  "touched row s = (if p_held s (page_of row) \<noteq> None then touch (page_of row) s else s)"

function evict :: "'a pages \<Rightarrow> 'a pages" where
  "evict s =
     (case p_order s of
        [] \<Rightarrow> s
      | oldest # rest \<Rightarrow>
          if length (p_order s) \<le> KEPT then s
          else if asked_page s = Some oldest then s\<lparr>p_order := rest @ [oldest]\<rparr>
          else evict (s\<lparr>p_order := rest, p_held := (p_held s)(oldest := None)\<rparr>))"
  by pat_completeness auto
termination
  by (relation "measure (\<lambda>s. length (p_order s))") auto

declare evict.simps [simp del]

text \<open>\<open>put\<close>: the page filed before the length is compared, as a state and what changed.\<close>

definition put_revision :: "'a pages \<Rightarrow> nat \<Rightarrow> u64" where
  "put_revision s page =
     (case p_asked s of Some (out, revision) \<Rightarrow> if out = page then revision else p_revision s | None \<Rightarrow> p_revision s)"

definition put_settled :: "'a pages \<Rightarrow> nat \<Rightarrow> nat \<Rightarrow> bool" where
  "put_settled s page n = (case p_held s page of Some h \<Rightarrow> n \<le> length (h_rows h) | None \<Rightarrow> False)"

definition put_file :: "nat \<Rightarrow> 'a list \<Rightarrow> 'a pages \<Rightarrow> 'a pages" where
  "put_file page rows s =
     (let s = s\<lparr>p_served := max (p_served s) (length rows)\<rparr>;
          h = \<lparr>h_rows = rows, h_revision = put_revision s page, h_settled = put_settled s page (length rows)\<rparr>;
          s = s\<lparr>p_held := (p_held s)(page := Some h)\<rparr>;
          s = (if asked_page s = Some page then s\<lparr>p_asked := None\<rparr> else s)
      in evict (touch page s))"

definition put_page :: "nat \<Rightarrow> 'a list \<Rightarrow> nat \<Rightarrow> 'a pages \<Rightarrow> 'a pages \<times> change" where
  "put_page page rows len s =
     (let s = put_file page rows s; was = p_total s; from = start_of page; to = from + length rows
      in if len \<noteq> was then (s\<lparr>p_total := len\<rparr>, Length was len (Some (from, to)))
         else (s, Rows from to))"

definition set_total :: "nat \<Rightarrow> 'a pages \<Rightarrow> 'a pages \<times> change" where
  "set_total len s =
     (let was = p_total s
      in if len = was then (s, Nothing) else (s\<lparr>p_total := len\<rparr>, Length was len None))"

text \<open>\<open>rows_mut\<close>: whatever the caller writes through the slice, its length stays.\<close>

definition rows_mut :: "nat \<Rightarrow> (nat \<Rightarrow> 'a \<Rightarrow> 'a) \<Rightarrow> 'a pages \<Rightarrow> 'a pages" where
  "rows_mut page g s =
     (case p_held s page of
        Some h \<Rightarrow> s\<lparr>p_held := (p_held s)(page := Some (h\<lparr>h_rows := map2 g [0 ..< length (h_rows h)] (h_rows h)\<rparr>))\<rparr>
      | None \<Rightarrow> s)"

section \<open>What to ask for\<close>

definition wanted :: "'a pages \<Rightarrow> nat \<Rightarrow> bool \<Rightarrow> nat \<Rightarrow> bool" where
  "wanted s final refresh page =
     (let seen = min (min final (start_of page + SPAN - 1)) (p_total s - 1)
      in case p_held s page of
           None \<Rightarrow> True
         | Some h \<Rightarrow>
             h_rows h = []
             \<or> \<not> h_settled h \<and> start_of page + length (h_rows h) \<le> seen
             \<or> refresh \<and> h_revision h \<noteq> p_revision s)"

definition next_page :: "'a pages \<Rightarrow> nat \<Rightarrow> nat \<Rightarrow> bool \<Rightarrow> bool \<Rightarrow> nat option" where
  "next_page s first final speculate refresh =
     (if p_total s = 0 then None
      else if p_asked s \<noteq> None then None
      else
        let end_page = (p_total s - 1) div SPAN;
            from = page_of (min first (p_total s - 1));
            to = page_of (min final (p_total s - 1))
        in case find (wanted s final refresh) [from ..< to + 1] of
             Some page \<Rightarrow> Some page
           | None \<Rightarrow>
               if \<not> speculate then None
               else find (\<lambda>page. \<not> holds s page)
                      ((if to < end_page then [to + 1] else []) @ (if 0 < from then [from - 1] else [])))"

definition drawn_length :: "'a pages \<Rightarrow> nat \<Rightarrow> nat \<Rightarrow> nat \<Rightarrow> nat" where
  "drawn_length s page arrived asked_for =
     (if arrived < asked_for \<and> arrived < served s then start_of page + arrived else p_total s)"

text \<open>Every call that changes the state, as one step.\<close>

datatype 'a call =
    CallEmpty
  | CallMark u64
  | CallAsking nat
  | CallForget
  | CallPut nat "'a list" nat
  | CallTotal nat
  | CallTouched nat
  | CallRewrite nat "nat \<Rightarrow> 'a \<Rightarrow> 'a"

fun page_call :: "'a call \<Rightarrow> 'a pages \<Rightarrow> 'a pages" where
  "page_call CallEmpty s = pages_empty s"
| "page_call (CallMark r) s = mark r s"
| "page_call (CallAsking p) s = asking p s"
| "page_call CallForget s = forget_asking s"
| "page_call (CallPut p rows n) s = fst (put_page p rows n s)"
| "page_call (CallTotal n) s = fst (set_total n s)"
| "page_call (CallTouched r) s = touched r s"
| "page_call (CallRewrite p g) s = rows_mut p g s"

inductive pages_reach :: "'a pages \<Rightarrow> bool" where
  reach_default: "pages_reach pages_default"
| reach_call: "pages_reach s \<Longrightarrow> pages_reach (page_call c s)"

lemmas page_ops =
  pages_empty_def mark_def asking_def forget_asking_def touched_def touch_def set_total_def Let_def asked_page_def

section \<open>The invariant\<close>

text \<open>The order lists each page held once and nothing else; no page is longer than the most served.\<close>

definition pages_inv :: "'a pages \<Rightarrow> bool" where
  "pages_inv s \<longleftrightarrow>
     distinct (p_order s) \<and> (\<forall>p. p_held s p \<noteq> None \<longleftrightarrow> p \<in> set (p_order s))
     \<and> (\<forall>p h. p_held s p = Some h \<longrightarrow> length (h_rows h) \<le> p_served s)"

lemma touch_order_props [simp]:
  "set (touch_order p xs) = insert p (set xs)"
  "distinct xs \<Longrightarrow> distinct (touch_order p xs)"
  "last (touch_order p xs) = p" "touch_order p xs \<noteq> []"
  using set_remove1_subset [of p xs] by (auto simp: touch_order_def) (metis in_set_remove1)

lemma touch_order_length: "length (touch_order p xs) = (if p \<in> set xs then length xs else Suc (length xs))"
  using length_pos_if_in_set [of p xs] by (auto simp: touch_order_def length_remove1)

lemma evict_fields [simp]:
  "p_total (evict s) = p_total s" "p_asked (evict s) = p_asked s"
  "p_revision (evict s) = p_revision s" "p_served (evict s) = p_served s"
  by (induction s rule: evict.induct; subst evict.simps; simp split: list.splits)+

lemma evict_inv: "pages_inv s \<Longrightarrow> pages_inv (evict s)"
proof (induction s rule: evict.induct)
  case (1 s)
  show ?case
  proof (cases "p_order s")
    case Nil
    then show ?thesis using 1 by (simp add: evict.simps [of s])
  next
    case (Cons oldest rest)
    have "pages_inv (s\<lparr>p_order := rest, p_held := (p_held s)(oldest := None)\<rparr>)" "pages_inv (s\<lparr>p_order := rest @ [oldest]\<rparr>)"
      using 1(2) Cons by (auto simp: pages_inv_def)
    then show ?thesis using 1 Cons by (simp add: evict.simps [of s])
  qed
qed

text \<open>Evicting forgets pages and changes none.\<close>

lemma evict_held: "p_held (evict s) p = p_held s p \<or> p_held (evict s) p = None"
  by (induction s rule: evict.induct, subst (1 2) evict.simps) (auto split: list.splits)

lemma evict_none [simp]: "p_held s p = None \<Longrightarrow> p_held (evict s) p = None"
  using evict_held [of s p] by auto

lemma evict_few: "length (p_order s) \<le> KEPT \<Longrightarrow> evict s = s"
  by (subst evict.simps) (auto split: list.splits)

text \<open>With no fetch out for the oldest pages, what is kept fits; the page used last is kept in any case.\<close>

lemma evict_length:
  "(\<forall>p. asked_page s = Some p \<longrightarrow> p \<notin> set (p_order s)) \<Longrightarrow> length (p_order (evict s)) \<le> KEPT"
proof (induction s rule: evict.induct)
  case (1 s)
  then show ?case
    by (subst evict.simps) (auto simp: asked_page_def split: list.splits)
qed

lemma evict_length_any: "length (p_order (evict s)) \<le> length (p_order s)"
proof (induction s rule: evict.induct)
  case (1 s)
  then show ?case by (subst evict.simps) (fastforce split: list.splits)
qed

lemma evict_last:
  "pages_inv s \<Longrightarrow> p_order s \<noteq> [] \<Longrightarrow> p_held (evict s) (last (p_order s)) = p_held s (last (p_order s))"
proof (induction s rule: evict.induct)
  case (1 s)
  obtain oldest rest where o: "p_order s = oldest # rest" using 1(3) by (cases "p_order s") auto
  show ?case
  proof (cases "length (p_order s) \<le> KEPT \<or> asked_page s = Some oldest")
    case True
    then show ?thesis using o by (auto simp: evict.simps [of s])
  next
    case False
    let ?s = "s\<lparr>p_order := rest, p_held := (p_held s)(oldest := None)\<rparr>"
    have ne: "rest \<noteq> []" using False o by (auto simp: KEPT_def)
    then have last: "last (p_order s) = last rest" "last rest \<noteq> oldest"
      using 1(2) o by (auto simp: pages_inv_def)
    have "pages_inv ?s" using 1(2) o by (auto simp: pages_inv_def)
    then have "p_held (evict ?s) (last rest) = p_held ?s (last rest)"
      using 1(1) [OF o] False ne by simp
    then show ?thesis using False o last by (simp add: evict.simps [of s])
  qed
qed

lemma touch_inv: "pages_inv s \<Longrightarrow> p_held s p \<noteq> None \<Longrightarrow> pages_inv (touch p s)"
  by (auto simp: pages_inv_def touch_def)

text \<open>A page filed, before eviction.\<close>

definition put_before :: "nat \<Rightarrow> 'a list \<Rightarrow> 'a pages \<Rightarrow> 'a pages" where
  "put_before page rows s =
     s\<lparr>p_served := max (p_served s) (length rows),
       p_held := (p_held s)(page := Some \<lparr>h_rows = rows, h_revision = put_revision s page, h_settled = put_settled s page (length rows)\<rparr>),
       p_asked := (if asked_page s = Some page then None else p_asked s),
       p_order := touch_order page (p_order s)\<rparr>"

lemma put_served [simp]:
  "put_revision (s\<lparr>p_served := n\<rparr>) = put_revision s" "put_settled (s\<lparr>p_served := n\<rparr>) = put_settled s"
  by (auto simp: put_revision_def put_settled_def fun_eq_iff split: option.splits)

lemma put_file_before: "put_file page rows s = evict (put_before page rows s)"
  by (simp add: put_file_def put_before_def Let_def asked_page_def touch_def)

lemma put_before_inv: "pages_inv s \<Longrightarrow> pages_inv (put_before page rows s)"
  by (auto simp: pages_inv_def put_before_def le_max_iff_disj)

lemma put_page_state:
  "fst (put_page page rows len s) = (put_file page rows s)\<lparr>p_total := len\<rparr>"
  by (auto simp: put_page_def Let_def)

lemma total_inv [simp]: "pages_inv (s\<lparr>p_total := n\<rparr>) = pages_inv s"
  by (simp add: pages_inv_def)

lemma page_call_inv: "pages_inv s \<Longrightarrow> pages_inv (page_call c s)"
proof (cases c)
  case (CallPut p rows n)
  assume "pages_inv s"
  then show ?thesis using CallPut by (simp add: put_page_state put_file_before evict_inv put_before_inv)
next
  case (CallTouched r)
  assume "pages_inv s"
  then show ?thesis using CallTouched by (simp add: touched_def touch_inv)
next
  case (CallRewrite p g)
  assume "pages_inv s"
  then show ?thesis using CallRewrite by (auto simp: rows_mut_def pages_inv_def split: option.splits)
qed (auto simp: page_ops pages_inv_def)

lemma reach_inv: "pages_reach s \<Longrightarrow> pages_inv s"
proof (induction rule: pages_reach.induct)
  case reach_default
  then show ?case by (simp add: pages_default_def pages_inv_def)
qed (rule page_call_inv)

text \<open>
  C21: the order and the pages never part.  However the calls come, in every state that can be
  reached the order lists each page held exactly once and no other page; no page is longer
  than the most ever served; and when the page that was asked for arrives, or one arrives
  with nothing asked for, at most \<open>KEPT\<close> pages are left, the new one among them.
\<close>

theorem pages_invariant:
  assumes "pages_reach s"
  shows "distinct (p_order s) \<and> (\<forall>p. p_held s p \<noteq> None \<longleftrightarrow> p \<in> set (p_order s))
    \<and> (\<forall>p h. p_held s p = Some h \<longrightarrow> length (h_rows h) \<le> p_served s)
    \<and> (\<forall>p rows n. asked_page s \<in> {None, Some p} \<longrightarrow>
         length (p_order (fst (put_page p rows n s))) \<le> KEPT
         \<and> map_option h_rows (p_held (fst (put_page p rows n s)) p) = Some rows)"
proof -
  have inv: "pages_inv s" using reach_inv [OF assms] .
  have "length (p_order (fst (put_page p rows n s))) \<le> KEPT" if "asked_page s \<in> {None, Some p}" for p rows n
    using that by (auto simp: put_page_state put_file_before intro!: evict_length simp: put_before_def asked_page_def)
  moreover have "map_option h_rows (p_held (fst (put_page p rows n s)) p) = Some rows" for p rows n
    using evict_last [OF put_before_inv [OF inv, of p rows]]
    by (simp add: put_page_state put_file_before) (simp add: put_before_def)
  ultimately show ?thesis using inv by (simp add: pages_inv_def)
qed

theorem pages_invariant_witness:
  "length (p_order (fst (put_page 7 [1, 2, 3 :: nat] 9 (asking 7 pages_default)))) \<le> KEPT"
proof -
  have "pages_reach (asking 7 (pages_default :: nat pages))"
    using reach_call [OF reach_default, of "CallAsking 7"] by simp
  moreover have "asked_page (asking 7 (pages_default :: nat pages)) = Some 7"
    by (simp add: asked_page_def asking_def)
  ultimately show ?thesis using pages_invariant by blast
qed


section \<open>A cache of what was last told\<close>

text \<open>
  The specification: a list told page by page.  It forgets nothing but what \<open>empty\<close> drops;
  the fetches, the order and the eviction are not in it.
\<close>

record 'a told =
  t_pages :: "nat \<Rightarrow> 'a list option"
  t_total :: nat

definition told_default :: "'a told" where
  "told_default = \<lparr>t_pages = (\<lambda>_. None), t_total = 0\<rparr>"

fun told_call :: "'a call \<Rightarrow> 'a told \<Rightarrow> 'a told" where
  "told_call CallEmpty a = a\<lparr>t_pages := (\<lambda>_. None)\<rparr>"
| "told_call (CallPut p rows n) a = a\<lparr>t_pages := (t_pages a)(p := Some rows), t_total := n\<rparr>"
| "told_call (CallTotal n) a = a\<lparr>t_total := n\<rparr>"
| "told_call (CallRewrite p g) a =
     a\<lparr>t_pages := (t_pages a)(p := map_option (\<lambda>rows. map2 g [0 ..< length rows] rows) (t_pages a p))\<rparr>"
| "told_call _ a = a"

definition caches :: "'a pages \<Rightarrow> 'a told \<Rightarrow> bool" where
  "caches s a \<longleftrightarrow> p_total s = t_total a \<and> (\<forall>p h. p_held s p = Some h \<longrightarrow> t_pages a p = Some (h_rows h))"

lemma cachesD: "caches s a \<Longrightarrow> p_held s p = Some h \<Longrightarrow> t_pages a p = Some (h_rows h)"
  by (simp add: caches_def)

text \<open>One call of the code is one call of the specification.\<close>

lemma caches_call:
  assumes "caches s a"
  shows "caches (page_call c s) (told_call c a)"
proof (cases c)
  case (CallPut p rows n)
  have "t_pages (told_call c a) q = Some (h_rows h)" if "p_held (put_file p rows s) q = Some h" for q h
    using that evict_held [of "put_before p rows s" q] cachesD [OF assms] CallPut
    by (auto simp: put_file_before put_before_def split: if_splits)
  then show ?thesis using CallPut by (simp add: caches_def put_page_state)
next
  case (CallRewrite p g)
  then show ?thesis using assms by (auto simp: rows_mut_def caches_def split: option.splits)
qed (use assms in \<open>auto simp: page_ops caches_def\<close>)

fun page_calls :: "'a call list \<Rightarrow> 'a pages \<Rightarrow> 'a pages" where
  "page_calls [] s = s"
| "page_calls (c # cs) s = page_calls cs (page_call c s)"

fun told_calls :: "'a call list \<Rightarrow> 'a told \<Rightarrow> 'a told" where
  "told_calls [] a = a"
| "told_calls (c # cs) a = told_calls cs (told_call c a)"

lemma caches_run: "caches s a \<Longrightarrow> caches (page_calls cs s) (told_calls cs a)"
  by (induction cs arbitrary: s a) (simp_all add: caches_call)

text \<open>
  C19: no row is ever shown out of place.  Take any sequence of calls, and what the service
  told through it, page by page, as if everything were kept.  A row the code answers for a
  position is the row last told for that position, and the length is the one last told:
  eviction, fetches in flight and pages that arrive out of order can lose a row, never
  misplace one.
\<close>

theorem rows_never_misplaced:
  "p_total (page_calls cs pages_default) = t_total (told_calls cs told_default)
    \<and> (case row_of (page_calls cs pages_default) row of
         Some x \<Rightarrow>
           (case t_pages (told_calls cs told_default) (page_of row) of
              Some rows \<Rightarrow> nth_opt rows (row - start_of (page_of row)) = Some x
            | None \<Rightarrow> False)
       | None \<Rightarrow> True)"
proof -
  have "caches (page_calls cs pages_default) (told_calls cs told_default)"
    by (rule caches_run) (simp add: caches_def pages_default_def told_default_def)
  then show ?thesis
    by (auto simp: caches_def row_of_def Let_def bind_eq_Some_conv split: option.splits)
qed

section \<open>What is asked for\<close>

text \<open>A row in view has what there is to have.\<close>

definition in_view_ok :: "'a pages \<Rightarrow> bool \<Rightarrow> nat \<Rightarrow> bool" where
  "in_view_ok s refresh row =
     (case p_held s (page_of row) of
        None \<Rightarrow> False
      | Some h \<Rightarrow>
          h_rows h \<noteq> [] \<and> (row_of s row \<noteq> None \<or> h_settled h) \<and> (refresh \<longrightarrow> h_revision h = p_revision s))"

lemma page_of_bounds: "start_of (page_of row) \<le> row" "row < start_of (page_of row) + SPAN"
  using div_mult_mod_eq [of row SPAN] mod_less_divisor [of SPAN row]
  by (auto simp: page_of_def start_of_def SPAN_def)

lemma page_of_unique: "start_of p \<le> row \<Longrightarrow> row < start_of p + SPAN \<Longrightarrow> page_of row = p"
  unfolding page_of_def start_of_def by (metis SPAN_def div_nat_eqI mult.commute mult_Suc_right add.commute)

lemma page_of_mono: "a \<le> b \<Longrightarrow> page_of a \<le> page_of b"
  by (simp add: page_of_def div_le_mono)

lemma start_of_mono: "p \<le> q \<Longrightarrow> start_of p \<le> start_of q"
  by (simp add: start_of_def)

text \<open>The last row in view of a page in view is in view, and is the one \<open>wanted\<close> looks at.\<close>

lemma seen_in_view:
  assumes "p \<in> set [page_of f ..< page_of l + 1]" "f \<le> l"
  shows "page_of (min l (start_of p + SPAN - 1)) = p" "f \<le> min l (start_of p + SPAN - 1)"
proof -
  have p: "page_of f \<le> p" "p \<le> page_of l" using assms(1) by auto
  have "start_of p \<le> l" using page_of_bounds(1) [of l] start_of_mono [OF p(2)] by linarith
  then show "page_of (min l (start_of p + SPAN - 1)) = p"
    by (intro page_of_unique) (auto simp: SPAN_def)
  have "f < start_of p + SPAN" using page_of_bounds(2) [of f] start_of_mono [OF p(1)] by linarith
  then show "f \<le> min l (start_of p + SPAN - 1)" using assms(2) by linarith
qed

lemma not_wanted:
  "\<not> wanted s final refresh p \<longleftrightarrow>
    (\<exists>h. p_held s p = Some h \<and> h_rows h \<noteq> [] \<and> (refresh \<longrightarrow> h_revision h = p_revision s)
      \<and> (h_settled h \<or> min (min final (start_of p + SPAN - 1)) (p_total s - 1) < start_of p + length (h_rows h)))"
proof -
  define seen where "seen = min (min final (start_of p + SPAN - 1)) (p_total s - 1)"
  show ?thesis unfolding wanted_def Let_def seen_def [symmetric] by (auto split: option.splits)
qed

lemma not_wanted_iff:
  assumes "p_total s \<noteq> 0" "first \<le> final"
  defines "f \<equiv> min first (p_total s - 1)" and "l \<equiv> min final (p_total s - 1)"
  shows "(\<forall>p \<in> set [page_of f ..< page_of l + 1]. \<not> wanted s final refresh p)
    \<longleftrightarrow> (\<forall>row. f \<le> row \<and> row \<le> l \<longrightarrow> in_view_ok s refresh row)"
proof -
  have fl: "f \<le> l" using assms(2) by (auto simp: f_def l_def)
  have seen: "min (min final (start_of p + SPAN - 1)) (p_total s - 1) = min l (start_of p + SPAN - 1)" for p
    by (simp add: l_def min.commute min.left_commute)
  show ?thesis
  proof (intro iffI ballI allI impI)
    fix row
    assume w: "\<forall>p \<in> set [page_of f ..< page_of l + 1]. \<not> wanted s final refresh p" and row: "f \<le> row \<and> row \<le> l"
    then have "page_of row \<in> set [page_of f ..< page_of l + 1]"
      using page_of_mono [of f row] page_of_mono [of row l] by auto
    then have "\<not> wanted s final refresh (page_of row)" using w by blast
    then obtain h where h: "p_held s (page_of row) = Some h" "h_rows h \<noteq> []" "refresh \<longrightarrow> h_revision h = p_revision s"
      "h_settled h \<or> min l (start_of (page_of row) + SPAN - 1) < start_of (page_of row) + length (h_rows h)"
      unfolding not_wanted seen by blast
    have "row \<le> min l (start_of (page_of row) + SPAN - 1)" using row page_of_bounds [of row] by auto
    then have "h_settled h \<or> row - start_of (page_of row) < length (h_rows h)"
      using h(4) page_of_bounds(1) [of row] by linarith
    then show "in_view_ok s refresh row"
      using h(1-3) by (auto simp: in_view_ok_def row_of_def nth_opt_def Let_def)
  next
    fix p
    assume ok: "\<forall>row. f \<le> row \<and> row \<le> l \<longrightarrow> in_view_ok s refresh row" and p: "p \<in> set [page_of f ..< page_of l + 1]"
    let ?r = "min l (start_of p + SPAN - 1)"
    have "in_view_ok s refresh ?r" using ok seen_in_view(2) [OF p fl] by simp
    moreover have "start_of p \<le> ?r" using page_of_bounds(1) [of ?r] seen_in_view(1) [OF p fl] by simp
    ultimately show "\<not> wanted s final refresh p"
      using seen_in_view(1) [OF p fl]
      unfolding not_wanted seen by (auto simp: in_view_ok_def Let_def row_of_def nth_opt_def split: option.splits if_splits)
  qed
qed

lemma next_page_silent_rows:
  assumes "p_total s \<noteq> 0" "p_asked s = None" "first \<le> final"
  shows "next_page s first final False refresh = None
    \<longleftrightarrow> (\<forall>row. min first (p_total s - 1) \<le> row \<and> row \<le> min final (p_total s - 1) \<longrightarrow> in_view_ok s refresh row)"
proof -
  have "next_page s first final False refresh
      = find (wanted s final refresh) [page_of (min first (p_total s - 1)) ..< page_of (min final (p_total s - 1)) + 1]"
    by (auto simp: next_page_def Let_def assms simp del: upt_Suc split: option.splits)
  then show ?thesis
    unfolding not_wanted_iff [OF assms(1,3), of refresh, symmetric] by (simp only: find_None_iff) blast
qed

text \<open>
  Nothing is asked for exactly when the eye lacks nothing.  With no fetch out and no
  speculation, \<open>next_page\<close> is silent if and only if every row in view lies on a page that is
  here with rows in it, fresh when a refresh is wanted, and the row itself is here unless the
  page was read twice and is as long as it gets.
\<close>

theorem next_page_silent:
  assumes "p_total s \<noteq> 0" "p_asked s = None" "first \<le> final"
  shows "next_page s first final False refresh = None
    \<longleftrightarrow> (\<forall>row. min first (p_total s - 1) \<le> row \<and> row \<le> min final (p_total s - 1) \<longrightarrow> in_view_ok s refresh row)"
  using assms by (rule next_page_silent_rows)

theorem next_page_silent_witness:
  "next_page (fst (put_page 0 [10, 20, 30 :: nat] 3 pages_default)) 0 2 False True = None"
proof -
  let ?s = "fst (put_page 0 [10, 20, 30 :: nat] 3 pages_default)"
  have s: "p_held ?s 0 = Some \<lparr>h_rows = [10, 20, 30], h_revision = 0, h_settled = False\<rparr>"
    "p_total ?s = 3" "p_asked ?s = None" "p_revision ?s = 0"
    by (simp_all add: put_page_state put_file_before evict_few put_before_def touch_order_def KEPT_def
        pages_default_def asked_page_def put_revision_def put_settled_def)
  have "in_view_ok ?s True row" if "row \<le> 2" for row
    using that s by (auto simp: in_view_ok_def row_of_def nth_opt_def page_of_def start_of_def SPAN_def)
  then show ?thesis using next_page_silent [of ?s 0 2 True] s by simp
qed

section \<open>A view comes to rest\<close>

text \<open>
  A face and a service that answers each page with the same rows: one round asks for what
  \<open>next_page\<close> says and files the answer.
\<close>

definition fetch_round :: "(nat \<Rightarrow> 'a list) \<Rightarrow> nat \<Rightarrow> nat \<Rightarrow> nat \<Rightarrow> bool \<Rightarrow> 'a pages \<Rightarrow> 'a pages" where
  "fetch_round serve n first final refresh s =
     (case next_page s first final False refresh of
        Some p \<Rightarrow> fst (put_page p (serve p) n (asking p s))
      | None \<Rightarrow> s)"

fun fetch_rounds :: "nat \<Rightarrow> (nat \<Rightarrow> 'a list) \<Rightarrow> nat \<Rightarrow> nat \<Rightarrow> nat \<Rightarrow> bool \<Rightarrow> 'a pages \<Rightarrow> 'a pages" where
  "fetch_rounds 0 serve n first final refresh s = s"
| "fetch_rounds (Suc k) serve n first final refresh s =
     fetch_rounds k serve n first final refresh (fetch_round serve n first final refresh s)"

text \<open>What holds between rounds, and how much is left: two answers for a page not here, one for a page read once.\<close>

definition serving :: "(nat \<Rightarrow> 'a list) \<Rightarrow> nat \<Rightarrow> nat set \<Rightarrow> 'a pages \<Rightarrow> bool" where
  "serving serve n view s \<longleftrightarrow>
     p_asked s = None \<and> p_total s = n \<and> pages_inv s \<and> set (p_order s) \<subseteq> view
     \<and> (\<forall>p h. p_held s p = Some h \<longrightarrow> h_rows h = serve p \<and> h_revision h = p_revision s)"

definition answers_left :: "'a pages \<Rightarrow> nat \<Rightarrow> nat" where
  "answers_left s p = (case p_held s p of None \<Rightarrow> 2 | Some h \<Rightarrow> if h_settled h then 0 else 1)"

lemma next_page_wanted:
  assumes "next_page s first final False refresh = Some p" "first \<le> final"
  shows "wanted s final refresh p"
    "p \<in> {page_of (min first (p_total s - 1)) .. page_of (min final (p_total s - 1))}" "p_asked s = None" "p_total s \<noteq> 0"
proof -
  have "p_asked s \<noteq> None \<or> p_total s = 0 \<Longrightarrow> next_page s first final False refresh = None"
    by (auto simp: next_page_def simp del: not_None_eq)
  then show s: "p_asked s = None" "p_total s \<noteq> 0" using assms(1) by (metis option.distinct(1))+
  have "find (wanted s final refresh) [page_of (min first (p_total s - 1)) ..< page_of (min final (p_total s - 1)) + 1] = Some p"
    using assms(1) s by (auto simp: next_page_def Let_def simp del: upt_Suc split: option.splits)
  then obtain i where i: "i < length [page_of (min first (p_total s - 1)) ..< page_of (min final (p_total s - 1)) + 1]"
      "[page_of (min first (p_total s - 1)) ..< page_of (min final (p_total s - 1)) + 1] ! i = p" "wanted s final refresh p"
    unfolding find_Some_iff by blast
  from i(3) show "wanted s final refresh p" .
  from i(1,2) nth_mem have "p \<in> set [page_of (min first (p_total s - 1)) ..< page_of (min final (p_total s - 1)) + 1]"
    by metis
  then show "p \<in> {page_of (min first (p_total s - 1)) .. page_of (min final (p_total s - 1))}" by auto
qed

lemma fetch_round_serving:
  assumes "serving serve n view s" "next_page s first final False refresh = Some p" "first \<le> final"
    "view = {page_of (min first (n - 1)) .. page_of (min final (n - 1))}" "card view \<le> KEPT" "serve p \<noteq> []"
  shows "serving serve n view (fetch_round serve n first final refresh s)"
    "answers_left (fetch_round serve n first final refresh s) p < answers_left s p"
    "q \<noteq> p \<Longrightarrow> answers_left (fetch_round serve n first final refresh s) q = answers_left s q"
    "p \<in> view"
proof -
  note want = next_page_wanted [OF assms(2,3)]
  have s: "p_asked s = None" "p_total s = n" "pages_inv s" "set (p_order s) \<subseteq> view"
    "\<And>p h. p_held s p = Some h \<Longrightarrow> h_rows h = serve p \<and> h_revision h = p_revision s"
    using assms(1) by (auto simp: serving_def)
  show p: "p \<in> view" using want(2) s(2) assms(4) by simp
  let ?b = "put_before p (serve p) (asking p s)"
  have inv: "pages_inv (asking p s)" using s(3) by (simp add: asking_def pages_inv_def)
  have order: "set (p_order ?b) \<subseteq> view" "distinct (p_order ?b)"
    using p s(3,4) by (auto simp: put_before_def asking_def pages_inv_def)
  have "length (p_order ?b) = card (set (p_order ?b))" using distinct_card [OF order(2)] by simp
  also have "\<dots> \<le> card view" using order(1) assms(4) by (intro card_mono) auto
  finally have "evict ?b = ?b" using assms(5) by (intro evict_few) simp
  then have round: "fetch_round serve n first final refresh s = ?b\<lparr>p_total := n\<rparr>"
    using assms(2) by (simp add: fetch_round_def put_page_state put_file_before)
  have rev: "put_revision (asking p s) p = p_revision s" by (simp add: put_revision_def asking_def)
  show "serving serve n view (fetch_round serve n first final refresh s)"
    unfolding round serving_def
    using put_before_inv [OF inv, of p "serve p"] order(1) s rev
    by (auto simp: put_before_def asking_def asked_page_def)
  have left: "h_settled h = False" if "p_held s p = Some h" for h
  proof (rule ccontr)
    assume "h_settled h \<noteq> False"
    then have "\<not> wanted s final refresh p" using that s(5) [OF that] assms(6) not_wanted by fastforce
    then show False using want(1) by contradiction
  qed
  show "answers_left (fetch_round serve n first final refresh s) p < answers_left s p"
    using left s(5) [of p]
    by (auto simp: answers_left_def round put_before_def asking_def put_settled_def split: option.splits)
  show "answers_left (fetch_round serve n first final refresh s) q = answers_left s q" if "q \<noteq> p"
    using that by (simp add: answers_left_def round put_before_def asking_def)
qed

lemma fetch_rounds_rest:
  assumes "serving serve n view s" "first \<le> final"
    "view = {page_of (min first (n - 1)) .. page_of (min final (n - 1))}" "card view \<le> KEPT" "\<forall>p \<in> view. serve p \<noteq> []"
    "sum (answers_left s) view \<le> k"
  shows "serving serve n view (fetch_rounds k serve n first final refresh s)
    \<and> next_page (fetch_rounds k serve n first final refresh s) first final False refresh = None"
  using assms(1,6)
proof (induction k arbitrary: s)
  case 0
  have "next_page s first final False refresh = None"
  proof (rule ccontr)
    assume "next_page s first final False refresh \<noteq> None"
    then obtain p where p: "next_page s first final False refresh = Some p" by blast
    have "p \<in> view" using next_page_wanted(2) [OF p assms(2)] 0(1) assms(3) by (simp add: serving_def)
    then have "answers_left (fetch_round serve n first final refresh s) p < answers_left s p"
      using fetch_round_serving(2) [OF 0(1) p assms(2,3,4)] assms(5) by blast
    moreover have "answers_left s p = 0" using 0(2) \<open>p \<in> view\<close> assms(3) by simp
    ultimately show False by simp
  qed
  then show ?case using 0 by simp
next
  case (Suc k)
  show ?case
  proof (cases "next_page s first final False refresh")
    case None
    then have "fetch_rounds j serve n first final refresh s = s" for j
      by (induction j) (simp_all add: fetch_round_def)
    then show ?thesis using None Suc.prems by simp
  next
    case (Some p)
    have view: "p \<in> view" using next_page_wanted(2) [OF Some assms(2)] Suc.prems(1) assms(3) by (simp add: serving_def)
    let ?t = "fetch_round serve n first final refresh s"
    note round = fetch_round_serving [OF Suc.prems(1) Some assms(2,3,4)]
    have "sum (answers_left ?t) view < sum (answers_left s) view"
      using assms(3,5) view round(2,3)
      by (intro sum_strict_mono_ex1) (auto, metis le_eq_less_or_eq)
    then show ?thesis using Suc.IH [OF round(1)] Suc.prems(2) assms(5) view by simp
  qed
qed

text \<open>
  C20: a view comes to rest, complete, against a steady service.  After a new question
  (\<open>empty\<close>, and its length set to a fixed number of rows above zero), a face that asks for the
  page \<open>next_page\<close> names and files the answer has nothing left to ask after at most two answers
  per page in view, and every row in view that the service has is then at its position.  Asked of
  the service: it gives a page the same rows each time, and every page in view at least one row
  (a page answered empty is asked for again for ever, see \<open>empty_page_asked_again\<close>); asked of the
  view: it is no longer than the \<open>KEPT\<close> pages that are held at once.
\<close>

theorem view_comes_to_rest:
  assumes "n \<noteq> 0" "first \<le> final" "\<forall>p \<in> view. serve p \<noteq> []" "card view \<le> KEPT"
    "view = {page_of (min first (n - 1)) .. page_of (min final (n - 1))}"
  shows "next_page (fetch_rounds (2 * card view) serve n first final refresh (fst (set_total n (pages_empty s))))
      first final False refresh = None
    \<and> (\<forall>row. min first (n - 1) \<le> row \<and> row \<le> min final (n - 1) \<longrightarrow>
         row_of (fetch_rounds (2 * card view) serve n first final refresh (fst (set_total n (pages_empty s)))) row
         = nth_opt (serve (page_of row)) (row - start_of (page_of row)))"
proof -
  let ?s = "fst (set_total n (pages_empty s))" and ?k = "2 * card view"
  let ?t = "fetch_rounds ?k serve n first final refresh ?s"
  have start: "serving serve n view ?s"
    by (auto simp: serving_def set_total_def pages_empty_def pages_inv_def Let_def)
  have "sum (answers_left ?s) view \<le> ?k"
    by (simp add: answers_left_def set_total_def pages_empty_def Let_def)
  from fetch_rounds_rest [OF start assms(2,5,4,3) this]
  have t: "serving serve n view ?t" "next_page ?t first final False refresh = None" by blast+
  have "row_of ?t row = nth_opt (serve (page_of row)) (row - start_of (page_of row))"
    if "min first (n - 1) \<le> row \<and> row \<le> min final (n - 1)" for row
  proof -
    have "p_total ?t = n" "p_asked ?t = None" using t(1) by (auto simp: serving_def)
    then have "in_view_ok ?t refresh row"
      using t(2) that assms(1,2) not_wanted_iff [of ?t first final refresh] by (metis next_page_silent_rows)
    then obtain h where "p_held ?t (page_of row) = Some h" by (auto simp: in_view_ok_def split: option.splits)
    moreover from this t(1) have "h_rows h = serve (page_of row)" by (simp add: serving_def)
    ultimately show ?thesis by (simp add: row_of_def Let_def)
  qed
  then show ?thesis using t(2) by blast
qed

theorem view_comes_to_rest_witness:
  "next_page (fetch_rounds 4 (\<lambda>p. replicate (if p = 0 then 200 else 50) p) 250 10 240 True (fst (set_total 250 (pages_empty pages_default))))
     10 240 False True = None"
proof -
  let ?view = "{page_of (min 10 (250 - 1)) .. page_of (min 240 (250 - 1))}"
  have v: "?view = {0, 1}" by (auto simp: page_of_def SPAN_def)
  show ?thesis
    using view_comes_to_rest [of 250 10 240 ?view "\<lambda>p. replicate (if p = 0 then 200 else 50) p" True pages_default]
    unfolding v by (simp add: KEPT_def)
qed

text \<open>
  An empty page is asked for for ever: \<open>settled\<close> stops a page that is short for good from
  being asked again, but a page with no rows at all is asked for whether settled or not.
\<close>

lemma empty_page_wanted:
  "p_held s p = Some h \<Longrightarrow> h_rows h = [] \<Longrightarrow> wanted s final refresh p"
  by (simp add: wanted_def Let_def)

theorem empty_page_asked_again:
  "let s = pages_default\<lparr>p_total := 500\<rparr>; t = fetch_rounds 9 (\<lambda>_. [] :: nat list) 500 0 10 False s
   in map_option h_settled (p_held t 0) = Some True \<and> next_page t 0 10 False False = Some 0"
  by code_simp

end
