(* ===== verification/Errors.thy ===== *)
theory Errors
  imports Chars
begin

text \<open>
  Failures as values, \<open>crates/scour-core/src/types/error.rs\<close>: a variant for each, a stable
  code, whether waiting may help, and the English words that are also the message key.
\<close>

datatype error =
    QuerySyntax nat chars
  | QueryTooShort nat
  | ContentNotIndexed
  | NotIndexed
  | IndexBusy chars
  | IndexCorrupt chars
  | IndexOutdated u32 u32
  | SourceUnavailable u32
  | Unsupported chars
  | NotFound chars
  | PermissionDenied chars
  | Io chars
  | Config chars
  | Unreachable chars

type_synonym 'a res = "error + 'a"

fun bind_res :: "'a res \<Rightarrow> ('a \<Rightarrow> 'b res) \<Rightarrow> 'b res" where
  "bind_res (Inl e) f = Inl e"
| "bind_res (Inr x) f = f x"

definition ok_or :: "'a option \<Rightarrow> error \<Rightarrow> 'a res" where
  "ok_or v e = (case v of Some x \<Rightarrow> Inr x | None \<Rightarrow> Inl e)"

datatype io_kind = IoNotFound | IoPermissionDenied | IoOther chars

fun error_io :: "io_kind \<Rightarrow> chars \<Rightarrow> error" where
  "error_io IoNotFound path = NotFound path"
| "error_io IoPermissionDenied path = PermissionDenied path"
| "error_io (IoOther said) path = Io said"

fun error_code :: "error \<Rightarrow> chars" where
  "error_code (QuerySyntax _ _) = chs ''query_syntax''"
| "error_code (QueryTooShort _) = chs ''query_too_short''"
| "error_code ContentNotIndexed = chs ''content_not_indexed''"
| "error_code NotIndexed = chs ''not_indexed''"
| "error_code (IndexBusy _) = chs ''index_busy''"
| "error_code (IndexCorrupt _) = chs ''index_corrupt''"
| "error_code (IndexOutdated _ _) = chs ''index_outdated''"
| "error_code (SourceUnavailable _) = chs ''source_unavailable''"
| "error_code (Unsupported _) = chs ''unsupported''"
| "error_code (NotFound _) = chs ''not_found''"
| "error_code (PermissionDenied _) = chs ''permission_denied''"
| "error_code (Io _) = chs ''io''"
| "error_code (Config _) = chs ''config''"
| "error_code (Unreachable _) = chs ''unreachable''"

fun is_transient :: "error \<Rightarrow> bool" where
  "is_transient (IndexBusy _) = True"
| "is_transient NotIndexed = True"
| "is_transient (SourceUnavailable _) = True"
| "is_transient (Unreachable _) = True"
| "is_transient _ = False"

fun error_display :: "error \<Rightarrow> chars" where
  "error_display (QuerySyntax at expected) =
     chs ''Query syntax error at character '' @ decimal at @ chs '': expected '' @ expected"
| "error_display (QueryTooShort need) = chs ''Search terms need at least '' @ decimal need @ chs '' characters''"
| "error_display ContentNotIndexed = chs ''This index does not contain document contents''"
| "error_display NotIndexed = chs ''The index is not ready yet''"
| "error_display (IndexBusy detail) =
     (if detail = [] then chs ''The index is busy'' else chs ''The index is busy: '' @ detail)"
| "error_display (IndexCorrupt detail) = chs ''The index is damaged: '' @ detail"
| "error_display (IndexOutdated found expected) =
     chs ''The index was written in format '' @ decimal (unat found) @ chs '' and this is format ''
       @ decimal (unat expected) @ chs ''; it has to be built again''"
| "error_display (SourceUnavailable source) = chs ''Source '' @ decimal (unat source) @ chs '' is not available''"
| "error_display (Unsupported what) = chs ''Not supported here: '' @ what"
| "error_display (NotFound path) = chs ''Not found: '' @ path"
| "error_display (PermissionDenied path) = chs ''Permission denied: '' @ path"
| "error_display (Io detail) = chs ''Input/output error: '' @ detail"
| "error_display (Config detail) = chs ''Configuration problem: '' @ detail"
| "error_display (Unreachable detail) = chs ''Cannot reach the Scour service: '' @ detail"

lemma bind_res_Inr [simp]: "bind_res r f = Inr y \<longleftrightarrow> (\<exists>x. r = Inr x \<and> f x = Inr y)"
  by (cases r) auto

lemma ok_or_simps [simp]:
  "ok_or (Some x) e = Inr x" "ok_or None e = Inl e"
  by (simp_all add: ok_or_def)

end
