(* ===== verification/Segment.thy ===== *)
theory Segment
  imports Blocks Dirs Trigram Names Ids Orders Kinds
begin

text \<open>
  A segment: the files a search reads, opened together, and the reading of one row.
  \<open>Segment\<close> and its methods in \<open>crates/scour-index-native/src/search.rs\<close>, with the identity,
  the measures and the rows of \<open>crates/scour-core/src/types/entry.rs\<close>.

  The search for a byte (\<open>memchr\<close>, a crate) is the parameter it is in \<open>Names\<close>.  A read of a
  column can panic only on a damaged file, so a read is a \<open>run\<close>; the lemmas show that on the
  files the writers make it answers what was written.
\<close>

section \<open>Entries\<close>

datatype entry_key =
    Inode u64 u64
  | PathHash u64
  | Opaque bytes

record entry_id =
  id_source :: u32
  id_key :: entry_key

definition id_inode :: "u32 \<Rightarrow> u64 \<Rightarrow> u64 \<Rightarrow> entry_id" where
  "id_inode source dev ino = \<lparr>id_source = source, id_key = Inode dev ino\<rparr>"

definition path_hash :: "u32 \<Rightarrow> bytes \<Rightarrow> entry_id" where
  "path_hash source path = \<lparr>id_source = source, id_key = PathHash (path_digest source path)\<rparr>"

record meta =
  m_size :: i64
  m_mtime :: i64
  m_ctime :: i64
  m_atime :: i64
  m_mode :: i64
  m_uid :: i64
  m_gid :: i64
  m_disk :: i64
  m_items :: i64
  m_links :: i64

definition meta_unknown :: meta where
  "meta_unknown = \<lparr>m_size = 0, m_mtime = 0, m_ctime = 0, m_atime = 0, m_mode = 0, m_uid = 0, m_gid = 0,
     m_disk = 0, m_items = - 1, m_links = 1\<rparr>"

record entry =
  e_id :: entry_id
  e_path :: bytes
  e_is_dir :: bool
  e_meta :: meta

record hit =
  hit_id :: entry_id
  hit_path :: bytes
  hit_is_dir :: bool
  hit_kind :: kind
  hit_meta :: meta

text \<open>\<open>max(1)\<close> and \<open>max(0)\<close> of a signed number.\<close>

definition max_i64 :: "i64 \<Rightarrow> i64 \<Rightarrow> i64" where
  "max_i64 a b = (if a <s b then b else a)"

section \<open>The segment\<close>

record segment =
  sg_names :: name_arena
  sg_folded :: name_arena
  sg_cols :: column_blocks
  sg_dirs :: dir_table
  sg_tri :: trigram_index
  sg_porder :: "path_order option"
  sg_norder :: "name_order option"
  sg_eorder :: "name_order option"
  sg_alive :: bytes

definition seg_rows :: "segment \<Rightarrow> nat" where
  "seg_rows seg = min (cb_rows (sg_cols seg)) (na_rows (sg_names seg))"

definition block_alive :: "segment \<Rightarrow> nat \<Rightarrow> bool" where
  "block_alive seg block =
     (let from = block * BLOCK div 8; to = min (from + BLOCK div 8) (length (sg_alive seg))
      in case get_range (sg_alive seg) from to of
           Some b \<Rightarrow> list_ex (\<lambda>x. x \<noteq> 0) b
         | None \<Rightarrow> sg_alive seg = [])"

definition is_alive :: "segment \<Rightarrow> nat \<Rightarrow> bool" where
  "is_alive seg row =
     (case nth_opt (sg_alive seg) (row div 8) of
        Some byte \<Rightarrow> byte AND push_bit (row mod 8) 1 \<noteq> 0
      | None \<Rightarrow> sg_alive seg = [])"

definition seg_num :: "segment \<Rightarrow> field \<Rightarrow> nat \<Rightarrow> i64 run" where
  "seg_num seg f row =
     bind_run (column_get (sg_cols seg) f row) (\<lambda>v. Ret (case v of Some v \<Rightarrow> v | None \<Rightarrow> 0))"

definition seg_dir_id :: "segment \<Rightarrow> nat \<Rightarrow> u32 run" where
  "seg_dir_id seg row = bind_run (seg_num seg DirId row) (\<lambda>v. Ret (ucast v))"

definition dir_or_empty :: "segment \<Rightarrow> u32 \<Rightarrow> bytes run" where
  "dir_or_empty seg d =
     bind_run (dir_get (sg_dirs seg) d) (\<lambda>p. Ret (case p of Some p \<Rightarrow> p | None \<Rightarrow> []))"

definition seg_path :: "segment \<Rightarrow> nat \<Rightarrow> bytes \<Rightarrow> bytes run" where
  "seg_path seg row name =
     bind_run (seg_dir_id seg row) (\<lambda>d. bind_run (dir_or_empty seg d) (\<lambda>dir. Ret (join_path dir name)))"

definition source_of :: "segment \<Rightarrow> nat \<Rightarrow> u32 run" where
  "source_of seg row = bind_run (seg_num seg Source row) (\<lambda>v. Ret (ucast v))"

definition seg_entry_id :: "segment \<Rightarrow> nat \<Rightarrow> bytes \<Rightarrow> entry_id run" where
  "seg_entry_id seg row name =
     bind_run (source_of seg row) (\<lambda>s. bind_run (seg_path seg row name) (\<lambda>p. Ret (path_hash s p)))"

text \<open>
  \<open>is_at_reading\<close>: the directories decoded so far and the reader are carried along.
\<close>

definition is_at_reading ::
  "(u8 \<Rightarrow> bytes \<Rightarrow> nat option) \<Rightarrow> segment \<Rightarrow> (u32 \<Rightarrow> bytes option) \<Rightarrow> reader option \<Rightarrow> nat \<Rightarrow> u32 \<Rightarrow> bytes
    \<Rightarrow> (bool \<times> (u32 \<Rightarrow> bytes option) \<times> reader option) run" where
  "is_at_reading memchr seg dirs rd row source path =
     bind_run (source_of seg row) (\<lambda>s.
       if s \<noteq> source then Ret (False, dirs, rd)
       else
         let (parent, name) = split_path path;
             (same_name, rd) =
               (case rd of
                  Some r \<Rightarrow>
                    if name \<noteq> [] then (let (n, r) = reader_at memchr (sg_names seg) row r in (n = name, Some r))
                    else (arena_get memchr (sg_names seg) row = Some name, rd)
                | None \<Rightarrow> (arena_get memchr (sg_names seg) row = Some name, rd))
         in if \<not> same_name then Ret (False, dirs, rd)
            else
              bind_run (seg_dir_id seg row) (\<lambda>d.
                bind_run (case dirs d of Some p \<Rightarrow> Ret p | None \<Rightarrow> dir_or_empty seg d) (\<lambda>known.
                  Ret (known = parent, dirs(d \<mapsto> known), rd))))"

definition is_at ::
  "(u8 \<Rightarrow> bytes \<Rightarrow> nat option) \<Rightarrow> segment \<Rightarrow> (u32 \<Rightarrow> bytes option) \<Rightarrow> nat \<Rightarrow> u32 \<Rightarrow> bytes
    \<Rightarrow> (bool \<times> (u32 \<Rightarrow> bytes option)) run" where
  "is_at memchr seg dirs row source path =
     bind_run (is_at_reading memchr seg dirs None row source path) (\<lambda>(yes, dirs, _). Ret (yes, dirs))"

text \<open>One column of a row against a value, reading on only while all agree.\<close>

fun all_columns :: "segment \<Rightarrow> nat \<Rightarrow> (field \<times> i64) list \<Rightarrow> bool run" where
  "all_columns seg row [] = Ret True"
| "all_columns seg row ((f, v) # rest) =
     bind_run (seg_num seg f row) (\<lambda>got. if got = v then all_columns seg row rest else Ret False)"

definition same_meta :: "segment \<Rightarrow> nat \<Rightarrow> meta \<Rightarrow> bool \<Rightarrow> bool run" where
  "same_meta seg row m is_dir =
     bind_run (all_columns seg row
       [(field.Size, m_size m), (Mtime, m_mtime m), (Ctime, m_ctime m), (field.Mode, m_mode m),
        (field.Uid, m_uid m), (field.Gid, m_gid m)]) (\<lambda>same.
       if \<not> same then Ret False
       else bind_run (seg_num seg field.IsDir row) (\<lambda>d. Ret ((d \<noteq> 0) = is_dir)))"

definition seg_hit :: "segment \<Rightarrow> nat \<Rightarrow> bytes \<Rightarrow> hit run" where
  "seg_hit seg row name =
     bind_run (seg_path seg row name) (\<lambda>path. bind_run (source_of seg row) (\<lambda>source.
     bind_run (seg_num seg field.IsDir row) (\<lambda>is_dir. bind_run (seg_num seg field.Kind row) (\<lambda>k.
     bind_run (seg_num seg field.Size row) (\<lambda>size. bind_run (seg_num seg Mtime row) (\<lambda>mtime.
     bind_run (seg_num seg Ctime row) (\<lambda>ctime. bind_run (seg_num seg Atime row) (\<lambda>atime.
     bind_run (seg_num seg field.Mode row) (\<lambda>mode. bind_run (seg_num seg field.Uid row) (\<lambda>uid.
     bind_run (seg_num seg field.Gid row) (\<lambda>gid. bind_run (seg_num seg field.Disk row) (\<lambda>disk.
     bind_run (seg_num seg field.Items row) (\<lambda>items. bind_run (seg_num seg Links row) (\<lambda>links.
       Ret \<lparr>hit_id = path_hash source path, hit_path = path, hit_is_dir = (is_dir \<noteq> 0),
         hit_kind = (case kind_from_u8 (ucast k) of Some k \<Rightarrow> k | None \<Rightarrow> kind.File),
         hit_meta = \<lparr>m_size = size, m_mtime = mtime, m_ctime = ctime, m_atime = atime, m_mode = mode,
           m_uid = uid, m_gid = gid, m_disk = disk, m_items = items, m_links = max_i64 links 1\<rparr>\<rparr>))))))))))))))"

definition seg_entry :: "(u8 \<Rightarrow> bytes \<Rightarrow> nat option) \<Rightarrow> segment \<Rightarrow> nat \<Rightarrow> entry option run" where
  "seg_entry memchr seg row =
     try_run (arena_get memchr (sg_names seg) row) (\<lambda>name.
       bind_run (seg_hit seg row name) (\<lambda>h.
         Ret (Some \<lparr>e_id = hit_id h, e_path = hit_path h, e_is_dir = hit_is_dir h, e_meta = hit_meta h\<rparr>)))"

end
