(* ===== verification/Build.thy ===== *)
theory Build
  imports Segment Orders
begin

text \<open>
  Turning entries into the files of a segment, \<open>crates/scour-index-native/src/build.rs\<close>.  The
  two passes over the entries are the two folds of the code; the case folder and \<open>memchr\<close> are
  parameters.  The main lemma, \<open>build_views\<close>, says what every file of a built segment opens to.
\<close>

record segment_bytes =
  sb_names :: bytes
  sb_fnames :: bytes
  sb_cols :: bytes
  sb_dirs :: bytes
  sb_ids :: bytes
  sb_tri_dict :: bytes
  sb_tri_post :: bytes
  sb_alive :: bytes
  sb_porder :: bytes
  sb_norder :: bytes
  sb_eorder :: bytes

definition segment_total :: "segment_bytes \<Rightarrow> nat" where
  "segment_total sb =
     length (sb_names sb) + length (sb_fnames sb) + length (sb_cols sb) + length (sb_dirs sb) + length (sb_ids sb)
     + length (sb_tri_dict sb) + length (sb_tri_post sb) + length (sb_alive sb) + length (sb_porder sb)
     + length (sb_norder sb) + length (sb_eorder sb)"

definition alive_bits :: "nat \<Rightarrow> bytes" where
  "alive_bits rows =
     (let alive = replicate ((rows + 7) div 8) 0xff; spare = rows mod 8
      in if spare \<noteq> 0 \<and> alive \<noteq> [] then butlast alive @ [push_bit spare 1 - 1] else alive)"

text \<open>The row of an entry: one value a field, by the field's index.\<close>

definition entry_kind :: "(bytes \<Rightarrow> bytes) \<Rightarrow> entry \<Rightarrow> kind" where
  "entry_kind fold_case e = kind_of fold_case (e_is_dir e) (entry_name (e_path e)) (m_mode (e_meta e))"

definition entry_cell :: "(bytes \<Rightarrow> bytes) \<Rightarrow> u32 \<Rightarrow> entry \<Rightarrow> field \<Rightarrow> i64" where
  "entry_cell fold_case dir_num e f =
     (case f of
        field.DirId \<Rightarrow> ucast dir_num
      | field.Size \<Rightarrow> m_size (e_meta e)
      | Mtime \<Rightarrow> m_mtime (e_meta e)
      | Ctime \<Rightarrow> m_ctime (e_meta e)
      | Atime \<Rightarrow> m_atime (e_meta e)
      | field.Mode \<Rightarrow> m_mode (e_meta e)
      | field.Uid \<Rightarrow> m_uid (e_meta e)
      | field.Gid \<Rightarrow> m_gid (e_meta e)
      | field.Disk \<Rightarrow> m_disk (e_meta e)
      | field.Items \<Rightarrow> m_items (e_meta e)
      | field.Kind \<Rightarrow> ucast (kind_as_u8 (entry_kind fold_case e))
      | field.IsDir \<Rightarrow> (if e_is_dir e then 1 else 0)
      | Source \<Rightarrow> ucast (id_source (e_id e))
      | Links \<Rightarrow> max_i64 (m_links (e_meta e)) 1)"

definition entry_row :: "(bytes \<Rightarrow> bytes) \<Rightarrow> u32 \<Rightarrow> entry \<Rightarrow> row" where
  "entry_row fold_case dir_num e = map (entry_cell fold_case dir_num e) field_all"

text \<open>The first pass: directories interned, names folded, trigrams recorded.\<close>

definition first_pass ::
  "(bytes \<Rightarrow> bytes) \<Rightarrow> dir_writer \<times> name_writer \<times> trigram_writer \<times> u32 list \<Rightarrow> entry
    \<Rightarrow> dir_writer \<times> name_writer \<times> trigram_writer \<times> u32 list" where
  "first_pass fold_bytes state e =
     (case state of (dirs, names, tri, dir_of) \<Rightarrow>
        let (num, dirs) = intern dirs (entry_parent (e_path e));
            (names, folded) = push_and_fold fold_bytes names (entry_name (e_path e))
        in (dirs, names, push_folded tri folded, dir_of @ [num]))"

text \<open>The second: identities and columns.\<close>

definition second_pass ::
  "(bytes \<Rightarrow> bytes) \<Rightarrow> u32 list \<Rightarrow> id_writer \<times> column_writer \<Rightarrow> nat \<times> entry \<Rightarrow> id_writer \<times> column_writer" where
  "second_pass fold_case dir_of state item =
     (case (state, item) of ((ids, cols), (i, e)) \<Rightarrow>
        (id_push ids (id_source (e_id e)) (e_path e) (as_u32 i),
         column_push cols (entry_row fold_case (dir_of ! i) e)))"

definition build_sorted ::
  "(u8 \<Rightarrow> bytes \<Rightarrow> nat option) \<Rightarrow> (bytes \<Rightarrow> bytes) \<Rightarrow> (bytes \<Rightarrow> bytes) \<Rightarrow> entry list \<Rightarrow> segment_bytes run" where
  "build_sorted memchr fold_bytes fold_case entries =
     (let (dirs, names, tri, dir_of) =
            foldl (first_pass fold_bytes) (dir_writer_new, name_writer_new, trigram_writer_new, []) entries;
          (dir_bytes, remap) = dir_finish dirs;
          dir_of = map (\<lambda>num. remap ! unat num) dir_of
      in bind_run
           (case dir_open dir_bytes of
              Some table \<Rightarrow> path_order_build memchr table dir_of (nw_bytes names)
            | None \<Rightarrow> Ret []) (\<lambda>porder.
         let (ids, cols) = foldl (second_pass fold_case dir_of) ([], column_writer_new) (List.enumerate 0 entries);
             rows = length entries;
             (norder, order) = build_reusing memchr rows (nw_folded names);
             eorder = extension_order_build memchr rows (nw_bytes names) (nw_folded names);
             (tri_dict, tri_post) = tri_finish tri;
             (name_bytes, folded_bytes) = name_finish_both names
         in Ret \<lparr>sb_names = name_bytes, sb_fnames = folded_bytes, sb_cols = column_finish cols, sb_dirs = dir_bytes,
              sb_ids = id_finish ids, sb_tri_dict = tri_dict, sb_tri_post = tri_post, sb_alive = alive_bits rows,
              sb_porder = porder, sb_norder = norder, sb_eorder = eorder\<rparr>))"

text \<open>\<open>build\<close>: newest first, the path breaking ties.\<close>

definition stored_key :: "entry \<Rightarrow> int \<times> bytes" where
  "stored_key e = (- sint (m_mtime (e_meta e)), e_path e)"

definition build ::
  "(u8 \<Rightarrow> bytes \<Rightarrow> nat option) \<Rightarrow> (bytes \<Rightarrow> bytes) \<Rightarrow> (bytes \<Rightarrow> bytes) \<Rightarrow> entry list \<Rightarrow> segment_bytes run" where
  "build memchr fold_bytes fold_case entries =
     build_sorted memchr fold_bytes fold_case (sort_key stored_key entries)"

section \<open>The passes\<close>

lemma intern_all_snoc:
  "intern_all w (ps @ [p]) =
     (let (nums, w) = intern_all w ps; (num, w) = intern w p in (nums @ [num], w))"
  by (induction ps arbitrary: w) (simp_all add: Let_def split: prod.splits)

lemma first_pass_all:
  "foldl (first_pass fold_bytes) (dir_writer_new, name_writer_new, trigram_writer_new, []) es =
     (snd (intern_all dir_writer_new (map (\<lambda>e. entry_parent (e_path e)) es)),
      names_written fold_bytes (map (\<lambda>e. entry_name (e_path e)) es),
      foldl push_folded trigram_writer_new (map (\<lambda>e. fold_bytes (entry_name (e_path e))) es),
      fst (intern_all dir_writer_new (map (\<lambda>e. entry_parent (e_path e)) es)))"
proof (induction es rule: rev_induct)
  case Nil
  then show ?case by (simp add: names_written_def)
next
  case (snoc e es)
  have n: "names_written fold_bytes (ns @ [n]) = fst (push_and_fold fold_bytes (names_written fold_bytes ns) n)" for ns n
    by (simp add: names_written_def)
  have one: "first_pass fold_bytes (d, w, t, ds) e = (snd (intern d (entry_parent (e_path e))),
      fst (push_and_fold fold_bytes w (entry_name (e_path e))), push_folded t (fold_bytes (entry_name (e_path e))),
      ds @ [fst (intern d (entry_parent (e_path e)))])" for d w t ds
    using pushed_fold [of fold_bytes w "entry_name (e_path e)"]
    by (auto simp: first_pass_def Let_def split: prod.splits)
  show ?case
    unfolding foldl_append foldl.simps snoc one
    by (simp add: n intern_all_snoc Let_def split: prod.splits)
qed

lemma second_pass_all:
  "foldl (second_pass fold_case dir_of) ([], column_writer_new) (List.enumerate 0 es) =
     (id_table (map (\<lambda>e. (id_source (e_id e), e_path e)) es),
      foldl column_push column_writer_new (map (\<lambda>i. entry_row fold_case (dir_of ! i) (es ! i)) [0 ..< length es]))"
proof -
  have "foldl (second_pass fold_case dir_of) (ids, cols) xs =
     (foldl (\<lambda>w (row, source, path). id_push w source path (as_u32 row)) ids (map (\<lambda>(i, e). (i, id_source (e_id e), e_path e)) xs),
      foldl column_push cols (map (\<lambda>(i, e). entry_row fold_case (dir_of ! i) e) xs))" for ids cols xs
    by (induction xs arbitrary: ids cols) (auto simp: second_pass_def)
  moreover have "map (\<lambda>(i, e). (i, id_source (e_id e), e_path e)) (List.enumerate 0 es)
      = List.enumerate 0 (map (\<lambda>e. (id_source (e_id e), e_path e)) es)"
    by (rule nth_equalityI) (simp_all add: nth_enumerate_eq)
  moreover have "map (\<lambda>(i, e). entry_row fold_case (dir_of ! i) e) (List.enumerate 0 es)
      = map (\<lambda>i. entry_row fold_case (dir_of ! i) (es ! i)) [0 ..< length es]"
    by (rule nth_equalityI) (simp_all add: nth_enumerate_eq)
  ultimately show ?thesis by (simp add: id_table_def)
qed

section \<open>What the files open to\<close>

text \<open>A directory's number, and the rows a list of entries makes.\<close>

definition dir_number :: "bytes list \<Rightarrow> bytes \<Rightarrow> u32" where
  "dir_number ds p = as_u32 (length (takeWhile (\<lambda>q. q \<noteq> p) ds))"

definition entry_names :: "entry list \<Rightarrow> bytes list" where
  "entry_names es = map (\<lambda>e. entry_name (e_path e)) es"

definition entry_parents :: "entry list \<Rightarrow> bytes list" where
  "entry_parents es = map (\<lambda>e. entry_parent (e_path e)) es"

definition entry_dirs :: "entry list \<Rightarrow> bytes list" where
  "entry_dirs es = sorted_dirs (entry_parents es)"

definition entry_rows :: "(bytes \<Rightarrow> bytes) \<Rightarrow> entry list \<Rightarrow> row list" where
  "entry_rows fold_case es = map (\<lambda>e. entry_row fold_case (dir_number (entry_dirs es) (entry_parent (e_path e))) e) es"

definition entry_ids :: "entry list \<Rightarrow> (u32 \<times> bytes) list" where
  "entry_ids es = map (\<lambda>e. (id_source (e_id e), e_path e)) es"

lemma entry_lengths [simp]:
  "length (entry_names es) = length es" "length (entry_parents es) = length es"
  "length (entry_rows fold_case es) = length es" "length (entry_ids es) = length es"
  by (simp_all add: entry_names_def entry_parents_def entry_rows_def entry_ids_def)

text \<open>Text without separators in names or NULs, and files within the 32-bit offsets of the format.\<close>

definition entries_fit :: "(bytes \<Rightarrow> bytes) \<Rightarrow> entry list \<Rightarrow> bool" where
  "entries_fit fold_bytes es \<longleftrightarrow>
     names_text (entry_names es) \<and> names_text (map fold_bytes (entry_names es)) \<and> dirs_small (entry_parents es)
     \<and> tri_small (map fold_bytes (entry_names es)) \<and> 406 * length es + 176 < 2 ^ 32"

lemma number_of_index: "distinct ds \<Longrightarrow> j < length ds \<Longrightarrow> dir_number ds (ds ! j) = as_u32 j"
proof -
  assume d: "distinct ds" "j < length ds"
  have "takeWhile (\<lambda>q. q \<noteq> ds ! j) ds = take j ds"
    using d by (intro takeWhile_eq_take_P_nth) (auto simp: nth_eq_iff_index_eq)
  then show ?thesis using d(2) by (simp add: dir_number_def)
qed

lemma dir_number_in:
  assumes "p \<in> set ds" "length ds < 2 ^ 32"
  shows "unat (dir_number ds p) < length ds" "ds ! unat (dir_number ds p) = p"
proof -
  have n: "length (takeWhile (\<lambda>q. q \<noteq> p) ds) < length ds"
    using assms(1) by (metis (mono_tags, lifting) length_takeWhile_le nat_less_le takeWhile_eq_all_conv takeWhile_eq_take take_all)
  then have u: "unat (dir_number ds p) = length (takeWhile (\<lambda>q. q \<noteq> p) ds)"
    using assms(2) unat_u32 by (simp add: dir_number_def)
  show "unat (dir_number ds p) < length ds" using n u by simp
  show "ds ! unat (dir_number ds p) = p" using nth_length_takeWhile [OF n] u by simp
qed

lemma entry_dirs_length: "entries_fit fold_bytes es \<Longrightarrow> length (entry_dirs es) < 2 ^ 32"
  using dirs_small_fit [of "entry_parents es"] by (simp add: entries_fit_def entry_dirs_def dirs_fit_def)

lemma build_dir_of:
  assumes "intern_all dir_writer_new (entry_parents es) = (nums, w)" "dir_finish w = (bs, remap)"
    "dirs_small (entry_parents es)"
  shows "bs = dir_file (entry_parents es)"
    "map (\<lambda>num. remap ! unat num) nums = map (dir_number (entry_dirs es)) (entry_parents es)"
proof -
  let ?ps = "entry_parents es"
  have w: "dir_writer_ok w" "set (dw_paths w) = set ?ps" "length nums = length ?ps"
    and nums: "\<forall>k < length ?ps. \<exists>i < length (dw_paths w). dw_paths w ! i = ?ps ! k \<and> nums ! k = as_u32 i"
    using intern_all_ok [OF dir_writer_ok_new assms(1)] by (simp_all add: dir_writer_new_def)
  have sort: "sort (dw_paths w) = entry_dirs es" using sort_interned [OF w(1,2)] by (simp add: entry_dirs_def)
  have dist: "distinct (dw_paths w)" using w(1) by (simp add: dir_writer_ok_def)
  have small: "length (dw_paths w) < 2 ^ 32"
    using dirs_small_fit [OF assms(3)] arg_cong [OF sort, of length] by (simp add: entry_dirs_def dirs_fit_def)
  show "bs = dir_file ?ps" using assms(1,2) by (simp add: dir_file_def)
  show "map (\<lambda>num. remap ! unat num) nums = map (dir_number (entry_dirs es)) ?ps"
  proof (rule nth_equalityI)
    fix k
    assume "k < length (map (\<lambda>num. remap ! unat num) nums)"
    then have k: "k < length ?ps" "k < length nums" using w(3) by auto
    then obtain i where i: "i < length (dw_paths w)" "dw_paths w ! i = ?ps ! k" "nums ! k = as_u32 i"
      using nums by blast
    obtain j where j: "j < length (dw_paths w)" "remap ! i = as_u32 j" "entry_dirs es ! j = ?ps ! k"
      using dir_finish_view(2) [OF dist assms(2) i(1)] i(2) sort by auto
    have "unat (as_u32 i) = i" using i(1) small by (intro unat_u32) simp
    moreover have "dir_number (entry_dirs es) (?ps ! k) = as_u32 j"
      using number_of_index [of "entry_dirs es" j] j arg_cong [OF sort, of length] by (simp add: entry_dirs_def)
    ultimately show "map (\<lambda>num. remap ! unat num) nums ! k = map (dir_number (entry_dirs es)) ?ps ! k"
      using k i(3) j(2) by simp
  qed (use w(3) in simp)
qed

lemma entry_rows_ok: "entries_fit fold_bytes es \<Longrightarrow> column_rows_ok (entry_rows fold_case es)"
  using column_file_length [of "entry_rows fold_case es"]
  by (auto simp: column_rows_ok_def column_fits_def column_file_def entries_fit_def entry_rows_def entry_row_def field_all_def)

text \<open>What the segment written for \<open>es\<close> opens to.\<close>

definition views ::
  "(u8 \<Rightarrow> bytes \<Rightarrow> nat option) \<Rightarrow> (bytes \<Rightarrow> bytes) \<Rightarrow> (bytes \<Rightarrow> bytes) \<Rightarrow> entry list \<Rightarrow> segment_bytes \<Rightarrow> bool" where
  "views memchr fold_bytes fold_case es sb \<longleftrightarrow>
     arena_open (sb_names sb) = Some (arena_of (entry_names es))
     \<and> arena_open (sb_fnames sb) = Some (arena_of (map fold_bytes (entry_names es)))
     \<and> column_open (sb_cols sb) = Some (column_view (entry_rows fold_case es))
     \<and> dir_open (sb_dirs sb) = Some (dir_view (entry_dirs es))
     \<and> id_open (sb_ids sb) = Some (id_view (sort (id_table (entry_ids es))))
     \<and> (sb_tri_dict sb, sb_tri_post sb) = tri_files (map fold_bytes (entry_names es))
     \<and> sb_alive sb = alive_bits (length es)
     \<and> (\<exists>po. path_order_open (sb_porder sb) = Some po \<and> po_rows po = length es)
     \<and> (\<exists>no. name_order_open (sb_norder sb) = Some no \<and> no_rows no = length es)
     \<and> (\<exists>no. name_order_open (sb_eorder sb) = Some no \<and> no_rows no = length es)"

lemma names_no_slash: "\<forall>n \<in> set (entry_names es). SLASH \<notin> set n"
  by (auto simp: entry_names_def entry_name_no_slash)

text \<open>The order files list every row of \<open>es\<close> once, by path, by folded name and by folded extension.\<close>

definition entry_spelled_path :: "entry list \<Rightarrow> u32 \<Rightarrow> bytes" where
  "entry_spelled_path es row =
     join_path (entry_parent (e_path (es ! unat row))) (entry_name (e_path (es ! unat row)))"

definition paths_listed :: "entry list \<Rightarrow> path_order \<Rightarrow> bool" where
  "paths_listed es po \<longleftrightarrow> po_rows po = length es \<and> (\<exists>order. length order = length es
     \<and> (\<forall>i < length es. path_order_at po i = Some (order ! i)) \<and> distinct order
     \<and> set order = set (map as_u32 [0 ..< length es]) \<and> sorted_wrt (row_before (entry_spelled_path es)) order)"

definition names_listed :: "(bytes \<Rightarrow> bytes) \<Rightarrow> entry list \<Rightarrow> name_order \<Rightarrow> bool" where
  "names_listed fold_bytes es no \<longleftrightarrow>
     (\<exists>order. lists_rows no (length es) (\<lambda>row. map fold_bytes (entry_names es) ! unat row) order)"

definition extensions_listed :: "(bytes \<Rightarrow> bytes) \<Rightarrow> entry list \<Rightarrow> name_order \<Rightarrow> bool" where
  "extensions_listed fold_bytes es eo \<longleftrightarrow>
     (\<exists>order. lists_rows eo (length es)
       (\<lambda>row. folded_extension (entry_names es ! unat row) (map fold_bytes (entry_names es) ! unat row)) order)"

definition orders_written :: "(bytes \<Rightarrow> bytes) \<Rightarrow> entry list \<Rightarrow> segment_bytes \<Rightarrow> bool" where
  "orders_written fold_bytes es sb \<longleftrightarrow>
     (\<exists>po. path_order_open (sb_porder sb) = Some po \<and> paths_listed es po)
     \<and> (\<exists>no. name_order_open (sb_norder sb) = Some no \<and> names_listed fold_bytes es no)
     \<and> (\<exists>eo. name_order_open (sb_eorder sb) = Some eo \<and> extensions_listed fold_bytes es eo)"

lemma listed_rows:
  "paths_listed es po \<Longrightarrow> po_rows po = length es" "names_listed fold_bytes es no \<Longrightarrow> no_rows no = length es"
  "extensions_listed fold_bytes es no \<Longrightarrow> no_rows no = length es"
  by (auto simp: paths_listed_def names_listed_def extensions_listed_def dest: lists_rows_len)

lemma path_order_listed:
  assumes "memchr_law memchr" "names_fit (entry_names es)" "dirs_small (entry_parents es)" "length (entry_dirs es) < 2 ^ 32"
  shows "\<exists>bs po. path_order_build memchr (dir_view (entry_dirs es)) (map (dir_number (entry_dirs es)) (entry_parents es))
      (terminated (entry_names es)) = Ret bs \<and> path_order_open bs = Some po \<and> paths_listed es po"
proof -
  let ?ds = "entry_dirs es" and ?ns = "entry_names es"
  let ?dof = "map (dir_number ?ds) (entry_parents es)"
  have small: "\<forall>d \<in> set ?dof. unat d < length (sorted_dirs (entry_parents es))"
    using dir_number_in(1) [of _ ?ds] assms(4) by (auto simp: entry_dirs_def)
  have t: "dir_open (dir_file (entry_parents es)) = Some (dir_view ?ds)"
    using dir_file_view [OF assms(3)] by (simp add: entry_dirs_def)
  obtain bs po order where o: "path_order_build memchr (dir_view ?ds) ?dof (terminated ?ns) = Ret bs"
    "path_order_open bs = Some po" "po_rows po = length es" "length order = length es"
    "\<forall>i < length es. path_order_at po i = Some (order ! i)" "distinct order" "set order = set (map as_u32 [0 ..< length es])"
    "sorted_wrt (row_before (row_path ?ds ?dof ?ns)) order"
    using path_order_built [OF assms(1,2) names_no_slash assms(3) t _ small] by (auto simp: entry_dirs_def)
  have same: "row_path ?ds ?dof ?ns row = entry_spelled_path es row" if "row \<in> set order" for row
  proof -
    have n: "unat row < length es" using that o(7) assms(2) map_u32_rows [of "length es" row] by (simp add: names_fit_def)
    then have "es ! unat row \<in> set es" by simp
    then have "entry_parent (e_path (es ! unat row)) \<in> set ?ds" by (simp add: entry_dirs_def entry_parents_def)
    then show ?thesis
      using n dir_number_in(2) [of _ ?ds] assms(4)
      by (simp add: row_path_def entry_spelled_path_def) (simp add: entry_parents_def entry_names_def)
  qed
  have "sorted_wrt (row_before (entry_spelled_path es)) order"
    by (rule sorted_wrt_mono_rel [OF _ o(8)]) (auto simp: row_before_def same)
  then show ?thesis using o(1-7) unfolding paths_listed_def by blast
qed

lemma build_listed:
  assumes "memchr_law memchr" "entries_fit fold_bytes es"
  shows "\<exists>sb. build_sorted memchr fold_bytes fold_case es = Ret sb \<and> views memchr fold_bytes fold_case es sb
    \<and> orders_written fold_bytes es sb"
proof -
  let ?ns = "entry_names es" and ?ps = "entry_parents es" and ?rs = "entry_rows fold_case es"
  let ?fs = "map fold_bytes ?ns"
  note fit = assms(2) [unfolded entries_fit_def]
  have nf: "names_fit ?ns" "names_fit ?fs" using fit by (simp_all add: names_text_def)
  have small: "dirs_small ?ps" using fit by simp
  obtain nums w where i: "intern_all dir_writer_new ?ps = (nums, w)" by fastforce
  obtain bs remap where f: "dir_finish w = (bs, remap)" by fastforce
  note dirs = build_dir_of [OF i f small]
  let ?dof = "map (dir_number (entry_dirs es)) ?ps"
  have t: "dir_open bs = Some (dir_view (entry_dirs es))"
    using dir_file_view [OF small] dirs(1) by (simp add: entry_dirs_def)
  have dlen: "length (entry_dirs es) < 2 ^ 32" using entry_dirs_length [OF assms(2)] .
  obtain porder po where po: "path_order_build memchr (dir_view (entry_dirs es)) ?dof (terminated ?ns) = Ret porder"
    "path_order_open porder = Some po" "paths_listed es po"
    using path_order_listed [OF assms(1) nf(1) small dlen] by blast
  obtain norder order where no: "build_reusing memchr (length es) (terminated ?fs) = (norder, order)" by fastforce
  have noo: "\<exists>t. name_order_open norder = Some t \<and> names_listed fold_bytes es t"
    using name_order_grouped [OF assms(1) nf(2), of norder order] no by (auto simp: names_listed_def)
  let ?eo = "extension_order_build memchr (length es) (terminated ?ns) (terminated ?fs)"
  have eoo: "\<exists>t. name_order_open ?eo = Some t \<and> extensions_listed fold_bytes es t"
    using extension_order_grouped [OF assms(1) nf] by (auto simp: extensions_listed_def)
  have rows: "map (\<lambda>i. entry_row fold_case (?dof ! i) (es ! i)) [0 ..< length es] = ?rs"
    by (rule nth_equalityI) (simp_all add: entry_rows_def entry_parents_def)
  obtain td tp where tri: "tri_files ?fs = (td, tp)" by fastforce
  let ?sb = "\<lparr>sb_names = name_file fold_bytes ?ns, sb_fnames = snd (name_finish_both (names_written fold_bytes ?ns)),
    sb_cols = column_file ?rs, sb_dirs = bs, sb_ids = id_finish (id_table (entry_ids es)), sb_tri_dict = td, sb_tri_post = tp,
    sb_alive = alive_bits (length es), sb_porder = porder, sb_norder = norder,
    sb_eorder = extension_order_build memchr (length es) (terminated ?ns) (terminated ?fs)\<rparr>"
  have folded: "map (\<lambda>e. fold_bytes (entry_name (e_path e))) es = ?fs" by (simp add: entry_names_def)
  have "build_sorted memchr fold_bytes fold_case es = Ret ?sb"
    unfolding build_sorted_def first_pass_all folded entry_names_def [symmetric] entry_parents_def [symmetric] i
    using tri no rows po(1)
    by (simp add: f dirs(2) t second_pass_all names_written name_file_def column_file_def tri_files_def
        entry_ids_def Let_def split: prod.splits)
  moreover have "views memchr fold_bytes fold_case es ?sb"
    unfolding views_def
    using name_file_open [OF nf(1), of fold_bytes] arena_open_pack [OF nf(2)] po(2,3) noo eoo listed_rows tri t
      column_open_file [of ?rs] entry_rows_ok [OF assms(2), of fold_case]
      id_open_finish [of "id_table (entry_ids es)"] nf(1)
    by (auto simp: name_finish_both_def names_written pack_in_place column_rows_ok_def ids_fit_def id_table_eq names_fit_def)
  moreover have "orders_written fold_bytes es ?sb" using po(2,3) noo eoo by (simp add: orders_written_def)
  ultimately show ?thesis by blast
qed

lemma build_views:
  assumes "memchr_law memchr" "entries_fit fold_bytes es"
  shows "\<exists>sb. build_sorted memchr fold_bytes fold_case es = Ret sb \<and> views memchr fold_bytes fold_case es sb"
  using build_listed [OF assms] by blast

end
