(* ===== verification/Live.thy ===== *)
theory Live
  imports Build Errors
begin

text \<open>
  A segment that is being read: its files, immutable, and the one thing that changes, a bit a
  row.  \<open>crates/scour-index-native/src/segment.rs\<close>.

  A file mapped from disk and one held in memory read the same, so a part is its bytes.
  What touches the disk (\<open>write\<close>, \<open>open\<close>, \<open>erase\<close>, \<open>save_alive\<close>) is left out; \<open>from_bytes\<close> is
  the way in without it, and goes through the same checks.

  The lemmas show that the entries written come back, that a lookup by path finds the row of
  the path and no other, and that removing paths removes exactly them, by either strategy.
\<close>

section \<open>Small machines\<close>

text \<open>Reading on for as long as the reads answer.\<close>

fun run_filter_map :: "('a \<Rightarrow> 'b option run) \<Rightarrow> 'a list \<Rightarrow> 'b list run" where
  "run_filter_map f [] = Ret []"
| "run_filter_map f (x # xs) =
     bind_run (f x) (\<lambda>y. bind_run (run_filter_map f xs) (\<lambda>ys. Ret (case y of Some y \<Rightarrow> y # ys | None \<Rightarrow> ys)))"

lemma run_filter_map_Ret:
  "(\<And>x. x \<in> set xs \<Longrightarrow> f x = Ret (g x)) \<Longrightarrow> run_filter_map f xs = Ret (List.map_filter g xs)"
  by (induction xs) (auto split: option.splits)

text \<open>\<open>ilog2\<close>.\<close>

fun ilog2 :: "nat \<Rightarrow> nat" where
  "ilog2 n = (if n < 2 then 0 else 1 + ilog2 (n div 2))"

declare ilog2.simps [simp del]

section \<open>The segment\<close>

record live =
  lv_number :: u64
  lv_generation :: u64
  lv_parts :: segment_bytes
  lv_porder :: "bytes option"
  lv_norder :: "bytes option"
  lv_eorder :: "bytes option"
  lv_alive :: bytes
  lv_rows :: nat
  lv_dirs :: nat
  lv_deaths :: u64

definition seg_name :: "u64 \<Rightarrow> chars" where
  "seg_name number = chs ''seg-'' @ padded 8 (unat number) @ chs ''.''"

definition unreadable :: "u64 \<Rightarrow> chars \<Rightarrow> error" where
  "unreadable number what = IndexCorrupt (seg_name number @ what @ chs '' is unreadable'')"

definition wrong_order :: "u64 \<Rightarrow> chars \<Rightarrow> nat \<Rightarrow> nat option \<Rightarrow> error" where
  "wrong_order number ext rows found =
     IndexCorrupt (seg_name number @ ext @ chs '' holds ''
       @ (case found of None \<Rightarrow> chs ''an unreadable number of'' | Some n \<Rightarrow> decimal n)
       @ chs '' rows, expected '' @ decimal rows)"

text \<open>An order file is missing, or holds every row.\<close>

definition check_order :: "u64 \<Rightarrow> chars \<Rightarrow> nat \<Rightarrow> (bytes \<Rightarrow> nat option) \<Rightarrow> bytes option \<Rightarrow> unit res" where
  "check_order number ext rows rows_of part =
     (case part of
        None \<Rightarrow> Inr ()
      | Some p \<Rightarrow> if rows_of p = Some rows then Inr () else Inl (wrong_order number ext rows (rows_of p)))"

definition count_dirs :: "bytes \<Rightarrow> nat \<Rightarrow> nat run" where
  "count_dirs cols rows =
     (case column_open cols of
        None \<Rightarrow> Ret 0
      | Some t \<Rightarrow>
          bind_run (run_filter_map (\<lambda>r. bind_run (column_get t field.IsDir r) (\<lambda>v.
             Ret (if (case v of Some v \<Rightarrow> v | None \<Rightarrow> 0) \<noteq> 0 then Some r else None))) [0 ..< rows])
          (\<lambda>rs. Ret (length rs)))"

definition assemble ::
  "u64 \<Rightarrow> u64 \<Rightarrow> segment_bytes \<Rightarrow> bytes option \<Rightarrow> bytes option \<Rightarrow> bytes option \<Rightarrow> bytes \<Rightarrow> live res run" where
  "assemble number generation parts porder norder eorder alive =
     (case arena_open (sb_names parts) of
        None \<Rightarrow> Ret (Inl (unreadable number (chs ''names'')))
      | Some names \<Rightarrow>
          let rows = na_rows names; want = (rows + 7) div 8
          in if length alive \<noteq> want then
               Ret (Inl (IndexCorrupt (seg_name number @ chs ''alive is '' @ decimal (length alive) @ chs '' bytes for ''
                 @ decimal rows @ chs '' rows, expected '' @ decimal want)))
             else
               case bind_res (check_order number (chs ''porder'') rows (\<lambda>p. map_option po_rows (path_order_open p)) porder)
                      (\<lambda>_. bind_res (check_order number (chs ''norder'') rows (\<lambda>p. map_option no_rows (name_order_open p)) norder)
                      (\<lambda>_. check_order number (chs ''eorder'') rows (\<lambda>p. map_option no_rows (name_order_open p)) eorder)) of
                 Inl e \<Rightarrow> Ret (Inl e)
               | Inr _ \<Rightarrow>
                   bind_run (count_dirs (sb_cols parts) rows) (\<lambda>dirs.
                     Ret (Inr \<lparr>lv_number = number, lv_generation = generation, lv_parts = parts, lv_porder = porder,
                       lv_norder = norder, lv_eorder = eorder, lv_alive = alive, lv_rows = rows, lv_dirs = dirs, lv_deaths = 0\<rparr>)))"

definition owned :: "bytes \<Rightarrow> bytes option" where
  "owned v = (if v = [] then None else Some v)"

definition from_bytes :: "u64 \<Rightarrow> u64 \<Rightarrow> segment_bytes \<Rightarrow> live res run" where
  "from_bytes number generation sb =
     assemble number generation sb (owned (sb_porder sb)) (owned (sb_norder sb)) (owned (sb_eorder sb)) (sb_alive sb)"

text \<open>\<open>Live::bytes\<close>: what \<open>write\<close> would store now.\<close>

definition live_bytes :: "live \<Rightarrow> segment_bytes" where
  "live_bytes lv =
     (lv_parts lv)\<lparr>sb_alive := lv_alive lv,
        sb_porder := (case lv_porder lv of Some p \<Rightarrow> p | None \<Rightarrow> []),
        sb_norder := (case lv_norder lv of Some p \<Rightarrow> p | None \<Rightarrow> []),
        sb_eorder := (case lv_eorder lv of Some p \<Rightarrow> p | None \<Rightarrow> [])\<rparr>"

definition adopt_alive :: "live \<Rightarrow> live \<Rightarrow> live" where
  "adopt_alive lv from = lv\<lparr>lv_alive := lv_alive from, lv_deaths := lv_deaths from\<rparr>"

definition live_view :: "live \<Rightarrow> segment res" where
  "live_view lv =
     (let parts = lv_parts lv; corrupt = unreadable (lv_number lv)
      in bind_res (ok_or (arena_open (sb_names parts)) (corrupt (chs ''names''))) (\<lambda>names.
         bind_res (ok_or (column_open (sb_cols parts)) (corrupt (chs ''cols''))) (\<lambda>cols.
         bind_res (ok_or (dir_open (sb_dirs parts)) (corrupt (chs ''dirs''))) (\<lambda>dirs.
         bind_res (ok_or (tri_open (sb_tri_dict parts) (sb_tri_post parts)) (corrupt (chs ''tgrams''))) (\<lambda>tri.
         bind_res (ok_or (arena_open (sb_fnames parts)) (corrupt (chs ''fnames''))) (\<lambda>folded.
           Inr \<lparr>sg_names = names, sg_folded = folded, sg_cols = cols, sg_dirs = dirs, sg_tri = tri,
             sg_porder = Option.bind (lv_porder lv) path_order_open, sg_norder = Option.bind (lv_norder lv) name_order_open,
             sg_eorder = Option.bind (lv_eorder lv) name_order_open, sg_alive = lv_alive lv\<rparr>))))))"

definition live_ids :: "live \<Rightarrow> id_map res" where
  "live_ids lv = ok_or (id_open (sb_ids (lv_parts lv))) (unreadable (lv_number lv) (chs ''ids''))"

definition live_rows :: "live \<Rightarrow> nat" where
  "live_rows lv = sum_list (map (\<lambda>b. length (filter (bit b) [0 ..< 8])) (lv_alive lv))"

definition dead_rows :: "live \<Rightarrow> nat" where
  "dead_rows lv = lv_rows lv - live_rows lv"

definition live_is_alive :: "live \<Rightarrow> nat \<Rightarrow> bool" where
  "live_is_alive lv row =
     (case nth_opt (lv_alive lv) (row div 8) of Some b \<Rightarrow> b AND push_bit (row mod 8) 1 \<noteq> 0 | None \<Rightarrow> False)"

text \<open>Clearing the bit of a row the bitmap does not cover would panic; \<open>assemble\<close> has checked that it covers all.\<close>

definition kill :: "nat \<Rightarrow> live \<Rightarrow> bool \<times> live" where
  "kill row lv =
     (if lv_rows lv \<le> row then (False, lv)
      else
        let was = live_is_alive lv row
        in (was, lv\<lparr>lv_alive := (lv_alive lv)[row div 8 := lv_alive lv ! (row div 8) AND NOT (push_bit (row mod 8) 1)],
                    lv_deaths := lv_deaths lv + (if was then 1 else 0)\<rparr>))"

section \<open>Looking a path up\<close>

fun find_row ::
  "(u8 \<Rightarrow> bytes \<Rightarrow> nat option) \<Rightarrow> segment \<Rightarrow> (u32 \<Rightarrow> bytes option) \<Rightarrow> u32 \<Rightarrow> bytes \<Rightarrow> nat list \<Rightarrow> nat option run" where
  "find_row memchr seg dirs source path [] = Ret None"
| "find_row memchr seg dirs source path (row # rows) =
     bind_run (is_at memchr seg dirs row source path) (\<lambda>(yes, dirs).
       if yes then Ret (Some row) else find_row memchr seg dirs source path rows)"

definition live_find ::
  "(u8 \<Rightarrow> bytes \<Rightarrow> nat option) \<Rightarrow> live \<Rightarrow> u32 \<Rightarrow> bytes \<Rightarrow> nat option res run" where
  "live_find memchr lv source path =
     (case live_ids lv of
        Inl e \<Rightarrow> Ret (Inl e)
      | Inr ids \<Rightarrow>
          bind_run (id_candidates ids source path) (\<lambda>found.
            let rows = filter (live_is_alive lv) (map unat found)
            in if rows = [] then Ret (Inr None)
               else case live_view lv of
                      Inl e \<Rightarrow> Ret (Inl e)
                    | Inr seg \<Rightarrow> bind_run (find_row memchr seg (\<lambda>_. None) source path rows) (\<lambda>r. Ret (Inr r))))"

section \<open>Every live entry\<close>

definition live_entries :: "(u8 \<Rightarrow> bytes \<Rightarrow> nat option) \<Rightarrow> live \<Rightarrow> entry list res run" where
  "live_entries memchr lv =
     (case live_view lv of
        Inl e \<Rightarrow> Ret (Inl e)
      | Inr seg \<Rightarrow>
          bind_run (run_filter_map (\<lambda>row. if live_is_alive lv row then seg_entry memchr seg row else Ret None)
                      [0 ..< lv_rows lv]) (\<lambda>es. Ret (Inr es)))"

section \<open>Reading what was built\<close>

text \<open>A segment whose tables are those written for \<open>es\<close>; which rows are live is left open.\<close>

definition holds_entries ::
  "(bytes \<Rightarrow> bytes) \<Rightarrow> (bytes \<Rightarrow> bytes) \<Rightarrow> entry list \<Rightarrow> segment \<Rightarrow> bool" where
  "holds_entries fold_bytes fold_case es seg \<longleftrightarrow>
     sg_names seg = arena_of (entry_names es) \<and> sg_folded seg = arena_of (map fold_bytes (entry_names es))
     \<and> sg_cols seg = column_view (entry_rows fold_case es) \<and> sg_dirs seg = dir_view (entry_dirs es)
     \<and> tri_open (fst (tri_files (map fold_bytes (entry_names es)))) (snd (tri_files (map fold_bytes (entry_names es))))
         = Some (sg_tri seg)"

text \<open>The parts a segment of \<open>es\<close> is made of, whatever its live bits.\<close>

definition live_holds ::
  "(u8 \<Rightarrow> bytes \<Rightarrow> nat option) \<Rightarrow> (bytes \<Rightarrow> bytes) \<Rightarrow> (bytes \<Rightarrow> bytes) \<Rightarrow> entry list \<Rightarrow> live \<Rightarrow> bool" where
  "live_holds memchr fold_bytes fold_case es lv \<longleftrightarrow>
     (\<exists>alive. views memchr fold_bytes fold_case es ((lv_parts lv)\<lparr>sb_alive := alive\<rparr>))
     \<and> lv_rows lv = length es \<and> length (lv_alive lv) = (length es + 7) div 8"

lemma entry_row_index: "entry_row fold_case d e ! field_index f = entry_cell fold_case d e f"
  by (cases f) (simp_all add: entry_row_def field_all_def)

text \<open>The entry a row gives back: its identity made from its path, its links at least one.\<close>

definition stored_entry :: "entry \<Rightarrow> entry" where
  "stored_entry e =
     e\<lparr>e_id := path_hash (id_source (e_id e)) (e_path e),
       e_meta := (e_meta e)\<lparr>m_links := max_i64 (m_links (e_meta e)) 1\<rparr>\<rparr>"

definition plain_paths :: "entry list \<Rightarrow> bool" where
  "plain_paths es \<longleftrightarrow> (\<forall>e \<in> set es. \<not> (\<exists>name. e_path e = SLASH # SLASH # name \<and> SLASH \<notin> set name))"

lemma seg_num_of:
  assumes "entries_fit fold_bytes es" "holds_entries fold_bytes fold_case es seg" "i < length es"
  shows "seg_num seg f i = Ret (entry_cell fold_case (dir_number (entry_dirs es) (entry_parent (e_path (es ! i)))) (es ! i) f)"
proof -
  have "column_fits (entry_rows fold_case es)"
    using entry_rows_ok [OF assms(1)] by (simp add: column_rows_ok_def)
  then show ?thesis
    using assms column_get_file [of "entry_rows fold_case es" i f]
    by (simp add: seg_num_def holds_entries_def) (simp add: entry_rows_def entry_row_index)
qed

lemma seg_dir_of:
  assumes "entries_fit fold_bytes es" "holds_entries fold_bytes fold_case es seg" "i < length es"
  shows "seg_dir_id seg i = Ret (dir_number (entry_dirs es) (entry_parent (e_path (es ! i))))"
    "dir_or_empty seg (dir_number (entry_dirs es) (entry_parent (e_path (es ! i)))) = Ret (entry_parent (e_path (es ! i)))"
proof -
  show "seg_dir_id seg i = Ret (dir_number (entry_dirs es) (entry_parent (e_path (es ! i))))"
    using seg_num_of [OF assms] by (simp add: seg_dir_id_def entry_cell_def ucast_up_ucast_id is_up)
  have "entry_parent (e_path (es ! i)) \<in> set (entry_dirs es)"
    using assms(3) by (simp add: entry_dirs_def entry_parents_def)
  moreover have "dirs_fit (entry_dirs es)"
    using assms(1) dirs_small_fit by (simp add: entries_fit_def entry_dirs_def)
  ultimately show "dir_or_empty seg (dir_number (entry_dirs es) (entry_parent (e_path (es ! i)))) = Ret (entry_parent (e_path (es ! i)))"
    using assms(2) dir_number_in entry_dirs_length [OF assms(1)] dir_get_view
    by (simp add: dir_or_empty_def holds_entries_def)
qed

lemma source_of_row:
  assumes "entries_fit fold_bytes es" "holds_entries fold_bytes fold_case es seg" "i < length es"
  shows "source_of seg i = Ret (id_source (e_id (es ! i)))"
  using seg_num_of [OF assms] by (simp add: source_of_def entry_cell_def ucast_up_ucast_id is_up)

lemma name_of_row:
  assumes "memchr_law memchr" "entries_fit fold_bytes es" "holds_entries fold_bytes fold_case es seg"
  shows "arena_get memchr (sg_names seg) i = (if i < length es then Some (entry_name (e_path (es ! i))) else None)"
proof -
  have "names_fit (entry_names es)" "\<forall>n \<in> set (entry_names es). utf8_valid n"
    using assms(2) by (simp_all add: entries_fit_def names_text_def)
  then show ?thesis
    using assms(3) arena_get_of [OF assms(1), of "entry_names es" i]
    by (simp add: holds_entries_def from_utf8_def) (simp add: entry_names_def)
qed

lemma kind_byte [simp]: "kind_from_u8 (ucast (ucast (kind_as_u8 k) :: i64)) = Some k"
  by (cases k) (simp_all add: kind_from_u8_def kind_all_def nth_opt_def ucast_up_ucast_id is_up)

lemma seg_path_of:
  assumes "entries_fit fold_bytes es" "holds_entries fold_bytes fold_case es seg" "i < length es" "plain_paths es"
  shows "seg_path seg i (entry_name (e_path (es ! i))) = Ret (e_path (es ! i))"
proof -
  have "join_path (entry_parent (e_path (es ! i))) (entry_name (e_path (es ! i))) = e_path (es ! i)"
    using assms(3,4) by (intro join_split) (auto simp: plain_paths_def)
  then show ?thesis using seg_dir_of [OF assms(1-3)] by (simp add: seg_path_def)
qed

lemma seg_entry_of:
  assumes "memchr_law memchr" "entries_fit fold_bytes es" "holds_entries fold_bytes fold_case es seg" "i < length es"
    "plain_paths es"
  shows "seg_entry memchr seg i = Ret (Some (stored_entry (es ! i)))"
  using name_of_row [OF assms(1-3), of i] seg_path_of [OF assms(2-5)] source_of_row [OF assms(2-4)] assms(4)
  by (simp add: seg_entry_def seg_hit_def seg_num_of [OF assms(2-4)] entry_cell_def stored_entry_def max_i64_def)

section \<open>Live bits\<close>

lemma and_push_bit: "(b :: u8) AND push_bit k 1 \<noteq> 0 \<longleftrightarrow> bit b k"
proof
  assume "b AND push_bit k 1 \<noteq> 0"
  then obtain n where "bit (b AND push_bit k 1) n" by (metis bit_eqI bit_0_eq bot_apply bot_bool_def)
  then show "bit b k" by (auto simp: bit_simps simp del: push_bit_of_1)
next
  assume "bit b k"
  then have "bit (b AND push_bit k 1) k" by (auto simp: bit_simps dest: bit_imp_le_length simp del: push_bit_of_1)
  then show "b AND push_bit k 1 \<noteq> 0" by auto
qed

lemma live_is_alive_bit:
  "row div 8 < length (lv_alive lv) \<Longrightarrow> live_is_alive lv row \<longleftrightarrow> bit (lv_alive lv ! (row div 8)) (row mod 8)"
  using and_push_bit by (simp add: live_is_alive_def nth_opt_def del: push_bit_of_1)

lemma length_alive_bits [simp]: "length (alive_bits rows) = (rows + 7) div 8"
  by (auto simp: alive_bits_def Let_def)

lemma low_bits: "k < 8 \<Longrightarrow> bit (push_bit k (1 :: u8) - 1) n \<longleftrightarrow> n < k"
  using bit_mask_iff [of k n, where 'a = u8] by (auto simp: mask_eq_exp_minus_1 push_bit_of_1)

lemma add_7_div_8: "n mod 8 \<noteq> 0 \<Longrightarrow> (n + 7) div 8 = Suc (n div 8)"
proof -
  assume r: "n mod 8 \<noteq> 0"
  have "n + 7 = 8 * (n div 8) + (n mod 8 + 7)" by simp
  then have "(n + 7) div 8 = n div 8 + (n mod 8 + 7) div 8" by (metis div_mult_self2 add.commute zero_neq_numeral)
  moreover have "(n mod 8 + 7) div 8 = 1" using r mod_less_divisor [of 8 n] by (intro div_nat_eqI) auto
  ultimately show ?thesis by simp
qed

lemma alive_bits_bit:
  assumes "row div 8 < (rows + 7) div 8"
  shows "bit (alive_bits rows ! (row div 8)) (row mod 8) \<longleftrightarrow> row < rows"
proof -
  let ?n = "(rows + 7) div 8"
  have all: "bit (0xff :: u8) (row mod 8)"
  proof -
    have "row mod 8 \<in> {0, 1, 2, 3, 4, 5, 6, 7}" by auto
    then show ?thesis by (elim insertE) simp_all
  qed
  show ?thesis
  proof (cases "rows mod 8 = 0")
    case True
    then obtain q where "rows = 8 * q" by (auto simp flip: dvd_eq_mod_eq_0)
    then have "row < rows" using assms by (simp add: div_less_iff_less_mult less_mult_imp_div_less mult.commute)
    then show ?thesis using True assms all by (simp add: alive_bits_def)
  next
    case False
    then have n: "?n = rows div 8 + 1"
      using add_7_div_8 by simp
    have bits: "alive_bits rows = replicate (rows div 8) 0xff @ [push_bit (rows mod 8) 1 - 1]"
      using False n by (simp add: alive_bits_def Let_def replicate_append_same [symmetric])
    show ?thesis
    proof (cases "row div 8 < rows div 8")
      case True
      then have "row < rows" using div_le_mono [of rows row 8] by linarith
      then show ?thesis using True all by (simp add: bits nth_append)
    next
      case False
      then have eq: "row div 8 = rows div 8" using assms n by linarith
      then have "row < rows \<longleftrightarrow> row mod 8 < rows mod 8"
        using div_mult_mod_eq [of row 8] div_mult_mod_eq [of rows 8] by linarith
      then show ?thesis using eq low_bits [of "rows mod 8" "row mod 8"] by (simp add: bits nth_append)
    qed
  qed
qed

lemma rows_in_bits: "(row :: nat) < rows \<Longrightarrow> row div 8 < (rows + 7) div 8"
  using div_le_mono [of "row + 8" "rows + 7" 8] by simp

text \<open>Opening what was built.\<close>

lemma order_open_ne:
  "path_order_open [] = None" "name_order_open [] = None"
  by (simp_all add: path_order_open_def name_order_open_def u32_at_def get_range_def)

text \<open>The count of directories is read off the columns.\<close>

lemma length_map_filter_if: "length (List.map_filter (\<lambda>i. if P i then Some i else None) xs) = length (filter P xs)"
  by (induction xs) (simp_all add: List.map_filter_simps)

lemma count_dirs_built:
  assumes "entries_fit fold_bytes es" "views memchr fold_bytes fold_case es sb"
  shows "count_dirs (sb_cols sb) (length es) = Ret (length (filter e_is_dir es))"
proof -
  let ?rs = "entry_rows fold_case es" and ?dir = "\<lambda>i. e_is_dir (es ! i)"
  have fits: "column_fits ?rs" using entry_rows_ok [OF assms(1)] by (simp add: column_rows_ok_def)
  have len: "length ?rs = length es" by (simp add: entry_rows_def)
  have cell: "column_get (column_view ?rs) field.IsDir r = Ret (Some (if ?dir r then 1 else 0))" if "r < length es" for r
    using column_get_file [OF fits] that len by (simp add: entry_rows_def entry_row_index entry_cell_def)
  have "run_filter_map (\<lambda>r. bind_run (column_get (column_view ?rs) field.IsDir r) (\<lambda>v.
        Ret (if (case v of Some v \<Rightarrow> v | None \<Rightarrow> 0) \<noteq> 0 then Some r else None))) [0 ..< length es]
      = Ret (List.map_filter (\<lambda>r. if ?dir r then Some r else None) [0 ..< length es])"
    by (intro run_filter_map_Ret) (simp add: cell)
  moreover have "length (filter ?dir [0 ..< length es]) = length (filter e_is_dir es)"
  proof -
    have "filter e_is_dir es = filter e_is_dir (map ((!) es) [0 ..< length es])" by (simp only: map_nth)
    then show ?thesis by (simp add: filter_map o_def)
  qed
  ultimately show ?thesis
    using assms(2) by (simp add: count_dirs_def views_def length_map_filter_if)
qed

lemma from_bytes_built:
  assumes "memchr_law memchr" "entries_fit fold_bytes es" "build_sorted memchr fold_bytes fold_case es = Ret sb"
  shows "\<exists>lv. from_bytes number generation sb = Ret (Inr lv) \<and> live_holds memchr fold_bytes fold_case es lv
    \<and> lv_alive lv = alive_bits (length es) \<and> lv_deaths lv = 0 \<and> lv_number lv = number \<and> lv_parts lv = sb"
proof -
  have v: "views memchr fold_bytes fold_case es sb" using build_views [OF assms(1,2), of fold_case] assms(3) by auto
  have k: "count_dirs (sb_cols sb) (length es) = Ret (length (filter e_is_dir es))"
    by (rule count_dirs_built [OF assms(2) v])
  obtain po no eo where o: "path_order_open (sb_porder sb) = Some po" "po_rows po = length es"
    "name_order_open (sb_norder sb) = Some no" "no_rows no = length es"
    "name_order_open (sb_eorder sb) = Some eo" "no_rows eo = length es"
    using v by (auto simp: views_def)
  have ne: "sb_porder sb \<noteq> []" "sb_norder sb \<noteq> []" "sb_eorder sb \<noteq> []"
    using o order_open_ne by auto
  have "sb\<lparr>sb_alive := sb_alive sb\<rparr> = sb" by simp
  then have "live_holds memchr fold_bytes fold_case es (lv\<lparr>lv_parts := sb, lv_rows := length es, lv_alive := alive_bits (length es)\<rparr>)" for lv
    using v by (auto simp: live_holds_def intro!: exI [of _ "sb_alive sb"])
  then show ?thesis
    using v k o ne
    by (auto simp: from_bytes_def assemble_def views_def owned_def check_order_def live_holds_def Let_def)
qed

lemma live_view_holds:
  assumes "live_holds memchr fold_bytes fold_case es lv" "entries_fit fold_bytes es"
  shows "\<exists>seg. live_view lv = Inr seg \<and> holds_entries fold_bytes fold_case es seg \<and> sg_alive seg = lv_alive lv"
proof -
  obtain alive where v: "views memchr fold_bytes fold_case es ((lv_parts lv)\<lparr>sb_alive := alive\<rparr>)"
    using assms(1) by (auto simp: live_holds_def)
  have "tri_fits (map fold_bytes (entry_names es))"
    using assms(2) tri_small_fits by (simp add: entries_fit_def)
  then obtain t where "tri_open (fst (tri_files (map fold_bytes (entry_names es)))) (snd (tri_files (map fold_bytes (entry_names es)))) = Some t"
    by (rule tri_files_lookup)
  moreover have "tri_files (map fold_bytes (entry_names es)) = (sb_tri_dict (lv_parts lv), sb_tri_post (lv_parts lv))"
    using v by (simp add: views_def)
  ultimately show ?thesis
    using v by (auto simp: live_view_def views_def holds_entries_def Let_def)
qed

lemma live_entries_of:
  assumes "memchr_law memchr" "entries_fit fold_bytes es" "plain_paths es" "live_holds memchr fold_bytes fold_case es lv"
  shows "live_entries memchr lv = Ret (Inr (map (\<lambda>i. stored_entry (es ! i)) (filter (live_is_alive lv) [0 ..< length es])))"
proof -
  obtain seg where seg: "live_view lv = Inr seg" "holds_entries fold_bytes fold_case es seg"
    using live_view_holds [OF assms(4,2)] by blast
  have "run_filter_map (\<lambda>row. if live_is_alive lv row then seg_entry memchr seg row else Ret None) [0 ..< length es]
      = Ret (List.map_filter (\<lambda>i. if live_is_alive lv i then Some (stored_entry (es ! i)) else None) [0 ..< length es])"
    by (intro run_filter_map_Ret) (simp add: seg_entry_of [OF assms(1,2) seg(2) _ assms(3)])
  moreover have "List.map_filter (\<lambda>i. if live_is_alive lv i then Some (stored_entry (es ! i)) else None) xs
      = map (\<lambda>i. stored_entry (es ! i)) (filter (live_is_alive lv) xs)" for xs
    by (induction xs) (simp_all add: List.map_filter_simps)
  ultimately show ?thesis
    using seg(1) assms(4) by (simp add: live_entries_def live_holds_def)
qed

section \<open>Confirming a candidate\<close>

text \<open>The directories decoded so far are right.\<close>

definition cache_ok :: "segment \<Rightarrow> (u32 \<Rightarrow> bytes option) \<Rightarrow> bool" where
  "cache_ok seg dirs \<longleftrightarrow> (\<forall>d p. dirs d = Some p \<longrightarrow> dir_or_empty seg d = Ret p)"

lemma cache_ok_empty [simp]: "cache_ok seg (\<lambda>_. None)"
  by (simp add: cache_ok_def)

definition same_path :: "entry \<Rightarrow> u32 \<Rightarrow> bytes \<Rightarrow> bool" where
  "same_path e source path \<longleftrightarrow> id_source (e_id e) = source \<and> e_path e = path"

lemma split_path_eq:
  assumes "\<not> (\<exists>name. p = SLASH # SLASH # name \<and> SLASH \<notin> set name)"
    "\<not> (\<exists>name. q = SLASH # SLASH # name \<and> SLASH \<notin> set name)"
  shows "entry_name p = entry_name q \<and> entry_parent p = entry_parent q \<longleftrightarrow> p = q"
  using join_split [OF assms(1)] join_split [OF assms(2)] by metis

lemma is_at_reading_of:
  assumes "memchr_law memchr" "entries_fit fold_bytes es" "holds_entries fold_bytes fold_case es seg" "plain_paths es"
    and "i < length es" "cache_ok seg dirs" "\<not> (\<exists>name. path = SLASH # SLASH # name \<and> SLASH \<notin> set name)"
    and "case rd of Some r \<Rightarrow> reader_ok (entry_names es) r | None \<Rightarrow> True"
  shows "\<exists>dirs' rd'. is_at_reading memchr seg dirs rd i source path = Ret (same_path (es ! i) source path, dirs', rd')
    \<and> cache_ok seg dirs' \<and> (case rd' of Some r \<Rightarrow> reader_ok (entry_names es) r | None \<Rightarrow> rd = None)"
proof -
  let ?e = "es ! i"
  have src: "source_of seg i = Ret (id_source (e_id ?e))" by (rule source_of_row [OF assms(2,3,5)])
  have got: "arena_get memchr (sg_names seg) i = Some (entry_name (e_path ?e))"
    using name_of_row [OF assms(1-3), of i] assms(5) by simp
  have fits: "names_fit (entry_names es)" using assms(2) by (simp add: entries_fit_def names_text_def)
  have arena: "sg_names seg = arena_of (entry_names es)" using assms(3) by (simp add: holds_entries_def)
  obtain same rd' where name: "(case rd of
        Some r \<Rightarrow> if entry_name path \<noteq> [] then (let (n, r) = reader_at memchr (sg_names seg) i r in (n = entry_name path, Some r))
          else (arena_get memchr (sg_names seg) i = Some (entry_name path), rd)
      | None \<Rightarrow> (arena_get memchr (sg_names seg) i = Some (entry_name path), rd)) = (same, rd')"
    by fastforce
  have at: "n = entry_name (e_path ?e) \<and> reader_ok (entry_names es) r'"
    if "reader_ok (entry_names es) r" "reader_at memchr (arena_of (entry_names es)) i r = (n, r')" for r n r'
    using reader_at_of [OF assms(1) fits that] got arena by simp
  have same: "same \<longleftrightarrow> entry_name (e_path ?e) = entry_name path"
    and rd': "case rd' of Some r \<Rightarrow> reader_ok (entry_names es) r | None \<Rightarrow> rd = None"
    using name got assms(8) at unfolding arena
    by (auto split: option.splits if_splits prod.splits)
  have plain: "entry_name (e_path ?e) = entry_name path \<and> entry_parent (e_path ?e) = entry_parent path \<longleftrightarrow> e_path ?e = path"
    using assms(4,5,7) by (intro split_path_eq) (auto simp: plain_paths_def)
  note dir = seg_dir_of [OF assms(2,3,5)]
  let ?d = "dir_number (entry_dirs es) (entry_parent (e_path ?e))"
  have known: "(case dirs ?d of Some p \<Rightarrow> Ret p | None \<Rightarrow> dir_or_empty seg ?d) = Ret (entry_parent (e_path ?e))"
    using assms(6) dir(2) by (auto simp: cache_ok_def split: option.splits)
  have cache: "cache_ok seg (dirs(?d \<mapsto> entry_parent (e_path ?e)))"
    using assms(6) dir(2) by (simp add: cache_ok_def)
  consider "id_source (e_id ?e) \<noteq> source" | "id_source (e_id ?e) = source" "\<not> same" | "id_source (e_id ?e) = source" same
    by blast
  then show ?thesis
  proof cases
    case 1
    then show ?thesis using assms(6,8) by (auto simp: is_at_reading_def src same_path_def split: option.splits)
  next
    case 2
    then have "e_path ?e \<noteq> path" using same by auto
    then show ?thesis
      using 2 assms(6) rd' by (simp add: is_at_reading_def src split_path_entry name same_path_def)
  next
    case 3
    then show ?thesis
      using rd' same plain cache known
      by (auto simp: is_at_reading_def src split_path_entry name same_path_def dir(1))
  qed
qed

lemma is_at_of:
  assumes "memchr_law memchr" "entries_fit fold_bytes es" "holds_entries fold_bytes fold_case es seg" "plain_paths es"
    and "i < length es" "cache_ok seg dirs" "\<not> (\<exists>name. path = SLASH # SLASH # name \<and> SLASH \<notin> set name)"
  shows "\<exists>dirs'. is_at memchr seg dirs i source path = Ret (same_path (es ! i) source path, dirs') \<and> cache_ok seg dirs'"
  using is_at_reading_of [OF assms(1-7), of None source] by (auto simp: is_at_def)

lemma find_row_of:
  assumes "memchr_law memchr" "entries_fit fold_bytes es" "holds_entries fold_bytes fold_case es seg" "plain_paths es"
    and "\<not> (\<exists>name. path = SLASH # SLASH # name \<and> SLASH \<notin> set name)"
  shows "\<forall>i \<in> set rows. i < length es \<Longrightarrow> cache_ok seg dirs \<Longrightarrow>
    find_row memchr seg dirs source path rows = Ret (find (\<lambda>i. same_path (es ! i) source path) rows)"
proof (induction rows arbitrary: dirs)
  case (Cons i rows)
  obtain dirs' where "is_at memchr seg dirs i source path = Ret (same_path (es ! i) source path, dirs')" "cache_ok seg dirs'"
    using is_at_of [OF assms(1-4) _ Cons.prems(2) assms(5), of i source] Cons.prems(1) by auto
  then show ?case using Cons by simp
qed simp

text \<open>The candidates of a key, as row numbers.\<close>

lemma key_rows:
  assumes "length rows < 2 ^ 32"
  shows "map snd (filter (\<lambda>p. fst p = want) (sort (id_table rows)))
    = map as_u32 (filter (\<lambda>i. key_of (fst (rows ! i)) (snd (rows ! i)) = want) [0 ..< length rows])"
proof -
  let ?w = "id_table rows" and ?is = "filter (\<lambda>i. key_of (fst (rows ! i)) (snd (rows ! i)) = want) [0 ..< length rows]"
  have w: "?w = map (\<lambda>i. (key_of (fst (rows ! i)) (snd (rows ! i)), as_u32 i)) [0 ..< length rows]"
    unfolding id_table_eq by (rule nth_equalityI) (simp_all add: nth_enumerate_eq split: prod.splits)
  have "mset (map snd (filter (\<lambda>p. fst p = want) (sort ?w))) = mset (map snd (filter (\<lambda>p. fst p = want) ?w))"
    by (simp only: mset_map mset_filter mset_sort)
  also have "map snd (filter (\<lambda>p. fst p = want) ?w) = map as_u32 ?is" unfolding w by (simp add: filter_map o_def)
  finally have ms: "mset (map snd (filter (\<lambda>p. fst p = want) (sort ?w))) = mset (map as_u32 ?is)" .
  have "sorted (map snd (filter (\<lambda>p. fst p = want) ps))" if "sorted ps" for ps :: "(u32 \<times> u32) list"
    using that by (induction ps) (auto simp: less_eq_prod_def)
  then have srt: "sorted (map snd (filter (\<lambda>p. fst p = want) (sort ?w)))" by simp
  have "sorted (map as_u32 ?is)"
    unfolding sorted_map
    by (rule sorted_wrt_mono_rel [of _ "(<)"]) (use assms in \<open>auto simp: word_le_nat_alt unat_u32 sorted_wrt_filter\<close>)
  then show ?thesis using properties_for_sort [OF ms srt] properties_for_sort [of "map as_u32 ?is"] by metis
qed

text \<open>\<open>find\<close>: the first live row that is the entry at the path.\<close>

lemma live_find_of:
  assumes "memchr_law memchr" "entries_fit fold_bytes es" "live_holds memchr fold_bytes fold_case es lv" "plain_paths es"
    and "\<not> (\<exists>name. path = SLASH # SLASH # name \<and> SLASH \<notin> set name)"
  shows "live_find memchr lv source path
    = Ret (Inr (find (\<lambda>i. live_is_alive lv i \<and> same_path (es ! i) source path) [0 ..< length es]))"
proof -
  let ?ids = "id_view (sort (id_table (entry_ids es)))" and ?P = "\<lambda>i. live_is_alive lv i \<and> same_path (es ! i) source path"
  have n: "length es < 2 ^ 32" using assms(2) by (simp add: entries_fit_def)
  have ids: "live_ids lv = Inr ?ids" using assms(3) by (auto simp: live_ids_def live_holds_def views_def)
  let ?is = "filter (\<lambda>i. key_of (fst (entry_ids es ! i)) (snd (entry_ids es ! i)) = key_of source path) [0 ..< length es]"
  have "id_candidates ?ids source path = Ret (map as_u32 ?is)"
    using rows_for_view [of "sort (id_table (entry_ids es))" "key_of source path"] key_rows [of "entry_ids es" "key_of source path"] n
    by (simp add: id_candidates_def key_of_def)
  moreover have "map unat (map as_u32 ?is) = ?is"
    using n by (intro nth_equalityI) (auto simp: unat_u32 dest: nth_mem [of _ ?is])
  ultimately have cand: "id_candidates ?ids source path = Ret (map as_u32 ?is)" "map unat (map as_u32 ?is) = ?is" by simp_all
  have key: "?P i \<Longrightarrow> i \<in> set [0 ..< length es] \<Longrightarrow> i \<in> set ?is" for i
    by (simp add: same_path_def entry_ids_def)
  have all: "find (\<lambda>i. same_path (es ! i) source path) (filter (live_is_alive lv) ?is) = find ?P [0 ..< length es]"
  proof -
    have "find Q (filter A (filter B xs)) = find (\<lambda>x. A x \<and> Q x) xs"
      if "\<And>x. A x \<and> Q x \<Longrightarrow> x \<in> set xs \<Longrightarrow> B x" for A B Q and xs :: "nat list"
      using that by (induction xs) auto
    from this [of "live_is_alive lv" "\<lambda>i. same_path (es ! i) source path" "[0 ..< length es]"
        "\<lambda>i. key_of (fst (entry_ids es ! i)) (snd (entry_ids es ! i)) = key_of source path"]
    show ?thesis using key by simp
  qed
  obtain seg where seg: "live_view lv = Inr seg" "holds_entries fold_bytes fold_case es seg"
    using live_view_holds [OF assms(3,2)] by blast
  have "find_row memchr seg (\<lambda>_. None) source path (filter (live_is_alive lv) ?is) = Ret (find ?P [0 ..< length es])"
    using find_row_of [OF assms(1,2) seg(2) assms(4,5), of "filter (live_is_alive lv) ?is" "\<lambda>_. None"] all by simp
  moreover have "filter (live_is_alive lv) ?is = [] \<Longrightarrow> find ?P [0 ..< length es] = None"
    using all by (metis find.simps(1))
  ultimately show ?thesis
    unfolding live_find_def ids sum.case cand(1) bind_run.simps cand(2) Let_def by (auto simp: seg(1))
qed

section \<open>Killing a row\<close>

lemma clear_bit:
  assumes "k < 8"
  shows "length (filter (bit (b :: u8)) [0 ..< 8])
    = length (filter (bit (b AND NOT (push_bit k 1))) [0 ..< 8]) + (if bit b k then 1 else 0)"
proof -
  have bits: "bit (b AND NOT (push_bit k 1)) n \<longleftrightarrow> bit b n \<and> n \<noteq> k" if "n < 8" for n
    using that assms by (auto simp: bit_simps simp del: push_bit_of_1)
  have "length (filter (bit b) xs) = length (filter (\<lambda>n. bit b n \<and> n \<noteq> k) xs) + (if bit b k \<and> k \<in> set xs then 1 else 0)"
    if "distinct xs" for xs
    using that by (induction xs) auto
  from this [of "[0 ..< 8]"] have "length (filter (bit b) [0 ..< 8])
      = length (filter (\<lambda>n. bit b n \<and> n \<noteq> k) [0 ..< 8]) + (if bit b k then 1 else 0)"
    using assms by simp
  moreover have "filter (\<lambda>n. bit b n \<and> n \<noteq> k) [0 ..< 8] = filter (bit (b AND NOT (push_bit k 1))) [0 ..< 8]"
    by (rule filter_cong) (use bits in auto)
  ultimately show ?thesis by simp
qed

lemma sum_list_update_nat:
  "i < length xs \<Longrightarrow> sum_list (xs[i := x]) + xs ! i = sum_list xs + (x :: nat)"
  by (induction xs arbitrary: i) (auto split: nat.splits)

text \<open>Exactly one bit, and the two counters by one when it was set.\<close>

lemma kill_of:
  assumes "row < lv_rows lv" "length (lv_alive lv) = (lv_rows lv + 7) div 8" "kill row lv = (was, lv')"
  shows "was = live_is_alive lv row" "live_is_alive lv' i \<longleftrightarrow> live_is_alive lv i \<and> i \<noteq> row"
    "live_rows lv = live_rows lv' + (if was then 1 else 0)"
    "lv_deaths lv' = lv_deaths lv + (if was then 1 else 0)"
    "lv_rows lv' = lv_rows lv" "length (lv_alive lv') = length (lv_alive lv)" "lv_parts lv' = lv_parts lv"
    "lv_number lv' = lv_number lv"
proof -
  have k: "row div 8 < length (lv_alive lv)" using rows_in_bits [OF assms(1)] assms(2) by simp
  let ?b = "lv_alive lv ! (row div 8)" and ?m = "NOT (push_bit (row mod 8) 1) :: u8"
  have e: "was = live_is_alive lv row" "lv' = lv\<lparr>lv_alive := (lv_alive lv)[row div 8 := ?b AND ?m],
      lv_deaths := lv_deaths lv + (if was then 1 else 0)\<rparr>"
    using assms(1,3) by (auto simp: kill_def Let_def)
  then show "was = live_is_alive lv row" "lv_deaths lv' = lv_deaths lv + (if was then 1 else 0)"
    "lv_rows lv' = lv_rows lv" "length (lv_alive lv') = length (lv_alive lv)" "lv_parts lv' = lv_parts lv"
    "lv_number lv' = lv_number lv" by simp_all
  have was: "was \<longleftrightarrow> bit ?b (row mod 8)" using e(1) live_is_alive_bit [OF k] by simp
  show "live_is_alive lv' i \<longleftrightarrow> live_is_alive lv i \<and> i \<noteq> row"
  proof (cases "i div 8 < length (lv_alive lv)")
    case True
    have "i mod 8 = row mod 8 \<and> i div 8 = row div 8 \<longleftrightarrow> i = row"
      by (metis div_mult_mod_eq)
    then show ?thesis
      using True k live_is_alive_bit [of i lv] live_is_alive_bit [of i lv'] e(2)
      by (auto simp: nth_list_update bit_simps simp del: push_bit_of_1)
  next
    case False
    then show ?thesis using e(2) by (simp add: live_is_alive_def nth_opt_def)
  qed
  let ?pop = "\<lambda>b :: u8. length (filter (bit b) [0 ..< 8])"
  have "map ?pop (lv_alive lv') = (map ?pop (lv_alive lv))[row div 8 := ?pop (?b AND ?m)]"
    using e(2) by (simp add: map_update)
  then have "live_rows lv' + ?pop ?b = live_rows lv + ?pop (?b AND ?m)"
    using sum_list_update_nat [of "row div 8" "map ?pop (lv_alive lv)" "?pop (?b AND ?m)"] k
    by (simp add: live_rows_def)
  then show "live_rows lv = live_rows lv' + (if was then 1 else 0)"
    using clear_bit [of "row mod 8" ?b] was by simp
qed

lemma kill_out: "lv_rows lv \<le> row \<Longrightarrow> kill row lv = (False, lv)"
  by (simp add: kill_def)

section \<open>Properties\<close>

text \<open>
  C11: a segment gives back what it was built from.  For any entries in any order, the files
  \<open>build_sorted\<close> makes assemble into a segment, no read of it panics, and its live entries are
  the entries, in the order they were given: every path put together again from its
  directory's number and its name, every measure from its column.  What changes is what
  cannot be stored: an identity is the one made from the path, and a link count is at least
  one.
\<close>

theorem segment_roundtrip:
  assumes "memchr_law memchr" "entries_fit fold_bytes es" "plain_paths es"
  shows "\<exists>sb lv. build_sorted memchr fold_bytes fold_case es = Ret sb \<and> from_bytes number generation sb = Ret (Inr lv)
    \<and> live_entries memchr lv = Ret (Inr (map stored_entry es))"
proof -
  obtain sb where sb: "build_sorted memchr fold_bytes fold_case es = Ret sb"
    using build_views [OF assms(1,2), of fold_case] by blast
  obtain lv where lv: "from_bytes number generation sb = Ret (Inr lv)" "live_holds memchr fold_bytes fold_case es lv"
    "lv_alive lv = alive_bits (length es)"
    using from_bytes_built [OF assms(1,2) sb] by blast
  have "live_is_alive lv i" if "i < length es" for i
    using that rows_in_bits [OF that] live_is_alive_bit [of i lv] alive_bits_bit [of i "length es"] lv(3) by simp
  then have "filter (live_is_alive lv) [0 ..< length es] = [0 ..< length es]" by simp
  then have "live_entries memchr lv = Ret (Inr (map (\<lambda>i. stored_entry (es ! i)) [0 ..< length es]))"
    using live_entries_of [OF assms lv(2)] by simp
  moreover have "map (\<lambda>i. stored_entry (es ! i)) [0 ..< length es] = map stored_entry es"
    by (rule nth_equalityI) simp_all
  ultimately show ?thesis using sb lv(1) by auto
qed

definition sample_entry :: "bytes \<Rightarrow> i64 \<Rightarrow> entry" where
  "sample_entry path mtime =
     \<lparr>e_id = path_hash 0 path, e_path = path, e_is_dir = False, e_meta = meta_unknown\<lparr>m_mtime := mtime\<rparr>\<rparr>"

definition sample_entries :: "entry list" where
  "sample_entries = [sample_entry (str ''/a/main.rs'') 20, sample_entry (str ''/a-b/x'') 10]"

lemma sample_fit: "entries_fit (map ascii_lower) sample_entries" "plain_paths sample_entries"
proof -
  have n: "entry_names sample_entries = [str ''main.rs'', str ''x'']"
    "entry_parents sample_entries = [str ''/a'', str ''/a-b'']"
    by (code_simp, code_simp)
  have f: "map (map ascii_lower) [str ''main.rs'', str ''x''] = [str ''main.rs'', str ''x'']" by code_simp
  show "entries_fit (map ascii_lower) sample_entries"
    unfolding entries_fit_def n f
    by (simp add: names_text_def names_fit_def terminated_def utf8_valid_ascii dirs_small_def tri_small_def sample_entries_def)
  show "plain_paths sample_entries"
    by (simp add: plain_paths_def sample_entries_def sample_entry_def)
qed

theorem segment_roundtrip_witness:
  "\<exists>sb lv. build_sorted first_index (map ascii_lower) (map ascii_lower) sample_entries = Ret sb
    \<and> from_bytes 1 1 sb = Ret (Inr lv) \<and> live_entries first_index lv = Ret (Inr (map stored_entry sample_entries))"
  by (rule segment_roundtrip [OF first_index_law sample_fit])

text \<open>
  C12: a lookup by path is never fooled.  Among all live rows, \<open>find\<close> answers the first whose
  source and path are the ones asked for, and nothing when there is none: the table holds
  half a digest of each path, and colliding candidates are told apart by the row itself.
\<close>

theorem live_find_exact:
  assumes "memchr_law memchr" "entries_fit fold_bytes es" "plain_paths es" "live_holds memchr fold_bytes fold_case es lv"
    and "\<not> (\<exists>name. path = SLASH # SLASH # name \<and> SLASH \<notin> set name)"
  shows "live_find memchr lv source path
    = Ret (Inr (find (\<lambda>i. live_is_alive lv i \<and> id_source (e_id (es ! i)) = source \<and> e_path (es ! i) = path) [0 ..< length es]))"
  using live_find_of [OF assms(1,2,4,3,5), of source] by (simp add: same_path_def)

theorem live_find_exact_witness:
  "\<exists>sb lv. build_sorted first_index (map ascii_lower) (map ascii_lower) sample_entries = Ret sb
    \<and> from_bytes 1 1 sb = Ret (Inr lv) \<and> live_find first_index lv 0 (str ''/a-b/x'') = Ret (Inr (Some 1))"
proof -
  obtain sb where sb: "build_sorted first_index (map ascii_lower) (map ascii_lower) sample_entries = Ret sb"
    using build_views [OF first_index_law sample_fit(1), of "map ascii_lower"] by blast
  obtain lv where lv: "from_bytes 1 1 sb = Ret (Inr lv)" "live_holds first_index (map ascii_lower) (map ascii_lower) sample_entries lv"
    "lv_alive lv = alive_bits (length sample_entries)"
    using from_bytes_built [OF first_index_law sample_fit(1) sb] by blast
  have alive: "live_is_alive lv i" if "i < length sample_entries" for i
    using that rows_in_bits [OF that] live_is_alive_bit [of i lv] alive_bits_bit [of i "length sample_entries"] lv(3) by simp
  have rows: "[0 ..< length sample_entries] = [0, 1]" by (simp add: sample_entries_def upt_rec)
  have "live_find first_index lv 0 (str ''/a-b/x'') = Ret (Inr (Some 1))"
    using live_find_exact [OF first_index_law sample_fit lv(2), of "str ''/a-b/x''" 0] alive [of 1]
    unfolding rows by (simp add: sample_entries_def sample_entry_def path_hash_def)
  then show ?thesis using sb lv(1) by blast
qed

text \<open>
  What the format asks of the files that are read again on their own.  A path order is the
  number of rows and four bytes a row; a name order has a bit a row after that, the first of
  them set; the bitmap of live rows is a bit a row.
\<close>

definition path_part_ok :: "nat \<Rightarrow> bytes option \<Rightarrow> bool" where
  "path_part_ok n part \<longleftrightarrow> (\<forall>p. part = Some p \<longrightarrow> u32_at p 0 = Some (as_u32 n) \<and> length p = 4 + 4 * n)"

definition name_part_ok :: "nat \<Rightarrow> bytes option \<Rightarrow> bool" where
  "name_part_ok n part \<longleftrightarrow> (\<forall>p. part = Some p \<longrightarrow> u32_at p 0 = Some (as_u32 n)
     \<and> length p = 4 + 4 * n + (n + 7) div 8 \<and> (0 < n \<longrightarrow> p ! (4 + 4 * n) AND 1 \<noteq> 0))"

lemma path_part_rows:
  assumes "n < 2 ^ 32"
  shows "path_part_ok n (Some p) \<longleftrightarrow> map_option po_rows (path_order_open p) = Some n"
  using assms by (cases "u32_at p 0") (auto simp: path_part_ok_def path_order_open_def unat_u32 split: if_splits)

lemma name_part_rows:
  assumes "n < 2 ^ 32"
  shows "name_part_ok n (Some p) \<longleftrightarrow> map_option no_rows (name_order_open p) = Some n"
proof (cases "u32_at p 0")
  case (Some w)
  show ?thesis
  proof (cases "unat w = n \<and> length p = 4 + 4 * n + (n + 7) div 8")
    case True
    then have w: "w = as_u32 n" "unat w = n" by auto
    have "drop (4 + 4 * n) p = p ! (4 + 4 * n) # drop (Suc (4 + 4 * n)) p" if "0 < n"
      using True that by (intro Cons_nth_drop_Suc [symmetric]) simp
    then show ?thesis
      using True w Some by (cases "n = 0") (simp_all add: name_part_ok_def name_order_open_def Let_def mult.commute)
  next
    case False
    then have "\<not> name_part_ok n (Some p)" using Some assms by (auto simp: name_part_ok_def unat_u32)
    moreover have "map_option no_rows (name_order_open p) \<noteq> Some n"
      using False Some by (auto simp: name_order_open_def Let_def mult.commute split: if_splits)
    ultimately show ?thesis by blast
  qed
qed (simp add: name_part_ok_def name_order_open_def)

lemma check_order_built:
  assumes "\<And>p. file_ok (Some p) \<longleftrightarrow> rows_of p = Some n" "file_ok None"
  shows "check_order number ext n rows_of part
    = (if file_ok part then Inr () else Inl (wrong_order number ext n (rows_of (the part))))"
  using assms by (cases part) (simp_all add: check_order_def)

text \<open>
  C16: damage to the files read again on their own is found, and nothing else is refused.  For
  the files \<open>build_sorted\<close> makes of any entries, taken up with any bytes in the place of the
  bitmap and of each order file, or without an order file: when the bitmap has a bit a row and
  every order file present has the length and the number of rows of its format, assembling
  answers the segment, with its rows, its directories and no death counted; in every other case
  it answers the error that says the index is damaged.  It never panics.
\<close>

theorem damage_refused:
  assumes "memchr_law memchr" "entries_fit fold_bytes es" "build_sorted memchr fold_bytes fold_case es = Ret sb"
  shows "if length alive = (length es + 7) div 8 \<and> path_part_ok (length es) porder
        \<and> name_part_ok (length es) norder \<and> name_part_ok (length es) eorder
      then \<exists>lv. assemble number generation sb porder norder eorder alive = Ret (Inr lv)
        \<and> lv_alive lv = alive \<and> lv_porder lv = porder \<and> lv_norder lv = norder \<and> lv_eorder lv = eorder
        \<and> lv_rows lv = length es \<and> lv_dirs lv = length (filter e_is_dir es) \<and> lv_deaths lv = 0
      else \<exists>detail. assemble number generation sb porder norder eorder alive = Ret (Inl (IndexCorrupt detail))"
proof -
  have v: "views memchr fold_bytes fold_case es sb" using build_views [OF assms(1,2), of fold_case] assms(3) by auto
  have n: "length es < 2 ^ 32" using assms(2) by (simp add: entries_fit_def)
  have names: "arena_open (sb_names sb) = Some (arena_of (entry_names es))" "na_rows (arena_of (entry_names es)) = length es"
    using v by (simp_all add: views_def arena_of_def entry_names_def)
  note files = check_order_built [of "path_part_ok (length es)", OF path_part_rows [OF n]]
    check_order_built [of "name_part_ok (length es)", OF name_part_rows [OF n]]
  have "path_part_ok (length es) None" "name_part_ok (length es) None" by (simp_all add: path_part_ok_def name_part_ok_def)
  then show ?thesis
    by (simp add: assemble_def names Let_def files count_dirs_built [OF assms(2) v] wrong_order_def)
qed

text \<open>A segment of two rows: a bitmap of one byte is taken, one of two bytes or an order file cut short is not.\<close>

theorem damage_refused_witness:
  "\<exists>sb. build_sorted first_index (map ascii_lower) (map ascii_lower) sample_entries = Ret sb
    \<and> (\<exists>lv. assemble 1 1 sb None None None [3] = Ret (Inr lv) \<and> lv_rows lv = 2)
    \<and> (\<exists>detail. assemble 1 1 sb None None None [3, 0] = Ret (Inl (IndexCorrupt detail)))
    \<and> (\<exists>detail. assemble 1 1 sb (Some [2, 0, 0, 0, 0]) None None [3] = Ret (Inl (IndexCorrupt detail)))"
proof -
  obtain sb where sb: "build_sorted first_index (map ascii_lower) (map ascii_lower) sample_entries = Ret sb"
    using build_views [OF first_index_law sample_fit(1), of "map ascii_lower"] by blast
  have n: "length sample_entries = 2" by (simp add: sample_entries_def)
  note r = damage_refused [OF first_index_law sample_fit(1) sb, unfolded n, of _ _ None None 1 1]
  have "\<exists>lv. assemble 1 1 sb None None None [3] = Ret (Inr lv) \<and> lv_rows lv = 2"
    using r [of "[3]" None] by (auto simp: path_part_ok_def name_part_ok_def)
  moreover have "\<exists>detail. assemble 1 1 sb None None None [3, 0] = Ret (Inl (IndexCorrupt detail))"
    using r [of "[3, 0]" None] by simp
  moreover have "\<exists>detail. assemble 1 1 sb (Some [2, 0, 0, 0, 0]) None None [3] = Ret (Inl (IndexCorrupt detail))"
    using r [of "[3]" "Some [2, 0, 0, 0, 0]"] by (simp add: path_part_ok_def)
  ultimately show ?thesis using sb by blast
qed

end
