(* ===== verification/Retire.thy ===== *)
theory Retire
  imports Live
begin

text \<open>
  Replacing rows in bulk: \<open>Live::kill_paths\<close> and \<open>Live::spare_paths\<close> of
  \<open>crates/scour-index-native/src/segment.rs\<close>.

  Both take paths sorted by half-digest and find their rows in the identity table in one of
  two ways: a search a path when the paths are few, a merge of the two sorted lists when they
  are many.  The lemmas show that the two ways find the same rows, that exactly the rows at
  the paths die, and that a staged entry is spared exactly when the first live row at its
  path already says what it says.
\<close>

section \<open>The two strategies\<close>

lemma bind_run_cong [fundef_cong]:
  "m = m' \<Longrightarrow> (\<And>x. m' = Ret x \<Longrightarrow> f x = g x) \<Longrightarrow> bind_run m f = bind_run m' g"
  by (cases m') simp_all

text \<open>\<open>saturating_mul\<close> on a 64-bit machine, and when probing is the cheaper way.\<close>

definition saturating_mul :: "nat \<Rightarrow> nat \<Rightarrow> nat" where
  "saturating_mul a b = min (a * b) (2 ^ 64 - 1)"

definition probes_cheaper :: "nat \<Rightarrow> nat \<Rightarrow> bool" where
  "probes_cheaper paths rows \<longleftrightarrow> saturating_mul paths (max (ilog2 rows) 1) < rows"

text \<open>The end of the run of table rows with this hash that starts at \<open>i\<close>.\<close>

function table_run :: "id_map \<Rightarrow> u32 \<Rightarrow> nat \<Rightarrow> nat run" where
  "table_run ids h i =
     (if i < im_len ids
      then bind_run (id_at ids i) (\<lambda>(g, _). if g = h then table_run ids h (i + 1) else Ret i)
      else Ret i)"
  by pat_completeness auto
termination
  by (relation "measure (\<lambda>(ids, h, i). im_len ids - i)") auto

declare table_run.simps [simp del]

fun keys_run :: "u32 list \<Rightarrow> u32 \<Rightarrow> nat \<Rightarrow> nat" where
  "keys_run keys h j = j + length (takeWhile (\<lambda>k. k = h) (drop j keys))"

text \<open>The rows of \<open>ks\<close> in the table, each with every key of the run that is not passed over.\<close>

fun cross :: "id_map \<Rightarrow> (nat \<Rightarrow> 'w option run) \<Rightarrow> nat list \<Rightarrow> nat list \<Rightarrow> (nat \<times> 'w) list run" where
  "cross ids pick [] ws = Ret []"
| "cross ids pick (k # ks) ws =
     bind_run (id_at ids k) (\<lambda>(_, row).
       bind_run (run_filter_map pick ws) (\<lambda>found.
         bind_run (cross ids pick ks ws) (\<lambda>rest. Ret (map (Pair (unat row)) found @ rest))))"

lemma table_run_le: "table_run ids h i = Ret k \<Longrightarrow> i \<le> k"
proof (induction ids h i arbitrary: k rule: table_run.induct)
  case (1 ids h i)
  show ?case
  proof (cases "i < im_len ids")
    case True
    then show ?thesis
      using 1 table_run.simps [of ids h i] by (cases "id_at ids i") (fastforce split: if_splits prod.splits)+
  qed (use 1 table_run.simps [of ids h i] in simp)
qed

function merge_pairs :: "id_map \<Rightarrow> u32 list \<Rightarrow> (nat \<Rightarrow> 'w option run) \<Rightarrow> nat \<Rightarrow> nat \<Rightarrow> (nat \<times> 'w) list run" where
  "merge_pairs ids keys pick i j =
     (if i < im_len ids \<and> j < length keys then
        bind_run (id_at ids i) (\<lambda>(h, _).
          if h < keys ! j then merge_pairs ids keys pick (i + 1) j
          else if keys ! j < h then merge_pairs ids keys pick i (j + 1)
          else
            bind_run (table_run ids h i) (\<lambda>i2.
              let j2 = keys_run keys h j
              in bind_run (cross ids pick [i ..< i2] [j ..< j2]) (\<lambda>found.
                   bind_run (merge_pairs ids keys pick i2 j2) (\<lambda>rest. Ret (found @ rest)))))
      else Ret [])"
  by pat_completeness auto
termination
proof (relation "measure (\<lambda>(ids, keys, pick, i, j). (im_len ids - i) + (length keys - j))", goal_cases)
  case (4 ids keys pick i j x h r i2 j2 found)
  then have "h = keys ! j" "j < length keys" "i \<le> i2"
    using table_run_le by auto
  then have "j < j2"
    using 4 by (auto simp: Cons_nth_drop_Suc [symmetric])
  then show ?case using \<open>i \<le> i2\<close> \<open>j < length keys\<close> by auto
qed auto

declare merge_pairs.simps [simp del]

text \<open>A search for each key.\<close>

fun probe_pairs :: "id_map \<Rightarrow> u32 list \<Rightarrow> (nat \<Rightarrow> 'w option run) \<Rightarrow> nat \<Rightarrow> (nat \<times> 'w) list run" where
  "probe_pairs ids [] pick w = Ret []"
| "probe_pairs ids (key # keys) pick w =
     bind_run (bind_run (pick w) (\<lambda>p. case p of
           None \<Rightarrow> Ret []
         | Some at \<Rightarrow> bind_run (rows_for ids key) (\<lambda>rows. Ret (map (\<lambda>row. (unat row, at)) rows)))) (\<lambda>found.
       bind_run (probe_pairs ids keys pick (w + 1)) (\<lambda>rest. Ret (found @ rest)))"

section \<open>Killing\<close>

type_synonym wanted_path = "u32 \<times> u32 \<times> bytes"

text \<open>The pairs that are live and not a collision, as their rows.\<close>

fun confirm ::
  "(u8 \<Rightarrow> bytes \<Rightarrow> nat option) \<Rightarrow> live \<Rightarrow> segment \<Rightarrow> wanted_path list \<Rightarrow> (u32 \<Rightarrow> bytes option) \<Rightarrow> (nat \<times> nat) list
    \<Rightarrow> nat list run" where
  "confirm memchr lv seg wanted dirs [] = Ret []"
| "confirm memchr lv seg wanted dirs ((row, w) # pairs) =
     (if \<not> live_is_alive lv row then confirm memchr lv seg wanted dirs pairs
      else
        let (_, source, path) = wanted ! w
        in bind_run (is_at memchr seg dirs row source path) (\<lambda>(yes, dirs).
             bind_run (confirm memchr lv seg wanted dirs pairs) (\<lambda>rows. Ret (if yes then row # rows else rows))))"

fun kill_all :: "nat list \<Rightarrow> live \<Rightarrow> u64 \<Rightarrow> u64 \<times> live" where
  "kill_all [] lv gone = (gone, lv)"
| "kill_all (row # rows) lv gone =
     (let (was, lv) = kill row lv in kill_all rows lv (if was then gone + 1 else gone))"

definition kill_paths ::
  "(u8 \<Rightarrow> bytes \<Rightarrow> nat option) \<Rightarrow> wanted_path list \<Rightarrow> live \<Rightarrow> (u64 \<times> live) res run" where
  "kill_paths memchr wanted lv =
     (if wanted = [] \<or> lv_rows lv = 0 then Ret (Inr (0, lv))
      else case live_ids lv of
        Inl e \<Rightarrow> Ret (Inl e)
      | Inr ids \<Rightarrow>
          bind_run (if im_len ids \<noteq> 0 \<and> probes_cheaper (length wanted) (im_len ids)
                    then probe_pairs ids (map fst wanted) (\<lambda>w. Ret (Some w)) 0
                    else merge_pairs ids (map fst wanted) (\<lambda>w. Ret (Some w)) 0 0) (\<lambda>pairs.
            if pairs = [] then Ret (Inr (kill_all [] lv 0))
            else case live_view lv of
                   Inl e \<Rightarrow> Ret (Inl e)
                 | Inr seg \<Rightarrow>
                     bind_run (confirm memchr lv seg wanted (\<lambda>_. None) pairs) (\<lambda>victims.
                       Ret (Inr (kill_all victims lv 0)))))"

section \<open>Sparing\<close>

text \<open>One candidate: a row, and the staged entry it might be.\<close>

fun spare_each ::
  "(u8 \<Rightarrow> bytes \<Rightarrow> nat option) \<Rightarrow> live \<Rightarrow> segment \<Rightarrow> entry list \<Rightarrow> (u32 \<Rightarrow> bytes option) \<Rightarrow> reader option
    \<Rightarrow> (nat \<times> u32) list \<Rightarrow> bool list \<Rightarrow> (u32 \<times> nat) list \<Rightarrow> (bool list \<times> (u32 \<times> nat) list) run" where
  "spare_each memchr lv seg staged dirs names [] decided out = Ret (decided, out)"
| "spare_each memchr lv seg staged dirs names ((row, at) # pairs) decided out =
     (case (nth_opt staged (unat at), nth_opt decided (unat at)) of
        (Some e, Some settled) \<Rightarrow>
          if settled \<or> \<not> live_is_alive lv row then spare_each memchr lv seg staged dirs names pairs decided out
          else
            bind_run (is_at_reading memchr seg dirs names row (id_source (e_id e)) (e_path e)) (\<lambda>(yes, dirs, names).
              if \<not> yes then spare_each memchr lv seg staged dirs names pairs decided out
              else
                let decided = decided[unat at := True]
                in bind_run (same_meta seg row (e_meta e) (e_is_dir e)) (\<lambda>same.
                     spare_each memchr lv seg staged dirs names pairs decided (if same then out @ [(at, row)] else out)))
      | _ \<Rightarrow> Panic)"

text \<open>The entry of a key, unless another segment has settled it.\<close>

definition undecided :: "(u32 \<times> u32) list \<Rightarrow> bool list \<Rightarrow> nat \<Rightarrow> u32 option run" where
  "undecided keys decided w =
     (case nth_opt decided (unat (snd (keys ! w))) of
        None \<Rightarrow> Panic
      | Some settled \<Rightarrow> Ret (if settled then None else Some (snd (keys ! w))))"

definition spare_paths ::
  "(u8 \<Rightarrow> bytes \<Rightarrow> nat option) \<Rightarrow> (u32 \<times> u32) list \<Rightarrow> entry list \<Rightarrow> live \<Rightarrow> bool list \<Rightarrow> (u32 \<times> nat) list
    \<Rightarrow> (bool list \<times> (u32 \<times> nat) list) res run" where
  "spare_paths memchr keys staged lv decided out =
     (if keys = [] \<or> lv_rows lv = 0 then Ret (Inr (decided, out))
      else case live_ids lv of
        Inl e \<Rightarrow> Ret (Inl e)
      | Inr ids \<Rightarrow>
          if im_len ids = 0 then Ret (Inr (decided, out))
          else
            bind_run (if probes_cheaper (length keys) (im_len ids)
                      then probe_pairs ids (map fst keys) (undecided keys decided) 0
                      else merge_pairs ids (map fst keys) (undecided keys decided) 0 0) (\<lambda>pairs.
              if pairs = [] then Ret (Inr (decided, out))
              else case live_view lv of
                     Inl e \<Rightarrow> Ret (Inl e)
                   | Inr seg \<Rightarrow>
                       bind_run (spare_each memchr lv seg staged (\<lambda>_. None) (Some reader_default) (sort pairs) decided out)
                         (\<lambda>r. Ret (Inr r))))"

section \<open>Both strategies find the same pairs\<close>

lemma id_at_view: "i < length ps \<Longrightarrow> id_at (id_view ps) i = Ret (ps ! i)"
  by (simp add: id_at_def id_view_at)

lemma im_len_view [simp]: "im_len (id_view ps) = length ps"
  by (simp add: id_view_def)

lemma table_run_view:
  "i \<le> length ps \<Longrightarrow> table_run (id_view ps) h i = Ret (i + length (takeWhile (\<lambda>p. fst p = h) (drop i ps)))"
proof (induction "length ps - i" arbitrary: i)
  case 0
  then show ?case by (simp add: table_run.simps)
next
  case (Suc n)
  then have i: "i < length ps" by simp
  then show ?case
    using Suc.hyps(1) [of "i + 1"] Suc.hyps(2)
    by (subst table_run.simps) (auto simp: id_at_view Cons_nth_drop_Suc [symmetric] split: prod.splits)
qed

lemma cross_view:
  assumes "\<forall>w \<in> set ws. pick w = Ret (g w)"
  shows "\<forall>k \<in> set ks. k < length ps \<Longrightarrow> \<exists>found. cross (id_view ps) pick ks ws = Ret found
    \<and> set found = {(unat (snd (ps ! k)), a) | k w a. k \<in> set ks \<and> w \<in> set ws \<and> g w = Some a}"
proof (induction ks)
  case (Cons k ks)
  then obtain found where f: "cross (id_view ps) pick ks ws = Ret found"
    "set found = {(unat (snd (ps ! k)), a) | k w a. k \<in> set ks \<and> w \<in> set ws \<and> g w = Some a}" by auto
  have "run_filter_map pick ws = Ret (List.map_filter g ws)"
    using assms by (intro run_filter_map_Ret) simp
  moreover have "set (List.map_filter g ws) = {a. \<exists>w \<in> set ws. g w = Some a}"
    by (induction ws) (auto simp: List.map_filter_simps split: option.splits)
  ultimately show ?case
    using Cons.prems f by (auto simp: id_at_view case_prod_beta)
qed simp

text \<open>The pairs to confirm: each row of the table from \<open>i\<close> on with each key from \<open>j\<close> on that has its hash.\<close>

definition matches :: "(u32 \<times> u32) list \<Rightarrow> u32 list \<Rightarrow> (nat \<Rightarrow> 'w option) \<Rightarrow> nat \<Rightarrow> nat \<Rightarrow> (nat \<times> 'w) set" where
  "matches ps keys g i j =
     {(unat (snd (ps ! k)), a) | k w a. i \<le> k \<and> k < length ps \<and> j \<le> w \<and> w < length keys
        \<and> fst (ps ! k) = keys ! w \<and> g w = Some a}"

lemma sorted_fst: "sorted (ps :: (u32 \<times> u32) list) \<Longrightarrow> i \<le> k \<Longrightarrow> k < length ps \<Longrightarrow> fst (ps ! i) \<le> fst (ps ! k)"
  using sorted_nth_mono [of ps i k] by (auto simp: less_eq_prod_def)

lemma run_end:
  assumes "sorted (map f xs)" "i < length xs" "e = i + length (takeWhile (\<lambda>x. f x = f (xs ! i)) (drop i xs))"
  shows "i < e" "e \<le> length xs" "i \<le> k \<Longrightarrow> k < e \<Longrightarrow> f (xs ! k) = f (xs ! i)"
    "e \<le> k \<Longrightarrow> k < length xs \<Longrightarrow> f (xs ! i) < (f (xs ! k) :: 'b :: linorder)"
proof -
  let ?n = "length (takeWhile (\<lambda>x. f x = f (xs ! i)) (drop i xs))"
  show "i < e" using assms(2,3) by (simp add: Cons_nth_drop_Suc [symmetric])
  have n: "?n \<le> length xs - i" using length_takeWhile_le [of _ "drop i xs"] by simp
  then show "e \<le> length xs" using assms(2,3) by simp
  have run: "f (xs ! (i + m)) = f (xs ! i)" if "m < ?n" for m
    using set_takeWhileD [OF nth_mem [OF that]] takeWhile_nth [OF that] assms(2) by simp
  show "i \<le> k \<Longrightarrow> k < e \<Longrightarrow> f (xs ! k) = f (xs ! i)"
    using run [of "k - i"] assms(3) by simp
  assume k: "e \<le> k" "k < length xs"
  then have "?n < length (drop i xs)" using assms(3) by simp
  then have "f (drop i xs ! ?n) \<noteq> f (xs ! i)" by (rule nth_length_takeWhile)
  then have ne: "f (xs ! e) \<noteq> f (xs ! i)" using assms(2,3) by simp
  have mono: "f (xs ! a) \<le> f (xs ! b)" if "a \<le> b" "b < length xs" for a b
    using sorted_nth_mono [OF assms(1), of a b] that by simp
  have "f (xs ! i) \<le> f (xs ! e)" using mono [of i e] k assms(3) by simp
  moreover have "f (xs ! e) \<le> f (xs ! k)" using mono k by simp
  ultimately show "f (xs ! i) < f (xs ! k)" using ne by auto
qed

lemma matches_row:
  assumes "\<And>w. j \<le> w \<Longrightarrow> w < length keys \<Longrightarrow> fst (ps ! i) \<noteq> keys ! w"
  shows "matches ps keys g i j = matches ps keys g (i + 1) j"
proof -
  have "i \<le> k \<longleftrightarrow> i + 1 \<le> k" if "j \<le> w" "w < length keys" "fst (ps ! k) = keys ! w" for k w
    using assms [OF that(1,2)] that(3) by (cases "k = i") auto
  then show ?thesis unfolding matches_def by blast
qed

lemma matches_key:
  assumes "\<And>k. i \<le> k \<Longrightarrow> k < length ps \<Longrightarrow> fst (ps ! k) \<noteq> keys ! j"
  shows "matches ps keys g i j = matches ps keys g i (j + 1)"
proof -
  have "j \<le> w \<longleftrightarrow> j + 1 \<le> w" if "i \<le> k" "k < length ps" "fst (ps ! k) = keys ! w" for k w
    using assms [OF that(1,2)] that(3) by (cases "w = j") auto
  then show ?thesis unfolding matches_def by blast
qed

lemma merge_pairs_view:
  assumes "sorted ps" "sorted keys" "\<forall>w < length keys. pick w = Ret (g w)"
  shows "\<exists>pairs. merge_pairs (id_view ps) keys pick i j = Ret pairs \<and> set pairs = matches ps keys g i j"
proof (induction "(length ps - i) + (length keys - j)" arbitrary: i j rule: less_induct)
  case less
  show ?case
  proof (cases "i < length ps \<and> j < length keys")
    case False
    then show ?thesis by (subst merge_pairs.simps) (auto simp: matches_def)
  next
    case True
    note keys = sorted_nth_mono [OF assms(2)]
    consider "fst (ps ! i) < keys ! j" | "keys ! j < fst (ps ! i)" | "fst (ps ! i) = keys ! j" by fastforce
    then show ?thesis
    proof cases
      case 1
      have "matches ps keys g i j = matches ps keys g (i + 1) j"
        using 1 keys [of j] by (intro matches_row) fastforce
      then show ?thesis
        using 1 True less [of "i + 1" j] by (subst merge_pairs.simps) (auto simp: id_at_view split: prod.splits)
    next
      case 2
      have "matches ps keys g i j = matches ps keys g i (j + 1)"
        using 2 sorted_fst [OF assms(1), of i] by (intro matches_key) fastforce
      then show ?thesis
        using 2 True less [of i "j + 1"] by (subst merge_pairs.simps) (auto simp: id_at_view split: prod.splits)
    next
      case 3
      define i2 where "i2 = i + length (takeWhile (\<lambda>p. fst p = fst (ps ! i)) (drop i ps))"
      define j2 where "j2 = j + length (takeWhile (\<lambda>k. k = keys ! j) (drop j keys))"
      have "sorted (map fst ps)" using assms(1) by (auto simp: sorted_iff_nth_mono sorted_fst)
      note ri = run_end [OF this conjunct1 [OF True] i2_def]
      note rj = run_end [of "\<lambda>x. x", simplified, OF assms(2) conjunct2 [OF True] j2_def]
      have run: "table_run (id_view ps) (fst (ps ! i)) i = Ret i2"
        using True table_run_view [of i ps] by (simp add: i2_def)
      obtain found where f: "cross (id_view ps) pick [i ..< i2] [j ..< j2] = Ret found"
        "set found = {(unat (snd (ps ! k)), a) | k w a. k \<in> set [i ..< i2] \<and> w \<in> set [j ..< j2] \<and> g w = Some a}"
        using cross_view [of "[j ..< j2]" pick g "[i ..< i2]" ps] ri(2) rj(2) assms(3) by auto
      obtain rest where r: "merge_pairs (id_view ps) keys pick i2 j2 = Ret rest" "set rest = matches ps keys g i2 j2"
        using less [of i2 j2] ri(1,2) rj(1,2) by (meson add_less_le_mono diff_less_mono2 diff_le_mono2 less_imp_le True that order_less_le_trans)
      have "matches ps keys g i j = set found \<union> matches ps keys g i2 j2"
      proof (intro set_eqI iffI)
        fix x assume "x \<in> matches ps keys g i j"
        then obtain k w a where x: "x = (unat (snd (ps ! k)), a)" "i \<le> k" "k < length ps" "j \<le> w" "w < length keys"
          "fst (ps ! k) = keys ! w" "g w = Some a" by (auto simp: matches_def)
        have "k < i2 \<longleftrightarrow> w < j2"
          using x ri(3) [of k] ri(4) [of k] rj(3) [of w] rj(4) [of w] 3 by fastforce
        then show "x \<in> set found \<union> matches ps keys g i2 j2"
          using x by (cases "k < i2") (auto simp: f(2) matches_def)
      next
        fix x assume "x \<in> set found \<union> matches ps keys g i2 j2"
        then consider "x \<in> set found" | "x \<in> matches ps keys g i2 j2" by blast
        then show "x \<in> matches ps keys g i j"
        proof cases
          case 1
          then obtain k w a where x: "x = (unat (snd (ps ! k)), a)" "i \<le> k" "k < i2" "j \<le> w" "w < j2" "g w = Some a"
            by (auto simp: f(2))
          then have "fst (ps ! k) = keys ! w" "k < length ps" "w < length keys"
            using ri(2) ri(3) [of k] rj(2) rj(3) [of w] 3 by auto
          then show ?thesis using x unfolding matches_def by blast
        next
          case 2
          have "i2 \<le> k \<Longrightarrow> i \<le> k" "j2 \<le> w \<Longrightarrow> j \<le> w" for k w using ri(1) rj(1) by linarith+
          then show ?thesis using 2 unfolding matches_def by blast
        qed
      qed
      moreover have "merge_pairs (id_view ps) keys pick i j = Ret (found @ rest)"
        using True 3 run f(1) r(1) by (subst merge_pairs.simps) (simp add: id_at_view j2_def case_prod_beta)
      ultimately show ?thesis using r(2) by simp
    qed
  qed
qed

lemma probe_pairs_view:
  assumes "sorted ps"
  shows "\<forall>w < length keys. pick (n + w) = Ret (g (n + w)) \<Longrightarrow> \<exists>pairs. probe_pairs (id_view ps) keys pick n = Ret pairs
    \<and> set pairs = {(unat (snd (ps ! k)), a) | k w a. k < length ps \<and> w < length keys \<and> fst (ps ! k) = keys ! w \<and> g (n + w) = Some a}"
proof (induction keys arbitrary: n)
  case (Cons key keys)
  obtain rest where r: "probe_pairs (id_view ps) keys pick (n + 1) = Ret rest"
    "set rest = {(unat (snd (ps ! k)), a) | k w a. k < length ps \<and> w < length keys \<and> fst (ps ! k) = keys ! w \<and> g (n + 1 + w) = Some a}"
    using Cons.IH [of "n + 1"] Cons.prems by fastforce
  have p: "pick n = Ret (g n)" using Cons.prems by auto
  have rows: "rows_for (id_view ps) key = Ret (map snd (filter (\<lambda>p. fst p = key) ps))" by (rule rows_for_view [OF assms])
  have here: "set (map (\<lambda>row. (unat row, a)) (map snd (filter (\<lambda>p. fst p = key) ps))) = {(unat (snd (ps ! k)), a) | k. k < length ps \<and> fst (ps ! k) = key}" for a :: 'w
    by (auto simp: in_set_conv_nth) (metis fst_conv snd_conv)+
  have all: "{(unat (snd (ps ! k)), a) | k w a. k < length ps \<and> w < length (key # keys) \<and> fst (ps ! k) = (key # keys) ! w \<and> g (n + w) = Some a}
      = {(unat (snd (ps ! k)), a) | k a. k < length ps \<and> fst (ps ! k) = key \<and> g n = Some a} \<union> set rest" (is "?L = ?R")
  proof (intro set_eqI iffI)
    fix x assume "x \<in> ?L"
    then obtain k w a where "x = (unat (snd (ps ! k)), a)" "k < length ps" "w < length (key # keys)"
      "fst (ps ! k) = (key # keys) ! w" "g (n + w) = Some a" by auto
    then show "x \<in> ?R" unfolding r(2) by (cases w) auto
  next
    fix x assume "x \<in> ?R"
    then consider (here) k a where "x = (unat (snd (ps ! k)), a)" "k < length ps" "fst (ps ! k) = key" "g n = Some a"
      | (there) k w a where "x = (unat (snd (ps ! k)), a)" "k < length ps" "w < length keys" "fst (ps ! k) = keys ! w" "g (n + 1 + w) = Some a"
      unfolding r(2) by auto
    then show "x \<in> ?L"
    proof cases
      case here
      then have "fst (ps ! k) = (key # keys) ! 0" "g (n + 0) = Some a" "0 < length (key # keys)" by simp_all
      with here(1,2) show ?thesis by blast
    next
      case there
      then have "fst (ps ! k) = (key # keys) ! Suc w" "g (n + Suc w) = Some a" "Suc w < length (key # keys)" by simp_all
      with there(1,2) show ?thesis by blast
    qed
  qed
  show ?case
  proof (cases "g n")
    case None
    then show ?thesis unfolding all using r(1) p by simp
  next
    case (Some a)
    then have "probe_pairs (id_view ps) (key # keys) pick n
        = Ret (map (\<lambda>row. (unat row, a)) (map snd (filter (\<lambda>p. fst p = key) ps)) @ rest)"
      using r(1) p rows by simp
    moreover have "{(unat (snd (ps ! k)), b) | k b. k < length ps \<and> fst (ps ! k) = key \<and> g n = Some b}
        = set (map (\<lambda>row. (unat row, a)) (map snd (filter (\<lambda>p. fst p = key) ps)))"
      unfolding here using Some by auto
    ultimately show ?thesis unfolding all by (simp del: set_map)
  qed
qed simp

text \<open>Whichever way is taken, the pairs are those of the rows with a key's hash.\<close>

lemma pairs_found:
  assumes "sorted ps" "sorted keys" "\<forall>w < length keys. pick w = Ret (g w)"
  shows "\<exists>pairs. (if b then probe_pairs (id_view ps) keys pick 0 else merge_pairs (id_view ps) keys pick 0 0) = Ret pairs
    \<and> set pairs = matches ps keys g 0 0"
  using merge_pairs_view [OF assms, of 0 0] probe_pairs_view [OF assms(1), of keys pick 0 g] assms(3)
  by (cases b) (simp_all add: matches_def)

text \<open>The table of a segment, whatever bits are set.\<close>

lemma live_ids_of:
  "live_holds memchr fold_bytes fold_case es lv \<Longrightarrow> live_ids lv = Inr (id_view (sort (id_table (entry_ids es))))"
  by (auto simp: live_ids_def live_holds_def views_def)

lemma set_id_table:
  "set (id_table (entry_ids es)) = {(key_of (id_source (e_id (es ! i))) (e_path (es ! i)), as_u32 i) | i. i < length es}"
proof -
  have "id_table (entry_ids es) = map (\<lambda>i. (key_of (id_source (e_id (es ! i))) (e_path (es ! i)), as_u32 i)) [0 ..< length es]"
    unfolding id_table_eq by (rule nth_equalityI) (simp_all add: nth_enumerate_eq entry_ids_def)
  then show ?thesis by auto
qed

lemma table_matches:
  assumes "length es < 2 ^ 32"
  shows "matches (sort (id_table (entry_ids es))) keys g 0 0 =
    {(i, a) | i w a. i < length es \<and> w < length keys
       \<and> key_of (id_source (e_id (es ! i))) (e_path (es ! i)) = keys ! w \<and> g w = Some a}"
proof -
  let ?ps = "sort (id_table (entry_ids es))" and ?key = "\<lambda>i. key_of (id_source (e_id (es ! i))) (e_path (es ! i))"
  have rows: "(\<exists>k < length ?ps. unat (snd (?ps ! k)) = i \<and> fst (?ps ! k) = h) \<longleftrightarrow> i < length es \<and> ?key i = h" for i h
  proof -
    have "(\<exists>k < length ?ps. unat (snd (?ps ! k)) = i \<and> fst (?ps ! k) = h) \<longleftrightarrow> (\<exists>p \<in> set ?ps. unat (snd p) = i \<and> fst p = h)"
      by (metis in_set_conv_nth)
    also have "\<dots> \<longleftrightarrow> (\<exists>j < length es. unat (as_u32 j) = i \<and> ?key j = h)"
      unfolding set_sort set_id_table by auto
    also have "\<dots> \<longleftrightarrow> i < length es \<and> ?key i = h"
      using unat_u32 assms by (metis (no_types, lifting) order_less_trans)
    finally show ?thesis .
  qed
  have "matches ?ps keys g 0 0 = {(i, a) | i w a. (\<exists>k < length ?ps. unat (snd (?ps ! k)) = i \<and> fst (?ps ! k) = keys ! w)
      \<and> w < length keys \<and> g w = Some a}"
    unfolding matches_def by auto
  then show ?thesis unfolding rows by auto
qed

section \<open>What dies\<close>

lemma ex_index: "(\<exists>w < length xs. P (xs ! w)) \<longleftrightarrow> (\<exists>x \<in> set xs. P x)"
  by (metis in_set_conv_nth)

abbreviation bare_root_name :: "bytes \<Rightarrow> bool" where
  "bare_root_name p \<equiv> \<exists>name. p = SLASH # SLASH # name \<and> SLASH \<notin> set name"

lemma confirm_of:
  assumes "memchr_law memchr" "entries_fit fold_bytes es" "holds_entries fold_bytes fold_case es seg" "plain_paths es"
    and "\<forall>(_, _, p) \<in> set wanted. \<not> bare_root_name p"
  shows "\<forall>(i, w) \<in> set pairs. i < length es \<and> w < length wanted \<Longrightarrow> cache_ok seg dirs \<Longrightarrow>
    confirm memchr lv seg wanted dirs pairs = Ret (map fst (filter (\<lambda>(i, w). live_is_alive lv i
      \<and> same_path (es ! i) (fst (snd (wanted ! w))) (snd (snd (wanted ! w)))) pairs))"
proof (induction pairs arbitrary: dirs)
  case (Cons pair pairs)
  obtain i w where p: "pair = (i, w)" "i < length es" "w < length wanted" using Cons.prems(1) by (cases pair) auto
  obtain k source path where w: "wanted ! w = (k, source, path)" using prod_cases3 by blast
  then have "\<not> bare_root_name path" using assms(5) p(3) nth_mem by fastforce
  then obtain dirs' where d: "is_at memchr seg dirs i source path = Ret (same_path (es ! i) source path, dirs')" "cache_ok seg dirs'"
    using is_at_of [OF assms(1-4) p(2) Cons.prems(2)] by blast
  have "\<forall>(i, w) \<in> set pairs. i < length es \<and> w < length wanted" using Cons.prems(1) by simp
  then show ?case using Cons.IH Cons.prems(2) d by (simp add: p(1) w)
qed simp

lemma kill_all_of:
  assumes "kill_all rows lv gone = (gone', lv')"
    and "\<forall>i \<in> set rows. i < lv_rows lv" "length (lv_alive lv) = (lv_rows lv + 7) div 8"
  shows "live_is_alive lv' i \<longleftrightarrow> live_is_alive lv i \<and> i \<notin> set rows"
    "live_rows lv' \<le> live_rows lv" "gone' = gone + of_nat (live_rows lv - live_rows lv')"
    "lv_deaths lv' = lv_deaths lv + of_nat (live_rows lv - live_rows lv')"
    "lv_rows lv' = lv_rows lv" "length (lv_alive lv') = length (lv_alive lv)" "lv_parts lv' = lv_parts lv"
proof -
  have "(live_is_alive lv' i \<longleftrightarrow> live_is_alive lv i \<and> i \<notin> set rows) \<and> live_rows lv' \<le> live_rows lv
    \<and> gone' = gone + of_nat (live_rows lv - live_rows lv') \<and> lv_deaths lv' = lv_deaths lv + of_nat (live_rows lv - live_rows lv')
    \<and> lv_rows lv' = lv_rows lv \<and> length (lv_alive lv') = length (lv_alive lv) \<and> lv_parts lv' = lv_parts lv"
    using assms
  proof (induction rows arbitrary: lv gone)
    case (Cons row rows)
    obtain was lv1 where k: "kill row lv = (was, lv1)" by fastforce
    have row: "row < lv_rows lv" using Cons.prems(2) by simp
    note one = kill_of [OF row Cons.prems(3) k]
    have step: "kill_all rows lv1 (if was then gone + 1 else gone) = (gone', lv')"
      using Cons.prems(1) k by simp
    have "\<forall>i \<in> set rows. i < lv_rows lv1" "length (lv_alive lv1) = (lv_rows lv1 + 7) div 8"
      using Cons.prems one(5,6) by simp_all
    note later = Cons.IH [OF step this]
    have "of_nat (live_rows lv - live_rows lv') = (if was then 1 else 0) + (of_nat (live_rows lv1 - live_rows lv') :: u64)"
      using later one(3) by (cases was) (simp_all add: Suc_diff_le)
    then show ?case using later one by (cases was) (auto simp: add.assoc)
  qed simp
  then show "live_is_alive lv' i \<longleftrightarrow> live_is_alive lv i \<and> i \<notin> set rows"
    "live_rows lv' \<le> live_rows lv" "gone' = gone + of_nat (live_rows lv - live_rows lv')"
    "lv_deaths lv' = lv_deaths lv + of_nat (live_rows lv - live_rows lv')"
    "lv_rows lv' = lv_rows lv" "length (lv_alive lv') = length (lv_alive lv)" "lv_parts lv' = lv_parts lv"
    by blast+
qed

text \<open>The list a caller hands over: keyed, sorted by the keys, each path one that splits and joins.\<close>

definition wanted_ok :: "wanted_path list \<Rightarrow> bool" where
  "wanted_ok wanted \<longleftrightarrow> sorted (map fst wanted)
     \<and> (\<forall>(key, source, path) \<in> set wanted. key = key_of source path \<and> \<not> bare_root_name path)"

lemma kill_paths_of:
  assumes "memchr_law memchr" "entries_fit fold_bytes es" "live_holds memchr fold_bytes fold_case es lv" "plain_paths es"
    "wanted_ok wanted"
  shows "\<exists>gone lv'. kill_paths memchr wanted lv = Ret (Inr (gone, lv')) \<and> live_holds memchr fold_bytes fold_case es lv'
    \<and> (\<forall>i < length es. live_is_alive lv' i \<longleftrightarrow> live_is_alive lv i
         \<and> \<not> (\<exists>(_, source, path) \<in> set wanted. same_path (es ! i) source path))
    \<and> live_rows lv' \<le> live_rows lv \<and> gone = of_nat (live_rows lv - live_rows lv')
    \<and> lv_deaths lv' = lv_deaths lv + gone"
proof (cases "wanted = [] \<or> lv_rows lv = 0")
  case True
  then show ?thesis using assms(3) by (auto simp: kill_paths_def live_holds_def)
next
  case False
  let ?ps = "sort (id_table (entry_ids es))" and ?keys = "map fst wanted"
  have n: "length es < 2 ^ 32" using assms(2) by (simp add: entries_fit_def)
  have rows: "lv_rows lv = length es" "length (lv_alive lv) = (length es + 7) div 8"
    using assms(3) by (simp_all add: live_holds_def)
  have "matches ?ps ?keys Some 0 0 = {(i, w). i < length es \<and> w < length wanted
       \<and> key_of (id_source (e_id (es ! i))) (e_path (es ! i)) = fst (wanted ! w)}"
    unfolding table_matches [OF n] by auto
  then obtain pairs where pairs: "(if im_len (id_view ?ps) \<noteq> 0 \<and> probes_cheaper (length wanted) (im_len (id_view ?ps))
      then probe_pairs (id_view ?ps) ?keys (\<lambda>w. Ret (Some w)) 0 else merge_pairs (id_view ?ps) ?keys (\<lambda>w. Ret (Some w)) 0 0) = Ret pairs"
    "set pairs = {(i, w). i < length es \<and> w < length wanted
       \<and> key_of (id_source (e_id (es ! i))) (e_path (es ! i)) = fst (wanted ! w)}"
    using pairs_found [of ?ps ?keys "\<lambda>w. Ret (Some w)" Some
        "im_len (id_view ?ps) \<noteq> 0 \<and> probes_cheaper (length wanted) (im_len (id_view ?ps))"] assms(5)
    by (auto simp: wanted_ok_def)
  obtain seg where seg: "live_view lv = Inr seg" "holds_entries fold_bytes fold_case es seg"
    using live_view_holds [OF assms(3,2)] by blast
  let ?hit = "\<lambda>(i, w). live_is_alive lv i \<and> same_path (es ! i) (fst (snd (wanted ! w))) (snd (snd (wanted ! w)))"
  let ?victims = "map fst (filter ?hit pairs)"
  have plain: "\<forall>(_, _, p) \<in> set wanted. \<not> bare_root_name p" using assms(5) by (auto simp: wanted_ok_def)
  have "confirm memchr lv seg wanted (\<lambda>_. None) pairs = Ret ?victims"
    using confirm_of [OF assms(1,2) seg(2) assms(4) plain, of pairs] pairs(2) by simp
  moreover obtain gone lv' where k: "kill_all ?victims lv 0 = (gone, lv')" by fastforce
  ultimately have run: "kill_paths memchr wanted lv = Ret (Inr (gone, lv'))"
    using False pairs(1) seg(1) by (auto simp: kill_paths_def live_ids_of [OF assms(3)])
  have "\<forall>i \<in> set ?victims. i < lv_rows lv" using pairs(2) rows(1) by auto
  note killed = kill_all_of [OF k this]
  have who: "i \<in> set ?victims \<longleftrightarrow> live_is_alive lv i \<and> (\<exists>(_, source, path) \<in> set wanted. same_path (es ! i) source path)"
    if "i < length es" for i
  proof -
    have "i \<in> set ?victims \<longleftrightarrow> live_is_alive lv i \<and> (\<exists>w < length wanted.
        key_of (id_source (e_id (es ! i))) (e_path (es ! i)) = fst (wanted ! w)
        \<and> same_path (es ! i) (fst (snd (wanted ! w))) (snd (snd (wanted ! w))))"
    proof -
      have "i \<in> set ?victims \<longleftrightarrow> (\<exists>w. (i, w) \<in> set pairs \<and> ?hit (i, w))" by force
      then show ?thesis unfolding pairs(2) using that by auto
    qed
    also have "\<dots> \<longleftrightarrow> live_is_alive lv i \<and> (\<exists>x \<in> set wanted.
        key_of (id_source (e_id (es ! i))) (e_path (es ! i)) = fst x \<and> same_path (es ! i) (fst (snd x)) (snd (snd x)))"
      unfolding ex_index [of wanted "\<lambda>x. key_of (id_source (e_id (es ! i))) (e_path (es ! i)) = fst x
        \<and> same_path (es ! i) (fst (snd x)) (snd (snd x))"] by (rule refl)
    also have "\<dots> \<longleftrightarrow> live_is_alive lv i \<and> (\<exists>x \<in> set wanted. same_path (es ! i) (fst (snd x)) (snd (snd x)))"
    proof -
      have "key_of (id_source (e_id (es ! i))) (e_path (es ! i)) = fst x"
        if "x \<in> set wanted" "same_path (es ! i) (fst (snd x)) (snd (snd x))" for x
        using assms(5) that by (auto simp: wanted_ok_def same_path_def)
      then show ?thesis by blast
    qed
    finally show ?thesis unfolding case_prod_beta .
  qed
  have "live_holds memchr fold_bytes fold_case es lv'"
    using killed(5,6,7) rows assms(3) by (simp add: live_holds_def)
  then show ?thesis using run killed(1-4) rows who by auto
qed


section \<open>What is spared\<close>

text \<open>The metadata a staged entry is compared by.\<close>

definition meta_same :: "entry \<Rightarrow> meta \<Rightarrow> bool \<Rightarrow> bool" where
  "meta_same e m is_dir \<longleftrightarrow>
     m_size (e_meta e) = m_size m \<and> m_mtime (e_meta e) = m_mtime m \<and> m_ctime (e_meta e) = m_ctime m
     \<and> m_mode (e_meta e) = m_mode m \<and> m_uid (e_meta e) = m_uid m \<and> m_gid (e_meta e) = m_gid m \<and> e_is_dir e = is_dir"

lemma same_meta_of:
  assumes "entries_fit fold_bytes es" "holds_entries fold_bytes fold_case es seg" "i < length es"
  shows "same_meta seg i m is_dir = Ret (meta_same (es ! i) m is_dir)"
  by (simp add: same_meta_def seg_num_of [OF assms] entry_cell_def meta_same_def)

text \<open>The row an entry is settled by: the first live one at its path.\<close>

definition settling :: "entry list \<Rightarrow> live \<Rightarrow> entry \<Rightarrow> nat \<Rightarrow> bool" where
  "settling es lv e i \<longleftrightarrow> live_is_alive lv i \<and> same_path (es ! i) (id_source (e_id e)) (e_path e)"

text \<open>What a walk over some candidates makes of the flags, and the pairs it puts out.\<close>

definition spared :: "entry list \<Rightarrow> live \<Rightarrow> entry list \<Rightarrow> bool list \<Rightarrow> (nat \<times> u32) list \<Rightarrow> bool list \<Rightarrow> (u32 \<times> nat) list \<Rightarrow> bool" where
  "spared es lv staged decided pairs decided' out \<longleftrightarrow>
     length decided' = length staged
     \<and> (\<forall>a < length staged. decided' ! a \<longleftrightarrow> decided ! a
          \<or> (\<exists>p \<in> set pairs. unat (snd p) = a \<and> settling es lv (staged ! a) (fst p)))
     \<and> (\<forall>b i. (b, i) \<in> set out \<longleftrightarrow> unat b < length staged \<and> \<not> decided ! unat b
          \<and> find (\<lambda>p. snd p = b \<and> settling es lv (staged ! unat b) (fst p)) pairs = Some (i, b)
          \<and> meta_same (es ! i) (e_meta (staged ! unat b)) (e_is_dir (staged ! unat b)))"

lemma spared_skip:
  assumes "spared es lv staged decided pairs decided' out" "decided ! unat a \<or> \<not> settling es lv (staged ! unat a) i"
  shows "spared es lv staged decided ((i, a) # pairs) decided' out"
  using assms unfolding spared_def by auto

lemma spared_settle:
  assumes "spared es lv staged (decided[unat a := True]) pairs decided' out" "length decided = length staged"
    and "unat a < length staged" "\<not> decided ! unat a" "settling es lv (staged ! unat a) i"
  shows "spared es lv staged decided ((i, a) # pairs) decided'
    ((if meta_same (es ! i) (e_meta (staged ! unat a)) (e_is_dir (staged ! unat a)) then [(a, i)] else []) @ out)"
proof -
  let ?o = "(if meta_same (es ! i) (e_meta (staged ! unat a)) (e_is_dir (staged ! unat a)) then [(a, i)] else []) @ out"
  have d: "k < length staged \<Longrightarrow> decided[unat a := True] ! k \<longleftrightarrow> decided ! k \<or> k = unat a" for k
    using assms(2) by (cases "k = unat a") simp_all
  note s = assms(1) [unfolded spared_def]
  have two: "(b, j) \<in> set ?o \<longleftrightarrow> unat b < length staged \<and> \<not> decided ! unat b
      \<and> find (\<lambda>p. snd p = b \<and> settling es lv (staged ! unat b) (fst p)) ((i, a) # pairs) = Some (j, b)
      \<and> meta_same (es ! j) (e_meta (staged ! unat b)) (e_is_dir (staged ! unat b))" for b j
  proof (cases "b = a")
    case True
    have "(b, j) \<notin> set out" using s d [of "unat b"] True assms(3) by simp
    then show ?thesis using True assms(3-5) by auto
  next
    case ne: False
    then have "unat b \<noteq> unat a" using word_unat_eq_iff by metis
    then show ?thesis using ne s d [of "unat b"] by auto
  qed
  have "decided' ! k \<longleftrightarrow> decided ! k \<or> (\<exists>p \<in> set ((i, a) # pairs). unat (snd p) = k \<and> settling es lv (staged ! k) (fst p))"
    if "k < length staged" for k
    using s d [OF that] that assms(5) by auto
  then show ?thesis unfolding spared_def using s two by blast
qed

lemma spare_each_of:
  assumes "memchr_law memchr" "entries_fit fold_bytes es" "holds_entries fold_bytes fold_case es seg" "plain_paths es"
    and "\<forall>e \<in> set staged. \<not> bare_root_name (e_path e)"
  shows "\<forall>p \<in> set pairs. fst p < length es \<and> unat (snd p) < length staged \<Longrightarrow> length decided = length staged \<Longrightarrow>
    cache_ok seg dirs \<Longrightarrow> reader_ok (entry_names es) rd \<Longrightarrow>
    \<exists>decided' out'. spare_each memchr lv seg staged dirs (Some rd) pairs decided out = Ret (decided', out @ out')
      \<and> spared es lv staged decided pairs decided' out'"
proof (induction pairs arbitrary: dirs rd decided out)
  case Nil
  then show ?case by (auto simp: spared_def)
next
  case (Cons pair pairs)
  obtain i a where p: "pair = (i, a)" "i < length es" "unat a < length staged" using Cons.prems(1) by (cases pair) auto
  let ?e = "staged ! unat a"
  have later: "\<forall>p \<in> set pairs. fst p < length es \<and> unat (snd p) < length staged" using Cons.prems(1) by simp
  have at: "nth_opt staged (unat a) = Some ?e" "nth_opt decided (unat a) = Some (decided ! unat a)"
    using p(3) Cons.prems(2) by (simp_all add: nth_opt_def)
  show ?case
  proof (cases "decided ! unat a \<or> \<not> live_is_alive lv i")
    case True
    then have "decided ! unat a \<or> \<not> settling es lv ?e i" by (auto simp: settling_def)
    moreover have "spare_each memchr lv seg staged dirs (Some rd) (pair # pairs) decided out
        = spare_each memchr lv seg staged dirs (Some rd) pairs decided out"
      using True at unfolding p(1) by simp
    ultimately show ?thesis
      using Cons.IH [OF later Cons.prems(2-4), of out] spared_skip unfolding p(1) by metis
  next
    case False
    obtain dirs' rd' where r: "is_at_reading memchr seg dirs (Some rd) i (id_source (e_id ?e)) (e_path ?e)
        = Ret (same_path (es ! i) (id_source (e_id ?e)) (e_path ?e), dirs', Some rd')"
      "cache_ok seg dirs'" "reader_ok (entry_names es) rd'"
      using is_at_reading_of [OF assms(1-4) p(2) Cons.prems(3), of "e_path ?e" "Some rd" "id_source (e_id ?e)"] assms(5) p(3)
        Cons.prems(4) by (auto split: option.splits)
    show ?thesis
    proof (cases "settling es lv ?e i")
      case no: False
      then have "\<not> same_path (es ! i) (id_source (e_id ?e)) (e_path ?e)" using False by (simp add: settling_def)
      then have "spare_each memchr lv seg staged dirs (Some rd) (pair # pairs) decided out
          = spare_each memchr lv seg staged dirs' (Some rd') pairs decided out"
        using False at r(1) unfolding p(1) by simp
      then show ?thesis
        using Cons.IH [OF later Cons.prems(2) r(2,3), of out] spared_skip no unfolding p(1) by metis
    next
      case yes: True
      let ?new = "if meta_same (es ! i) (e_meta ?e) (e_is_dir ?e) then [(a, i)] else []"
      have "same_path (es ! i) (id_source (e_id ?e)) (e_path ?e)" using yes by (simp add: settling_def)
      then have step: "spare_each memchr lv seg staged dirs (Some rd) (pair # pairs) decided out
          = spare_each memchr lv seg staged dirs' (Some rd') pairs (decided[unat a := True]) (out @ ?new)"
        using False at r(1) same_meta_of [OF assms(2,3) p(2)] unfolding p(1) by simp
      have "length (decided[unat a := True]) = length staged" using Cons.prems(2) by simp
      from Cons.IH [OF later this r(2,3), of "out @ ?new"]
      obtain decided' out' where rest: "spare_each memchr lv seg staged dirs' (Some rd') pairs (decided[unat a := True]) (out @ ?new)
          = Ret (decided', (out @ ?new) @ out')" "spared es lv staged (decided[unat a := True]) pairs decided' out'"
        by blast
      have "spared es lv staged decided (pair # pairs) decided' (?new @ out')"
        unfolding p(1) using spared_settle [OF rest(2) Cons.prems(2) p(3) _ yes] False by blast
      then show ?thesis using step rest(1) by (metis append_assoc)
    qed
  qed
qed


text \<open>Finding in a sorted list finds the least.\<close>

lemma find_sorted:
  "sorted (xs :: 'a :: linorder list) \<Longrightarrow> find P xs = Some x \<longleftrightarrow> x \<in> set xs \<and> P x \<and> (\<forall>y \<in> set xs. P y \<longrightarrow> x \<le> y)"
  by (induction xs) (auto intro: antisym)

definition keys_ok :: "(u32 \<times> u32) list \<Rightarrow> entry list \<Rightarrow> bool" where
  "keys_ok keys staged \<longleftrightarrow> sorted (map fst keys)
     \<and> (\<forall>(key, at) \<in> set keys. unat at < length staged
          \<and> key = key_of (id_source (e_id (staged ! unat at))) (e_path (staged ! unat at)))
     \<and> (\<forall>e \<in> set staged. \<not> bare_root_name (e_path e))"

lemma spare_paths_of:
  assumes "memchr_law memchr" "entries_fit fold_bytes es" "live_holds memchr fold_bytes fold_case es lv" "plain_paths es"
    "keys_ok keys staged" "length decided = length staged"
  shows "\<exists>decided' out'. spare_paths memchr keys staged lv decided out = Ret (Inr (decided', out @ out'))
    \<and> length decided' = length staged
    \<and> (\<forall>a < length staged. decided' ! a \<longleftrightarrow> decided ! a
         \<or> a \<in> unat ` snd ` set keys \<and> (\<exists>i < length es. settling es lv (staged ! a) i))
    \<and> (\<forall>b i. (b, i) \<in> set out' \<longleftrightarrow> b \<in> snd ` set keys \<and> \<not> decided ! unat b
         \<and> find (settling es lv (staged ! unat b)) [0 ..< length es] = Some i
         \<and> meta_same (es ! i) (e_meta (staged ! unat b)) (e_is_dir (staged ! unat b)))"
proof -
  let ?key = "\<lambda>i. key_of (id_source (e_id (es ! i))) (e_path (es ! i))"
  let ?g = "\<lambda>w. if decided ! unat (snd (keys ! w)) then None else Some (snd (keys ! w))"
  let ?ps = "sort (id_table (entry_ids es))"
  have n: "length es < 2 ^ 32" using assms(2) by (simp add: entries_fit_def)
  have rows: "lv_rows lv = length es" using assms(3) by (simp add: live_holds_def)
  have key: "unat b < length staged \<and> (settling es lv (staged ! unat b) i \<longrightarrow> ?key i = k)" if "(k, b) \<in> set keys" for k b i
    using assms(5) that by (auto simp: keys_ok_def settling_def same_path_def)
  show ?thesis
  proof (cases "keys = [] \<or> es = []")
    case True
    then have "spare_paths memchr keys staged lv decided out = Ret (Inr (decided, out @ []))"
      by (auto simp: spare_paths_def rows)
    moreover have "find (settling es lv e) [0 ..< length es] = None" if "keys \<noteq> []" for e
      using True that by simp
    ultimately show ?thesis using True assms(6) by (intro exI [of _ decided] exI [of _ "[]"]) auto
  next
    case False
    have nonempty: "im_len (id_view ?ps) \<noteq> 0"
      using False by (simp add: id_table_eq entry_ids_def)
    have "undecided keys decided w = Ret (?g w)" if "w < length keys" for w
      using key [of "fst (keys ! w)" "snd (keys ! w)" 0] that assms(6) by (simp add: undecided_def nth_opt_def)
    then have "\<forall>w < length (map fst keys). undecided keys decided w = Ret (?g w)" by simp
    moreover have "sorted (map fst keys)" using assms(5) by (simp add: keys_ok_def)
    ultimately obtain pairs where pairs: "(if probes_cheaper (length keys) (im_len (id_view ?ps))
        then probe_pairs (id_view ?ps) (map fst keys) (undecided keys decided) 0
        else merge_pairs (id_view ?ps) (map fst keys) (undecided keys decided) 0 0) = Ret pairs"
      "set pairs = matches ?ps (map fst keys) ?g 0 0"
      using pairs_found [of ?ps "map fst keys" "undecided keys decided" ?g "probes_cheaper (length keys) (im_len (id_view ?ps))"]
      by auto
    have mem: "(i, b) \<in> set pairs \<longleftrightarrow> i < length es \<and> (\<exists>k. (k, b) \<in> set keys \<and> ?key i = k) \<and> \<not> decided ! unat b" for i b
    proof -
      have "(i, b) \<in> set pairs \<longleftrightarrow> i < length es \<and> (\<exists>w < length keys. ?key i = fst (keys ! w) \<and> ?g w = Some b)"
        unfolding pairs(2) table_matches [OF n] by (simp cong: conj_cong)
      also have "\<dots> \<longleftrightarrow> i < length es \<and> (\<exists>x \<in> set keys. ?key i = fst x \<and> (if decided ! unat (snd x) then None else Some (snd x)) = Some b)"
        using ex_index [of keys "\<lambda>x. ?key i = fst x \<and> (if decided ! unat (snd x) then None else Some (snd x)) = Some b"] by simp
      finally show ?thesis by (force split: if_splits)
    qed
    obtain seg where seg: "live_view lv = Inr seg" "holds_entries fold_bytes fold_case es seg"
      using live_view_holds [OF assms(3,2)] by blast
    have "\<forall>p \<in> set (sort pairs). fst p < length es \<and> unat (snd p) < length staged"
      using mem key by fastforce
    then obtain decided' out' where run: "spare_each memchr lv seg staged (\<lambda>_. None) (Some reader_default) (sort pairs) decided out
        = Ret (decided', out @ out')" "spared es lv staged decided (sort pairs) decided' out'"
      using spare_each_of [OF assms(1,2) seg(2) assms(4) _ _ assms(6) cache_ok_empty reader_default_ok] assms(5)
      unfolding keys_ok_def by blast
    have all: "spare_paths memchr keys staged lv decided out = Ret (Inr (decided', out @ out'))"
    proof -
      have "keys \<noteq> []" "lv_rows lv \<noteq> 0" using False rows by auto
      then show ?thesis
        using run(1) nonempty seg(1)
        unfolding spare_paths_def live_ids_of [OF assms(3)] sum.case pairs(1)
        by (cases "pairs = []") auto
    qed
    note sp = run(2) [unfolded spared_def set_sort]
    have flags: "decided' ! a \<longleftrightarrow> decided ! a \<or> a \<in> unat ` snd ` set keys \<and> (\<exists>i < length es. settling es lv (staged ! a) i)"
      if "a < length staged" for a
    proof -
      have "(\<exists>p \<in> set pairs. unat (snd p) = a \<and> settling es lv (staged ! a) (fst p))
          \<longleftrightarrow> \<not> decided ! a \<and> a \<in> unat ` snd ` set keys \<and> (\<exists>i < length es. settling es lv (staged ! a) i)"
      proof
        assume "\<exists>p \<in> set pairs. unat (snd p) = a \<and> settling es lv (staged ! a) (fst p)"
        then obtain i b where p: "(i, b) \<in> set pairs" "unat b = a" "settling es lv (staged ! a) i" by auto
        then obtain k where "(k, b) \<in> set keys" "i < length es" "\<not> decided ! a" using mem by auto
        then show "\<not> decided ! a \<and> a \<in> unat ` snd ` set keys \<and> (\<exists>i < length es. settling es lv (staged ! a) i)"
          using p by force
      next
        assume "\<not> decided ! a \<and> a \<in> unat ` snd ` set keys \<and> (\<exists>i < length es. settling es lv (staged ! a) i)"
        then obtain k b i where b: "(k, b) \<in> set keys" "unat b = a" "i < length es" "settling es lv (staged ! a) i" "\<not> decided ! a"
          by auto
        then have "(i, b) \<in> set pairs" using mem key [OF b(1), of i] by auto
        then show "\<exists>p \<in> set pairs. unat (snd p) = a \<and> settling es lv (staged ! a) (fst p)" using b by force
      qed
      then show ?thesis using sp that by blast
    qed
    have found: "find (\<lambda>p. snd p = b \<and> settling es lv (staged ! unat b) (fst p)) (sort pairs) = Some (i, b)
        \<longleftrightarrow> b \<in> snd ` set keys \<and> find (settling es lv (staged ! unat b)) [0 ..< length es] = Some i"
      if "\<not> decided ! unat b" for b i
    proof -
      have "(j, b) \<in> set pairs \<and> settling es lv (staged ! unat b) j
          \<longleftrightarrow> b \<in> snd ` set keys \<and> j < length es \<and> settling es lv (staged ! unat b) j" for j
      proof
        assume "(j, b) \<in> set pairs \<and> settling es lv (staged ! unat b) j"
        then show "b \<in> snd ` set keys \<and> j < length es \<and> settling es lv (staged ! unat b) j" unfolding mem by force
      next
        assume j: "b \<in> snd ` set keys \<and> j < length es \<and> settling es lv (staged ! unat b) j"
        then obtain k where "(k, b) \<in> set keys" by auto
        then show "(j, b) \<in> set pairs \<and> settling es lv (staged ! unat b) j" using j that key unfolding mem by blast
      qed
      note who = this
      have "find (\<lambda>p. snd p = b \<and> settling es lv (staged ! unat b) (fst p)) (sort pairs) = Some (i, b)
          \<longleftrightarrow> ((i, b) \<in> set pairs \<and> settling es lv (staged ! unat b) i)
            \<and> (\<forall>j. (j, b) \<in> set pairs \<and> settling es lv (staged ! unat b) j \<longrightarrow> i \<le> j)"
        unfolding find_sorted [OF sorted_sort] set_sort by (force simp: less_eq_prod_def)
      moreover define B where "B \<longleftrightarrow> b \<in> snd ` set keys"
      ultimately show ?thesis unfolding who find_sorted [OF sorted_upt] B_def [symmetric] by auto
    qed
    have "unat b < length staged" if "b \<in> snd ` set keys" for b using key that by fastforce
    then have outs: "(b, i) \<in> set out' \<longleftrightarrow> b \<in> snd ` set keys \<and> \<not> decided ! unat b
         \<and> find (settling es lv (staged ! unat b)) [0 ..< length es] = Some i
         \<and> meta_same (es ! i) (e_meta (staged ! unat b)) (e_is_dir (staged ! unat b))" for b i
      using conjunct2 [OF conjunct2 [OF sp]] found [of b i] by (cases "decided ! unat b") auto
    show ?thesis
    proof (intro exI [of _ decided'] exI [of _ out'] conjI allI impI)
      show "length decided' = length staged" using sp by blast
    qed (fact all flags outs)+
  qed
qed


section \<open>Properties\<close>

text \<open>
  C15: a search a path and a merge of the lists find the same rows.  In the table of any rows,
  for keys in order, both answer without a panic, with the same pairs of row and key.
\<close>

theorem strategies_agree:
  assumes "length rows < 2 ^ 32" "sorted keys"
  shows "\<exists>t probed merged. id_open (id_finish (id_table rows)) = Some t
    \<and> probe_pairs t keys (\<lambda>w. Ret (Some w)) 0 = Ret probed
    \<and> merge_pairs t keys (\<lambda>w. Ret (Some w)) 0 0 = Ret merged
    \<and> set probed = set merged"
  using pairs_found [of "sort (id_table rows)" keys "\<lambda>w. Ret (Some w)" Some True]
    pairs_found [of "sort (id_table rows)" keys "\<lambda>w. Ret (Some w)" Some False] id_open_finish [of "id_table rows"] assms
  by (auto simp: ids_fit_def id_table_eq)

theorem strategies_agree_witness:
  "\<exists>t probed merged. id_open (id_finish (id_table [(0, str ''/a''), (0, str ''/b'')])) = Some t
    \<and> probe_pairs t [7, 9] (\<lambda>w. Ret (Some w)) 0 = Ret probed
    \<and> merge_pairs t [7, 9] (\<lambda>w. Ret (Some w)) 0 0 = Ret merged \<and> set probed = set merged"
  by (rule strategies_agree) simp_all

text \<open>
  C13: replacing paths kills exactly their rows.  Given paths with their half-digests, in order,
  \<open>kill_paths\<close> clears the bit of every live row at one of them and of no other row, colliding
  digests included; the count it answers and the segment's count of deaths both grow by the
  number of rows that were live before and are not after.
\<close>

theorem kill_paths_exact:
  assumes "memchr_law memchr" "entries_fit fold_bytes es" "live_holds memchr fold_bytes fold_case es lv" "plain_paths es"
    "wanted_ok wanted"
  shows "\<exists>gone lv'. kill_paths memchr wanted lv = Ret (Inr (gone, lv')) \<and> live_holds memchr fold_bytes fold_case es lv'
    \<and> (\<forall>i < length es. live_is_alive lv' i \<longleftrightarrow> live_is_alive lv i
         \<and> \<not> (\<exists>(_, source, path) \<in> set wanted. id_source (e_id (es ! i)) = source \<and> e_path (es ! i) = path))
    \<and> live_rows lv' \<le> live_rows lv \<and> gone = of_nat (live_rows lv - live_rows lv')
    \<and> lv_deaths lv' = lv_deaths lv + gone"
  using kill_paths_of [OF assms] unfolding same_path_def .

lemma sample_built:
  "\<exists>sb lv. build_sorted first_index (map ascii_lower) (map ascii_lower) sample_entries = Ret sb
    \<and> from_bytes 1 1 sb = Ret (Inr lv) \<and> live_holds first_index (map ascii_lower) (map ascii_lower) sample_entries lv
    \<and> (\<forall>i < length sample_entries. live_is_alive lv i)"
proof -
  obtain sb where sb: "build_sorted first_index (map ascii_lower) (map ascii_lower) sample_entries = Ret sb"
    using build_views [OF first_index_law sample_fit(1), of "map ascii_lower"] by blast
  obtain lv where lv: "from_bytes 1 1 sb = Ret (Inr lv)" "live_holds first_index (map ascii_lower) (map ascii_lower) sample_entries lv"
    "lv_alive lv = alive_bits (length sample_entries)"
    using from_bytes_built [OF first_index_law sample_fit(1) sb] by blast
  have "live_is_alive lv i" if "i < length sample_entries" for i
    using that rows_in_bits [OF that] live_is_alive_bit [of i lv] alive_bits_bit [of i "length sample_entries"] lv(3) by simp
  then show ?thesis using sb lv by blast
qed

lemma sample_rows: "length sample_entries = 2" "id_source (e_id (sample_entries ! 0)) = 0" "id_source (e_id (sample_entries ! 1)) = 0"
  "e_path (sample_entries ! 0) = str ''/a/main.rs''" "e_path (sample_entries ! 1) = str ''/a-b/x''"
  "id_source (e_id (sample_entries ! Suc 0)) = 0" "e_path (sample_entries ! Suc 0) = str ''/a-b/x''"
  by (simp_all add: sample_entries_def sample_entry_def path_hash_def)

theorem kill_paths_exact_witness:
  "\<exists>sb lv gone lv'. build_sorted first_index (map ascii_lower) (map ascii_lower) sample_entries = Ret sb
    \<and> from_bytes 1 1 sb = Ret (Inr lv)
    \<and> kill_paths first_index [(key_of 0 (str ''/a-b/x''), 0, str ''/a-b/x'')] lv = Ret (Inr (gone, lv'))
    \<and> live_is_alive lv' 0 \<and> \<not> live_is_alive lv' 1"
proof -
  obtain sb lv where lv: "build_sorted first_index (map ascii_lower) (map ascii_lower) sample_entries = Ret sb"
    "from_bytes 1 1 sb = Ret (Inr lv)" "live_holds first_index (map ascii_lower) (map ascii_lower) sample_entries lv"
    "\<forall>i < length sample_entries. live_is_alive lv i"
    using sample_built by blast
  have ok: "wanted_ok [(key_of 0 (str ''/a-b/x''), 0, str ''/a-b/x'')]" by (simp add: wanted_ok_def)
  obtain gone lv' where k: "kill_paths first_index [(key_of 0 (str ''/a-b/x''), 0, str ''/a-b/x'')] lv = Ret (Inr (gone, lv'))"
    "\<forall>i < length sample_entries. live_is_alive lv' i \<longleftrightarrow> live_is_alive lv i
       \<and> \<not> (\<exists>(_, source, path) \<in> set [(key_of 0 (str ''/a-b/x''), 0, str ''/a-b/x'')].
             id_source (e_id (sample_entries ! i)) = source \<and> e_path (sample_entries ! i) = path)"
    using kill_paths_exact [OF first_index_law sample_fit(1) lv(3) sample_fit(2) ok] by blast
  have "live_is_alive lv' 0" "\<not> live_is_alive lv' 1"
    using k(2) lv(4) by (simp_all add: sample_rows)
  then show ?thesis using lv(1,2) k(1) by blast
qed

text \<open>
  C14: a staged entry is spared exactly when the index already says the same.  \<open>spare_paths\<close>
  settles an entry when a live row is at its path, and puts the pair of the two out when the
  first such row agrees with it on size, times, mode, owner, group and being a folder; an
  entry settled before is left alone.
\<close>

theorem spare_paths_exact:
  assumes "memchr_law memchr" "entries_fit fold_bytes es" "live_holds memchr fold_bytes fold_case es lv" "plain_paths es"
    "keys_ok keys staged" "length decided = length staged"
  shows "\<exists>decided' out'. spare_paths memchr keys staged lv decided out = Ret (Inr (decided', out @ out'))
    \<and> length decided' = length staged
    \<and> (\<forall>a < length staged. decided' ! a \<longleftrightarrow> decided ! a
         \<or> a \<in> unat ` snd ` set keys \<and> (\<exists>i < length es. settling es lv (staged ! a) i))
    \<and> (\<forall>b i. (b, i) \<in> set out' \<longleftrightarrow> b \<in> snd ` set keys \<and> \<not> decided ! unat b
         \<and> find (settling es lv (staged ! unat b)) [0 ..< length es] = Some i
         \<and> meta_same (es ! i) (e_meta (staged ! unat b)) (e_is_dir (staged ! unat b)))"
  by (rule spare_paths_of [OF assms])

theorem spare_paths_exact_witness:
  "\<exists>sb lv decided' out'. build_sorted first_index (map ascii_lower) (map ascii_lower) sample_entries = Ret sb
    \<and> from_bytes 1 1 sb = Ret (Inr lv)
    \<and> spare_paths first_index [(key_of 0 (str ''/a/main.rs''), 0)] [sample_entries ! 0] lv [False] [] = Ret (Inr (decided', out'))
    \<and> decided' ! 0"
proof -
  obtain sb lv where lv: "build_sorted first_index (map ascii_lower) (map ascii_lower) sample_entries = Ret sb"
    "from_bytes 1 1 sb = Ret (Inr lv)" "live_holds first_index (map ascii_lower) (map ascii_lower) sample_entries lv"
    "\<forall>i < length sample_entries. live_is_alive lv i"
    using sample_built by blast
  have ok: "keys_ok [(key_of 0 (str ''/a/main.rs''), 0)] [sample_entries ! 0]"
    by (simp add: keys_ok_def sample_rows)
  have "settling sample_entries lv (sample_entries ! 0) 0"
    using lv(4) by (simp add: settling_def same_path_def sample_rows)
  then show ?thesis
    using spare_paths_exact [OF first_index_law sample_fit(1) lv(3) sample_fit(2) ok, of "[False]" "[]"] lv(1,2)
    by (simp add: sample_rows) (metis zero_less_numeral)
qed

end
