(* ===== verification/Text.thy ===== *)
theory Text
  imports Utf8 Chars
begin

text \<open>
  The characters of a UTF-8 text and the bytes of characters: \<open>str::chars\<close> and
  \<open>char::encode_utf8\<close> of the standard library, which the folding of names and the tests of a
  query go through.  The lemmas show that the two undo each other and that text can be cut at
  any ASCII byte.
\<close>

section \<open>One character\<close>

fun code_of :: "bytes \<Rightarrow> uchar" where
  "code_of [a] = ucast a"
| "code_of [a, b] = word_of_nat ((unat a - 192) * 64 + (unat b - 128))"
| "code_of [a, b, c] = word_of_nat (((unat a - 224) * 64 + (unat b - 128)) * 64 + (unat c - 128))"
| "code_of [a, b, c, d] =
     word_of_nat ((((unat a - 240) * 64 + (unat b - 128)) * 64 + (unat c - 128)) * 64 + (unat d - 128))"
| "code_of _ = 0xFFFD"

definition encode_char :: "uchar \<Rightarrow> bytes" where
  "encode_char c =
     (let n = unat c
      in if n < 0x80 then [ucast c]
         else if n < 0x800 then [word_of_nat (192 + n div 64), word_of_nat (128 + n mod 64)]
         else if n < 0x10000 then
           [word_of_nat (224 + n div 4096), word_of_nat (128 + n div 64 mod 64), word_of_nat (128 + n mod 64)]
         else
           [word_of_nat (240 + n div 262144), word_of_nat (128 + n div 4096 mod 64),
            word_of_nat (128 + n div 64 mod 64), word_of_nat (128 + n mod 64)])"

text \<open>What a \<open>char\<close> may be.\<close>

definition scalar :: "uchar \<Rightarrow> bool" where
  "scalar c \<longleftrightarrow> unat c < 0xD800 \<or> 0xE000 \<le> unat c \<and> unat c < 0x110000"

section \<open>Whole texts\<close>

function decode_text :: "bytes \<Rightarrow> chars" where
  "decode_text bs =
     (if bs = [] then []
      else case utf8_seq bs of None \<Rightarrow> [] | Some n \<Rightarrow> code_of (take n bs) # decode_text (drop n bs))"
  by pat_completeness auto
termination
  by (relation "measure length") (auto dest: utf8_seq_bounds)

declare decode_text.simps [simp del]

definition encode_text :: "chars \<Rightarrow> bytes" where
  "encode_text cs = concat (map encode_char cs)"

lemma encode_text_simps [simp]:
  "encode_text [] = []" "encode_text (c # cs) = encode_char c @ encode_text cs" "encode_text (as @ bs) = encode_text as @ encode_text bs"
  by (simp_all add: encode_text_def)

lemma decode_Nil [simp]: "decode_text [] = []"
  by (simp add: decode_text.simps)

lemma unat_small: "n < 256 \<Longrightarrow> unat (word_of_nat n :: u8) = n"
  by (simp add: unat_of_nat take_bit_nat_eq_self)

lemma unat_code: "n < 4294967296 \<Longrightarrow> unat (word_of_nat n :: uchar) = n"
  by (simp add: unat_of_nat take_bit_nat_eq_self)

lemma byte_less: "unat (b :: u8) < 256"
  using unsigned_less [of b] by simp

lemma byte_eq: "n < 256 \<Longrightarrow> unat (b :: u8) = n \<Longrightarrow> word_of_nat n = b"
  by (simp add: word_unat_eq_iff unat_small)

lemma cont_unat: "cont b \<longleftrightarrow> 128 \<le> unat b \<and> unat b < 192"
  by (simp add: cont_def word_le_nat_alt word_less_nat_alt)

lemma digits64:
  "y < 64 \<Longrightarrow> (x * 64 + y) div 64 = x" "y < 64 \<Longrightarrow> (x * 64 + y) mod 64 = (y :: nat)"
  by simp_all

lemma encode_two:
  assumes "194 \<le> unat a" "unat a < 224" "cont b"
  shows "encode_char (code_of [a, b]) = [a, b] \<and> scalar (code_of [a, b])"
proof -
  define x y where "x = unat a - 192" "y = unat b - 128"
  have xy: "2 \<le> x" "x < 32" "y < 64" "unat a = 192 + x" "unat b = 128 + y"
    using assms by (auto simp: x_y_def cont_unat)
  have n: "unat (code_of [a, b]) = x * 64 + y"
    unfolding code_of.simps x_y_def [symmetric] using xy by (intro unat_code) linarith
  have "word_of_nat (192 + x) = a" "word_of_nat (128 + y) = b"
    using xy byte_eq [of _ a] byte_eq [of _ b] by simp_all
  then show ?thesis
    using n xy unfolding encode_char_def Let_def scalar_def by (simp add: digits64)
qed

lemma encode_three:
  assumes "224 \<le> unat a" "unat a < 240" "cont b" "cont c" "unat a = 224 \<longrightarrow> 160 \<le> unat b" "unat a = 237 \<longrightarrow> unat b < 160"
  shows "encode_char (code_of [a, b, c]) = [a, b, c] \<and> scalar (code_of [a, b, c])"
proof -
  define x y z where "x = unat a - 224" "y = unat b - 128" "z = unat c - 128"
  have xyz: "x < 16" "y < 64" "z < 64" "unat a = 224 + x" "unat b = 128 + y" "unat c = 128 + z"
    "x = 0 \<longrightarrow> 32 \<le> y" "x = 13 \<longrightarrow> y < 32"
    using assms by (auto simp: x_y_z_def cont_unat)
  define n where "n = (x * 64 + y) * 64 + z"
  have lim: "2048 \<le> n" "n < 65536" "n < 55296 \<or> 57344 \<le> n"
  proof -
    show "2048 \<le> n" using xyz by (cases "x = 0") (simp_all add: n_def)
    show "n < 65536" using xyz(1-3) by (simp add: n_def algebra_simps)
    have "x \<le> 12 \<or> x = 13 \<or> 14 \<le> x" by linarith
    then show "n < 55296 \<or> 57344 \<le> n" using xyz by (elim disjE) (simp_all add: n_def)
  qed
  have u: "unat (code_of [a, b, c]) = n"
    unfolding code_of.simps x_y_z_def [symmetric] n_def [symmetric] using lim by (intro unat_code) simp
  have ds: "n mod 64 = z" "n div 64 mod 64 = y" "n div 4096 = x"
  proof -
    show "n mod 64 = z" unfolding n_def by (rule digits64(2) [OF xyz(3)])
    have d: "n div 64 = x * 64 + y" unfolding n_def by (rule digits64(1) [OF xyz(3)])
    show "n div 64 mod 64 = y" unfolding d by (rule digits64(2) [OF xyz(2)])
    have "n div 4096 = n div 64 div 64" by (simp flip: div_mult2_eq)
    then show "n div 4096 = x" unfolding d using digits64(1) [OF xyz(2), of x] by simp
  qed
  have "word_of_nat (224 + x) = a" "word_of_nat (128 + y) = b" "word_of_nat (128 + z) = c"
    using xyz byte_eq [of _ a] byte_eq [of _ b] byte_eq [of _ c] by simp_all
  then show ?thesis using lim unfolding encode_char_def Let_def scalar_def u ds by simp
qed

lemma encode_four:
  assumes "240 \<le> unat a" "unat a < 245" "cont b" "cont c" "cont d" "unat a = 240 \<longrightarrow> 144 \<le> unat b" "unat a = 244 \<longrightarrow> unat b < 144"
  shows "encode_char (code_of [a, b, c, d]) = [a, b, c, d] \<and> scalar (code_of [a, b, c, d])"
proof -
  define w x y z where "w = unat a - 240" "x = unat b - 128" "y = unat c - 128" "z = unat d - 128"
  have b: "w < 5" "x < 64" "y < 64" "z < 64" "unat a = 240 + w" "unat b = 128 + x" "unat c = 128 + y" "unat d = 128 + z"
    "w = 0 \<longrightarrow> 16 \<le> x" "w = 4 \<longrightarrow> x < 16"
    using assms by (auto simp: w_x_y_z_def cont_unat)
  define n where "n = ((w * 64 + x) * 64 + y) * 64 + z"
  have lim: "65536 \<le> n" "n < 1114112"
  proof -
    show "65536 \<le> n" using b by (cases "w = 0") (simp_all add: n_def)
    show "n < 1114112"
    proof (cases "w = 4")
      case True
      then show ?thesis using b(2-4,10) by (simp add: n_def)
    next
      case False
      then have "w \<le> 3" using b(1) by simp
      then show ?thesis using b(2-4) by (simp add: n_def)
    qed
  qed
  have u: "unat (code_of [a, b, c, d]) = n"
    unfolding code_of.simps w_x_y_z_def [symmetric] n_def [symmetric] using lim by (intro unat_code) simp
  have d1: "n mod 64 = z" "n div 64 = (w * 64 + x) * 64 + y"
    unfolding n_def by (rule digits64 [OF b(4)])+
  have "n div 4096 = n div 64 div 64" by (simp flip: div_mult2_eq)
  then have d2: "n div 64 mod 64 = y" "n div 4096 = w * 64 + x"
    unfolding d1(2) using digits64 [OF b(3), of "w * 64 + x"] by simp_all
  have "n div 262144 = n div 4096 div 64" by (simp flip: div_mult2_eq)
  then have d3: "n div 4096 mod 64 = x" "n div 262144 = w"
    unfolding d2(2) using digits64 [OF b(2), of w] by simp_all
  have "word_of_nat (240 + w) = a" "word_of_nat (128 + x) = b" "word_of_nat (128 + y) = c" "word_of_nat (128 + z) = d"
    using b byte_eq [of _ a] byte_eq [of _ b] byte_eq [of _ c] byte_eq [of _ d] by simp_all
  then show ?thesis using lim unfolding encode_char_def Let_def scalar_def u d1(1) d2(1) d3 by simp
qed

lemma unat_narrow: "unat (a :: u8) < 256" "take_bit 32 (unat a) = unat a" "take_bit 32 a = a"
proof -
  show "unat a < 256" by (rule byte_less)
  then show "take_bit 32 (unat a) = unat a" by (simp add: take_bit_nat_eq_self)
  show "take_bit 32 a = a" by (rule bit_word_eqI) (simp add: bit_take_bit_iff)
qed

lemma decode_seq:
  assumes "utf8_seq bs = Some n"
  shows "encode_char (code_of (take n bs)) = take n bs" "scalar (code_of (take n bs))"
proof -
  have "encode_char (code_of (take n bs)) = take n bs \<and> scalar (code_of (take n bs))"
  proof (cases bs)
    case (Cons a rest)
    have one: ?thesis if "a < 0x80" "n = 1"
    proof -
      have "unat a < 128" using that by (simp add: word_less_nat_alt)
      then show ?thesis
        using that Cons by (simp add: encode_char_def Let_def scalar_def unsigned_ucast_eq take_bit_nat_eq_self ucast_up_ucast_id is_up
          unat_narrow)
    qed
    from assms Cons one encode_two encode_three encode_four show ?thesis
      by (auto simp: word_le_nat_alt word_less_nat_alt cont_unat word_unat_eq_iff split: if_splits list.splits)
  qed (use assms in simp)
  then show "encode_char (code_of (take n bs)) = take n bs" "scalar (code_of (take n bs))" by blast+
qed


text \<open>And back: a scalar value is encoded as one well-formed sequence.\<close>

lemma encode_char_seq:
  assumes "scalar c"
  shows "utf8_seq (encode_char c @ rest) = Some (length (encode_char c))" "code_of (encode_char c) = c"
proof -
  define n where "n = unat c"
  have c: "word_of_nat n = c" by (simp add: n_def)
  have n: "n < 55296 \<or> 57344 \<le> n \<and> n < 1114112" using assms by (simp add: scalar_def n_def)
  have b: "unat (word_of_nat k :: u8) = k" if "k < 256" for k using that by (rule unat_small)
  consider "n < 128" | "128 \<le> n" "n < 2048" | "2048 \<le> n" "n < 65536" | "65536 \<le> n" by linarith
  then have "utf8_seq (encode_char c @ rest) = Some (length (encode_char c)) \<and> code_of (encode_char c) = c"
  proof cases
    case 1
    have "ucast (ucast c :: u8) = c" "ucast c < (0x80 :: u8)"
      using 1 c by (auto simp: n_def word_unat_eq_iff unsigned_ucast_eq unsigned_take_bit_eq take_bit_nat_eq_self word_less_nat_alt)
    then show ?thesis using 1 by (simp add: encode_char_def n_def [symmetric])
  next
    case 2
    define x y where "x = n div 64" "y = n mod 64"
    have xy: "2 \<le> x" "x < 32" "y < 64" "n = x * 64 + y" using 2 by (auto simp: x_y_def)
    have "unat (word_of_nat (192 + x) :: u8) = 192 + x" "unat (word_of_nat (128 + y) :: u8) = 128 + y" by (rule b; use xy in linarith)+
    then show ?thesis
      using 2 xy c by (simp add: encode_char_def n_def [symmetric] x_y_def [symmetric] word_le_nat_alt word_less_nat_alt cont_unat)
  next
    case 3
    define x y z where "x = n div 4096" "y = n div 64 mod 64" "z = n mod 64"
    have nxyz: "n = (x * 64 + y) * 64 + z"
      using div_mult2_eq [of n 64 64] by (simp add: x_y_z_def)
    have xyz: "x < 16" "y < 64" "z < 64" using 3 by (auto simp: x_y_z_def)
    have lo: "x = 0 \<longrightarrow> 32 \<le> y" using 3 nxyz xyz by auto
    have hi: "x = 13 \<longrightarrow> y < 32" using n nxyz xyz by auto
    have "unat (word_of_nat (224 + x) :: u8) = 224 + x" "unat (word_of_nat (128 + y) :: u8) = 128 + y"
      "unat (word_of_nat (128 + z) :: u8) = 128 + z" by (rule b; use xyz in linarith)+
    note u = this
    have e: "encode_char c = [word_of_nat (224 + x), word_of_nat (128 + y), word_of_nat (128 + z)]"
      unfolding encode_char_def n_def [symmetric] Let_def x_y_z_def using 3 by (simp del: of_nat_add)
    have "code_of (encode_char c) = word_of_nat n" unfolding e code_of.simps u nxyz by simp
    moreover have "utf8_seq (encode_char c @ rest) = Some (length (encode_char c))"
      unfolding e using u xyz lo hi by (simp add: word_le_nat_alt word_less_nat_alt cont_unat word_unat_eq_iff del: of_nat_add)
    ultimately show ?thesis using c by simp
  next
    case 4
    define w x y z where "w = n div 262144" "x = n div 4096 mod 64" "y = n div 64 mod 64" "z = n mod 64"
    have nw: "n = ((w * 64 + x) * 64 + y) * 64 + z"
      using div_mult2_eq [of n 64 64] div_mult2_eq [of n 4096 64] by (simp add: w_x_y_z_def)
    have ds: "x < 64" "y < 64" "z < 64" by (simp_all add: w_x_y_z_def)
    have w: "w < 5" using 4 n by (simp add: w_x_y_z_def)
    have lo: "w = 0 \<longrightarrow> 16 \<le> x" using 4 nw ds by auto
    have hi: "w = 4 \<longrightarrow> x < 16" using n nw ds by auto
    have "unat (word_of_nat (240 + w) :: u8) = 240 + w" "unat (word_of_nat (128 + x) :: u8) = 128 + x"
      "unat (word_of_nat (128 + y) :: u8) = 128 + y" "unat (word_of_nat (128 + z) :: u8) = 128 + z" by (rule b; use ds w in linarith)+
    note u = this
    have e: "encode_char c = [word_of_nat (240 + w), word_of_nat (128 + x), word_of_nat (128 + y), word_of_nat (128 + z)]"
      unfolding encode_char_def n_def [symmetric] Let_def w_x_y_z_def using 4 by (simp del: of_nat_add)
    have "code_of (encode_char c) = word_of_nat n" unfolding e code_of.simps u nw by simp
    moreover have "utf8_seq (encode_char c @ rest) = Some (length (encode_char c))"
      unfolding e using u ds w lo hi by (simp add: word_le_nat_alt word_less_nat_alt cont_unat word_unat_eq_iff del: of_nat_add)
    ultimately show ?thesis using c by simp
  qed
  then show "utf8_seq (encode_char c @ rest) = Some (length (encode_char c))" "code_of (encode_char c) = c" by blast+
qed

lemma encode_char_ne [simp]: "encode_char c \<noteq> []"
  by (simp add: encode_char_def Let_def)

lemma decode_step: "utf8_seq bs = Some n \<Longrightarrow> decode_text bs = code_of (take n bs) # decode_text (drop n bs)"
  using utf8_seq_bounds [of bs n] by (subst decode_text.simps) auto

lemma encode_decode: "utf8_valid bs \<Longrightarrow> encode_text (decode_text bs) = bs \<and> (\<forall>c \<in> set (decode_text bs). scalar c)"
proof (induction bs rule: utf8_valid.induct)
  case (1 bs)
  show ?case
  proof (cases "bs = []")
    case False
    then obtain n where n: "utf8_seq bs = Some n" "utf8_valid (drop n bs)"
      using 1(2) by (auto simp: utf8_valid.simps [of bs] split: option.splits)
    then show ?thesis using 1(1) [OF n] decode_step [OF n(1)] decode_seq [OF n(1)] by simp
  qed simp
qed

lemma decode_encode: "\<forall>c \<in> set cs. scalar c \<Longrightarrow> decode_text (encode_text cs) = cs \<and> utf8_valid (encode_text cs)"
proof (induction cs)
  case (Cons c cs)
  note s = encode_char_seq(1) [of c "encode_text cs"] encode_char_seq(2) [of c]
  have "utf8_valid (encode_text (c # cs))"
    using Cons s by (subst utf8_valid.simps) simp
  then show ?case using Cons s decode_step [of "encode_text (c # cs)"] by simp
qed simp

lemma decode_append: "utf8_valid a \<Longrightarrow> utf8_valid b \<Longrightarrow> decode_text (a @ b) = decode_text a @ decode_text b"
proof -
  assume ab: "utf8_valid a" "utf8_valid b"
  have "\<forall>c \<in> set (decode_text a @ decode_text b). scalar c" using encode_decode [OF ab(1)] encode_decode [OF ab(2)] by auto
  then have "decode_text (encode_text (decode_text a @ decode_text b)) = decode_text a @ decode_text b" using decode_encode by blast
  then show ?thesis using encode_decode [OF ab(1)] encode_decode [OF ab(2)] by simp
qed

text \<open>ASCII stands for itself.\<close>

lemma encode_ascii: "unat c < 128 \<Longrightarrow> encode_char c = [ucast c]"
  by (simp add: encode_char_def)

lemma decode_ascii_cons: "b < 0x80 \<Longrightarrow> decode_text (b # bs) = ucast b # decode_text bs"
  using decode_step [of "b # bs" 1] by simp

lemma decode_ascii: "\<forall>b \<in> set bs. b < 0x80 \<Longrightarrow> decode_text bs = map ucast bs"
  by (induction bs) (simp_all add: decode_ascii_cons)

lemma encode_high: "128 \<le> unat c \<Longrightarrow> scalar c \<Longrightarrow> b \<in> set (encode_char c) \<Longrightarrow> 0x80 \<le> b"
proof -
  assume c: "128 \<le> unat c" "scalar c" and b: "b \<in> set (encode_char c)"
  have n: "unat c < 1114112" using c(2) by (auto simp: scalar_def)
  have m: "k mod 64 < (64 :: nat)" for k by simp
  have d: "unat c < 2048 \<Longrightarrow> unat c div 64 < 32" "unat c < 65536 \<Longrightarrow> unat c div 4096 < 16" "unat c div 262144 < 5"
    using n by (simp_all add: div_less_iff_less_mult)
  have "\<exists>k. b = word_of_nat k \<and> 128 \<le> k \<and> k < 256"
    using b c(1) d m [of "unat c"] m [of "unat c div 64"] m [of "unat c div 4096"]
    unfolding encode_char_def Let_def by (simp del: of_nat_add split: if_splits) (elim disjE; rule exI, rule conjI, assumption, simp)+
  then show ?thesis by (auto simp: word_le_nat_alt unat_small)
qed

lemma utf8_valid_ascii_cons: "b < 0x80 \<Longrightarrow> utf8_valid (b # bs) = utf8_valid bs"
  by (simp add: utf8_valid.simps [of "b # bs"])

end
