(* ===== verification/Folded.thy ===== *)
theory Folded
  imports Text Names "HOL-Library.Sublist"
begin

text \<open>
  The folder of the name arena, \<open>Folded\<close> in \<open>crates/scour-index-native/src/names.rs\<close>: case
  folding into a buffer of \<open>FOLD_CAP\<close> bytes, ASCII in bulk, the two-byte characters through a
  table.  What Unicode lowers a character to is the parameter \<open>unicode\<close> of \<open>Chars\<close>.

  The lemmas show that it writes what \<open>DefaultFolder\<close> of scour-core writes as long as that
  fits the buffer, and a prefix of it in any case.
\<close>

section \<open>The folder\<close>

definition FOLD_CAP :: nat where "FOLD_CAP = 1024"

text \<open>One slot of \<open>two_byte_table\<close>, for the character \<open>c\<close>; nothing is zero.\<close>

definition two_byte_entry :: "unicode \<Rightarrow> uchar \<Rightarrow> u16" where
  "two_byte_entry u c =
     (case to_lowercase u c of
        [first] \<Rightarrow>
          let first = (if first = 0x131 then 0x69 else first)
          in if first = 0x307 then 0
             else if 0x80 \<le> first \<and> first < 0x800 then ucast first
             else if first < 0x80 then 0x8000 OR ucast first
             else 0
      | _ \<Rightarrow> 0)"

text \<open>The characters of a lower case, written while they fit; the flag says that one did not.\<close>

fun lower_loop :: "chars \<Rightarrow> bytes \<Rightarrow> bool \<times> bytes" where
  "lower_loop [] buf = (False, buf)"
| "lower_loop (lc # lcs) buf =
     (let lc = (if lc = 0x131 then 0x69 else lc)
      in if lc = 0x307 then lower_loop lcs buf
         else if FOLD_CAP < length buf + length (encode_char lc) then (True, buf)
         else lower_loop lcs (buf @ encode_char lc))"

text \<open>One character that is not ASCII: the flag says that the buffer is full.\<close>

definition fold_char :: "unicode \<Rightarrow> uchar \<Rightarrow> bytes \<Rightarrow> bool \<times> bytes" where
  "fold_char u c buf =
     (let entry = (if 0x80 \<le> c \<and> c < 0x800 then two_byte_entry u c else 0)
      in if entry \<noteq> 0 then
           if entry AND 0x8000 = 0 then
             let wrote = encode_char (ucast entry)
             in if FOLD_CAP < length buf + length wrote then (True, buf) else (False, buf @ wrote)
           else if FOLD_CAP \<le> length buf then (True, buf)
           else (False, buf @ [ucast (entry AND 0x7fff)])
         else lower_loop (to_lowercase u c) buf)"

function fold_loop :: "unicode \<Rightarrow> bytes \<Rightarrow> bytes \<Rightarrow> bytes" where
  "fold_loop u raw buf =
     (if raw = [] then buf
      else
        let run = takeWhile (\<lambda>b. b < 0x80) raw; rest = dropWhile (\<lambda>b. b < 0x80) raw
        in if run \<noteq> [] \<and> FOLD_CAP < length buf + length run then buf
           else
             let buf = buf @ map ascii_lower run
             in case utf8_seq rest of
                  None \<Rightarrow> buf
                | Some n \<Rightarrow>
                    (case fold_char u (code_of (take n rest)) buf of
                       (full, buf) \<Rightarrow> if full then buf else fold_loop u (drop n rest) buf))"
  by pat_completeness auto
termination
proof (relation "measure (\<lambda>(u, raw, buf). length raw)", goal_cases)
  case (2 u raw buf run rest buf' n full x)
  then show ?case
    using utf8_seq_bounds [of rest n] length_dropWhile_le [of "\<lambda>b. b < 0x80" raw] by (auto simp: less_le_trans)
qed auto

declare fold_loop.simps [simp del]

definition folded_bytes :: "unicode \<Rightarrow> bytes \<Rightarrow> bytes" where
  "folded_bytes u bs =
     (if length bs \<le> FOLD_CAP \<and> list_all (\<lambda>b. b < 0x80) bs then map ascii_lower bs
      else if \<not> utf8_valid bs then map ascii_lower (take FOLD_CAP bs)
      else fold_loop u bs [])"

section \<open>Against the canonical fold\<close>

text \<open>\<open>DefaultFolder::of\<close>, from bytes to bytes.\<close>

definition default_fold :: "unicode \<Rightarrow> bytes \<Rightarrow> bytes" where
  "default_fold u bs = encode_text (fold_text u (decode_text bs))"

text \<open>What the standard library documents of lower case: ASCII as ASCII, and never no character.\<close>

definition lowers :: "unicode \<Rightarrow> bool" where
  "lowers u \<longleftrightarrow> (\<forall>b :: u8. b < 0x80 \<longrightarrow> to_lowercase u (ucast b) = [ucast (ascii_lower b)])
     \<and> (\<forall>c. scalar c \<longrightarrow> (\<forall>lc \<in> set (to_lowercase u c). scalar lc))"

text \<open>What one character adds.\<close>

definition char_fold :: "unicode \<Rightarrow> uchar \<Rightarrow> bytes" where
  "char_fold u c = encode_text (concat (map fold_one (to_lowercase u c)))"

lemma encode_fold_text: "encode_text (fold_text u cs) = concat (map (char_fold u) cs)"
  by (induction cs) (simp_all add: fold_text_concat char_fold_def)

lemma ascii_lower_less: "b < 0x80 \<Longrightarrow> ascii_lower b < 0x80"
  by (auto simp: ascii_lower_def word_less_nat_alt word_le_nat_alt unat_word_ariths)

lemma char_fold_ascii:
  assumes "lowers u" "b < 0x80"
  shows "char_fold u (ucast b) = [ascii_lower b]"
proof -
  have l: "unat (ucast (ascii_lower b) :: uchar) < 128" "ucast (ucast (ascii_lower b) :: uchar) = ascii_lower b"
    using ascii_lower_less [OF assms(2)]
    by (simp_all add: word_less_nat_alt unsigned_ucast_eq unat_narrow ucast_up_ucast_id is_up)
  have "to_lowercase u (ucast b) = [ucast (ascii_lower b)]" using assms by (simp add: lowers_def)
  moreover have "ucast (ascii_lower b) \<noteq> (0x307 :: uchar)" "ucast (ascii_lower b) \<noteq> (0x131 :: uchar)"
    using l(1) by (auto simp: word_unat_eq_iff)
  ultimately show ?thesis using l by (simp add: char_fold_def fold_one_def encode_ascii)
qed

text \<open>A step that either adds the whole of what it should, or stops with a part of it.\<close>

definition adds :: "bytes \<Rightarrow> bytes \<Rightarrow> bool \<times> bytes \<Rightarrow> bool" where
  "adds buf want r \<longleftrightarrow>
     (if fst r then FOLD_CAP < length buf + length want \<and> (\<exists>a b. snd r = buf @ a \<and> want = a @ b)
      else snd r = buf @ want)"

lemma lower_loop_adds: "adds buf (encode_text (concat (map fold_one lcs))) (lower_loop lcs buf)"
proof (induction lcs arbitrary: buf)
  case Nil
  then show ?case by (simp add: adds_def)
next
  case (Cons lc lcs)
  define lc' where "lc' = (if lc = 0x131 then 0x69 else lc)"
  have one: "fold_one lc = (if lc' = 0x307 then [] else [lc'])" by (simp add: fold_one_def lc'_def)
  show ?case
  proof (cases "lc' = 0x307 \<or> FOLD_CAP < length buf + length (encode_char lc')")
    case True
    then show ?thesis
      using Cons [of buf] one by (auto simp: lc'_def [symmetric] Let_def adds_def)
  next
    case False
    then have "lower_loop (lc # lcs) buf = lower_loop lcs (buf @ encode_char lc')" by (simp add: lc'_def [symmetric] Let_def)
    then show ?thesis
      using Cons [of "buf @ encode_char lc'"] False one by (auto simp: adds_def)
  qed
qed

text \<open>A 16-bit entry whose high bit is free, and one whose high bit is set.\<close>

lemma low_entry:
  assumes "unat (w :: u16) < 0x800"
  shows "w AND 0x8000 = 0" "w AND 0x7fff = w"
proof -
  have "take_bit 11 w = w"
    using assms by (simp add: word_unat_eq_iff unsigned_take_bit_eq take_bit_nat_eq_self)
  then have w: "w = w AND 0x7ff" by (simp add: take_bit_eq_mask mask_eq_exp_minus_1)
  show "w AND 0x8000 = 0" by (subst w) (simp add: and.assoc)
  show "w AND 0x7fff = w" by (subst w, subst (2) w) (simp add: and.assoc)
qed

lemma high_entry:
  assumes "unat (w :: u16) < 0x80"
  shows "(0x8000 OR w) AND 0x8000 \<noteq> 0" "(0x8000 OR w) AND 0x7fff = w" "0x8000 OR w \<noteq> 0"
proof -
  have w: "w AND 0x8000 = 0" "w AND 0x7fff = w" using assms by (simp_all add: low_entry)
  show a: "(0x8000 OR w) AND 0x8000 \<noteq> 0" by (simp add: bit.conj_disj_distrib2 w)
  show "(0x8000 OR w) AND 0x7fff = w" by (simp add: bit.conj_disj_distrib2 w)
  show "0x8000 OR w \<noteq> 0" using a by (metis bit.conj_zero_left)
qed

lemma two_byte_fold:
  assumes "two_byte_entry u c \<noteq> 0"
  obtains lc where "char_fold u c = encode_char lc"
    "two_byte_entry u c AND 0x8000 = 0 \<Longrightarrow> ucast (two_byte_entry u c) = lc"
    "two_byte_entry u c AND 0x8000 \<noteq> 0 \<Longrightarrow> [ucast (two_byte_entry u c AND 0x7fff)] = encode_char lc"
proof -
  obtain first where l: "to_lowercase u c = [first]"
    using assms by (auto simp: two_byte_entry_def split: list.splits)
  define lc where "lc = (if first = 0x131 then 0x69 else first)"
  have e: "two_byte_entry u c = (if lc = 0x307 then 0
      else if 0x80 \<le> lc \<and> lc < 0x800 then ucast lc else if lc < 0x80 then 0x8000 OR ucast lc else 0)"
    by (simp add: two_byte_entry_def l lc_def [symmetric] Let_def)
  have ne: "lc \<noteq> 0x307" using assms e by auto
  then have f: "char_fold u c = encode_char lc" by (auto simp: char_fold_def l fold_one_def lc_def)
  show thesis
  proof (cases "lc < 0x80")
    case True
    then have u: "unat lc < 128" by (simp add: word_less_nat_alt)
    have w: "unat (ucast lc :: u16) < 0x80" using u by (simp add: unsigned_ucast_eq unsigned_take_bit_eq take_bit_nat_eq_self)
    have "\<not> (0x80 \<le> lc \<and> lc < 0x800)" using True by auto
    then have e2: "two_byte_entry u c = 0x8000 OR ucast lc" using e ne True by (simp only: if_False if_True)
    have "ucast (ucast lc :: u16) = (ucast lc :: u8)" by (rule bit_word_eqI) (simp add: bit_simps)
    then show thesis
      using that [OF f] high_entry [OF w] encode_ascii [OF u] by (simp add: e2)
  next
    case False
    then have r: "0x80 \<le> lc \<and> lc < 0x800" using assms e by (auto split: if_splits)
    then have e2: "two_byte_entry u c = ucast lc" using e ne by simp
    have u: "unat lc < 0x800" using r by (simp add: word_less_nat_alt)
    have w: "unat (ucast lc :: u16) = unat lc" using u by (simp add: unsigned_ucast_eq unsigned_take_bit_eq take_bit_nat_eq_self)
    then have "unat (ucast (ucast lc :: u16) :: uchar) = unat lc"
      using u by (simp only: unsigned_ucast_eq unsigned_take_bit_eq) (simp add: take_bit_nat_eq_self)
    then have "ucast (ucast lc :: u16) = lc" by (simp only: word_unat_eq_iff)
    then show thesis
      using that [OF f] low_entry [of "ucast lc"] w u by (simp add: e2)
  qed
qed

lemma fold_char_adds: "adds buf (char_fold u c) (fold_char u c buf)"
proof (cases "0x80 \<le> c \<and> c < 0x800 \<and> two_byte_entry u c \<noteq> 0")
  case True
  then obtain lc where lc: "char_fold u c = encode_char lc"
    "two_byte_entry u c AND 0x8000 = 0 \<Longrightarrow> ucast (two_byte_entry u c) = lc"
    "two_byte_entry u c AND 0x8000 \<noteq> 0 \<Longrightarrow> [ucast (two_byte_entry u c AND 0x7fff)] = encode_char lc"
    using two_byte_fold by blast
  show ?thesis
  proof (cases "two_byte_entry u c AND 0x8000 = 0")
    case low: True
    then show ?thesis using True lc(1,2) by (auto simp: fold_char_def adds_def Let_def)
  next
    case False
    note one = lc(3) [OF False]
    show ?thesis
      using True False by (auto simp: fold_char_def adds_def Let_def lc(1) one [symmetric])
  qed
next
  case False
  then have "fold_char u c buf = lower_loop (to_lowercase u c) buf" by (auto simp: fold_char_def Let_def)
  then show ?thesis using lower_loop_adds by (simp add: char_fold_def)
qed

lemma default_fold_Nil [simp]: "default_fold u [] = []"
  by (simp add: default_fold_def)

lemma default_fold_append:
  "utf8_valid a \<Longrightarrow> utf8_valid b \<Longrightarrow> default_fold u (a @ b) = default_fold u a @ default_fold u b"
  by (simp add: default_fold_def decode_append)

lemma default_fold_ascii:
  assumes "lowers u"
  shows "\<forall>b \<in> set bs. b < 0x80 \<Longrightarrow> default_fold u bs = map ascii_lower bs"
proof (induction bs)
  case (Cons b bs)
  then show ?case
    using char_fold_ascii [OF assms, of b] by (simp add: default_fold_def decode_ascii_cons encode_fold_text)
qed simp

lemma default_fold_step:
  "utf8_seq bs = Some n \<Longrightarrow> default_fold u bs = char_fold u (code_of (take n bs)) @ default_fold u (drop n bs)"
  by (simp add: default_fold_def decode_step encode_fold_text)

text \<open>What is written is a prefix of the fold, and all of it where all of it fits.\<close>

definition writes :: "bytes \<Rightarrow> bytes \<Rightarrow> bytes \<Rightarrow> bool" where
  "writes buf want out \<longleftrightarrow> (\<exists>a b. out = buf @ a \<and> want = a @ b \<and> (length buf + length want \<le> FOLD_CAP \<longrightarrow> b = []))"

lemma fold_loop_writes:
  assumes "lowers u"
  shows "utf8_valid raw \<Longrightarrow> writes buf (default_fold u raw) (fold_loop u raw buf)"
proof (induction "length raw" arbitrary: raw buf rule: less_induct)
  case less
  define run where "run = takeWhile (\<lambda>b. b < 0x80) raw"
  define rest where "rest = dropWhile (\<lambda>b. b < 0x80) raw"
  have raw: "raw = run @ rest" by (simp add: run_def rest_def)
  have ascii: "\<forall>b \<in> set run. b < 0x80" by (auto simp: run_def dest: set_takeWhileD)
  have vr: "utf8_valid run" "utf8_valid rest"
    using utf8_valid_ascii [OF ascii] utf8_valid_append [OF utf8_valid_ascii [OF ascii], of rest] less.prems raw by auto
  have want: "default_fold u raw = map ascii_lower run @ default_fold u rest"
    using default_fold_append [OF vr] default_fold_ascii [OF assms ascii] raw by simp
  show ?case
  proof (cases "raw = [] \<or> run \<noteq> [] \<and> FOLD_CAP < length buf + length run")
    case True
    then have out: "fold_loop u raw buf = buf"
      by (auto simp: fold_loop.simps [of u raw] run_def [symmetric] rest_def [symmetric] Let_def)
    have "length buf + length (default_fold u raw) \<le> FOLD_CAP \<Longrightarrow> default_fold u raw = []"
      using True want by auto
    then show ?thesis unfolding writes_def out by (intro exI [of _ "[]"] exI [of _ "default_fold u raw"]) simp
  next
    case False
    let ?buf = "buf @ map ascii_lower run"
    show ?thesis
    proof (cases "rest = []")
      case True
      then have "fold_loop u raw buf = ?buf"
        using False by (simp add: fold_loop.simps [of u raw] run_def [symmetric] rest_def [symmetric] Let_def)
      then show ?thesis unfolding writes_def want using True by auto
    next
      case ne: False
      then obtain n where n: "utf8_seq rest = Some n" "utf8_valid (drop n rest)"
        using vr(2) by (auto simp: utf8_valid.simps [of rest] split: option.splits)
      let ?c = "code_of (take n rest)"
      obtain full out where f: "fold_char u ?c ?buf = (full, out)" by fastforce
      have add: "adds ?buf (char_fold u ?c) (full, out)" using fold_char_adds [of ?buf u ?c] f by simp
      have eq: "fold_loop u raw buf = (if full then out else fold_loop u (drop n rest) out)"
        using False n f by (auto simp: fold_loop.simps [of u raw] run_def [symmetric] rest_def [symmetric] Let_def)
      note w2 = default_fold_step [OF n(1), of u]
      show ?thesis
      proof (cases full)
        case True
        then show ?thesis using add eq unfolding adds_def writes_def want w2 by auto
      next
        case go: False
        have "length (drop n rest) < length raw"
          using utf8_seq_bounds [OF n(1)] arg_cong [OF raw, of length] by (simp del: length_0_conv) linarith
        from less.hyps [OF this n(2), of out]
        obtain a b where ab: "fold_loop u (drop n rest) out = out @ a" "default_fold u (drop n rest) = a @ b"
          "length out + length (default_fold u (drop n rest)) \<le> FOLD_CAP \<longrightarrow> b = []"
          by (auto simp: writes_def)
        have "out = ?buf @ char_fold u ?c" using add go by (simp add: adds_def)
        then show ?thesis
          using ab eq go unfolding writes_def want w2
          by (intro exI [of _ "map ascii_lower run @ char_fold u ?c @ a"] exI [of _ b]) auto
      qed
    qed
  qed
qed

lemma folded_bytes_writes:
  assumes "lowers u" "utf8_valid bs"
  shows "writes [] (default_fold u bs) (folded_bytes u bs)"
proof (cases "length bs \<le> FOLD_CAP \<and> list_all (\<lambda>b. b < 0x80) bs")
  case True
  then show ?thesis
    using default_fold_ascii [OF assms(1), of bs] by (auto simp: writes_def folded_bytes_def list_all_iff)
next
  case False
  then have "folded_bytes u bs = fold_loop u bs []" using assms(2) unfolding folded_bytes_def by (simp only: if_False not_True_eq_False simp_thms)
  then show ?thesis using fold_loop_writes [OF assms, of "[]"] by simp
qed

lemma folded_bytes_whole:
  assumes "lowers u" "utf8_valid bs" "length (default_fold u bs) \<le> FOLD_CAP"
  shows "folded_bytes u bs = default_fold u bs"
  using folded_bytes_writes [OF assms(1,2)] assms(3) by (auto simp: writes_def)

section \<open>Properties\<close>

text \<open>
  C18: the folder of the index folds as the folder of the query does.  For any text whose fold
  fits the buffer, \<open>fold_bytes\<close> with its bulk ASCII path and its two-byte table writes exactly
  the bytes \<open>DefaultFolder\<close> makes; for a longer one it writes a prefix of them.
\<close>

theorem folders_agree:
  assumes "lowers u" "utf8_valid bs"
  shows "(length (default_fold u bs) \<le> FOLD_CAP \<longrightarrow> folded_bytes u bs = default_fold u bs)
    \<and> prefix (folded_bytes u bs) (default_fold u bs)"
  using folded_bytes_writes [OF assms] by (auto simp: writes_def)

lemma ascii_lowers: "lowers ascii_unicode"
proof -
  have "to_lowercase ascii_unicode (ucast b) = [ucast (ascii_lower b)]" if "b < 0x80" for b :: u8
  proof -
    have b: "unat b < 128" using that by (simp add: word_less_nat_alt)
    have c: "(0x41 \<le> (ucast b :: uchar)) = (0x41 \<le> b)" "((ucast b :: uchar) \<le> 0x5a) = (b \<le> 0x5A)"
      by (simp_all add: word_le_nat_alt unsigned_ucast_eq unat_narrow)
    have "(ucast b :: uchar) + 32 = ucast (b + 0x20)" if "b \<le> 0x5A"
      using that b by (simp add: word_unat_eq_iff unat_word_ariths unsigned_ucast_eq unat_narrow word_le_nat_alt take_bit_nat_eq_self)
    then show ?thesis using c by (simp add: ascii_unicode_def ascii_lower_def)
  qed
  moreover have "scalar lc" if "scalar c" "lc \<in> set (to_lowercase ascii_unicode c)" for c lc
    using that by (auto simp: ascii_unicode_def scalar_def word_le_nat_alt unat_word_ariths split: if_splits)
  ultimately show ?thesis by (simp add: lowers_def)
qed

theorem folders_agree_witness:
  "folded_bytes ascii_unicode (str ''RAPOR.pdf'') = str ''rapor.pdf''"
proof -
  have a: "\<forall>b \<in> set (str ''RAPOR.pdf''). b < 0x80" by simp
  have d: "default_fold ascii_unicode (str ''RAPOR.pdf'') = str ''rapor.pdf''"
    using default_fold_ascii [OF ascii_lowers a] by (simp add: ascii_lower_def)
  show ?thesis
    using folders_agree [OF ascii_lowers utf8_valid_ascii [OF a]] d by (simp add: FOLD_CAP_def)
qed

text \<open>
  A text of more bytes than the buffer that is all ASCII folds to nothing at all: the whole of
  it is one run, and the run does not fit.
\<close>

theorem long_ascii_folds_to_nothing:
  assumes "list_all (\<lambda>b. b < 0x80) bs" "FOLD_CAP < length bs"
  shows "folded_bytes u bs = []"
proof -
  have run: "takeWhile (\<lambda>b. b < 0x80) bs = bs" using assms(1) by (simp add: takeWhile_eq_all_conv list_all_iff)
  have "utf8_valid bs" using assms(1) by (intro utf8_valid_ascii) (simp add: list_all_iff)
  have "bs \<noteq> []" using assms(2) by auto
  then have "fold_loop u bs [] = []" using assms(2) unfolding fold_loop.simps [of u bs] run Let_def by simp
  with \<open>utf8_valid bs\<close> show ?thesis using assms by (simp add: folded_bytes_def)
qed

theorem long_ascii_folds_to_nothing_witness: "folded_bytes u (replicate 1025 0x61) = []"
  by (rule long_ascii_folds_to_nothing) (simp_all add: FOLD_CAP_def list_all_iff)

end
