(* ===== verification/Reference.thy ===== *)
theory Reference
  imports Build Folded Glob Ast Errors
begin

text \<open>
  The obviously correct answer: every condition of a query written the slow, direct way over an
  entry, \<open>crates/scour-mock/src/reference.rs\<close>.  The tests of the program compare its index with
  it; here it is the specification of the compiled query.

  Code of other crates is a record of parameters: \<open>memchr\<close> and its substring search, the
  \<open>regex\<close> crate, and the Unicode tables of the standard library.
\<close>

section \<open>What lies outside\<close>

record outside =
  x_memchr :: "u8 \<Rightarrow> bytes \<Rightarrow> nat option"
  x_memmem :: "bytes \<Rightarrow> bytes \<Rightarrow> nat option"
  x_regex :: "bytes \<Rightarrow> chars + (bytes \<Rightarrow> bool)"
  x_unicode :: unicode

text \<open>\<open>memmem::find(haystack, needle)\<close>: the first place the needle is at, if it is anywhere.\<close>

definition memmem_law :: "(bytes \<Rightarrow> bytes \<Rightarrow> nat option) \<Rightarrow> bool" where
  "memmem_law memmem \<longleftrightarrow>
     (\<forall>h n. memmem h n = find (\<lambda>i. starts_with n (drop i h)) [0 ..< Suc (length h)])"

definition outside_ok :: "outside \<Rightarrow> bool" where
  "outside_ok x \<longleftrightarrow> memchr_law (x_memchr x) \<and> memmem_law (x_memmem x) \<and> lowers (x_unicode x)"

lemma memmem_contains: "memmem_law memmem \<Longrightarrow> memmem h n \<noteq> None \<longleftrightarrow> contains n h"
proof -
  assume m: "memmem_law memmem"
  have "memmem h n \<noteq> None \<longleftrightarrow> (\<exists>i < Suc (length h). starts_with n (drop i h))"
    using m find_None_iff [of "\<lambda>i. starts_with n (drop i h)" "[0 ..< Suc (length h)]"]
    unfolding memmem_law_def by (auto simp del: upt_Suc)
  also have "\<dots> \<longleftrightarrow> contains n h"
  proof
    assume "\<exists>i < Suc (length h). starts_with n (drop i h)"
    then obtain i r where "drop i h = n @ r" by (auto simp: starts_with_iff)
    then have "h = take i h @ n @ r" by (metis append_take_drop_id)
    then show "contains n h" unfolding contains_iff by blast
  next
    assume "contains n h"
    then obtain a b where h: "h = a @ n @ b" by (auto simp: contains_iff)
    then have "starts_with n (drop (length a) h)" by (auto simp: starts_with_iff)
    moreover have "length a < Suc (length h)" by (simp add: h)
    ultimately show "\<exists>i < Suc (length h). starts_with n (drop i h)" by blast
  qed
  finally show ?thesis .
qed

section \<open>The reference\<close>

abbreviation fold_str :: "outside \<Rightarrow> bytes \<Rightarrow> bytes" where
  "fold_str x \<equiv> default_fold (x_unicode x)"

text \<open>\<open>ext_of\<close> and \<open>Entry::ext\<close> (entry.rs).\<close>

definition ext_of :: "outside \<Rightarrow> bytes \<Rightarrow> bytes" where
  "ext_of x name = fold_str x (ext_str name)"

definition entry_ext :: "outside \<Rightarrow> entry \<Rightarrow> bytes" where
  "entry_ext x e = (if e_is_dir e then [] else ext_of x (entry_name (e_path e)))"

fun ref_num :: "entry \<Rightarrow> num_field \<Rightarrow> i64" where
  "ref_num e num_field.Mode = m_mode (e_meta e)"
| "ref_num e num_field.Uid = m_uid (e_meta e)"
| "ref_num e num_field.Gid = m_gid (e_meta e)"
| "ref_num e num_field.Items = m_items (e_meta e)"
| "ref_num e num_field.Disk = m_disk (e_meta e)"

fun ref_time :: "entry \<Rightarrow> time_field \<Rightarrow> i64" where
  "ref_time e time_field.Modified = m_mtime (e_meta e)"
| "ref_time e time_field.Created = m_ctime (e_meta e)"
| "ref_time e time_field.Accessed = m_atime (e_meta e)"

text \<open>\<open>got >= v && got < v + span\<close>, the sum wrapping as a release build's does.\<close>

definition in_window :: "int \<Rightarrow> int \<Rightarrow> int \<Rightarrow> bool" where
  "in_window got v span \<longleftrightarrow> v \<le> got \<and> got < wrap (v + span)"

fun matches_one :: "outside \<Rightarrow> entry \<Rightarrow> bytes match \<Rightarrow> bool" where
  "matches_one x e (NameContains t) = contains t (fold_str x (entry_name (e_path e)))"
| "matches_one x e (NameGlob p) =
     (glob_matches (decode_text p) (decode_text (fold_str x (entry_name (e_path e)))) = Some True)"
| "matches_one x e (PathContains t) = contains t (fold_str x (e_path e))"
| "matches_one x e (Under d) =
     (let d = trim_slash d
      in length d < length (e_path e) \<and> starts_with d (e_path e)
         \<and> (d = [] \<or> nth_opt (e_path e) (length d) = Some SLASH))"
| "matches_one x e (ParentIs d) =
     (entry_parent (e_path e) = trim_slash d \<or> d = [SLASH] \<and> entry_parent (e_path e) = [SLASH])"
| "matches_one x e (match.Ext list) = (entry_ext x e \<in> set list)"
| "matches_one x e (match.IsDir want) = (e_is_dir e = want)"
| "matches_one x e (match.Size c v) = cmp_holds c (sint (m_size (e_meta e))) v"
| "matches_one x e (match.Num f c v) = cmp_holds c (sint (ref_num e f)) v"
| "matches_one x e (match.NameLen c v) = cmp_holds c (int (length (decode_text (entry_name (e_path e))))) v"
| "matches_one x e (NameContainsCased t) = contains t (entry_name (e_path e))"
| "matches_one x e (match.Depth c v) = cmp_holds c (int (length (filter (\<lambda>b. b = SLASH) (e_path e)))) v"
| "matches_one x e (match.Regex p) =
     (case x_regex x p of Inl _ \<Rightarrow> False | Inr re \<Rightarrow> re (fold_str x (entry_name (e_path e))))"
| "matches_one x e (match.Bits f msk want any) =
     (let got = sint (ref_num e f AND word_of_int msk) in if any then got \<noteq> 0 else got = want)"
| "matches_one x e (match.Kind ks) = (entry_kind (fold_str x) e \<in> set ks)"
| "matches_one x e (match.Time f c v) =
     (case c of
        cmp_op.Eq \<Rightarrow> in_window (sint (ref_time e f)) v 86400
      | c \<Rightarrow> cmp_holds c (sint (ref_time e f)) v)"
| "matches_one x e (ContentContains t) = False"

definition ref_matches :: "outside \<Rightarrow> entry \<Rightarrow> bytes ast \<Rightarrow> bool" where
  "ref_matches x e q \<longleftrightarrow>
     list_all (\<lambda>g. list_ex (\<lambda>(negated, m). matches_one x e m \<noteq> negated) (alts g)) (groups q)"

end
