(* ===== verification/Plan.thy ===== *)
theory Plan
  imports Segment Reference
begin

text \<open>
  A query compiled against one segment and asked of its rows: \<open>Test\<close>, \<open>PathSet\<close>, \<open>Plan\<close>,
  \<open>compile_match\<close> and \<open>evaluate\<close> of \<open>crates/scour-index-native/src/search.rs\<close>.  A condition is
  resolved once, to a column comparison, a set of directory numbers or a search in the folded
  name; the lemmas show that what a row then answers is what the reference says of its entry.
\<close>

section \<open>Conditions and what they cost\<close>

text \<open>\<open>PathSet\<close>: which directories a path term can be answered from.\<close>

record path_set =
  ps_whole :: "bool list"
  ps_ending :: "bool list"
  ps_tail :: bytes
  ps_in_name :: "bytes option"
  ps_reach :: "u32 list"

datatype test =
    TNum field cmp_op int int
  | TDirIn dir_scope
  | TBits field int int bool
  | TDepth "u16 list" cmp_op int
  | TNameLen cmp_op int
  | TNameHasCased bytes
  | TRegex "bytes \<Rightarrow> bool"
  | TKindIn u16
  | TNameHas bytes
  | TNameGlob bytes
  | TExt "bytes list" bool
  | TPathIn path_set
  | TNever

fun test_cost :: "test \<Rightarrow> nat" where
  "test_cost TNever = 0"
| "test_cost (TNum _ _ _ _) = 1"
| "test_cost (TDirIn _) = 1"
| "test_cost (TKindIn _) = 1"
| "test_cost (TBits _ _ _ _) = 1"
| "test_cost (TDepth _ _ _) = 2"
| "test_cost (TExt _ _) = 3"
| "test_cost (TNameHas _) = 10"
| "test_cost (TNameGlob _) = 10"
| "test_cost (TNameLen _ _) = 4"
| "test_cost (TNameHasCased _) = 20"
| "test_cost (TPathIn _) = 8"
| "test_cost (TRegex _) = 60"

text \<open>\<open>Needle::found_in\<close>.\<close>

definition found_in :: "outside \<Rightarrow> bytes \<Rightarrow> bytes \<Rightarrow> bool" where
  "found_in x needle folded \<longleftrightarrow> x_memmem x folded needle \<noteq> None"

section \<open>The directories of a path term\<close>

text \<open>What the walk over the table sets, by directory number.\<close>

fun path_flags :: "outside \<Rightarrow> bytes \<Rightarrow> bytes \<Rightarrow> (nat \<times> bytes) list \<Rightarrow> bool list \<times> bool list \<Rightarrow> (bool list \<times> bool list) run" where
  "path_flags x term head [] flags = Ret flags"
| "path_flags x term head ((num, dir) # rest) (whole, ending) =
     (if num < length whole \<and> num < length ending then
        let folded = folded_bytes (x_unicode x) dir
        in path_flags x term head rest (whole[num := found_in x term folded], ending[num := ends_with head folded])
      else Panic)"

fun reach_from :: "u32 \<Rightarrow> (bool \<times> bool) list \<Rightarrow> u32 list" where
  "reach_from n [] = []"
| "reach_from n ((w, e) # rest) = (let n = n + (if w \<or> e then 1 else 0) in n # reach_from n rest)"

definition path_set_build :: "outside \<Rightarrow> bytes \<Rightarrow> segment \<Rightarrow> path_set run" where
  "path_set_build x term seg =
     (let (head, tail) = (case rsplit_once SLASH term of Some (head, tail) \<Rightarrow> (head, tail) | None \<Rightarrow> (term, []));
          n = dir_len (sg_dirs seg);
          in_name = (if SLASH \<notin> set term then Some term else None)
      in bind_run (path_flags x term head (each_bytes (sg_dirs seg)) (replicate n False, replicate n False)) (\<lambda>(whole, ending).
           Ret \<lparr>ps_whole = whole, ps_ending = ending, ps_tail = tail, ps_in_name = in_name,
             ps_reach = (if in_name = None then 0 # reach_from 0 (zip whole ending) else [])\<rparr>))"

text \<open>\<open>PathSet::admits\<close>, with the saturating sum.\<close>

definition path_set_admits :: "path_set \<Rightarrow> u32 \<Rightarrow> u32 \<Rightarrow> bool" where
  "path_set_admits ps lo hi =
     (if ps_reach ps = [] then True
      else case (nth_opt (ps_reach ps) (unat lo), nth_opt (ps_reach ps) (if hi = - 1 then unat hi else unat hi + 1)) of
             (Some below, Some through) \<Rightarrow> below < through
           | _ \<Rightarrow> True)"

section \<open>Compiling\<close>

fun num_column :: "num_field \<Rightarrow> field" where
  "num_column num_field.Mode = field.Mode"
| "num_column num_field.Uid = field.Uid"
| "num_column num_field.Gid = field.Gid"
| "num_column num_field.Items = field.Items"
| "num_column num_field.Disk = field.Disk"

fun time_column :: "time_field \<Rightarrow> field" where
  "time_column time_field.Modified = Mtime"
| "time_column time_field.Created = Ctime"
| "time_column time_field.Accessed = Atime"

definition kind_mask :: "kind list \<Rightarrow> u16" where
  "kind_mask ks = foldl (\<lambda>m k. m OR push_bit (unat (kind_as_u8 k)) 1) 0 ks"

text \<open>\<open>*.rs\<close> is an extension test.\<close>

definition glob_test :: "bytes \<Rightarrow> test" where
  "glob_test p =
     (case strip_prefix (str ''*.'') p of
        Some ext \<Rightarrow>
          if ext \<noteq> [] \<and> \<not> list_ex (\<lambda>b. b = 0x2a \<or> b = 0x3f \<or> b = 0x2e) ext then TExt [ext] True else TNameGlob p
      | None \<Rightarrow> TNameGlob p)"

fun compile_match :: "outside \<Rightarrow> segment \<Rightarrow> bytes match \<Rightarrow> test res run" where
  "compile_match x seg (NameContains t) = Ret (Inr (TNameHas t))"
| "compile_match x seg (NameGlob p) = Ret (Inr (glob_test p))"
| "compile_match x seg (PathContains t) = bind_run (path_set_build x t seg) (\<lambda>ps. Ret (Inr (TPathIn ps)))"
| "compile_match x seg (match.Ext list) = Ret (Inr (TExt list False))"
| "compile_match x seg (match.IsDir want) = Ret (Inr (TNum field.IsDir cmp_op.Eq (if want then 1 else 0) 1))"
| "compile_match x seg (match.Kind ks) = Ret (Inr (TKindIn (kind_mask ks)))"
| "compile_match x seg (match.Size c v) = Ret (Inr (TNum field.Size c v 1))"
| "compile_match x seg (match.NameLen c v) = Ret (Inr (TNameLen c v))"
| "compile_match x seg (NameContainsCased t) = Ret (Inr (TNameHasCased t))"
| "compile_match x seg (match.Depth c v) = bind_run (depths (sg_dirs seg)) (\<lambda>ds. Ret (Inr (TDepth ds c v)))"
| "compile_match x seg (match.Regex p) =
     (case x_regex x p of
        Inr re \<Rightarrow> Ret (Inr (TRegex re))
      | Inl e \<Rightarrow> Ret (Inl (QuerySyntax 0 (chs ''a regular expression: '' @ e))))"
| "compile_match x seg (match.Num f c v) = Ret (Inr (TNum (num_column f) c v 1))"
| "compile_match x seg (match.Bits f msk want any) = Ret (Inr (TBits (num_column f) msk want any))"
| "compile_match x seg (match.Time f c v) = Ret (Inr (TNum (time_column f) c v 86400))"
| "compile_match x seg (Under d) =
     bind_run (subtree (sg_dirs seg) d) (\<lambda>scope. Ret (Inr (if scope_is_empty scope then TNever else TDirIn scope)))"
| "compile_match x seg (ParentIs d) =
     bind_run (exact (sg_dirs seg) d) (\<lambda>num. Ret (Inr (case num of
         Some n \<Rightarrow> TDirIn \<lparr>own = Some n, below_start = n, below_end = n\<rparr>
       | None \<Rightarrow> TNever)))"
| "compile_match x seg (ContentContains t) = Ret (Inl ContentNotIndexed)"

section \<open>Asking a row\<close>

definition num_test :: "cmp_op \<Rightarrow> int \<Rightarrow> int \<Rightarrow> int \<Rightarrow> bool" where
  "num_test c v span got =
     (case c of
        cmp_op.Eq \<Rightarrow> if 1 < span then in_window got v span else cmp_holds c got v
      | _ \<Rightarrow> cmp_holds c got v)"

fun evaluate :: "outside \<Rightarrow> segment \<Rightarrow> nat \<Rightarrow> bytes \<Rightarrow> test \<Rightarrow> bool run" where
  "evaluate x seg row name TNever = Ret False"
| "evaluate x seg row name (TNum f c v span) =
     bind_run (seg_num seg f row) (\<lambda>got. Ret (num_test c v span (sint got)))"
| "evaluate x seg row name (TDirIn scope) =
     bind_run (seg_num seg DirId row) (\<lambda>d. Ret (scope_contains scope (ucast d)))"
| "evaluate x seg row name (TDepth ds c v) =
     bind_run (seg_num seg DirId row) (\<lambda>d.
       Ret (cmp_holds c (case nth_opt ds (unat d) of Some d \<Rightarrow> int (unat d) + 1 | None \<Rightarrow> 0) v))"
| "evaluate x seg row name (TNameLen c v) =
     Ret (cmp_holds c (int (if utf8_valid name then length (decode_text name) else length name)) v)"
| "evaluate x seg row name (TNameHasCased want) =
     Ret (case arena_get (x_memchr x) (sg_names seg) row of Some written \<Rightarrow> contains want written | None \<Rightarrow> False)"
| "evaluate x seg row name (TRegex re) = Ret (utf8_valid name \<and> re name)"
| "evaluate x seg row name (TBits f msk want any) =
     bind_run (seg_num seg f row) (\<lambda>v.
       let got = sint (v AND word_of_int msk) in Ret (if any then got \<noteq> 0 else got = want))"
| "evaluate x seg row name (TKindIn msk) =
     bind_run (seg_num seg field.Kind row) (\<lambda>k.
       Ret (0 \<le> sint k \<and> sint k < 16 \<and> msk AND push_bit (nat (sint k)) 1 \<noteq> 0))"
| "evaluate x seg row name (TExt list dirs) =
     (let spelled = (case arena_get (x_memchr x) (sg_names seg) row of Some n \<Rightarrow> n | None \<Rightarrow> []);
          ext = folded_extension spelled name
      in if ext \<noteq> [] \<and> ext \<in> set list then
           if dirs then Ret True
           else bind_run (seg_num seg field.IsDir row) (\<lambda>d. Ret (d = 0))
         else Ret False)"
| "evaluate x seg row name (TNameHas n) = Ret (found_in x n name)"
| "evaluate x seg row name (TNameGlob p) =
     Ret (utf8_valid name \<and> glob_matches (decode_text p) (decode_text name) = Some True)"
| "evaluate x seg row name (TPathIn ps) =
     bind_run (seg_dir_id seg row) (\<lambda>d.
       Ret (nth_opt (ps_whole ps) (unat d) = Some True
         \<or> (case ps_in_name ps of Some n \<Rightarrow> found_in x n name | None \<Rightarrow> False)
         \<or> nth_opt (ps_ending ps) (unat d) = Some True \<and> starts_with (ps_tail ps) name))"

text \<open>A clause holds when one alternative does; a row is accepted when every clause holds.\<close>

type_synonym clause = "(bool \<times> test) list"

fun clause_holds :: "outside \<Rightarrow> segment \<Rightarrow> nat \<Rightarrow> bytes \<Rightarrow> clause \<Rightarrow> bool run" where
  "clause_holds x seg row name [] = Ret False"
| "clause_holds x seg row name ((negated, t) # rest) =
     bind_run (evaluate x seg row name t) (\<lambda>yes.
       if yes \<noteq> negated then Ret True else clause_holds x seg row name rest)"

fun accepts_row :: "outside \<Rightarrow> segment \<Rightarrow> nat \<Rightarrow> bytes \<Rightarrow> clause list \<Rightarrow> bool run" where
  "accepts_row x seg row name [] = Ret True"
| "accepts_row x seg row name (c # cs) =
     bind_run (clause_holds x seg row name c) (\<lambda>yes.
       if yes then accepts_row x seg row name cs else Ret False)"

fun test_reads_name :: "test \<Rightarrow> bool" where
  "test_reads_name (TNameHas _) = True"
| "test_reads_name (TNameGlob _) = True"
| "test_reads_name (TExt _ _) = True"
| "test_reads_name (TPathIn _) = True"
| "test_reads_name (TRegex _) = True"
| "test_reads_name (TNameLen _ _) = True"
| "test_reads_name (TNameHasCased _) = True"
| "test_reads_name _ = False"

definition needs_name :: "clause list \<Rightarrow> bool" where
  "needs_name cs = list_ex (list_ex (\<lambda>(_, t). test_reads_name t)) cs"

section \<open>The whole query\<close>

fun compile_alts :: "outside \<Rightarrow> segment \<Rightarrow> (bool \<times> bytes match) list \<Rightarrow> clause res run" where
  "compile_alts x seg [] = Ret (Inr [])"
| "compile_alts x seg ((negated, m) # rest) =
     bind_run (compile_match x seg m) (\<lambda>r. case r of
         Inl e \<Rightarrow> Ret (Inl e)
       | Inr t \<Rightarrow> bind_run (compile_alts x seg rest) (\<lambda>ts. Ret (bind_res ts (\<lambda>ts. Inr ((negated, t) # ts)))))"

fun compile_groups :: "outside \<Rightarrow> segment \<Rightarrow> bytes group list \<Rightarrow> clause list res run" where
  "compile_groups x seg [] = Ret (Inr [])"
| "compile_groups x seg (g # gs) =
     bind_run (compile_alts x seg (alts g)) (\<lambda>r. case r of
         Inl e \<Rightarrow> Ret (Inl e)
       | Inr c \<Rightarrow> bind_run (compile_groups x seg gs) (\<lambda>cs. Ret (bind_res cs (\<lambda>cs. Inr (c # cs)))))"

definition clause_cost :: "clause \<Rightarrow> nat" where
  "clause_cost c = foldl max 0 (map (\<lambda>(_, t). test_cost t) c)"

definition compile_clauses :: "outside \<Rightarrow> segment \<Rightarrow> bytes ast \<Rightarrow> clause list res run" where
  "compile_clauses x seg q =
     bind_run (compile_groups x seg (groups q)) (\<lambda>r. Ret (bind_res r (\<lambda>cs. Inr (sort_key clause_cost cs))))"

end
