(* ===== verification/Marks.thy ===== *)
theory Marks
  imports Plan Live
begin

text \<open>
  Case folding and the two marks a path is cut at, the separator and the dot: a text folds piece
  by piece around them, and folding makes no new one.  With that the folded name's extension is
  the fold of the extension, and a term is in the fold of a path exactly when it is in the fold
  of the directory, in the fold of the name, or straddles the separator between them.
\<close>

section \<open>Text around an ASCII byte\<close>

lemma utf8_valid_around:
  assumes "b < 0x80"
  shows "utf8_valid (a @ b # c) \<longleftrightarrow> utf8_valid a \<and> utf8_valid c"
proof
  assume v: "utf8_valid (a @ b # c)"
  have "\<not> cont b" using assms by (auto simp: cont_def)
  then have at: "char_boundary (a @ b # c) (length a)" by (simp add: char_boundary_def)
  show "utf8_valid a \<and> utf8_valid c"
    using utf8_valid_take [OF v at] utf8_valid_drop [OF v at] utf8_valid_ascii_cons [OF assms] by simp
qed (simp add: utf8_valid_append utf8_valid_ascii_cons [OF assms])

lemma default_fold_cons:
  assumes "lowers u" "b < 0x80"
  shows "default_fold u (b # bs) = ascii_lower b # default_fold u bs"
  using char_fold_ascii [OF assms] assms(2) by (simp add: default_fold_def decode_ascii_cons encode_fold_text)

lemma default_fold_around:
  assumes "lowers u" "b < 0x80" "utf8_valid (a @ b # c)"
  shows "default_fold u (a @ b # c) = default_fold u a @ ascii_lower b # default_fold u c"
  using assms by (simp add: utf8_valid_around default_fold_append utf8_valid_ascii_cons default_fold_cons)

text \<open>What is folded is text.\<close>

lemma fold_text_scalar:
  assumes "lowers u" "\<forall>c \<in> set cs. scalar c"
  shows "\<forall>c \<in> set (fold_text u cs). scalar c"
proof -
  have "scalar (0x69 :: uchar)" by (simp add: scalar_def)
  then show ?thesis using assms by (auto simp: fold_text_concat fold_one_def lowers_def split: if_splits)
qed

lemma default_fold_text:
  assumes "lowers u" "utf8_valid bs"
  shows "utf8_valid (default_fold u bs)" "decode_text (default_fold u bs) = fold_text u (decode_text bs)"
  using fold_text_scalar [OF assms(1), of "decode_text bs"] encode_decode [OF assms(2)] decode_encode
  by (auto simp: default_fold_def)

section \<open>The marks\<close>

abbreviation FULL_STOP :: u8 where "FULL_STOP \<equiv> 0x2e"

definition path_mark :: "u8 \<Rightarrow> bool" where "path_mark m \<longleftrightarrow> m = SLASH \<or> m = FULL_STOP"

text \<open>Only a mark lowers to a mark.\<close>

definition keeps_marks :: "unicode \<Rightarrow> bool" where
  "keeps_marks u \<longleftrightarrow> (\<forall>c. scalar c \<longrightarrow> (\<forall>m. path_mark m \<longrightarrow> ucast m \<in> set (to_lowercase u c) \<longrightarrow> c = ucast m))"

lemma path_mark_small: "path_mark m \<Longrightarrow> m < 0x80"
  by (auto simp: path_mark_def)

lemma path_mark_lower [simp]: "path_mark m \<Longrightarrow> ascii_lower m = m"
  by (auto simp: path_mark_def ascii_lower_def)

lemma encode_char_mark:
  assumes "scalar c" "path_mark m" "m \<in> set (encode_char c)"
  shows "c = ucast m"
proof -
  have "unat c < 128" using encode_high [OF _ assms(1,3)] path_mark_small [OF assms(2)] by fastforce
  then have "m = ucast c" using assms(3) by (simp add: encode_ascii)
  then show ?thesis using \<open>unat c < 128\<close> by (simp add: word_unat_eq_iff unsigned_ucast_eq take_bit_nat_eq_self)
qed

lemma default_fold_mark:
  assumes u: "lowers u" "keeps_marks u" and m: "path_mark m"
  shows "utf8_valid bs \<Longrightarrow> m \<in> set (default_fold u bs) \<Longrightarrow> m \<in> set bs"
proof -
  assume v: "utf8_valid bs" and f: "m \<in> set (default_fold u bs)"
  note d = encode_decode [OF v]
  obtain c where c: "c \<in> set (decode_text bs)" "m \<in> set (char_fold u c)"
    using f by (auto simp: default_fold_def encode_fold_text)
  obtain d1 lc where lc: "d1 \<in> set (to_lowercase u c)" "lc \<in> set (fold_one d1)" "m \<in> set (encode_char lc)"
    using c(2) by (auto simp: char_fold_def encode_text_def)
  have sc: "scalar c" using c(1) d by blast
  have "scalar lc" using lc(1,2) sc u(1) by (auto simp: lowers_def fold_one_def scalar_def split: if_splits)
  then have "lc = ucast m" using lc(3) encode_char_mark [OF _ m] by blast
  then have "d1 = ucast m" using lc(2) m by (auto simp: fold_one_def path_mark_def split: if_splits)
  then have "c = ucast m" using u(2) sc m lc(1) by (auto simp: keeps_marks_def)
  moreover have "encode_char (ucast m :: uchar) = [m]"
    using m by (auto simp: path_mark_def encode_char_def)
  ultimately have "m \<in> set (encode_text (decode_text bs))" using c(1) by (auto simp: encode_text_def intro!: bexI [of _ "ucast m"])
  then show "m \<in> set bs" using d by simp
qed

text \<open>The last mark of a fold is the fold of the last mark.\<close>

lemma rsplit_once_none: "c \<notin> set p \<Longrightarrow> rsplit_once c p = None"
  by (simp add: rsplit_once_def)

lemma rsplit_once_some: "c \<notin> set q \<Longrightarrow> rsplit_once c (p @ c # q) = Some (p, q)"
  by (simp add: rsplit_once_def rfind_Some)

lemma rsplit_once_cases:
  obtains (none) "c \<notin> set p" "rsplit_once c p = None"
  | (some) q r where "p = q @ c # r" "c \<notin> set r" "rsplit_once c p = Some (q, r)"
  by (cases rule: rfind_cases [of c p]) (auto simp: rsplit_once_none rsplit_once_some)

lemma rsplit_fold:
  assumes "lowers u" "keeps_marks u" "path_mark m" "utf8_valid bs"
  shows "rsplit_once m (default_fold u bs)
    = map_option (\<lambda>(a, b). (default_fold u a, default_fold u b)) (rsplit_once m bs)"
proof (cases rule: rsplit_once_cases [of m bs])
  case none
  then show ?thesis using default_fold_mark [OF assms(1-4)] by (simp add: rsplit_once_none) (metis rsplit_once_none)
next
  case (some q r)
  then have "utf8_valid r" using assms(3,4) by (simp add: utf8_valid_around path_mark_small)
  then have "m \<notin> set (default_fold u r)" using some(2) default_fold_mark [OF assms(1-3)] by blast
  moreover have "default_fold u bs = default_fold u q @ m # default_fold u r"
    using default_fold_around [OF assms(1) path_mark_small [OF assms(3)], of q r] assms(3,4) some(1) by simp
  ultimately show ?thesis using some(3) by (simp add: rsplit_once_some)
qed

section \<open>Extensions\<close>

lemma rposition_dot_rfind: "rposition_dot name = rfind FULL_STOP name"
proof (cases rule: rfind_cases [of FULL_STOP name])
  case none
  then have "filter (\<lambda>i. name ! i = FULL_STOP) (rev [0 ..< length name]) = []"
    by (auto simp: filter_empty_conv in_set_conv_nth)
  then show ?thesis using none by (simp add: rposition_dot_def)
next
  case (some q r)
  let ?k = "length q"
  have split: "rev [0 ..< length name] = rev [Suc ?k ..< length name] @ ?k # rev [0 ..< ?k]"
    using some(1) upt_add_eq_append [of 0 ?k "Suc (length r)"] upt_conv_Cons [of ?k "?k + Suc (length r)"]
    by (simp del: upt_Suc)
  have "filter (\<lambda>i. name ! i = FULL_STOP) (rev [Suc ?k ..< length name]) = []"
    using some(1,2) by (auto simp: filter_empty_conv nth_append nth_Cons' in_set_conv_nth)
  moreover have "name ! ?k = FULL_STOP" using some(1) by simp
  ultimately show ?thesis unfolding rposition_dot_def split filter_append using some(3) by simp
qed

lemma eligible_ext: "extension_is_eligible name \<longleftrightarrow> ext_str name \<noteq> []"
  by (cases rule: rsplit_once_cases [of FULL_STOP name])
     (auto simp: extension_is_eligible_def rposition_dot_rfind ext_str_def rfind_Some Suc_le_eq)

lemma extension_rsplit:
  "extension name = (case rsplit_once FULL_STOP name of
     Some (a, b) \<Rightarrow> if a \<noteq> [] \<and> b \<noteq> [] then b else [] | None \<Rightarrow> [])"
  by (cases rule: rsplit_once_cases [of FULL_STOP name])
     (auto simp: extension_def rposition_dot_rfind rfind_Some)

text \<open>The extension of the folded name is the fold of the extension, where the stem keeps a byte.\<close>

lemma folded_extension_fold:
  assumes "lowers u" "keeps_marks u" "utf8_valid name"
    and "ext_str name \<noteq> [] \<Longrightarrow> \<exists>a b. rsplit_once FULL_STOP (default_fold u name) = Some (a, b) \<and> a \<noteq> []"
  shows "folded_extension name (default_fold u name) = default_fold u (ext_str name)"
proof (cases "ext_str name = []")
  case True
  then show ?thesis by (simp add: folded_extension_def eligible_ext)
next
  case False
  then obtain q r where r: "rsplit_once FULL_STOP name = Some (q, r)" "ext_str name = r"
    by (auto simp: ext_str_def split: option.splits if_splits)
  have "rsplit_once FULL_STOP (default_fold u name) = Some (default_fold u q, default_fold u r)"
    using rsplit_fold [OF assms(1,2) _ assms(3), of FULL_STOP] r(1) by (simp add: path_mark_def)
  then show ?thesis using False assms(4) r by (auto simp: folded_extension_def eligible_ext extension_rsplit)
qed

section \<open>A term in a path\<close>

text \<open>Where a term without separators, or with one, can be in a directory, a separator and a name.\<close>

lemma append_split:
  assumes "a @ t @ b = d @ c # n"
  shows "(\<exists>b'. d = a @ t @ b') \<or> (\<exists>a'. n = a' @ t @ b) \<or> (\<exists>h l. t = h @ c # l \<and> d = a @ h \<and> n = l @ b)"
proof -
  consider (left) e where "d = a @ e" "t @ b = e @ c # n" | (right) e where "a = d @ e" "e @ t @ b = c # n"
    using assms by (auto simp: append_eq_append_conv2)
  then show ?thesis
  proof cases
    case left
    then consider f where "e = t @ f" | f where "t = e @ f" "f @ b = c # n"
      by (auto simp: append_eq_append_conv2)
    then show ?thesis
    proof cases
      case 2
      then show ?thesis using left(1) by (cases f) auto
    qed (use left(1) in simp)
  next
    case right
    then show ?thesis
    proof (cases e)
      case Nil
      then show ?thesis using right by (cases t) auto
    qed auto
  qed
qed

lemma contains_join:
  assumes n: "SLASH \<notin> set n"
  shows "contains t (d @ SLASH # n) \<longleftrightarrow> contains t d \<or> (SLASH \<notin> set t \<and> contains t n)
    \<or> (\<exists>h l. rsplit_once SLASH t = Some (h, l) \<and> ends_with h d \<and> starts_with l n)"
proof
  assume "contains t (d @ SLASH # n)"
  then obtain a b where "a @ t @ b = d @ SLASH # n" by (auto simp: contains_iff)
  from append_split [OF this] consider b' where "d = a @ t @ b'" | a' where "n = a' @ t @ b"
    | h l where "t = h @ SLASH # l" "d = a @ h" "n = l @ b" by blast
  then show "contains t d \<or> (SLASH \<notin> set t \<and> contains t n)
      \<or> (\<exists>h l. rsplit_once SLASH t = Some (h, l) \<and> ends_with h d \<and> starts_with l n)"
  proof cases
    case 1
    then show ?thesis unfolding contains_iff by blast
  next
    case 2
    then have "SLASH \<notin> set t" using n by simp
    then show ?thesis using 2 unfolding contains_iff by blast
  next
    case 3
    then have "rsplit_once SLASH t = Some (h, l)" using n by (simp add: rsplit_once_some)
    then show ?thesis using 3 unfolding ends_with_iff starts_with_iff by blast
  qed
next
  assume "contains t d \<or> (SLASH \<notin> set t \<and> contains t n)
    \<or> (\<exists>h l. rsplit_once SLASH t = Some (h, l) \<and> ends_with h d \<and> starts_with l n)"
  then consider a b where "d = a @ t @ b" | a b where "n = a @ t @ b"
    | h l a b where "rsplit_once SLASH t = Some (h, l)" "d = a @ h" "n = l @ b"
    unfolding contains_iff ends_with_iff starts_with_iff by blast
  then have "\<exists>a b. d @ SLASH # n = a @ t @ b"
  proof cases
    case 1
    then have "d @ SLASH # n = a @ t @ (b @ SLASH # n)" by simp
    then show ?thesis by blast
  next
    case 2
    then have "d @ SLASH # n = (d @ SLASH # a) @ t @ b" by simp
    then show ?thesis by blast
  next
    case 3
    then have "t = h @ SLASH # l" by (cases rule: rsplit_once_cases [of SLASH t]) auto
    then have "d @ SLASH # n = a @ t @ b" using 3 by simp
    then show ?thesis by blast
  qed
  then show "contains t (d @ SLASH # n)" unfolding contains_iff .
qed

end
