(* ===== verification/Answers.thy ===== *)
theory Answers
  imports Marks
begin

text \<open>
  What a compiled condition answers of a row is what the reference says of the row's entry:
  one lemma a kind of condition, over any segment that holds the entries, and from them the
  whole query.  \<open>comparable\<close> names the corners in which the two differ; each is an edge case of
  the code stated beside it.
\<close>

section \<open>A segment to search\<close>

text \<open>
  The tables were built from the entries with the index's folder, its folds fit its buffer, and
  the code outside keeps its documented laws.
\<close>

definition searchable :: "outside \<Rightarrow> entry list \<Rightarrow> segment \<Rightarrow> bool" where
  "searchable x es seg \<longleftrightarrow> outside_ok x \<and> keeps_marks (x_unicode x)
     \<and> entries_fit (folded_bytes (x_unicode x)) es
     \<and> holds_entries (folded_bytes (x_unicode x)) (fold_str x) es seg \<and> plain_paths es
     \<and> (\<forall>e \<in> set es. length (fold_str x (entry_name (e_path e))) \<le> FOLD_CAP
          \<and> length (fold_str x (entry_parent (e_path e))) \<le> FOLD_CAP)"

abbreviation row_fold :: "outside \<Rightarrow> entry \<Rightarrow> bytes" where
  "row_fold x e \<equiv> fold_str x (entry_name (e_path e))"

text \<open>
  The corners: what a row and a condition must be for the two answers to be compared.  Left out are
  a pattern of a star and an extension, of a name in which the index sees no extension (a dotfile);
  \<open>ext:\<close> of a name whose fold keeps no stem; \<open>depth:\<close> of a row in the root, without a directory or
  more than 65535 deep; \<open>len:\<close> of a name whose fold has another number of characters; \<open>parent:/\<close> of a
  row in the root; \<open>path:\<close> with a separator of a row without a directory, or with two of one in the
  root; and \<open>under:/\<close> of a path that is not absolute.
\<close>

definition stem_kept :: "outside \<Rightarrow> bytes \<Rightarrow> bool" where
  "stem_kept x name \<longleftrightarrow> (ext_str name \<noteq> [] \<longrightarrow>
     (case rsplit_once FULL_STOP (fold_str x name) of Some (stem, _) \<Rightarrow> stem \<noteq> [] | None \<Rightarrow> False))"

fun comparable :: "outside \<Rightarrow> entry \<Rightarrow> bytes match \<Rightarrow> bool" where
  "comparable x e (NameGlob p) =
     (utf8_valid p \<and> (case glob_test p of
        TExt _ _ \<Rightarrow> FULL_STOP \<notin> set (row_fold x e) \<or> folded_extension (entry_name (e_path e)) (row_fold x e) \<noteq> []
      | _ \<Rightarrow> True))"
| "comparable x e (PathContains t) =
     ((entry_parent (e_path e) = [] \<longrightarrow> SLASH \<notin> set t)
      \<and> (entry_parent (e_path e) = [SLASH] \<longrightarrow> \<not> starts_with [SLASH, SLASH] t))"
| "comparable x e (Under d) =
     (trim_slash d = [] \<longrightarrow> e_path e \<noteq> [] \<and> (entry_parent (e_path e) = [] \<or> starts_with [SLASH] (entry_parent (e_path e))))"
| "comparable x e (ParentIs d) = (\<not> (d = [SLASH] \<and> entry_parent (e_path e) = [SLASH]))"
| "comparable x e (match.Ext list) = ([] \<notin> set list \<and> stem_kept x (entry_name (e_path e)))"
| "comparable x e (match.NameLen c v) =
     (length (decode_text (row_fold x e)) = length (decode_text (entry_name (e_path e))))"
| "comparable x e (match.Depth c v) =
     (entry_parent (e_path e) \<noteq> [] \<and> entry_parent (e_path e) \<noteq> [SLASH]
      \<and> length (filter (\<lambda>b. b = SLASH) (entry_parent (e_path e))) \<le> 65535)"
| "comparable x e m = True"

text \<open>Which conditions cannot be compiled.\<close>

fun refused :: "outside \<Rightarrow> bytes match \<Rightarrow> bool" where
  "refused x (match.Regex p) = (case x_regex x p of Inl _ \<Rightarrow> True | Inr _ \<Rightarrow> False)"
| "refused x (ContentContains t) = True"
| "refused x m = False"

definition answers :: "outside \<Rightarrow> entry list \<Rightarrow> segment \<Rightarrow> bytes match \<Rightarrow> bool" where
  "answers x es seg m \<longleftrightarrow> (\<exists>r. compile_match x seg m = Ret r \<and> (case r of
       Inl e \<Rightarrow> refused x m
     | Inr t \<Rightarrow> \<not> refused x m \<and> (\<forall>i < length es. comparable x (es ! i) m \<longrightarrow>
         evaluate x seg i (row_fold x (es ! i)) t = Ret (matches_one x (es ! i) m))))"

lemma answers_by:
  assumes "compile_match x seg m = Ret (Inr t)" "\<not> refused x m"
    and "\<And>i. i < length es \<Longrightarrow> comparable x (es ! i) m \<Longrightarrow>
      evaluate x seg i (row_fold x (es ! i)) t = Ret (matches_one x (es ! i) m)"
  shows "answers x es seg m"
  using assms by (simp add: answers_def)

section \<open>What the rows give\<close>

lemma searchable_facts:
  assumes "searchable x es seg"
  shows "outside_ok x" "keeps_marks (x_unicode x)" "entries_fit (folded_bytes (x_unicode x)) es"
    "holds_entries (folded_bytes (x_unicode x)) (fold_str x) es seg" "plain_paths es"
    "memchr_law (x_memchr x)" "memmem_law (x_memmem x)" "lowers (x_unicode x)"
  using assms by (simp_all add: searchable_def outside_ok_def)

text \<open>Names, directories and paths are text.\<close>

lemma row_text:
  assumes "searchable x es seg" "i < length es"
  shows "utf8_valid (entry_name (e_path (es ! i)))" "utf8_valid (entry_parent (e_path (es ! i)))"
    "join_path (entry_parent (e_path (es ! i))) (entry_name (e_path (es ! i))) = e_path (es ! i)"
    "entry_parent (e_path (es ! i)) \<in> set (entry_dirs es)"
proof -
  note s = searchable_facts [OF assms(1)]
  have i: "es ! i \<in> set es" using assms(2) by simp
  show "utf8_valid (entry_name (e_path (es ! i)))" "utf8_valid (entry_parent (e_path (es ! i)))"
    using s(3) i by (auto simp: entries_fit_def names_text_def dirs_small_def entry_names_def entry_parents_def)
  show "join_path (entry_parent (e_path (es ! i))) (entry_name (e_path (es ! i))) = e_path (es ! i)"
    using s(5) i by (intro join_split) (auto simp: plain_paths_def)
  show "entry_parent (e_path (es ! i)) \<in> set (entry_dirs es)"
    using i by (simp add: entry_dirs_def entry_parents_def)
qed

lemma cell_of:
  assumes "searchable x es seg" "i < length es"
  shows "seg_num seg f i
    = Ret (entry_cell (fold_str x) (dir_number (entry_dirs es) (entry_parent (e_path (es ! i)))) (es ! i) f)"
  using seg_num_of searchable_facts(3,4) [OF assms(1)] assms(2) by blast

lemma dir_of:
  assumes "searchable x es seg" "i < length es"
  obtains d where "seg_dir_id seg i = Ret d" "seg_num seg DirId i = Ret (ucast d)" "unat d < length (entry_dirs es)"
    "entry_dirs es ! unat d = entry_parent (e_path (es ! i))"
proof -
  let ?d = "dir_number (entry_dirs es) (entry_parent (e_path (es ! i)))"
  note s = searchable_facts [OF assms(1)]
  have "seg_dir_id seg i = Ret ?d" using seg_dir_of(1) [OF s(3,4) assms(2)] .
  moreover have "seg_num seg DirId i = Ret (ucast ?d)" using cell_of [OF assms] by (simp add: entry_cell_def)
  ultimately show thesis
    using that dir_number_in row_text(4) [OF assms] entry_dirs_length [OF s(3)] by blast
qed

lemma dirs_of:
  assumes "searchable x es seg"
  shows "dirs_fit (entry_dirs es)" "sorted (entry_dirs es)" "distinct (entry_dirs es)"
    "sg_dirs seg = dir_view (entry_dirs es)"
  using searchable_facts(3,4) [OF assms] dirs_small_fit
  by (simp_all add: entries_fit_def entry_dirs_def holds_entries_def)

lemma spelled_of:
  assumes "searchable x es seg" "i < length es"
  shows "arena_get (x_memchr x) (sg_names seg) i = Some (entry_name (e_path (es ! i)))"
  using name_of_row searchable_facts(3,4,6) [OF assms(1)] assms(2) by metis

lemma found_contains: "searchable x es seg \<Longrightarrow> found_in x t h \<longleftrightarrow> contains t h"
  using memmem_contains searchable_facts(7) by (simp add: found_in_def)

lemma dir_fold_whole:
  assumes "searchable x es seg" "d \<in> set (entry_dirs es)"
  shows "folded_bytes (x_unicode x) d = fold_str x d" "utf8_valid d"
proof -
  obtain e where e: "e \<in> set es" "d = entry_parent (e_path e)"
    using assms(2) by (auto simp: entry_dirs_def entry_parents_def)
  then obtain i where i: "i < length es" "es ! i = e" by (auto simp: in_set_conv_nth)
  show "utf8_valid d" using row_text(2) [OF assms(1) i(1)] i(2) e(2) by simp
  then show "folded_bytes (x_unicode x) d = fold_str x d"
    using folded_bytes_whole searchable_facts(8) [OF assms(1)] assms(1) e by (simp add: searchable_def)
qed

section \<open>Columns\<close>

lemma num_test_one: "num_test c v 1 got = cmp_holds c got v"
  by (cases c) (simp_all add: num_test_def)

lemma ref_num_cell: "entry_cell fold_case d e (num_column f) = ref_num e f"
  by (cases f) (simp_all add: entry_cell_def)

lemma ref_time_cell: "entry_cell fold_case d e (time_column f) = ref_time e f"
  by (cases f) (simp_all add: entry_cell_def)

lemma answers_size: "searchable x es seg \<Longrightarrow> answers x es seg (match.Size c v)"
  by (rule answers_by, simp) (simp_all add: cell_of [of x es] num_test_one entry_cell_def)

lemma answers_is_dir: "searchable x es seg \<Longrightarrow> answers x es seg (match.IsDir want)"
  by (rule answers_by, simp) (simp_all add: cell_of [of x es] num_test_one entry_cell_def)

lemma answers_num: "searchable x es seg \<Longrightarrow> answers x es seg (match.Num f c v)"
  by (rule answers_by, simp) (simp_all add: cell_of [of x es] num_test_one ref_num_cell)

lemma answers_bits: "searchable x es seg \<Longrightarrow> answers x es seg (match.Bits f msk want any)"
  by (rule answers_by, simp) (simp_all add: cell_of [of x es] ref_num_cell Let_def)

lemma answers_time: "searchable x es seg \<Longrightarrow> answers x es seg (match.Time f c v)"
  by (rule answers_by, simp) (cases c; simp add: cell_of [of x es] ref_time_cell num_test_def)+

text \<open>Kinds: the bit of each kind named.\<close>

lemma kind_code:
  "unat (kind_as_u8 k) < 16" "sint (ucast (kind_as_u8 k) :: i64) = int (unat (kind_as_u8 k))"
  "uint (kind_as_u8 k) < 16"
  by (cases k; simp)+

lemma kind_code_inject: "unat (kind_as_u8 k) = unat (kind_as_u8 k') \<longleftrightarrow> k = k'"
  using kind_byte [of k] kind_byte [of k'] by (metis option.inject word_unat_eq_iff)

lemma kind_mask_bit:
  "n < 16 \<Longrightarrow> bit (foldl (\<lambda>m k. m OR push_bit (unat (kind_as_u8 k)) 1) (m :: u16) ks) n
    \<longleftrightarrow> bit m n \<or> (\<exists>k \<in> set ks. unat (kind_as_u8 k) = n)"
  by (induction ks arbitrary: m) (auto simp: bit_or_iff bit_push_bit_iff bit_1_iff simp del: push_bit_of_1)

lemma u16_and_bit: "n < 16 \<Longrightarrow> (m :: u16) AND push_bit n 1 \<noteq> 0 \<longleftrightarrow> bit m n"
proof -
  assume n: "n < 16"
  have "bit (m AND push_bit n 1) j \<longleftrightarrow> j = n \<and> bit m n" for j
    using n by (auto simp: bit_and_iff bit_push_bit_iff bit_1_iff simp del: push_bit_of_1)
  then show ?thesis using n unfolding bit_eq_iff [of _ 0] by (simp del: push_bit_of_1)
qed

lemma answers_kind: "searchable x es seg \<Longrightarrow> answers x es seg (match.Kind ks)"
proof (rule answers_by [of x seg _ "TKindIn (kind_mask ks)"])
  fix i assume a: "searchable x es seg" "i < length es"
  let ?k = "entry_kind (fold_str x) (es ! i)"
  have "kind_mask ks AND push_bit (unat (kind_as_u8 ?k)) 1 \<noteq> 0 \<longleftrightarrow> ?k \<in> set ks"
    unfolding u16_and_bit [OF kind_code(1)] kind_mask_def kind_mask_bit [OF kind_code(1)] by (auto simp: kind_code_inject)
  then show "evaluate x seg i (row_fold x (es ! i)) (TKindIn (kind_mask ks)) = Ret (matches_one x (es ! i) (match.Kind ks))"
    using kind_code(1,3) [of ?k] by (simp add: cell_of [OF a] entry_cell_def kind_code(2) del: push_bit_of_1)
qed simp_all

section \<open>Names\<close>

lemma answers_name_contains: "searchable x es seg \<Longrightarrow> answers x es seg (NameContains t)"
  by (rule answers_by, simp) (simp_all add: found_contains [of x es])

lemma answers_cased: "searchable x es seg \<Longrightarrow> answers x es seg (NameContainsCased t)"
  by (rule answers_by, simp) (simp_all add: spelled_of [of x es])

lemma row_fold_text:
  assumes "searchable x es seg" "i < length es"
  shows "utf8_valid (row_fold x (es ! i))"
  using default_fold_text(1) searchable_facts(8) [OF assms(1)] row_text(1) [OF assms] by blast

lemma answers_name_len: "searchable x es seg \<Longrightarrow> answers x es seg (match.NameLen c v)"
  by (rule answers_by, simp) (simp_all add: row_fold_text [of x es])

lemma answers_regex: "searchable x es seg \<Longrightarrow> answers x es seg (match.Regex p)"
proof (cases "x_regex x p")
  case (Inr re)
  assume "searchable x es seg"
  then show ?thesis by (intro answers_by [of x seg _ "TRegex re"]) (simp_all add: Inr row_fold_text)
qed (simp add: answers_def)

lemma answers_content: "answers x es seg (ContentContains t)"
  by (simp add: answers_def)

section \<open>Extensions and patterns\<close>

text \<open>The folded extension of a row is the extension of its entry, directories apart.\<close>

lemma row_extension:
  assumes "searchable x es seg" "i < length es" "stem_kept x (entry_name (e_path (es ! i)))"
  shows "folded_extension (entry_name (e_path (es ! i))) (row_fold x (es ! i)) = ext_of x (entry_name (e_path (es ! i)))"
  unfolding ext_of_def
  using assms(3) searchable_facts [OF assms(1)] row_text(1) [OF assms(1,2)]
  by (intro folded_extension_fold) (auto simp: stem_kept_def split: option.splits)

lemma answers_ext: "searchable x es seg \<Longrightarrow> answers x es seg (match.Ext list)"
proof (rule answers_by, simp)
  fix i assume a: "searchable x es seg" "i < length es" "comparable x (es ! i) (match.Ext list)"
  then show "evaluate x seg i (row_fold x (es ! i)) (TExt list False) = Ret (matches_one x (es ! i) (match.Ext list))"
    using row_extension [OF a(1,2)] by (auto simp: spelled_of [OF a(1,2)] cell_of [OF a(1,2)] entry_cell_def entry_ext_def Let_def)
qed simp_all

text \<open>A pattern that is only a star and an extension asks how the name ends.\<close>

lemma globs_literal: "\<forall>c \<in> set q. c \<noteq> STAR \<and> c \<noteq> QUESTION \<Longrightarrow> globs q t \<longleftrightarrow> t = q"
proof (induction q arbitrary: t)
  case (Cons c q)
  then show ?case by (cases t) auto
qed simp

lemma globs_star_literal:
  assumes "\<forall>c \<in> set q. c \<noteq> STAR \<and> c \<noteq> QUESTION"
  shows "globs (STAR # q) t \<longleftrightarrow> ends_with q t"
proof -
  have "globs (STAR # q) t \<longleftrightarrow> (\<exists>k \<le> length t. drop k t = q)"
    unfolding globs_star using globs_literal [OF assms] by simp
  also have "\<dots> \<longleftrightarrow> ends_with q t"
    unfolding ends_with_iff by (metis append_eq_conv_conj append_take_drop_id le_add1 length_append)
  finally show ?thesis .
qed

lemma decode_mark:
  assumes "utf8_valid bs" "b < 0x80" "ucast b \<in> set (decode_text bs)"
  shows "b \<in> set bs"
proof -
  have "unat (ucast b :: uchar) < 128" using assms(2) by (simp add: word_less_nat_alt unsigned_ucast_eq unat_narrow)
  then have "encode_char (ucast b :: uchar) = [b]" by (simp add: encode_ascii ucast_up_ucast_id is_up)
  then have "b \<in> set (encode_text (decode_text bs))" using assms(3) by (auto simp: encode_text_def intro!: bexI [of _ "ucast b"])
  then show ?thesis using encode_decode [OF assms(1)] by simp
qed

text \<open>For text, one ends with the other exactly when its characters do.\<close>

lemma ends_with_decode:
  assumes "utf8_valid n" "utf8_valid (b # q)" "b < 0x80"
  shows "ends_with (decode_text (b # q)) (decode_text n) \<longleftrightarrow> ends_with (b # q) n"
proof
  assume "ends_with (b # q) n"
  then obtain r where r: "n = r @ b # q" by (auto simp: ends_with_iff)
  then have "utf8_valid r" using assms(1,3) by (simp add: utf8_valid_around)
  then show "ends_with (decode_text (b # q)) (decode_text n)"
    using decode_append [OF _ assms(2)] r by (auto simp: ends_with_iff)
next
  assume "ends_with (decode_text (b # q)) (decode_text n)"
  then obtain r where "decode_text n = r @ decode_text (b # q)" by (auto simp: ends_with_iff)
  then have "encode_text (decode_text n) = encode_text r @ encode_text (decode_text (b # q))" by simp
  then show "ends_with (b # q) n"
    using encode_decode [OF assms(1)] encode_decode [OF assms(2)] by (auto simp: ends_with_iff)
qed


lemma extension_ends_with:
  assumes "FULL_STOP \<notin> set q" "FULL_STOP \<notin> set n \<or> extension n \<noteq> []" "q \<noteq> []"
  shows "extension n = q \<longleftrightarrow> ends_with (FULL_STOP # q) n"
proof (cases rule: rsplit_once_cases [of FULL_STOP n])
  case none
  then show ?thesis using assms(3) by (auto simp: extension_rsplit ends_with_iff)
next
  case (some a b)
  then have e: "extension n = b" using assms(2) by (auto simp: extension_rsplit split: if_splits)
  show ?thesis
  proof
    assume "ends_with (FULL_STOP # q) n"
    then obtain r where "n = r @ FULL_STOP # q" by (auto simp: ends_with_iff)
    then have "rsplit_once FULL_STOP n = Some (r, q)" using assms(1) by (simp add: rsplit_once_some)
    then show "extension n = q" using some(3) e by simp
  qed (use some(1) e in \<open>auto simp: ends_with_iff\<close>)
qed

lemma glob_test_ext:
  assumes "glob_test p = TExt list dirs"
  obtains q where "p = 0x2a # FULL_STOP # q" "list = [q]" "dirs" "q \<noteq> []" "\<forall>b \<in> set q. b \<noteq> 0x2a \<and> b \<noteq> 0x3f \<and> b \<noteq> FULL_STOP"
  using assms by (auto simp: glob_test_def strip_prefix_Some list_ex_iff split: option.splits if_splits)

lemma glob_test_cases: "(\<exists>list dirs. glob_test p = TExt list dirs) \<or> glob_test p = TNameGlob p"
  unfolding glob_test_def by (cases "strip_prefix (str ''*.'') p") auto

lemma glob_ext_means:
  assumes p: "p = 0x2a # FULL_STOP # q" "utf8_valid p" and q: "\<forall>b \<in> set q. b \<noteq> 0x2a \<and> b \<noteq> 0x3f" and n: "utf8_valid n"
  shows "glob_matches (decode_text p) (decode_text n) = Some True \<longleftrightarrow> ends_with (FULL_STOP # q) n"
proof -
  have vq: "utf8_valid (FULL_STOP # q)" "utf8_valid q" using p by (simp_all add: utf8_valid_ascii_cons)
  have "(ucast (0x2a :: u8) :: uchar) \<notin> set (decode_text q)" "(ucast (0x3f :: u8) :: uchar) \<notin> set (decode_text q)"
    using decode_mark [OF vq(2), of "0x2a"] decode_mark [OF vq(2), of "0x3f"] q by auto
  then have "\<forall>c \<in> set (decode_text (FULL_STOP # q)). c \<noteq> STAR \<and> c \<noteq> QUESTION"
    by (auto simp: decode_ascii_cons)
  moreover have "decode_text p = STAR # decode_text (FULL_STOP # q)" using p(1) by (simp add: decode_ascii_cons)
  ultimately show ?thesis
    using globs_star_literal ends_with_decode [OF n vq(1)] by (simp add: glob_matches_total)
qed

lemma answers_glob: "searchable x es seg \<Longrightarrow> answers x es seg (NameGlob p)"
proof (rule answers_by, simp)
  fix i assume a: "searchable x es seg" "i < length es" "comparable x (es ! i) (NameGlob p)"
  let ?n = "row_fold x (es ! i)"
  show "evaluate x seg i ?n (glob_test p) = Ret (matches_one x (es ! i) (NameGlob p))"
  proof (cases "glob_test p = TNameGlob p")
    case False
    then obtain list dirs where ext: "glob_test p = TExt list dirs" using glob_test_cases by blast
    then obtain q where q: "p = 0x2a # FULL_STOP # q" "list = [q]" "dirs" "q \<noteq> []"
      "\<forall>b \<in> set q. b \<noteq> 0x2a \<and> b \<noteq> 0x3f \<and> b \<noteq> FULL_STOP"
      by (rule glob_test_ext)
    let ?e = "folded_extension (entry_name (e_path (es ! i))) ?n"
    have c: "utf8_valid p" "FULL_STOP \<notin> set ?n \<or> ?e \<noteq> []" using a(3) ext by auto
    have e: "?e = [] \<or> ?e = extension ?n" by (simp add: folded_extension_def)
    have "?e = q \<longleftrightarrow> ends_with (FULL_STOP # q) ?n"
    proof (cases "?e = []")
      case True
      then have "\<not> ends_with (FULL_STOP # q) ?n" using c(2) by (auto simp: ends_with_iff)
      then show ?thesis using True q(4) by auto
    next
      case False
      then show ?thesis using extension_ends_with [of q ?n] q(4,5) e by auto
    qed
    then have "?e \<noteq> [] \<and> ?e = q \<longleftrightarrow> matches_one x (es ! i) (NameGlob p)"
      using glob_ext_means [OF q(1) c(1) _ row_fold_text [OF a(1,2)]] q(4,5) by auto
    then show ?thesis using q(2,3) ext by (simp add: spelled_of [OF a(1,2)] Let_def del: matches_one.simps)
  qed (simp add: row_fold_text [OF a(1,2)])
qed simp

section \<open>Directories\<close>

lemma scope_empty_contains: "scope_is_empty s \<Longrightarrow> \<not> scope_contains s d"
  by (auto simp: scope_is_empty_def scope_contains_def)

lemma subtree_total:
  assumes "dirs_fit ps" "sorted ps" "distinct ps"
  shows "\<exists>s. subtree (dir_view ps) d = Ret s"
  by (simp add: subtree_def Let_def exact_view [OF assms] lower_bound_view [OF assms(1,2)])

text \<open>At or below a folder, read off the directory of a path or off the path.\<close>

lemma join_under:
  assumes n: "SLASH \<notin> set name" and d: "d \<noteq> []" "last d \<noteq> SLASH"
  shows "(\<exists>rest. join_path parent name = d @ SLASH # rest) \<longleftrightarrow> parent = d \<or> (\<exists>rest. parent = d @ SLASH # rest)"
proof -
  have lone: "[SLASH] \<noteq> d" using d by auto
  consider (none) "parent = []" | (root) "parent = [SLASH]" | (full) "parent \<noteq> []" "parent \<noteq> [SLASH]" by blast
  then show ?thesis
  proof cases
    case none
    then show ?thesis using n d(1) by (auto simp: join_path_def)
  next
    case root
    then show ?thesis using n d by (auto simp: join_path_def Cons_eq_append_conv append_eq_Cons_conv)
  next
    case full
    show ?thesis
    proof
      assume "\<exists>rest. join_path parent name = d @ SLASH # rest"
      then obtain rest where "parent @ SLASH # name = d @ SLASH # rest" using full by (auto simp: join_path_def)
      then show "parent = d \<or> (\<exists>rest. parent = d @ SLASH # rest)"
        using n by (auto simp: append_eq_append_conv2 Cons_eq_append_conv append_eq_Cons_conv)
    next
      assume "parent = d \<or> (\<exists>rest. parent = d @ SLASH # rest)"
      then show "\<exists>rest. join_path parent name = d @ SLASH # rest" using full by (auto simp: join_path_def)
    qed
  qed
qed

lemma ref_under:
  "matches_one x e (Under d) \<longleftrightarrow>
     (if trim_slash d = [] then e_path e \<noteq> [] else \<exists>rest. e_path e = trim_slash d @ SLASH # rest)"
  using at_boundary_iff [of "trim_slash d" "e_path e" SLASH]
  by (auto simp: Let_def starts_with_iff nth_opt_def nth_append split: if_splits)


lemma answers_under: "searchable x es seg \<Longrightarrow> answers x es seg (Under d)"
proof -
  assume x: "searchable x es seg"
  note ds = dirs_of [OF x]
  obtain s where s: "subtree (dir_view (entry_dirs es)) d = Ret s" using subtree_total [OF ds(1-3)] by blast
  let ?t = "if scope_is_empty s then TNever else TDirIn s"
  show ?thesis
  proof (rule answers_by [of x seg _ ?t])
    show "compile_match x seg (Under d) = Ret (Inr ?t)" by (simp add: ds(4) s)
    fix i assume i: "i < length es" and c: "comparable x (es ! i) (Under d)"
    let ?p = "entry_parent (e_path (es ! i))" and ?n = "entry_name (e_path (es ! i))"
    obtain k where k: "seg_num seg DirId i = Ret (ucast (k :: u32))" "unat k < length (entry_dirs es)" "entry_dirs es ! unat k = ?p"
      using dir_of [OF x i] by metis
    have "scope_contains s k \<longleftrightarrow> ?p = trim_slash d \<or> (\<exists>rest. ?p = trim_slash d @ SLASH # rest)"
      using scope_contains_view [OF ds(1-3) k(2) s] k(3) by simp
    also have "\<dots> \<longleftrightarrow> matches_one x (es ! i) (Under d)"
    proof (cases "trim_slash d = []")
      case True
      then show ?thesis using c unfolding ref_under by (auto simp: starts_with_iff)
    next
      case False
      then show ?thesis
        using join_under [OF entry_name_no_slash, of "trim_slash d" ?p "e_path (es ! i)"] trim_slash_last [of d] row_text(3) [OF x i]
        unfolding ref_under by simp
    qed
    finally have m: "scope_contains s k \<longleftrightarrow> matches_one x (es ! i) (Under d)" .
    show "evaluate x seg i (row_fold x (es ! i)) ?t = Ret (matches_one x (es ! i) (Under d))"
      using scope_empty_contains [of s k] m by (simp add: k(1) ucast_up_ucast_id is_up del: matches_one.simps)
  qed simp
qed

lemma answers_parent: "searchable x es seg \<Longrightarrow> answers x es seg (ParentIs d)"
proof -
  assume x: "searchable x es seg"
  note ds = dirs_of [OF x]
  let ?in = "trim_slash d \<in> set (entry_dirs es)" and ?n = "as_u32 (first_ge (entry_dirs es) (trim_slash d))"
  let ?t = "if ?in then TDirIn \<lparr>own = Some ?n, below_start = ?n, below_end = ?n\<rparr> else TNever"
  show ?thesis
  proof (rule answers_by [of x seg _ ?t])
    show "compile_match x seg (ParentIs d) = Ret (Inr ?t)" by (simp add: ds(4) exact_view [OF ds(1-3)])
    fix i assume i: "i < length es" and c: "comparable x (es ! i) (ParentIs d)"
    let ?p = "entry_parent (e_path (es ! i))"
    obtain k where k: "seg_num seg DirId i = Ret (ucast (k :: u32))" "unat k < length (entry_dirs es)" "entry_dirs es ! unat k = ?p"
      using dir_of [OF x i] by metis
    have small: "first_ge (entry_dirs es) q < 2 ^ 32" for q
      using first_ge_le [of "entry_dirs es" q] ds(1) by (simp add: dirs_fit_def)
    have k': "first_ge (entry_dirs es) ?p = unat k"
      using first_ge_member [OF ds(2,3) row_text(4) [OF x i]] k(2,3) ds(3) by (metis nth_eq_iff_index_eq)
    have "?in \<and> k = ?n \<longleftrightarrow> ?p = trim_slash d"
    proof
      assume "?in \<and> k = ?n"
      then show "?p = trim_slash d"
        using first_ge_member [OF ds(2,3), of "trim_slash d"] k(3) unat_u32 [OF small] by simp
    next
      assume p: "?p = trim_slash d"
      then have "k = ?n" using k' p by simp
      then show "?in \<and> k = ?n" using p row_text(4) [OF x i] by simp
    qed
    moreover have "matches_one x (es ! i) (ParentIs d) \<longleftrightarrow> ?p = trim_slash d" using c by auto
    ultimately show "evaluate x seg i (row_fold x (es ! i)) ?t = Ret (matches_one x (es ! i) (ParentIs d))"
      by (auto simp: k(1) ucast_up_ucast_id is_up scope_contains_def simp del: matches_one.simps)
  qed simp
qed

lemma join_slashes:
  "d \<noteq> [] \<Longrightarrow> d \<noteq> [SLASH] \<Longrightarrow> SLASH \<notin> set n \<Longrightarrow>
    length (filter (\<lambda>b. b = SLASH) (join_path d n)) = length (filter (\<lambda>b. b = SLASH) d) + 1"
  by (auto simp: join_path_def filter_empty_conv)

lemma answers_depth: "searchable x es seg \<Longrightarrow> answers x es seg (match.Depth c v)"
proof -
  assume x: "searchable x es seg"
  note ds = dirs_of [OF x]
  show ?thesis
  proof (rule answers_by [of x seg _ "TDepth (map depth_of (entry_dirs es)) c v"])
    fix i assume i: "i < length es" and c: "comparable x (es ! i) (match.Depth c v)"
    let ?p = "entry_parent (e_path (es ! i))"
    obtain k where k: "seg_num seg DirId i = Ret (ucast (k :: u32))" "unat k < length (entry_dirs es)" "entry_dirs es ! unat k = ?p"
      using dir_of [OF x i] by metis
    have "unat k < 2 ^ 32" using k(2) ds(1) by (simp add: dirs_fit_def)
    then have u: "unat (ucast k :: i64) = unat k" by (simp add: unsigned_ucast_eq take_bit_nat_eq_self)
    have "unat (depth_of ?p) = length (filter (\<lambda>b. b = SLASH) ?p)"
      using c by (simp add: depth_of_def unsigned_of_nat take_bit_nat_eq_self)
    moreover have "length (filter (\<lambda>b. b = SLASH) (e_path (es ! i))) = length (filter (\<lambda>b. b = SLASH) ?p) + 1"
      using join_slashes [of ?p "entry_name (e_path (es ! i))"] row_text(3) [OF x i] entry_name_no_slash c by simp
    ultimately show "evaluate x seg i (row_fold x (es ! i)) (TDepth (map depth_of (entry_dirs es)) c v)
        = Ret (matches_one x (es ! i) (match.Depth c v))"
      using k(2,3) by (simp add: k(1) u nth_opt_def add.commute)
  qed (simp_all add: ds(4) depths_view [OF ds(1)])
qed


text \<open>The directory table walked once: what each directory's flags are.\<close>

lemma path_flags_from:
  "j + length ds = length w \<Longrightarrow> length w = length e \<Longrightarrow>
    path_flags x t h (map (\<lambda>i. (j + i, ds ! i)) [0 ..< length ds]) (w, e)
      = Ret (take j w @ map (\<lambda>d. found_in x t (folded_bytes (x_unicode x) d)) ds,
             take j e @ map (\<lambda>d. ends_with h (folded_bytes (x_unicode x) d)) ds)"
proof (induction ds arbitrary: j w e)
  case (Cons d ds)
  have shift: "map (\<lambda>i. (j + i, (d # ds) ! i)) [0 ..< length (d # ds)]
      = (j, d) # map (\<lambda>i. (Suc j + i, ds ! i)) [0 ..< length ds]"
    by (simp add: upt_rec [of 0] map_Suc_upt [symmetric] comp_def del: upt_Suc)
  show ?case
    unfolding shift using Cons.prems Cons.IH [of "Suc j"] by (simp add: Let_def take_Suc_conv_app_nth)
qed simp

definition path_set_of :: "outside \<Rightarrow> bytes \<Rightarrow> bytes list \<Rightarrow> path_set" where
  "path_set_of x t ds =
     (let (head, tail) = (case rsplit_once SLASH t of Some (head, tail) \<Rightarrow> (head, tail) | None \<Rightarrow> (t, []));
          whole = map (\<lambda>d. found_in x t (folded_bytes (x_unicode x) d)) ds;
          ending = map (\<lambda>d. ends_with head (folded_bytes (x_unicode x) d)) ds;
          in_name = (if SLASH \<notin> set t then Some t else None)
      in \<lparr>ps_whole = whole, ps_ending = ending, ps_tail = tail, ps_in_name = in_name,
           ps_reach = (if in_name = None then 0 # reach_from 0 (zip whole ending) else [])\<rparr>)"

lemma path_set_build_of:
  assumes "dirs_fit ds" "sg_dirs seg = dir_view ds"
  shows "path_set_build x t seg = Ret (path_set_of x t ds)"
proof -
  have "path_flags x t h (map (\<lambda>j. (j, ds ! j)) [0 ..< length ds]) (replicate (length ds) False, replicate (length ds) False)
      = Ret (map (\<lambda>d. found_in x t (folded_bytes (x_unicode x) d)) ds,
             map (\<lambda>d. ends_with h (folded_bytes (x_unicode x) d)) ds)" for h
    using path_flags_from [of 0 ds "replicate (length ds) False" "replicate (length ds) False"] by simp
  then show ?thesis
    by (simp add: path_set_build_def path_set_of_def assms(2) each_bytes_view [OF assms(1)] dir_len_def Let_def split: prod.split)
qed

lemma path_set_of_simps:
  "ps_whole (path_set_of x t ds) = map (\<lambda>d. found_in x t (folded_bytes (x_unicode x) d)) ds"
  "ps_in_name (path_set_of x t ds) = (if SLASH \<notin> set t then Some t else None)"
  "rsplit_once SLASH t = Some (h, l) \<Longrightarrow>
    ps_ending (path_set_of x t ds) = map (\<lambda>d. ends_with h (folded_bytes (x_unicode x) d)) ds
    \<and> ps_tail (path_set_of x t ds) = l"
  "SLASH \<notin> set t \<Longrightarrow> ps_ending (path_set_of x t ds) = map (\<lambda>d. ends_with t (folded_bytes (x_unicode x) d)) ds
    \<and> ps_tail (path_set_of x t ds) = []"
  by (simp_all add: path_set_of_def Let_def rsplit_once_none split: prod.split)

lemma contains_ends: "ends_with t d \<Longrightarrow> contains t d"
  unfolding ends_with_iff contains_iff by (metis append_Nil2)

lemma contains_Nil: "contains t [] \<longleftrightarrow> t = []"
  by (auto simp: contains_iff)

lemma contains_all: "contains [] n"
  by (auto simp: contains_iff)

text \<open>What the set answers of a directory and a name.\<close>

definition path_answer :: "bytes \<Rightarrow> bytes \<Rightarrow> bytes \<Rightarrow> bool" where
  "path_answer t d n \<longleftrightarrow> contains t d \<or> (SLASH \<notin> set t \<and> contains t n)
     \<or> (\<exists>h l. rsplit_once SLASH t = Some (h, l) \<and> ends_with h d \<and> starts_with l n)"

lemma path_set_answers:
  assumes "searchable x es seg" "i < length es"
  shows "evaluate x seg i n (TPathIn (path_set_of x t (entry_dirs es)))
    = Ret (path_answer t (fold_str x (entry_parent (e_path (es ! i)))) n)"
proof -
  let ?p = "entry_parent (e_path (es ! i))"
  obtain k where k: "seg_dir_id seg i = Ret k" "unat k < length (entry_dirs es)" "entry_dirs es ! unat k = ?p"
    using dir_of [OF assms] by metis
  have f: "folded_bytes (x_unicode x) ?p = fold_str x ?p" using dir_fold_whole(1) [OF assms(1) row_text(4) [OF assms]] .
  show ?thesis
  proof (cases rule: rsplit_once_cases [of SLASH t])
    case none
    then show ?thesis
      using k(2,3) f contains_ends [of t "fold_str x ?p"]
      by (auto simp: k(1) path_set_of_simps nth_opt_def found_contains [OF assms(1)] path_answer_def)
  next
    case (some h l)
    then have "SLASH \<in> set t" by simp
    then show ?thesis
      using k(2,3) f path_set_of_simps(3) [OF some(3)] some(3)
      by (auto simp: k(1) path_set_of_simps(1,2) nth_opt_def found_contains [OF assms(1)] path_answer_def)
  qed
qed

lemma answers_path: "searchable x es seg \<Longrightarrow> answers x es seg (PathContains t)"
proof -
  assume x: "searchable x es seg"
  note ds = dirs_of [OF x] and s = searchable_facts [OF x]
  show ?thesis
  proof (rule answers_by [of x seg _ "TPathIn (path_set_of x t (entry_dirs es))"])
    fix i assume i: "i < length es" and c: "comparable x (es ! i) (PathContains t)"
    let ?e = "es ! i" let ?p = "entry_parent (e_path ?e)" and ?n = "entry_name (e_path ?e)"
    note tx = row_text [OF x i]
    have slash: "SLASH \<notin> set (fold_str x ?n)"
      using default_fold_mark [OF s(8,2) _ tx(1)] entry_name_no_slash by (auto simp: path_mark_def)
    have around: "fold_str x (a @ SLASH # ?n) = fold_str x a @ SLASH # fold_str x ?n" if "utf8_valid a" for a
      using default_fold_around [OF s(8), of SLASH a ?n] that tx(1)
      by (simp add: utf8_valid_around path_mark_def)
    have "path_answer t (fold_str x ?p) (fold_str x ?n) \<longleftrightarrow> contains t (fold_str x (e_path ?e))"
    proof -
      consider (none) "?p = []" | (root) "?p = [SLASH]" | (full) "?p \<noteq> []" "?p \<noteq> [SLASH]" by blast
      then show ?thesis
      proof cases
        case none
        then have "e_path ?e = ?n" using tx(3) by (simp add: join_path_def)
        then show ?thesis
          using none c by (cases "t = []") (auto simp: path_answer_def contains_Nil rsplit_once_none contains_all)
      next
        case root
        then have p: "e_path ?e = [] @ SLASH # ?n" using tx(3) by (simp add: join_path_def)
        have f: "fold_str x [SLASH] = [SLASH]" using default_fold_ascii [OF s(8), of "[SLASH]"] by (simp add: ascii_lower_def)
        have no: "rsplit_once SLASH t \<noteq> Some ([SLASH], l)" for l
          using c root by (cases rule: rsplit_once_cases [of SLASH t]) (auto simp: starts_with_iff)
        have one: "contains t [SLASH] \<longleftrightarrow> t = [] \<or> t = [SLASH]"
          by (auto simp: starts_with_iff Cons_eq_append_conv)
        have ends: "ends_with h [SLASH] \<longleftrightarrow> h = [] \<or> h = [SLASH]" for h
          by (auto simp: ends_with_iff Cons_eq_append_conv)
        have "path_answer t [SLASH] (fold_str x ?n) \<longleftrightarrow> contains t ([] @ SLASH # fold_str x ?n)"
          unfolding contains_join [OF slash] path_answer_def one ends
          using no rsplit_once_some [of SLASH "[]" "[]"] by (auto simp: contains_Nil ends_with_iff starts_with_iff)
        then show ?thesis using around [of "[]"] p root f by simp
      next
        case full
        then have "e_path ?e = ?p @ SLASH # ?n" using tx(3) by (simp add: join_path_def)
        then have "fold_str x (e_path ?e) = fold_str x ?p @ SLASH # fold_str x ?n" using around [OF tx(2)] by simp
        then show ?thesis by (simp only: contains_join [OF slash] path_answer_def)
      qed
    qed
    then show "evaluate x seg i (fold_str x ?n) (TPathIn (path_set_of x t (entry_dirs es)))
        = Ret (matches_one x ?e (PathContains t))"
      unfolding path_set_answers [OF x i] by simp
  qed (simp_all add: path_set_build_of [OF ds(1,4)])
qed

section \<open>The whole query\<close>

lemma match_answers: "searchable x es seg \<Longrightarrow> answers x es seg m"
  by (cases m) (simp_all add: answers_name_contains answers_glob answers_path answers_under answers_parent
      answers_ext answers_is_dir answers_size answers_num answers_name_len answers_cased answers_depth
      answers_regex answers_bits answers_kind answers_time answers_content)


text \<open>A row of which every condition of the query may be compared; and when all rows are.\<close>

definition row_comparable :: "outside \<Rightarrow> entry \<Rightarrow> bytes ast \<Rightarrow> bool" where
  "row_comparable x e q \<longleftrightarrow> (\<forall>g \<in> set (groups q). \<forall>(n, m) \<in> set (alts g). comparable x e m)"

definition all_comparable :: "outside \<Rightarrow> entry list \<Rightarrow> bytes ast \<Rightarrow> bool" where
  "all_comparable x es q \<longleftrightarrow> (\<forall>e \<in> set es. row_comparable x e q)"

text \<open>Comparable or not, asking a row of the segment always answers.\<close>

lemma evaluate_returns:
  assumes "searchable x es seg" "i < length es"
  shows "\<exists>b. evaluate x seg i name t = Ret b"
proof -
  obtain d where "seg_dir_id seg i = Ret d" using dir_of [OF assms] by metis
  then show ?thesis by (cases t) (auto simp: cell_of [OF assms] Let_def)
qed

lemma clause_returns:
  assumes "searchable x es seg" "i < length es"
  shows "\<exists>b. clause_holds x seg i name c = Ret b"
proof (induction c)
  case (Cons a c)
  obtain n t where "a = (n, t)" by fastforce
  moreover obtain b where "evaluate x seg i name t = Ret b" using evaluate_returns [OF assms] by blast
  ultimately show ?case using Cons by auto
qed auto

lemma accepts_returns:
  assumes "searchable x es seg" "i < length es"
  shows "\<exists>b. accepts_row x seg i name cs = Ret b"
proof (induction cs)
  case (Cons c cs)
  then show ?case using clause_returns [OF assms, of name c] by (auto split: if_splits)
qed auto

definition refuses :: "outside \<Rightarrow> bytes ast \<Rightarrow> bool" where
  "refuses x q \<longleftrightarrow> (\<exists>g \<in> set (groups q). \<exists>(n, m) \<in> set (alts g). refused x m)"

definition clause_answers :: "outside \<Rightarrow> entry list \<Rightarrow> segment \<Rightarrow> bytes group \<Rightarrow> clause \<Rightarrow> bool" where
  "clause_answers x es seg g c \<longleftrightarrow> (\<forall>i < length es. (\<forall>(n, m) \<in> set (alts g). comparable x (es ! i) m) \<longrightarrow>
     clause_holds x seg i (row_fold x (es ! i)) c = Ret (list_ex (\<lambda>(n, m). matches_one x (es ! i) m \<noteq> n) (alts g)))"

lemma compile_alts_answers:
  assumes "searchable x es seg"
  shows "\<exists>r. compile_alts x seg as = Ret r \<and> (case r of
      Inl e \<Rightarrow> \<exists>(n, m) \<in> set as. refused x m
    | Inr c \<Rightarrow> (\<forall>(n, m) \<in> set as. \<not> refused x m) \<and> (\<forall>i < length es. (\<forall>(n, m) \<in> set as. comparable x (es ! i) m) \<longrightarrow>
        clause_holds x seg i (row_fold x (es ! i)) c = Ret (list_ex (\<lambda>(n, m). matches_one x (es ! i) m \<noteq> n) as)))"
proof (induction as)
  case (Cons a as)
  obtain n m where a: "a = (n, m)" by fastforce
  obtain r where r: "compile_match x seg m = Ret r" "case r of
       Inl e \<Rightarrow> refused x m
     | Inr t \<Rightarrow> \<not> refused x m \<and> (\<forall>i < length es. comparable x (es ! i) m \<longrightarrow>
         evaluate x seg i (row_fold x (es ! i)) t = Ret (matches_one x (es ! i) m))"
    using match_answers [OF assms, of m] by (auto simp: answers_def)
  obtain rs where rs: "compile_alts x seg as = Ret rs" "case rs of
      Inl e \<Rightarrow> \<exists>(n, m) \<in> set as. refused x m
    | Inr c \<Rightarrow> (\<forall>(n, m) \<in> set as. \<not> refused x m) \<and> (\<forall>i < length es. (\<forall>(n, m) \<in> set as. comparable x (es ! i) m) \<longrightarrow>
        clause_holds x seg i (row_fold x (es ! i)) c = Ret (list_ex (\<lambda>(n, m). matches_one x (es ! i) m \<noteq> n) as))"
    using Cons.IH by blast
  show ?case
  proof (cases r)
    case (Inr t)
    then show ?thesis using a r rs by (cases rs) auto
  qed (use a r in auto)
qed simp

lemma compile_groups_answers:
  assumes "searchable x es seg"
  shows "\<exists>r. compile_groups x seg gs = Ret r \<and> (case r of
      Inl e \<Rightarrow> \<exists>g \<in> set gs. \<exists>(n, m) \<in> set (alts g). refused x m
    | Inr cs \<Rightarrow> (\<forall>g \<in> set gs. \<forall>(n, m) \<in> set (alts g). \<not> refused x m) \<and> list_all2 (clause_answers x es seg) gs cs)"
proof (induction gs)
  case (Cons g gs)
  obtain r where r: "compile_alts x seg (alts g) = Ret r" "case r of
      Inl e \<Rightarrow> \<exists>(n, m) \<in> set (alts g). refused x m
    | Inr c \<Rightarrow> (\<forall>(n, m) \<in> set (alts g). \<not> refused x m) \<and> clause_answers x es seg g c"
    using compile_alts_answers [OF assms, of "alts g"] unfolding clause_answers_def by blast
  obtain rs where rs: "compile_groups x seg gs = Ret rs" "case rs of
      Inl e \<Rightarrow> \<exists>g \<in> set gs. \<exists>(n, m) \<in> set (alts g). refused x m
    | Inr cs \<Rightarrow> (\<forall>g \<in> set gs. \<forall>(n, m) \<in> set (alts g). \<not> refused x m) \<and> list_all2 (clause_answers x es seg) gs cs"
    using Cons.IH by blast
  show ?case
  proof (cases r)
    case (Inr c)
    then show ?thesis using r rs by (cases rs) auto
  qed (use r in auto)
qed simp

text \<open>The order of the clauses does not matter where each of them answers.\<close>

lemma accepts_row_all:
  "(\<And>c. c \<in> set cs \<Longrightarrow> clause_holds x seg i n c = Ret (f c)) \<Longrightarrow> accepts_row x seg i n cs = Ret (\<forall>c \<in> set cs. f c)"
  by (induction cs) simp_all

lemma accepts_of_clauses:
  assumes "list_all2 (clause_answers x es seg) gs cs" "set cs' = set cs" "i < length es"
    "\<forall>g \<in> set gs. \<forall>(n, m) \<in> set (alts g). comparable x (es ! i) m"
  shows "accepts_row x seg i (row_fold x (es ! i)) cs'
    = Ret (list_all (\<lambda>g. list_ex (\<lambda>(n, m). matches_one x (es ! i) m \<noteq> n) (alts g)) gs)"
proof -
  let ?holds = "\<lambda>g. list_ex (\<lambda>(n, m). matches_one x (es ! i) m \<noteq> n) (alts g)"
  define f where "f c = (clause_holds x seg i (row_fold x (es ! i)) c = Ret True)" for c
  have each: "clause_holds x seg i (row_fold x (es ! i)) c = Ret (?holds g)" if "(g, c) \<in> set (zip gs cs)" for g c
    using that assms(1,3,4) set_zip_leftD [OF that] by (auto simp: list_all2_iff clause_answers_def)
  have len: "length gs = length cs" using assms(1) by (rule list_all2_lengthD)
  have "clause_holds x seg i (row_fold x (es ! i)) c = Ret (f c)" if c: "c \<in> set cs'" for c
  proof -
    obtain g where "(g, c) \<in> set (zip gs cs)" using c assms(2) len by (metis in_set_impl_in_set_zip2)
    from each [OF this] show ?thesis by (simp add: f_def)
  qed
  then have "accepts_row x seg i (row_fold x (es ! i)) cs' = Ret (\<forall>c \<in> set cs'. f c)" by (rule accepts_row_all)
  moreover have "(\<forall>c \<in> set cs'. f c) \<longleftrightarrow> (\<forall>g \<in> set gs. ?holds g)"
  proof -
    have "(\<forall>c \<in> set cs. f c) \<longleftrightarrow> (\<forall>(g, c) \<in> set (zip gs cs). f c)"
      using len by (metis (no_types, lifting) case_prodE case_prodI2 in_set_impl_in_set_zip2 set_zip_rightD case_prodD)
    also have "\<dots> \<longleftrightarrow> (\<forall>(g, c) \<in> set (zip gs cs). ?holds g)" using each by (auto simp: f_def)
    also have "\<dots> \<longleftrightarrow> (\<forall>g \<in> set gs. ?holds g)"
      using len by (metis (no_types, lifting) case_prodE case_prodI2 in_set_impl_in_set_zip1 set_zip_leftD case_prodD)
    finally show ?thesis using assms(2) by simp
  qed
  ultimately show ?thesis by (simp add: list_all_iff)
qed

lemma compiled_answers:
  assumes "searchable x es seg"
  shows "\<exists>r. compile_clauses x seg q = Ret r \<and> (case r of
      Inl e \<Rightarrow> refuses x q
    | Inr cs \<Rightarrow> \<not> refuses x q \<and> (\<forall>i < length es. row_comparable x (es ! i) q \<longrightarrow>
        accepts_row x seg i (row_fold x (es ! i)) cs = Ret (ref_matches x (es ! i) q)))"
proof -
  obtain r where r: "compile_groups x seg (groups q) = Ret r" "case r of
      Inl e \<Rightarrow> \<exists>g \<in> set (groups q). \<exists>(n, m) \<in> set (alts g). refused x m
    | Inr cs \<Rightarrow> (\<forall>g \<in> set (groups q). \<forall>(n, m) \<in> set (alts g). \<not> refused x m) \<and> list_all2 (clause_answers x es seg) (groups q) cs"
    using compile_groups_answers [OF assms, of "groups q"] by blast
  show ?thesis
  proof (cases r)
    case (Inl e)
    then show ?thesis using r by (auto simp: compile_clauses_def refuses_def)
  next
    case (Inr cs)
    then have "\<not> refuses x q" using r(2) by (auto simp: refuses_def)
    moreover have "accepts_row x seg i (row_fold x (es ! i)) (sort_key clause_cost cs) = Ret (ref_matches x (es ! i) q)"
      if "i < length es" "row_comparable x (es ! i) q" for i
      using accepts_of_clauses [of x es seg "groups q" cs "sort_key clause_cost cs" i] r(2) Inr that
      by (auto simp: ref_matches_def row_comparable_def)
    ultimately show ?thesis using r(1) Inr by (simp add: compile_clauses_def)
  qed
qed

end
