(* ===== verification/Narrow.thy ===== *)
theory Narrow
  imports Answers
begin

text \<open>
  Which blocks of a segment a query has to open, and the walk over them: \<open>admits\<close>,
  \<open>narrow_to_blocks\<close>, \<open>Plan::compile\<close>, \<open>Plan::block_possible\<close>, \<open>blocks_worth_opening\<close>,
  \<open>runs_of\<close> and \<open>walk_matches\<close> of \<open>crates/scour-index-native/src/search.rs\<close>.

  The trigram index, the zone maps and the live bits each say of a block that it cannot hold an
  answer; the lemmas show that none of them is ever wrong about it, and that the walk visits the
  live rows the reference accepts, in row order, and no others.
\<close>

section \<open>The filters\<close>

definition saturate :: "int \<Rightarrow> int" where
  "saturate n = max (- (2 ^ 63)) (min (2 ^ 63 - 1) n)"

fun admits :: "cmp_op \<Rightarrow> int \<Rightarrow> int \<Rightarrow> int \<Rightarrow> int \<Rightarrow> bool" where
  "admits cmp_op.Eq v span lo hi = (if 1 < span then v \<le> hi \<and> lo < saturate (v + span) else lo \<le> v \<and> v \<le> hi)"
| "admits Lt v span lo hi = (lo < v)"
| "admits Le v span lo hi = (lo \<le> v)"
| "admits Gt v span lo hi = (v < hi)"
| "admits Ge v span lo hi = (v \<le> hi)"

text \<open>The longest run of a pattern between its wildcards, the last of equals.\<close>

definition wild :: "u8 \<Rightarrow> bool" where "wild b \<longleftrightarrow> b = 0x2a \<or> b = 0x3f"

fun split_wild :: "bytes \<Rightarrow> bytes list" where
  "split_wild [] = [[]]"
| "split_wild (b # bs) =
     (if wild b then [] # split_wild bs
      else (case split_wild bs of [] \<Rightarrow> [[b]] | r # rs \<Rightarrow> (b # r) # rs))"

definition longest_run :: "bytes \<Rightarrow> bytes" where
  "longest_run p = foldl (\<lambda>best r. if length best \<le> length r then r else best) [] (split_wild p)"

fun filterable :: "test \<Rightarrow> bytes option" where
  "filterable (TNameHas n) = Some n"
| "filterable (TExt list dirs) = (case list of [only] \<Rightarrow> Some (FULL_STOP # only) | _ \<Rightarrow> None)"
| "filterable (TNameGlob p) = (let r = longest_run p in if 3 \<le> length r then Some r else None)"
| "filterable _ = None"

fun intersect_blocks :: "u32 list \<Rightarrow> u32 list \<Rightarrow> u32 list" where
  "intersect_blocks (a # as) (b # bs) =
     (if a < b then intersect_blocks as (b # bs)
      else if b < a then intersect_blocks (a # as) bs
      else a # intersect_blocks as bs)"
| "intersect_blocks _ _ = []"

text \<open>A clause that is one plain condition.\<close>

definition plain_test :: "clause \<Rightarrow> test option" where
  "plain_test c = (case c of [(negated, t)] \<Rightarrow> if negated then None else Some t | _ \<Rightarrow> None)"

fun narrow_loop :: "segment \<Rightarrow> clause list \<Rightarrow> u32 list option \<Rightarrow> u32 list option run" where
  "narrow_loop seg [] out = Ret out"
| "narrow_loop seg (c # cs) out =
     (case Option.bind (plain_test c) filterable of
        None \<Rightarrow> narrow_loop seg cs out
      | Some needle \<Rightarrow>
          bind_run (candidates (sg_tri seg) needle) (\<lambda>r. case r of
             None \<Rightarrow> narrow_loop seg cs out
           | Some blocks \<Rightarrow>
               narrow_loop seg cs (Some (case out of None \<Rightarrow> blocks | Some have \<Rightarrow> intersect_blocks have blocks))))"

text \<open>The flag says that the environment turns the filter off.\<close>

definition narrow_to_blocks :: "bool \<Rightarrow> clause list \<Rightarrow> segment \<Rightarrow> u32 list option run" where
  "narrow_to_blocks no_trigram cs seg = (if no_trigram then Ret None else narrow_loop seg cs None)"

record plan =
  pl_clauses :: "clause list"
  pl_candidates :: "u32 list option"

definition plan_compile :: "outside \<Rightarrow> bool \<Rightarrow> bytes ast \<Rightarrow> segment \<Rightarrow> plan res run" where
  "plan_compile x no_trigram q seg =
     bind_run (compile_clauses x seg q) (\<lambda>r. case r of
         Inl e \<Rightarrow> Ret (Inl e)
       | Inr cs \<Rightarrow> bind_run (narrow_to_blocks no_trigram cs seg) (\<lambda>c.
           Ret (Inr \<lparr>pl_clauses = cs, pl_candidates = c\<rparr>)))"

text \<open>Could any row of this block match?\<close>

fun test_possible :: "segment \<Rightarrow> nat \<Rightarrow> test \<Rightarrow> bool" where
  "test_possible seg block TNever = False"
| "test_possible seg block (TNum f c v span) =
     (case block_range (sg_cols seg) f block of
        Some (lo, hi) \<Rightarrow> admits c v span (sint lo) (sint hi) | None \<Rightarrow> True)"
| "test_possible seg block (TDirIn scope) =
     (case block_range (sg_cols seg) DirId block of
        Some (lo, hi) \<Rightarrow> if 0 \<le> sint lo then scope_intersects scope (ucast lo) (ucast hi) else True
      | None \<Rightarrow> True)"
| "test_possible seg block (TPathIn ps) =
     (case block_range (sg_cols seg) DirId block of
        Some (lo, hi) \<Rightarrow> if 0 \<le> sint lo then path_set_admits ps (ucast lo) (ucast hi) else True
      | None \<Rightarrow> True)"
| "test_possible seg block (TKindIn msk) =
     (case block_range (sg_cols seg) field.Kind block of
        Some (lo, hi) \<Rightarrow>
          if 0 \<le> sint lo \<and> sint lo < 16 \<and> 0 \<le> sint hi \<and> sint hi < 16 then
            (ucast msk :: u32) AND push_bit (nat (sint lo)) (push_bit (nat (sint hi - sint lo + 1)) 1 - 1) \<noteq> 0
          else True
      | None \<Rightarrow> True)"
| "test_possible seg block _ = True"

definition block_possible :: "clause list \<Rightarrow> segment \<Rightarrow> nat \<Rightarrow> bool" where
  "block_possible cs seg block \<longleftrightarrow>
     list_all (\<lambda>c. case plain_test c of Some t \<Rightarrow> test_possible seg block t | None \<Rightarrow> True) cs"

definition blocks_worth_opening :: "segment \<Rightarrow> plan \<Rightarrow> u32 list" where
  "blocks_worth_opening seg plan =
     filter (\<lambda>b. block_alive seg (unat b) \<and> block_possible (pl_clauses plan) seg (unat b))
       (case pl_candidates plan of Some c \<Rightarrow> c | None \<Rightarrow> map as_u32 [0 ..< n_blocks (seg_rows seg)])"

section \<open>The walk\<close>

text \<open>The last block of a run of neighbours, and what is left after it.\<close>

fun run_last :: "u32 \<Rightarrow> u32 list \<Rightarrow> u32 \<times> u32 list" where
  "run_last b [] = (b, [])"
| "run_last b (c # cs) = (if c = b + 1 then run_last c cs else (b, c # cs))"

lemma run_last_length: "length (snd (run_last b cs)) \<le> length cs"
  by (induction b cs rule: run_last.induct) auto

function runs_of :: "u32 list \<Rightarrow> nat \<Rightarrow> (nat \<times> nat) list" where
  "runs_of [] rows = []"
| "runs_of (b # bs) rows =
     (case run_last b bs of (c, rest) \<Rightarrow> (unat b * BLOCK, min ((unat c + 1) * BLOCK) rows) # runs_of rest rows)"
  by pat_completeness auto
termination
proof (relation "measure (\<lambda>(bs, rows). length bs)", goal_cases)
  case (2 b bs rows c rest)
  then show ?case using run_last_length [of b bs] by (cases "run_last b bs") auto
qed simp

text \<open>A run of rows with no name read, and one whose names the folded arena calls back.\<close>

fun rows_by_number ::
  "outside \<Rightarrow> segment \<Rightarrow> clause list \<Rightarrow> ('s \<Rightarrow> nat \<Rightarrow> 's \<times> bool) \<Rightarrow> nat list \<Rightarrow> 's \<Rightarrow> ('s \<times> bool) run" where
  "rows_by_number x seg cs f [] s = Ret (s, True)"
| "rows_by_number x seg cs f (row # rows) s =
     (if is_alive seg row then
        bind_run (accepts_row x seg row [] cs) (\<lambda>yes.
          if yes then (let (s, go) = f s row in if go then rows_by_number x seg cs f rows s else Ret (s, False))
          else rows_by_number x seg cs f rows s)
      else rows_by_number x seg cs f rows s)"

definition named_row ::
  "outside \<Rightarrow> segment \<Rightarrow> clause list \<Rightarrow> ('s \<Rightarrow> nat \<Rightarrow> 's \<times> bool) \<Rightarrow> ('s \<times> bool) run \<Rightarrow> nat \<Rightarrow> bytes
    \<Rightarrow> ('s \<times> bool) run \<times> bool" where
  "named_row x seg cs f st row name =
     (case st of
        Panic \<Rightarrow> (Panic, False)
      | Ret (s, go) \<Rightarrow>
          if is_alive seg row then
            (case accepts_row x seg row name cs of
               Panic \<Rightarrow> (Panic, False)
             | Ret yes \<Rightarrow> if yes then (let (s, go) = f s row in (Ret (s, go), go)) else (Ret (s, go), go))
          else (Ret (s, go), go))"

definition rows_by_name ::
  "outside \<Rightarrow> segment \<Rightarrow> clause list \<Rightarrow> ('s \<Rightarrow> nat \<Rightarrow> 's \<times> bool) \<Rightarrow> nat \<Rightarrow> nat \<Rightarrow> 's \<Rightarrow> ('s \<times> bool) run" where
  "rows_by_name x seg cs f from to s =
     walk_range (x_memchr x) (sg_folded seg) from to (named_row x seg cs f) (Ret (s, True))"

fun over_runs :: "(nat \<Rightarrow> nat \<Rightarrow> 's \<Rightarrow> ('s \<times> bool) run) \<Rightarrow> (nat \<times> nat) list \<Rightarrow> 's \<Rightarrow> ('s \<times> bool) run" where
  "over_runs step [] s = Ret (s, True)"
| "over_runs step ((from, to) # rest) s =
     bind_run (step from to s) (\<lambda>(s, go). if go then over_runs step rest s else Ret (s, False))"

definition walk_matches ::
  "outside \<Rightarrow> segment \<Rightarrow> plan \<Rightarrow> ('s \<Rightarrow> nat \<Rightarrow> 's \<times> bool) \<Rightarrow> 's \<Rightarrow> ('s \<times> bool) run" where
  "walk_matches x seg plan f s =
     (let blocks = blocks_worth_opening seg plan; by_row = \<not> needs_name (pl_clauses plan)
      in over_runs (\<lambda>from to s.
           if by_row then rows_by_number x seg (pl_clauses plan) f [from ..< to] s
           else rows_by_name x seg (pl_clauses plan) f from to s) (runs_of blocks (seg_rows seg)) s)"


section \<open>What a filter may not miss\<close>

text \<open>What the types of the program say of a query: text is UTF-8, a number has 64 bits.\<close>

fun typed_match :: "bytes match \<Rightarrow> bool" where
  "typed_match (NameGlob p) = utf8_valid p"
| "typed_match (match.Time f c v) = in_i64 v"
| "typed_match m = True"

definition typed_query :: "bytes ast \<Rightarrow> bool" where
  "typed_query q \<longleftrightarrow> (\<forall>g \<in> set (groups q). \<forall>(n, m) \<in> set (alts g). typed_match m)"

fun test_typed :: "outside \<Rightarrow> bytes list \<Rightarrow> test \<Rightarrow> bool" where
  "test_typed x ds (TNameGlob p) = utf8_valid p"
| "test_typed x ds (TNum f c v span) = (span \<le> 1 \<or> in_i64 v)"
| "test_typed x ds (TPathIn ps) = (\<exists>t. ps = path_set_of x t ds)"
| "test_typed x ds t = True"

lemma compile_typed:
  assumes "searchable x es seg" "typed_match m" "compile_match x seg m = Ret (Inr t)"
  shows "test_typed x (entry_dirs es) t"
proof (cases m)
  case (NameGlob p)
  then show ?thesis using assms(2,3) glob_test_cases [of p] by auto
next
  case (PathContains q)
  then show ?thesis
    using assms(3) path_set_build_of [OF dirs_of(1,4) [OF assms(1)], of x q] by auto
next
  case (Under d)
  then show ?thesis using assms(3) by (cases "subtree (sg_dirs seg) d") (auto split: if_splits)
next
  case (ParentIs d)
  then show ?thesis using assms(3) by (cases "exact (sg_dirs seg) d") (auto split: option.splits)
next
  case (Depth c v)
  then show ?thesis using assms(3) by (cases "depths (sg_dirs seg)") auto
qed (use assms(2,3) in \<open>auto split: sum.splits\<close>)

text \<open>The longest run of a pattern is a piece of it between wildcards.\<close>

lemma split_wild_pieces:
  "\<exists>w ws. split_wild p = w # ws \<and> (\<forall>r \<in> set (w # ws). \<forall>b \<in> set r. \<not> wild b)
    \<and> (\<exists>b. p = w @ b \<and> (b = [] \<or> wild (hd b)))
    \<and> (\<forall>r \<in> set ws. \<exists>a c b. p = a @ c # r @ b \<and> wild c \<and> (b = [] \<or> wild (hd b)))"
proof (induction p)
  case (Cons x p)
  then obtain w ws b0 where IH: "split_wild p = w # ws" "\<forall>r \<in> set (w # ws). \<forall>b \<in> set r. \<not> wild b"
    "p = w @ b0" "b0 = [] \<or> wild (hd b0)"
    "\<forall>r \<in> set ws. \<exists>a c b. p = a @ c # r @ b \<and> wild c \<and> (b = [] \<or> wild (hd b))"
    by blast
  have tl: "\<exists>a c b. x # p = a @ c # r @ b \<and> wild c \<and> (b = [] \<or> wild (hd b))" if "r \<in> set ws" for r
    using IH(5) that by (metis append_Cons)
  show ?case
  proof (cases "wild x")
    case True
    have "\<exists>a c b. x # p = a @ c # w @ b \<and> wild c \<and> (b = [] \<or> wild (hd b))"
      using True IH(3,4) by (intro exI [of _ "[]"] exI [of _ x] exI [of _ b0]) simp
    then show ?thesis using True IH(1,2) tl by auto
  next
    case False
    have "\<exists>b. x # p = (x # w) @ b \<and> (b = [] \<or> wild (hd b))" using IH(3,4) by simp
    then show ?thesis using False IH(1,2) tl by auto
  qed
qed simp

lemma longest_run_in: "longest_run p = [] \<or> longest_run p \<in> set (split_wild p)"
proof -
  have "foldl (\<lambda>best r. if length best \<le> length r then r else best) b rs \<in> insert b (set rs)" for b and rs :: "bytes list"
    by (induction rs arbitrary: b) auto
  then show ?thesis by (auto simp: longest_run_def)
qed

lemma wild_small: "wild b \<Longrightarrow> b < 0x80"
  by (auto simp: wild_def)

lemma longest_run_between:
  assumes "longest_run p \<noteq> []" "utf8_valid p"
  obtains a b where "p = a @ longest_run p @ b" "utf8_valid a" "utf8_valid (longest_run p)" "utf8_valid b"
    "\<forall>c \<in> set (longest_run p). \<not> wild c"
proof -
  let ?r = "longest_run p"
  obtain w ws where s: "split_wild p = w # ws" "\<forall>r \<in> set (w # ws). \<forall>b \<in> set r. \<not> wild b"
    "\<exists>b. p = w @ b \<and> (b = [] \<or> wild (hd b))"
    "\<forall>r \<in> set ws. \<exists>a c b. p = a @ c # r @ b \<and> wild c \<and> (b = [] \<or> wild (hd b))"
    using split_wild_pieces [of p] by blast
  have r: "?r \<in> set (w # ws)" using longest_run_in [of p] assms(1) s(1) by auto
  have after: "utf8_valid q \<and> utf8_valid b" if "utf8_valid (q @ b)" "b = [] \<or> wild (hd b)" for q b
    using that utf8_valid_around [of "hd b" q "tl b"] wild_small
    by (cases b) (auto simp: utf8_valid_ascii_cons)
  have "\<exists>a b. p = a @ ?r @ b \<and> utf8_valid a \<and> (b = [] \<or> wild (hd b)) \<and> utf8_valid (?r @ b)"
  proof (cases "?r \<in> set ws")
    case True
    then obtain a c b where p: "p = a @ c # ?r @ b" "wild c" "b = [] \<or> wild (hd b)" using s(4) by blast
    then have v: "utf8_valid a" "utf8_valid (?r @ b)"
      using assms(2) utf8_valid_around [OF wild_small [OF p(2)], of a "?r @ b"] by simp_all
    then have "utf8_valid (a @ [c])" using wild_small [OF p(2)] by (simp add: utf8_valid_around)
    then show ?thesis using p v by (intro exI [of _ "a @ [c]"] exI [of _ b]) simp
  next
    case False
    then have "?r = w" using r by simp
    then obtain b where "p = ?r @ b" "b = [] \<or> wild (hd b)" using s(3) by auto
    then show ?thesis using assms(2) by (intro exI [of _ "[]"] exI [of _ b]) simp
  qed
  then obtain a b where ab: "p = a @ ?r @ b" "utf8_valid a" "b = [] \<or> wild (hd b)" "utf8_valid (?r @ b)" by blast
  then show thesis using that [of a b] after [of ?r b] s(2) r by blast
qed

lemma globs_contains:
  assumes "\<forall>c \<in> set q. c \<noteq> STAR \<and> c \<noteq> QUESTION"
  shows "globs (a @ q @ b) t \<Longrightarrow> contains q t"
proof (induction a arbitrary: t)
  case Nil
  then have "list_all2 one_matches q (take (length q) t)" "length q \<le> length t"
    using globs_run [of q b t] assms by auto
  then have "take (length q) t = q"
    using assms by (intro nth_equalityI) (auto simp: list_all2_conv_all_nth one_matches_def)
  then have "t = [] @ q @ drop (length q) t" by (metis append_Nil append_take_drop_id)
  then show ?case unfolding contains_iff by blast
next
  case (Cons c a)
  have tail: "contains q (drop k t) \<Longrightarrow> contains q t" for k
    unfolding contains_iff by (metis append.assoc append_take_drop_id)
  show ?case
  proof (cases "c = STAR")
    case True
    then obtain k where "globs (a @ q @ b) (drop k t)" using Cons.prems by auto
    then show ?thesis using Cons.IH tail by blast
  next
    case False
    then obtain y ys where "t = y # ys" "globs (a @ q @ b) ys" using Cons.prems by (cases t) auto
    then show ?thesis using Cons.IH [of ys] by simp
  qed
qed

lemma contains_decode:
  assumes "utf8_valid q" "utf8_valid n" "contains (decode_text q) (decode_text n)"
  shows "contains q n"
proof -
  obtain a b where "decode_text n = a @ decode_text q @ b" using assms(3) by (auto simp: contains_iff)
  then have "encode_text (decode_text n) = encode_text a @ encode_text (decode_text q) @ encode_text b" by simp
  then show ?thesis
    using encode_decode [OF assms(1)] encode_decode [OF assms(2)] unfolding contains_iff by metis
qed

lemma extension_contains: "extension n = q \<Longrightarrow> q \<noteq> [] \<Longrightarrow> contains (FULL_STOP # q) n"
  using contains_ends unfolding ends_with_iff
  by (cases rule: rsplit_once_cases [of FULL_STOP n]) (auto simp: extension_rsplit ends_with_iff split: if_splits)

text \<open>What a row a condition accepts has in its folded name.\<close>

lemma filterable_sound:
  assumes x: "searchable x es seg" "i < length es" and t: "test_typed x (entry_dirs es) t" "filterable t = Some q"
    and yes: "evaluate x seg i (row_fold x (es ! i)) t = Ret True"
  shows "contains q (row_fold x (es ! i))"
proof (cases t)
  case (TNameHas n)
  then show ?thesis using t(2) yes by (simp add: found_contains [OF x(1)])
next
  case (TExt list dirs)
  then have l: "list = [tl q]" "q = FULL_STOP # tl q" using t(2) by (auto split: list.splits)
  have "tl q \<noteq> [] \<and> folded_extension (entry_name (e_path (es ! i))) (row_fold x (es ! i)) = tl q"
    using yes TExt l(1) by (auto simp: spelled_of [OF x] Let_def split: if_splits)
  then have "tl q \<noteq> []" "extension (row_fold x (es ! i)) = tl q"
    by (auto simp: folded_extension_def split: if_splits)
  then show ?thesis using extension_contains l(2) by metis
next
  case (TNameGlob p)
  then have r: "q = longest_run p" "longest_run p \<noteq> []" "utf8_valid p"
    using t by (auto simp: Let_def split: if_splits)
  obtain a b where ab: "p = a @ longest_run p @ b" "utf8_valid a" "utf8_valid (longest_run p)" "utf8_valid b"
    "\<forall>c \<in> set (longest_run p). \<not> wild c"
    using longest_run_between [OF r(2,3)] by blast
  have "decode_text p = decode_text a @ decode_text (longest_run p) @ decode_text b"
    using ab(1-4) by (metis decode_append utf8_valid_append)
  moreover have "\<forall>c \<in> set (decode_text (longest_run p)). c \<noteq> STAR \<and> c \<noteq> QUESTION"
  proof -
    have "(ucast (0x2a :: u8) :: uchar) \<notin> set (decode_text (longest_run p))"
      "(ucast (0x3f :: u8) :: uchar) \<notin> set (decode_text (longest_run p))"
      using decode_mark [OF ab(3), of "0x2a"] decode_mark [OF ab(3), of "0x3f"] ab(5) by (auto simp: wild_def)
    then show ?thesis by auto
  qed
  moreover have "globs (decode_text p) (decode_text (row_fold x (es ! i)))"
    using yes TNameGlob by (simp add: glob_matches_total)
  ultimately have "contains (decode_text (longest_run p)) (decode_text (row_fold x (es ! i)))"
    using globs_contains by metis
  then show ?thesis using contains_decode [OF ab(3) row_fold_text [OF x]] r(1) by simp
qed (use t(2) in simp_all)


text \<open>The candidates of the trigram index: in order, and every block of a name with the text.\<close>

lemma fold_row_of:
  assumes "searchable x es seg" "i < length es"
  shows "folded_bytes (x_unicode x) (entry_name (e_path (es ! i))) = row_fold x (es ! i)"
proof -
  have "es ! i \<in> set es" using assms(2) by simp
  then have "length (row_fold x (es ! i)) \<le> FOLD_CAP" using assms(1) unfolding searchable_def by blast
  then show ?thesis using folded_bytes_whole [OF searchable_facts(8) [OF assms(1)] row_text(1) [OF assms]] by simp
qed

lemma candidates_of:
  assumes x: "searchable x es seg"
  shows "\<exists>r. candidates (sg_tri seg) q = Ret r \<and> (\<forall>out. r = Some out \<longrightarrow> sorted_wrt (<) out
    \<and> (\<forall>i < length es. contains q (row_fold x (es ! i)) \<longrightarrow> as_u32 (i div BLOCK) \<in> set out))"
proof -
  let ?rs = "map (folded_bytes (x_unicode x)) (entry_names es)"
  note s = searchable_facts [OF x]
  have fits: "tri_fits ?rs" using s(3) tri_small_fits by (simp add: entries_fit_def)
  have row: "?rs ! i = row_fold x (es ! i)" if "i < length es" for i
    using fold_row_of [OF x that] that by (simp add: entry_names_def)
  obtain t css ps where op: "tri_open (fst (tri_files ?rs)) (snd (tri_files ?rs)) = Some t"
    and small: "length css < 2 ^ 32"
    and look: "\<forall>k. \<exists>r. lookup t k = Ret r \<and> lookup_spec css (cutoff (as_u32 (length css))) k r"
    using tri_files_lookup [OF fits] .
  have t: "sg_tri seg = t" using op s(4) by (simp add: holds_entries_def)
  obtain r where r: "candidates t q = Ret r" using candidates_spec [OF look small] by blast
  have "as_u32 (i div BLOCK) \<in> set out" if "r = Some out" "i < length es" "contains q (row_fold x (es ! i))" for out i
  proof -
    have "name_hit ?rs q i" using row [OF that(2)] that(3) by (auto simp: name_hit_def sublist_def contains_iff)
    then have "tri_keep ?rs q (i div BLOCK)" using tri_keep_hit [OF fits] that(2) by simp
    then show ?thesis using op r that(1) by (simp add: tri_keep_def)
  qed
  then show ?thesis using t r candidates_sorted [OF look small] by blast
qed

section \<open>Zone maps\<close>

lemma zone_of:
  fixes f :: field
  assumes x: "searchable x es seg" "i < length es"
  defines "cell \<equiv> \<lambda>j. entry_cell (fold_str x) (dir_number (entry_dirs es) (entry_parent (e_path (es ! j)))) (es ! j) f"
  obtains j k where "j < length es" "k < length es"
    "block_range (sg_cols seg) f (i div BLOCK) = Some (cell j, cell k)"
    "sint (cell j) \<le> sint (cell i)" "sint (cell i) \<le> sint (cell k)"
proof -
  note s = searchable_facts [OF x(1)]
  let ?rs = "entry_rows (fold_str x) es"
  have fits: "column_fits ?rs" using entry_rows_ok [OF s(3)] by (simp add: column_rows_ok_def)
  have at: "?rs ! j ! field_index f = cell j" if "j < length es" for j
    using that by (simp add: entry_rows_def entry_row_index cell_def)
  have "set ?rs = (\<lambda>j. ?rs ! j) ` {..< length es}" by (auto simp: set_conv_nth)
  then have img: "(\<lambda>r. r ! field_index f) ` set ?rs = cell ` {..< length es}"
    using at by (simp add: image_image cong: image_cong_simp)
  have cols: "sg_cols seg = column_view ?rs" using s(4) by (simp add: holds_entries_def)
  show thesis
    using column_range_vals [OF fits, of i f] x(2) that unfolding cols img by (auto simp: at)
qed

lemma wrap_over: "2 ^ 63 \<le> n \<Longrightarrow> n < 2 ^ 64 \<Longrightarrow> wrap n = n - 2 ^ 64"
proof -
  assume n: "2 ^ 63 \<le> n" "n < 2 ^ 64"
  have "wrap n = (n + 2 ^ 63) mod 2 ^ 64 - 2 ^ 63"
    by (simp add: wrap_def signed_take_bit_eq_take_bit_shift take_bit_eq_mod)
  also have "(n + 2 ^ 63) mod 2 ^ 64 = (n + 2 ^ 63 - 2 ^ 64) mod 2 ^ 64" by (simp only: minus_mod_self2)
  also have "\<dots> = n + 2 ^ 63 - 2 ^ 64" using n by (intro mod_pos_pos_trivial) simp_all
  finally show ?thesis by simp
qed

lemma admits_sound:
  assumes "num_test c v span got" "lo \<le> got" "got \<le> hi" "span \<le> 1 \<or> in_i64 v" "in_i64 got" "span < 2 ^ 62"
  shows "admits c v span lo hi"
proof (cases "c = cmp_op.Eq \<and> 1 < span")
  case True
  then have w: "v \<le> got" "got < wrap (v + span)" "in_i64 v" using assms(1,4) by (auto simp: num_test_def in_window_def)
  have "got < saturate (v + span)"
  proof (cases "in_i64 (v + span)")
    case True
    then show ?thesis using w(2) by (simp add: saturate_def in_i64_def)
  next
    case False
    then have "2 ^ 63 \<le> v + span" using w(3) \<open>c = cmp_op.Eq \<and> 1 < span\<close> by (auto simp: in_i64_def)
    moreover have "v + span < 2 ^ 64" using w(3) assms(6) by (simp add: in_i64_def)
    ultimately have "wrap (v + span) = v + span - 2 ^ 64" by (rule wrap_over)
    then have "wrap (v + span) < 0" using w(3) assms(6) by (simp add: in_i64_def)
    then show ?thesis using \<open>2 ^ 63 \<le> v + span\<close> w(2) by (simp add: saturate_def)
  qed
  then show ?thesis using True w(1) assms(2,3) by simp
next
  case False
  then show ?thesis using assms(1-3) by (cases c) (auto simp: num_test_def)
qed

lemma sint_in: "in_i64 (sint (w :: i64))"
  using sint_range_size [of w] by (simp add: in_i64_def word_size)

text \<open>Directory numbers in a column are in the order of their words.\<close>

lemma dir_cell: "0 \<le> sint (ucast (d :: u32) :: i64)" "ucast (ucast d :: i64) = d"
  "sint (ucast d :: i64) \<le> sint (ucast e :: i64) \<longleftrightarrow> d \<le> (e :: u32)"
proof -
  have s: "sint (ucast (w :: u32) :: i64) = uint w" for w :: u32
  proof -
    have "uint w < 2 ^ LENGTH(32)" by (rule unsigned_less)
    moreover have "- (2 ^ 63) \<le> uint w" by (rule order_trans [OF _ uint_ge_0]) simp
    ultimately show ?thesis by (simp add: sint_uint unsigned_ucast_eq signed_take_bit_int_eq_self take_bit_int_eq_self)
  qed
  show "0 \<le> sint (ucast d :: i64)" "sint (ucast d :: i64) \<le> sint (ucast e :: i64) \<longleftrightarrow> d \<le> e"
    unfolding s by (simp_all add: word_le_def)
  show "ucast (ucast d :: i64) = d" by (simp add: ucast_up_ucast_id is_up)
qed


text \<open>The number of flagged directories below each number.\<close>

lemma reach_from_nth:
  "i \<le> length ps \<Longrightarrow> (n # reach_from n ps) ! i = n + of_nat (length (filter (\<lambda>(w, e). w \<or> e) (take i ps)))"
proof (induction ps arbitrary: n i)
  case (Cons p ps)
  obtain w e where p: "p = (w, e)" by fastforce
  show ?case
  proof (cases i)
    case (Suc j)
    let ?m = "n + (if w \<or> e then 1 else 0)"
    have "(n # reach_from n (p # ps)) ! i = (?m # reach_from ?m ps) ! j" using Suc by (simp add: p Let_def)
    also have "\<dots> = ?m + of_nat (length (filter (\<lambda>(w, e). w \<or> e) (take j ps)))"
      using Cons.IH [of j ?m] Cons.prems Suc by simp
    finally show ?thesis using Suc by (simp add: p)
  qed simp
qed simp

lemma length_reach_from [simp]: "length (reach_from n ps) = length ps"
  by (induction ps arbitrary: n) (auto simp: Let_def)

lemma reach_admits:
  assumes ps: "ps_reach ps = 0 # reach_from 0 zs" "length zs < 2 ^ 32"
    and d: "lo \<le> d" "d \<le> hi" "unat d < length zs" "case zs ! unat d of (w, e) \<Rightarrow> w \<or> e"
  shows "path_set_admits ps lo hi"
proof -
  let ?flagged = "\<lambda>i. length (filter (\<lambda>(w, e). w \<or> e) (take i zs))"
  have lo: "unat lo \<le> unat d" "unat d \<le> unat hi" using d by (simp_all add: word_le_nat_alt)
  have at: "nth_opt (ps_reach ps) i = (if i \<le> length zs then Some (as_u32 (?flagged i)) else None)" for i
    using reach_from_nth [of i zs 0] by (simp add: nth_opt_def ps(1) less_Suc_eq_le)
  define past where "past = (if hi = - 1 then unat hi else unat hi + 1)"
  have n: "unat d < past"
  proof (cases "hi = - 1")
    case True
    then have "past = 2 ^ 32 - 1" by (simp add: past_def unsigned_minus_1_eq_mask mask_eq_exp_minus_1)
    then show ?thesis using d(3) ps(2) by simp
  qed (use lo in \<open>simp add: past_def\<close>)
  have adm: "path_set_admits ps lo hi = (case (nth_opt (ps_reach ps) (unat lo), nth_opt (ps_reach ps) past) of
      (Some below, Some through) \<Rightarrow> below < through | _ \<Rightarrow> True)"
    by (simp add: path_set_admits_def ps(1) past_def)
  show ?thesis
  proof (cases "past \<le> length zs")
    case True
    have "?flagged (unat d) < ?flagged (Suc (unat d))"
      using d(3,4) by (simp add: take_Suc_conv_app_nth case_prod_beta)
    moreover have "?flagged i \<le> ?flagged j" if "i \<le> j" for i j
      using that by (metis filter_append le_add1 length_append le_add_diff_inverse take_add)
    ultimately have less: "?flagged (unat lo) < ?flagged past"
      using lo(1) n by (meson Suc_leI le_less_trans less_le_trans)
    have "?flagged i \<le> length zs" for i by (rule le_trans [OF length_filter_le]) simp
    then have "unat (as_u32 (?flagged i)) = ?flagged i" for i using ps(2) by (intro unat_u32) (rule le_less_trans)
    then have "as_u32 (?flagged (unat lo)) < as_u32 (?flagged past)" using less by (simp add: word_less_nat_alt)
    then show ?thesis using True lo d(3) by (simp add: adm at)
  qed (simp add: adm at split: option.split)
qed

section \<open>No block of an answer is skipped\<close>

lemma test_possible_of:
  assumes x: "searchable x es seg" "i < length es" and t: "test_typed x (entry_dirs es) t"
    and span: "case t of TNum f c v span \<Rightarrow> span < 2 ^ 62 | _ \<Rightarrow> True"
    and yes: "evaluate x seg i n t = Ret True"
  shows "test_possible seg (i div BLOCK) t"
proof -
  define cell where "cell f j = entry_cell (fold_str x) (dir_number (entry_dirs es) (entry_parent (e_path (es ! j)))) (es ! j) f" for f j
  have got: "seg_num seg f i = Ret (cell f i)" for f using cell_of [OF x] by (simp add: cell_def)
  have dirs: "\<exists>d :: u32. cell DirId j = ucast d" for j by (auto simp: cell_def entry_cell_def)
  obtain d where d: "seg_dir_id seg i = Ret d" "cell DirId i = ucast d" "unat d < length (entry_dirs es)"
    using dir_of [OF x] got by (metis run.inject)
  obtain j k lo hi where z: "block_range (sg_cols seg) DirId (i div BLOCK) = Some (ucast (lo :: u32), ucast (hi :: u32))"
    "lo \<le> d" "d \<le> hi"
    using zone_of [OF x, of DirId] dirs d(2) dir_cell(3) unfolding cell_def [symmetric] by metis
  show ?thesis
  proof (cases t)
    case (TNum f c v span)
    obtain j k where r: "block_range (sg_cols seg) f (i div BLOCK) = Some (cell f j, cell f k)"
      "sint (cell f j) \<le> sint (cell f i)" "sint (cell f i) \<le> sint (cell f k)"
      using zone_of [OF x, of f] unfolding cell_def [symmetric] by metis
    show ?thesis
      using admits_sound [OF _ r(2,3)] yes t span by (simp add: TNum got r(1) sint_in)
  next
    case (TDirIn s)
    have "scope_contains s d" using yes TDirIn d(1) by (simp add: got d(2) dir_cell(2))
    then show ?thesis using z scope_intersects by (simp add: TDirIn dir_cell)
  next
    case (TKindIn msk)
    obtain j k where r: "block_range (sg_cols seg) field.Kind (i div BLOCK) = Some (cell field.Kind j, cell field.Kind k)"
      "sint (cell field.Kind j) \<le> sint (cell field.Kind i)" "sint (cell field.Kind i) \<le> sint (cell field.Kind k)"
      using zone_of [OF x, of field.Kind] unfolding cell_def [symmetric] by metis
    define n where "n = nat (sint (cell field.Kind i))"
    have b: "0 \<le> sint (cell field.Kind i)" "sint (cell field.Kind i) < 16" "msk AND push_bit n 1 \<noteq> 0"
      using yes by (simp_all add: TKindIn got n_def del: push_bit_of_1)
    then have n: "n < 16" "bit msk n" using u16_and_bit [of n msk] by (simp_all add: n_def)
    have "bit ((ucast msk :: u32) AND push_bit (nat (sint (cell field.Kind j)))
        (push_bit (nat (sint (cell field.Kind k) - sint (cell field.Kind j) + 1)) 1 - 1)) n"
      if "0 \<le> sint (cell field.Kind j)" "sint (cell field.Kind k) < 16"
      using n r(2,3) that b
      by (auto simp: bit_and_iff bit_push_bit_iff bit_ucast_iff n_def push_bit_of_1 mask_eq_exp_minus_1 [symmetric] bit_mask_iff)
    then show ?thesis using r(1) by (auto simp: TKindIn simp del: push_bit_of_1)
  next
    case (TPathIn ps)
    then obtain q where ps: "ps = path_set_of x q (entry_dirs es)" using t by auto
    have small: "length (entry_dirs es) < 2 ^ 32" using dirs_of(1) [OF x(1)] by (simp add: dirs_fit_def)
    have "path_set_admits ps lo hi"
    proof (cases "ps_in_name ps = None")
      case True
      have len: "length (ps_whole ps) = length (entry_dirs es)" "length (ps_ending ps) = length (entry_dirs es)"
        by (simp_all add: ps path_set_of_def Let_def split: prod.split)
      have reach: "ps_reach ps = 0 # reach_from 0 (zip (ps_whole ps) (ps_ending ps))"
        using True by (simp add: ps path_set_of_def Let_def split: prod.splits if_splits)
      have "ps_whole ps ! unat d \<or> ps_ending ps ! unat d"
        using yes TPathIn True d(3) len by (auto simp: d(1) nth_opt_def)
      then show ?thesis using reach_admits [OF reach _ z(2,3)] len d(3) small by simp
    next
      case False
      then have "ps_reach ps = []" by (simp add: ps path_set_of_def Let_def split: prod.splits if_splits)
      then show ?thesis by (simp add: path_set_admits_def)
    qed
    then show ?thesis using z(1) by (simp add: TPathIn dir_cell)
  qed (use yes in simp_all)
qed


text \<open>Clauses that are typed: what compiling a typed query gives.\<close>

definition clauses_typed :: "outside \<Rightarrow> bytes list \<Rightarrow> clause list \<Rightarrow> bool" where
  "clauses_typed x ds cs \<longleftrightarrow> (\<forall>c \<in> set cs. \<forall>(n, t) \<in> set c. test_typed x ds t
     \<and> (case t of TNum f c v span \<Rightarrow> span < 2 ^ 62 | _ \<Rightarrow> True))"

lemma compile_span:
  "compile_match x seg m = Ret (Inr t) \<Longrightarrow> case t of TNum f c v span \<Rightarrow> span < 2 ^ 62 | _ \<Rightarrow> True"
proof (cases m)
  case (NameGlob p)
  then show "compile_match x seg m = Ret (Inr t) \<Longrightarrow> ?thesis" using glob_test_cases [of p] by auto
next
  case (PathContains q)
  then show "compile_match x seg m = Ret (Inr t) \<Longrightarrow> ?thesis" by (cases "path_set_build x q seg") auto
next
  case (Under d)
  then show "compile_match x seg m = Ret (Inr t) \<Longrightarrow> ?thesis" by (cases "subtree (sg_dirs seg) d") (auto split: if_splits)
next
  case (ParentIs d)
  then show "compile_match x seg m = Ret (Inr t) \<Longrightarrow> ?thesis" by (cases "exact (sg_dirs seg) d") (auto split: option.splits)
next
  case (Depth c v)
  then show "compile_match x seg m = Ret (Inr t) \<Longrightarrow> ?thesis" by (cases "depths (sg_dirs seg)") auto
qed (auto split: sum.splits)

lemma compile_alts_typed:
  assumes x: "searchable x es seg"
  shows "\<forall>(n, m) \<in> set as. typed_match m \<Longrightarrow> compile_alts x seg as = Ret (Inr c) \<Longrightarrow>
    clauses_typed x (entry_dirs es) [c]"
proof (induction as arbitrary: c)
  case (Cons a as)
  obtain n m where a: "a = (n, m)" by fastforce
  obtain t ts where t: "compile_match x seg m = Ret (Inr t)" "compile_alts x seg as = Ret (Inr ts)" "c = (n, t) # ts"
    using Cons.prems(2) a by (cases "compile_match x seg m"; cases "compile_alts x seg as") (auto split: sum.splits)
  then show ?case
    using Cons.IH [OF _ t(2)] Cons.prems(1) a compile_typed [OF x _ t(1)] compile_span [OF t(1)]
    by (auto simp: clauses_typed_def)
qed (simp add: clauses_typed_def)

lemma compile_clauses_typed:
  assumes x: "searchable x es seg" and q: "typed_query q" "compile_clauses x seg q = Ret (Inr cs)"
  shows "clauses_typed x (entry_dirs es) cs"
proof -
  have g: "clauses_typed x (entry_dirs es) cs"
    if "\<forall>g \<in> set gs. \<forall>(n, m) \<in> set (alts g). typed_match m" "compile_groups x seg gs = Ret (Inr cs)" for gs cs
    using that
  proof (induction gs arbitrary: cs)
    case (Cons g gs)
    obtain c cs' where c: "compile_alts x seg (alts g) = Ret (Inr c)" "compile_groups x seg gs = Ret (Inr cs')" "cs = c # cs'"
      using Cons.prems(2) by (cases "compile_alts x seg (alts g)"; cases "compile_groups x seg gs") (auto split: sum.splits)
    have one: "clauses_typed x (entry_dirs es) [c]"
      by (rule compile_alts_typed [OF x _ c(1)]) (use Cons.prems(1) in auto)
    have "clauses_typed x (entry_dirs es) cs'" by (rule Cons.IH [OF _ c(2)]) (use Cons.prems(1) in auto)
    then show ?case using c(3) one by (simp add: clauses_typed_def)
  qed (simp add: clauses_typed_def)
  obtain cs' where "compile_groups x seg (groups q) = Ret (Inr cs')" "cs = sort_key clause_cost cs'"
    using q(2) by (cases "compile_groups x seg (groups q)") (auto simp: compile_clauses_def)
  then show ?thesis using g [of "groups q" cs'] q(1) by (simp add: typed_query_def clauses_typed_def)
qed

text \<open>A row is accepted when every clause holds; a plain clause holds when its condition does.\<close>

lemma accepts_clause: "accepts_row x seg i n cs = Ret True \<Longrightarrow> c \<in> set cs \<Longrightarrow> clause_holds x seg i n c = Ret True"
proof (induction cs)
  case (Cons d ds)
  then show ?case by (cases "clause_holds x seg i n d") (auto split: if_splits)
qed simp

lemma plain_clause:
  assumes "clause_holds x seg i n c = Ret True" "plain_test c = Some t"
  shows "evaluate x seg i n t = Ret True" "(False, t) \<in> set c"
proof -
  have c: "c = [(False, t)]" using assms(2) by (auto simp: plain_test_def split: list.splits if_splits)
  then show "(False, t) \<in> set c" by simp
  show "evaluate x seg i n t = Ret True"
    using assms(1) c by (cases "evaluate x seg i n t") (auto split: if_splits)
qed

lemma possible_of_accepted:
  assumes x: "searchable x es seg" "i < length es" and cs: "clauses_typed x (entry_dirs es) cs"
    and yes: "accepts_row x seg i n cs = Ret True"
  shows "block_possible cs seg (i div BLOCK)"
proof -
  have "test_possible seg (i div BLOCK) t" if c: "c \<in> set cs" "plain_test c = Some t" for c t
    using plain_clause [OF accepts_clause [OF yes c(1)] c(2)] cs c(1)
    by (intro test_possible_of [OF x]) (auto simp: clauses_typed_def)
  then show ?thesis by (auto simp: block_possible_def list_all_iff split: option.split)
qed

lemma intersect_blocks_spec:
  "sorted_wrt (<) as \<Longrightarrow> sorted_wrt (<) bs \<Longrightarrow>
     set (intersect_blocks as bs) = set as \<inter> set bs \<and> sorted_wrt (<) (intersect_blocks as bs)"
proof -
  have "intersect_blocks as bs = intersect as bs" by (induction as bs rule: intersect.induct) simp_all
  then show "sorted_wrt (<) as \<Longrightarrow> sorted_wrt (<) bs \<Longrightarrow> ?thesis" by (simp add: intersect_spec)
qed

text \<open>What the index narrows to: in order, and with every block of an accepted row.\<close>

definition narrowed :: "outside \<Rightarrow> entry list \<Rightarrow> segment \<Rightarrow> clause list \<Rightarrow> u32 list option \<Rightarrow> bool" where
  "narrowed x es seg cs r \<longleftrightarrow> (\<forall>out. r = Some out \<longrightarrow> sorted_wrt (<) out
     \<and> (\<forall>i < length es. accepts_row x seg i (row_fold x (es ! i)) cs = Ret True \<longrightarrow> as_u32 (i div BLOCK) \<in> set out))"

lemma narrow_loop_of:
  assumes x: "searchable x es seg" and cs: "clauses_typed x (entry_dirs es) cs"
  shows "set ds \<subseteq> set cs \<Longrightarrow> narrowed x es seg cs out \<Longrightarrow> \<exists>r. narrow_loop seg ds out = Ret r \<and> narrowed x es seg cs r"
proof (induction ds arbitrary: out)
  case (Cons d ds)
  show ?case
  proof (cases "Option.bind (plain_test d) filterable")
    case None
    then show ?thesis using Cons by simp
  next
    case (Some needle)
    then obtain t where t: "plain_test d = Some t" "filterable t = Some needle" by (auto simp: Option.bind_eq_Some_conv)
    obtain r where r: "candidates (sg_tri seg) needle = Ret r" "\<forall>b. r = Some b \<longrightarrow> sorted_wrt (<) b
        \<and> (\<forall>i < length es. contains needle (row_fold x (es ! i)) \<longrightarrow> as_u32 (i div BLOCK) \<in> set b)"
      using candidates_of [OF x, of needle] by blast
    show ?thesis
    proof (cases r)
      case None
      then show ?thesis using Cons r(1) Some by simp
    next
      case (Some blocks)
      have has: "as_u32 (i div BLOCK) \<in> set blocks"
        if i: "i < length es" "accepts_row x seg i (row_fold x (es ! i)) cs = Ret True" for i
      proof -
        have d: "d \<in> set cs" using Cons.prems(1) by simp
        note p = plain_clause [OF accepts_clause [OF i(2) d] t(1)]
        have "test_typed x (entry_dirs es) t" using cs d p(2) by (auto simp: clauses_typed_def)
        then have "contains needle (row_fold x (es ! i))" by (rule filterable_sound [OF x i(1) _ t(2) p(1)])
        then show ?thesis using r(2) Some i(1) by blast
      qed
      define out' where "out' = (case out of None \<Rightarrow> blocks | Some have \<Rightarrow> intersect_blocks have blocks)"
      have "narrowed x es seg cs (Some out')"
        using Cons.prems(2) r(2) Some has intersect_blocks_spec
        by (auto simp: narrowed_def out'_def split: option.split)
      then obtain r' where "narrow_loop seg ds (Some out') = Ret r'" "narrowed x es seg cs r'"
        using Cons.IH Cons.prems(1) by force
      then show ?thesis using r(1) Some \<open>Option.bind (plain_test d) filterable = Some needle\<close> by (simp add: out'_def)
    qed
  qed
qed simp

lemma narrow_of:
  assumes "searchable x es seg" "clauses_typed x (entry_dirs es) cs"
  shows "\<exists>r. narrow_to_blocks off cs seg = Ret r \<and> narrowed x es seg cs r"
  using narrow_loop_of [OF assms order_refl, of None] by (auto simp: narrow_to_blocks_def narrowed_def)

text \<open>A block with a live row is live.\<close>

definition alive_fits :: "entry list \<Rightarrow> segment \<Rightarrow> bool" where
  "alive_fits es seg \<longleftrightarrow> length (sg_alive seg) = (length es + 7) div 8"

lemma block_alive_of:
  assumes "alive_fits es seg" "i < length es" "is_alive seg i"
  shows "block_alive seg (i div BLOCK)"
proof -
  let ?from = "i div BLOCK * BLOCK div 8" and ?a = "sg_alive seg"
  let ?to = "min (?from + BLOCK div 8) (length ?a)"
  have at: "i div 8 < length ?a" using rows_in_bits [OF assms(2)] assms(1) by (simp add: alive_fits_def)
  have "i div BLOCK * BLOCK div 8 = i div BLOCK * 4" by simp
  moreover have "i div 8 div 4 = i div BLOCK" by (simp add: div_mult2_eq [symmetric])
  ultimately have r: "?from \<le> i div 8" "i div 8 < ?to" using at by linarith+
  then have "get_range ?a ?from ?to = Some (drop ?from (take ?to ?a))" by (simp add: get_range_def drop_take)
  moreover have "?a ! (i div 8) \<in> set (drop ?from (take ?to ?a))"
  proof -
    have "length (drop ?from (take ?to ?a)) = ?to - ?from" by simp
    then have "i div 8 - ?from < length (drop ?from (take ?to ?a))" using diff_less_mono [OF r(2,1)] by simp
    from nth_mem [OF this] show ?thesis using r by simp
  qed
  moreover have "?a ! (i div 8) \<noteq> 0" using assms(3) at by (auto simp: is_alive_def nth_opt_def)
  ultimately show ?thesis by (auto simp: block_alive_def Let_def list_ex_iff)
qed


section \<open>The walk visits what matches\<close>

text \<open>Giving a callback rows until it says stop.\<close>

fun feed :: "('s \<Rightarrow> nat \<Rightarrow> 's \<times> bool) \<Rightarrow> nat list \<Rightarrow> 's \<Rightarrow> 's \<times> bool" where
  "feed f [] s = (s, True)"
| "feed f (i # is) s = (let (s, go) = f s i in if go then feed f is s else (s, False))"

lemma feed_append:
  "feed f (as @ bs) s = (case feed f as s of (s, go) \<Rightarrow> if go then feed f bs s else (s, False))"
  by (induction as arbitrary: s) (auto simp: Let_def split: prod.split)

lemma upt_join:
  assumes "a \<le> m" "m \<le> (e :: nat)"
  shows "[a ..< min m r] @ [m ..< min e r] = [a ..< min e r]"
proof (cases "m \<le> r")
  case True
  then show ?thesis using assms upt_add_eq_append [of a m "min e r - m"] by simp
qed (use assms in simp)

lemma unat_less_32: "unat (w :: u32) < 2 ^ 32"
proof -
  have "unat w < 2 ^ LENGTH(32)" by (rule unsigned_less)
  then show ?thesis by simp
qed

lemma run_last_block:
  "sorted_wrt (<) (b # bs) \<Longrightarrow> run_last b bs = (c, rest) \<Longrightarrow>
    concat (map (\<lambda>b. block_rows rows (unat b)) (b # bs))
      = [unat b * BLOCK ..< min ((unat c + 1) * BLOCK) rows] @ concat (map (\<lambda>b. block_rows rows (unat b)) rest)
    \<and> sorted_wrt (<) rest \<and> b \<le> c"
proof (induction b bs arbitrary: c rest rule: run_last.induct)
  case (2 b d ds)
  show ?case
  proof (cases "d = b + 1")
    case True
    then have r: "run_last d ds = (c, rest)" using 2(3) by simp
    have less: "b < d" using 2(2) by simp
    then have u: "unat d = unat b + 1"
    proof -
      have "unat d = (unat b + 1) mod 2 ^ 32" using True by (simp add: unat_word_ariths)
      moreover have "unat b < unat d" using less by (simp add: word_less_nat_alt)
      moreover have "unat b < 2 ^ 32" by (rule unat_less_32)
      ultimately show ?thesis by (cases "unat b + 1 < 2 ^ 32") simp_all
    qed
    have IH: "concat (map (\<lambda>b. block_rows rows (unat b)) (d # ds))
        = [unat d * BLOCK ..< min ((unat c + 1) * BLOCK) rows] @ concat (map (\<lambda>b. block_rows rows (unat b)) rest)"
      "sorted_wrt (<) rest" "d \<le> c"
      using 2(1) [OF True _ r] 2(2) by auto
    have "unat d \<le> unat c" using IH(3) by (simp add: word_le_nat_alt)
    then have "[unat b * BLOCK ..< min (unat b * BLOCK + BLOCK) rows] @ [unat d * BLOCK ..< min ((unat c + 1) * BLOCK) rows]
        = [unat b * BLOCK ..< min ((unat c + 1) * BLOCK) rows]"
      using u upt_join [of "unat b * BLOCK" "unat b * BLOCK + BLOCK" "(unat c + 1) * BLOCK" rows]
      by (simp add: add.commute)
    then show ?thesis using IH less by (simp add: block_rows_def)
  qed (use 2(2,3) in \<open>auto simp: block_rows_def add.commute\<close>)
qed (auto simp: block_rows_def add.commute)

lemma runs_of_rows:
  "sorted_wrt (<) bs \<Longrightarrow>
    concat (map (\<lambda>(from, to). [from ..< to]) (runs_of bs rows)) = concat (map (\<lambda>b. block_rows rows (unat b)) bs)
    \<and> (\<forall>(from, to) \<in> set (runs_of bs rows). to \<le> rows)"
proof (induction bs rows rule: runs_of.induct)
  case (2 b bs rows)
  obtain c rest where r: "run_last b bs = (c, rest)" by fastforce
  then show ?case using 2(1) [OF r [symmetric]] run_last_block [OF 2(2) r, of rows] by (auto simp: r)
qed simp


text \<open>A list of blocks in order, with every block of a hit, finds every hit in order.\<close>

lemma block_list_sorted:
  "sorted_wrt (<) bs \<Longrightarrow> sorted_wrt (<) (concat (map (\<lambda>b. block_rows rows (unat b)) (bs :: u32 list)))"
proof (induction bs)
  case (Cons b bs)
  have "i < j" if "i \<in> set (block_rows rows (unat b))" "c \<in> set bs" "j \<in> set (block_rows rows (unat c))" for i j c
  proof -
    have "unat b < unat c" using Cons.prems that(2) by (simp add: word_less_nat_alt)
    then have "i div BLOCK < j div BLOCK" using that(1,3) by (simp only: block_rows_block)
    then show ?thesis by (meson div_le_mono not_le)
  qed
  moreover have "sorted_wrt (<) (block_rows rows (unat b))" by (simp add: block_rows_def)
  ultimately show ?case using Cons by (auto simp: sorted_wrt_append)
qed simp

lemma block_list_hits:
  assumes bs: "sorted_wrt (<) bs" and hit: "\<And>i. i < rows \<Longrightarrow> hit i \<Longrightarrow> as_u32 (i div BLOCK) \<in> set bs"
    and small: "rows < 2 ^ 32"
  shows "filter hit (concat (map (\<lambda>b. block_rows rows (unat b)) bs)) = filter hit [0 ..< rows]"
proof (rule strict_sorted_equal)
  show "sorted_wrt (<) (filter hit [0 ..< rows])" by (simp add: sorted_wrt_filter)
  show "sorted_wrt (<) (filter hit (concat (map (\<lambda>b. block_rows rows (unat b)) bs)))"
    using block_list_sorted [OF bs] by (rule sorted_wrt_filter)
  show "set (filter hit (concat (map (\<lambda>b. block_rows rows (unat b)) bs))) = set (filter hit [0 ..< rows])"
  proof (intro equalityI subsetI)
    fix i assume "i \<in> set (filter hit [0 ..< rows])"
    then have i: "i < rows" "hit i" by auto
    then have "unat (as_u32 (i div BLOCK)) = i div BLOCK" using small by (intro unat_u32) linarith
    then have "i \<in> set (block_rows rows (unat (as_u32 (i div BLOCK))))" using i(1) by (simp only: block_rows_block)
    then show "i \<in> set (filter hit (concat (map (\<lambda>b. block_rows rows (unat b)) bs)))"
      using hit [OF i] i(2) by auto
  qed (auto simp: block_rows_block)
qed

lemma seg_rows_of: "searchable x es seg \<Longrightarrow> seg_rows seg = length es"
  using searchable_facts(4) [of x es seg] by (simp add: seg_rows_def holds_entries_def column_view_def)

lemma worth_opening_hits:
  assumes x: "searchable x es seg" "alive_fits es seg" "length es < 2 ^ 32" and cs: "clauses_typed x (entry_dirs es) cs"
    and n: "narrowed x es seg cs r"
    and hit: "\<And>i. i < length es \<Longrightarrow> hit i \<Longrightarrow> is_alive seg i \<and> accepts_row x seg i (row_fold x (es ! i)) cs = Ret True"
  defines "blocks \<equiv> blocks_worth_opening seg \<lparr>pl_clauses = cs, pl_candidates = r\<rparr>"
  shows "sorted_wrt (<) blocks"
    "filter hit (concat (map (\<lambda>b. block_rows (length es) (unat b)) blocks)) = filter hit [0 ..< length es]"
proof -
  let ?all = "map as_u32 [0 ..< n_blocks (length es)]" and ?keep = "\<lambda>b. block_alive seg (unat b) \<and> block_possible cs seg (unat b)"
  let ?from = "case r of Some c \<Rightarrow> c | None \<Rightarrow> ?all"
  have nb: "n_blocks (length es) < 2 ^ 32" using x(3) unfolding n_blocks_def by linarith
  have b: "blocks = filter ?keep ?from" by (cases r) (simp_all add: blocks_def blocks_worth_opening_def seg_rows_of [OF x(1)])
  have srt: "sorted_wrt (<) ?from"
  proof (cases r)
    case None
    have "sorted_wrt (<) ?all" using nb by (intro sorted_as_u32) auto
    then show ?thesis using None by simp
  qed (use n in \<open>simp add: narrowed_def\<close>)
  then show s: "sorted_wrt (<) blocks" unfolding b by (rule sorted_wrt_filter)
  have "as_u32 (i div BLOCK) \<in> set blocks" if i: "i < length es" "hit i" for i
  proof -
    note h = hit [OF i]
    have "i div BLOCK < n_blocks (length es)" using i(1) unfolding n_blocks_def by linarith
    then have "as_u32 (i div BLOCK) \<in> set ?from" using n h i(1) by (auto simp: narrowed_def split: option.split)
    moreover have "unat (as_u32 (i div BLOCK)) = i div BLOCK" using i(1) x(3) by (intro unat_u32) linarith
    ultimately show ?thesis
      using block_alive_of [OF x(2) i(1)] possible_of_accepted [OF x(1) i(1) cs] h by (auto simp: b)
  qed
  then show "filter hit (concat (map (\<lambda>b. block_rows (length es) (unat b)) blocks)) = filter hit [0 ..< length es]"
    by (rule block_list_hits [OF s _ x(3)])
qed

section \<open>Visiting the rows\<close>

lemma nameless_test: "\<not> test_reads_name t \<Longrightarrow> evaluate x seg i n t = evaluate x seg i n' t"
  by (cases t) simp_all

lemma nameless_clause: "\<not> list_ex (\<lambda>(_, t). test_reads_name t) c \<Longrightarrow> clause_holds x seg i n c = clause_holds x seg i n' c"
proof (induction c)
  case (Cons a c)
  obtain m t where a: "a = (m, t)" by fastforce
  then have "evaluate x seg i n t = evaluate x seg i n' t" using Cons.prems by (intro nameless_test) simp
  then show ?case using Cons a by (cases "evaluate x seg i n' t") simp_all
qed simp

lemma nameless_accepts: "\<not> needs_name cs \<Longrightarrow> accepts_row x seg i n cs = accepts_row x seg i n' cs"
proof (induction cs)
  case (Cons c cs)
  then have "clause_holds x seg i n c = clause_holds x seg i n' c"
    by (intro nameless_clause) (simp add: needs_name_def)
  then show ?case using Cons by (cases "clause_holds x seg i n' c") (simp_all add: needs_name_def)
qed simp

lemma rows_by_number_of:
  "(\<And>i. i \<in> set is \<Longrightarrow> accepts_row x seg i [] cs = Ret (a i)) \<Longrightarrow>
    rows_by_number x seg cs f is s = Ret (feed f (filter (\<lambda>i. is_alive seg i \<and> a i) is) s)"
  by (induction "is" arbitrary: s) (simp_all add: Let_def split: prod.split)

lemma named_row_of:
  "accepts_row x seg i n cs = Ret yes \<Longrightarrow> named_row x seg cs f (Ret (s, True)) i n
    = (if is_alive seg i \<and> yes then (case f s i of (s, go) \<Rightarrow> (Ret (s, go), go)) else (Ret (s, True), True))"
  by (simp add: named_row_def Let_def)

lemma run_named_rows:
  "(\<And>i. i \<in> set is \<Longrightarrow> accepts_row x seg i (g i) cs = Ret (a i)) \<Longrightarrow>
    run_while (named_row x seg cs f) (map (\<lambda>i. (i, g i)) is) (Ret (s, True))
      = Ret (feed f (filter (\<lambda>i. is_alive seg i \<and> a i) is) s)"
proof (induction "is" arbitrary: s)
  case (Cons i "is")
  have "run_while (named_row x seg cs f) (map (\<lambda>i. (i, g i)) is) (Ret (s, True))
      = Ret (feed f (filter (\<lambda>i. is_alive seg i \<and> a i) is) s)" for s
    using Cons by simp
  then show ?case
    using named_row_of [OF Cons.prems [of i], of f s] by (cases "is_alive seg i \<and> a i"; cases "f s i") (auto simp: Let_def)
qed simp

lemma rows_by_name_of:
  assumes x: "searchable x es seg" and a: "\<And>i. i < length es \<Longrightarrow> accepts_row x seg i (row_fold x (es ! i)) cs = Ret (a i)"
    and to: "to \<le> length es"
  shows "rows_by_name x seg cs f from to s = Ret (feed f (filter (\<lambda>i. is_alive seg i \<and> a i) [from ..< to]) s)"
proof -
  let ?ns = "map (folded_bytes (x_unicode x)) (entry_names es)"
  note s = searchable_facts [OF x]
  have "names_fit ?ns" using s(3) by (simp add: entries_fit_def names_text_def)
  then have "rows_by_name x seg cs f from to s
      = run_while (named_row x seg cs f) (map (\<lambda>i. (i, ?ns ! i)) [from ..< to]) (Ret (s, True))"
    using walk_range_of [OF s(6), of ?ns "from" "to"] s(4) to by (simp add: rows_by_name_def holds_entries_def min_absorb1)
  also have "map (\<lambda>i. (i, ?ns ! i)) [from ..< to] = map (\<lambda>i. (i, row_fold x (es ! i))) [from ..< to]"
    using to fold_row_of [OF x] by (simp add: entry_names_def)
  finally show ?thesis using run_named_rows [of "[from ..< to]" x seg "\<lambda>i. row_fold x (es ! i)" cs a f s] a to by simp
qed

lemma over_runs_of:
  "(\<And>from to s. (from, to) \<in> set runs \<Longrightarrow> step from to s = Ret (feed f (filter hit [from ..< to]) s)) \<Longrightarrow>
    over_runs step runs s = Ret (feed f (filter hit (concat (map (\<lambda>(from, to). [from ..< to]) runs))) s)"
proof (induction runs arbitrary: s)
  case (Cons r runs)
  obtain a b where r: "r = (a, b)" by fastforce
  have "step a b s = Ret (feed f (filter hit [a ..< b]) s)" using Cons.prems r by simp
  moreover have "over_runs step runs s = Ret (feed f (filter hit (concat (map (\<lambda>(from, to). [from ..< to]) runs))) s)" for s
    using Cons by simp
  ultimately show ?case by (simp add: r feed_append split: prod.split)
qed simp

lemma walk_matches_of:
  assumes x: "searchable x es seg" "alive_fits es seg" "length es < 2 ^ 32" and cs: "clauses_typed x (entry_dirs es) cs"
    and n: "narrowed x es seg cs r"
    and a: "\<And>i. i < length es \<Longrightarrow> accepts_row x seg i (row_fold x (es ! i)) cs = Ret (a i)"
  shows "walk_matches x seg \<lparr>pl_clauses = cs, pl_candidates = r\<rparr> f s
    = Ret (feed f (filter (\<lambda>i. is_alive seg i \<and> a i) [0 ..< length es]) s)"
proof -
  let ?hit = "\<lambda>i. is_alive seg i \<and> a i" and ?plan = "\<lparr>pl_clauses = cs, pl_candidates = r\<rparr>"
  let ?blocks = "blocks_worth_opening seg ?plan"
  have hit: "is_alive seg i \<and> accepts_row x seg i (row_fold x (es ! i)) cs = Ret True" if "i < length es" "?hit i" for i
    using that a by simp
  note b = worth_opening_hits [where hit = ?hit, OF x cs n hit]
  note runs = runs_of_rows [OF b(1), where rows = "length es"]
  let ?step = "\<lambda>from to s. if \<not> needs_name cs then rows_by_number x seg cs f [from ..< to] s else rows_by_name x seg cs f from to s"
  have "?step p q s = Ret (feed f (filter ?hit [p ..< q]) s)" if "(p, q) \<in> set (runs_of ?blocks (length es))" for p q s
  proof -
    have "q \<le> length es" using that runs by blast
    show ?thesis
    proof (cases "needs_name cs")
      case True
      then show ?thesis using rows_by_name_of [OF x(1) a \<open>q \<le> length es\<close>] by simp
    next
      case False
      have "accepts_row x seg i [] cs = Ret (a i)" if "i \<in> set [p ..< q]" for i
        using nameless_accepts [OF False, of x seg i "[]" "row_fold x (es ! i)"] a that \<open>q \<le> length es\<close> by simp
      from rows_by_number_of [of "[p ..< q]", OF this] show ?thesis using False by simp
    qed
  qed
  then have "over_runs ?step (runs_of ?blocks (length es)) s
      = Ret (feed f (filter ?hit (concat (map (\<lambda>(from, to). [from ..< to]) (runs_of ?blocks (length es))))) s)"
    by (rule over_runs_of)
  moreover have "concat (map (\<lambda>(from, to). [from ..< to]) (runs_of ?blocks (length es)))
      = concat (map (\<lambda>b. block_rows (length es) (unat b)) ?blocks)"
    using runs by blast
  ultimately show ?thesis
    unfolding walk_matches_def Let_def seg_rows_of [OF x(1)] by (simp only: plan.select_convs b(2))
qed


section \<open>Over a live segment\<close>

text \<open>Entries whose folded names and directories fit the folder's buffer.\<close>

definition folds_fit :: "outside \<Rightarrow> entry list \<Rightarrow> bool" where
  "folds_fit x es \<longleftrightarrow> (\<forall>e \<in> set es. length (fold_str x (entry_name (e_path e))) \<le> FOLD_CAP
     \<and> length (fold_str x (entry_parent (e_path e))) \<le> FOLD_CAP)"

definition live_searchable :: "outside \<Rightarrow> entry list \<Rightarrow> live \<Rightarrow> bool" where
  "live_searchable x es lv \<longleftrightarrow> outside_ok x \<and> keeps_marks (x_unicode x)
     \<and> entries_fit (folded_bytes (x_unicode x)) es \<and> plain_paths es \<and> folds_fit x es
     \<and> live_holds (x_memchr x) (folded_bytes (x_unicode x)) (fold_str x) es lv"

lemma live_seg:
  assumes "live_searchable x es lv"
  obtains seg where "live_view lv = Inr seg" "searchable x es seg" "alive_fits es seg" "length es < 2 ^ 32"
    "\<And>i. i < length es \<Longrightarrow> is_alive seg i = live_is_alive lv i"
proof -
  note l = assms [unfolded live_searchable_def]
  obtain seg where seg: "live_view lv = Inr seg" "holds_entries (folded_bytes (x_unicode x)) (fold_str x) es seg"
    "sg_alive seg = lv_alive lv"
    using live_view_holds l by blast
  have "length (lv_alive lv) = (length es + 7) div 8" using l by (simp add: live_holds_def)
  then have "alive_fits es seg" using seg(3) by (simp add: alive_fits_def)
  moreover have "searchable x es seg" using l seg(2) by (simp add: searchable_def folds_fit_def)
  moreover have "is_alive seg i = live_is_alive lv i" if "i < length es" for i
    using rows_in_bits [OF that] seg(3) \<open>length (lv_alive lv) = (length es + 7) div 8\<close>
    by (simp add: is_alive_def live_is_alive_def nth_opt_def)
  moreover have "length es < 2 ^ 32" using l by (simp add: entries_fit_def)
  ultimately show thesis using that seg(1) by blast
qed

text \<open>
  What a plan accepts of the rows: it answers of each, and of a row that may be compared with the
  reference it answers as the reference does.
\<close>

definition plan_accepts ::
  "outside \<Rightarrow> entry list \<Rightarrow> segment \<Rightarrow> bytes ast \<Rightarrow> plan \<Rightarrow> (nat \<Rightarrow> bool) \<Rightarrow> bool" where
  "plan_accepts x es seg q plan acc \<longleftrightarrow> (\<forall>i < length es.
     accepts_row x seg i (folded_bytes (x_unicode x) (entry_name (e_path (es ! i)))) (pl_clauses plan) = Ret (acc i)
     \<and> (row_comparable x (es ! i) q \<longrightarrow> acc i = ref_matches x (es ! i) q))"

lemma plan_of:
  assumes x: "searchable x es seg" and q: "typed_query q"
  shows "\<exists>r. plan_compile x off q seg = Ret r \<and> (case r of
      Inl e \<Rightarrow> refuses x q
    | Inr plan \<Rightarrow> \<not> refuses x q \<and> clauses_typed x (entry_dirs es) (pl_clauses plan)
        \<and> narrowed x es seg (pl_clauses plan) (pl_candidates plan) \<and> (\<exists>acc. plan_accepts x es seg q plan acc))"
proof -
  obtain r where r: "compile_clauses x seg q = Ret r" "case r of
      Inl e \<Rightarrow> refuses x q
    | Inr cs \<Rightarrow> \<not> refuses x q \<and> (\<forall>i < length es. row_comparable x (es ! i) q \<longrightarrow>
        accepts_row x seg i (row_fold x (es ! i)) cs = Ret (ref_matches x (es ! i) q))"
    using compiled_answers [OF x, of q] by blast
  show ?thesis
  proof (cases r)
    case (Inr cs)
    have t: "clauses_typed x (entry_dirs es) cs" by (rule compile_clauses_typed [OF x q]) (simp add: r(1) Inr)
    then obtain n where n: "narrow_to_blocks off cs seg = Ret n" "narrowed x es seg cs n" using narrow_of [OF x] by blast
    define acc where "acc i = (accepts_row x seg i (row_fold x (es ! i)) cs = Ret True)" for i
    have "accepts_row x seg i (row_fold x (es ! i)) cs = Ret (acc i)" if "i < length es" for i
      using accepts_returns [OF x that, of "row_fold x (es ! i)" cs] by (auto simp: acc_def)
    moreover have "row_comparable x (es ! i) q \<Longrightarrow> acc i = ref_matches x (es ! i) q" if "i < length es" for i
      using r(2) Inr that by (auto simp: acc_def)
    ultimately have "plan_accepts x es seg q \<lparr>pl_clauses = cs, pl_candidates = n'\<rparr> acc" for n'
      using fold_row_of [OF x] by (simp add: plan_accepts_def)
    then show ?thesis using r Inr t n by (auto simp: plan_compile_def)
  qed (use r in \<open>simp add: plan_compile_def\<close>)
qed

lemma plan_accepted:
  assumes "live_searchable x es lv" "typed_query q" "\<not> refuses x q"
  obtains seg plan acc where "live_view lv = Inr seg" "searchable x es seg" "alive_fits es seg" "length es < 2 ^ 32"
    "\<And>i. i < length es \<Longrightarrow> is_alive seg i = live_is_alive lv i"
    "plan_compile x off q seg = Ret (Inr plan)" "clauses_typed x (entry_dirs es) (pl_clauses plan)"
    "narrowed x es seg (pl_clauses plan) (pl_candidates plan)" "plan_accepts x es seg q plan acc"
    "\<And>i. i < length es \<Longrightarrow> accepts_row x seg i (row_fold x (es ! i)) (pl_clauses plan) = Ret (acc i)"
proof -
  obtain seg where seg: "live_view lv = Inr seg" "searchable x es seg" "alive_fits es seg" "length es < 2 ^ 32"
    "\<And>i. i < length es \<Longrightarrow> is_alive seg i = live_is_alive lv i"
    using live_seg [OF assms(1)] by metis
  obtain r where r: "plan_compile x off q seg = Ret r" "case r of
      Inl e \<Rightarrow> refuses x q
    | Inr plan \<Rightarrow> \<not> refuses x q \<and> clauses_typed x (entry_dirs es) (pl_clauses plan)
        \<and> narrowed x es seg (pl_clauses plan) (pl_candidates plan) \<and> (\<exists>acc. plan_accepts x es seg q plan acc)"
    using plan_of [OF seg(2) assms(2), of off] by blast
  obtain plan where plan: "r = Inr plan" using r(2) assms(3) by (cases r) auto
  obtain acc where acc: "plan_accepts x es seg q plan acc" using r(2) plan by auto
  have "accepts_row x seg i (row_fold x (es ! i)) (pl_clauses plan) = Ret (acc i)" if "i < length es" for i
    using acc that fold_row_of [OF seg(2) that] unfolding plan_accepts_def by metis
  then show thesis using that seg r plan acc by simp
qed

section \<open>Properties\<close>

text \<open>
  C10: a compiled query answers of a row what the reference answers.  Compiling a query against
  a segment never panics; it refuses exactly a query that asks for contents or names an
  expression that does not compile; and otherwise asking any row, whichever way its tests were
  rewritten to column comparisons, directory ranges, flag tables or extension tests, answers
  without a panic, and gives the answer the reference gives of the row's entry when the row is
  comparable with the conditions of the query.  It is not in these corners: a pattern of a star
  and an extension, of a name in which the index sees no extension (as a dotfile);
  \<open>ext:\<close> of a name whose fold has no stem; \<open>depth:\<close> of a row directly
  in the root, without a directory or more than 65535 deep; \<open>len:\<close> of a name whose
  fold has another number of characters; \<open>parent:/\<close> of a row directly in the root;
  \<open>path:\<close> with a separator of a row without a directory, or with two of a row in
  the root; and \<open>under:/\<close> of a path that is not absolute.
\<close>

theorem compiled_is_reference:
  assumes "live_searchable x es lv" "typed_query q"
  shows "\<exists>seg r. live_view lv = Inr seg \<and> plan_compile x no_trigram q seg = Ret r \<and> (case r of
      Inl e \<Rightarrow> refuses x q
    | Inr plan \<Rightarrow> \<not> refuses x q \<and> (\<forall>i < length es.
        \<exists>b. accepts_row x seg i (folded_bytes (x_unicode x) (entry_name (e_path (es ! i)))) (pl_clauses plan) = Ret b
          \<and> (row_comparable x (es ! i) q \<longrightarrow> b = ref_matches x (es ! i) q)))"
proof -
  obtain seg where seg: "live_view lv = Inr seg" "searchable x es seg" using live_seg [OF assms(1)] by blast
  obtain r where r: "plan_compile x no_trigram q seg = Ret r" "case r of
      Inl e \<Rightarrow> refuses x q
    | Inr plan \<Rightarrow> \<not> refuses x q \<and> clauses_typed x (entry_dirs es) (pl_clauses plan)
        \<and> narrowed x es seg (pl_clauses plan) (pl_candidates plan) \<and> (\<exists>acc. plan_accepts x es seg q plan acc)"
    using plan_of [OF seg(2) assms(2), of no_trigram] by blast
  show ?thesis
    using seg(1) r by (intro exI [of _ seg] exI [of _ r]) (cases r; auto simp: plan_accepts_def)
qed

text \<open>
  C9: the walk visits the accepted rows and no others.  The blocks the trigram index, the zone
  maps and the live bits leave are walked in runs, by number or through the folded arena; the
  callback is given exactly the live rows the compiled query accepts, in row order, until it
  says stop, whether or not the trigram index is turned off.  Of every row that is comparable
  with the query (\<open>Answers.comparable\<close> lists the corners that are not), the query
  accepts it exactly when the reference does; so when all rows are, the walk visits exactly the
  live rows the reference accepts.
\<close>

theorem walk_matches_exact:
  assumes "live_searchable x es lv" "typed_query q" "\<not> refuses x q"
  shows "\<exists>seg plan acc. live_view lv = Inr seg \<and> plan_compile x no_trigram q seg = Ret (Inr plan)
    \<and> plan_accepts x es seg q plan acc
    \<and> walk_matches x seg plan f s = Ret (feed f (filter (\<lambda>i. live_is_alive lv i \<and> acc i) [0 ..< length es]) s)
    \<and> (all_comparable x es q \<longrightarrow> walk_matches x seg plan f s
        = Ret (feed f (filter (\<lambda>i. live_is_alive lv i \<and> ref_matches x (es ! i) q) [0 ..< length es]) s))"
proof -
  obtain seg plan acc where seg: "live_view lv = Inr seg" "searchable x es seg" "alive_fits es seg" "length es < 2 ^ 32"
    and alive: "\<And>i. i < length es \<Longrightarrow> is_alive seg i = live_is_alive lv i"
    and p: "plan_compile x no_trigram q seg = Ret (Inr plan)" "clauses_typed x (entry_dirs es) (pl_clauses plan)"
      "narrowed x es seg (pl_clauses plan) (pl_candidates plan)" "plan_accepts x es seg q plan acc"
      "\<And>i. i < length es \<Longrightarrow> accepts_row x seg i (row_fold x (es ! i)) (pl_clauses plan) = Ret (acc i)"
    using plan_accepted [OF assms, of no_trigram] by metis
  have "plan = \<lparr>pl_clauses = pl_clauses plan, pl_candidates = pl_candidates plan\<rparr>" by simp
  then have "walk_matches x seg plan f s = Ret (feed f (filter (\<lambda>i. is_alive seg i \<and> acc i) [0 ..< length es]) s)"
    using walk_matches_of [OF seg(2-4) p(2,3,5)] by metis
  also have "filter (\<lambda>i. is_alive seg i \<and> acc i) [0 ..< length es]
      = filter (\<lambda>i. live_is_alive lv i \<and> acc i) [0 ..< length es]"
    using alive by (intro filter_cong) auto
  finally have walk: "walk_matches x seg plan f s
    = Ret (feed f (filter (\<lambda>i. live_is_alive lv i \<and> acc i) [0 ..< length es]) s)" .
  have "filter (\<lambda>i. live_is_alive lv i \<and> acc i) [0 ..< length es]
      = filter (\<lambda>i. live_is_alive lv i \<and> ref_matches x (es ! i) q) [0 ..< length es]" if "all_comparable x es q"
    using that p(4) by (intro filter_cong) (auto simp: all_comparable_def plan_accepts_def)
  then show ?thesis using seg(1) p(1,4) walk by (intro exI [of _ seg] exI [of _ plan] exI [of _ acc]) simp
qed

text \<open>Code outside with the documented laws, over ASCII.\<close>

definition sample_outside :: outside where
  "sample_outside = \<lparr>x_memchr = first_index,
     x_memmem = (\<lambda>h n. find (\<lambda>i. starts_with n (drop i h)) [0 ..< Suc (length h)]),
     x_regex = (\<lambda>p. Inl []), x_unicode = ascii_unicode\<rparr>"

definition sample_query :: "bytes ast" where
  "sample_query = \<lparr>groups = [\<lparr>alts = [(False, NameContains (str ''ain''))]\<rparr>, \<lparr>alts = [(True, match.IsDir True)]\<rparr>]\<rparr>"

lemma ascii_keeps_marks: "keeps_marks ascii_unicode"
proof -
  have "c = ucast m" if "path_mark m" "ucast m \<in> set (to_lowercase ascii_unicode c)" for c :: uchar and m
  proof (cases "0x41 \<le> c \<and> c \<le> 0x5a")
    case True
    then have "c + 32 = 0x2f \<or> c + 32 = 0x2e" using that by (auto simp: ascii_unicode_def path_mark_def)
    then have "unat (c + 32) = 47 \<or> unat (c + 32) = 46" by auto
    moreover have "65 \<le> unat c" "unat c \<le> 90" using True by (simp_all add: word_le_nat_alt)
    ultimately show ?thesis by (simp add: unat_word_ariths)
  qed (use that in \<open>auto simp: ascii_unicode_def\<close>)
  then show ?thesis by (simp add: keeps_marks_def)
qed

lemma sample_parts:
  "entry_name (str ''/a/main.rs'') = str ''main.rs''" "entry_parent (str ''/a/main.rs'') = str ''/a''"
  "entry_name (str ''/a-b/x'') = str ''x''" "entry_parent (str ''/a-b/x'') = str ''/a-b''"
  by code_simp+

lemmas sample_part_simps = sample_parts [simplified]

lemma sample_fold:
  "default_fold ascii_unicode (str ''main.rs'') = str ''main.rs''" "default_fold ascii_unicode (str ''x'') = str ''x''"
  "default_fold ascii_unicode (str ''/a'') = str ''/a''" "default_fold ascii_unicode (str ''/a-b'') = str ''/a-b''"
  using default_fold_ascii [OF ascii_lowers] by (simp_all add: ascii_lower_def)

lemma sample_searchable:
  obtains sb lv where "build_sorted first_index (folded_bytes ascii_unicode) (default_fold ascii_unicode) sample_entries = Ret sb"
    "from_bytes 1 1 sb = Ret (Inr lv)" "live_searchable sample_outside sample_entries lv"
    "\<forall>i < 2. live_is_alive lv i"
proof -
  let ?f = "folded_bytes ascii_unicode"
  have whole: "?f bs = default_fold ascii_unicode bs" if "bs = str ''main.rs'' \<or> bs = str ''x''" for bs
    using that sample_fold by (intro folded_bytes_whole [OF ascii_lowers]) (auto simp: utf8_valid_ascii FOLD_CAP_def)
  have names: "entry_names sample_entries = [str ''main.rs'', str ''x'']"
    by (simp add: entry_names_def sample_entries_def sample_entry_def sample_part_simps)
  then have same: "map ?f (entry_names sample_entries) = map (map ascii_lower) (entry_names sample_entries)"
    using whole sample_fold by (simp add: ascii_lower_def)
  have fit: "entries_fit ?f sample_entries" using sample_fit(1) unfolding entries_fit_def same .
  obtain sb where sb: "build_sorted first_index ?f (default_fold ascii_unicode) sample_entries = Ret sb"
    using build_views [OF first_index_law fit] by blast
  obtain lv where lv: "from_bytes 1 1 sb = Ret (Inr lv)" "live_holds first_index ?f (default_fold ascii_unicode) sample_entries lv"
    "lv_alive lv = alive_bits (length sample_entries)"
    using from_bytes_built [OF first_index_law fit sb] by blast
  have alive: "live_is_alive lv i" if "i < length sample_entries" for i
    using that rows_in_bits [OF that] live_is_alive_bit [of i lv] alive_bits_bit [of i "length sample_entries"] lv(3) by simp
  have "folds_fit sample_outside sample_entries"
    by (simp add: folds_fit_def sample_entries_def sample_entry_def sample_part_simps sample_outside_def sample_fold [simplified] FOLD_CAP_def)
  then have "live_searchable sample_outside sample_entries lv"
    using fit sample_fit(2) lv(2) ascii_lowers ascii_keeps_marks first_index_law
    by (simp add: live_searchable_def outside_ok_def sample_outside_def memmem_law_def)
  then show thesis using that sb lv(1) alive by (simp add: sample_entries_def)
qed

lemma sample_query_ok:
  "typed_query sample_query" "all_comparable sample_outside sample_entries sample_query" "\<not> refuses sample_outside sample_query"
  by (simp_all add: typed_query_def all_comparable_def row_comparable_def refuses_def sample_query_def)

lemma sample_answer:
  "ref_matches sample_outside (sample_entry (str ''/a/main.rs'') 20) sample_query"
  "\<not> ref_matches sample_outside (sample_entry (str ''/a-b/x'') 10) sample_query"
  by (simp_all add: ref_matches_def sample_query_def sample_entry_def sample_part_simps sample_outside_def sample_fold [simplified] starts_with_def)

theorem compiled_is_reference_witness:
  "\<exists>lv seg plan. live_view lv = Inr seg \<and> plan_compile sample_outside False sample_query seg = Ret (Inr plan)
    \<and> accepts_row sample_outside seg 0 (str ''main.rs'') (pl_clauses plan) = Ret True"
proof -
  obtain lv where lv: "live_searchable sample_outside sample_entries lv" using sample_searchable by blast
  obtain seg r where r: "live_view lv = Inr seg" "plan_compile sample_outside False sample_query seg = Ret r" "case r of
      Inl e \<Rightarrow> refuses sample_outside sample_query
    | Inr plan \<Rightarrow> \<not> refuses sample_outside sample_query \<and> (\<forall>i < length sample_entries.
        \<exists>b. accepts_row sample_outside seg i (folded_bytes (x_unicode sample_outside) (entry_name (e_path (sample_entries ! i)))) (pl_clauses plan) = Ret b
          \<and> (row_comparable sample_outside (sample_entries ! i) sample_query \<longrightarrow> b = ref_matches sample_outside (sample_entries ! i) sample_query))"
    using compiled_is_reference [OF lv sample_query_ok(1), of False] by blast
  have c: "row_comparable sample_outside (sample_entry (str ''/a/main.rs'') 20) sample_query"
    using sample_query_ok(2) by (simp add: all_comparable_def sample_entries_def)
  obtain plan where plan: "r = Inr plan" using r(3) sample_query_ok(3) by (cases r) auto
  have "folded_bytes ascii_unicode (str ''main.rs'') = str ''main.rs''"
    using folded_bytes_whole [OF ascii_lowers utf8_valid_ascii, of "str ''main.rs''"] sample_fold by (simp add: FOLD_CAP_def)
  moreover have "sample_entries ! 0 = sample_entry (str ''/a/main.rs'') 20" "0 < length sample_entries"
    "x_unicode sample_outside = ascii_unicode" "entry_name (e_path (sample_entry (str ''/a/main.rs'') 20)) = str ''main.rs''"
    by (simp_all add: sample_entries_def sample_outside_def sample_entry_def sample_part_simps)
  ultimately have "accepts_row sample_outside seg 0 (str ''main.rs'') (pl_clauses plan) = Ret True"
    using r(3) plan sample_answer(1) c by force
  then show ?thesis using r(1,2) plan by blast
qed

theorem walk_matches_exact_witness:
  "\<exists>sb lv seg plan. build_sorted first_index (folded_bytes ascii_unicode) (default_fold ascii_unicode) sample_entries = Ret sb
    \<and> from_bytes 1 1 sb = Ret (Inr lv) \<and> live_view lv = Inr seg
    \<and> plan_compile sample_outside False sample_query seg = Ret (Inr plan)
    \<and> walk_matches sample_outside seg plan (\<lambda>s i. (s @ [i], True)) [] = Ret ([0], True)"
proof -
  obtain sb lv where s: "build_sorted first_index (folded_bytes ascii_unicode) (default_fold ascii_unicode) sample_entries = Ret sb"
    "from_bytes 1 1 sb = Ret (Inr lv)" "live_searchable sample_outside sample_entries lv" "\<forall>i < 2. live_is_alive lv i"
    using sample_searchable .
  have "filter (\<lambda>i. live_is_alive lv i \<and> ref_matches sample_outside (sample_entries ! i) sample_query) [0 ..< length sample_entries] = [0]"
    using s(4) sample_answer by (simp add: sample_entries_def upt_rec)
  then show ?thesis
    using walk_matches_exact [OF s(3) sample_query_ok(1,3), of False "\<lambda>s i. (s @ [i], True)" "[]"] s(1,2) sample_query_ok(2) by auto
qed

text \<open>
  An absent bitmap means that no row was deleted, and every row is live; yet the first block of
  such a segment counts as dead.
\<close>

lemma block_alive_absent:
  "sg_alive seg = [] \<Longrightarrow> is_alive seg row \<and> \<not> block_alive seg 0 \<and> (0 < b \<longrightarrow> block_alive seg b)"
  by (simp add: is_alive_def block_alive_def nth_opt_def get_range_def Let_def)

text \<open>A pattern of a star and an extension finds no name whose extension the index does not see.\<close>

lemma glob_extension_misses:
  assumes "arena_get (x_memchr x) (sg_names seg) i = Some (str ''.gitignore'')"
  shows "evaluate x seg i (str ''.gitignore'') (glob_test (str ''*.gitignore'')) = Ret False"
    "glob_matches (decode_text (str ''*.gitignore'')) (decode_text (str ''.gitignore'')) = Some True"
proof -
  have "glob_test (str ''*.gitignore'') = TExt [str ''gitignore''] True" by (simp add: glob_test_def)
  moreover have "folded_extension (str ''.gitignore'') (str ''.gitignore'') = []" by code_simp
  ultimately show "evaluate x seg i (str ''.gitignore'') (glob_test (str ''*.gitignore'')) = Ret False"
    using assms by (simp add: Let_def)
  show "glob_matches (decode_text (str ''*.gitignore'')) (decode_text (str ''.gitignore'')) = Some True"
    by (simp add: decode_ascii glob_matches_total) (rule exI [of _ 0], simp)
qed

text \<open>A file in the root is at depth 2 for the index and at depth 1 for the reference.\<close>

lemma depth_of_root_files:
  "evaluate x seg i n (TDepth [depth_of [SLASH]] cmp_op.Eq 2) = Ret True \<or> seg_num seg DirId i \<noteq> Ret 0"
  "matches_one x (sample_entry (str ''/x'') 0) (match.Depth cmp_op.Eq 1)"
  by (auto simp: depth_of_def nth_opt_def sample_entry_def)

end
