(* ===== verification/Sorting.thy ===== *)
theory Sorting
  imports Narrow
begin

text \<open>
  What a page is ordered by, before a row of it is built: \<open>SortKey\<close> of
  \<open>crates/scour-core/src/types/search.rs\<close>, and \<open>SortValue\<close>, \<open>relevance\<close>, \<open>narrow\<close>,
  \<open>out_of_page\<close>, \<open>zone_order\<close> and their like of \<open>crates/scour-index-native/src/search.rs\<close>.

  A name is ordered by its first sixteen bytes, so its key may tie where the names differ;
  \<open>narrow\<close> and \<open>out_of_page\<close> must not lose a row of the page to that.  The lemmas say what each
  of them may drop.
\<close>

section \<open>Sort keys and values\<close>

datatype sortkey =
    SRelevance | SName | SPath | SSize | SModified | SCreated | SAccessed | SExt | SKind | SMode | SUid | SGid | SDisk

text \<open>The derived order: by constructor, then by what it holds; an \<open>i64\<close> is the number it reads as.\<close>

datatype sort_value = SNum int | SHead u128 | SText bytes

fun sort_value_less :: "sort_value \<Rightarrow> sort_value \<Rightarrow> bool" where
  "sort_value_less (SNum a) (SNum b) = (a < b)"
| "sort_value_less (SNum a) _ = True"
| "sort_value_less (SHead a) (SHead b) = (a < b)"
| "sort_value_less (SHead a) (SText b) = True"
| "sort_value_less (SText a) (SText b) = (a < b)"
| "sort_value_less _ _ = False"

instantiation sort_value :: linorder
begin

definition less_sort_value :: "sort_value \<Rightarrow> sort_value \<Rightarrow> bool" where
  "less_sort_value = sort_value_less"

definition less_eq_sort_value :: "sort_value \<Rightarrow> sort_value \<Rightarrow> bool" where
  "less_eq_sort_value a b \<longleftrightarrow> a = b \<or> sort_value_less a b"

instance
proof
  fix a b c :: sort_value
  show "a < b \<longleftrightarrow> a \<le> b \<and> \<not> b \<le> a"
    by (cases a; cases b) (auto simp: less_sort_value_def less_eq_sort_value_def)
  show "a \<le> c" if "a \<le> b" "b \<le> c"
    using that by (cases a; cases b; cases c) (auto simp: less_eq_sort_value_def)
  show "a = b" if "a \<le> b" "b \<le> a"
    using that by (cases a; cases b) (auto simp: less_eq_sort_value_def)
  show "a \<le> b \<or> b \<le> a"
    by (cases a; cases b) (auto simp: less_eq_sort_value_def)
qed (simp add: less_eq_sort_value_def)

end

lemma sort_value_order [simp]:
  "SNum a < SNum b \<longleftrightarrow> a < b" "SHead x < SHead y \<longleftrightarrow> x < y" "SText p < SText q \<longleftrightarrow> p < q"
  by (simp_all add: less_sort_value_def)

text \<open>The first sixteen bytes, big-endian, padded with zeroes.\<close>

definition head :: "bytes \<Rightarrow> u128" where
  "head bs = foldl (\<lambda>v b. v * 256 + ucast b) 0 (take 16 bs @ replicate (16 - min (length bs) 16) 0)"

definition key_is_exact :: "sortkey \<Rightarrow> bool" where
  "key_is_exact key \<longleftrightarrow> \<not> (key = SName \<or> key = SExt)"

section \<open>Scoring a name\<close>

abbreviation STEP :: int where "STEP \<equiv> 8"

definition ascii_alphanumeric :: "u8 \<Rightarrow> bool" where
  "ascii_alphanumeric b \<longleftrightarrow> 0x30 \<le> b \<and> b \<le> 0x39 \<or> 0x41 \<le> b \<and> b \<le> 0x5a \<or> 0x61 \<le> b \<and> b \<le> 0x7a"

definition term_score :: "bytes \<Rightarrow> nat \<Rightarrow> bytes \<Rightarrow> nat \<Rightarrow> int" where
  "term_score name stem_end t at =
     (if stem_end < length name \<and> take stem_end name = t then 4000
      else if name = t then 3000
      else if at = 0 then 2000
      else if \<not> ascii_alphanumeric (name ! (at - 1)) then 1000
      else 100)"

definition relevance :: "outside \<Rightarrow> bytes \<Rightarrow> bytes list \<Rightarrow> u8 \<Rightarrow> int" where
  "relevance x name terms steps =
     (if terms = [] then 0
      else
        let stem_end = (case rposition_dot name of Some i \<Rightarrow> if i > 0 then i else length name | None \<Rightarrow> length name);
            best = foldl (\<lambda>best t.
              if t = [] then best
              else case x_memmem x name t of
                     None \<Rightarrow> best
                   | Some at \<Rightarrow> max best (term_score name stem_end t at)) 0 terms
        in best - int (min (length name) 255) - uint steps * STEP)"

section \<open>The key of a row\<close>

record dir_paths =
  dp_dirs :: "bytes option list"
  dp_names :: reader

definition dir_paths_default :: dir_paths where
  "dir_paths_default = \<lparr>dp_dirs = [], dp_names = reader_default\<rparr>"

definition dir_paths_of :: "segment \<Rightarrow> u32 \<Rightarrow> dir_paths \<Rightarrow> (bytes \<times> dir_paths) run" where
  "dir_paths_of seg d dp =
     (let dp = (if dp_dirs dp = [] then dp\<lparr>dp_dirs := replicate (dir_len (sg_dirs seg)) None\<rparr> else dp);
          at = unat d
      in if length (dp_dirs dp) \<le> at then Ret ([], dp)
         else case dp_dirs dp ! at of
                Some p \<Rightarrow> Ret (p, dp)
              | None \<Rightarrow> bind_run (dir_or_empty seg d) (\<lambda>p. Ret (p, dp\<lparr>dp_dirs := (dp_dirs dp)[at := Some p]\<rparr>)))"

definition dir_paths_spelled :: "outside \<Rightarrow> segment \<Rightarrow> nat \<Rightarrow> dir_paths \<Rightarrow> bytes \<times> dir_paths" where
  "dir_paths_spelled x seg row dp =
     (let (name, r) = reader_at (x_memchr x) (sg_names seg) row (dp_names dp) in (name, dp\<lparr>dp_names := r\<rparr>))"

text \<open>The match on \<open>""\<close>, \<open>"/"\<close> and the rest.\<close>

definition joined_path :: "bytes \<Rightarrow> bytes \<Rightarrow> bytes" where
  "joined_path dir raw =
     (if dir = [] then raw else if dir = [SLASH] then SLASH # raw else dir @ SLASH # raw)"

text \<open>\<open>binary_search_by_key\<close> over rows in order, each once: the row is there or it is not.\<close>

definition rollup_of :: "(u32 \<times> i64) list \<Rightarrow> u32 \<Rightarrow> i64 option" where
  "rollup_of folders row = map_option snd (find (\<lambda>(r, _). r = row) folders)"

definition size_value :: "segment \<Rightarrow> nat \<Rightarrow> (u32 \<times> i64) list \<Rightarrow> i64 run" where
  "size_value seg row folders =
     bind_run (seg_num seg field.Size row) (\<lambda>own. bind_run (seg_num seg field.IsDir row) (\<lambda>is_dir.
       Ret (if is_dir = 0 \<or> folders = [] then own
            else case rollup_of folders (as_u32 row) of Some v \<Rightarrow> v | None \<Rightarrow> own)))"

definition row_ext :: "outside \<Rightarrow> segment \<Rightarrow> nat \<Rightarrow> bytes \<Rightarrow> bytes" where
  "row_ext x seg row folded =
     folded_extension (case arena_get (x_memchr x) (sg_names seg) row of Some n \<Rightarrow> n | None \<Rightarrow> []) folded"

fun sort_field :: "sortkey \<Rightarrow> field option" where
  "sort_field SSize = Some field.Size"
| "sort_field SModified = Some Mtime"
| "sort_field SCreated = Some Ctime"
| "sort_field SAccessed = Some Atime"
| "sort_field SDisk = Some field.Disk"
| "sort_field SMode = Some field.Mode"
| "sort_field SUid = Some field.Uid"
| "sort_field SGid = Some field.Gid"
| "sort_field SKind = Some field.Kind"
| "sort_field _ = None"

definition num_value :: "i64 run \<Rightarrow> dir_paths \<Rightarrow> (sort_value \<times> dir_paths) run" where
  "num_value r dp = bind_run r (\<lambda>v. Ret (SNum (sint v), dp))"

definition sort_value_of ::
  "outside \<Rightarrow> segment \<Rightarrow> nat \<Rightarrow> bytes \<Rightarrow> sortkey \<Rightarrow> bytes list \<Rightarrow> (u32 \<times> i64) list \<Rightarrow> dir_paths
    \<Rightarrow> (sort_value \<times> dir_paths) run" where
  "sort_value_of x seg row name key terms folders dp =
     (case key of
        SPath \<Rightarrow>
          (let (raw, dp) = dir_paths_spelled x seg row dp
           in bind_run (seg_dir_id seg row) (\<lambda>d. bind_run (dir_paths_of seg d dp) (\<lambda>(dir, dp).
                Ret (SText (joined_path dir raw), dp))))
      | SRelevance \<Rightarrow>
          bind_run (seg_dir_id seg row) (\<lambda>d. Ret (SNum (relevance x name terms (dir_steps (sg_dirs seg) d)), dp))
      | SName \<Rightarrow> Ret (SHead (head name), dp)
      | SExt \<Rightarrow> Ret (SHead (head (row_ext x seg row name)), dp)
      | SSize \<Rightarrow> num_value (size_value seg row folders) dp
      | SModified \<Rightarrow> num_value (seg_num seg Mtime row) dp
      | SCreated \<Rightarrow> num_value (seg_num seg Ctime row) dp
      | SAccessed \<Rightarrow> num_value (seg_num seg Atime row) dp
      | SKind \<Rightarrow> num_value (seg_num seg field.Kind row) dp
      | SMode \<Rightarrow> num_value (seg_num seg field.Mode row) dp
      | SUid \<Rightarrow> num_value (seg_num seg field.Uid row) dp
      | SGid \<Rightarrow> num_value (seg_num seg field.Gid row) dp
      | SDisk \<Rightarrow> num_value (seg_num seg field.Disk row) dp)"

section \<open>The order of a page, and what cannot reach it\<close>

type_synonym keyed = "sort_value \<times> u32"

definition page_order :: "bool \<Rightarrow> keyed \<Rightarrow> keyed \<Rightarrow> ordering" where
  "page_order desc a b = then_cmp (if desc then cmp (fst b) (fst a) else cmp (fst a) (fst b)) (cmp (snd a) (snd b))"

text \<open>
  \<open>select_nth_unstable_by\<close>: the element at \<open>k\<close> is where a sort would put it, none before it
  is greater and none after it is less; nothing else is promised.
\<close>

type_synonym selector = "(keyed \<Rightarrow> keyed \<Rightarrow> ordering) \<Rightarrow> nat \<Rightarrow> keyed list \<Rightarrow> keyed list"

definition swap :: "'a list \<Rightarrow> nat \<Rightarrow> nat \<Rightarrow> 'a list" where
  "swap xs i j = xs[i := xs ! j, j := xs ! i]"

fun gather_ties :: "sort_value \<Rightarrow> nat list \<Rightarrow> keyed list \<times> nat \<Rightarrow> keyed list \<times> nat" where
  "gather_ties boundary [] (keyed, past) = (keyed, past)"
| "gather_ties boundary (i # is) (keyed, past) =
     gather_ties boundary is
       (if fst (keyed ! i) = boundary then (swap keyed past i, past + 1) else (keyed, past))"

definition narrow_keyed :: "selector \<Rightarrow> keyed list \<Rightarrow> nat \<Rightarrow> bool \<Rightarrow> bool \<Rightarrow> keyed list" where
  "narrow_keyed sel keyed need desc precise =
     (if need = 0 then []
      else if length keyed < need then keyed
      else
        let k = need - 1; keyed = sel (page_order desc) k keyed
        in if precise then take need keyed
           else (let boundary = fst (keyed ! k);
                     (keyed, past) = gather_ties boundary [need ..< length keyed] (keyed, need)
                 in take past keyed))"

definition out_of_page :: "keyed option \<Rightarrow> sort_value \<Rightarrow> u32 \<Rightarrow> bool \<Rightarrow> bool \<Rightarrow> bool" where
  "out_of_page bar key row desc precise =
     (case bar of
        None \<Rightarrow> False
      | Some (held, at) \<Rightarrow>
          (case (if desc then cmp held key else cmp key held) of
             Less \<Rightarrow> False
           | Greater \<Rightarrow> True
           | Equal \<Rightarrow> precise \<and> at < row))"

text \<open>The complement of an \<open>i64\<close>.\<close>

definition zone_key :: "int \<Rightarrow> bool \<Rightarrow> int" where
  "zone_key v desc = (if desc then - v - 1 else v)"

definition out_of_reach :: "(int \<times> u32) option \<Rightarrow> int \<Rightarrow> u32 \<Rightarrow> bool" where
  "out_of_reach worst reach block =
     (case worst of
        None \<Rightarrow> False
      | Some (held, row) \<Rightarrow> held < reach \<or> held = reach \<and> unat row < unat block * BLOCK)"

text \<open>
  The rollups of a block.  The cursor only skips rollups of rows before the block, which no
  later block of the list has; a block's rollups are those from the cursor on below its end.
\<close>

definition block_reach :: "bool \<Rightarrow> i64 \<Rightarrow> (u32 \<times> i64) list \<Rightarrow> nat \<Rightarrow> int" where
  "block_reach desc start folders to =
     foldl (\<lambda>reach (_, v). if desc then max reach (sint v) else min reach (sint v)) (sint start)
       (takeWhile (\<lambda>(r, _). unat r < to) folders)"

fun zone_loop ::
  "segment \<Rightarrow> field \<Rightarrow> bool \<Rightarrow> bool \<Rightarrow> (u32 \<times> i64) list \<Rightarrow> u32 list \<Rightarrow> (int \<times> u32) list" where
  "zone_loop seg f desc rollups folders [] = []"
| "zone_loop seg f desc rollups folders (block # blocks) =
     (let (lo, hi) = (case block_range (sg_cols seg) f (unat block) of
                        Some r \<Rightarrow> r | None \<Rightarrow> (word_of_int (- (2 ^ 63)), word_of_int (2 ^ 63 - 1)));
          start = (if desc then hi else lo);
          from = unat block * BLOCK;
          folders = (if rollups then dropWhile (\<lambda>(r, _). unat r < from) folders else folders);
          reach = (if rollups then block_reach desc start folders (from + BLOCK) else sint start)
      in (zone_key reach desc, block) # zone_loop seg f desc rollups folders blocks)"

definition zone_order :: "segment \<Rightarrow> field \<Rightarrow> bool \<Rightarrow> u32 list \<Rightarrow> (u32 \<times> i64) list \<Rightarrow> (int \<times> u32) list" where
  "zone_order seg f desc blocks folders =
     sort (zone_loop seg f desc (f = field.Size \<and> folders \<noteq> []) folders blocks)"

section \<open>Heads in order\<close>

fun head_number :: "nat \<Rightarrow> bytes \<Rightarrow> nat" where
  "head_number 0 bs = 0"
| "head_number (Suc n) [] = 0"
| "head_number (Suc n) (b # bs) = unat b * 256 ^ n + head_number n bs"

lemma head_number_less: "head_number n bs < 256 ^ n"
proof (induction n bs rule: head_number.induct)
  case (3 n b bs)
  have "unat b * 256 ^ n + head_number n bs < (unat b + 1) * 256 ^ n" using 3 by simp
  also have "\<dots> \<le> 256 * 256 ^ n" using byte_less [of b] by (intro mult_right_mono) auto
  finally show ?case by simp
qed simp_all

lemma head_number_mono: "a \<le> b \<Longrightarrow> head_number n a \<le> head_number n b"
proof (induction n a arbitrary: b rule: head_number.induct)
  case (3 n x xs)
  then obtain y ys where b: "b = y # ys" by (cases b) auto
  show ?case
  proof (cases "x = y")
    case True
    then show ?thesis using 3 b by simp
  next
    case False
    then have "unat x < unat y" using 3(2) b by (auto simp: word_less_nat_alt)
    then have "unat x * 256 ^ n + 256 ^ n \<le> unat y * 256 ^ n" by (metis Suc_leI add.commute mult_Suc mult_le_mono1)
    then show ?thesis using head_number_less [of n xs] b by simp
  qed
qed simp_all

lemma head_number_pad: "head_number n (take n bs @ replicate (n - length bs) 0) = head_number n bs"
proof (induction n bs rule: head_number.induct)
  case (2 n)
  have "head_number m (replicate m 0) = 0" for m by (induction m) simp_all
  then show ?case by (simp del: replicate_Suc)
qed simp_all

lemma head_fold:
  "foldl (\<lambda>v b. v * 256 + ucast b) (word_of_nat v :: u128) bs = word_of_nat (v * 256 ^ length bs + head_number (length bs) bs)"
proof (induction bs arbitrary: v)
  case (Cons b bs)
  have "(ucast b :: u128) = word_of_nat (unat b)" by simp
  then have "(word_of_nat v * 256 + ucast b :: u128) = word_of_nat (v * 256 + unat b)" by simp
  then show ?case using Cons [of "v * 256 + unat b"] by (simp only: foldl.simps) (simp add: algebra_simps)
qed simp

lemma unat_head: "unat (head bs) = head_number 16 bs"
proof -
  let ?p = "take 16 bs @ replicate (16 - min (length bs) 16) 0"
  have p: "?p = take 16 bs @ replicate (16 - length bs) 0" by (simp add: min_def)
  have "head bs = word_of_nat (head_number 16 ?p)"
    using head_fold [of 0 ?p] by (simp add: head_def min_def)
  also have "head_number 16 ?p = head_number 16 bs" unfolding p by (rule head_number_pad)
  finally show ?thesis using head_number_less [of 16 bs] by (simp add: unat_of_nat)
qed

lemma head_less: "head a < head b \<Longrightarrow> a < b"
  using head_number_mono [of b a 16] by (auto simp: word_less_nat_alt unat_head not_le [symmetric])

section \<open>Rankings\<close>

text \<open>Being better by a key, possibly abbreviated: keys may tie.\<close>

locale ranking =
  fixes better :: "'a \<Rightarrow> 'a \<Rightarrow> bool"
  assumes better_asym: "better a b \<Longrightarrow> \<not> better b a"
    and better_between: "better a c \<Longrightarrow> better a b \<or> better b c"
begin

lemma better_trans: "better a b \<Longrightarrow> better b c \<Longrightarrow> better a c"
  using better_asym better_between by blast

lemma better_than_beaten: "better b i \<Longrightarrow> \<not> better b j \<Longrightarrow> better j i"
  using better_between by blast

end

text \<open>
  A set that holds the page whatever is dropped from \<open>all\<close>: what it leaves out is behind
  \<open>need\<close> of what it holds.
\<close>

definition holds_page :: "('a \<Rightarrow> 'a \<Rightarrow> bool) \<Rightarrow> nat \<Rightarrow> 'a set \<Rightarrow> 'a set \<Rightarrow> bool" where
  "holds_page better need all held \<longleftrightarrow> finite held \<and> held \<subseteq> all
     \<and> (\<forall>i \<in> all - held. need \<le> card {j \<in> held. better j i})"

text \<open>The last of a page: \<open>need\<close> rows held are no worse.\<close>

definition page_bar :: "('a \<Rightarrow> 'a \<Rightarrow> bool) \<Rightarrow> nat \<Rightarrow> 'a set \<Rightarrow> 'a \<Rightarrow> bool" where
  "page_bar better need held b \<longleftrightarrow> need \<le> card {j \<in> held. \<not> better b j}"

lemma covers_empty [simp]: "holds_page better need {} {}"
  by (simp add: holds_page_def)

lemma covers_none: "holds_page better 0 all {}"
  by (simp add: holds_page_def)

lemma card_more: "need \<le> card {j \<in> A. P j} \<Longrightarrow> finite B \<Longrightarrow> (\<And>j. j \<in> A \<Longrightarrow> P j \<Longrightarrow> j \<in> B \<and> Q j) \<Longrightarrow> need \<le> card {j \<in> B. Q j}"
  by (erule order_trans, rule card_mono) auto

lemma covers_behind: "holds_page better need all held \<Longrightarrow> i \<in> all \<Longrightarrow> i \<notin> held \<Longrightarrow> need \<le> card {j \<in> held. better j i}"
  by (simp add: holds_page_def)

lemma covers_insert:
  assumes "holds_page better need all held"
  shows "holds_page better need (insert i all) (insert i held)"
proof -
  have "need \<le> card {j \<in> insert i held. better j k}" if "k \<in> insert i all - insert i held" for k
    by (rule card_more [OF covers_behind [OF assms, of k]]) (use assms that in \<open>auto simp: holds_page_def\<close>)
  then show ?thesis using assms by (auto simp: holds_page_def)
qed

lemma covers_weaken:
  assumes "holds_page better need all held" "\<And>a b. a \<in> all \<Longrightarrow> b \<in> all \<Longrightarrow> better a b \<Longrightarrow> better' a b"
  shows "holds_page better' need all held"
proof -
  have "need \<le> card {j \<in> held. better' j k}" if "k \<in> all - held" for k
    by (rule card_more [OF covers_behind [OF assms(1), of k]]) (use assms that in \<open>auto simp: holds_page_def\<close>)
  then show ?thesis using assms(1) by (auto simp: holds_page_def)
qed

lemma page_bar_more: "page_bar better need held b \<Longrightarrow> held \<subseteq> held' \<Longrightarrow> finite held' \<Longrightarrow> page_bar better need held' b"
  unfolding page_bar_def by (auto elim!: card_more)

context ranking
begin

lemma covers_beaten:
  assumes "holds_page better need all held" "page_bar better need held b" "\<And>i. i \<in> new \<Longrightarrow> better b i"
  shows "holds_page better need (all \<union> new) held"
proof -
  have "need \<le> card {j \<in> held. better j i}" if "i \<in> new" for i
    using assms(1,2) better_than_beaten [OF assms(3) [OF that]]
    unfolding holds_page_def page_bar_def by (auto elim!: card_more)
  then show ?thesis using assms(1) by (auto simp: holds_page_def)
qed

lemma covers_fewer:
  assumes "holds_page better need all held" "held' \<subseteq> held" "\<And>i. i \<in> held - held' \<Longrightarrow> need \<le> card {j \<in> held'. better j i}"
  shows "holds_page better need all held'"
proof -
  have fin: "finite held'" using assms(1,2) by (auto simp: holds_page_def intro: finite_subset)
  have "need \<le> card {j \<in> held'. better j i}" if i: "i \<in> all - held'" for i
  proof (cases "i \<in> held \<or> (\<exists>j \<in> held - held'. better j i)")
    case True
    then show ?thesis
    proof
      assume "\<exists>j \<in> held - held'. better j i"
      then obtain j where j: "j \<in> held - held'" "better j i" by blast
      show ?thesis by (rule card_more [OF assms(3) [OF j(1)] fin]) (use j(2) better_trans in blast)
    qed (use i assms(3) in blast)
  next
    case False
    then have "need \<le> card {j \<in> held. better j i}" using i assms(1) by (auto simp: holds_page_def)
    then show ?thesis by (rule card_more) (use False fin in auto)
  qed
  then show ?thesis using fin assms(1,2) by (auto simp: holds_page_def)
qed

end

text \<open>The page is the same, cut from the whole or from what holds the page.\<close>

lemma sorted_wrt_same:
  "sorted_wrt better xs \<Longrightarrow> sorted_wrt better ys \<Longrightarrow> set xs = set ys \<Longrightarrow>
    (\<And>a b. better a b \<Longrightarrow> \<not> better b a) \<Longrightarrow> xs = ys"
proof (induction xs arbitrary: ys)
  case (Cons x xs)
  obtain y zs where ys: "ys = y # zs" using Cons.prems(3) by (cases ys) auto
  have eq: "x = y"
  proof (rule ccontr)
    assume ne: "x \<noteq> y"
    then have "x \<in> set zs" "y \<in> set xs" using Cons.prems(3) ys by auto
    then show False using Cons.prems ys by auto
  qed
  have "x \<notin> set xs" "y \<notin> set zs" using Cons.prems(1,2,4) ys by auto
  then have "set xs = set zs" using Cons.prems(3) ys eq by auto
  then show ?case using Cons ys eq by simp
qed simp

lemma take_filter_all: "\<forall>x \<in> set (take n xs). P x \<Longrightarrow> take n (filter P xs) = take n xs"
  by (induction xs arbitrary: n) (auto simp: take_Cons split: nat.splits)

lemma page_of_covers:
  assumes "sorted_wrt better xs" "sorted_wrt better ys" "holds_page better need (set xs) (set ys)"
    and asym: "\<And>a b. better a b \<Longrightarrow> \<not> better b a"
  shows "take need xs = take need ys"
proof -
  have held: "i \<in> set ys" if mem: "i \<in> set (take need xs)" for i
  proof (rule ccontr)
    assume out: "i \<notin> set ys"
    obtain k where "k < length (take need xs)" "take need xs ! k = i" using mem unfolding in_set_conv_nth by blast
    then have k: "k < need" "k < length xs" "xs ! k = i" by simp_all
    have "{j \<in> set ys. better j i} \<subseteq> set (take k xs)"
    proof
      fix j assume "j \<in> {j \<in> set ys. better j i}"
      then have j: "j \<in> set xs" "better j i" using assms(3) by (auto simp: holds_page_def)
      then obtain l where l: "l < length xs" "xs ! l = j" by (auto simp: in_set_conv_nth)
      have "\<not> k \<le> l" using sorted_wrt_nth_less [OF assms(1), of k l] asym j(2) k l by (cases "k = l") auto
      then show "j \<in> set (take k xs)" using l by (auto simp: in_set_conv_nth intro!: exI [of _ l])
    qed
    then have "card {j \<in> set ys. better j i} \<le> length (take k xs)"
      by (meson List.finite_set card_length card_mono order_trans)
    moreover have "need \<le> card {j \<in> set ys. better j i}" using assms(3) out k by (auto simp: holds_page_def)
    ultimately show False using k(1) by simp
  qed
  have "filter (\<lambda>i. i \<in> set ys) xs = ys"
    by (rule sorted_wrt_same [OF sorted_wrt_filter [OF assms(1)] assms(2) _ asym])
      (use assms(3) in \<open>auto simp: holds_page_def\<close>)
  then show ?thesis using take_filter_all [of need xs "\<lambda>i. i \<in> set ys"] held by auto
qed

section \<open>Narrowing\<close>

definition beats :: "bool \<Rightarrow> bool \<Rightarrow> keyed \<Rightarrow> keyed \<Rightarrow> bool" where
  "beats desc precise a b \<longleftrightarrow> (if desc then fst b < fst a else fst a < fst b) \<or> precise \<and> fst a = fst b \<and> snd a < snd b"

interpretation pages: ranking "beats desc precise"
  by unfold_locales (auto simp: beats_def split: if_splits)

lemma page_order_beats:
  "page_order desc a b = Less \<longleftrightarrow> beats desc True a b" "page_order desc a b = Greater \<longleftrightarrow> beats desc True b a"
  by (auto simp: page_order_def beats_def cmp_def)

lemma out_of_page_beats: "out_of_page (Some b) key row desc precise \<longleftrightarrow> beats desc precise b (key, row)"
  by (cases b) (auto simp: out_of_page_def beats_def cmp_def)

definition select_law :: "selector \<Rightarrow> bool" where
  "select_law sel \<longleftrightarrow> (\<forall>desc k xs. k < length xs \<longrightarrow>
     (let ys = sel (page_order desc) k xs in mset ys = mset xs
        \<and> (\<forall>i < k. page_order desc (ys ! i) (ys ! k) \<noteq> Greater)
        \<and> (\<forall>i. k < i \<and> i < length ys \<longrightarrow> page_order desc (ys ! k) (ys ! i) \<noteq> Greater)))"

lemma select_facts:
  fixes desc :: bool
  assumes "select_law sel" "k < length xs"
  defines "ys \<equiv> sel (page_order desc) k xs"
  shows "mset ys = mset xs" "length ys = length xs"
    "\<And>i. i < k \<Longrightarrow> \<not> beats desc True (ys ! k) (ys ! i)"
    "\<And>i. k < i \<Longrightarrow> i < length xs \<Longrightarrow> \<not> beats desc True (ys ! i) (ys ! k)"
proof -
  have *: "mset ys = mset xs \<and> (\<forall>i < k. page_order desc (ys ! i) (ys ! k) \<noteq> Greater)
      \<and> (\<forall>i. k < i \<and> i < length ys \<longrightarrow> page_order desc (ys ! k) (ys ! i) \<noteq> Greater)"
    using assms by (auto simp: select_law_def Let_def)
  then show "mset ys = mset xs" by blast
  then show l: "length ys = length xs" by (rule mset_eq_length)
  show "\<And>i. i < k \<Longrightarrow> \<not> beats desc True (ys ! k) (ys ! i)"
    "\<And>i. k < i \<Longrightarrow> i < length xs \<Longrightarrow> \<not> beats desc True (ys ! i) (ys ! k)"
    using * l page_order_beats by auto
qed

lemma swap_facts:
  assumes "i < length xs" "j < length xs"
  shows "mset (swap xs i j) = mset xs" "length (swap xs i j) = length xs"
    "\<And>k. k < length xs \<Longrightarrow> swap xs i j ! k = (if k = j then xs ! i else if k = i then xs ! j else xs ! k)"
  using assms by (auto simp: swap_def mset_swap nth_list_update)

text \<open>The loop gathers what ties with the boundary behind the page, and leaves the page alone.\<close>

lemma gather_ties_spec:
  assumes "need \<le> past" "past \<le> i" "i \<le> length xs"
    "\<forall>k. need \<le> k \<and> k < past \<longrightarrow> fst (xs ! k) = b" "\<forall>k. past \<le> k \<and> k < i \<longrightarrow> fst (xs ! k) \<noteq> b"
    "gather_ties b [i ..< length xs] (xs, past) = (ys, n)"
  shows "mset ys = mset xs \<and> take need ys = take need xs \<and> past \<le> n \<and> n \<le> length ys
    \<and> (\<forall>k. need \<le> k \<and> k < n \<longrightarrow> fst (ys ! k) = b) \<and> (\<forall>k. n \<le> k \<and> k < length ys \<longrightarrow> fst (ys ! k) \<noteq> b)"
  using assms
proof (induction "length xs - i" arbitrary: i past xs)
  case (Suc d)
  then have i: "i < length xs" "[i ..< length xs] = i # [Suc i ..< length xs]" by (simp_all add: upt_rec)
  show ?case
  proof (cases "fst (xs ! i) = b")
    case True
    let ?xs = "swap xs past i"
    have u: "past < length xs" using Suc.prems(2) i(1) by simp
    note sw = swap_facts [OF u i(1)]
    have same: "take need ?xs = take need xs" using Suc.prems(1,2) by (simp add: swap_def)
    have tied: "\<forall>k. need \<le> k \<and> k < past + 1 \<longrightarrow> fst (?xs ! k) = b"
    proof (intro allI impI)
      fix k assume "need \<le> k \<and> k < past + 1"
      then show "fst (?xs ! k) = b" using sw(3) [of k] u True Suc.prems(2,4) by (cases "k = past") auto
    qed
    have apart: "\<forall>k. past + 1 \<le> k \<and> k < Suc i \<longrightarrow> fst (?xs ! k) \<noteq> b"
    proof (intro allI impI)
      fix k assume "past + 1 \<le> k \<and> k < Suc i"
      then show "fst (?xs ! k) \<noteq> b" using sw(3) [of k] i(1) Suc.prems(5) by (cases "k = i") auto
    qed
    have on: "gather_ties b [Suc i ..< length ?xs] (?xs, past + 1) = (ys, n)"
      using Suc.prems(6) i True sw(2) by simp
    have "d = length ?xs - Suc i" "need \<le> past + 1" "past + 1 \<le> Suc i" "Suc i \<le> length ?xs"
      using Suc.hyps(2) Suc.prems(1,2) i(1) sw(2) by simp_all
    from Suc.hyps(1) [OF this tied apart on]
    have "mset ys = mset ?xs \<and> take need ys = take need ?xs \<and> past + 1 \<le> n \<and> n \<le> length ys
        \<and> (\<forall>k. need \<le> k \<and> k < n \<longrightarrow> fst (ys ! k) = b) \<and> (\<forall>k. n \<le> k \<and> k < length ys \<longrightarrow> fst (ys ! k) \<noteq> b)" .
    then show ?thesis using sw(1) same by simp
  next
    case False
    then have "\<forall>k. past \<le> k \<and> k < Suc i \<longrightarrow> fst (xs ! k) \<noteq> b" using Suc.prems(5) by (auto simp: less_Suc_eq)
    moreover have "gather_ties b [Suc i ..< length xs] (xs, past) = (ys, n)" using Suc.prems(6) i(2) False by simp
    moreover have "d = length xs - Suc i" "past \<le> Suc i" "Suc i \<le> length xs" using Suc.hyps(2) Suc.prems(2) i(1) by simp_all
    ultimately show ?thesis using Suc.hyps(1) Suc.prems(1,4) by blast
  qed
qed auto

lemma beats_total: "snd a \<noteq> snd b \<Longrightarrow> \<not> beats desc True b a \<Longrightarrow> beats desc True a b"
  by (auto simp: beats_def split: if_splits)

lemma beats_key: "beats desc True a b \<Longrightarrow> fst a \<noteq> fst b \<Longrightarrow> beats desc precise a b"
  "\<not> beats desc True a b \<Longrightarrow> \<not> beats desc precise a b"
  by (auto simp: beats_def split: if_splits)

text \<open>The rows kept start with the page, and what is dropped is behind its last.\<close>

lemma selected_page:
  fixes desc :: bool
  assumes sel: "select_law sel" and d: "distinct (map snd xs)" and need: "0 < need" "need \<le> length xs"
  defines "zs \<equiv> sel (page_order desc) (need - 1) xs"
  shows "mset zs = mset xs" "length zs = length xs" "distinct (map snd zs)"
    "\<And>j. j \<in> set (take need zs) \<Longrightarrow> \<not> beats desc True (zs ! (need - 1)) j"
    "\<And>i. i \<in> set (drop need zs) \<Longrightarrow> beats desc True (zs ! (need - 1)) i"
proof -
  have k: "need - 1 < length xs" using need by simp
  note z = select_facts [OF sel k, where desc = desc, folded zs_def]
  show "mset zs = mset xs" "length zs = length xs" by (fact z(1,2))+
  show dz: "distinct (map snd zs)" using d mset_eq_imp_distinct_iff [of "map snd zs" "map snd xs"] z(1) by simp
  show "\<not> beats desc True (zs ! (need - 1)) j" if j: "j \<in> set (take need zs)" for j
  proof -
    obtain i where "i < length (take need zs)" "take need zs ! i = j" using j unfolding in_set_conv_nth by blast
    then have "i < need" "j = zs ! i" by simp_all
    then show ?thesis using z(3) [of i] by (cases "i = need - 1") (auto simp: beats_def)
  qed
  show "beats desc True (zs ! (need - 1)) i" if i: "i \<in> set (drop need zs)" for i
  proof (rule beats_total)
    obtain m where "m < length (drop need zs)" "drop need zs ! m = i" using i unfolding in_set_conv_nth by blast
    then have m: "need + m < length zs" "i = zs ! (need + m)" by simp_all
    then show "snd (zs ! (need - 1)) \<noteq> snd i"
      using need z(2) nth_eq_iff_index_eq [OF dz, of "need - 1" "need + m"] by simp
    show "\<not> beats desc True i (zs ! (need - 1))" using z(4) [of "need + m"] m z(2) need by simp
  qed
qed

lemma narrow_page:
  fixes desc precise :: bool
  assumes sel: "select_law sel" and d: "distinct (map snd xs)" and need: "0 < need" "need \<le> length xs"
  defines "zs \<equiv> sel (page_order desc) (need - 1) xs"
  shows "take need (narrow_keyed sel xs need desc precise) = take need zs \<and> set (narrow_keyed sel xs need desc precise) \<subseteq> set xs
    \<and> distinct (map snd (narrow_keyed sel xs need desc precise))
    \<and> (\<forall>i \<in> set xs - set (narrow_keyed sel xs need desc precise). beats desc precise (zs ! (need - 1)) i)"
proof -
  let ?ys = "narrow_keyed sel xs need desc precise" and ?b = "zs ! (need - 1)"
  note z = selected_page [OF sel d need, where desc = desc, folded zs_def]
  have all: "set xs = set zs" using z(1) by (metis mset_eq_setD)
  show ?thesis
  proof (cases precise)
    case True
    then have ys: "?ys = take need zs" using need by (simp add: narrow_keyed_def Let_def zs_def)
    have "set zs = set (take need zs) \<union> set (drop need zs)" by (metis append_take_drop_id set_append)
    then show ?thesis
      unfolding ys using z(3,5) True all by (auto simp: take_map [symmetric] dest: in_set_takeD)
  next
    case False
    obtain gs n where g: "gather_ties (fst ?b) [need ..< length zs] (zs, need) = (gs, n)" by fastforce
    then have ys: "?ys = take n gs" using need False by (simp add: narrow_keyed_def Let_def zs_def)
    have n: "need \<le> length zs" using need z(2) by simp
    have "\<forall>k. need \<le> k \<and> k < need \<longrightarrow> fst (zs ! k) = fst ?b" "\<forall>k. need \<le> k \<and> k < need \<longrightarrow> fst (zs ! k) \<noteq> fst ?b" by auto
    note gathered = gather_ties_spec [OF order_refl order_refl n this g]
    have gs: "mset gs = mset zs" "take need gs = take need zs" "need \<le> n"
      "\<forall>k. n \<le> k \<and> k < length gs \<longrightarrow> fst (gs ! k) \<noteq> fst ?b"
      using gathered by blast+
    have dg: "distinct (map snd gs)" using z(3) mset_eq_imp_distinct_iff [of "map snd gs" "map snd zs"] gs(1) by simp
    have "mset (drop need gs) = mset (drop need zs)"
      using gs(1,2) by (metis add_left_cancel append_take_drop_id mset_append)
    then have tail: "set (drop need gs) = set (drop need zs)" by (rule mset_eq_setD)
    have "beats desc precise ?b i" if i: "i \<in> set (drop n gs)" for i
    proof -
      obtain m where "m < length (drop n gs)" "drop n gs ! m = i" using i unfolding in_set_conv_nth by blast
      then have "n + m < length gs" "i = gs ! (n + m)" by simp_all
      then have "fst i \<noteq> fst ?b" using gs(4) by simp
      moreover have "i \<in> set (drop need zs)" using i tail set_drop_subset_set_drop [OF gs(3), of gs] by auto
      then have "beats desc True ?b i" by (rule z(5))
      ultimately show ?thesis using beats_key(1) by metis
    qed
    moreover have "set gs = set (take n gs) \<union> set (drop n gs)" by (metis append_take_drop_id set_append)
    moreover have "set gs = set xs" using mset_eq_setD [OF gs(1)] all by simp
    ultimately have "\<forall>i \<in> set xs - set ?ys. beats desc precise ?b i" "set ?ys \<subseteq> set xs" unfolding ys by blast+
    moreover have "take need ?ys = take need zs" unfolding ys using gs(2,3) by (simp add: min_absorb1)
    moreover have "distinct (map snd ?ys)" unfolding ys take_map [symmetric] using dg by (rule distinct_take)
    ultimately show ?thesis by blast
  qed
qed

lemma narrow_spec:
  fixes desc precise :: bool and need :: nat
  assumes sel: "select_law sel" and d: "distinct (map snd xs)"
  defines "ys \<equiv> narrow_keyed sel xs need desc precise"
  shows "distinct (map snd ys)" "set ys \<subseteq> set xs"
    "\<And>i. i \<in> set xs - set ys \<Longrightarrow> need \<le> card {j \<in> set ys. beats desc precise j i}"
    "0 < need \<Longrightarrow> need \<le> length xs \<Longrightarrow> need \<le> length ys \<and> page_bar (beats desc precise) need (set ys) (ys ! (need - 1))"
proof -
  have *: "distinct (map snd ys) \<and> set ys \<subseteq> set xs
    \<and> (\<forall>i \<in> set xs - set ys. need \<le> card {j \<in> set ys. beats desc precise j i})
    \<and> (0 < need \<longrightarrow> need \<le> length xs \<longrightarrow> need \<le> length ys \<and> page_bar (beats desc precise) need (set ys) (ys ! (need - 1)))"
  proof (cases "0 < need \<and> need \<le> length xs")
    case True
    define zs where "zs = sel (page_order desc) (need - 1) xs"
    note p = narrow_page [OF sel d, where desc = desc, folded zs_def]
    have z: "mset zs = mset xs" "take need ys = take need zs" "set ys \<subseteq> set xs" "distinct (map snd ys)"
      "\<forall>j \<in> set (take need zs). \<not> beats desc precise (zs ! (need - 1)) j"
      "\<forall>i \<in> set xs - set ys. beats desc precise (zs ! (need - 1)) i"
      using True p [of need] beats_key(2) selected_page(1,4) [OF sel d, where need = need and desc = desc]
      unfolding ys_def zs_def by blast+
    have len: "need \<le> length zs" using True mset_eq_length [OF z(1)] by simp
    have n: "need \<le> length ys" using arg_cong [OF z(2), of length] len by simp
    have last: "ys ! (need - 1) = zs ! (need - 1)"
      using z(2) True n len by (metis One_nat_def diff_less nth_take zero_less_Suc)
    have dy: "distinct ys" using z(4) by (simp add: distinct_map)
    have "card (set (take need ys)) = need" using dy n by (simp add: distinct_card)
    moreover have "set (take need ys) \<subseteq> {j \<in> set ys. \<not> beats desc precise (zs ! (need - 1)) j}"
      using z(2,5) set_take_subset [of need ys] by auto
    then have "card (set (take need ys)) \<le> card {j \<in> set ys. \<not> beats desc precise (zs ! (need - 1)) j}"
      by (rule card_mono [rotated]) simp
    ultimately have bar: "page_bar (beats desc precise) need (set ys) (zs ! (need - 1))" by (simp add: page_bar_def)
    moreover have "need \<le> card {j \<in> set ys. beats desc precise j i}" if "i \<in> set xs - set ys" for i
      by (rule card_more [OF bar [unfolded page_bar_def]]) (use pages.better_than_beaten [OF bspec [OF z(6) that]] in auto)
    ultimately show ?thesis using z(3,4) n last by simp
  qed (use d in \<open>auto simp: ys_def narrow_keyed_def\<close>)
  then show "distinct (map snd ys)" "set ys \<subseteq> set xs"
    "\<And>i. i \<in> set xs - set ys \<Longrightarrow> need \<le> card {j \<in> set ys. beats desc precise j i}"
    "0 < need \<Longrightarrow> need \<le> length xs \<Longrightarrow> need \<le> length ys \<and> page_bar (beats desc precise) need (set ys) (ys ! (need - 1))"
    by blast+
qed

end
