(* ===== verification/Search.thy ===== *)
theory Search
  imports Sorting
begin

text \<open>
  One segment's answer to a search: \<open>run_with\<close>, \<open>walk_segment\<close> and \<open>sort_hits\<close> of
  \<open>crates/scour-index-native/src/search.rs\<close>.

  \<open>visit\<close> is the closure every row goes through, over the state the walk keeps; a row is
  visited in the order of the rows, backwards, along a stored order, or best block first.
  \<open>select_nth_unstable_by\<close> is a parameter with its documented law, and the veto, a callback,
  is a predicate.
\<close>

section \<open>What is asked and what is found\<close>

record search_wanted =
  wn_sort :: sortkey
  wn_descending :: bool
  wn_offset :: nat
  wn_limit :: nat
  wn_count_cap :: nat
  wn_rank_only :: bool

record ranked =
  rk_key :: sort_value
  rk_mtime :: i64
  rk_row :: u32

record found =
  fd_hits :: "hit list"
  fd_ranked :: "ranked list"
  fd_total :: nat
  fd_capped :: bool
  fd_early_exit :: bool
  fd_rows_visited :: nat
  fd_rows_built :: nat

type_synonym veto = "segment \<Rightarrow> nat \<Rightarrow> bytes \<Rightarrow> bool"

definition needed :: "search_wanted \<Rightarrow> nat" where
  "needed want = wn_offset want + wn_limit want"

text \<open>The terms relevance scores against: the plain name terms of the query.\<close>

definition score_term :: "clause \<Rightarrow> bytes option" where
  "score_term c =
     (case plain_test c of Some (TNameHas n) \<Rightarrow> if n \<noteq> [] then Some n else None | _ \<Rightarrow> None)"

definition score_terms :: "search_wanted \<Rightarrow> clause list \<Rightarrow> bytes list" where
  "score_terms want cs = (if wn_sort want = SRelevance then List.map_filter score_term cs else [])"

section \<open>How the walk goes\<close>

record course =
  co_names_read :: bool
  co_terms :: "bytes list"
  co_blocks :: "u32 list"
  co_path_stream :: bool
  co_name_stream :: bool
  co_extension_stream :: bool
  co_by_row :: bool
  co_backwards :: bool
  co_stored :: bool
  co_bounded :: bool

definition whole_order :: "segment \<Rightarrow> nat option \<Rightarrow> bool" where
  "whole_order seg rows \<longleftrightarrow> rows = Some (seg_rows seg)"

definition course_of :: "segment \<Rightarrow> plan \<Rightarrow> search_wanted \<Rightarrow> bool \<Rightarrow> nat option \<Rightarrow> course" where
  "course_of seg plan want has_veto named =
     (let cs = pl_clauses plan; terms = score_terms want cs; key = wn_sort want; desc = wn_descending want;
          need = needed want;
          stored_forward = (key = SModified \<and> desc \<or> key = SRelevance \<and> terms = []);
          blocks = blocks_worth_opening seg plan;
          streams = (need > 0 \<and> (\<not> needs_name cs \<or> named \<noteq> None) \<and> n_blocks (seg_rows seg) \<le> length blocks * 2);
          path_stream = (key = SPath \<and> streams \<and> whole_order seg (map_option po_rows (sg_porder seg)));
          name_stream = (key = SName \<and> streams \<and> whole_order seg (map_option no_rows (sg_norder seg)));
          extension_stream = (key = SExt \<and> streams \<and> whole_order seg (map_option no_rows (sg_eorder seg)));
          position_stream = (path_stream \<or> name_stream \<or> extension_stream);
          sort_reads_name = (\<not> stored_forward \<and> \<not> position_stream \<and> (key = SName \<or> key = SExt \<or> key = SPath));
          by_row = (\<not> needs_name cs \<and> \<not> has_veto \<and> \<not> sort_reads_name);
          backwards = (key = SModified \<and> \<not> desc \<and> by_row);
          stored_order = (stored_forward \<or> backwards \<or> position_stream)
      in \<lparr>co_names_read = (has_veto \<or> needs_name cs), co_terms = terms, co_blocks = blocks,
          co_path_stream = path_stream, co_name_stream = name_stream, co_extension_stream = extension_stream,
          co_by_row = by_row, co_backwards = backwards, co_stored = stored_order,
          co_bounded = (\<not> stored_order \<and> need > 0 \<and> sort_field key \<noteq> None)\<rparr>)"

section \<open>Visiting a row\<close>

text \<open>Everything the closure reads and does not change.\<close>

record setting =
  st_outside :: outside
  st_segment :: segment
  st_clauses :: "clause list"
  st_wanted :: search_wanted
  st_veto :: "veto option"
  st_folders :: "(u32 \<times> i64) list"
  st_select :: selector
  st_course :: course

text \<open>Everything it changes.\<close>

record walk_state =
  wk_visited :: nat
  wk_counted :: nat
  wk_kept :: "u32 list"
  wk_keyed :: "keyed list"
  wk_bar :: "keyed option"
  wk_dirs :: dir_paths
  wk_trim_at :: nat
  wk_done :: bool
  wk_worst :: "(int \<times> u32) option"
  wk_closed :: bool
  wk_edge :: "i64 option"

definition walk_start :: "search_wanted \<Rightarrow> walk_state" where
  "walk_start want =
     \<lparr>wk_visited = 0, wk_counted = 0, wk_kept = [], wk_keyed = [], wk_bar = None, wk_dirs = dir_paths_default,
      wk_trim_at = needed want, wk_done = False, wk_worst = None, wk_closed = False, wk_edge = None\<rparr>"

text \<open>\<open>usize::saturating_mul(2)\<close>.\<close>

definition twice :: "nat \<Rightarrow> nat" where
  "twice n = min (n * 2) (2 ^ 64 - 1)"

definition accepted :: "setting \<Rightarrow> nat \<Rightarrow> bytes \<Rightarrow> bool run" where
  "accepted t row name =
     (if \<not> is_alive (st_segment t) row then Ret False
      else bind_run (accepts_row (st_outside t) (st_segment t) row name (st_clauses t)) (\<lambda>yes.
        Ret (yes \<and> (case st_veto t of Some veto \<Rightarrow> \<not> veto (st_segment t) row name | None \<Rightarrow> True))))"

text \<open>The stored order read backwards keeps the page and the rest of the date it ends on.\<close>

definition visit_backwards :: "setting \<Rightarrow> nat \<Rightarrow> walk_state \<Rightarrow> (walk_state \<times> bool) run" where
  "visit_backwards t row w =
     bind_run (seg_num (st_segment t) Mtime row) (\<lambda>when.
       if length (wk_kept w) < needed (st_wanted t) then
         (let w = w\<lparr>wk_kept := wk_kept w @ [as_u32 row]\<rparr>
          in Ret (if length (wk_kept w) = needed (st_wanted t) then w\<lparr>wk_edge := Some when\<rparr> else w, True))
       else if wk_edge w = Some when then Ret (w\<lparr>wk_kept := wk_kept w @ [as_u32 row]\<rparr>, True)
       else if wn_count_cap (st_wanted t) \<le> wk_counted w then Ret (w\<lparr>wk_done := True\<rparr>, False)
       else Ret (w, True))"

definition visit_stored :: "setting \<Rightarrow> nat \<Rightarrow> walk_state \<Rightarrow> walk_state \<times> bool" where
  "visit_stored t row w =
     (let w = (if length (wk_kept w) < needed (st_wanted t) then w\<lparr>wk_kept := wk_kept w @ [as_u32 row]\<rparr> else w)
      in if needed (st_wanted t) \<le> length (wk_kept w) \<and> wn_count_cap (st_wanted t) \<le> wk_counted w
         then (w\<lparr>wk_done := True\<rparr>, False) else (w, True))"

text \<open>After a trim the boundary is the last row of the page.\<close>

definition trim :: "setting \<Rightarrow> walk_state \<Rightarrow> walk_state" where
  "trim t w =
     (let want = st_wanted t; need = needed want; desc = wn_descending want;
          keyed = narrow_keyed (st_select t) (wk_keyed w) need desc (key_is_exact (wn_sort want));
          w = w\<lparr>wk_keyed := keyed, wk_trim_at := twice (length keyed)\<rparr>
      in if co_bounded (st_course t) then
           (case keyed ! (need - 1) of
              (SNum v, at) \<Rightarrow> w\<lparr>wk_worst := Some (zone_key v desc, at)\<rparr>
            | _ \<Rightarrow> w)
         else w\<lparr>wk_bar := Some (keyed ! (need - 1))\<rparr>)"

definition visit_keyed :: "setting \<Rightarrow> nat \<Rightarrow> bytes \<Rightarrow> walk_state \<Rightarrow> walk_state run" where
  "visit_keyed t row name w =
     (let want = st_wanted t
      in if needed want = 0 then Ret w
         else
           bind_run (sort_value_of (st_outside t) (st_segment t) row name (wn_sort want) (co_terms (st_course t))
             (st_folders t) (wk_dirs w)) (\<lambda>(key, dp).
             let w = w\<lparr>wk_dirs := dp\<rparr>
             in if out_of_page (wk_bar w) key (as_u32 row) (wn_descending want) (key_is_exact (wn_sort want)) then Ret w
                else
                  let w = w\<lparr>wk_keyed := wk_keyed w @ [(key, as_u32 row)]\<rparr>
                  in Ret (if wk_trim_at w \<le> length (wk_keyed w) then trim t w else w)))"

definition visit :: "setting \<Rightarrow> walk_state \<Rightarrow> nat \<Rightarrow> bytes \<Rightarrow> (walk_state \<times> bool) run" where
  "visit t w row name =
     (let w = w\<lparr>wk_visited := wk_visited w + 1\<rparr>
      in bind_run (accepted t row name) (\<lambda>yes.
           if \<not> yes then Ret (w, True)
           else
             let w = w\<lparr>wk_counted := wk_counted w + 1\<rparr>
             in if co_backwards (st_course t) then visit_backwards t row w
                else if co_stored (st_course t) then Ret (visit_stored t row w)
                else if \<not> wk_closed w then bind_run (visit_keyed t row name w) (\<lambda>w. Ret (w, True))
                else if wn_count_cap (st_wanted t) \<le> wk_counted w then Ret (w\<lparr>wk_done := True\<rparr>, False)
                else Ret (w, True)))"

section \<open>Walking\<close>

text \<open>Rows by number, and rows whose names the folded arena calls back.\<close>

fun visit_all :: "('s \<Rightarrow> nat \<Rightarrow> bytes \<Rightarrow> ('s \<times> bool) run) \<Rightarrow> (nat \<times> bytes) list \<Rightarrow> 's \<Rightarrow> ('s \<times> bool) run" where
  "visit_all f [] s = Ret (s, True)"
| "visit_all f ((row, name) # rest) s =
     bind_run (f s row name) (\<lambda>(s, go). if go then visit_all f rest s else Ret (s, False))"

definition visit_named ::
  "('s \<Rightarrow> nat \<Rightarrow> bytes \<Rightarrow> ('s \<times> bool) run) \<Rightarrow> ('s \<times> bool) run \<Rightarrow> nat \<Rightarrow> bytes \<Rightarrow> ('s \<times> bool) run \<times> bool" where
  "visit_named f st row name =
     (case st of
        Panic \<Rightarrow> (Panic, False)
      | Ret (s, _) \<Rightarrow> (let r = f s row name in (r, case r of Ret (_, go) \<Rightarrow> go | Panic \<Rightarrow> False)))"

definition walk_rows :: "setting \<Rightarrow> nat \<Rightarrow> nat \<Rightarrow> bool \<Rightarrow> walk_state \<Rightarrow> (walk_state \<times> bool) run" where
  "walk_rows t from to rv w =
     (if co_by_row (st_course t) then
        visit_all (visit t) (map (\<lambda>row. (row, [])) (if rv then rev [from ..< to] else [from ..< to])) w
      else walk_range (x_memchr (st_outside t)) (sg_folded (st_segment t)) from to (visit_named (visit t)) (Ret (w, True)))"

definition walk_runs :: "setting \<Rightarrow> (nat \<times> nat) list \<Rightarrow> bool \<Rightarrow> walk_state \<Rightarrow> (walk_state \<times> bool) run" where
  "walk_runs t runs rv = over_runs (\<lambda>from to. walk_rows t from to rv) runs"

text \<open>The rows at a list of positions, for as long as there are tries; \<open>None\<close> when they run out.\<close>

definition stream_name :: "setting \<Rightarrow> u32 \<Rightarrow> bytes" where
  "stream_name t row =
     (if co_names_read (st_course t)
      then case arena_get (x_memchr (st_outside t)) (sg_folded (st_segment t)) (unat row) of Some n \<Rightarrow> n | None \<Rightarrow> []
      else [])"

fun stream_rows ::
  "setting \<Rightarrow> (nat \<Rightarrow> u32 option) \<Rightarrow> nat list \<Rightarrow> walk_state \<Rightarrow> nat \<Rightarrow> (walk_state \<times> nat \<times> bool) option run" where
  "stream_rows t at [] w tries = Ret (Some (w, tries, True))"
| "stream_rows t at (i # is) w tries =
     (if tries = 0 then Ret None
      else case at i of
             None \<Rightarrow> stream_rows t at is w (tries - 1)
           | Some row \<Rightarrow>
               bind_run (visit t w (unat row) (stream_name t row)) (\<lambda>(w, go).
                 if go then stream_rows t at is w (tries - 1) else Ret (Some (w, tries - 1, False))))"

lemma leading_zeros8_bit:
  assumes "w \<noteq> 0"
  shows "bit w (7 - leading_zeros8 w)"
proof -
  obtain n where n: "bit w n" "n < 8" using assms bit_eqI [of w 0] bit_imp_le_length [of w] by auto
  define m where "m = (GREATEST m. m < 8 \<and> bit w m)"
  have m: "m < 8 \<and> bit w m" unfolding m_def by (rule GreatestI_nat [where b = 8]) (use n in auto)
  have "k \<le> m" if "k < 8" "bit w k" for k
    unfolding m_def by (rule Greatest_le_nat [where b = 8]) (use that in auto)
  then have "7 - leading_zeros8 w = m" using m by (intro highest_bit) (auto dest: leD)
  then show ?thesis using m by simp
qed

lemma rposition_set_less: "rposition_set gs n = Some at \<Longrightarrow> at < n"
  by (induction n) (auto split: if_splits simp: less_Suc_eq)

lemma group_at_or_before_le: "group_at_or_before t i = Some j \<Longrightarrow> j \<le> i"
proof -
  assume g: "group_at_or_before t i = Some j"
  let ?m = "if i mod 8 = 7 then - 1 else push_bit (i mod 8 + 1) (1 :: u8) - 1"
  define here where "here = (case nth_opt (no_groups t) (i div 8) of Some w \<Rightarrow> w | None \<Rightarrow> 0) AND ?m"
  show "j \<le> i"
  proof (cases "here = 0")
    case True
    then obtain at where "rposition_set (no_groups t) (i div 8) = Some at" "j \<le> at * 8 + 7"
      using g by (auto simp: group_at_or_before_def Let_def here_def split: if_splits option.splits)
    then show ?thesis using rposition_set_less [of "no_groups t" "i div 8" at] by linarith
  next
    case False
    then have j: "j = i div 8 * 8 + (7 - leading_zeros8 here)"
      using g by (simp add: group_at_or_before_def Let_def here_def split: if_splits)
    have "bit ?m (7 - leading_zeros8 here)"
      using leading_zeros8_bit [OF False] unfolding here_def by (simp only: bit_and_iff)
    then have "7 - leading_zeros8 here \<le> i mod 8" using Orders.low_mask by simp
    then show ?thesis unfolding j by (metis add_le_cancel_left div_mult_mod_eq)
  qed
qed

text \<open>Groups of equal values from the end, each group forwards.\<close>

function stream_groups :: "setting \<Rightarrow> name_order \<Rightarrow> nat \<Rightarrow> walk_state \<Rightarrow> nat \<Rightarrow> (walk_state \<times> nat \<times> bool) option run" where
  "stream_groups t positions past w tries =
     (if past = 0 then Ret (Some (w, tries, True))
      else case group_at_or_before positions (past - 1) of
             None \<Rightarrow> Ret (Some (w, tries, True))
           | Some start \<Rightarrow>
               bind_run (stream_rows t (name_order_at positions) [start ..< past] w tries) (\<lambda>r. case r of
                   None \<Rightarrow> Ret None
                 | Some (w, tries, go) \<Rightarrow>
                     if go then stream_groups t positions start w tries else Ret (Some (w, tries, False))))"
  by pat_completeness auto
termination
  by (relation "measure (\<lambda>(t, positions, past, w, tries). past)") (auto dest: group_at_or_before_le)

declare stream_groups.simps [simp del]

definition stream_positions :: "setting \<Rightarrow> walk_state \<Rightarrow> nat \<Rightarrow> (walk_state \<times> nat \<times> bool) option run" where
  "stream_positions t w tries =
     (let seg = st_segment t; co = st_course t; desc = wn_descending (st_wanted t);
          grouped = (\<lambda>order. case order of
             None \<Rightarrow> Ret (Some (w, tries, True))
           | Some p \<Rightarrow> if desc then stream_groups t p (no_rows p) w tries
                       else stream_rows t (name_order_at p) [0 ..< no_rows p] w tries)
      in if co_name_stream co then grouped (sg_norder seg)
         else if co_extension_stream co then grouped (sg_eorder seg)
         else case sg_porder seg of
                None \<Rightarrow> Ret (Some (w, tries, True))
              | Some p \<Rightarrow> stream_rows t (path_order_at p) (if desc then rev [0 ..< po_rows p] else [0 ..< po_rows p]) w tries)"

section \<open>Best block first\<close>

definition walk_block :: "setting \<Rightarrow> u32 \<Rightarrow> walk_state \<Rightarrow> (walk_state \<times> bool) run" where
  "walk_block t block w =
     walk_rows t (unat block * BLOCK) (min ((unat block + 1) * BLOCK) (seg_rows (st_segment t))) False w"

text \<open>The answer says whether the walk was stopped, and which blocks are left.\<close>

fun open_ordered :: "setting \<Rightarrow> (int \<times> u32) list \<Rightarrow> walk_state \<Rightarrow> (walk_state \<times> bool \<times> u32 list) run" where
  "open_ordered t [] w = Ret (w, False, [])"
| "open_ordered t ((reach, block) # rest) w =
     (if out_of_reach (wk_worst w) reach block then Ret (w, False, block # map snd rest)
      else bind_run (walk_block t block w) (\<lambda>(w, go).
        if go then open_ordered t rest w else Ret (w, True, map snd rest)))"

fun open_blocks :: "setting \<Rightarrow> field \<Rightarrow> u32 list \<Rightarrow> walk_state \<Rightarrow> (walk_state \<times> bool \<times> u32 list) run" where
  "open_blocks t f [] w = Ret (w, False, [])"
| "open_blocks t f (block # blocks) w =
     (if wk_worst w \<noteq> None
      then open_ordered t (zone_order (st_segment t) f (wn_descending (st_wanted t)) (block # blocks) (st_folders t)) w
      else bind_run (walk_block t block w) (\<lambda>(w, go).
        if go then open_blocks t f blocks w else Ret (w, True, blocks)))"

text \<open>The page, then the rest of the count; the flag says that blocks were left unopened.\<close>

definition walk_bounded :: "setting \<Rightarrow> field \<Rightarrow> walk_state \<Rightarrow> (walk_state \<times> bool) run" where
  "walk_bounded t f w =
     bind_run (open_blocks t f (co_blocks (st_course t)) w) (\<lambda>(w, stopped, left).
       if \<not> stopped \<and> wk_counted w < wn_count_cap (st_wanted t) then
         bind_run (walk_runs t (runs_of (sort left) (seg_rows (st_segment t))) False (w\<lparr>wk_closed := True\<rparr>))
           (\<lambda>(w, _). Ret (w, False))
       else Ret (w, left \<noteq> []))"

text \<open>The three ways through a segment; the flag says whether blocks were skipped.\<close>

definition walk_through :: "setting \<Rightarrow> walk_state \<Rightarrow> nat \<Rightarrow> (walk_state \<times> bool) option run" where
  "walk_through t w tries =
     (let co = st_course t; key = wn_sort (st_wanted t); runs = runs_of (co_blocks co) (seg_rows (st_segment t))
      in if co_name_stream co \<or> co_extension_stream co \<or> co_path_stream co then
           bind_run (stream_positions t w tries) (\<lambda>r. Ret (map_option (\<lambda>(w, _). (w, False)) r))
         else case (if co_bounded co then sort_field key else None) of
                Some f \<Rightarrow> bind_run (walk_bounded t f w) (\<lambda>r. Ret (Some r))
              | None \<Rightarrow>
                  bind_run (walk_runs t (if co_backwards co then rev runs else runs) (co_backwards co) w)
                    (\<lambda>(w, _). Ret (Some (w, False))))"

section \<open>The answer\<close>

text \<open>\<open>sort_hits\<close>.\<close>

definition hit_name :: "hit \<Rightarrow> bytes" where
  "hit_name h = entry_name (hit_path h)"

definition hit_cmp :: "outside \<Rightarrow> sortkey \<Rightarrow> bool \<Rightarrow> bytes list \<Rightarrow> hit \<Rightarrow> hit \<Rightarrow> ordering" where
  "hit_cmp x key desc terms a b =
     (let score = (\<lambda>h. relevance x (fold_str x (hit_name h)) (map (fold_str x) terms) (steps_of (dir_part (hit_path h))));
          num = (\<lambda>f. cmp (sint (f (hit_meta a) :: i64)) (sint (f (hit_meta b))));
          o' = (case key of
             SRelevance \<Rightarrow> cmp (score a) (score b)
           | SName \<Rightarrow> cmp (fold_str x (hit_name a)) (fold_str x (hit_name b))
           | SExt \<Rightarrow> cmp (ext_of x (hit_name a)) (ext_of x (hit_name b))
           | SPath \<Rightarrow> cmp (hit_path a) (hit_path b)
           | SSize \<Rightarrow> num m_size
           | SModified \<Rightarrow> num m_mtime
           | SCreated \<Rightarrow> num m_ctime
           | SAccessed \<Rightarrow> num m_atime
           | SKind \<Rightarrow> cmp (kind_as_u8 (hit_kind a)) (kind_as_u8 (hit_kind b))
           | SMode \<Rightarrow> num m_mode
           | SUid \<Rightarrow> num m_uid
           | SGid \<Rightarrow> num m_gid
           | SDisk \<Rightarrow> num m_disk);
          o' = (if desc then (case o' of Less \<Rightarrow> Greater | Equal \<Rightarrow> Equal | Greater \<Rightarrow> Less) else o')
      in then_cmp (then_cmp o' (cmp (sint (m_mtime (hit_meta b))) (sint (m_mtime (hit_meta a)))))
           (cmp (hit_path a) (hit_path b)))"

definition sort_hits :: "outside \<Rightarrow> hit list \<Rightarrow> sortkey \<Rightarrow> bool \<Rightarrow> bytes list \<Rightarrow> hit list" where
  "sort_hits x hits key desc terms = sort_by (hit_cmp x key desc terms) hits"

text \<open>What the kept rows sort by, and the dates of the candidates.\<close>

fun key_rows_of :: "setting \<Rightarrow> u32 list \<Rightarrow> dir_paths \<Rightarrow> keyed list run" where
  "key_rows_of t [] dp = Ret []"
| "key_rows_of t (row # rows) dp =
     (let co = st_course t;
          name = (if co_name_stream co \<or> co_extension_stream co
                  then (case arena_get (x_memchr (st_outside t)) (sg_folded (st_segment t)) (unat row) of Some n \<Rightarrow> n | None \<Rightarrow> [])
                  else [])
      in bind_run (sort_value_of (st_outside t) (st_segment t) (unat row) name (wn_sort (st_wanted t)) (co_terms co)
           (st_folders t) dp) (\<lambda>(key, dp). bind_run (key_rows_of t rows dp) (\<lambda>rest. Ret ((key, row) # rest))))"

definition ranked_row :: "segment \<Rightarrow> keyed \<Rightarrow> ranked option run" where
  "ranked_row seg item =
     bind_run (seg_num seg Mtime (unat (snd item))) (\<lambda>when.
       Ret (Some \<lparr>rk_key = fst item, rk_mtime = when, rk_row = snd item\<rparr>))"

definition row_hit :: "outside \<Rightarrow> segment \<Rightarrow> u32 \<Rightarrow> hit option run" where
  "row_hit x seg row =
     try_run (arena_get (x_memchr x) (sg_names seg) (unat row)) (\<lambda>n. bind_run (seg_hit seg (unat row) n) (\<lambda>h. Ret (Some h)))"

definition answer :: "setting \<Rightarrow> walk_state \<Rightarrow> bool \<Rightarrow> found run" where
  "answer t w skipped =
     (let want = st_wanted t; co = st_course t; seg = st_segment t; x = st_outside t; cap = wn_count_cap want;
          base = \<lparr>fd_hits = [], fd_ranked = [], fd_total = min (wk_counted w) cap, fd_capped = (cap \<le> wk_counted w),
            fd_early_exit = (wk_done w \<or> skipped), fd_rows_visited = wk_visited w, fd_rows_built = 0\<rparr>
      in bind_run
           (if co_stored co then key_rows_of t (wk_kept w) (wk_dirs w)
            else Ret (narrow_keyed (st_select t) (wk_keyed w) (needed want) (wn_descending want) (key_is_exact (wn_sort want))))
           (\<lambda>ranked.
         if wn_rank_only want then
           bind_run (run_filter_map (ranked_row seg) ranked) (\<lambda>rs. Ret (base\<lparr>fd_ranked := rs\<rparr>))
         else
           bind_run (run_filter_map (\<lambda>item. row_hit x seg (snd item)) ranked) (\<lambda>hits.
             let hits = (if \<not> co_stored co \<or> co_backwards co \<or> co_path_stream co \<or> co_name_stream co \<or> co_extension_stream co
                         then sort_hits x hits (wn_sort want) (wn_descending want)
                                (co_terms co)
                         else hits)
             in Ret (base\<lparr>fd_hits := take (wn_limit want) (drop (wn_offset want) hits),
                          fd_rows_built := length ranked\<rparr>))))"

definition walk_segment ::
  "outside \<Rightarrow> selector \<Rightarrow> segment \<Rightarrow> plan \<Rightarrow> search_wanted \<Rightarrow> veto option \<Rightarrow> (u32 \<times> i64) list \<Rightarrow> nat option \<Rightarrow> found option run" where
  "walk_segment x sel seg plan want conceals folders named =
     (let t = \<lparr>st_outside = x, st_segment = seg, st_clauses = pl_clauses plan, st_wanted = want, st_veto = conceals,
            st_folders = folders, st_select = sel,
            st_course = course_of seg plan want (conceals \<noteq> None) named\<rparr>;
          tries = (case named of Some n \<Rightarrow> n | None \<Rightarrow> 2 ^ 64 - 1)
      in bind_run (walk_through t (walk_start want) tries) (\<lambda>r. case r of
           None \<Rightarrow> Ret None
         | Some (w, skipped) \<Rightarrow> bind_run (answer t w skipped) (\<lambda>f. Ret (Some f))))"

text \<open>\<open>run_with\<close>: the stream along a stored order first, where it can pay.\<close>

abbreviation NAMED_STREAM_TRIES :: nat where "NAMED_STREAM_TRIES \<equiv> 16"

abbreviation NAMED_STREAM_SHARE :: nat where "NAMED_STREAM_SHARE \<equiv> 32"

definition stream_budget :: "search_wanted \<Rightarrow> nat" where
  "stream_budget want = min (max (needed want) (wn_count_cap want) * NAMED_STREAM_TRIES) (2 ^ 64 - 1)"

definition tries_stream :: "segment \<Rightarrow> plan \<Rightarrow> search_wanted \<Rightarrow> bool" where
  "tries_stream seg plan want \<longleftrightarrow>
     needs_name (pl_clauses plan) \<and> needed want > 0
     \<and> (wn_sort want = SName \<or> wn_sort want = SPath \<or> wn_sort want = SExt)
     \<and> stream_budget want \<le> seg_rows seg div NAMED_STREAM_SHARE"

definition run_with ::
  "outside \<Rightarrow> selector \<Rightarrow> segment \<Rightarrow> plan \<Rightarrow> search_wanted \<Rightarrow> veto option \<Rightarrow> (u32 \<times> i64) list \<Rightarrow> found run" where
  "run_with x sel seg plan want conceals folders =
     (let whole = bind_run (walk_segment x sel seg plan want conceals folders None) (\<lambda>r. case r of
            Some f \<Rightarrow> Ret f | None \<Rightarrow> Panic)
      in if tries_stream seg plan want then
           bind_run (walk_segment x sel seg plan want conceals folders (Some (stream_budget want))) (\<lambda>r. case r of
               Some f \<Rightarrow> Ret f | None \<Rightarrow> whole)
         else whole)"

end
