(* ===== verification/Visits.thy ===== *)
theory Visits
  imports Search
begin

text \<open>
  What a walk leaves behind.  The lemmas reduce every way through a segment to visiting a list
  of rows one after another, and say what the state holds after each kind of walk: along a
  stored order, backwards through it, and keeping the best rows of all.
\<close>

section \<open>Sequences of visits\<close>

lemma visit_all_append:
  "visit_all f (as @ bs) s = bind_run (visit_all f as s) (\<lambda>(s, go). if go then visit_all f bs s else Ret (s, False))"
proof (induction f as s rule: visit_all.induct)
  case (2 f row name rest s)
  show ?case
  proof (cases "f s row name")
    case (Ret r)
    then show ?thesis using 2 by (cases r) auto
  qed simp
qed simp

lemma visit_named_all: "run_while (visit_named f) items (Ret (s, True)) = visit_all f items s"
proof (induction f items s rule: visit_all.induct)
  case (2 f row name rest s)
  show ?case
  proof (cases "f s row name")
    case Panic
    have "run_while (visit_named f) [] Panic = Panic" by simp
    then show ?thesis using Panic by (simp add: visit_named_def Let_def)
  next
    case (Ret r)
    then show ?thesis using 2 by (cases r) (auto simp: visit_named_def Let_def)
  qed
qed simp

lemma over_runs_visits:
  "(\<And>from to s. (from, to) \<in> set runs \<Longrightarrow> step from to s = visit_all f (g from to) s) \<Longrightarrow>
    over_runs step runs s = visit_all f (concat (map (\<lambda>(from, to). g from to) runs)) s"
proof (induction runs arbitrary: s)
  case (Cons r runs)
  obtain a b where r: "r = (a, b)" by fastforce
  have rest: "over_runs step runs = visit_all f (concat (map (\<lambda>(from, to). g from to) runs))"
    by (rule ext) (use Cons in simp)
  show ?case
    using Cons.prems [of a b s] unfolding r over_runs.simps rest by (simp add: visit_all_append)
qed simp

abbreviation named_rows :: "(nat \<Rightarrow> bytes) \<Rightarrow> nat list \<Rightarrow> (nat \<times> bytes) list" where
  "named_rows nm rows \<equiv> map (\<lambda>i. (i, nm i)) rows"

text \<open>A stream visits its rows, unless it runs out of tries.\<close>

abbreviation streamed :: "setting \<Rightarrow> u32 list \<Rightarrow> (nat \<times> bytes) list" where
  "streamed t rows \<equiv> map (\<lambda>row. (unat row, stream_name t row)) rows"

definition streams_as :: "setting \<Rightarrow> nat \<Rightarrow> u32 list \<Rightarrow> walk_state \<Rightarrow> (walk_state \<times> nat \<times> bool) option run \<Rightarrow> bool" where
  "streams_as t tries rows w r \<longleftrightarrow> r = Ret None \<and> tries < length rows
     \<or> (\<exists>k \<le> tries. tries \<le> k + length rows \<and>
          r = bind_run (visit_all (visit t) (streamed t rows) w) (\<lambda>(w, go). Ret (Some (w, k, go))))"

lemma streams_asI:
  "k \<le> tries \<Longrightarrow> tries \<le> k + length rows \<Longrightarrow>
    r = bind_run (visit_all (visit t) (streamed t rows) w) (\<lambda>(w, go). Ret (Some (w, k, go))) \<Longrightarrow> streams_as t tries rows w r"
  by (auto simp: streams_as_def)

lemma streams_as_cases [consumes 1, case_names out all]:
  assumes "streams_as t tries rows w r"
  obtains "r = Ret None" "tries < length rows"
    | k where "k \<le> tries" "tries \<le> k + length rows"
      "r = bind_run (visit_all (visit t) (streamed t rows) w) (\<lambda>(w, go). Ret (Some (w, k, go)))"
  using assms by (auto simp: streams_as_def)

lemma stream_visits:
  "(\<And>i. i \<in> set is \<Longrightarrow> at i = Some (row i)) \<Longrightarrow> streams_as t tries (map row is) w (stream_rows t at is w tries)"
proof (induction "is" arbitrary: w tries)
  case (Cons i "is")
  have i: "at i = Some (row i)" using Cons.prems by simp
  show ?case
  proof (cases "tries = 0")
    case False
    show ?thesis
    proof (cases "visit t w (unat (row i)) (stream_name t (row i))")
      case Panic
      then show ?thesis using i False by (intro streams_asI [of tries]) simp_all
    next
      case (Ret r)
      obtain w' go where r: "r = (w', go)" by fastforce
      show ?thesis
      proof (cases go)
        case True
        have "streams_as t (tries - 1) (map row is) w' (stream_rows t at is w' (tries - 1))"
          using Cons by simp
        then show ?thesis
        proof (cases rule: streams_as_cases)
          case out
          then have "tries < Suc (length is)" by simp
          then show ?thesis using out i False Ret r True by (simp add: streams_as_def)
        next
          case (all k)
          then show ?thesis using i False Ret r True by (intro streams_asI [of k]) simp_all
        qed
      qed (use i False Ret r in \<open>auto intro!: streams_asI [of "tries - 1"]\<close>)
    qed
  qed (simp add: streams_as_def)
qed (simp add: streams_as_def)

lemma streams_as_append:
  assumes "streams_as t tries as w r" "\<And>w k. k \<le> tries \<Longrightarrow> tries \<le> k + length as \<Longrightarrow> streams_as t k bs w (f w k)"
  shows "streams_as t tries (as @ bs) w (bind_run r (\<lambda>r. case r of
      None \<Rightarrow> Ret None | Some (w, k, go) \<Rightarrow> if go then f w k else Ret (Some (w, k, False))))"
  using assms(1)
proof (cases rule: streams_as_cases)
  case (all k)
  show ?thesis
  proof (cases "visit_all (visit t) (streamed t as) w")
    case Panic
    then show ?thesis using all by (intro streams_asI [of k]) (simp_all add: visit_all_append)
  next
    case (Ret p)
    obtain w' go where p: "p = (w', go)" by fastforce
    show ?thesis
    proof (cases go)
      case True
      show ?thesis
        using assms(2) [OF all(1,2), of w']
      proof (cases rule: streams_as_cases)
        case out
        then show ?thesis using all Ret p True by (simp add: streams_as_def)
      next
        case (all l)
        then show ?thesis
          using \<open>k \<le> tries\<close> \<open>tries \<le> k + length as\<close> \<open>r = _\<close> Ret p True by (intro streams_asI [of l]) (simp_all add: visit_all_append)
      qed
    qed (use all Ret p in \<open>auto intro!: streams_asI [of k] simp: visit_all_append\<close>)
  qed
qed (simp add: streams_as_def)

text \<open>Rows by a key, either way round, equal keys in row order.\<close>

definition before :: "bool \<Rightarrow> ('a \<Rightarrow> 'k :: linorder) \<Rightarrow> 'a :: linorder \<Rightarrow> 'a \<Rightarrow> bool" where
  "before desc key i j \<longleftrightarrow> (if desc then key j < key i else key i < key j) \<or> key i = key j \<and> i < j"

interpretation rows: ranking "before desc key"
  by unfold_locales (auto simp: before_def split: if_splits)

lemma before_total: "i \<noteq> j \<Longrightarrow> before desc key i j \<or> before desc key j i"
  by (auto simp: before_def)

lemma before_irrefl [simp]: "\<not> before desc key i i"
  by (simp add: before_def)

lemma before_ascending: "before False f = row_before f"
  by (auto simp: before_def row_before_def fun_eq_iff)

text \<open>A group: rows of one key, in row order, before all rows of the positions before it.\<close>

lemma group_rows:
  assumes "lists_rows p n f order" "n < 2 ^ 32" "0 < past" "past \<le> n"
  obtains start where "start < past" "group_at_or_before p (past - 1) = Some start"
    "sorted_wrt (before True f) (drop start (take past order))"
    "\<And>a b. a \<in> set (drop start (take past order)) \<Longrightarrow> b \<in> set (take start order) \<Longrightarrow> before True f a b"
proof -
  have o: "order = row_order n f" using assms(1) by (simp add: lists_rows_def)
  have len: "length order = n" and srt: "sorted_wrt (row_before f) order"
    using row_order_facts [OF assms(2), of f] o by simp_all
  obtain start where s: "start \<le> past - 1" "group_at_or_before p (past - 1) = Some start"
    "\<forall>k. start \<le> k \<and> k \<le> past - 1 \<longrightarrow> f (order ! k) = f (order ! (past - 1))"
    "start = 0 \<or> f (order ! (start - 1)) \<noteq> f (order ! (past - 1))"
  proof -
    have "past - 1 < n" using assms(3,4) by simp
    then have "\<exists>j \<le> past - 1. group_at_or_before p (past - 1) = Some j
        \<and> (\<forall>k. j \<le> k \<and> k \<le> past - 1 \<longrightarrow> f (order ! k) = f (order ! (past - 1)))
        \<and> (j = 0 \<or> f (order ! (j - 1)) \<noteq> f (order ! (past - 1)))"
      using assms(1) unfolding lists_rows_def by blast
    then show thesis using that by blast
  qed
  have group: "f r = f (order ! (past - 1))" if mem: "r \<in> set (drop start (take past order))" for r
  proof -
    obtain k where "k < length (drop start (take past order))" "drop start (take past order) ! k = r"
      using mem unfolding in_set_conv_nth by blast
    then have k: "start + k < past" "drop start (take past order) ! k = r" using assms(4) len by simp_all
    then have "r = order ! (start + k)" using assms(4) len by simp
    moreover have "start \<le> start + k \<and> start + k \<le> past - 1" using k(1) by linarith
    ultimately show ?thesis using s(3) by blast
  qed
  have below: "f b < f (order ! (past - 1))" if mem: "b \<in> set (take start order)" for b
  proof -
    obtain k where "k < length (take start order)" "take start order ! k = b" using mem unfolding in_set_conv_nth by blast
    then have k: "k < start" "b = order ! k" by simp_all
    have "f b \<le> f (order ! (start - 1))"
    proof (cases "k = start - 1")
      case False
      then have "k < start - 1" "start - 1 < length order" using k(1) s(1) assms(3,4) len by linarith+
      then show ?thesis using sorted_wrt_nth_less [OF srt, of k "start - 1"] k(2) by (auto simp: row_before_def)
    qed (simp add: k(2))
    moreover have "row_before f (order ! (start - 1)) (order ! (past - 1))"
      using sorted_wrt_nth_less [OF srt, of "start - 1" "past - 1"] k s(1) assms(3,4) len by simp
    ultimately show ?thesis using s(4) k(1) by (auto simp: row_before_def)
  qed
  have "sorted_wrt (row_before f) (drop start (take past order))"
    using srt by (intro sorted_wrt_drop sorted_wrt_take)
  then have "sorted_wrt (before True f) (drop start (take past order))"
    by (rule sorted_wrt_mono_rel [rotated]) (auto simp: before_def row_before_def group)
  moreover have "before True f a b" if "a \<in> set (drop start (take past order))" "b \<in> set (take start order)" for a b
    using group [OF that(1)] below [OF that(2)] by (simp add: before_def)
  moreover have "start < past" using s(1) assms(3) by linarith
  ultimately show thesis using that s(2) by blast
qed

text \<open>Groups from the end: the rows by descending key.\<close>

lemma stream_groups_visits:
  assumes l: "lists_rows p n f order" and n: "n < 2 ^ 32"
  shows "past \<le> n \<Longrightarrow> \<exists>rows. set rows = set (take past order) \<and> length rows = past \<and> sorted_wrt (before True f) rows
    \<and> (\<forall>w tries. streams_as t tries rows w (stream_groups t p past w tries))"
proof (induction past rule: less_induct)
  case (less past)
  show ?case
  proof (cases "past = 0")
    case True
    then show ?thesis by (intro exI [of _ "[]"]) (simp add: streams_as_def stream_groups.simps)
  next
    case False
    obtain start where s: "start < past" "group_at_or_before p (past - 1) = Some start"
      "sorted_wrt (before True f) (drop start (take past order))"
      "\<And>a b. a \<in> set (drop start (take past order)) \<Longrightarrow> b \<in> set (take start order) \<Longrightarrow> before True f a b"
      using group_rows [OF l n _ less.prems] False by blast
    obtain rows where rows: "set rows = set (take start order)" "length rows = start" "sorted_wrt (before True f) rows"
      "\<forall>w tries. streams_as t tries rows w (stream_groups t p start w tries)"
      using less.IH [OF s(1)] less.prems s(1) by auto
    let ?g = "drop start (take past order)"
    have len: "length order = n" using row_order_facts(1) [OF n, of f] l by (simp add: lists_rows_def)
    have g: "?g = map ((!) order) [start ..< past]" using less.prems len by (intro nth_equalityI) auto
    have "streams_as t tries (?g @ rows) w (stream_groups t p past w tries)" for w tries
    proof -
      have "streams_as t tries ?g w (stream_rows t (name_order_at p) [start ..< past] w tries)"
        unfolding g by (rule stream_visits) (use l less.prems in \<open>auto simp: lists_rows_def\<close>)
      from streams_as_append [OF this, of rows "stream_groups t p start"] show ?thesis
        using rows(4) s(2) False by (simp add: stream_groups.simps [of t p past])
    qed
    moreover have "sorted_wrt (before True f) (?g @ rows)" using s(3,4) rows(1,3) by (simp add: sorted_wrt_append)
    moreover have "set (?g @ rows) = set (take past order)"
      using rows(1) s(1) append_take_drop_id [of start "take past order"]
      by (metis Un_commute less_imp_le min.absorb1 set_append take_take)
    moreover have "length (?g @ rows) = past" using rows(2) s(1) len less.prems by simp
    ultimately show ?thesis by blast
  qed
qed

section \<open>What a walk keeps\<close>

definition visit_gives :: "setting \<Rightarrow> (nat \<Rightarrow> bytes) \<Rightarrow> (nat \<Rightarrow> bool) \<Rightarrow> nat list \<Rightarrow> bool" where
  "visit_gives t nm hit rows \<longleftrightarrow> (\<forall>i \<in> set rows. accepted t i (nm i) = Ret (hit i))"

lemma visit_miss:
  "accepted t i name = Ret False \<Longrightarrow> visit t w i name = Ret (w\<lparr>wk_visited := wk_visited w + 1\<rparr>, True)"
  by (simp add: visit_def)

abbreviation cap_of :: "setting \<Rightarrow> nat" where "cap_of t \<equiv> wn_count_cap (st_wanted t)"

abbreviation need_of :: "setting \<Rightarrow> nat" where "need_of t \<equiv> needed (st_wanted t)"

text \<open>
  \<open>seen\<close> are the rows counted, \<open>rest\<close> those a walk that stopped did not look at.
\<close>

definition stopped_well :: "setting \<Rightarrow> nat list \<Rightarrow> nat list \<Rightarrow> bool" where
  "stopped_well t seen rest \<longleftrightarrow> (rest \<noteq> [] \<longrightarrow> need_of t \<le> length seen \<and> cap_of t \<le> length seen)"

definition stored_kept :: "setting \<Rightarrow> nat list \<Rightarrow> walk_state \<Rightarrow> bool" where
  "stored_kept t seen w \<longleftrightarrow> wk_counted w = length seen \<and> wk_kept w = map as_u32 (take (need_of t) seen)"

lemma visits_stored:
  assumes "co_stored (st_course t)" "\<not> co_backwards (st_course t)"
  shows "visit_gives t nm hit rows \<Longrightarrow> stored_kept t seen w \<Longrightarrow>
    \<exists>w' go more rest. visit_all (visit t) (named_rows nm rows) w = Ret (w', go) \<and> filter hit rows = more @ rest
      \<and> stored_kept t (seen @ more) w' \<and> stopped_well t (seen @ more) rest \<and> wk_dirs w' = wk_dirs w"
proof (induction rows arbitrary: seen w)
  case (Cons i rows)
  have rest: "visit_gives t nm hit rows" using Cons.prems(1) by (simp add: visit_gives_def)
  have acc: "accepted t i (nm i) = Ret (hit i)" using Cons.prems(1) by (simp add: visit_gives_def)
  show ?case
  proof (cases "hit i")
    case False
    have "stored_kept t seen (w\<lparr>wk_visited := wk_visited w + 1\<rparr>)" using Cons.prems(2) by (simp add: stored_kept_def)
    from Cons.IH [OF rest this] show ?thesis using acc False by (simp add: visit_miss)
  next
    case True
    let ?w = "w\<lparr>wk_visited := wk_visited w + 1, wk_counted := wk_counted w + 1\<rparr>"
    obtain w1 go where v: "visit_stored t i ?w = (w1, go)" by fastforce
    then have visit: "visit t w i (nm i) = Ret (w1, go)" using acc True assms by (simp add: visit_def)
    have w1: "stored_kept t (seen @ [i]) w1" "wk_dirs w1 = wk_dirs w"
      "go \<longleftrightarrow> \<not> (need_of t \<le> length (seen @ [i]) \<and> cap_of t \<le> length (seen @ [i]))"
      using v Cons.prems(2) by (auto simp: visit_stored_def stored_kept_def Let_def min_def split: if_splits)
    show ?thesis
    proof (cases go)
      case True
      obtain w' go' more rest where "visit_all (visit t) (named_rows nm rows) w1 = Ret (w', go')" "filter hit rows = more @ rest"
        "stored_kept t ((seen @ [i]) @ more) w'" "stopped_well t ((seen @ [i]) @ more) rest" "wk_dirs w' = wk_dirs w1"
        using Cons.IH [OF rest w1(1)] by blast
      then show ?thesis
        using visit True \<open>hit i\<close> w1(2)
        by (intro exI [of _ w'] exI [of _ go'] exI [of _ "i # more"] exI [of _ rest]) simp
    next
      case False
      then show ?thesis
        using visit w1 \<open>hit i\<close>
        by (intro exI [of _ w1] exI [of _ False] exI [of _ "[i]"] exI [of _ "filter hit rows"]) (simp add: stopped_well_def)
    qed
  qed
qed (auto simp: stopped_well_def)

lemma stored_page:
  assumes "stored_kept t seen w" "stopped_well t seen rest"
  shows "wk_kept w = map as_u32 (take (need_of t) (seen @ rest))"
    "min (wk_counted w) (cap_of t) = min (length (seen @ rest)) (cap_of t)"
    "cap_of t \<le> wk_counted w \<longleftrightarrow> cap_of t \<le> length (seen @ rest)"
  using assms by (cases "rest = []"; auto simp: stored_kept_def stopped_well_def)+

text \<open>Backwards: the page and the rest of the date it ends on.\<close>

definition dated_page :: "nat \<Rightarrow> (nat \<Rightarrow> i64) \<Rightarrow> nat list \<Rightarrow> nat list" where
  "dated_page need when rows =
     take need rows @ (if need = 0 then [] else filter (\<lambda>i. when i = when (rows ! (need - 1))) (drop need rows))"

definition backwards_kept :: "setting \<Rightarrow> (nat \<Rightarrow> i64) \<Rightarrow> nat list \<Rightarrow> walk_state \<Rightarrow> bool" where
  "backwards_kept t when seen w \<longleftrightarrow> wk_counted w = length seen
     \<and> wk_kept w = map as_u32 (dated_page (need_of t) when seen)
     \<and> wk_edge w = (if 0 < need_of t \<and> need_of t \<le> length seen then Some (when (seen ! (need_of t - 1))) else None)"

lemma dated_page_snoc:
  "dated_page need when (seen @ [i]) =
     (if length seen < need then dated_page need when seen @ [i]
      else if 0 < need \<and> when i = when (seen ! (need - 1)) then dated_page need when seen @ [i]
      else dated_page need when seen)"
proof (cases "length seen < need")
  case True
  then show ?thesis by (simp add: dated_page_def)
next
  case False
  then have "need = 0 \<or> (seen @ [i]) ! (need - 1) = seen ! (need - 1)" by (auto simp: nth_append)
  then show ?thesis using False by (auto simp: dated_page_def)
qed

lemma dated_page_length: "length (dated_page need when rows) < need \<longleftrightarrow> length rows < need"
  by (auto simp: dated_page_def)

lemma visit_backwards_of:
  assumes "seg_num (st_segment t) Mtime i = Ret (when i)" "backwards_kept t when seen w"
  defines "w1 \<equiv> w\<lparr>wk_counted := wk_counted w + 1\<rparr>"
  shows "\<exists>w' go. visit_backwards t i w1 = Ret (w', go) \<and> backwards_kept t when (seen @ [i]) w' \<and> wk_dirs w' = wk_dirs w
    \<and> (\<not> go \<longrightarrow> need_of t \<le> length seen \<and> cap_of t \<le> length (seen @ [i])
        \<and> (0 < need_of t \<longrightarrow> when i \<noteq> when (seen ! (need_of t - 1))))"
proof -
  note k = assms(2) [unfolded backwards_kept_def]
  consider "length seen < need_of t" | "need_of t \<le> length seen" by linarith
  then show ?thesis
  proof cases
    case 1
    then have len: "length (wk_kept w) = length seen" using k by (simp add: dated_page_def)
    have kept: "map as_u32 (dated_page (need_of t) when (seen @ [i])) = wk_kept w @ [as_u32 i]"
      using 1 k by (simp add: dated_page_snoc)
    show ?thesis
    proof (cases "Suc (length seen) = need_of t")
      case True
      then have "(seen @ [i]) ! (need_of t - 1) = i" by (metis diff_Suc_1 nth_append_length)
      then show ?thesis using True 1 k kept len assms(1) by (auto simp: ex_bool_eq visit_backwards_def w1_def backwards_kept_def Let_def)
    next
      case False
      then show ?thesis using 1 k kept len assms(1) by (auto simp: ex_bool_eq visit_backwards_def w1_def backwards_kept_def Let_def)
    qed
  next
    case 2
    then have len: "need_of t \<le> length (wk_kept w)" using k dated_page_length [of "need_of t" "when" seen] by simp
    have edge: "wk_edge w = (if 0 < need_of t then Some (when (seen ! (need_of t - 1))) else None)" using 2 k by simp
    have last: "0 < need_of t \<Longrightarrow> (seen @ [i]) ! (need_of t - 1) = seen ! (need_of t - 1)"
      using 2 nth_append [of seen "[i]" "need_of t - 1"] by (cases "need_of t") simp_all
    have kept: "map as_u32 (dated_page (need_of t) when (seen @ [i]))
        = (if wk_edge w = Some (when i) then wk_kept w @ [as_u32 i] else wk_kept w)"
      using 2 k edge by (auto simp: dated_page_snoc)
    have len1: "\<not> length (wk_kept w1) < need_of t" using len by (simp add: w1_def)
    show ?thesis
    proof (cases "wk_edge w = Some (when i)")
      case True
      then have "visit_backwards t i w1 = Ret (w1\<lparr>wk_kept := wk_kept w @ [as_u32 i]\<rparr>, True)"
        using len1 assms(1) by (simp add: visit_backwards_def w1_def)
      moreover have "backwards_kept t when (seen @ [i]) (w1\<lparr>wk_kept := wk_kept w @ [as_u32 i]\<rparr>)"
        using 2 k edge last kept True by (simp add: backwards_kept_def w1_def)
      ultimately show ?thesis by (auto simp: w1_def)
    next
      case False
      let ?stop = "cap_of t \<le> wk_counted w1"
      have "visit_backwards t i w1 = Ret (if ?stop then w1\<lparr>wk_done := True\<rparr> else w1, \<not> ?stop)"
        using len1 assms(1) False by (simp add: visit_backwards_def w1_def)
      moreover have "backwards_kept t when (seen @ [i]) (if ?stop then w1\<lparr>wk_done := True\<rparr> else w1)"
        using 2 k edge last kept False by (simp add: backwards_kept_def w1_def)
      moreover have "wk_dirs (if ?stop then w1\<lparr>wk_done := True\<rparr> else w1) = wk_dirs w" by (simp add: w1_def)
      moreover have "0 < need_of t \<longrightarrow> when i \<noteq> when (seen ! (need_of t - 1))" using False edge by auto
      moreover have "?stop \<longrightarrow> cap_of t \<le> length (seen @ [i])" using k by (simp add: w1_def)
      ultimately show ?thesis
        using 2 by (intro exI [of _ "if ?stop then w1\<lparr>wk_done := True\<rparr> else w1"] exI [of _ "\<not> ?stop"]) simp
    qed
  qed
qed

lemma dated_page_rest:
  "need \<le> length seen \<Longrightarrow> (0 < need \<Longrightarrow> \<forall>r \<in> set rest. when r \<noteq> when (seen ! (need - 1))) \<Longrightarrow>
    dated_page need when (seen @ rest) = dated_page need when seen"
  by (auto simp: dated_page_def nth_append filter_empty_conv)

lemma visits_backwards:
  assumes "co_backwards (st_course t)"
  shows "visit_gives t nm hit rows \<Longrightarrow> (\<forall>i \<in> set rows. seg_num (st_segment t) Mtime i = Ret (when i)) \<Longrightarrow>
    sorted_wrt (\<lambda>i j. sint (when i) \<le> sint (when j)) (seen @ filter hit rows) \<Longrightarrow> backwards_kept t when seen w \<Longrightarrow>
    \<exists>w' go more rest. visit_all (visit t) (named_rows nm rows) w = Ret (w', go) \<and> filter hit rows = more @ rest
      \<and> backwards_kept t when (seen @ more) w' \<and> stopped_well t (seen @ more) rest \<and> wk_dirs w' = wk_dirs w
      \<and> dated_page (need_of t) when (seen @ more @ rest) = dated_page (need_of t) when (seen @ more)"
proof (induction rows arbitrary: seen w)
  case (Cons i rows)
  have rest: "visit_gives t nm hit rows" "\<forall>i \<in> set rows. seg_num (st_segment t) Mtime i = Ret (when i)"
    and acc: "accepted t i (nm i) = Ret (hit i)" and date: "seg_num (st_segment t) Mtime i = Ret (when i)"
    using Cons.prems(1,2) by (simp_all add: visit_gives_def)
  let ?v = "w\<lparr>wk_visited := wk_visited w + 1\<rparr>"
  have v: "backwards_kept t when seen ?v" using Cons.prems(4) by (simp add: backwards_kept_def)
  show ?case
  proof (cases "hit i")
    case False
    then show ?thesis using Cons.IH [OF rest _ v] Cons.prems(3) acc by (simp add: visit_miss)
  next
    case True
    obtain w1 go where w1: "visit_backwards t i (?v\<lparr>wk_counted := wk_counted ?v + 1\<rparr>) = Ret (w1, go)"
      "backwards_kept t when (seen @ [i]) w1" "wk_dirs w1 = wk_dirs ?v"
      "\<not> go \<longrightarrow> need_of t \<le> length seen \<and> cap_of t \<le> length (seen @ [i])
         \<and> (0 < need_of t \<longrightarrow> when i \<noteq> when (seen ! (need_of t - 1)))"
      using visit_backwards_of [OF date v] by (elim exE conjE) (rule that)
    have visit: "visit t w i (nm i) = Ret (w1, go)" using acc True assms w1(1) by (simp add: visit_def)
    show ?thesis
    proof (cases go)
      case True
      have "sorted_wrt (\<lambda>i j. sint (when i) \<le> sint (when j)) ((seen @ [i]) @ filter hit rows)"
        using Cons.prems(3) \<open>hit i\<close> by simp
      from Cons.IH [OF rest this w1(2)]
      obtain w' go' more rst where "visit_all (visit t) (named_rows nm rows) w1 = Ret (w', go')" "filter hit rows = more @ rst"
        "backwards_kept t when ((seen @ [i]) @ more) w'" "stopped_well t ((seen @ [i]) @ more) rst" "wk_dirs w' = wk_dirs w1"
        "dated_page (need_of t) when ((seen @ [i]) @ more @ rst) = dated_page (need_of t) when ((seen @ [i]) @ more)"
        by blast
      then show ?thesis
        using visit True \<open>hit i\<close> w1(3)
        by (intro exI [of _ w'] exI [of _ go'] exI [of _ "i # more"] exI [of _ rst]) simp
    next
      case False
      have "when r \<noteq> when (seen ! (need_of t - 1))" if r: "r \<in> set (filter hit rows)" "0 < need_of t" for r
      proof -
        have n: "seen ! (need_of t - 1) \<in> set seen" using w1(4) False r(2) by (intro nth_mem) linarith
        then have "sint (when (seen ! (need_of t - 1))) \<le> sint (when i)" "sint (when i) \<le> sint (when r)"
          using Cons.prems(3) \<open>hit i\<close> r(1) by (auto simp: sorted_wrt_append)
        moreover have "sint (when i) \<noteq> sint (when (seen ! (need_of t - 1)))"
          using w1(4) False r(2) signed_word_eqI by blast
        ultimately show ?thesis by auto
      qed
      moreover have "(seen @ [i]) ! (need_of t - 1) = seen ! (need_of t - 1)" if "0 < need_of t"
      proof -
        have "need_of t - 1 < length seen" using w1(4) False that by linarith
        then show ?thesis by (simp add: nth_append)
      qed
      ultimately have "dated_page (need_of t) when ((seen @ [i]) @ filter hit rows) = dated_page (need_of t) when (seen @ [i])"
        using w1(4) False by (intro dated_page_rest) auto
      then show ?thesis
        using visit w1 False \<open>hit i\<close>
        by (intro exI [of _ w1] exI [of _ False] exI [of _ "[i]"] exI [of _ "filter hit rows"]) (simp add: stopped_well_def)
    qed
  qed
qed (auto simp: stopped_well_def)

section \<open>The best rows of all\<close>

text \<open>The directories decoded so far are the segment's.\<close>

definition dirs_known :: "entry list \<Rightarrow> dir_paths \<Rightarrow> bool" where
  "dirs_known es dp \<longleftrightarrow> reader_ok (entry_names es) (dp_names dp)
     \<and> (dp_dirs dp = [] \<or> length (dp_dirs dp) = length (entry_dirs es))
     \<and> (\<forall>d p. d < length (dp_dirs dp) \<longrightarrow> dp_dirs dp ! d = Some p \<longrightarrow> p = entry_dirs es ! d)"

definition keys_given :: "setting \<Rightarrow> entry list \<Rightarrow> (nat \<Rightarrow> bytes) \<Rightarrow> (nat \<Rightarrow> sort_value) \<Rightarrow> nat list \<Rightarrow> bool" where
  "keys_given t es nm key rows \<longleftrightarrow> (\<forall>i \<in> set rows. \<forall>dp. dirs_known es dp \<longrightarrow> (\<exists>dp'. dirs_known es dp'
     \<and> sort_value_of (st_outside t) (st_segment t) i (nm i) (wn_sort (st_wanted t)) (co_terms (st_course t)) (st_folders t) dp
         = Ret (key i, dp')))"

abbreviation item :: "(nat \<Rightarrow> sort_value) \<Rightarrow> nat \<Rightarrow> keyed" where
  "item key i \<equiv> (key i, as_u32 i)"

abbreviation better_of :: "setting \<Rightarrow> keyed \<Rightarrow> keyed \<Rightarrow> bool" where
  "better_of t \<equiv> beats (wn_descending (st_wanted t)) (key_is_exact (wn_sort (st_wanted t)))"

text \<open>The rows seen are covered by those kept, and both boundaries are no better than the page.\<close>

definition keyed_kept :: "setting \<Rightarrow> entry list \<Rightarrow> (nat \<Rightarrow> sort_value) \<Rightarrow> nat set \<Rightarrow> walk_state \<Rightarrow> bool" where
  "keyed_kept t es key seen w \<longleftrightarrow> dirs_known es (wk_dirs w) \<and> distinct (map snd (wk_keyed w)) \<and> need_of t \<le> wk_trim_at w
     \<and> holds_page (better_of t) (need_of t) (item key ` seen) (set (wk_keyed w))
     \<and> (if co_bounded (st_course t) then wk_bar w = None else wk_worst w = None)
     \<and> (\<forall>b. wk_bar w = Some b \<longrightarrow> page_bar (better_of t) (need_of t) (set (wk_keyed w)) b)
     \<and> (\<forall>v at. wk_worst w = Some (v, at) \<longrightarrow> (\<exists>k. v = zone_key k (wn_descending (st_wanted t))
          \<and> page_bar (better_of t) (need_of t) (set (wk_keyed w)) (SNum k, at)))"

definition numbers_if_bounded :: "setting \<Rightarrow> (nat \<Rightarrow> sort_value) \<Rightarrow> bool" where
  "numbers_if_bounded t key \<longleftrightarrow> (co_bounded (st_course t) \<longrightarrow> (\<forall>i. \<exists>v. key i = SNum v))"

lemma keyed_kept_start: "need_of t < 2 ^ 64 \<Longrightarrow> keyed_kept t es key {} (walk_start (st_wanted t))"
  by (simp add: keyed_kept_def walk_start_def dirs_known_def dir_paths_default_def reader_default_ok)

lemma trim_kept:
  assumes sel: "select_law (st_select t)" and k: "keyed_kept t es key seen w" and num: "numbers_if_bounded t key"
    and need: "0 < need_of t" "need_of t < 2 ^ 64" "need_of t \<le> length (wk_keyed w)"
  shows "keyed_kept t es key seen (trim t w)"
proof -
  note k' = k [unfolded keyed_kept_def]
  let ?desc = "wn_descending (st_wanted t)" and ?precise = "key_is_exact (wn_sort (st_wanted t))"
  define ys where "ys = narrow_keyed (st_select t) (wk_keyed w) (need_of t) ?desc ?precise"
  have d: "distinct (map snd (wk_keyed w))" using k' by blast
  note n = narrow_spec [OF sel d, where need = "need_of t" and desc = ?desc and precise = ?precise, folded ys_def]
  have last: "need_of t \<le> length ys" "page_bar (better_of t) (need_of t) (set ys) (ys ! (need_of t - 1))"
    using n(4) need by blast+
  have cov: "holds_page (better_of t) (need_of t) (item key ` seen) (set ys)"
    by (rule pages.covers_fewer [OF _ n(2,3)]) (use k' in auto)
  have trim_at: "need_of t \<le> twice (length ys)" using last(1) need(2) by (simp add: twice_def)
  have "ys ! (need_of t - 1) \<in> set ys" using last(1) need(1) by simp
  then obtain i where i: "ys ! (need_of t - 1) = item key i" using cov by (auto simp: holds_page_def)
  show ?thesis
  proof (cases "co_bounded (st_course t)")
    case True
    then obtain v where v: "key i = SNum v" using num by (auto simp: numbers_if_bounded_def)
    then have "trim t w = w\<lparr>wk_keyed := ys, wk_trim_at := twice (length ys), wk_worst := Some (zone_key v ?desc, as_u32 i)\<rparr>"
      using True i by (simp add: trim_def ys_def [symmetric] Let_def)
    then show ?thesis using k' n(1) cov trim_at last(2) True i v by (auto simp: keyed_kept_def)
  next
    case False
    then have "trim t w = w\<lparr>wk_keyed := ys, wk_trim_at := twice (length ys), wk_bar := Some (ys ! (need_of t - 1))\<rparr>"
      by (simp add: trim_def ys_def [symmetric] Let_def)
    then show ?thesis using k' n(1) cov trim_at last(2) False by (auto simp: keyed_kept_def)
  qed
qed

text \<open>What a trim, a key and a kept row leave alone.\<close>

definition same_counts :: "walk_state \<Rightarrow> walk_state \<Rightarrow> bool" where
  "same_counts w' w \<longleftrightarrow> wk_counted w' = wk_counted w \<and> wk_closed w' = wk_closed w"

lemma trim_counts: "same_counts (trim t w) w"
  by (auto simp: trim_def same_counts_def Let_def split: prod.split sort_value.split)

lemma item_inj: "i < 2 ^ 32 \<Longrightarrow> j < 2 ^ 32 \<Longrightarrow> as_u32 i = as_u32 j \<longleftrightarrow> i = j"
  by (metis unat_u32)

lemma keyed_push:
  assumes k: "keyed_kept t es key seen w" and i: "i \<notin> seen" "i < 2 ^ 32" "\<forall>j \<in> seen. j < 2 ^ 32"
  shows "keyed_kept t es key (insert i seen) (w\<lparr>wk_keyed := wk_keyed w @ [item key i]\<rparr>)"
proof -
  note k' = k [unfolded keyed_kept_def]
  have sub: "set (wk_keyed w) \<subseteq> item key ` seen" using k' by (auto simp: holds_page_def)
  have new: "as_u32 i \<notin> snd ` set (wk_keyed w)"
  proof
    assume "as_u32 i \<in> snd ` set (wk_keyed w)"
    then obtain j where "j \<in> seen" "as_u32 i = as_u32 j" using sub by auto
    then show False using i item_inj [of i j] by auto
  qed
  have "holds_page (better_of t) (need_of t) (insert (item key i) (item key ` seen)) (insert (item key i) (set (wk_keyed w)))"
    by (rule covers_insert) (use k' in blast)
  moreover have "page_bar (better_of t) (need_of t) (insert (item key i) (set (wk_keyed w))) b"
    if "page_bar (better_of t) (need_of t) (set (wk_keyed w)) b" for b
    using that by (rule page_bar_more) auto
  moreover from this k' have "\<forall>v at. wk_worst w = Some (v, at) \<longrightarrow> (\<exists>k. v = zone_key k (wn_descending (st_wanted t))
      \<and> page_bar (better_of t) (need_of t) (insert (item key i) (set (wk_keyed w))) (SNum k, at))"
    by blast
  ultimately show ?thesis using k' new by (simp add: keyed_kept_def)
qed

lemma visit_keyed_of:
  assumes sel: "select_law (st_select t)" and k: "keyed_kept t es key seen w" and num: "numbers_if_bounded t key"
    and need: "need_of t < 2 ^ 64" and i: "i \<notin> seen" "i < 2 ^ 32" "\<forall>j \<in> seen. j < 2 ^ 32"
    and key: "keys_given t es nm key [i]"
  shows "\<exists>w'. visit_keyed t i (nm i) w = Ret w' \<and> keyed_kept t es key (insert i seen) w' \<and> same_counts w' w"
proof (cases "need_of t = 0")
  case True
  then show ?thesis using k by (auto simp: visit_keyed_def keyed_kept_def holds_page_def same_counts_def)
next
  case False
  obtain dp where dp: "dirs_known es dp" "sort_value_of (st_outside t) (st_segment t) i (nm i) (wn_sort (st_wanted t))
      (co_terms (st_course t)) (st_folders t) (wk_dirs w) = Ret (key i, dp)"
    using key k by (auto simp: keys_given_def keyed_kept_def)
  let ?w = "w\<lparr>wk_dirs := dp\<rparr>" and ?desc = "wn_descending (st_wanted t)" and ?precise = "key_is_exact (wn_sort (st_wanted t))"
  have k1: "keyed_kept t es key seen ?w" using k dp(1) by (simp add: keyed_kept_def)
  show ?thesis
  proof (cases "out_of_page (wk_bar w) (key i) (as_u32 i) ?desc ?precise")
    case True
    then obtain b where b: "wk_bar w = Some b" "better_of t b (item key i)"
      using out_of_page_beats by (cases "wk_bar w") (auto simp: out_of_page_def)
    have "holds_page (better_of t) (need_of t) (item key ` seen \<union> {item key i}) (set (wk_keyed w))"
      by (rule pages.covers_beaten [of _ _ _ _ _ b]) (use k b in \<open>auto simp: keyed_kept_def\<close>)
    then have "keyed_kept t es key (insert i seen) ?w" using k1 by (simp add: keyed_kept_def)
    then show ?thesis using False dp(2) True by (auto simp: visit_keyed_def same_counts_def Let_def)
  next
    case out: False
    let ?p = "?w\<lparr>wk_keyed := wk_keyed w @ [item key i]\<rparr>"
    have k2: "keyed_kept t es key (insert i seen) ?p" using keyed_push [OF k1 i] by simp
    then have "keyed_kept t es key (insert i seen) (if wk_trim_at ?p \<le> length (wk_keyed ?p) then trim t ?p else ?p)"
      using trim_kept [OF sel k2 num] False need by (auto simp: keyed_kept_def)
    moreover have "same_counts (if wk_trim_at ?p \<le> length (wk_keyed ?p) then trim t ?p else ?p) w"
      using trim_counts [of t ?p] by (simp add: same_counts_def)
    ultimately show ?thesis using False dp(2) out by (auto simp: visit_keyed_def Let_def)
  qed
qed

lemma visits_keyed:
  assumes sel: "select_law (st_select t)" and num: "numbers_if_bounded t key" and need: "need_of t < 2 ^ 64"
    and co: "\<not> co_stored (st_course t)" "\<not> co_backwards (st_course t)"
  shows "visit_gives t nm hit rows \<Longrightarrow> keys_given t es nm key rows \<Longrightarrow> distinct rows \<Longrightarrow> set rows \<inter> seen = {} \<Longrightarrow>
    (\<forall>i \<in> set rows \<union> seen. i < 2 ^ 32) \<Longrightarrow> keyed_kept t es key seen w \<Longrightarrow> \<not> wk_closed w \<Longrightarrow>
    \<exists>w'. visit_all (visit t) (named_rows nm rows) w = Ret (w', True) \<and> keyed_kept t es key (seen \<union> set (filter hit rows)) w'
      \<and> wk_counted w' = wk_counted w + length (filter hit rows) \<and> \<not> wk_closed w'"
proof (induction rows arbitrary: seen w)
  case (Cons i rows)
  have rest: "visit_gives t nm hit rows" "keys_given t es nm key rows" "distinct rows"
    and acc: "accepted t i (nm i) = Ret (hit i)" and key: "keys_given t es nm key [i]"
    using Cons.prems(1-3) by (simp_all add: visit_gives_def keys_given_def)
  let ?v = "w\<lparr>wk_visited := wk_visited w + 1\<rparr>"
  have kv: "keyed_kept t es key seen (?v\<lparr>wk_counted := c\<rparr>)" for c
    using Cons.prems(6) by (simp add: keyed_kept_def)
  show ?case
  proof (cases "hit i")
    case False
    have "keyed_kept t es key seen ?v" using Cons.prems(6) by (simp add: keyed_kept_def)
    then show ?thesis using Cons.IH [OF rest, of seen ?v] Cons.prems(4,5,7) False acc by (simp add: visit_miss)
  next
    case True
    have "i \<notin> seen" "i < 2 ^ 32" "\<forall>j \<in> seen. j < 2 ^ 32" using Cons.prems(4,5) by auto
    from visit_keyed_of [OF sel kv num need this key]
    obtain w1 where w1: "visit_keyed t i (nm i) (?v\<lparr>wk_counted := wk_counted ?v + 1\<rparr>) = Ret w1"
      "keyed_kept t es key (insert i seen) w1" "same_counts w1 (?v\<lparr>wk_counted := wk_counted ?v + 1\<rparr>)"
      by blast
    have visit: "visit t w i (nm i) = Ret (w1, True)" using acc True co w1(1) Cons.prems(7) by (simp add: visit_def)
    have "\<exists>w'. visit_all (visit t) (named_rows nm rows) w1 = Ret (w', True)
        \<and> keyed_kept t es key (insert i seen \<union> set (filter hit rows)) w'
        \<and> wk_counted w' = wk_counted w1 + length (filter hit rows) \<and> \<not> wk_closed w'"
      by (rule Cons.IH [OF rest _ _ w1(2)]) (use Cons.prems w1(3) in \<open>auto simp: same_counts_def\<close>)
    then show ?thesis using visit w1(3) True by (auto simp: same_counts_def)
  qed
qed simp

text \<open>Once the page is closed, only the count goes on.\<close>

lemma visits_closed:
  assumes "\<not> co_stored (st_course t)" "\<not> co_backwards (st_course t)"
  shows "visit_gives t nm hit rows \<Longrightarrow> wk_closed w \<Longrightarrow>
    \<exists>w' go. visit_all (visit t) (named_rows nm rows) w = Ret (w', go) \<and> wk_keyed w' = wk_keyed w \<and> wk_dirs w' = wk_dirs w
      \<and> min (wk_counted w') (cap_of t) = min (wk_counted w + length (filter hit rows)) (cap_of t)
      \<and> (cap_of t \<le> wk_counted w' \<longleftrightarrow> cap_of t \<le> wk_counted w + length (filter hit rows))"
proof (induction rows arbitrary: w)
  case (Cons i rows)
  have rest: "visit_gives t nm hit rows" and acc: "accepted t i (nm i) = Ret (hit i)"
    using Cons.prems(1) by (simp_all add: visit_gives_def)
  let ?v = "w\<lparr>wk_visited := wk_visited w + 1\<rparr>"
  show ?case
  proof (cases "hit i")
    case False
    then show ?thesis using Cons.IH [OF rest, of ?v] Cons.prems(2) acc by (simp add: visit_miss)
  next
    case True
    let ?c = "?v\<lparr>wk_counted := wk_counted ?v + 1\<rparr>"
    show ?thesis
    proof (cases "cap_of t \<le> wk_counted ?c")
      case stop: True
      then have "visit t w i (nm i) = Ret (?c\<lparr>wk_done := True\<rparr>, False)"
        using acc True assms Cons.prems(2) by (simp add: visit_def)
      then show ?thesis using stop True by auto
    next
      case False
      then have "visit t w i (nm i) = Ret (?c, True)" using acc True assms Cons.prems(2) by (simp add: visit_def)
      then show ?thesis using Cons.IH [OF rest, of ?c] Cons.prems(2) True by simp
    qed
  qed
qed auto

end
