(* ===== verification/Ranked.thy ===== *)
theory Ranked
  imports Visits
begin

text \<open>
  What one segment hands over: of the live rows the reference accepts and the veto spares, every
  row the page could need.  The lemmas go through the ways of walking a segment one by one, each
  ending in \<open>holds_page\<close>: what is left out is behind \<open>need\<close> rows handed over.
\<close>

section \<open>The keys of the rows\<close>

text \<open>What a row is ordered by in full, and the key the walk compares.\<close>

definition row_size :: "entry list \<Rightarrow> (u32 \<times> i64) list \<Rightarrow> nat \<Rightarrow> int" where
  "row_size es folders i =
     sint (if \<not> e_is_dir (es ! i) \<or> folders = [] then m_size (e_meta (es ! i))
           else case rollup_of folders (as_u32 i) of Some v \<Rightarrow> v | None \<Rightarrow> m_size (e_meta (es ! i)))"

definition entry_extension :: "outside \<Rightarrow> entry \<Rightarrow> bytes" where
  "entry_extension x e = folded_extension (entry_name (e_path e)) (row_fold x e)"

definition full_key :: "outside \<Rightarrow> entry list \<Rightarrow> (u32 \<times> i64) list \<Rightarrow> bytes list \<Rightarrow> sortkey \<Rightarrow> nat \<Rightarrow> sort_value" where
  "full_key x es folders terms sk i =
     (let e = es ! i; m = e_meta e in case sk of
        SRelevance \<Rightarrow> SNum (relevance x (row_fold x e) terms (steps_of (entry_parent (e_path e))))
      | SName \<Rightarrow> SText (row_fold x e)
      | SPath \<Rightarrow> SText (e_path e)
      | SSize \<Rightarrow> SNum (row_size es folders i)
      | SModified \<Rightarrow> SNum (sint (m_mtime m))
      | SCreated \<Rightarrow> SNum (sint (m_ctime m))
      | SAccessed \<Rightarrow> SNum (sint (m_atime m))
      | SExt \<Rightarrow> SText (entry_extension x e)
      | SKind \<Rightarrow> SNum (int (unat (kind_as_u8 (entry_kind (fold_str x) e))))
      | SMode \<Rightarrow> SNum (sint (m_mode m))
      | SUid \<Rightarrow> SNum (sint (m_uid m))
      | SGid \<Rightarrow> SNum (sint (m_gid m))
      | SDisk \<Rightarrow> SNum (sint (m_disk m)))"

definition quick_key :: "outside \<Rightarrow> entry list \<Rightarrow> (u32 \<times> i64) list \<Rightarrow> bytes list \<Rightarrow> sortkey \<Rightarrow> nat \<Rightarrow> sort_value" where
  "quick_key x es folders terms sk i =
     (if sk = SName then SHead (head (row_fold x (es ! i)))
      else if sk = SExt then SHead (head (entry_extension x (es ! i)))
      else full_key x es folders terms sk i)"

lemma joined_path_join: "joined_path = join_path"
  by (intro ext) (simp add: joined_path_def join_path_def)

text \<open>A path key is built from the reader and the directories decoded so far.\<close>

lemma spelled_known:
  assumes x: "searchable x es seg" "i < length es" and dp: "dirs_known es dp"
  shows "\<exists>dp'. dir_paths_spelled x seg i dp = (entry_name (e_path (es ! i)), dp') \<and> dirs_known es dp'"
proof -
  note s = searchable_facts [OF x(1)]
  obtain n r where r: "reader_at (x_memchr x) (sg_names seg) i (dp_names dp) = (n, r)" by fastforce
  have fit: "names_fit (entry_names es)" using s(3) by (simp add: entries_fit_def names_text_def)
  have names: "sg_names seg = arena_of (entry_names es)" using s(4) by (simp add: holds_entries_def)
  have ok: "reader_ok (entry_names es) (dp_names dp)" using dp by (simp add: dirs_known_def)
  note got = reader_at_of [OF s(6) fit ok r [unfolded names]]
  have "n = entry_name (e_path (es ! i))"
    using got(1) spelled_of [OF x] by (simp add: names [symmetric])
  then show ?thesis using r got(2) dp by (auto simp: dir_paths_spelled_def dirs_known_def)
qed

lemma dirs_known_of:
  assumes x: "searchable x es seg" "unat d < length (entry_dirs es)" and dp: "dirs_known es dp"
  shows "\<exists>dp'. dir_paths_of seg d dp = Ret (entry_dirs es ! unat d, dp') \<and> dirs_known es dp'"
proof -
  note ds = dirs_of [OF x(1)]
  let ?dp = "if dp_dirs dp = [] then dp\<lparr>dp_dirs := replicate (dir_len (sg_dirs seg)) None\<rparr> else dp"
  have len: "length (dp_dirs ?dp) = length (entry_dirs es)"
    using dp ds(4) by (auto simp: dirs_known_def dir_len_def)
  have known: "dirs_known es ?dp" using dp ds(4) by (auto simp: dirs_known_def dir_len_def)
  have read: "dir_or_empty seg d = Ret (entry_dirs es ! unat d)"
    using x(2) dir_get_view [OF ds(1)] ds(4) by (simp add: dir_or_empty_def)
  show ?thesis
  proof (cases "dp_dirs ?dp ! unat d")
    case None
    let ?new = "?dp\<lparr>dp_dirs := (dp_dirs ?dp)[unat d := Some (entry_dirs es ! unat d)]\<rparr>"
    have "dir_paths_of seg d dp = Ret (entry_dirs es ! unat d, ?new)"
      using x(2) len read None by (simp add: dir_paths_of_def Let_def)
    moreover have "dirs_known es ?new"
    proof -
      have "p = entry_dirs es ! e" if "e < length (dp_dirs ?dp)" "(dp_dirs ?dp)[unat d := Some (entry_dirs es ! unat d)] ! e = Some p" for e p
        using that known by (cases "e = unat d") (simp_all add: dirs_known_def)
      moreover have "reader_ok (entry_names es) (dp_names ?new)" using known by (simp add: dirs_known_def)
      moreover have "length (dp_dirs ?new) = length (entry_dirs es)" using len by simp
      ultimately show ?thesis by (simp add: dirs_known_def)
    qed
    ultimately show ?thesis by blast
  next
    case (Some p)
    then have "p = entry_dirs es ! unat d" using known len x(2) by (auto simp: dirs_known_def)
    then have "dir_paths_of seg d dp = Ret (entry_dirs es ! unat d, ?dp)"
      using x(2) len Some by (simp add: dir_paths_of_def Let_def)
    then show ?thesis using known by blast
  qed
qed

lemma steps_of_dir:
  assumes "searchable x es seg" "unat d < length (entry_dirs es)"
  shows "dir_steps (sg_dirs seg) d = steps_of (entry_dirs es ! unat d)"
  using assms(2) dirs_of(4) [OF assms(1)] by (simp add: dir_steps_def nth_opt_def)

text \<open>The names a key reads: its own, where it reads one.\<close>

definition name_serves :: "outside \<Rightarrow> entry list \<Rightarrow> bytes list \<Rightarrow> sortkey \<Rightarrow> nat \<Rightarrow> bytes \<Rightarrow> bool" where
  "name_serves x es terms sk i name \<longleftrightarrow> name = row_fold x (es ! i)
     \<or> sk \<noteq> SName \<and> sk \<noteq> SExt \<and> (sk = SRelevance \<longrightarrow> terms = [])"

lemma size_value_of:
  assumes "searchable x es seg" "i < length es"
  shows "num_value (size_value seg i folders) dp = Ret (SNum (row_size es folders i), dp)"
  using assms by (simp add: num_value_def size_value_def row_size_def cell_of [OF assms] entry_cell_def)

lemma num_value_of:
  assumes "searchable x es seg" "i < length es"
  shows "num_value (seg_num seg f i) dp
    = Ret (SNum (sint (entry_cell (fold_str x) (dir_number (entry_dirs es) (entry_parent (e_path (es ! i)))) (es ! i) f)), dp)"
  using assms by (simp add: num_value_def cell_of [OF assms])

lemma sort_value_at:
  assumes x: "searchable x es seg" "i < length es" and name: "name_serves x es terms sk i name" and dp: "dirs_known es dp"
  shows "\<exists>dp'. dirs_known es dp' \<and> sort_value_of x seg i name sk terms folders dp = Ret (quick_key x es folders terms sk i, dp')"
proof -
  obtain d where d: "seg_dir_id seg i = Ret d" "unat d < length (entry_dirs es)"
    "entry_dirs es ! unat d = entry_parent (e_path (es ! i))"
    using dir_of [OF x] by metis
  note nums = num_value_of [OF x] size_value_of [OF x]
  show ?thesis
  proof (cases sk)
    case SPath
    obtain dp1 where dp1: "dir_paths_spelled x seg i dp = (entry_name (e_path (es ! i)), dp1)" "dirs_known es dp1"
      using spelled_known [OF x dp] by blast
    obtain dp2 where "dir_paths_of seg d dp1 = Ret (entry_dirs es ! unat d, dp2)" "dirs_known es dp2"
      using dirs_known_of [OF x(1) d(2) dp1(2)] by blast
    then show ?thesis
      using SPath d dp1 row_text(3) [OF x] by (simp add: sort_value_of_def quick_key_def full_key_def joined_path_join)
  next
    case SRelevance
    then have "relevance x name terms s = relevance x (row_fold x (es ! i)) terms s" for s
      using name by (auto simp: name_serves_def relevance_def)
    then show ?thesis
      using SRelevance d dp steps_of_dir [OF x(1) d(2)] by (auto simp: sort_value_of_def quick_key_def full_key_def Let_def)
  next
    case SExt
    then show ?thesis
      using name dp spelled_of [OF x]
      by (auto simp: name_serves_def sort_value_of_def quick_key_def row_ext_def entry_extension_def)
  next
    case SKind
    then show ?thesis
      using nums dp by (auto simp: sort_value_of_def quick_key_def full_key_def entry_cell_def kind_code(2))
  qed (use name dp nums in \<open>auto simp: name_serves_def sort_value_of_def quick_key_def full_key_def entry_cell_def\<close>)
qed

text \<open>A better quick key is a better full key; where it is the whole answer they are one.\<close>

lemma quick_key_exact: "key_is_exact sk \<Longrightarrow> quick_key x es folders terms sk = full_key x es folders terms sk"
  by (auto simp: quick_key_def key_is_exact_def)

lemma quick_better:
  assumes "beats desc (key_is_exact sk) (item (quick_key x es folders terms sk) i) (item (quick_key x es folders terms sk) j)"
    "i < 2 ^ 32" "j < 2 ^ 32"
  shows "before desc (full_key x es folders terms sk) i j"
proof (cases "key_is_exact sk")
  case True
  then show ?thesis
    using assms by (auto simp: beats_def before_def quick_key_exact word_less_nat_alt unat_u32 split: if_splits)
next
  case False
  then have "sk = SName \<or> sk = SExt" by (auto simp: key_is_exact_def)
  then show ?thesis
    using assms(1) False head_less
    by (auto simp: beats_def before_def quick_key_def full_key_def split: if_splits)
qed

lemma covers_rows:
  assumes "holds_page (beats desc (key_is_exact sk)) need (item (quick_key x es folders terms sk) ` H) K" "\<forall>i \<in> H. i < 2 ^ 32"
  shows "holds_page (before desc (full_key x es folders terms sk)) need H ((\<lambda>it. unat (snd it)) ` K)"
proof -
  let ?item = "item (quick_key x es folders terms sk)" and ?row = "\<lambda>it :: keyed. unat (snd it)"
  have sub: "K \<subseteq> ?item ` H" "finite K" using assms(1) by (auto simp: holds_page_def)
  have inv: "?row (?item i) = i" if "i \<in> H" for i using that assms(2) by (simp add: unat_u32)
  then have kept: "\<And>it. it \<in> K \<Longrightarrow> ?row it \<in> H \<and> ?item (?row it) = it" using sub by auto
  have "need \<le> card {j \<in> ?row ` K. before desc (full_key x es folders terms sk) j i}" if i: "i \<in> H" "i \<notin> ?row ` K" for i
  proof -
    have "?item i \<notin> K" using i inv by force
    then have "need \<le> card {it \<in> K. beats desc (key_is_exact sk) it (?item i)}"
      using covers_behind [OF assms(1)] i(1) by blast
    also have "\<dots> = card (?row ` {it \<in> K. beats desc (key_is_exact sk) it (?item i)})"
      by (rule card_image [symmetric], rule inj_onI) (metis (no_types, lifting) kept mem_Collect_eq)
    also have "\<dots> \<le> card {j \<in> ?row ` K. before desc (full_key x es folders terms sk) j i}"
    proof (rule card_mono)
      show "?row ` {it \<in> K. beats desc (key_is_exact sk) it (?item i)} \<subseteq> {j \<in> ?row ` K. before desc (full_key x es folders terms sk) j i}"
        using quick_better kept i(1) assms(2) by (smt (verit) image_iff mem_Collect_eq subsetI)
    qed (use sub(2) in simp)
    finally show ?thesis .
  qed
  then show ?thesis using sub(2) kept by (auto simp: holds_page_def)
qed

section \<open>A search at work\<close>

text \<open>Each order file a segment has is the one written for its rows.\<close>

definition orders_hold :: "outside \<Rightarrow> entry list \<Rightarrow> segment \<Rightarrow> bool" where
  "orders_hold x es seg \<longleftrightarrow>
     (\<forall>po. sg_porder seg = Some po \<longrightarrow> paths_listed es po)
     \<and> (\<forall>no. sg_norder seg = Some no \<longrightarrow> names_listed (folded_bytes (x_unicode x)) es no)
     \<and> (\<forall>eo. sg_eorder seg = Some eo \<longrightarrow> extensions_listed (folded_bytes (x_unicode x)) es eo)"

definition rollups_ok :: "(u32 \<times> i64) list \<Rightarrow> bool" where
  "rollups_ok folders \<longleftrightarrow> sorted_wrt (<) (map fst folders)"

definition searches :: "outside \<Rightarrow> entry list \<Rightarrow> setting \<Rightarrow> plan \<Rightarrow> nat option \<Rightarrow> (nat \<Rightarrow> bool) \<Rightarrow> bool" where
  "searches x es t plan named accepts \<longleftrightarrow> (let seg = st_segment t; want = st_wanted t in
     searchable x es seg \<and> alive_fits es seg \<and> length es < 2 ^ 32 \<and> orders_hold x es seg
     \<and> select_law (st_select t) \<and> needed want < 2 ^ 64 \<and> rollups_ok (st_folders t)
     \<and> st_outside t = x \<and> st_clauses t = pl_clauses plan
     \<and> st_course t = course_of seg plan want (st_veto t \<noteq> None) named
     \<and> clauses_typed x (entry_dirs es) (pl_clauses plan) \<and> narrowed x es seg (pl_clauses plan) (pl_candidates plan)
     \<and> (\<forall>i < length es. accepts_row x seg i (row_fold x (es ! i)) (pl_clauses plan) = Ret (accepts i))
     \<and> sorted (map stored_key es) \<and> (wn_sort want = SPath \<and> wn_descending want \<longrightarrow> distinct (map e_path es)))"

lemma searches_facts:
  assumes "searches x es t plan named accepts"
  shows "searchable x es (st_segment t)" "alive_fits es (st_segment t)" "length es < 2 ^ 32" "orders_hold x es (st_segment t)"
    "select_law (st_select t)" "need_of t < 2 ^ 64" "rollups_ok (st_folders t)"
    "st_outside t = x" "st_clauses t = pl_clauses plan"
    "st_course t = course_of (st_segment t) plan (st_wanted t) (st_veto t \<noteq> None) named"
    "clauses_typed x (entry_dirs es) (pl_clauses plan)"
    "narrowed x es (st_segment t) (pl_clauses plan) (pl_candidates plan)"
    "\<And>i. i < length es \<Longrightarrow> accepts_row x (st_segment t) i (row_fold x (es ! i)) (pl_clauses plan) = Ret (accepts i)"
    "sorted (map stored_key es)"
    "wn_sort (st_wanted t) = SPath \<Longrightarrow> wn_descending (st_wanted t) \<Longrightarrow> distinct (map e_path es)"
  using assms by (simp_all add: searches_def Let_def)

text \<open>The rows to show: live, accepted and not concealed.\<close>

definition shown :: "outside \<Rightarrow> entry list \<Rightarrow> segment \<Rightarrow> veto option \<Rightarrow> (nat \<Rightarrow> bool) \<Rightarrow> nat \<Rightarrow> bool" where
  "shown x es seg conceals accepts i \<longleftrightarrow> is_alive seg i \<and> accepts i
     \<and> (case conceals of Some veto \<Rightarrow> \<not> veto seg i (row_fold x (es ! i)) | None \<Rightarrow> True)"

abbreviation shown_of :: "outside \<Rightarrow> entry list \<Rightarrow> setting \<Rightarrow> (nat \<Rightarrow> bool) \<Rightarrow> nat \<Rightarrow> bool" where
  "shown_of x es t accepts \<equiv> shown x es (st_segment t) (st_veto t) accepts"

lemma accepted_of:
  assumes s: "searches x es t plan named accepts" and i: "i < length es"
    and name: "name = row_fold x (es ! i) \<or> \<not> needs_name (pl_clauses plan) \<and> st_veto t = None"
  shows "accepted t i name = Ret (shown_of x es t accepts i)"
proof -
  have "accepts_row x (st_segment t) i name (pl_clauses plan) = Ret (accepts i)"
    using name nameless_accepts [of "pl_clauses plan" x "st_segment t" i name "row_fold x (es ! i)"] searches_facts(13) [OF s i] by auto
  then show ?thesis
    using name searches_facts(8,9) [OF s] by (auto simp: accepted_def shown_def split: option.splits)
qed

lemma course_names:
  assumes "searches x es t plan named accepts"
  shows "co_by_row (st_course t) \<Longrightarrow> \<not> needs_name (pl_clauses plan) \<and> st_veto t = None"
    "\<not> co_names_read (st_course t) \<Longrightarrow> \<not> needs_name (pl_clauses plan) \<and> st_veto t = None"
  using searches_facts(10) [OF assms] by (simp_all add: course_of_def Let_def)

definition walk_name :: "outside \<Rightarrow> entry list \<Rightarrow> setting \<Rightarrow> nat \<Rightarrow> bytes" where
  "walk_name x es t i = (if co_by_row (st_course t) then [] else row_fold x (es ! i))"

lemma folded_name_of:
  assumes "searchable x es seg" "i < length es"
  shows "arena_get (x_memchr x) (sg_folded seg) i = Some (row_fold x (es ! i))"
proof -
  note s = searchable_facts [OF assms(1)]
  let ?ns = "map (folded_bytes (x_unicode x)) (entry_names es)"
  have "names_fit ?ns" "\<forall>n \<in> set ?ns. utf8_valid n" using s(3) by (simp_all add: entries_fit_def names_text_def)
  then show ?thesis
    using s(4) arena_get_of [OF s(6), of ?ns i] fold_row_of [OF assms] assms(2)
    by (simp add: holds_entries_def from_utf8_def) (simp add: entry_names_def)
qed

lemma stream_name_of:
  assumes "searches x es t plan named accepts" "i < length es"
  shows "stream_name t (as_u32 i) = (if co_names_read (st_course t) then row_fold x (es ! i) else [])"
  using folded_name_of [OF searches_facts(1) [OF assms(1)] assms(2)] searches_facts(3,8) [OF assms(1)] assms(2)
  by (simp add: stream_name_def unat_u32)

lemma walk_gives:
  assumes "searches x es t plan named accepts" "\<forall>i \<in> set rows. i < length es"
  shows "visit_gives t (walk_name x es t) (shown_of x es t accepts) rows"
    "visit_gives t (\<lambda>i. stream_name t (as_u32 i)) (shown_of x es t accepts) rows"
  using assms(2) accepted_of [OF assms(1)] course_names [OF assms(1)] stream_name_of [OF assms(1)]
  by (auto simp: visit_gives_def walk_name_def)

text \<open>Terms to score come from conditions on the name.\<close>

lemma score_terms_need: "score_terms want cs \<noteq> [] \<Longrightarrow> needs_name cs"
proof -
  assume "score_terms want cs \<noteq> []"
  then obtain c where "c \<in> set cs" "score_term c \<noteq> None"
    by (auto simp: score_terms_def List.map_filter_def filter_empty_conv split: if_splits)
  then obtain n where "c \<in> set cs" "plain_test c = Some (TNameHas n)"
    by (auto simp: score_term_def split: option.splits test.splits)
  then show ?thesis
    by (auto simp: needs_name_def list_ex_iff plain_test_def split: list.splits if_splits intro!: bexI [of _ c])
qed

text \<open>How the parts of a course hang together.\<close>

definition forward_sort :: "search_wanted \<Rightarrow> clause list \<Rightarrow> bool" where
  "forward_sort want cs \<longleftrightarrow> wn_sort want = SModified \<and> wn_descending want
     \<or> wn_sort want = SRelevance \<and> score_terms want cs = []"

definition streams_positions :: "course \<Rightarrow> bool" where
  "streams_positions co \<longleftrightarrow> co_path_stream co \<or> co_name_stream co \<or> co_extension_stream co"

lemma course_parts:
  fixes seg :: segment and plan :: plan and want :: search_wanted and vetoed :: bool and named :: "nat option"
  defines "co \<equiv> course_of seg plan want vetoed named"
  shows "co_terms co = score_terms want (pl_clauses plan)" "co_blocks co = blocks_worth_opening seg plan"
    "co_stored co \<longleftrightarrow> forward_sort want (pl_clauses plan) \<or> co_backwards co \<or> streams_positions co"
    "co_by_row co \<longleftrightarrow> \<not> needs_name (pl_clauses plan) \<and> \<not> vetoed
       \<and> \<not> (\<not> forward_sort want (pl_clauses plan) \<and> \<not> streams_positions co
              \<and> (wn_sort want = SName \<or> wn_sort want = SExt \<or> wn_sort want = SPath))"
    "co_backwards co \<longleftrightarrow> wn_sort want = SModified \<and> \<not> wn_descending want \<and> co_by_row co"
    "co_bounded co \<longleftrightarrow> \<not> co_stored co \<and> needed want > 0 \<and> sort_field (wn_sort want) \<noteq> None"
proof -
  show "co_terms co = score_terms want (pl_clauses plan)" "co_blocks co = blocks_worth_opening seg plan"
    unfolding co_def by (simp_all add: course_of_def Let_def)
qed (unfold co_def course_of_def forward_sort_def streams_positions_def Let_def course.simps, (rule refl)+)

lemma walk_keys:
  assumes s: "searches x es t plan named accepts" and rows: "\<forall>i \<in> set rows. i < length es"
    and co: "\<not> co_stored (st_course t)"
  shows "keys_given t es (walk_name x es t)
    (quick_key x es (st_folders t) (co_terms (st_course t)) (wn_sort (st_wanted t))) rows"
proof -
  note c = course_parts [of "st_segment t" plan "st_wanted t" "st_veto t \<noteq> None" named, folded searches_facts(10) [OF s]]
  have "name_serves x es (co_terms (st_course t)) (wn_sort (st_wanted t)) i (walk_name x es t i)" for i
  proof (cases "co_by_row (st_course t)")
    case True
    then have "wn_sort (st_wanted t) \<notin> {SName, SExt, SPath}" using co c(3,4) by blast
    moreover have "co_terms (st_course t) = []"
      using True c(1,4) score_terms_need [of "st_wanted t" "pl_clauses plan"] by auto
    ultimately show ?thesis by (simp add: name_serves_def)
  qed (simp add: name_serves_def walk_name_def)
  then show ?thesis
    using sort_value_at [OF searches_facts(1) [OF s]] rows searches_facts(8) [OF s] by (simp add: keys_given_def)
qed

section \<open>The blocks walked\<close>

definition rows_in :: "nat \<Rightarrow> u32 list \<Rightarrow> nat list" where
  "rows_in n bs = concat (map (\<lambda>b. block_rows n (unat b)) bs)"

lemma rows_in_simps [simp]: "rows_in n [] = []" "rows_in n (b # bs) = block_rows n (unat b) @ rows_in n bs"
  "rows_in n (as @ bs) = rows_in n as @ rows_in n bs"
  by (simp_all add: rows_in_def)

lemma rows_in_set: "i \<in> set (rows_in n bs) \<longleftrightarrow> i < n \<and> (\<exists>b \<in> set bs. i div BLOCK = unat b)"
  by (auto simp: rows_in_def block_rows_block)

lemma rows_in_distinct: "distinct bs \<Longrightarrow> distinct (rows_in n bs)"
proof (induction bs)
  case (Cons b bs)
  have "i \<notin> set (rows_in n bs)" if "i \<in> set (block_rows n (unat b))" for i
    using that Cons.prems by (auto simp: block_rows_block rows_in_set simp flip: word_unat_eq_iff)
  then show ?case using Cons by (auto simp: block_rows_def)
qed simp

lemma course_blocks:
  assumes s: "searches x es t plan named accepts"
  shows "sorted_wrt (<) (co_blocks (st_course t))"
    "filter (shown_of x es t accepts) (rows_in (length es) (co_blocks (st_course t)))
      = filter (shown_of x es t accepts) [0 ..< length es]"
proof -
  note f = searches_facts [OF s]
  have bs: "co_blocks (st_course t) = blocks_worth_opening (st_segment t) \<lparr>pl_clauses = pl_clauses plan, pl_candidates = pl_candidates plan\<rparr>"
    by (cases plan) (simp add: f(10) course_of_def Let_def)
  have hit: "is_alive (st_segment t) i \<and> accepts_row x (st_segment t) i (row_fold x (es ! i)) (pl_clauses plan) = Ret True"
    if "i < length es" "shown_of x es t accepts i" for i
    using that f(13) by (simp add: shown_def)
  note w = worth_opening_hits [where hit = "shown_of x es t accepts", OF f(1-3,11,12) hit]
  show "sorted_wrt (<) (co_blocks (st_course t))" unfolding bs by (rule w(1))
  show "filter (shown_of x es t accepts) (rows_in (length es) (co_blocks (st_course t)))
      = filter (shown_of x es t accepts) [0 ..< length es]"
    unfolding bs rows_in_def by (rule w(2))
qed

lemma walk_rows_of:
  assumes s: "searches x es t plan named accepts" and to: "to \<le> length es" and rv: "rv \<longrightarrow> co_by_row (st_course t)"
  shows "walk_rows t from to rv w
    = visit_all (visit t) (named_rows (walk_name x es t) (if rv then rev [from ..< to] else [from ..< to])) w"
proof (cases "co_by_row (st_course t)")
  case False
  note f = searchable_facts [OF searches_facts(1) [OF s]]
  let ?ns = "map (folded_bytes (x_unicode x)) (entry_names es)"
  have "names_fit ?ns" using f(3) by (simp add: entries_fit_def names_text_def)
  then have "walk_rows t from to rv w = run_while (visit_named (visit t)) (map (\<lambda>i. (i, ?ns ! i)) [from ..< to]) (Ret (w, True))"
    using walk_range_of [OF f(6), of ?ns "from" "to"] f(4) to False searches_facts(8) [OF s]
    by (simp add: walk_rows_def holds_entries_def min_absorb1)
  also have "map (\<lambda>i. (i, ?ns ! i)) [from ..< to] = named_rows (walk_name x es t) [from ..< to]"
    using to fold_row_of [OF searches_facts(1) [OF s]] False by (simp add: entry_names_def walk_name_def)
  finally show ?thesis using False rv by (simp add: visit_named_all)
qed (auto simp: walk_rows_def walk_name_def)

lemma seg_rows_searches: "searches x es t plan named accepts \<Longrightarrow> seg_rows (st_segment t) = length es"
  using seg_rows_of searches_facts(1) by blast

lemma walk_block_of:
  assumes s: "searches x es t plan named accepts"
  shows "walk_block t b w = visit_all (visit t) (named_rows (walk_name x es t) (block_rows (length es) (unat b))) w"
  using walk_rows_of [OF s, of "min ((unat b + 1) * BLOCK) (length es)" False "unat b * BLOCK" w]
  by (simp add: walk_block_def seg_rows_searches [OF s] block_rows_def add.commute)

lemma walk_runs_of:
  assumes s: "searches x es t plan named accepts" and bs: "sorted_wrt (<) bs" and rv: "rv \<longrightarrow> co_by_row (st_course t)"
  shows "walk_runs t ((if rv then rev else (\<lambda>rs. rs)) (runs_of bs (length es))) rv w
    = visit_all (visit t) (named_rows (walk_name x es t) ((if rv then rev else (\<lambda>rs. rs)) (rows_in (length es) bs))) w"
proof -
  let ?flip = "if rv then rev else (\<lambda>rs. rs)" and ?runs = "runs_of bs (length es)"
  let ?range = "\<lambda>from to. if rv then rev [from ..< to] else [from ..< (to :: nat)]"
  note r = runs_of_rows [OF bs, of "length es"]
  have "walk_rows t from to rv w = visit_all (visit t) (named_rows (walk_name x es t) (?range from to)) w"
    if "(from, to) \<in> set (?flip ?runs)" for "from" to w
    using r that walk_rows_of [OF s _ rv] by (cases rv) auto
  then have "walk_runs t (?flip ?runs) rv w
      = visit_all (visit t) (concat (map (\<lambda>(from, to). named_rows (walk_name x es t) (?range from to)) (?flip ?runs))) w"
    unfolding walk_runs_def by (rule over_runs_visits)
  also have "concat (map (\<lambda>(from, to). named_rows (walk_name x es t) (?range from to)) (?flip ?runs))
      = named_rows (walk_name x es t) (concat (map (\<lambda>(from, to). ?range from to) (?flip ?runs)))"
    by (simp add: map_concat case_prod_beta' comp_def)
  also have "concat (map (\<lambda>(from, to). ?range from to) (?flip ?runs)) = ?flip (rows_in (length es) bs)"
  proof -
    have "concat (map (\<lambda>(from, to). rev [from ..< to]) (rev ?runs)) = rev (concat (map (\<lambda>(from, to). [from ..< to]) ?runs))"
      by (simp add: rev_concat rev_map case_prod_beta' comp_def)
    then show ?thesis using r by (simp add: rows_in_def)
  qed
  finally show ?thesis .
qed

section \<open>What a way through must leave\<close>

abbreviation keys_of :: "outside \<Rightarrow> entry list \<Rightarrow> setting \<Rightarrow> nat \<Rightarrow> sort_value" where
  "keys_of x es t \<equiv> quick_key x es (st_folders t) (co_terms (st_course t)) (wn_sort (st_wanted t))"

abbreviation full_of :: "outside \<Rightarrow> entry list \<Rightarrow> setting \<Rightarrow> nat \<Rightarrow> sort_value" where
  "full_of x es t \<equiv> full_key x es (st_folders t) (co_terms (st_course t)) (wn_sort (st_wanted t))"

abbreviation order_of :: "outside \<Rightarrow> entry list \<Rightarrow> setting \<Rightarrow> nat \<Rightarrow> nat \<Rightarrow> bool" where
  "order_of x es t \<equiv> before (wn_descending (st_wanted t)) (full_of x es t)"

definition all_shown :: "outside \<Rightarrow> entry list \<Rightarrow> setting \<Rightarrow> (nat \<Rightarrow> bool) \<Rightarrow> nat list" where
  "all_shown x es t accepts = filter (shown_of x es t accepts) [0 ..< length es]"

definition total_right :: "setting \<Rightarrow> nat \<Rightarrow> walk_state \<Rightarrow> bool" where
  "total_right t n w \<longleftrightarrow> min (wk_counted w) (cap_of t) = min n (cap_of t) \<and> (cap_of t \<le> wk_counted w \<longleftrightarrow> cap_of t \<le> n)"

definition walked_well :: "outside \<Rightarrow> entry list \<Rightarrow> setting \<Rightarrow> (nat \<Rightarrow> bool) \<Rightarrow> walk_state \<Rightarrow> bool" where
  "walked_well x es t accepts w \<longleftrightarrow> total_right t (length (all_shown x es t accepts)) w \<and> dirs_known es (wk_dirs w)
     \<and> (if co_stored (st_course t)
        then \<exists>rows. wk_kept w = map as_u32 rows \<and> distinct rows
          \<and> (co_backwards (st_course t) \<or> sorted_wrt (order_of x es t) rows)
          \<and> holds_page (order_of x es t) (need_of t) (set (all_shown x es t accepts)) (set rows)
        else distinct (map snd (wk_keyed w))
          \<and> holds_page (better_of t) (need_of t) (item (keys_of x es t) ` set (all_shown x es t accepts)) (set (wk_keyed w)))"

lemma all_shown_less: "i \<in> set (all_shown x es t accepts) \<Longrightarrow> i < length es"
  by (simp add: all_shown_def)

lemma shown_length:
  assumes "distinct rows" "set (filter hit rows) = set (filter hit [0 ..< n])"
  shows "length (filter hit rows) = length (filter hit [0 ..< n])"
  using assms by (metis distinct_card distinct_filter distinct_upt)

lemma sorted_covers:
  assumes "sorted_wrt better rows" "distinct rows"
  shows "holds_page better need (set rows) (set (take need rows))"
proof -
  have "need \<le> card {j \<in> set (take need rows). better j i}" if i: "i \<in> set rows" "i \<notin> set (take need rows)" for i
  proof -
    have "set rows = set (take need rows) \<union> set (drop need rows)" by (metis append_take_drop_id set_append)
    then have d: "i \<in> set (drop need rows)" using i by blast
    have "sorted_wrt better (take need rows @ drop need rows)" using assms(1) by simp
    then have "\<forall>j \<in> set (take need rows). better j i" using d unfolding sorted_wrt_append by blast
    then have "{j \<in> set (take need rows). better j i} = set (take need rows)" by blast
    moreover have "need \<le> length rows" using d by (cases "need \<le> length rows") auto
    ultimately show ?thesis using assms(2) by (simp add: distinct_card)
  qed
  then show ?thesis by (auto simp: holds_page_def dest: in_set_takeD)
qed

lemma start_known [simp]: "dirs_known es (wk_dirs (walk_start want))"
  by (simp add: walk_start_def dirs_known_def dir_paths_default_def reader_default_ok)

lemma stored_walk:
  assumes co: "co_stored (st_course t)" "\<not> co_backwards (st_course t)"
    and g: "visit_gives t nm (shown_of x es t accepts) rows" and d: "distinct rows"
    and srt: "sorted_wrt (order_of x es t) (filter (shown_of x es t accepts) rows)"
    and all: "set (filter (shown_of x es t accepts) rows) = set (all_shown x es t accepts)"
  shows "\<exists>w go. visit_all (visit t) (named_rows nm rows) (walk_start (st_wanted t)) = Ret (w, go) \<and> walked_well x es t accepts w"
proof -
  let ?F = "filter (shown_of x es t accepts) rows"
  have "stored_kept t [] (walk_start (st_wanted t))" by (simp add: stored_kept_def walk_start_def)
  from visits_stored [OF co g this]
  obtain w go seen rest where w: "visit_all (visit t) (named_rows nm rows) (walk_start (st_wanted t)) = Ret (w, go)"
    "?F = seen @ rest" "stored_kept t seen w" "stopped_well t seen rest" "wk_dirs w = wk_dirs (walk_start (st_wanted t))"
    by auto
  note page = stored_page [OF w(3,4), folded w(2)]
  have "length ?F = length (all_shown x es t accepts)"
    unfolding all_shown_def by (rule shown_length [OF d all [unfolded all_shown_def]])
  moreover have "holds_page (order_of x es t) (need_of t) (set ?F) (set (take (need_of t) ?F))"
    using srt d by (intro sorted_covers) simp_all
  moreover have "distinct (take (need_of t) ?F)" "sorted_wrt (order_of x es t) (take (need_of t) ?F)" using d srt by simp_all
  ultimately have "walked_well x es t accepts w"
    unfolding walked_well_def total_right_def using page co w(5) all by auto
  then show ?thesis using w(1) by blast
qed

section \<open>Along a stored order\<close>

lemma u32_rows: "n < 2 ^ 32 \<Longrightarrow> r \<in> set (map as_u32 [0 ..< n]) \<Longrightarrow> unat r < n \<and> as_u32 (unat r) = r"
  using map_u32_rows by blast

text \<open>A list of all rows in the order asked for, streamed.\<close>

lemma stream_walk:
  assumes s: "searches x es t plan named accepts" and co: "co_stored (st_course t)" "\<not> co_backwards (st_course t)"
    and L: "set L = set (map as_u32 [0 ..< length es])" "distinct L" "sorted_wrt (before (wn_descending (st_wanted t)) f) L"
    and f: "\<And>i. i < length es \<Longrightarrow> full_of x es t i = SText (f (as_u32 i))"
    and r: "streams_as t tries L (walk_start (st_wanted t)) r"
  shows "(r = Ret None \<and> tries < length es) \<or> (\<exists>w k go. r = Ret (Some (w, k, go)) \<and> walked_well x es t accepts w)"
proof -
  note n = searches_facts(3) [OF s]
  let ?rows = "map unat L"
  have home: "as_u32 (unat r) = r" "unat r < length es" if "r \<in> set L" for r using u32_rows [OF n] that L(1) by auto
  have rows: "set ?rows = {0 ..< length es}"
  proof
    show "{0 ..< length es} \<subseteq> set ?rows"
    proof
      fix i assume "i \<in> {0 ..< length es}"
      then have "as_u32 i \<in> set L" "unat (as_u32 i) = i" using L(1) n by (auto simp: unat_u32)
      then show "i \<in> set ?rows" by force
    qed
  qed (use home(2) in auto)
  have dist: "distinct ?rows" using L(2) by (simp add: distinct_map inj_on_def flip: word_unat_eq_iff)
  have len: "length L = length es" using distinct_card [OF dist] rows by simp
  have full: "full_of x es t (unat r) = SText (f r)" if "r \<in> set L" for r
    using f [OF home(2) [OF that]] home(1) [OF that] by simp
  have "sorted_wrt (\<lambda>a b. order_of x es t (unat a) (unat b)) L"
    by (rule sorted_wrt_mono_rel [OF _ L(3)]) (auto simp: before_def full word_less_nat_alt split: if_splits)
  then have srt: "sorted_wrt (order_of x es t) ?rows" by (simp add: sorted_wrt_map)
  have "\<exists>w go. visit_all (visit t) (named_rows (\<lambda>i. stream_name t (as_u32 i)) ?rows) (walk_start (st_wanted t)) = Ret (w, go)
      \<and> walked_well x es t accepts w"
    by (rule stored_walk [OF co walk_gives(2) [OF s]]) (use rows dist srt sorted_wrt_filter in \<open>auto simp: all_shown_def\<close>)
  moreover have "streamed t L = named_rows (\<lambda>i. stream_name t (as_u32 i)) ?rows" using home(1) by simp
  ultimately obtain w go where w: "visit_all (visit t) (streamed t L) (walk_start (st_wanted t)) = Ret (w, go)"
    "walked_well x es t accepts w" by auto
  then show ?thesis using r len unfolding streams_as_def by auto
qed

lemma course_stream:
  assumes "searches x es t plan named accepts"
    "streams_positions (st_course t)"
  shows "co_stored (st_course t)" "\<not> co_backwards (st_course t)" "0 < need_of t"
  using assms(2) searches_facts(10) [OF assms(1)] by (auto simp: streams_positions_def course_of_def Let_def)

lemma grouped_walk:
  fixes tries :: nat
  assumes s: "searches x es t plan named accepts" and co: "co_stored (st_course t)" "\<not> co_backwards (st_course t)"
    and l: "lists_rows p (length es) f order"
    and f: "\<And>i. i < length es \<Longrightarrow> full_of x es t i = SText (f (as_u32 i))"
  defines "r \<equiv> if wn_descending (st_wanted t) then stream_groups t p (no_rows p) (walk_start (st_wanted t)) tries
      else stream_rows t (name_order_at p) [0 ..< no_rows p] (walk_start (st_wanted t)) tries"
  shows "(r = Ret None \<and> tries < length es) \<or> (\<exists>w k go. r = Ret (Some (w, k, go)) \<and> walked_well x es t accepts w)"
proof (cases "wn_descending (st_wanted t)")
  note n = searches_facts(3) [OF s]
  have p: "no_rows p = length es" "order = row_order (length es) f" "\<forall>i < length es. name_order_at p i = Some (order ! i)"
    using l by (simp_all add: lists_rows_def)
  note o = row_order_facts [OF n, of f, folded p(2)]
  case True
  obtain rows where rows: "set rows = set order" "length rows = length es" "sorted_wrt (before True f) rows"
    "\<forall>w tries. streams_as t tries rows w (stream_groups t p (length es) w tries)"
    using stream_groups_visits [OF l n order_refl, of t] o(1) unfolding take_all [OF eq_refl [OF o(1)]] by blast
  have "card (set rows) = length rows" using rows(1,2) distinct_card [OF o(2)] o(1) by simp
  then have "distinct rows" by (rule card_distinct)
  then show ?thesis
    using stream_walk [OF s co _ _ _ f] rows o(3) True p(1) unfolding r_def by simp
next
  note n = searches_facts(3) [OF s]
  have p: "no_rows p = length es" "order = row_order (length es) f" "\<forall>i < length es. name_order_at p i = Some (order ! i)"
    using l by (simp_all add: lists_rows_def)
  note o = row_order_facts [OF n, of f, folded p(2)]
  case False
  have "streams_as t tries (map ((!) order) [0 ..< length es]) (walk_start (st_wanted t))
      (stream_rows t (name_order_at p) [0 ..< length es] (walk_start (st_wanted t)) tries)"
    by (rule stream_visits) (use p(3) in simp)
  moreover have "map ((!) order) [0 ..< length es] = order" using o(1) map_nth [of order] by simp
  ultimately have "streams_as t tries order (walk_start (st_wanted t)) r"
    using p(1) False unfolding r_def by simp
  moreover have "sorted_wrt (before False f) order" using o(4) by (simp add: before_ascending)
  ultimately show ?thesis using stream_walk [OF s co o(3,2) _ f] False by simp
qed

lemma path_walk:
  fixes tries :: nat
  assumes s: "searches x es t plan named accepts" and co: "co_stored (st_course t)" "\<not> co_backwards (st_course t)"
    and p: "paths_listed es p" and sk: "wn_sort (st_wanted t) = SPath"
  defines "r \<equiv> stream_rows t (path_order_at p) (if wn_descending (st_wanted t) then rev [0 ..< po_rows p] else [0 ..< po_rows p])
      (walk_start (st_wanted t)) tries"
  shows "(r = Ret None \<and> tries < length es) \<or> (\<exists>w k go. r = Ret (Some (w, k, go)) \<and> walked_well x es t accepts w)"
proof -
  note n = searches_facts(3) [OF s]
  let ?f = "entry_spelled_path es" and ?desc = "wn_descending (st_wanted t)"
  obtain order where o: "po_rows p = length es" "length order = length es" "\<forall>i < length es. path_order_at p i = Some (order ! i)"
    "distinct order" "set order = set (map as_u32 [0 ..< length es])" "sorted_wrt (row_before ?f) order"
    using p by (auto simp: paths_listed_def)
  have path: "?f (as_u32 i) = e_path (es ! i)" if "i < length es" for i
    using row_text(3) [OF searches_facts(1) [OF s] that] that n by (simp add: entry_spelled_path_def unat_u32)
  have f: "full_of x es t i = SText (?f (as_u32 i))" if "i < length es" for i
    using path [OF that] sk by (simp add: full_key_def)
  let ?L = "if ?desc then rev order else order" and ?is = "if ?desc then rev [0 ..< po_rows p] else [0 ..< po_rows p]"
  have "map ((!) order) [0 ..< length es] = order" using o(2) map_nth [of order] by simp
  then have "map ((!) order) ?is = ?L" using o(1) by (simp add: rev_map [symmetric])
  moreover have "streams_as t tries (map ((!) order) ?is) (walk_start (st_wanted t)) r"
    unfolding r_def by (rule stream_visits) (use o(1,3) in \<open>auto split: if_splits\<close>)
  moreover have "sorted_wrt (before ?desc ?f) ?L"
  proof (cases ?desc)
    case True
    have "before True ?f b a" if ab: "a \<in> set order" "b \<in> set order" "row_before ?f a b" for a b
    proof -
      have u: "unat a < length es" "as_u32 (unat a) = a" "unat b < length es" "as_u32 (unat b) = b"
        using u32_rows [OF n] ab(1,2) o(5) by auto
      have "a \<noteq> b" using ab(3) by (auto simp: row_before_def)
      then have "unat a \<noteq> unat b" using u(2,4) by metis
      then have "e_path (es ! unat a) \<noteq> e_path (es ! unat b)"
        using searches_facts(15) [OF s sk True] u by (simp add: distinct_conv_nth)
      then have "?f a \<noteq> ?f b" using path u by metis
      then show ?thesis using ab(3) by (auto simp: row_before_def before_def)
    qed
    then have "sorted_wrt (\<lambda>a b. before True ?f b a) order"
      by (intro sorted_wrt_mono_rel [OF _ o(6)])
    then show ?thesis using True by (simp add: sorted_wrt_rev)
  qed (use o(6) in \<open>simp add: before_ascending\<close>)
  ultimately show ?thesis
    using stream_walk [OF s co _ _ _ f, of ?L] o(4,5) by (cases ?desc) auto
qed

lemma positions_walk:
  fixes tries :: nat
  assumes s: "searches x es t plan named accepts"
    and co: "streams_positions (st_course t)"
  defines "r \<equiv> stream_positions t (walk_start (st_wanted t)) tries"
  shows "(r = Ret None \<and> tries < length es) \<or> (\<exists>w k go. r = Ret (Some (w, k, go)) \<and> walked_well x es t accepts w)"
proof -
  note f = searches_facts [OF s] and c = course_stream [OF s co]
  note o = f(4) [unfolded orders_hold_def]
  have nm: "row_fold x (es ! i) = map (folded_bytes (x_unicode x)) (entry_names es) ! unat (as_u32 i)"
    "entry_name (e_path (es ! i)) = entry_names es ! unat (as_u32 i)" if "i < length es" for i
    using that f(3) fold_row_of [OF f(1)] by (simp_all add: unat_u32 entry_names_def)
  consider (name) p where "co_name_stream (st_course t)" "wn_sort (st_wanted t) = SName" "sg_norder (st_segment t) = Some p"
    | (ext) p where "\<not> co_name_stream (st_course t)" "co_extension_stream (st_course t)" "wn_sort (st_wanted t) = SExt"
      "sg_eorder (st_segment t) = Some p"
    | (path) p where "\<not> co_name_stream (st_course t)" "\<not> co_extension_stream (st_course t)" "wn_sort (st_wanted t) = SPath"
      "sg_porder (st_segment t) = Some p"
    using co f(10) by (auto simp: streams_positions_def course_of_def Let_def whole_order_def)
  then show ?thesis
  proof cases
    case name
    then obtain order where l: "lists_rows p (length es) (\<lambda>row. map (folded_bytes (x_unicode x)) (entry_names es) ! unat row) order"
      using o by (auto simp: names_listed_def)
    show ?thesis
      using grouped_walk [OF s c(1,2) l, of tries] name nm
      by (simp add: r_def stream_positions_def full_key_def Let_def)
  next
    case ext
    then obtain order where l: "lists_rows p (length es)
        (\<lambda>row. folded_extension (entry_names es ! unat row) (map (folded_bytes (x_unicode x)) (entry_names es) ! unat row)) order"
      using o by (auto simp: extensions_listed_def)
    show ?thesis
      using grouped_walk [OF s c(1,2) l, of tries] ext nm
      by (simp add: r_def stream_positions_def full_key_def entry_extension_def Let_def)
  next
    case path
    then show ?thesis
      using path_walk [OF s c(1,2), of p tries] o by (simp add: r_def stream_positions_def Let_def)
  qed
qed

section \<open>Backwards and forwards along the rows\<close>

lemma stored_dates:
  assumes "searches x es t plan named accepts" "i \<le> j" "j < length es"
  shows "sint (m_mtime (e_meta (es ! j))) \<le> sint (m_mtime (e_meta (es ! i)))"
proof -
  have "stored_key (es ! i) \<le> stored_key (es ! j)"
    using sorted_nth_mono [OF searches_facts(14) [OF assms(1)], of i j] assms(2,3) by simp
  then show ?thesis by (auto simp: stored_key_def less_eq_prod_def)
qed

lemma all_shown_sorted: "sorted_wrt (<) (all_shown x es t accepts)"
  unfolding all_shown_def by (rule sorted_wrt_filter) simp

text \<open>Forwards: the stored order is the order asked for.\<close>

lemma forward_walk:
  assumes s: "searches x es t plan named accepts" and co: "co_stored (st_course t)" "\<not> co_backwards (st_course t)"
    "\<not> streams_positions (st_course t)"
  shows "\<exists>w go. visit_all (visit t) (named_rows (walk_name x es t) (rows_in (length es) (co_blocks (st_course t)))) (walk_start (st_wanted t))
      = Ret (w, go) \<and> walked_well x es t accepts w"
proof (rule stored_walk [OF co(1,2)])
  let ?bs = "co_blocks (st_course t)"
  have F: "filter (shown_of x es t accepts) (rows_in (length es) ?bs) = all_shown x es t accepts"
    using course_blocks(2) [OF s] by (simp add: all_shown_def)
  show "visit_gives t (walk_name x es t) (shown_of x es t accepts) (rows_in (length es) ?bs)"
    by (rule walk_gives(1) [OF s]) (simp add: rows_in_set)
  show "distinct (rows_in (length es) ?bs)"
    using course_blocks(1) [OF s] by (intro rows_in_distinct) (simp add: strict_sorted_iff)
  show "set (filter (shown_of x es t accepts) (rows_in (length es) ?bs)) = set (all_shown x es t accepts)" unfolding F ..
  note c = course_parts [of "st_segment t" plan "st_wanted t" "st_veto t \<noteq> None" named, folded searches_facts(10) [OF s]]
  have "wn_sort (st_wanted t) = SModified \<and> wn_descending (st_wanted t)
      \<or> wn_sort (st_wanted t) = SRelevance \<and> co_terms (st_course t) = []"
    using co c(1,3) by (auto simp: forward_sort_def)
  then have "order_of x es t i j" if "i < j" "j < length es" for i j
    using that stored_dates [OF s, of i j] by (auto simp: before_def full_key_def relevance_def)
  then show "sorted_wrt (order_of x es t) (filter (shown_of x es t accepts) (rows_in (length es) ?bs))"
    unfolding F by (intro sorted_wrt_mono_rel [OF _ all_shown_sorted]) (auto dest: all_shown_less)
qed

text \<open>Backwards: oldest first, and of the last date every row.\<close>

lemma dated_covers:
  assumes srt: "sorted_wrt (\<lambda>i j. sint (when i :: i64) \<le> sint (when j)) rows" and d: "distinct rows"
    and better: "\<And>i j. sint (when i) < sint (when j) \<Longrightarrow> better i j"
  shows "holds_page better need (set rows) (set (dated_page need when rows))"
proof (cases "need = 0")
  case False
  have "need \<le> card {j \<in> set (dated_page need when rows). better j i}"
    if i: "i \<in> set rows" "i \<notin> set (dated_page need when rows)" for i
  proof -
    have "set rows = set (take need rows) \<union> set (drop need rows)" by (metis append_take_drop_id set_append)
    then have tail: "i \<in> set (drop need rows)" "when i \<noteq> when (rows ! (need - 1))"
      using i False by (auto simp: dated_page_def)
    then have len: "need < length rows" by (cases "need < length rows") auto
    have both: "sorted_wrt (\<lambda>i j. sint (when i) \<le> sint (when j)) (take need rows @ drop need rows)" using srt by simp
    have last: "rows ! (need - 1) \<in> set (take need rows)" using False len nth_mem [of "need - 1" "take need rows"] by simp
    then have "sint (when (rows ! (need - 1))) \<le> sint (when i)" using both tail(1) unfolding sorted_wrt_append by blast
    moreover have "sint (when (rows ! (need - 1))) \<noteq> sint (when i)" using tail(2) signed_word_eqI by metis
    moreover have "sint (when j) \<le> sint (when (rows ! (need - 1)))" if j: "j \<in> set (take need rows)" for j
    proof -
      obtain k where "k < length (take need rows)" "take need rows ! k = j" using j unfolding in_set_conv_nth by blast
      then have "k < need" "j = rows ! k" by simp_all
      then show ?thesis using sorted_wrt_nth_less [OF srt, of k "need - 1"] len False by (cases "k = need - 1") auto
    qed
    ultimately have "\<forall>j \<in> set (take need rows). better j i" using better by force
    then have "set (take need rows) \<subseteq> {j \<in> set (dated_page need when rows). better j i}" by (auto simp: dated_page_def)
    then have "card (set (take need rows)) \<le> card {j \<in> set (dated_page need when rows). better j i}" by (intro card_mono) simp_all
    then show ?thesis using d len by (simp add: distinct_card)
  qed
  then show ?thesis by (auto simp: holds_page_def dated_page_def dest: in_set_takeD in_set_dropD)
qed (simp add: dated_page_def covers_none)

lemma dated_distinct: "distinct rows \<Longrightarrow> distinct (dated_page need when rows)"
  using set_take_disj_set_drop_if_distinct [of rows need need] by (auto simp: dated_page_def)

lemma backwards_walk:
  assumes s: "searches x es t plan named accepts" and co: "co_backwards (st_course t)" "co_stored (st_course t)"
  shows "\<exists>w go. visit_all (visit t) (named_rows (walk_name x es t) (rev (rows_in (length es) (co_blocks (st_course t)))))
      (walk_start (st_wanted t)) = Ret (w, go) \<and> walked_well x es t accepts w"
proof -
  let ?rows = "rev (rows_in (length es) (co_blocks (st_course t)))" and ?when = "\<lambda>i. m_mtime (e_meta (es ! i))"
  let ?F = "filter (shown_of x es t accepts) ?rows"
  have F: "?F = rev (all_shown x es t accepts)" using course_blocks(2) [OF s] by (simp add: all_shown_def rev_filter [symmetric])
  have g: "visit_gives t (walk_name x es t) (shown_of x es t accepts) ?rows"
    by (rule walk_gives(1) [OF s]) (simp add: rows_in_set)
  have date: "\<forall>i \<in> set ?rows. seg_num (st_segment t) Mtime i = Ret (?when i)"
    using cell_of [OF searches_facts(1) [OF s]] by (simp add: rows_in_set entry_cell_def)
  have d: "distinct ?F" using F all_shown_sorted [of x es t accepts] by (simp add: strict_sorted_iff)
  have srt: "sorted_wrt (\<lambda>i j. sint (?when i) \<le> sint (?when j)) ?F"
    unfolding F sorted_wrt_rev
    by (rule sorted_wrt_mono_rel [OF _ all_shown_sorted]) (use stored_dates [OF s] all_shown_less in \<open>auto intro: less_imp_le\<close>)
  have start: "backwards_kept t ?when [] (walk_start (st_wanted t))"
    by (auto simp: backwards_kept_def walk_start_def dated_page_def)
  have "sorted_wrt (\<lambda>i j. sint (?when i) \<le> sint (?when j)) ([] @ ?F)" using srt by simp
  from visits_backwards [OF co(1) g date this start]
  obtain w go seen rest where w: "visit_all (visit t) (named_rows (walk_name x es t) ?rows) (walk_start (st_wanted t)) = Ret (w, go)"
    "?F = seen @ rest" "backwards_kept t ?when seen w" "stopped_well t seen rest" "wk_dirs w = wk_dirs (walk_start (st_wanted t))"
    "dated_page (need_of t) ?when (seen @ rest) = dated_page (need_of t) ?when seen"
    by auto
  have "wn_sort (st_wanted t) = SModified" "\<not> wn_descending (st_wanted t)"
    using co(1) searches_facts(10) [OF s] by (auto simp: course_of_def Let_def)
  then have "holds_page (order_of x es t) (need_of t) (set ?F) (set (dated_page (need_of t) ?when ?F))"
    by (intro dated_covers [OF srt d]) (simp add: before_def full_key_def)
  moreover have "wk_kept w = map as_u32 (dated_page (need_of t) ?when ?F)"
    using w(2,3,6) by (simp add: backwards_kept_def)
  moreover have "total_right t (length (all_shown x es t accepts)) w"
    using w(3,4) arg_cong [OF F, of length] w(2) by (cases "rest = []") (auto simp: total_right_def backwards_kept_def stopped_well_def)
  moreover have "set ?F = set (all_shown x es t accepts)" using F by simp
  ultimately have "walked_well x es t accepts w"
    unfolding walked_well_def using co w(5) dated_distinct [OF d] by auto
  then show ?thesis using w(1) by blast
qed

end
