(* ===== verification/Bounded.thy ===== *)
theory Bounded
  imports Ranked
begin

text \<open>
  Best block first.  No row of a block is better than the block's reach; when a block is out of
  reach so are all after it, and what is left unopened is behind the page.
\<close>

section \<open>How far a block reaches\<close>

definition reaches :: "nat \<Rightarrow> (nat \<Rightarrow> sort_value) \<Rightarrow> bool \<Rightarrow> int \<times> u32 \<Rightarrow> bool" where
  "reaches n key desc p \<longleftrightarrow>
     (\<forall>i < n. i div BLOCK = unat (snd p) \<longrightarrow> (\<exists>v. key i = SNum v \<and> fst p \<le> zone_key v desc))"

lemma zone_key_le: "zone_key v desc \<le> zone_key w desc \<longleftrightarrow> (if desc then w \<le> v else v \<le> w)"
  by (cases desc) (simp_all add: zone_key_def, linarith)

lemma zone_key_better: "zone_key v desc < zone_key w desc \<Longrightarrow> beats desc True (SNum v, a) (SNum w, b)"
  by (simp add: zone_key_def beats_def less_sort_value_def split: if_splits)

lemma zone_key_inj: "zone_key v desc = zone_key w desc \<longleftrightarrow> v = w"
  by (simp add: zone_key_def)

text \<open>The reach over the rollups takes in each of them and where it started.\<close>

lemma fold_reach_max:
  "m \<le> foldl (\<lambda>reach (_, v). max reach (sint v)) m (fs :: (u32 \<times> i64) list)
    \<and> (\<forall>(r, v) \<in> set fs. sint v \<le> foldl (\<lambda>reach (_, v). max reach (sint v)) m fs)"
proof (induction fs arbitrary: m)
  case (Cons p fs)
  obtain r v where p: "p = (r, v)" by fastforce
  show ?case using Cons.IH [of "max m (sint v)"] by (auto simp: p)
qed simp

lemma fold_reach_min:
  "foldl (\<lambda>reach (_, v). min reach (sint v)) m (fs :: (u32 \<times> i64) list) \<le> m
    \<and> (\<forall>(r, v) \<in> set fs. foldl (\<lambda>reach (_, v). min reach (sint v)) m fs \<le> sint v)"
proof (induction fs arbitrary: m)
  case (Cons p fs)
  obtain r v where p: "p = (r, v)" by fastforce
  show ?case using Cons.IH [of "min m (sint v)"] by (auto simp: p)
qed simp

lemma rollups_below:
  "sorted_wrt (<) (map fst fs) \<Longrightarrow> (r, v) \<in> set fs \<Longrightarrow> unat (r :: u32) < to \<Longrightarrow> (r, v) \<in> set (takeWhile (\<lambda>(r, _). unat r < to) fs)"
  by (induction fs) (auto simp: word_less_nat_alt)

lemma block_reach_bounds:
  "zone_key (block_reach desc start fs to) desc \<le> zone_key (sint start) desc"
  "sorted_wrt (<) (map fst fs) \<Longrightarrow> (r, v) \<in> set fs \<Longrightarrow> unat r < to \<Longrightarrow>
    zone_key (block_reach desc start fs to) desc \<le> zone_key (sint v) desc"
  using fold_reach_max [of "sint start" "takeWhile (\<lambda>(r, _). unat r < to) fs"]
    fold_reach_min [of "sint start" "takeWhile (\<lambda>(r, _). unat r < to) fs"] rollups_below [of fs r v to]
  by (auto simp: block_reach_def zone_key_le)

section \<open>What a numeric order reads\<close>

lemma sort_field_cell:
  assumes "sort_field sk = Some f" "sk \<noteq> SSize"
  shows "full_key x es folders terms sk i = SNum (sint (entry_cell (fold_str x) d (es ! i) f))"
  using assms by (cases sk) (auto simp: full_key_def entry_cell_def kind_code(2))

lemma sort_field_exact: "sort_field sk = Some f \<Longrightarrow> key_is_exact sk"
  by (cases sk) (simp_all add: key_is_exact_def)

lemma sort_field_number: "sort_field sk = Some f \<Longrightarrow> \<exists>v. full_key x es folders terms sk i = SNum v"
  by (cases sk) (simp_all add: full_key_def)

text \<open>A size is the row's own, or that of a rollup of the row.\<close>

lemma row_size_cases:
  obtains "row_size es folders i = sint (m_size (e_meta (es ! i)))"
    | v where "(as_u32 i, v) \<in> set folders" "folders \<noteq> []" "row_size es folders i = sint v"
proof (cases "\<not> e_is_dir (es ! i) \<or> rollup_of folders (as_u32 i) = None")
  case True
  then show thesis using that(1) by (auto simp: row_size_def split: option.split)
next
  case False
  then obtain p where p: "find (\<lambda>(r, _). r = as_u32 i) folders = Some p" by (auto simp: rollup_of_def)
  then have "p \<in> set folders" "fst p = as_u32 i" by (auto simp: find_Some_iff in_set_conv_nth)
  then have "(as_u32 i, snd p) \<in> set folders" by (metis prod.collapse)
  moreover from this have "folders \<noteq> []" by auto
  ultimately show thesis using that(2) [of "snd p"] False p by (simp add: row_size_def rollup_of_def)
qed

lemma zone_loop_blocks: "map snd (zone_loop seg f desc rollups fs bs) = bs"
  by (induction bs arbitrary: fs) (auto simp: Let_def split: prod.splits)

lemma zone_loop_reaches:
  fixes folders :: "(u32 \<times> i64) list"
  assumes x: "searchable x es seg" "length es < 2 ^ 32" and f: "sort_field sk = Some f"
  defines "rollups \<equiv> f = field.Size \<and> folders \<noteq> []"
  shows "sorted_wrt (<) bs \<Longrightarrow> sorted_wrt (<) (map fst fs) \<Longrightarrow>
    (\<forall>(r, v) \<in> set folders. (\<exists>b \<in> set bs. unat r div BLOCK = unat b) \<longrightarrow> (r, v) \<in> set fs) \<Longrightarrow>
    \<forall>p \<in> set (zone_loop seg f desc rollups fs bs). reaches (length es) (full_key x es folders terms sk) desc p"
proof (induction bs arbitrary: fs)
  case (Cons b bs)
  let ?from = "unat b * BLOCK"
  define fs' where "fs' = (if rollups then dropWhile (\<lambda>(r, _). unat r < ?from) fs else fs)"
  define range where "range = (case block_range (sg_cols seg) f (unat b) of
      Some r \<Rightarrow> r | None \<Rightarrow> (word_of_int (- (2 ^ 63)), word_of_int (2 ^ 63 - 1)))"
  define start where "start = (if desc then snd range else fst range)"
  define reach where "reach = (if rollups then block_reach desc start fs' (?from + BLOCK) else sint start)"
  have loop: "zone_loop seg f desc rollups fs (b # bs) = (zone_key reach desc, b) # zone_loop seg f desc rollups fs' bs"
    unfolding zone_loop.simps Let_def range_def [symmetric] case_prod_beta fs'_def reach_def start_def ..
  have srt: "sorted_wrt (<) (map fst fs')"
    using Cons.prems(2) by (simp add: fs'_def sorted_wrt_map sorted_wrt_dropWhile)
  have kept: "(r, v) \<in> set fs'" if rv: "(r, v) \<in> set folders" "\<exists>c \<in> set (b # bs). unat r div BLOCK = unat c" for r v
  proof (cases rollups)
    case True
    have mem: "(r, v) \<in> set fs" using Cons.prems(3) rv by blast
    obtain c where c: "c \<in> set (b # bs)" "unat r div BLOCK = unat c" using rv(2) by blast
    then have "unat b \<le> unat r div BLOCK" using Cons.prems(1) by (auto simp: word_less_nat_alt)
    then have "\<not> unat r < ?from" by linarith
    moreover have "set fs = set (takeWhile (\<lambda>(r, _). unat r < ?from) fs) \<union> set fs'"
      using True by (metis fs'_def set_append takeWhile_dropWhile_id)
    ultimately show ?thesis using mem by (auto dest: set_takeWhileD)
  qed (use Cons.prems(3) rv in \<open>auto simp: fs'_def\<close>)
  have "reaches (length es) (full_key x es folders terms sk) desc (zone_key reach desc, b)"
    unfolding reaches_def snd_conv fst_conv
  proof (intro allI impI)
    fix i assume i: "i < length es" "i div BLOCK = unat b"
    let ?d = "dir_number (entry_dirs es) (entry_parent (e_path (es ! i)))"
    let ?own = "sint (entry_cell (fold_str x) ?d (es ! i) f)"
    have own: "zone_key (sint start) desc \<le> zone_key ?own desc"
      using i(2) by (rule_tac zone_of [OF x(1) i(1), of f]) (simp add: start_def range_def zone_key_le)
    have from_start: "zone_key reach desc \<le> zone_key (sint start) desc"
      using block_reach_bounds(1) by (simp add: reach_def)
    show "\<exists>v. full_key x es folders terms sk i = SNum v \<and> zone_key reach desc \<le> zone_key v desc"
    proof (cases "sk = SSize")
      case False
      then show ?thesis using sort_field_cell [OF f, of x es folders terms i ?d] own from_start by simp
    next
      case True
      then have size: "full_key x es folders terms sk i = SNum (row_size es folders i)" "f = field.Size"
        using f by (simp_all add: full_key_def)
      show ?thesis
      proof (cases rule: row_size_cases [of es folders i])
        case 1
        then show ?thesis using size own from_start by (simp add: entry_cell_def)
      next
        case (2 v)
        have u: "unat (as_u32 i) = i" using i(1) x(2) by (simp add: unat_u32)
        then have "(as_u32 i, v) \<in> set fs'" using kept [OF 2(1)] i(2) by simp
        moreover have "i < ?from + BLOCK" using i(2) by linarith
        ultimately have "zone_key reach desc \<le> zone_key (sint v) desc"
          using block_reach_bounds(2) [OF srt] u 2(2) size(2) by (simp add: reach_def rollups_def)
        then show ?thesis using size(1) 2(3) by simp
      qed
    qed
  qed
  moreover have "\<forall>p \<in> set (zone_loop seg f desc rollups fs' bs). reaches (length es) (full_key x es folders terms sk) desc p"
    by (rule Cons.IH) (use Cons.prems(1) srt kept in auto)
  ultimately show ?case unfolding loop by simp
qed simp

lemma zone_order_facts:
  assumes x: "searchable x es seg" "length es < 2 ^ 32" and f: "sort_field sk = Some f" and fs: "rollups_ok folders"
    and bs: "sorted_wrt (<) bs"
  shows "sorted (zone_order seg f desc bs folders)" "mset (map snd (zone_order seg f desc bs folders)) = mset bs"
    "\<forall>p \<in> set (zone_order seg f desc bs folders). reaches (length es) (full_key x es folders terms sk) desc p"
proof -
  let ?loop = "zone_loop seg f desc (f = field.Size \<and> folders \<noteq> []) folders bs"
  show "sorted (zone_order seg f desc bs folders)" by (simp add: zone_order_def)
  have "mset (map snd (zone_order seg f desc bs folders)) = image_mset snd (mset ?loop)" by (simp add: zone_order_def)
  also have "\<dots> = mset bs" using zone_loop_blocks [of seg f desc _ folders bs] by (metis mset_map)
  finally show "mset (map snd (zone_order seg f desc bs folders)) = mset bs" .
  have "\<forall>p \<in> set ?loop. reaches (length es) (full_key x es folders terms sk) desc p"
    by (rule zone_loop_reaches [OF x f bs]) (use fs in \<open>auto simp: rollups_ok_def\<close>)
  then show "\<forall>p \<in> set (zone_order seg f desc bs folders). reaches (length es) (full_key x es folders terms sk) desc p"
    by (simp add: zone_order_def)
qed

section \<open>Opening blocks\<close>

lemma pages_beaten_each:
  assumes "holds_page (beats desc precise) need all held"
    "\<forall>i \<in> new. \<exists>b. page_bar (beats desc precise) need held b \<and> beats desc precise b i"
  shows "holds_page (beats desc precise) need (all \<union> new) held"
proof -
  have "need \<le> card {j \<in> held. beats desc precise j i}" if i: "i \<in> new" "i \<notin> held" for i
  proof -
    obtain b where b: "page_bar (beats desc precise) need held b" "beats desc precise b i" using assms(2) i(1) by blast
    have "holds_page (beats desc precise) need (all \<union> {i}) held"
      by (rule pages.covers_beaten [OF assms(1) b(1)]) (use b(2) in simp)
    then show ?thesis using i by (simp add: holds_page_def)
  qed
  then show ?thesis using assms(1) by (auto simp: holds_page_def)
qed

abbreviation hits_in :: "outside \<Rightarrow> entry list \<Rightarrow> setting \<Rightarrow> (nat \<Rightarrow> bool) \<Rightarrow> u32 list \<Rightarrow> nat list" where
  "hits_in x es t accepts bs \<equiv> filter (shown_of x es t accepts) (rows_in (length es) bs)"

definition opened ::
  "outside \<Rightarrow> entry list \<Rightarrow> setting \<Rightarrow> (nat \<Rightarrow> bool) \<Rightarrow> u32 list \<Rightarrow> nat set \<Rightarrow> walk_state \<Rightarrow> walk_state \<Rightarrow> u32 list \<Rightarrow> bool" where
  "opened x es t accepts bs seen w w' left \<longleftrightarrow> (\<exists>op. mset bs = mset (op @ left)
     \<and> keyed_kept t es (keys_of x es t) (seen \<union> set (hits_in x es t accepts op)) w'
     \<and> wk_counted w' = wk_counted w + length (hits_in x es t accepts op) \<and> \<not> wk_closed w'
     \<and> (\<forall>i \<in> set (hits_in x es t accepts left). \<exists>b. page_bar (better_of t) (need_of t) (set (wk_keyed w')) b
          \<and> better_of t b (item (keys_of x es t) i)))"

definition bounded_search :: "outside \<Rightarrow> entry list \<Rightarrow> setting \<Rightarrow> plan \<Rightarrow> nat option \<Rightarrow> (nat \<Rightarrow> bool) \<Rightarrow> field \<Rightarrow> bool" where
  "bounded_search x es t plan named accepts f \<longleftrightarrow> searches x es t plan named accepts \<and> co_bounded (st_course t)
     \<and> sort_field (wn_sort (st_wanted t)) = Some f"

lemma bounded_facts:
  assumes "bounded_search x es t plan named accepts f"
  shows "searches x es t plan named accepts" "\<not> co_stored (st_course t)" "\<not> co_backwards (st_course t)"
    "co_bounded (st_course t)" "sort_field (wn_sort (st_wanted t)) = Some f"
    "numbers_if_bounded t (keys_of x es t)" "keys_of x es t = full_of x es t" "key_is_exact (wn_sort (st_wanted t))"
proof -
  show s: "searches x es t plan named accepts" "co_bounded (st_course t)" "sort_field (wn_sort (st_wanted t)) = Some f"
    using assms by (simp_all add: bounded_search_def)
  note c = course_parts [of "st_segment t" plan "st_wanted t" "st_veto t \<noteq> None" named, folded searches_facts(10) [OF s(1)]]
  show "\<not> co_stored (st_course t)" "\<not> co_backwards (st_course t)" using s(2) c(3,6) by blast+
  show "key_is_exact (wn_sort (st_wanted t))" using sort_field_exact [OF s(3)] .
  then show k: "keys_of x es t = full_of x es t" by (rule quick_key_exact)
  show "numbers_if_bounded t (keys_of x es t)" unfolding k numbers_if_bounded_def using sort_field_number [OF s(3)] by blast
qed

lemma block_keyed:
  assumes b: "bounded_search x es t plan named accepts f"
    and w: "keyed_kept t es (keys_of x es t) seen w" "\<not> wk_closed w"
    and seen: "set (block_rows (length es) (unat c)) \<inter> seen = {}" "\<forall>i \<in> seen. i < length es"
  shows "\<exists>w'. walk_block t c w = Ret (w', True) \<and> keyed_kept t es (keys_of x es t) (seen \<union> set (hits_in x es t accepts [c])) w'
    \<and> wk_counted w' = wk_counted w + length (hits_in x es t accepts [c]) \<and> \<not> wk_closed w'"
proof -
  note f = bounded_facts [OF b] and s = searches_facts [OF bounded_facts(1) [OF b]]
  let ?rows = "block_rows (length es) (unat c)"
  have rows: "\<forall>i \<in> set ?rows. i < length es" by (simp add: block_rows_block)
  have "distinct ?rows" by (simp add: block_rows_def)
  moreover have "\<forall>i \<in> set ?rows \<union> seen. i < 2 ^ 32" using rows seen(2) s(3) by force
  ultimately show ?thesis
    using visits_keyed [OF s(5) f(6) s(6) f(2,3) walk_gives(1) [OF f(1) rows] walk_keys [OF f(1) rows f(2)], of seen w] seen(1) w
    unfolding walk_block_of [OF f(1)] by simp
qed

lemma opened_stop:
  "keyed_kept t es (keys_of x es t) seen w \<Longrightarrow> \<not> wk_closed w \<Longrightarrow>
    (\<And>i. i \<in> set (hits_in x es t accepts bs) \<Longrightarrow> \<exists>b. page_bar (better_of t) (need_of t) (set (wk_keyed w)) b
       \<and> better_of t b (item (keys_of x es t) i)) \<Longrightarrow> opened x es t accepts bs seen w w bs"
  unfolding opened_def by (intro exI [of _ "[]"]) simp

lemma opened_step:
  assumes "wk_counted w1 = wk_counted w + length (hits_in x es t accepts [c])"
    "opened x es t accepts bs (seen \<union> set (hits_in x es t accepts [c])) w1 w' left"
  shows "opened x es t accepts (c # bs) seen w w' left"
proof -
  obtain op where "mset bs = mset (op @ left)"
    "keyed_kept t es (keys_of x es t) (seen \<union> set (hits_in x es t accepts [c]) \<union> set (hits_in x es t accepts op)) w'"
    "wk_counted w' = wk_counted w1 + length (hits_in x es t accepts op)" "\<not> wk_closed w'"
    "\<forall>i \<in> set (hits_in x es t accepts left). \<exists>b. page_bar (better_of t) (need_of t) (set (wk_keyed w')) b
        \<and> better_of t b (item (keys_of x es t) i)"
    using assms(2) unfolding opened_def by blast
  then show ?thesis
    using assms(1) unfolding opened_def by (intro exI [of _ "c # op"]) (simp add: Un_assoc)
qed

text \<open>A block out of reach, and those after it.\<close>

lemma out_of_reach_later: "out_of_reach worst r b \<Longrightarrow> (r, b) \<le> (r', b') \<Longrightarrow> out_of_reach worst r' b'"
  by (auto simp: out_of_reach_def less_eq_prod_def word_le_nat_alt split: option.splits)

lemma out_of_reach_beats:
  assumes "out_of_reach (Some (zone_key k desc, at)) reach c" "reaches n key desc (reach, c)" "i < n" "n < 2 ^ 32" "i div BLOCK = unat c"
  shows "beats desc True (SNum k, at) (item key i)"
proof -
  obtain v where v: "key i = SNum v" "reach \<le> zone_key v desc" using assms(2,3,5) by (auto simp: reaches_def)
  show ?thesis
  proof (cases "zone_key k desc < zone_key v desc")
    case False
    then have "zone_key k desc = zone_key v desc" "unat at < unat c * BLOCK"
      using assms(1) v(2) by (auto simp: out_of_reach_def)
    moreover have "unat c * BLOCK \<le> i" using assms(5) by (metis div_times_less_eq_dividend)
    ultimately show ?thesis using v(1) assms(3,4) by (simp add: zone_key_inj beats_def word_less_nat_alt unat_u32)
  qed (simp add: v(1) zone_key_better)
qed

lemma open_ordered_of:
  assumes b: "bounded_search x es t plan named accepts f"
  shows "sorted order \<Longrightarrow> \<forall>p \<in> set order. reaches (length es) (keys_of x es t) (wn_descending (st_wanted t)) p \<Longrightarrow>
    distinct (map snd order) \<Longrightarrow> set (rows_in (length es) (map snd order)) \<inter> seen = {} \<Longrightarrow> \<forall>i \<in> seen. i < length es \<Longrightarrow>
    keyed_kept t es (keys_of x es t) seen w \<Longrightarrow> \<not> wk_closed w \<Longrightarrow>
    \<exists>w' left. open_ordered t order w = Ret (w', False, left) \<and> opened x es t accepts (map snd order) seen w w' left"
proof (induction order arbitrary: seen w)
  case Nil
  then show ?case using opened_stop [of t es x seen w accepts "[]"] by simp
next
  case (Cons p order)
  note n = searches_facts(3) [OF bounded_facts(1) [OF b]] and precise = bounded_facts(8) [OF b]
  let ?desc = "wn_descending (st_wanted t)"
  obtain reach c where p: "p = (reach, c)" by fastforce
  show ?case
  proof (cases "out_of_reach (wk_worst w) reach c")
    case True
    then obtain k at where k: "wk_worst w = Some (zone_key k ?desc, at)"
      "page_bar (better_of t) (need_of t) (set (wk_keyed w)) (SNum k, at)"
      using Cons.prems(6) by (auto simp: out_of_reach_def keyed_kept_def split: option.splits)
    have "better_of t (SNum k, at) (item (keys_of x es t) i)" if i: "i \<in> set (hits_in x es t accepts (map snd (p # order)))" for i
    proof -
      obtain d where d: "d \<in> snd ` set (p # order)" "i div BLOCK = unat d" "i < length es"
        using i [unfolded set_filter mem_Collect_eq rows_in_set set_map] by blast
      then obtain q where q: "q \<in> set (p # order)" "i div BLOCK = unat (snd q)" "i < length es" by blast
      have "p \<le> q" using Cons.prems(1) q(1) by auto
      then have "out_of_reach (Some (zone_key k ?desc, at)) (fst q) (snd q)"
        using out_of_reach_later [of "wk_worst w" reach c "fst q" "snd q"] True k(1) p by simp
      moreover have "reaches (length es) (keys_of x es t) ?desc (fst q, snd q)"
        using Cons.prems(2) q(1) unfolding prod.collapse by blast
      ultimately show ?thesis unfolding precise [THEN eqTrueI] using q(2,3) n by (intro out_of_reach_beats)
    qed
    then have "opened x es t accepts (map snd (p # order)) seen w w (map snd (p # order))"
      using k(2) Cons.prems(6,7) by (intro opened_stop) blast+
    then show ?thesis using True by (simp add: p)
  next
    case False
    have rows: "set (block_rows (length es) (unat c)) \<inter> seen = {}" using Cons.prems(4) p by auto
    obtain w1 where w1: "walk_block t c w = Ret (w1, True)"
      "keyed_kept t es (keys_of x es t) (seen \<union> set (hits_in x es t accepts [c])) w1"
      "wk_counted w1 = wk_counted w + length (hits_in x es t accepts [c])" "\<not> wk_closed w1"
      using block_keyed [OF b Cons.prems(6,7) rows Cons.prems(5)] by blast
    have "c \<notin> snd ` set order" using Cons.prems(3) p by simp
    then have "set (rows_in (length es) (map snd order)) \<inter> set (block_rows (length es) (unat c)) = {}"
      by (auto simp: rows_in_set block_rows_block simp flip: word_unat_eq_iff)
    then have apart: "set (rows_in (length es) (map snd order)) \<inter> (seen \<union> set (hits_in x es t accepts [c])) = {}"
      using Cons.prems(4) by auto
    have "\<forall>i \<in> seen \<union> set (hits_in x es t accepts [c]). i < length es" using Cons.prems(5) by (auto simp: block_rows_block)
    then obtain w' left where "open_ordered t order w1 = Ret (w', False, left)"
      "opened x es t accepts (map snd order) (seen \<union> set (hits_in x es t accepts [c])) w1 w' left"
      using Cons.IH [OF _ _ _ apart _ w1(2,4)] Cons.prems(1-3) by auto
    then show ?thesis using False w1(1) opened_step [OF w1(3)] by (auto simp: p)
  qed
qed

lemma open_blocks_of:
  assumes b: "bounded_search x es t plan named accepts f"
  shows "sorted_wrt (<) bs \<Longrightarrow> set (rows_in (length es) bs) \<inter> seen = {} \<Longrightarrow> \<forall>i \<in> seen. i < length es \<Longrightarrow>
    keyed_kept t es (keys_of x es t) seen w \<Longrightarrow> \<not> wk_closed w \<Longrightarrow>
    \<exists>w' left. open_blocks t f bs w = Ret (w', False, left) \<and> opened x es t accepts bs seen w w' left"
proof (induction bs arbitrary: seen w)
  case Nil
  then show ?case using opened_stop [of t es x seen w accepts "[]"] by simp
next
  case (Cons c bs)
  note fa = bounded_facts [OF b] and s = searches_facts [OF bounded_facts(1) [OF b]]
  show ?case
  proof (cases "wk_worst w = None")
    case False
    define order where "order = zone_order (st_segment t) f (wn_descending (st_wanted t)) (c # bs) (st_folders t)"
    note o = zone_order_facts(1,2) [OF s(1,3) fa(5) s(7) Cons.prems(1), where desc = "wn_descending (st_wanted t)", folded order_def]
      zone_order_facts(3) [OF s(1,3) fa(5) s(7) Cons.prems(1), where desc = "wn_descending (st_wanted t)"
        and terms = "co_terms (st_course t)", folded order_def fa(7)]
    have set: "set (map snd order) = set (c # bs)" using o(2) by (metis set_mset_mset)
    have d: "distinct (map snd order)"
      using mset_eq_imp_distinct_iff [OF o(2)] Cons.prems(1) strict_sorted_iff by blast
    have "set (rows_in (length es) (map snd order)) = set (rows_in (length es) (c # bs))"
      using set by (auto simp only: rows_in_set)
    then have "set (rows_in (length es) (map snd order)) \<inter> seen = {}" using Cons.prems(2) by simp
    from open_ordered_of [OF b o(1) _ d this Cons.prems(3-5)] o(3)
    obtain w' left where r: "open_ordered t order w = Ret (w', False, left)" "opened x es t accepts (map snd order) seen w w' left"
      by auto
    from r(2) have "opened x es t accepts (c # bs) seen w w' left" unfolding opened_def o(2) .
    then show ?thesis using r(1) False by (simp add: order_def)
  next
    case True
    have rows: "set (block_rows (length es) (unat c)) \<inter> seen = {}" using Cons.prems(2) by auto
    obtain w1 where w1: "walk_block t c w = Ret (w1, True)"
      "keyed_kept t es (keys_of x es t) (seen \<union> set (hits_in x es t accepts [c])) w1"
      "wk_counted w1 = wk_counted w + length (hits_in x es t accepts [c])" "\<not> wk_closed w1"
      using block_keyed [OF b Cons.prems(4,5) rows Cons.prems(3)] by blast
    have "c \<notin> set bs" using Cons.prems(1) by auto
    then have "set (rows_in (length es) bs) \<inter> set (block_rows (length es) (unat c)) = {}"
      by (auto simp: rows_in_set block_rows_block simp flip: word_unat_eq_iff)
    then have apart: "set (rows_in (length es) bs) \<inter> (seen \<union> set (hits_in x es t accepts [c])) = {}"
      using Cons.prems(2) by auto
    have "\<forall>i \<in> seen \<union> set (hits_in x es t accepts [c]). i < length es" using Cons.prems(3) by (auto simp: block_rows_block)
    then obtain w' left where "open_blocks t f bs w1 = Ret (w', False, left)"
      "opened x es t accepts bs (seen \<union> set (hits_in x es t accepts [c])) w1 w' left"
      using Cons.IH [OF _ apart _ w1(2,4)] Cons.prems(1) by auto
    then show ?thesis using True w1(1) opened_step [OF w1(3)] by auto
  qed
qed

section \<open>The bounded walk\<close>

lemma mset_rows_in: "mset as = mset bs \<Longrightarrow> mset (rows_in n as) = mset (rows_in n bs)"
proof -
  have "mset (rows_in n cs) = (\<Sum>c \<in># mset cs. mset (block_rows n (unat c)))" for cs by (induction cs) simp_all
  then show "mset as = mset bs \<Longrightarrow> mset (rows_in n as) = mset (rows_in n bs)" by simp
qed

lemma bounded_walk:
  assumes b: "bounded_search x es t plan named accepts f"
  shows "\<exists>w skipped. walk_bounded t f (walk_start (st_wanted t)) = Ret (w, skipped) \<and> walked_well x es t accepts w"
proof -
  note fa = bounded_facts [OF b] and s = searches_facts [OF bounded_facts(1) [OF b]]
  let ?bs = "co_blocks (st_course t)" and ?all = "all_shown x es t accepts"
  note cb = course_blocks [OF fa(1)]
  have start: "keyed_kept t es (keys_of x es t) {} (walk_start (st_wanted t))" "\<not> wk_closed (walk_start (st_wanted t))"
    using keyed_kept_start s(6) by (simp_all add: walk_start_def)
  obtain w left where w: "open_blocks t f ?bs (walk_start (st_wanted t)) = Ret (w, False, left)"
    "opened x es t accepts ?bs {} (walk_start (st_wanted t)) w left"
    using open_blocks_of [OF b cb(1) _ _ start] by auto
  obtain op where op: "mset ?bs = mset (op @ left)" "keyed_kept t es (keys_of x es t) (set (hits_in x es t accepts op)) w"
    "wk_counted w = length (hits_in x es t accepts op)"
    "\<forall>i \<in> set (hits_in x es t accepts left). \<exists>b. page_bar (better_of t) (need_of t) (set (wk_keyed w)) b
        \<and> better_of t b (item (keys_of x es t) i)"
    using w(2) by (auto simp: opened_def walk_start_def)
  have parts: "mset ?all = mset (hits_in x es t accepts op) + mset (hits_in x es t accepts left)"
    using mset_rows_in [OF op(1), of "length es"] arg_cong [OF cb(2), of mset] by (simp add: all_shown_def)
  then have len: "length ?all = length (hits_in x es t accepts op) + length (hits_in x es t accepts left)"
    by (metis size_mset size_union)
  have set: "set ?all = set (hits_in x es t accepts op) \<union> set (hits_in x es t accepts left)"
    using parts by (metis set_mset_mset set_mset_union)
  have "holds_page (better_of t) (need_of t) (item (keys_of x es t) ` set (hits_in x es t accepts op)
      \<union> item (keys_of x es t) ` set (hits_in x es t accepts left)) (set (wk_keyed w))"
    by (rule pages_beaten_each) (use op(2,4) in \<open>auto simp: keyed_kept_def\<close>)
  then have page: "holds_page (better_of t) (need_of t) (item (keys_of x es t) ` set ?all) (set (wk_keyed w))"
    by (simp add: set image_Un)
  have ready: "walked_well x es t accepts v" if "wk_keyed v = wk_keyed w" "wk_dirs v = wk_dirs w" "total_right t (length ?all) v" for v
    using that op(2) page fa(2) by (simp add: walked_well_def keyed_kept_def)
  show ?thesis
  proof (cases "wk_counted w < cap_of t")
    case True
    have "distinct left"
      using mset_eq_imp_distinct_iff [OF op(1)] cb(1) strict_sorted_iff by auto
    then have left: "sorted_wrt (<) (sort left)" by (simp add: strict_sorted_iff)
    have rows: "\<forall>i \<in> set (rows_in (length es) (sort left)). i < length es" by (simp add: rows_in_set)
    obtain v go where v: "visit_all (visit t) (named_rows (walk_name x es t) (rows_in (length es) (sort left))) (w\<lparr>wk_closed := True\<rparr>) = Ret (v, go)"
      "wk_keyed v = wk_keyed w" "wk_dirs v = wk_dirs w"
      "min (wk_counted v) (cap_of t) = min (wk_counted w + length (hits_in x es t accepts (sort left))) (cap_of t)"
      "cap_of t \<le> wk_counted v \<longleftrightarrow> cap_of t \<le> wk_counted w + length (hits_in x es t accepts (sort left))"
      using visits_closed [OF fa(2,3) walk_gives(1) [OF fa(1) rows], of "w\<lparr>wk_closed := True\<rparr>"] by auto
    have "mset (hits_in x es t accepts (sort left)) = mset (hits_in x es t accepts left)"
      using mset_rows_in [of "sort left" left "length es"] by simp
    then have "length (hits_in x es t accepts (sort left)) = length (hits_in x es t accepts left)" by (rule mset_eq_length)
    then have "total_right t (length ?all) v" using v(4,5) op(3) len by (simp add: total_right_def)
    moreover have "walk_runs t (runs_of (sort left) (length es)) False (w\<lparr>wk_closed := True\<rparr>) = Ret (v, go)"
      using walk_runs_of [OF fa(1) left, of False] v(1) by simp
    ultimately show ?thesis
      using w(1) True ready [OF v(2,3)]
      by (intro exI [of _ v] exI [of _ False]) (simp add: walk_bounded_def seg_rows_searches [OF fa(1)])
  next
    case False
    then have "total_right t (length ?all) w" using op(3) len by (simp add: total_right_def)
    then show ?thesis using w(1) False ready [of w] by (simp add: walk_bounded_def)
  qed
qed

end
