(* ===== verification/Found.thy ===== *)
theory Found
  imports Bounded
begin

text \<open>
  What \<open>run_with\<close> answers.  Whichever way the walk went, it holds every row the page needs, so
  the rows handed to a merge cut the same page as all rows do, and the hits of one segment are
  those of the brute-force search of \<open>crates/scour-mock/src/reference.rs\<close>.
\<close>

section \<open>The ways together\<close>

text \<open>A text order, or a score: every row is keyed.\<close>

lemma keyed_walk:
  assumes s: "searches x es t plan named accepts" and co: "\<not> co_stored (st_course t)" "\<not> co_backwards (st_course t)"
    "\<not> co_bounded (st_course t)"
  shows "\<exists>w go. visit_all (visit t) (named_rows (walk_name x es t) (rows_in (length es) (co_blocks (st_course t)))) (walk_start (st_wanted t))
      = Ret (w, go) \<and> walked_well x es t accepts w"
proof -
  let ?rows = "rows_in (length es) (co_blocks (st_course t))"
  note f = searches_facts [OF s] and cb = course_blocks [OF s]
  have num: "numbers_if_bounded t (keys_of x es t)" using co(3) by (simp add: numbers_if_bounded_def)
  have rows: "\<forall>i \<in> set ?rows. i < length es" by (simp add: rows_in_set)
  have start: "keyed_kept t es (keys_of x es t) {} (walk_start (st_wanted t))" "\<not> wk_closed (walk_start (st_wanted t))"
    using keyed_kept_start f(6) by (simp_all add: walk_start_def)
  have "distinct ?rows" using cb(1) by (intro rows_in_distinct) (simp add: strict_sorted_iff)
  moreover have "\<forall>i \<in> set ?rows \<union> {}. i < 2 ^ 32" using rows f(3) by force
  ultimately obtain w where w: "visit_all (visit t) (named_rows (walk_name x es t) ?rows) (walk_start (st_wanted t)) = Ret (w, True)"
    "keyed_kept t es (keys_of x es t) (set (filter (shown_of x es t accepts) ?rows)) w"
    "wk_counted w = wk_counted (walk_start (st_wanted t)) + length (filter (shown_of x es t accepts) ?rows)"
    using visits_keyed [OF f(5) num f(6) co(1,2) walk_gives(1) [OF s rows] walk_keys [OF s rows co(1)], of "{}" "walk_start (st_wanted t)"]
      start by auto
  moreover have "filter (shown_of x es t accepts) ?rows = all_shown x es t accepts" using cb(2) by (simp add: all_shown_def)
  ultimately have "walked_well x es t accepts w"
    using co(1) by (simp add: walked_well_def total_right_def keyed_kept_def walk_start_def)
  then show ?thesis using w(1) by blast
qed

lemma walk_through_of:
  assumes s: "searches x es t plan named accepts"
  shows "(walk_through t (walk_start (st_wanted t)) tries = Ret None \<and> tries < length es)
    \<or> (\<exists>w skipped. walk_through t (walk_start (st_wanted t)) tries = Ret (Some (w, skipped)) \<and> walked_well x es t accepts w)"
proof (cases "streams_positions (st_course t)")
  case True
  then have "walk_through t (walk_start (st_wanted t)) tries
      = bind_run (stream_positions t (walk_start (st_wanted t)) tries) (\<lambda>r. Ret (map_option (\<lambda>(w, _). (w, False)) r))"
    by (auto simp: walk_through_def streams_positions_def)
  then show ?thesis using positions_walk [OF s True, of tries] by auto
next
  case no_stream: False
  let ?co = "st_course t" and ?bs = "co_blocks (st_course t)"
  note c = course_parts [of "st_segment t" plan "st_wanted t" "st_veto t \<noteq> None" named, folded searches_facts(10) [OF s]]
  note rows = seg_rows_searches [OF s] and blocks = course_blocks(1) [OF s]
  consider (bounded) f where "co_bounded ?co" "sort_field (wn_sort (st_wanted t)) = Some f"
    | (backwards) "co_backwards ?co" "co_stored ?co" "co_by_row ?co" "\<not> co_bounded ?co"
    | (forward) "co_stored ?co" "\<not> co_backwards ?co" "\<not> co_bounded ?co"
    | (keyed) "\<not> co_stored ?co" "\<not> co_backwards ?co" "\<not> co_bounded ?co"
    using c(3,5,6) by blast
  then show ?thesis
  proof cases
    case bounded
    then have "bounded_search x es t plan named accepts f" using s by (simp add: bounded_search_def)
    then obtain w skipped where "walk_bounded t f (walk_start (st_wanted t)) = Ret (w, skipped)" "walked_well x es t accepts w"
      using bounded_walk by blast
    then show ?thesis using bounded no_stream by (auto simp: walk_through_def streams_positions_def)
  next
    case backwards
    then show ?thesis
      using backwards_walk [OF s backwards(1,2)] walk_runs_of [OF s blocks, of True] no_stream
      by (auto simp: walk_through_def streams_positions_def rows)
  next
    case forward
    then show ?thesis
      using forward_walk [OF s forward(1,2) no_stream] walk_runs_of [OF s blocks, of False] no_stream
      by (auto simp: walk_through_def streams_positions_def rows)
  next
    case keyed
    then show ?thesis
      using keyed_walk [OF s keyed] walk_runs_of [OF s blocks, of False] no_stream
      by (auto simp: walk_through_def streams_positions_def rows)
  qed
qed

section \<open>The rows handed over\<close>

definition handed :: "setting \<Rightarrow> walk_state \<Rightarrow> keyed list run" where
  "handed t w =
     (if co_stored (st_course t) then key_rows_of t (wk_kept w) (wk_dirs w)
      else Ret (narrow_keyed (st_select t) (wk_keyed w) (need_of t) (wn_descending (st_wanted t)) (key_is_exact (wn_sort (st_wanted t)))))"

text \<open>The names the stored orders read serve their keys.\<close>

lemma stored_names:
  assumes s: "searches x es t plan named accepts" and co: "co_stored (st_course t)" and i: "i < length es"
  defines "name \<equiv> if co_name_stream (st_course t) \<or> co_extension_stream (st_course t) then row_fold x (es ! i) else []"
  shows "name_serves x es (co_terms (st_course t)) (wn_sort (st_wanted t)) i name"
proof (cases "co_name_stream (st_course t) \<or> co_extension_stream (st_course t)")
  case False
  note c = course_parts [of "st_segment t" plan "st_wanted t" "st_veto t \<noteq> None" named, folded searches_facts(10) [OF s]]
  have "co_path_stream (st_course t) \<longrightarrow> wn_sort (st_wanted t) = SPath"
    using searches_facts(10) [OF s] by (simp add: course_of_def Let_def)
  moreover have "forward_sort (st_wanted t) (pl_clauses plan) \<or> co_backwards (st_course t) \<or> co_path_stream (st_course t)"
    using co c(3) False by (auto simp: streams_positions_def)
  ultimately show ?thesis using c(1,5) by (auto simp: name_serves_def forward_sort_def)
qed (simp add: name_serves_def name_def)

lemma key_rows_given:
  assumes s: "searches x es t plan named accepts" and co: "co_stored (st_course t)"
  shows "\<forall>i \<in> set rows. i < length es \<Longrightarrow> dirs_known es dp \<Longrightarrow>
    key_rows_of t (map as_u32 rows) dp = Ret (map (item (keys_of x es t)) rows)"
proof (induction rows arbitrary: dp)
  case (Cons i rows)
  note f = searches_facts [OF s]
  have i: "i < length es" "unat (as_u32 i) = i" using Cons.prems(1) f(3) by (simp_all add: unat_u32)
  obtain dp' where "dirs_known es dp'" "sort_value_of x (st_segment t) i
      (if co_name_stream (st_course t) \<or> co_extension_stream (st_course t) then row_fold x (es ! i) else [])
      (wn_sort (st_wanted t)) (co_terms (st_course t)) (st_folders t) dp = Ret (keys_of x es t i, dp')"
    using sort_value_at [OF f(1) i(1) stored_names [OF s co i(1)] Cons.prems(2)] by blast
  then show ?case
    using Cons.IH [of dp'] Cons.prems(1) i folded_name_of [OF f(1) i(1)] by (auto simp: f(8) Let_def)
qed simp

lemma handed_rows:
  assumes s: "searches x es t plan named accepts" and w: "walked_well x es t accepts w"
  shows "\<exists>rows. handed t w = Ret (map (item (keys_of x es t)) rows) \<and> distinct rows
    \<and> (co_stored (st_course t) \<and> \<not> co_backwards (st_course t) \<longrightarrow> sorted_wrt (order_of x es t) rows)
    \<and> holds_page (order_of x es t) (need_of t) (set (all_shown x es t accepts)) (set rows)"
proof (cases "co_stored (st_course t)")
  case True
  then obtain rows where rows: "wk_kept w = map as_u32 rows" "distinct rows"
    "co_backwards (st_course t) \<or> sorted_wrt (order_of x es t) rows"
    "holds_page (order_of x es t) (need_of t) (set (all_shown x es t accepts)) (set rows)"
    using w by (auto simp: walked_well_def)
  have "\<forall>i \<in> set rows. i < length es" using rows(4) all_shown_less by (auto simp: holds_page_def)
  then have "handed t w = Ret (map (item (keys_of x es t)) rows)"
    using key_rows_given [OF s True] w True rows(1) by (simp add: handed_def walked_well_def)
  then show ?thesis using rows by blast
next
  case False
  let ?desc = "wn_descending (st_wanted t)" and ?precise = "key_is_exact (wn_sort (st_wanted t))"
  let ?ys = "narrow_keyed (st_select t) (wk_keyed w) (need_of t) ?desc ?precise" and ?row = "\<lambda>it :: keyed. unat (snd it)"
  note sel = searches_facts(5) [OF s] and n = searches_facts(3) [OF s]
  have k: "distinct (map snd (wk_keyed w))"
    "holds_page (better_of t) (need_of t) (item (keys_of x es t) ` set (all_shown x es t accepts)) (set (wk_keyed w))"
    using w False by (simp_all add: walked_well_def)
  note ys = narrow_spec [OF sel k(1), where need = "need_of t" and desc = ?desc and precise = ?precise]
  have page: "holds_page (better_of t) (need_of t) (item (keys_of x es t) ` set (all_shown x es t accepts)) (set ?ys)"
    by (rule pages.covers_fewer [OF k(2) ys(2,3)])
  have small: "\<forall>i \<in> set (all_shown x es t accepts). i < 2 ^ 32" using n all_shown_less by fastforce
  have "holds_page (order_of x es t) (need_of t) (set (all_shown x es t accepts)) (?row ` set ?ys)"
    by (rule covers_rows [OF page small])
  moreover have "item (keys_of x es t) (?row it) = it" if "it \<in> set ?ys" for it
    using that page small by (auto simp: holds_page_def unat_u32 dest!: subsetD)
  then have "map (item (keys_of x es t)) (map ?row ?ys) = ?ys" by (simp add: map_idI)
  moreover have "distinct (map unat (map snd ?ys))" using ys(1) by (simp add: distinct_map inj_on_def flip: word_unat_eq_iff)
  ultimately show ?thesis using False by (intro exI [of _ "map ?row ?ys"]) (simp add: handed_def comp_def)
qed

definition ranked_of :: "outside \<Rightarrow> entry list \<Rightarrow> (u32 \<times> i64) list \<Rightarrow> bytes list \<Rightarrow> sortkey \<Rightarrow> nat \<Rightarrow> ranked" where
  "ranked_of x es folders terms sk i =
     \<lparr>rk_key = quick_key x es folders terms sk i, rk_mtime = m_mtime (e_meta (es ! i)), rk_row = as_u32 i\<rparr>"

definition counts_right :: "search_wanted \<Rightarrow> nat \<Rightarrow> found \<Rightarrow> bool" where
  "counts_right want n f \<longleftrightarrow> fd_total f = min n (wn_count_cap want) \<and> (fd_capped f \<longleftrightarrow> wn_count_cap want \<le> n)"

definition hands_over :: "search_wanted \<Rightarrow> (nat \<Rightarrow> nat \<Rightarrow> bool) \<Rightarrow> (nat \<Rightarrow> ranked) \<Rightarrow> nat list \<Rightarrow> found \<Rightarrow> bool" where
  "hands_over want better ranked all f \<longleftrightarrow> counts_right want (length all) f
     \<and> (\<exists>rows. fd_ranked f = map ranked rows \<and> distinct rows \<and> holds_page better (needed want) (set all) (set rows))"

lemma answer_ranked:
  assumes s: "searches x es t plan named accepts" and w: "walked_well x es t accepts w" and only: "wn_rank_only (st_wanted t)"
  shows "\<exists>f. answer t w skipped = Ret f \<and> hands_over (st_wanted t) (order_of x es t)
    (ranked_of x es (st_folders t) (co_terms (st_course t)) (wn_sort (st_wanted t))) (all_shown x es t accepts) f"
proof -
  note f = searches_facts [OF s]
  let ?r = "ranked_of x es (st_folders t) (co_terms (st_course t)) (wn_sort (st_wanted t))"
  obtain rows where rows: "handed t w = Ret (map (item (keys_of x es t)) rows)" "distinct rows"
    "holds_page (order_of x es t) (need_of t) (set (all_shown x es t accepts)) (set rows)"
    using handed_rows [OF s w] by blast
  have "ranked_row (st_segment t) (item (keys_of x es t) i) = Ret (Some (?r i))" if mem: "i \<in> set rows" for i
  proof -
    have i: "i < length es" using mem rows(3) all_shown_less by (auto simp: holds_page_def)
    then have "i < 2 ^ 32" using f(3) by (rule less_trans)
    then have u: "unat (as_u32 i) = i" by (rule unat_u32)
    show ?thesis using cell_of [OF f(1) i, of Mtime] by (simp add: ranked_row_def ranked_of_def u entry_cell_def)
  qed
  then have "run_filter_map (ranked_row (st_segment t)) (map (item (keys_of x es t)) rows) = Ret (map ?r rows)"
    by (induction rows) simp_all
  moreover have "total_right t (length (all_shown x es t accepts)) w" using w by (simp add: walked_well_def)
  ultimately show ?thesis
    using rows only by (auto simp: answer_def handed_def [symmetric] hands_over_def counts_right_def total_right_def Let_def)
qed

section \<open>The page cut from rows\<close>

definition row_cmp :: "bool \<Rightarrow> (nat \<Rightarrow> 'k :: linorder) \<Rightarrow> nat \<Rightarrow> nat \<Rightarrow> ordering" where
  "row_cmp desc key i j = then_cmp (if desc then cmp (key j) (key i) else cmp (key i) (key j)) (cmp i j)"

definition row_page :: "bool \<Rightarrow> (nat \<Rightarrow> 'k :: linorder) \<Rightarrow> nat \<Rightarrow> nat list \<Rightarrow> nat list" where
  "row_page desc key need rows = take need (sort_by (row_cmp desc key) rows)"

lemma row_cmp_before: "row_cmp desc key i j = Greater \<longleftrightarrow> before desc key j i"
  by (auto simp: row_cmp_def before_def cmp_def)

text \<open>Sorting by a comparison that agrees with \<open>before\<close>.\<close>

lemma insert_by_before:
  assumes "\<And>y. y \<in> set ys \<Longrightarrow> c x y = Greater \<longleftrightarrow> before desc key y x"
  shows "sorted_wrt (before desc key) ys \<Longrightarrow> x \<notin> set ys \<Longrightarrow>
    sorted_wrt (before desc key) (insert_by c x ys) \<and> set (insert_by c x ys) = insert x (set ys)"
  using assms
proof (induction ys)
  case (Cons y ys)
  show ?case
  proof (cases "c x y = Greater")
    case True
    then have "before desc key y x" using Cons.prems(3) by simp
    then show ?thesis using Cons True by auto
  next
    case False
    then have "\<not> before desc key y x" using Cons.prems(3) by simp
    then have x: "before desc key x y" using Cons.prems(2) by (auto simp: before_def split: if_splits)
    then have "\<forall>z \<in> set ys. before desc key x z" using Cons.prems(1) rows.better_trans by fastforce
    then show ?thesis using False x Cons.prems(1) by auto
  qed
qed simp

lemma sort_by_before:
  assumes "\<And>a b. a \<in> set xs \<Longrightarrow> b \<in> set xs \<Longrightarrow> a \<noteq> b \<Longrightarrow> c a b = Greater \<longleftrightarrow> before desc key b a" "distinct xs"
  shows "sorted_wrt (before desc key) (sort_by c xs) \<and> set (sort_by c xs) = set xs"
  using assms
proof (induction xs)
  case (Cons x xs)
  then have IH: "sorted_wrt (before desc key) (sort_by c xs)" "set (sort_by c xs) = set xs" by auto
  have "c x y = Greater \<longleftrightarrow> before desc key y x" if "y \<in> set (sort_by c xs)" for y
    using that Cons.prems IH(2) by (intro Cons.prems(1)) auto
  from insert_by_before [of "sort_by c xs" c x desc key, OF this IH(1)]
  show ?case using IH(2) Cons.prems(2) by (simp add: sort_by_def)
qed (simp add: sort_by_def)

lemma row_page_holds:
  assumes "holds_page (before desc key) need (set all) (set rows)" "distinct all" "distinct rows"
  shows "row_page desc key need rows = row_page desc key need all"
proof -
  have s: "sorted_wrt (before desc key) (sort_by (row_cmp desc key) xs) \<and> set (sort_by (row_cmp desc key) xs) = set xs"
    if "distinct xs" for xs
    using that by (intro sort_by_before row_cmp_before)
  have "take need (sort_by (row_cmp desc key) all) = take need (sort_by (row_cmp desc key) rows)"
    by (rule page_of_covers [where better = "before desc key"]) (use s assms in \<open>auto dest: rows.better_asym\<close>)
  then show ?thesis by (simp add: row_page_def)
qed

lemma map_insert_by: "map g (insert_by (\<lambda>a b. c (g a) (g b)) x ys) = insert_by c (g x) (map g ys)"
  by (induction ys) simp_all

lemma map_sort_by: "sort_by c (map g xs) = map g (sort_by (\<lambda>a b. c (g a) (g b)) xs)"
  by (induction xs) (simp_all add: sort_by_def map_insert_by)

section \<open>The search\<close>

definition setting_of ::
  "outside \<Rightarrow> selector \<Rightarrow> segment \<Rightarrow> plan \<Rightarrow> search_wanted \<Rightarrow> veto option \<Rightarrow> (u32 \<times> i64) list \<Rightarrow> nat option \<Rightarrow> setting" where
  "setting_of x sel seg plan want conceals folders named =
     \<lparr>st_outside = x, st_segment = seg, st_clauses = pl_clauses plan, st_wanted = want, st_veto = conceals,
      st_folders = folders, st_select = sel, st_course = course_of seg plan want (conceals \<noteq> None) named\<rparr>"

lemma setting_of_sel [simp]:
  "st_wanted (setting_of x sel seg plan want conceals folders named) = want"
  "st_segment (setting_of x sel seg plan want conceals folders named) = seg"
  "st_veto (setting_of x sel seg plan want conceals folders named) = conceals"
  "st_folders (setting_of x sel seg plan want conceals folders named) = folders"
  "st_course (setting_of x sel seg plan want conceals folders named) = course_of seg plan want (conceals \<noteq> None) named"
  by (simp_all add: setting_of_def)

text \<open>Both walks of \<open>run_with\<close> end well; the first may give up, the second has tries enough.\<close>

lemma run_with_of:
  assumes s: "\<And>named. searches x es (setting_of x sel seg plan want conceals folders named) plan named accepts"
    and ok: "\<And>named w skipped. walked_well x es (setting_of x sel seg plan want conceals folders named) accepts w \<Longrightarrow>
      \<exists>f. answer (setting_of x sel seg plan want conceals folders named) w skipped = Ret f \<and> P f"
  shows "\<exists>f. run_with x sel seg plan want conceals folders = Ret f \<and> P f"
proof -
  let ?t = "setting_of x sel seg plan want conceals folders"
  have seg: "(walk_segment x sel seg plan want conceals folders named = Ret None \<and> (\<exists>n < length es. named = Some n))
      \<or> (\<exists>f. walk_segment x sel seg plan want conceals folders named = Ret (Some f) \<and> P f)" for named
  proof -
    let ?tries = "case named of Some n \<Rightarrow> n | None \<Rightarrow> 2 ^ 64 - 1"
    have run: "walk_segment x sel seg plan want conceals folders named
        = bind_run (walk_through (?t named) (walk_start want) ?tries) (\<lambda>r. case r of
            None \<Rightarrow> Ret None | Some (w, skipped) \<Rightarrow> bind_run (answer (?t named) w skipped) (\<lambda>f. Ret (Some f)))"
      unfolding walk_segment_def setting_of_def Let_def ..
    from walk_through_of [OF s [of named], of ?tries, unfolded setting_of_sel]
    consider "walk_through (?t named) (walk_start want) ?tries = Ret None" "?tries < length es"
      | w skipped where "walk_through (?t named) (walk_start want) ?tries = Ret (Some (w, skipped))" "walked_well x es (?t named) accepts w"
      by blast
    then show ?thesis
    proof cases
      case 1
      then show ?thesis using run searches_facts(3) [OF s] by (auto split: option.splits)
    next
      case (2 w skipped)
      then obtain f where "answer (?t named) w skipped = Ret f" "P f" using ok by blast
      then show ?thesis using run 2(1) by simp
    qed
  qed
  obtain f where f: "walk_segment x sel seg plan want conceals folders None = Ret (Some f)" "P f" using seg [of None] by auto
  then show ?thesis using seg [of "Some (stream_budget want)"] by (auto simp: run_with_def Let_def)
qed


section \<open>A segment with its orders\<close>

definition live_orders :: "outside \<Rightarrow> entry list \<Rightarrow> live \<Rightarrow> bool" where
  "live_orders x es lv \<longleftrightarrow>
     (\<forall>po. Option.bind (lv_porder lv) path_order_open = Some po \<longrightarrow> paths_listed es po)
     \<and> (\<forall>no. Option.bind (lv_norder lv) name_order_open = Some no \<longrightarrow> names_listed (folded_bytes (x_unicode x)) es no)
     \<and> (\<forall>eo. Option.bind (lv_eorder lv) name_order_open = Some eo \<longrightarrow> extensions_listed (folded_bytes (x_unicode x)) es eo)"

lemma live_orders_view: "live_view lv = Inr seg \<Longrightarrow> live_orders x es lv \<Longrightarrow> orders_hold x es seg"
  by (auto simp: live_view_def live_orders_def orders_hold_def Let_def split: option.splits)

lemma bind_run_returns: "bind_run r f = Ret y \<longleftrightarrow> (\<exists>v. r = Ret v \<and> f v = Ret y)"
  by (cases r) simp_all

lemma from_bytes_orders:
  assumes "from_bytes number generation sb = Ret (Inr lv)"
  shows "lv_porder lv = owned (sb_porder sb)" "lv_norder lv = owned (sb_norder sb)" "lv_eorder lv = owned (sb_eorder sb)"
  using assms by (auto simp: from_bytes_def assemble_def Let_def bind_run_returns split: option.splits if_splits sum.splits)

lemma live_orders_built:
  assumes "memchr_law memchr" "entries_fit (folded_bytes (x_unicode x)) es"
    "build_sorted memchr (folded_bytes (x_unicode x)) fold_case es = Ret sb" "from_bytes number generation sb = Ret (Inr lv)"
  shows "live_orders x es lv"
proof -
  have "orders_written (folded_bytes (x_unicode x)) es sb" using build_listed [OF assms(1,2), of fold_case] assms(3) by auto
  then show ?thesis
    using order_open_ne by (auto simp: live_orders_def from_bytes_orders [OF assms(4)] orders_written_def owned_def split: if_splits)
qed

text \<open>Everything a search needs of a segment, a query and what is wanted.\<close>

definition searchable_for :: "outside \<Rightarrow> entry list \<Rightarrow> live \<Rightarrow> bytes ast \<Rightarrow> search_wanted \<Rightarrow> bool" where
  "searchable_for x es lv q want \<longleftrightarrow> live_searchable x es lv \<and> live_orders x es lv \<and> sorted (map stored_key es)
     \<and> typed_query q \<and> \<not> refuses x q \<and> needed want < 2 ^ 64"

lemma search_ready:
  assumes r: "searchable_for x es lv q want" and sel: "select_law sel" and fs: "rollups_ok folders"
    and paths: "wn_sort want = SPath \<Longrightarrow> wn_descending want \<Longrightarrow> distinct (map e_path es)"
  obtains seg plan acc where "live_view lv = Inr seg" "plan_compile x no_trigram q seg = Ret (Inr plan)" "searchable x es seg"
    "\<And>i. i < length es \<Longrightarrow> is_alive seg i = live_is_alive lv i" "plan_accepts x es seg q plan acc"
    "\<And>named. searches x es (setting_of x sel seg plan want conceals folders named) plan named acc"
proof -
  note a = r [unfolded searchable_for_def]
  have l: "live_searchable x es lv" "typed_query q" "\<not> refuses x q" using a by simp_all
  obtain seg plan acc where seg: "live_view lv = Inr seg" "searchable x es seg" "alive_fits es seg" "length es < 2 ^ 32"
    "\<And>i. i < length es \<Longrightarrow> is_alive seg i = live_is_alive lv i"
    and p: "plan_compile x no_trigram q seg = Ret (Inr plan)" "clauses_typed x (entry_dirs es) (pl_clauses plan)"
      "narrowed x es seg (pl_clauses plan) (pl_candidates plan)" "plan_accepts x es seg q plan acc"
      "\<And>i. i < length es \<Longrightarrow> accepts_row x seg i (row_fold x (es ! i)) (pl_clauses plan) = Ret (acc i)"
    using plan_accepted [OF l, of no_trigram] by metis
  have "orders_hold x es seg" using live_orders_view seg(1) a by blast
  then have "searches x es (setting_of x sel seg plan want conceals folders named) plan named acc" for named
    unfolding searches_def setting_of_sel Let_def using seg p a sel fs paths by (simp add: setting_of_def)
  then show thesis using that seg p(1,4) by blast
qed

text \<open>The rows to show.\<close>

definition rows_to_show :: "outside \<Rightarrow> entry list \<Rightarrow> live \<Rightarrow> segment \<Rightarrow> veto option \<Rightarrow> (nat \<Rightarrow> bool) \<Rightarrow> nat list" where
  "rows_to_show x es lv seg conceals acc =
     filter (\<lambda>i. live_is_alive lv i \<and> acc i
       \<and> (case conceals of Some veto \<Rightarrow> \<not> veto seg i (row_fold x (es ! i)) | None \<Rightarrow> True)) [0 ..< length es]"

lemma rows_to_show_all:
  assumes "\<And>i. i < length es \<Longrightarrow> is_alive seg i = live_is_alive lv i"
  shows "all_shown x es (setting_of x sel seg plan want conceals folders named) acc = rows_to_show x es lv seg conceals acc"
  unfolding all_shown_def rows_to_show_def shown_def setting_of_sel by (rule filter_cong) (use assms in auto)

text \<open>
  C2: a segment asked for its ranking hands a merge the rows it needs.  Every row to be shown is
  live, accepted by the compiled query and not concealed; the rows handed over are some of them,
  each with its key and date and none twice, and the page cut from them is the page cut from
  all; the count is right up to its cap.  A row comparable with the query is accepted exactly
  when the reference accepts it (\<open>plan_accepts\<close>, with the corners of
  \<open>comparable\<close>).  A descending sort by path is asked of a segment without two rows
  of one path: with two, the code may cut the page between them elsewhere than the other walks
  do.  The folder sizes handed in are one a row, ascending.
\<close>

theorem ranked_page_complete:
  assumes "searchable_for x es lv q want" "select_law sel" "rollups_ok folders" "wn_rank_only want"
    and "wn_sort want = SPath \<Longrightarrow> wn_descending want \<Longrightarrow> distinct (map e_path es)"
  shows "\<exists>seg plan acc f rows. live_view lv = Inr seg \<and> plan_compile x no_trigram q seg = Ret (Inr plan)
    \<and> plan_accepts x es seg q plan acc \<and> run_with x sel seg plan want conceals folders = Ret f
    \<and> (let all = rows_to_show x es lv seg conceals acc; terms = score_terms want (pl_clauses plan);
           page = row_page (wn_descending want) (full_key x es folders terms (wn_sort want)) (needed want)
       in counts_right want (length all) f
        \<and> fd_ranked f = map (ranked_of x es folders terms (wn_sort want)) rows
        \<and> distinct rows \<and> set rows \<subseteq> set all \<and> page rows = page all)"
proof -
  obtain seg plan acc where r: "live_view lv = Inr seg" "plan_compile x no_trigram q seg = Ret (Inr plan)" "searchable x es seg"
    "\<And>i. i < length es \<Longrightarrow> is_alive seg i = live_is_alive lv i" "plan_accepts x es seg q plan acc"
    and s: "\<And>named. searches x es (setting_of x sel seg plan want conceals folders named) plan named acc"
    using search_ready [OF assms(1-3,5)] by blast
  let ?t = "setting_of x sel seg plan want conceals folders" and ?all = "rows_to_show x es lv seg conceals acc"
  define terms where "terms = score_terms want (pl_clauses plan)"
  have co: "co_terms (course_of seg plan want (conceals \<noteq> None) named) = terms" for named
    unfolding terms_def by (rule course_parts(1))
  have shown: "all_shown x es (?t named) acc = ?all" for named
    by (rule rows_to_show_all) (rule r(4))
  let ?key = "full_key x es folders terms (wn_sort want)" and ?desc = "wn_descending want"
  have "\<exists>f. run_with x sel seg plan want conceals folders = Ret f
      \<and> hands_over want (before ?desc ?key) (ranked_of x es folders terms (wn_sort want)) ?all f"
  proof (rule run_with_of [OF s])
    fix named w skipped
    assume w: "walked_well x es (?t named) acc w"
    show "\<exists>f. answer (?t named) w skipped = Ret f
        \<and> hands_over want (before ?desc ?key) (ranked_of x es folders terms (wn_sort want)) ?all f"
      using answer_ranked [OF s w, of skipped, unfolded setting_of_sel co shown, OF assms(4)] .
  qed
  then obtain f rows where f: "run_with x sel seg plan want conceals folders = Ret f" "counts_right want (length ?all) f"
    "fd_ranked f = map (ranked_of x es folders terms (wn_sort want)) rows" "distinct rows"
    "holds_page (before ?desc ?key) (needed want) (set ?all) (set rows)"
    unfolding hands_over_def by blast
  have "distinct ?all" by (simp add: rows_to_show_def)
  then have "row_page ?desc ?key (needed want) rows = row_page ?desc ?key (needed want) ?all"
    by (intro row_page_holds [OF f(5) _ f(4)])
  moreover have "set rows \<subseteq> set ?all" using f(5) by (simp add: holds_page_def)
  ultimately show ?thesis
    using r(1,2,5) f(1-4) unfolding Let_def terms_def
    by (intro exI [of _ seg] exI [of _ plan] exI [of _ acc] exI [of _ f] exI [of _ rows] conjI)
qed


section \<open>The brute-force search\<close>

text \<open>\<open>Hit::from\<close> (search.rs) and \<open>brute_force\<close> (reference.rs).\<close>

definition hit_from :: "outside \<Rightarrow> entry \<Rightarrow> hit" where
  "hit_from x e =
     \<lparr>hit_id = e_id e, hit_path = e_path e, hit_is_dir = e_is_dir e, hit_kind = entry_kind (fold_str x) e, hit_meta = e_meta e\<rparr>"

definition brute_cmp :: "outside \<Rightarrow> sortkey \<Rightarrow> bool \<Rightarrow> hit \<Rightarrow> hit \<Rightarrow> ordering" where
  "brute_cmp x key desc a b =
     (let num = (\<lambda>f. cmp (sint (f (hit_meta a) :: i64)) (sint (f (hit_meta b))));
          o' = (case key of
             SRelevance \<Rightarrow> Equal
           | SName \<Rightarrow> cmp (fold_str x (hit_name a)) (fold_str x (hit_name b))
           | SPath \<Rightarrow> cmp (hit_path a) (hit_path b)
           | SExt \<Rightarrow> cmp (ext_of x (hit_name a)) (ext_of x (hit_name b))
           | SSize \<Rightarrow> num m_size
           | SModified \<Rightarrow> num m_mtime
           | SCreated \<Rightarrow> num m_ctime
           | SAccessed \<Rightarrow> num m_atime
           | SKind \<Rightarrow> cmp (kind_as_u8 (hit_kind a)) (kind_as_u8 (hit_kind b))
           | SMode \<Rightarrow> num m_mode
           | SUid \<Rightarrow> num m_uid
           | SGid \<Rightarrow> num m_gid
           | SDisk \<Rightarrow> num m_disk);
          o' = (if desc then (case o' of Less \<Rightarrow> Greater | Equal \<Rightarrow> Equal | Greater \<Rightarrow> Less) else o')
      in then_cmp (then_cmp o' (cmp (sint (m_mtime (hit_meta b))) (sint (m_mtime (hit_meta a)))))
           (cmp (hit_path a) (hit_path b)))"

text \<open>The sorted page of some entries; the brute-force search is that of the entries that match.\<close>

definition brute_page :: "outside \<Rightarrow> sortkey \<Rightarrow> bool \<Rightarrow> nat \<Rightarrow> entry list \<Rightarrow> hit list" where
  "brute_page x key desc limit found = take limit (sort_by (brute_cmp x key desc) (map (hit_from x) found))"

definition brute_force :: "outside \<Rightarrow> entry list \<Rightarrow> bytes ast \<Rightarrow> sortkey \<Rightarrow> bool \<Rightarrow> nat \<Rightarrow> hit list" where
  "brute_force x entries q key desc limit =
     brute_page x key desc limit (filter (\<lambda>e. ref_matches x e q) entries)"

lemma brute_cmp_hits: "key \<noteq> SRelevance \<Longrightarrow> brute_cmp x key desc = hit_cmp x key desc terms"
  by (intro ext) (cases key; simp add: brute_cmp_def hit_cmp_def)

abbreviation row_hit_of :: "outside \<Rightarrow> entry list \<Rightarrow> nat \<Rightarrow> hit" where
  "row_hit_of x es i \<equiv> hit_from x (stored_entry (es ! i))"

lemma row_hit_is:
  assumes x: "searchable x es seg" "i < length es" and n: "length es < 2 ^ 32"
  shows "row_hit x seg (as_u32 i) = Ret (Some (row_hit_of x es i))"
proof -
  note s = searchable_facts [OF x(1)]
  have "i < 2 ^ 32" using x(2) n by (rule less_trans)
  then have u: "unat (as_u32 i) = i" by (rule unat_u32)
  show ?thesis
    using name_of_row [OF s(6,3,4), of i] seg_path_of [OF s(3,4) x(2) s(5)] source_of_row [OF s(3,4) x(2)] x(2)
    by (simp add: row_hit_def seg_hit_def u seg_num_of [OF s(3,4) x(2)] entry_cell_def stored_entry_def max_i64_def hit_from_def entry_kind_def)
qed

text \<open>A stored row matches as its entry does.\<close>

lemma matches_stored: "matches_one x (stored_entry e) m = matches_one x e m"
proof -
  have parts: "e_path (stored_entry e) = e_path e" "e_is_dir (stored_entry e) = e_is_dir e"
    "m_size (e_meta (stored_entry e)) = m_size (e_meta e)" "entry_kind f (stored_entry e) = entry_kind f e" for f
    by (simp_all add: stored_entry_def entry_kind_def)
  have "ref_num (stored_entry e) n = ref_num e n" for n by (cases n) (simp_all add: stored_entry_def)
  moreover have "ref_time (stored_entry e) tf = ref_time e tf" for tf by (cases tf) (simp_all add: stored_entry_def)
  ultimately show ?thesis by (cases m) (simp_all add: parts entry_ext_def split: cmp_op.split sum.split)
qed

lemma ref_matches_stored: "ref_matches x (stored_entry e) q = ref_matches x e q"
  by (simp add: ref_matches_def matches_stored)

text \<open>Hits compare as their rows do.\<close>

lemma cmp_sort_value [simp]: "cmp (SNum a) (SNum b) = cmp a b" "cmp (SText c) (SText d) = cmp c d"
  by (simp_all add: cmp_def less_sort_value_def)

lemma cmp_kind: "cmp (uint (v :: u8)) (uint w) = cmp v w"
  by (simp add: cmp_def word_less_def flip: word_uint_eq_iff)

lemma tie_of_rows:
  assumes "sorted (map stored_key es)" "distinct (map e_path es)" "i < length es" "j < length es" "i \<noteq> j"
  shows "then_cmp (cmp (sint (m_mtime (e_meta (es ! j)))) (sint (m_mtime (e_meta (es ! i))))) (cmp (e_path (es ! i)) (e_path (es ! j)))
    = (if i < j then Less else Greater)"
proof -
  have ne: "e_path (es ! i) \<noteq> e_path (es ! j)" using assms(2-5) by (simp add: distinct_conv_nth)
  have le: "stored_key (es ! k) \<le> stored_key (es ! l)" if "k < l" "l < length es" for k l
    using sorted_nth_mono [OF assms(1), of k l] that by simp
  show ?thesis
  proof (cases "i < j")
    case True
    then show ?thesis using le [OF True assms(4)] ne by (auto simp: stored_key_def less_eq_prod_def cmp_def)
  next
    case False
    then have "j < i" using assms(5) by simp
    then show ?thesis using le [OF _ assms(3)] ne by (fastforce simp: stored_key_def less_eq_prod_def cmp_def)
  qed
qed

lemma hit_key_cmp:
  assumes x: "searchable x es seg" and ij: "i < length es" "j < length es" and sk: "sk \<noteq> SRelevance"
    and ext: "sk = SExt \<longrightarrow> (\<forall>e \<in> set es. stem_kept x (entry_name (e_path e)))"
  shows "hit_cmp x sk desc terms (row_hit_of x es i) (row_hit_of x es j)
    = then_cmp (case cmp (full_key x es [] terms sk i) (full_key x es [] terms sk j) of
          Less \<Rightarrow> if desc then Greater else Less | Equal \<Rightarrow> Equal | Greater \<Rightarrow> if desc then Less else Greater)
        (then_cmp (cmp (sint (m_mtime (e_meta (es ! j)))) (sint (m_mtime (e_meta (es ! i)))))
          (cmp (e_path (es ! i)) (e_path (es ! j))))"
proof -
  have assoc: "then_cmp (then_cmp a b) c = then_cmp a (then_cmp b c)" for a b c by (cases a) simp_all
  have ex: "entry_extension x (es ! k) = ext_of x (entry_name (e_path (es ! k)))" if "k < length es" "sk = SExt" for k
    using row_extension [OF x that(1)] ext that by (simp add: entry_extension_def)
  show ?thesis
    using sk ex ij
    by (cases sk; cases desc)
      (simp_all add: hit_cmp_def Let_def assoc hit_from_def hit_name_def stored_entry_def full_key_def row_size_def
        cmp_kind entry_kind_def split: ordering.split)
qed

lemma hit_cmp_before:
  assumes "searchable x es seg" "i < length es" "j < length es" "i \<noteq> j" "sk \<noteq> SRelevance"
    "sk = SExt \<longrightarrow> (\<forall>e \<in> set es. stem_kept x (entry_name (e_path e)))"
    "sorted (map stored_key es)" "distinct (map e_path es)"
  shows "hit_cmp x sk desc terms (row_hit_of x es i) (row_hit_of x es j) = Greater
    \<longleftrightarrow> before desc (full_key x es [] terms sk) j i"
  unfolding hit_key_cmp [OF assms(1-3,5,6)] tie_of_rows [OF assms(7,8,2-4)]
  using assms(4) by (auto simp: before_def cmp_def)


lemma answer_hits:
  assumes s: "searches x es t plan named accepts" and w: "walked_well x es t accepts w" and hits: "\<not> wn_rank_only (st_wanted t)"
    and agree: "\<And>i j. i < length es \<Longrightarrow> j < length es \<Longrightarrow> i \<noteq> j \<Longrightarrow>
      hit_cmp x (wn_sort (st_wanted t)) (wn_descending (st_wanted t)) (co_terms (st_course t)) (row_hit_of x es i) (row_hit_of x es j) = Greater
        \<longleftrightarrow> order_of x es t j i"
  shows "\<exists>f. answer t w skipped = Ret f \<and> counts_right (st_wanted t) (length (all_shown x es t accepts)) f
    \<and> fd_hits f = drop (wn_offset (st_wanted t)) (take (need_of t) (sort_hits x (map (row_hit_of x es) (all_shown x es t accepts))
        (wn_sort (st_wanted t)) (wn_descending (st_wanted t)) (co_terms (st_course t))))"
proof -
  note f = searches_facts [OF s]
  let ?want = "st_wanted t" and ?H = "row_hit_of x es" and ?all = "all_shown x es t accepts"
  let ?c = "hit_cmp x (wn_sort ?want) (wn_descending ?want) (co_terms (st_course t))"
  let ?sort = "sort_by (\<lambda>i j. ?c (?H i) (?H j))"
  obtain rows where rows: "handed t w = Ret (map (item (keys_of x es t)) rows)" "distinct rows"
    "co_stored (st_course t) \<and> \<not> co_backwards (st_course t) \<longrightarrow> sorted_wrt (order_of x es t) rows"
    "holds_page (order_of x es t) (need_of t) (set ?all) (set rows)"
    using handed_rows [OF s w] by blast
  have in_rows: "i < length es" if "i \<in> set rows" for i using that rows(4) all_shown_less by (auto simp: holds_page_def)
  have hit: "row_hit x (st_segment t) (snd (item (keys_of x es t) i)) = Ret (Some (?H i))" if "i \<in> set rows" for i
    using row_hit_is [OF f(1) in_rows [OF that] f(3)] by simp
  then have built: "run_filter_map (\<lambda>item. row_hit x (st_segment t) (snd item)) (map (item (keys_of x es t)) rows) = Ret (map ?H rows)"
    by (induction rows) simp_all
  have sorted: "sorted_wrt (order_of x es t) (?sort is) \<and> set (?sort is) = set is" if "distinct is" "\<forall>i \<in> set is. i < length es" for "is"
    using that by (intro sort_by_before agree) auto
  have kept: "?sort rows = rows" if "co_stored (st_course t)" "\<not> co_backwards (st_course t)"
    by (rule sorted_wrt_same [where better = "order_of x es t"])
      (use sorted [OF rows(2)] in_rows rows(3) that in \<open>auto dest: rows.better_asym\<close>)
  have d: "distinct ?all" by (simp add: all_shown_def)
  have page: "take (need_of t) (?sort ?all) = take (need_of t) (?sort rows)"
    by (rule page_of_covers [where better = "order_of x es t"])
      (use sorted [OF rows(2)] sorted [OF d] in_rows all_shown_less rows(4) in \<open>auto dest: rows.better_asym\<close>)
  have final: "take (wn_limit ?want) (drop (wn_offset ?want) (map ?H (?sort rows)))
      = drop (wn_offset ?want) (take (need_of t) (sort_hits x (map ?H ?all) (wn_sort ?want) (wn_descending ?want) (co_terms (st_course t))))"
  proof -
    have "sort_hits x (map ?H ?all) (wn_sort ?want) (wn_descending ?want) (co_terms (st_course t)) = map ?H (?sort ?all)"
      unfolding sort_hits_def by (rule map_sort_by)
    moreover have "take (need_of t) (map ?H (?sort ?all)) = take (need_of t) (map ?H (?sort rows))"
      unfolding take_map page ..
    moreover have "take (wn_limit ?want) (drop (wn_offset ?want) xs) = drop (wn_offset ?want) (take (need_of t) xs)" for xs :: "hit list"
      by (simp add: drop_take needed_def)
    ultimately show ?thesis by simp
  qed
  have shown: "total_right t (length ?all) w" using w by (simp add: walked_well_def)
  have "fd_hits f = take (wn_limit ?want) (drop (wn_offset ?want) (map ?H (?sort rows)))" if "answer t w skipped = Ret f" for f
    using that rows(1) hits built kept f(8)
    by (auto simp: answer_def handed_def [symmetric] Let_def sort_hits_def map_sort_by split: if_splits)
  moreover have "\<exists>f. answer t w skipped = Ret f \<and> counts_right ?want (length ?all) f"
    using rows(1) hits built f(8) shown
    by (auto simp: answer_def handed_def [symmetric] Let_def counts_right_def total_right_def)
  ultimately show ?thesis using final by auto
qed

text \<open>The live entries a segment's plan accepts.\<close>

definition found_entries :: "entry list \<Rightarrow> live \<Rightarrow> (nat \<Rightarrow> bool) \<Rightarrow> entry list" where
  "found_entries es lv acc = map (\<lambda>i. stored_entry (es ! i)) (filter (\<lambda>i. live_is_alive lv i \<and> acc i) [0 ..< length es])"

lemma found_entries_match:
  assumes "plan_accepts x es seg q plan acc" "all_comparable x es q"
  shows "found_entries es lv acc
    = filter (\<lambda>e. ref_matches x e q) (map (\<lambda>i. stored_entry (es ! i)) (filter (live_is_alive lv) [0 ..< length es]))"
proof -
  have "filter (\<lambda>i. live_is_alive lv i \<and> acc i) [0 ..< length es]
      = filter (\<lambda>i. live_is_alive lv i \<and> ref_matches x (es ! i) q) [0 ..< length es]"
    using assms by (intro filter_cong) (auto simp: all_comparable_def plan_accepts_def)
  then show ?thesis by (simp add: found_entries_def filter_map comp_def ref_matches_stored)
qed

text \<open>
  C1: a search of one segment that asks for hits answers the page a brute-force search answers:
  the live entries the compiled query accepts, sorted with the reference's comparison and cut,
  with the count right up to its cap, whichever way the search went through the segment.  When
  every row is comparable with the query, these entries are exactly the live ones the reference
  accepts, so the page is that of \<open>brute_force\<close> over the live entries; the corners
  in which a row is not comparable, and in which code and reference do differ, are those of
  \<open>comparable\<close>.  Asked of the search: it does not rank by relevance, which the
  reference does not do; no two rows have one path, by which the reference breaks its last ties;
  and in a sort by extension the fold of every name keeps the stem, without which the index sees
  no extension. Asked of the segment: its folded names and directories fit the 1024 bytes of the
  folder's buffer, and no path is \<open>//\<close> and a bare name.
\<close>

theorem search_is_brute_force:
  assumes "searchable_for x es lv q want" "select_law sel" "distinct (map e_path es)" "\<not> wn_rank_only want"
    and "wn_sort want \<noteq> SRelevance"
    and "wn_sort want = SExt \<longrightarrow> (\<forall>e \<in> set es. stem_kept x (entry_name (e_path e)))"
  shows "\<exists>seg plan acc entries f. live_view lv = Inr seg \<and> plan_compile x no_trigram q seg = Ret (Inr plan)
    \<and> plan_accepts x es seg q plan acc \<and> live_entries (x_memchr x) lv = Ret (Inr entries)
    \<and> run_with x sel seg plan want None [] = Ret f
    \<and> fd_hits f = drop (wn_offset want) (brute_page x (wn_sort want) (wn_descending want) (needed want) (found_entries es lv acc))
    \<and> counts_right want (length (found_entries es lv acc)) f
    \<and> (all_comparable x es q \<longrightarrow> found_entries es lv acc = filter (\<lambda>e. ref_matches x e q) entries
        \<and> fd_hits f = drop (wn_offset want) (brute_force x entries q (wn_sort want) (wn_descending want) (needed want)))"
proof -
  note a = assms(1) [unfolded searchable_for_def live_searchable_def]
  have fs: "rollups_ok []" by (simp add: rollups_ok_def)
  obtain seg plan acc where r: "live_view lv = Inr seg" "plan_compile x no_trigram q seg = Ret (Inr plan)" "searchable x es seg"
    "\<And>i. i < length es \<Longrightarrow> is_alive seg i = live_is_alive lv i" "plan_accepts x es seg q plan acc"
    and s: "\<And>named. searches x es (setting_of x sel seg plan want None [] named) plan named acc"
    using search_ready [OF assms(1,2) fs assms(3)] by blast
  let ?t = "setting_of x sel seg plan want None []" and ?all = "rows_to_show x es lv seg None acc"
  let ?entries = "map (\<lambda>i. stored_entry (es ! i)) (filter (live_is_alive lv) [0 ..< length es])"
  have entries: "live_entries (x_memchr x) lv = Ret (Inr ?entries)"
    using a by (intro live_entries_of [where fold_bytes = "folded_bytes (x_unicode x)" and fold_case = "fold_str x"])
      (simp_all add: outside_ok_def)
  have shown: "all_shown x es (?t named) acc = ?all" for named by (rule rows_to_show_all) (rule r(4))
  have hits: "map (hit_from x) (found_entries es lv acc) = map (row_hit_of x es) ?all"
    by (simp add: rows_to_show_def found_entries_def comp_def)
  then have n: "length (found_entries es lv acc) = length ?all" by (metis length_map)
  let ?page = "brute_page x (wn_sort want) (wn_descending want) (needed want) (found_entries es lv acc)"
  have brute: "?page = take (needed want) (sort_hits x (map (row_hit_of x es) ?all) (wn_sort want) (wn_descending want) terms)" for terms
    unfolding brute_page_def sort_hits_def hits brute_cmp_hits [OF assms(5), of x "wn_descending want" terms] ..
  have srt: "sorted (map stored_key es)" using a by blast
  have "\<exists>f. run_with x sel seg plan want None [] = Ret f \<and> counts_right want (length ?all) f \<and> fd_hits f = drop (wn_offset want) ?page"
  proof (rule run_with_of [OF s])
    fix named w skipped
    assume w: "walked_well x es (?t named) acc w"
    have "hit_cmp x (wn_sort want) (wn_descending want) terms (row_hit_of x es i) (row_hit_of x es j) = Greater
        \<longleftrightarrow> before (wn_descending want) (full_key x es [] terms (wn_sort want)) j i"
      if "i < length es" "j < length es" "i \<noteq> j" for i j terms
      by (rule hit_cmp_before [OF r(3) that assms(5,6) srt assms(3)])
    then show "\<exists>f. answer (?t named) w skipped = Ret f \<and> counts_right want (length ?all) f \<and> fd_hits f = drop (wn_offset want) ?page"
      using answer_hits [OF s w, of skipped, unfolded setting_of_sel shown] assms(4) brute by simp
  qed
  then show ?thesis
    using r(1,2,5) entries n found_entries_match [OF r(5)] by (auto simp: brute_force_def)
qed


section \<open>At work\<close>

text \<open>Sorting is a selection.\<close>

lemma mset_insert_by: "mset (insert_by c x ys) = add_mset x (mset ys)"
  by (induction ys) simp_all

lemma mset_sort_by: "mset (sort_by c xs) = mset xs"
  by (induction xs) (simp_all add: sort_by_def mset_insert_by)

lemma sort_by_ordered:
  assumes total: "\<And>a b. c a b = Greater \<Longrightarrow> c b a \<noteq> Greater"
    and trans: "\<And>a b d. c a b \<noteq> Greater \<Longrightarrow> c b d \<noteq> Greater \<Longrightarrow> c a d \<noteq> Greater"
  shows "sorted_wrt (\<lambda>a b. c a b \<noteq> Greater) (sort_by c xs)"
proof (induction xs)
  case (Cons x xs)
  have "sorted_wrt (\<lambda>a b. c a b \<noteq> Greater) ys \<Longrightarrow> sorted_wrt (\<lambda>a b. c a b \<noteq> Greater) (insert_by c x ys)" for ys
  proof (induction ys)
    case (Cons y ys)
    have "set (insert_by c x ys) = insert x (set ys)" by (metis mset_insert_by set_mset_add_mset_insert set_mset_mset)
    then show ?case
      using Cons.IH Cons.prems total [of x y] trans [of x y] by (cases "c x y = Greater") simp_all
  qed simp
  then show ?case using Cons by (simp add: sort_by_def)
qed (simp add: sort_by_def)

lemma sorting_selects: "select_law (\<lambda>c k xs. sort_by c xs)"
proof -
  have "page_order desc (sort_by (page_order desc) xs ! i) (sort_by (page_order desc) xs ! j) \<noteq> Greater"
    if "i < j" "j < length (sort_by (page_order desc) xs)" for desc xs i j
  proof (rule sorted_wrt_nth_less [OF _ that], rule sort_by_ordered)
    show "page_order desc b a \<noteq> Greater" if "page_order desc a b = Greater" for a b
      using that pages.better_asym by (auto simp: page_order_beats)
    show "page_order desc a d \<noteq> Greater" if "page_order desc a b \<noteq> Greater" "page_order desc b d \<noteq> Greater" for a b d
      using that pages.better_between [of desc True d a b] by (auto simp: page_order_beats)
  qed
  moreover have "length (sort_by (page_order desc) xs) = length xs" for desc xs using mset_sort_by by (rule mset_eq_length)
  ultimately show ?thesis by (simp add: select_law_def Let_def mset_sort_by)
qed

definition sample_want :: "bool \<Rightarrow> search_wanted" where
  "sample_want only = \<lparr>wn_sort = SSize, wn_descending = True, wn_offset = 0, wn_limit = 1, wn_count_cap = 10, wn_rank_only = only\<rparr>"

lemma sample_for:
  obtains sb lv where "from_bytes 1 1 sb = Ret (Inr lv)" "searchable_for sample_outside sample_entries lv sample_query (sample_want only)"
    "\<forall>i < 2. live_is_alive lv i"
proof -
  obtain sb lv where s: "build_sorted first_index (folded_bytes ascii_unicode) (default_fold ascii_unicode) sample_entries = Ret sb"
    "from_bytes 1 1 sb = Ret (Inr lv)" "live_searchable sample_outside sample_entries lv" "\<forall>i < 2. live_is_alive lv i"
    using sample_searchable .
  have u: "x_unicode sample_outside = ascii_unicode" by (simp add: sample_outside_def)
  have "entries_fit (folded_bytes (x_unicode sample_outside)) sample_entries" using s(3) by (simp add: live_searchable_def)
  then have "live_orders sample_outside sample_entries lv"
    using live_orders_built [OF first_index_law, of sample_outside sample_entries "default_fold ascii_unicode"] s(1,2) by (simp add: u)
  moreover have "sorted (map stored_key sample_entries)"
    by (simp add: sample_entries_def sample_entry_def stored_key_def less_eq_prod_def)
  ultimately have "searchable_for sample_outside sample_entries lv sample_query (sample_want only)"
    using s(3) sample_query_ok by (simp add: searchable_for_def sample_want_def needed_def)
  then show thesis using that s(2,4) by blast
qed

lemma sample_shown:
  assumes "\<forall>i < 2. live_is_alive lv i"
  and "plan_accepts sample_outside sample_entries seg sample_query plan acc"
  shows "rows_to_show sample_outside sample_entries lv seg None acc = [0]"
proof -
  have "length sample_entries = 2" by (simp add: sample_entries_def)
  then have "acc i = ref_matches sample_outside (sample_entries ! i) sample_query" if "i < 2" for i
    using assms(2) sample_query_ok(2) that unfolding plan_accepts_def all_comparable_def by (metis nth_mem)
  then show ?thesis using assms(1) sample_answer by (simp add: rows_to_show_def sample_entries_def upt_rec)
qed

theorem ranked_page_complete_witness:
  "\<exists>sb lv seg plan f. from_bytes 1 1 sb = Ret (Inr lv) \<and> live_view lv = Inr seg
    \<and> run_with sample_outside (\<lambda>c k xs. sort_by c xs) seg plan (sample_want True) None [] = Ret f
    \<and> map rk_row (fd_ranked f) = [0] \<and> fd_total f = 1"
proof -
  obtain sb lv where s: "from_bytes 1 1 sb = Ret (Inr lv)"
    "searchable_for sample_outside sample_entries lv sample_query (sample_want True)" "\<forall>i < 2. live_is_alive lv i"
    using sample_for .
  have "rollups_ok []" "wn_rank_only (sample_want True)" "wn_sort (sample_want True) \<noteq> SPath"
    by (simp_all add: rollups_ok_def sample_want_def)
  with ranked_page_complete [OF s(2) sorting_selects, of "[]" False None]
  obtain seg plan acc f rows where r: "live_view lv = Inr seg"
    "run_with sample_outside (\<lambda>c k xs. sort_by c xs) seg plan (sample_want True) None [] = Ret f"
    "let all = rows_to_show sample_outside sample_entries lv seg None acc; terms = score_terms (sample_want True) (pl_clauses plan);
         page = row_page (wn_descending (sample_want True))
           (full_key sample_outside sample_entries [] terms (wn_sort (sample_want True))) (needed (sample_want True))
     in counts_right (sample_want True) (length all) f
      \<and> fd_ranked f = map (ranked_of sample_outside sample_entries [] terms (wn_sort (sample_want True))) rows
      \<and> distinct rows \<and> set rows \<subseteq> set all \<and> page rows = page all"
    "plan_accepts sample_outside sample_entries seg sample_query plan acc"
    by blast
  note p = r(3) [unfolded Let_def sample_shown [OF s(3) r(4)]]
  have "rows \<noteq> []" using p by (auto simp: row_page_def sort_by_def sample_want_def needed_def)
  moreover have "distinct rows" "set rows \<subseteq> {0}" using p by simp_all
  ultimately have "rows = [0]" by (cases rows; cases "tl rows") auto
  then have "map rk_row (fd_ranked f) = [0]" using p by (simp add: ranked_of_def)
  moreover have "fd_total f = 1" using p by (simp add: counts_right_def sample_want_def)
  ultimately show ?thesis
    using s(1) r(1,2) by (intro exI [of _ sb] exI [of _ lv] exI [of _ seg] exI [of _ plan] exI [of _ f] conjI)
qed

theorem search_is_brute_force_witness:
  "\<exists>sb lv seg plan f. from_bytes 1 1 sb = Ret (Inr lv) \<and> live_view lv = Inr seg
    \<and> run_with sample_outside (\<lambda>c k xs. sort_by c xs) seg plan (sample_want False) None [] = Ret f
    \<and> map hit_path (fd_hits f) = [str ''/a/main.rs''] \<and> fd_total f = 1"
proof -
  obtain sb lv where s: "from_bytes 1 1 sb = Ret (Inr lv)"
    "searchable_for sample_outside sample_entries lv sample_query (sample_want False)" "\<forall>i < 2. live_is_alive lv i"
    using sample_for .
  note a = s(2) [unfolded searchable_for_def live_searchable_def]
  have "distinct (map e_path sample_entries)" by (simp add: sample_entries_def sample_entry_def)
  with search_is_brute_force [OF s(2) sorting_selects, of False] sample_query_ok(2)
  obtain seg plan acc entries f where r: "live_view lv = Inr seg" "live_entries (x_memchr sample_outside) lv = Ret (Inr entries)"
    "run_with sample_outside (\<lambda>c k xs. sort_by c xs) seg plan (sample_want False) None [] = Ret f"
    "fd_hits f = drop (wn_offset (sample_want False)) (brute_force sample_outside entries sample_query
       (wn_sort (sample_want False)) (wn_descending (sample_want False)) (needed (sample_want False)))"
    "counts_right (sample_want False) (length (filter (\<lambda>e. ref_matches sample_outside e sample_query) entries)) f"
    by (auto simp: sample_want_def)
  have "live_entries (x_memchr sample_outside) lv
      = Ret (Inr (map (\<lambda>i. stored_entry (sample_entries ! i)) (filter (live_is_alive lv) [0 ..< length sample_entries])))"
    using a by (intro live_entries_of [where fold_bytes = "folded_bytes (x_unicode sample_outside)" and fold_case = "fold_str sample_outside"])
      (simp_all add: outside_ok_def)
  moreover have "filter (live_is_alive lv) [0 ..< length sample_entries] = [0, 1]"
    using s(3) by (simp add: sample_entries_def upt_rec)
  ultimately have "entries = map stored_entry sample_entries" using r(2) by (simp add: sample_entries_def)
  then have "filter (\<lambda>e. ref_matches sample_outside e sample_query) entries = [stored_entry (sample_entry (str ''/a/main.rs'') 20)]"
    using sample_answer by (simp add: sample_entries_def ref_matches_stored)
  then have "map hit_path (fd_hits f) = [str ''/a/main.rs''] \<and> fd_total f = 1"
    using r(4,5) by (simp add: brute_force_def brute_page_def sort_by_def sample_want_def needed_def counts_right_def hit_from_def stored_entry_def sample_entry_def)
  then show ?thesis
    using s(1) r(1,3) by (intro exI [of _ sb] exI [of _ lv] exI [of _ seg] exI [of _ plan] exI [of _ f]) simp
qed

end
