(* ===== verification/Doomed.thy ===== *)
theory Doomed
  imports Retire Narrow
begin

text \<open>
  Removing subtrees: \<open>Doomed\<close>, \<open>kill_leaves\<close> and \<open>kill_under\<close> of
  \<open>crates/scour-index-native/src/index.rs\<close>.

  A watcher says that a path is gone.  Where the path names no directory of a segment the row
  at it is found in the identity table; otherwise the batch of paths becomes, once a segment,
  a sorted list of ranges of directory numbers and a sorted list of named rows, and every row
  is asked against the two.  The lemmas show that the two lists answer like the slow question
  about every path of the batch, that a block skipped by its zone holds no victim, and which
  rows a removal leaves dead.
\<close>

section \<open>The batch, as a segment sees it\<close>

record doomed =
  dm_inside :: "(u32 \<times> u32) list"
  dm_named :: "(u32 \<times> bytes) list"

fun doomed_scan ::
  "dir_table \<Rightarrow> bytes list \<Rightarrow> (u32 \<times> u32) list \<Rightarrow> (u32 \<times> bytes) list \<Rightarrow> ((u32 \<times> u32) list \<times> (u32 \<times> bytes) list) run" where
  "doomed_scan t [] inside named = Ret (inside, named)"
| "doomed_scan t (p # ps) inside named =
     bind_run (subtree t p) (\<lambda>scope.
       let inside = inside @ (case own scope of Some o' \<Rightarrow> [(o', o' + 1)] | None \<Rightarrow> []);
           inside = inside @ (if below_start scope < below_end scope then [(below_start scope, below_end scope)] else [])
       in case rsplit_once SLASH (trim_slash p) of
            None \<Rightarrow> doomed_scan t ps inside named
          | Some (parent, name) \<Rightarrow>
              bind_run (exact t (if parent = [] then [SLASH] else parent)) (\<lambda>pd.
                doomed_scan t ps inside (named @ (case pd of Some pd \<Rightarrow> [(pd, name)] | None \<Rightarrow> []))))"

text \<open>The last range takes in the next when that begins at or before its end.\<close>

fun merge_ranges :: "('a::linorder \<times> 'a) list \<Rightarrow> ('a \<times> 'a) list \<Rightarrow> ('a \<times> 'a) list" where
  "merge_ranges merged [] = merged"
| "merge_ranges merged ((start, end_at) # rs) =
     (if merged \<noteq> [] \<and> start \<le> snd (last merged)
      then merge_ranges (butlast merged @ [(fst (last merged), max (snd (last merged)) end_at)]) rs
      else merge_ranges (merged @ [(start, end_at)]) rs)"

definition doomed_new :: "dir_table \<Rightarrow> prefix_set \<Rightarrow> doomed run" where
  "doomed_new t ps =
     bind_run (doomed_scan t (ps_paths ps) [] []) (\<lambda>(inside, named).
       Ret \<lparr>dm_inside = merge_ranges [] (sort inside), dm_named = sort named\<rparr>)"

definition doomed_is_empty :: "doomed \<Rightarrow> bool" where
  "doomed_is_empty d \<longleftrightarrow> dm_inside d = [] \<and> dm_named d = []"

text \<open>\<open>partition_point\<close> is the binary search of the prelude.\<close>

definition range_takes :: "('a::linorder \<times> 'a) list \<Rightarrow> 'a \<Rightarrow> bool" where
  "range_takes rs d =
     (let at = bsearch (\<lambda>i. snd (rs ! i) \<le> d) 0 (length rs)
      in case nth_opt rs at of Some (start, _) \<Rightarrow> start \<le> d | None \<Rightarrow> False)"

definition doomed_takes :: "(u8 \<Rightarrow> bytes \<Rightarrow> nat option) \<Rightarrow> doomed \<Rightarrow> segment \<Rightarrow> nat \<Rightarrow> u32 \<Rightarrow> bool" where
  "doomed_takes memchr dm seg row dir =
     (if range_takes (dm_inside dm) dir then True
      else if dm_named dm = [] then False
      else
        let at = bsearch (\<lambda>i. fst (dm_named dm ! i) < dir) 0 (length (dm_named dm))
        in case nth_opt (dm_named dm) at of
             None \<Rightarrow> False
           | Some (parent, _) \<Rightarrow>
               if parent \<noteq> dir then False
               else case arena_get memchr (sg_names seg) row of
                      None \<Rightarrow> False
                    | Some name \<Rightarrow>
                        list_ex (\<lambda>(_, n). n = name) (takeWhile (\<lambda>(parent, _). parent = dir) (drop at (dm_named dm))))"

definition doomed_touches :: "doomed \<Rightarrow> u32 \<Rightarrow> u32 \<Rightarrow> bool" where
  "doomed_touches dm lo hi =
     (if list_ex (\<lambda>(s, e). s \<le> hi \<and> lo < e) (dm_inside dm) then True
      else
        let at = bsearch (\<lambda>i. fst (dm_named dm ! i) < lo) 0 (length (dm_named dm))
        in case nth_opt (dm_named dm) at of Some (parent, _) \<Rightarrow> parent \<le> hi | None \<Rightarrow> False)"

section \<open>Killing what a batch takes\<close>

fun run_filter :: "('a \<Rightarrow> bool run) \<Rightarrow> 'a list \<Rightarrow> 'a list run" where
  "run_filter f [] = Ret []"
| "run_filter f (x # xs) =
     bind_run (f x) (\<lambda>yes. bind_run (run_filter f xs) (\<lambda>ys. Ret (if yes then x # ys else ys)))"

definition doomed_row :: "(u8 \<Rightarrow> bytes \<Rightarrow> nat option) \<Rightarrow> live \<Rightarrow> segment \<Rightarrow> doomed \<Rightarrow> nat \<Rightarrow> bool run" where
  "doomed_row memchr lv seg dm row =
     (if live_is_alive lv row
      then bind_run (seg_dir_id seg row) (\<lambda>d. Ret (doomed_takes memchr dm seg row d)) else Ret False)"

definition doomed_skips :: "segment \<Rightarrow> doomed \<Rightarrow> nat \<Rightarrow> bool" where
  "doomed_skips seg dm block =
     (case block_range (sg_cols seg) DirId block of
        Some (lo, hi) \<Rightarrow> 0 \<le> sint lo \<and> \<not> doomed_touches dm (ucast lo) (ucast hi)
      | None \<Rightarrow> False)"

text \<open>The victims of the blocks given, and of all of them.\<close>

fun scan_blocks :: "(nat \<Rightarrow> bool) \<Rightarrow> (nat \<Rightarrow> bool run) \<Rightarrow> nat \<Rightarrow> nat list \<Rightarrow> nat list run" where
  "scan_blocks skips takes rows [] = Ret []"
| "scan_blocks skips takes rows (block # blocks) =
     (if skips block then scan_blocks skips takes rows blocks
      else bind_run (run_filter takes [block * BLOCK ..< min (block * BLOCK + BLOCK) rows]) (\<lambda>found.
             bind_run (scan_blocks skips takes rows blocks) (\<lambda>rest. Ret (found @ rest))))"

definition kill_under :: "(u8 \<Rightarrow> bytes \<Rightarrow> nat option) \<Rightarrow> prefix_set \<Rightarrow> live \<Rightarrow> (u64 \<times> live) res run" where
  "kill_under memchr ps lv =
     (case live_view lv of
        Inl e \<Rightarrow> Ret (Inl e)
      | Inr seg \<Rightarrow>
          bind_run (doomed_new (sg_dirs seg) ps) (\<lambda>dm.
            bind_run (if doomed_is_empty dm then Ret []
                      else scan_blocks (doomed_skips seg dm) (doomed_row memchr lv seg dm) (lv_rows lv)
                             [0 ..< (lv_rows lv + BLOCK - 1) div BLOCK])
              (\<lambda>victims. Ret (Inr (kill_all victims lv 0)))))"

text \<open>The paths that name no directory of the segment, by identity; the rest is handed back.\<close>

fun leaves_scan ::
  "dir_table \<Rightarrow> u32 list \<Rightarrow> bytes list \<Rightarrow> bytes list \<Rightarrow> wanted_path list \<Rightarrow> (bytes list \<times> wanted_path list) run" where
  "leaves_scan t sources [] keep wanted = Ret (keep, wanted)"
| "leaves_scan t sources (p # ps) keep wanted =
     (let trimmed = trim_slash p
      in if sources = [] \<or> trimmed = [] then leaves_scan t sources ps (keep @ [p]) wanted
         else bind_run (subtree t p) (\<lambda>scope.
                if \<not> scope_is_empty scope then leaves_scan t sources ps (keep @ [p]) wanted
                else leaves_scan t sources ps keep (wanted @ map (\<lambda>s. (key_of s trimmed, s, trimmed)) sources)))"

definition kill_leaves ::
  "(u8 \<Rightarrow> bytes \<Rightarrow> nat option) \<Rightarrow> prefix_set \<Rightarrow> u32 list \<Rightarrow> live \<Rightarrow> (u64 \<times> prefix_set \<times> live) res run" where
  "kill_leaves memchr ps sources lv =
     (case live_view lv of
        Inl e \<Rightarrow> Ret (Inl e)
      | Inr seg \<Rightarrow>
          bind_run (leaves_scan (sg_dirs seg) sources (ps_paths ps) [] []) (\<lambda>(keep, wanted).
            let rest = prefix_set_new keep
            in if wanted = [] then Ret (Inr (0, rest, lv))
               else bind_run (kill_paths memchr (sort_key fst wanted) lv) (\<lambda>r. case r of
                      Inl e \<Rightarrow> Ret (Inl e)
                    | Inr (gone, lv) \<Rightarrow> Ret (Inr (gone, rest, lv)))))"

text \<open>One segment's part of a removal, as \<open>flush_prepare\<close> makes it.\<close>

definition remove_subtrees ::
  "(u8 \<Rightarrow> bytes \<Rightarrow> nat option) \<Rightarrow> prefix_set \<Rightarrow> u32 list \<Rightarrow> live \<Rightarrow> (u64 \<times> live) res run" where
  "remove_subtrees memchr ps sources lv =
     bind_run (kill_leaves memchr ps sources lv) (\<lambda>r. case r of
         Inl e \<Rightarrow> Ret (Inl e)
       | Inr (leaves, rest, lv) \<Rightarrow>
           if ps_paths rest = [] then Ret (Inr (leaves, lv))
           else bind_run (kill_under memchr rest lv) (\<lambda>r. case r of
                  Inl e \<Rightarrow> Ret (Inl e)
                | Inr (gone, lv) \<Rightarrow> Ret (Inr (leaves + gone, lv))))"

section \<open>Ranges\<close>

definition in_ranges :: "('a::linorder \<times> 'a) list \<Rightarrow> 'a \<Rightarrow> bool" where
  "in_ranges rs d \<longleftrightarrow> (\<exists>(s, e) \<in> set rs. s \<le> d \<and> d < e)"

text \<open>Disjoint, apart and rising.\<close>

definition ranges_apart :: "('a::linorder \<times> 'a) list \<Rightarrow> bool" where
  "ranges_apart rs \<longleftrightarrow> sorted_wrt (\<lambda>a b. snd a < fst b) rs \<and> (\<forall>(s, e) \<in> set rs. s \<le> e)"

lemma in_ranges_append [simp]: "in_ranges (rs @ qs) d \<longleftrightarrow> in_ranges rs d \<or> in_ranges qs d"
  by (auto simp: in_ranges_def)

lemma in_ranges_simps [simp]:
  "in_ranges [] d = False" "in_ranges ((s, e) # rs) d \<longleftrightarrow> s \<le> d \<and> d < e \<or> in_ranges rs d"
  by (auto simp: in_ranges_def)

lemma in_ranges_set: "set rs = set qs \<Longrightarrow> in_ranges rs d = in_ranges qs d"
  by (simp add: in_ranges_def)

lemma merge_ranges_of:
  assumes "ranges_apart merged" "\<forall>(s, e) \<in> set rs. s \<le> e" "sorted (map fst rs)"
    "\<forall>m \<in> set merged. \<forall>r \<in> set rs. fst m \<le> fst r"
  shows "ranges_apart (merge_ranges merged rs)
    \<and> (\<forall>d. in_ranges (merge_ranges merged rs) d \<longleftrightarrow> in_ranges merged d \<or> in_ranges rs d)
    \<and> (merge_ranges merged rs = [] \<longleftrightarrow> merged = [] \<and> rs = [])"
  using assms
proof (induction merged rs rule: merge_ranges.induct)
  case (2 merged start end_at rs)
  show ?case
  proof (cases "merged \<noteq> [] \<and> start \<le> snd (last merged)")
    case True
    obtain front s e where m: "merged = front @ [(s, e)]" using True by (metis append_butlast_last_id surj_pair)
    let ?m = "front @ [(s, max e end_at)]"
    have apart: "ranges_apart ?m" using "2.prems"(1) by (auto simp: ranges_apart_def m sorted_wrt_append max_def)
    have "s \<le> start" "start \<le> e" using "2.prems"(4) True by (auto simp: m)
    then have same: "in_ranges ?m d \<longleftrightarrow> in_ranges merged d \<or> (start \<le> d \<and> d < end_at)" for d
      by (auto simp: m less_max_iff_disj dest: order_trans)
    have "\<forall>x \<in> set ?m. \<forall>r \<in> set rs. fst x \<le> fst r" using "2.prems"(4) by (auto simp: m)
    then show ?thesis using "2.IH"(1) [OF True] "2.prems"(2,3) apart same True by (auto simp: m)
  next
    case False
    have last_max: "snd x \<le> snd (last merged)" if x: "x \<in> set merged" for x
    proof -
      obtain front l where m: "merged = front @ [l]" using x by (cases merged rule: rev_cases) auto
      have "fst l \<le> snd l" "\<forall>y \<in> set front. snd y < fst l"
        using "2.prems"(1) by (auto simp: m ranges_apart_def sorted_wrt_append)
      then show ?thesis using x by (auto simp: m)
    qed
    have "ranges_apart (merged @ [(start, end_at)])"
      using "2.prems"(1,2) False last_max by (force simp: ranges_apart_def sorted_wrt_append)
    moreover have "\<forall>x \<in> set (merged @ [(start, end_at)]). \<forall>r \<in> set rs. fst x \<le> fst r"
      using "2.prems"(3,4) by auto
    ultimately show ?thesis using "2.IH"(2) [OF False] "2.prems"(2,3) False by auto
  qed
qed simp

lemma range_takes_of:
  assumes "ranges_apart rs"
  shows "range_takes rs d \<longleftrightarrow> in_ranges rs d"
proof -
  let ?at = "bsearch (\<lambda>i. snd (rs ! i) \<le> d) 0 (length rs)"
  have le: "fst (rs ! i) \<le> snd (rs ! i)" if "i < length rs" for i
    using assms that nth_mem [OF that] by (cases "rs ! i") (auto simp: ranges_apart_def)
  have apart: "snd (rs ! i) < fst (rs ! j)" if "i < j" "j < length rs" for i j
    using assms that by (simp add: ranges_apart_def sorted_wrt_iff_nth_less)
  have mono: "snd (rs ! i) \<le> snd (rs ! j)" if "i \<le> j" "j < length rs" for i j
    using that apart [of i j] le [of j] by (cases "i = j") auto
  have spec: "(\<forall>i < ?at. snd (rs ! i) \<le> d) \<and> (\<forall>i < length rs. ?at \<le> i \<longrightarrow> \<not> snd (rs ! i) \<le> d)"
    by (rule bsearch_spec) (auto intro: order_trans [OF mono])
  have "in_ranges rs d \<longleftrightarrow> (\<exists>i < length rs. fst (rs ! i) \<le> d \<and> d < snd (rs ! i))"
    using ex_index [of rs "\<lambda>r. fst r \<le> d \<and> d < snd r"] by (simp add: in_ranges_def case_prod_beta)
  also have "\<dots> \<longleftrightarrow> ?at < length rs \<and> fst (rs ! ?at) \<le> d"
  proof
    assume "\<exists>i < length rs. fst (rs ! i) \<le> d \<and> d < snd (rs ! i)"
    then obtain i where i: "i < length rs" "fst (rs ! i) \<le> d" "d < snd (rs ! i)" by blast
    then have "?at \<le> i" using spec by (meson leD not_less)
    moreover have "\<not> ?at < i"
    proof
      assume "?at < i"
      then have "snd (rs ! ?at) < fst (rs ! i)" "\<not> snd (rs ! ?at) \<le> d" using apart i(1) spec by auto
      then show False using i(2) by simp
    qed
    ultimately show "?at < length rs \<and> fst (rs ! ?at) \<le> d" using i by simp
  next
    assume "?at < length rs \<and> fst (rs ! ?at) \<le> d"
    then show "\<exists>i < length rs. fst (rs ! i) \<le> d \<and> d < snd (rs ! i)" using spec by (meson not_le order_refl)
  qed
  finally show ?thesis by (simp add: range_takes_def Let_def nth_opt_def case_prod_beta)
qed

section \<open>Named rows\<close>

interpretation named_rows: sorted_table length "\<lambda>(t :: (u32 \<times> bytes) list) i. fst (t ! i)" sorted
proof
  fix t :: "(u32 \<times> bytes) list" and i j
  assume "sorted t" "i \<le> j" "j < length t"
  then have "t ! i \<le> t ! j" by (rule sorted_nth_mono)
  then show "fst (t ! i) \<le> fst (t ! j)" by (auto simp: less_eq_prod_def)
qed

lemma named_run:
  assumes "sorted (named :: (u32 \<times> bytes) list)" "at = bsearch (\<lambda>i. fst (named ! i) < d) 0 (length named)"
  shows "takeWhile (\<lambda>(parent, _). parent = d) (drop at named) = filter (\<lambda>r. fst r = (d :: u32)) named"
proof -
  have "drop at named = map ((!) named) [at ..< length named]"
    by (rule nth_equalityI) simp_all
  then have "takeWhile (\<lambda>(parent, _). parent = d) (drop at named)
      = map ((!) named) (takeWhile (\<lambda>i. fst (named ! i) = d) [at ..< length named])"
    by (simp add: takeWhile_map o_def case_prod_beta)
  also have "\<dots> = map ((!) named) (filter (\<lambda>i. fst (named ! i) = d) [0 ..< length named])"
    unfolding assms(2) named_rows.run_of_key [OF assms(1)] ..
  also have "\<dots> = filter (\<lambda>r. fst r = d) (map ((!) named) [0 ..< length named])"
    by (simp add: filter_map o_def)
  finally show ?thesis by (simp add: map_nth)
qed

lemma doomed_takes_eq:
  assumes "ranges_apart (dm_inside dm)" "sorted (dm_named dm)"
  shows "doomed_takes memchr dm seg row d \<longleftrightarrow> in_ranges (dm_inside dm) d
    \<or> (\<exists>name. arena_get memchr (sg_names seg) row = Some name \<and> (d, name) \<in> set (dm_named dm))"
proof -
  let ?at = "bsearch (\<lambda>i. fst (dm_named dm ! i) < d) 0 (length (dm_named dm))"
  note run = named_run [OF assms(2) refl, of d]
  have none: "\<not> (?at < length (dm_named dm) \<and> fst (dm_named dm ! ?at) = d) \<Longrightarrow> (d, name) \<notin> set (dm_named dm)" for name
  proof
    assume "\<not> (?at < length (dm_named dm) \<and> fst (dm_named dm ! ?at) = d)" "(d, name) \<in> set (dm_named dm)"
    then have "takeWhile (\<lambda>(parent, _). parent = d) (drop ?at (dm_named dm)) = []"
      by (cases "drop ?at (dm_named dm)") (auto simp: nth_via_drop)
    then show False using run \<open>(d, name) \<in> set (dm_named dm)\<close> by (auto simp: filter_empty_conv)
  qed
  show ?thesis
  proof (cases "?at < length (dm_named dm) \<and> fst (dm_named dm ! ?at) = d")
    case True
    then show ?thesis
      unfolding doomed_takes_def Let_def run
      by (auto simp: range_takes_of [OF assms(1)] nth_opt_def list_ex_iff case_prod_beta split: option.split)
  next
    case False
    then show ?thesis
      using none [OF False]
      by (auto simp: doomed_takes_def Let_def range_takes_of [OF assms(1)] nth_opt_def case_prod_beta)
  qed
qed

lemma doomed_takes_touches:
  assumes "ranges_apart (dm_inside dm)" "sorted (dm_named dm)" "doomed_takes memchr dm seg row d" "lo \<le> d" "d \<le> hi"
  shows "doomed_touches dm lo hi"
proof (cases "in_ranges (dm_inside dm) d")
  case True
  then obtain s e where "(s, e) \<in> set (dm_inside dm)" "s \<le> d" "d < e" by (auto simp: in_ranges_def)
  moreover from this have "s \<le> hi" "lo < e" using assms(4,5) by simp_all
  ultimately have "list_ex (\<lambda>(s, e). s \<le> hi \<and> lo < e) (dm_inside dm)" by (auto simp: list_ex_iff)
  then show ?thesis by (simp add: doomed_touches_def)
next
  case False
  let ?at = "bsearch (\<lambda>i. fst (dm_named dm ! i) < lo) 0 (length (dm_named dm))"
  obtain name where "(d, name) \<in> set (dm_named dm)"
    using assms(3) False doomed_takes_eq [OF assms(1,2)] by blast
  then obtain j where j: "j < length (dm_named dm)" "dm_named dm ! j = (d, name)" by (auto simp: in_set_conv_nth)
  then have "?at \<le> j" using named_rows.search_below [OF assms(2), of j lo] assms(4) by (metis fst_conv leD not_le)
  then have "?at < length (dm_named dm)" "fst (dm_named dm ! ?at) \<le> hi"
    using j named_rows.key_mono [OF assms(2), of ?at j] assms(5) by auto
  then show ?thesis by (simp add: doomed_touches_def Let_def nth_opt_def case_prod_beta)
qed

section \<open>What the batch takes\<close>

lemma scope_ranges:
  assumes fit: "dirs_fit ds" "sorted ds" "distinct ds" and s: "subtree (dir_view ds) p = Ret s"
  defines "rs \<equiv> (case own s of Some o' \<Rightarrow> [(o', o' + 1)] | None \<Rightarrow> [])
    @ (if below_start s < below_end s then [(below_start s, below_end s)] else [])"
  shows "in_ranges rs num \<longleftrightarrow> scope_contains s num" "\<forall>(a, b) \<in> set rs. a \<le> b"
proof -
  have o': "o' < o' + 1 \<and> (o' \<le> num \<and> num < o' + 1 \<longleftrightarrow> o' = num)" if "own s = Some o'" for o'
  proof -
    have "own s = (if trim_slash p \<in> set ds then Some (as_u32 (first_ge ds (trim_slash p))) else None)"
      using s by (auto simp: subtree_def Let_def exact_view [OF fit] lower_bound_view [OF fit(1,2)])
    then have "o' = as_u32 (first_ge ds (trim_slash p))" "first_ge ds (trim_slash p) < length ds"
      using first_ge_member [OF fit(2,3), of "trim_slash p"] that by (simp_all split: if_splits)
    then have "unat o' + 1 < 2 ^ 32" using fit(1) by (simp add: unat_u32 dirs_fit_def)
    then have u: "unat (o' + 1) = unat o' + 1" by (simp add: unat_word_ariths)
    then show ?thesis by (auto simp: word_le_nat_alt word_less_nat_alt intro: word_unat_eq_iff [THEN iffD2])
  qed
  show "in_ranges rs num \<longleftrightarrow> scope_contains s num"
    using o' by (cases "own s") (auto simp: rs_def scope_contains_def)
  show "\<forall>(a, b) \<in> set rs. a \<le> b"
    using o' by (cases "own s") (auto simp: rs_def)
qed

text \<open>One path of the batch, asked about a directory by its number and about a row by name.\<close>

definition path_holds :: "bytes \<Rightarrow> bytes \<Rightarrow> bool" where
  "path_holds p dir \<longleftrightarrow> dir = trim_slash p \<or> (\<exists>rest. dir = trim_slash p @ SLASH # rest)"

definition path_names :: "bytes \<Rightarrow> bytes \<Rightarrow> bytes \<Rightarrow> bool" where
  "path_names p dir name \<longleftrightarrow>
     (\<exists>parent. rsplit_once SLASH (trim_slash p) = Some (parent, name) \<and> parent \<noteq> [] \<and> trim_slash parent = dir)"

lemma trim_lone [simp]: "trim_slash [SLASH] = []"
  by (simp add: trim_slash_def)

lemma named_piece:
  assumes fit: "dirs_fit ds" "sorted ds" "distinct ds" and num: "unat num < length ds" "ds ! unat num \<noteq> []"
    and p: "rsplit_once SLASH (trim_slash p) = Some (parent, name)"
  shows "\<exists>pd. exact (dir_view ds) (if parent = [] then [SLASH] else parent) = Ret pd
    \<and> ((num, n) \<in> set (case pd of Some pd \<Rightarrow> [(pd, name)] | None \<Rightarrow> []) \<longleftrightarrow> n = name \<and> path_names p (ds ! unat num) n)"
proof -
  let ?d = "trim_slash (if parent = [] then [SLASH] else parent)"
  have e: "exact (dir_view ds) (if parent = [] then [SLASH] else parent)
      = Ret (if ?d \<in> set ds then Some (as_u32 (first_ge ds ?d)) else None)"
    by (simp add: exact_view [OF fit])
  have "?d \<in> set ds \<and> num = as_u32 (first_ge ds ?d) \<longleftrightarrow> ds ! unat num = ?d"
  proof
    assume d: "?d \<in> set ds \<and> num = as_u32 (first_ge ds ?d)"
    then have f: "first_ge ds ?d < length ds" "ds ! first_ge ds ?d = ?d" using first_ge_member [OF fit(2,3)] by blast+
    then have "unat num = first_ge ds ?d" using d fit(1) unat_u32 [of "first_ge ds ?d"] by (simp add: dirs_fit_def)
    then show "ds ! unat num = ?d" using f(2) by simp
  next
    assume d: "ds ! unat num = ?d"
    then have "?d \<in> set ds" using num(1) by (metis nth_mem)
    then have f: "first_ge ds ?d < length ds" "ds ! first_ge ds ?d = ?d" using first_ge_member [OF fit(2,3)] by blast+
    then have "first_ge ds ?d = unat num" using d num(1) fit(3) by (metis nth_eq_iff_index_eq)
    then show "?d \<in> set ds \<and> num = as_u32 (first_ge ds ?d)" using \<open>?d \<in> set ds\<close> by simp
  qed
  moreover have "path_names p (ds ! unat num) name \<longleftrightarrow> ds ! unat num = ?d"
    using p num(2) by (auto simp: path_names_def)
  ultimately show ?thesis using e by (auto split: option.splits)
qed

lemma doomed_scan_of:
  assumes fit: "dirs_fit ds" "sorted ds" "distinct ds" "\<forall>d \<in> set ds. d \<noteq> []"
  shows "\<exists>rs ns. doomed_scan (dir_view ds) ps inside named = Ret (inside @ rs, named @ ns) \<and> (\<forall>(a, b) \<in> set rs. a \<le> b)
    \<and> (\<forall>num. unat num < length ds \<longrightarrow>
         (in_ranges rs num \<longleftrightarrow> (\<exists>p \<in> set ps. path_holds p (ds ! unat num)))
         \<and> (\<forall>n. (num, n) \<in> set ns \<longleftrightarrow> (\<exists>p \<in> set ps. path_names p (ds ! unat num) n)))"
proof (induction ps arbitrary: inside named)
  case (Cons p ps)
  obtain s where s: "subtree (dir_view ds) p = Ret s" using subtree_total [OF fit(1-3)] by blast
  define rs1 where "rs1 = (case own s of Some o' \<Rightarrow> [(o', o' + 1)] | None \<Rightarrow> [])
    @ (if below_start s < below_end s then [(below_start s, below_end s)] else [])"
  note r1 = scope_ranges [OF fit(1-3) s, folded rs1_def]
  have holds: "in_ranges rs1 num \<longleftrightarrow> path_holds p (ds ! unat num)" if "unat num < length ds" for num
    using r1(1) scope_contains_view [OF fit(1-3) that s] by (simp add: path_holds_def)
  show ?case
  proof (cases "rsplit_once SLASH (trim_slash p)")
    case None
    obtain rs ns where IH: "doomed_scan (dir_view ds) ps (inside @ rs1) named = Ret ((inside @ rs1) @ rs, named @ ns)"
      "\<forall>(a, b) \<in> set rs. a \<le> b"
      "\<forall>num. unat num < length ds \<longrightarrow> (in_ranges rs num \<longleftrightarrow> (\<exists>p \<in> set ps. path_holds p (ds ! unat num)))
         \<and> (\<forall>n. (num, n) \<in> set ns \<longleftrightarrow> (\<exists>p \<in> set ps. path_names p (ds ! unat num) n))"
      using Cons by blast
    have "doomed_scan (dir_view ds) (p # ps) inside named = Ret (inside @ rs1 @ rs, named @ ns)"
      using IH(1) s None by (simp add: rs1_def Let_def)
    moreover have "\<forall>(a, b) \<in> set (rs1 @ rs). a \<le> b" using IH(2) r1(2) by auto
    moreover have "\<not> path_names p d n" for d n using None by (simp add: path_names_def)
    then have "(in_ranges (rs1 @ rs) num \<longleftrightarrow> (\<exists>p \<in> set (p # ps). path_holds p (ds ! unat num)))
        \<and> (\<forall>n. (num, n) \<in> set ns \<longleftrightarrow> (\<exists>p \<in> set (p # ps). path_names p (ds ! unat num) n))"
      if "unat num < length ds" for num
      using IH(3) holds [OF that] that by auto
    ultimately show ?thesis by blast
  next
    case (Some q)
    obtain parent name where q: "q = (parent, name)" by fastforce
    let ?piece = "\<lambda>pd. case pd of Some pd \<Rightarrow> [(pd, name)] | None \<Rightarrow> []"
    obtain pd where e: "exact (dir_view ds) (if parent = [] then [SLASH] else parent) = Ret pd"
      by (auto simp: exact_view [OF fit(1-3)])
    have ns1: "(num, n) \<in> set (?piece pd) \<longleftrightarrow> path_names p (ds ! unat num) n" if "unat num < length ds" for num n
    proof -
      have "ds ! unat num \<noteq> []" using fit(4) that by simp
      moreover have "path_names p d n \<Longrightarrow> n = name" for d using Some q by (auto simp: path_names_def)
      ultimately show ?thesis
        using named_piece [OF fit(1-3) that _ Some [unfolded q], of n] e by auto
    qed
    obtain rs ns where IH: "doomed_scan (dir_view ds) ps (inside @ rs1) (named @ ?piece pd)
        = Ret ((inside @ rs1) @ rs, (named @ ?piece pd) @ ns)"
      "\<forall>(a, b) \<in> set rs. a \<le> b"
      "\<forall>num. unat num < length ds \<longrightarrow> (in_ranges rs num \<longleftrightarrow> (\<exists>p \<in> set ps. path_holds p (ds ! unat num)))
         \<and> (\<forall>n. (num, n) \<in> set ns \<longleftrightarrow> (\<exists>p \<in> set ps. path_names p (ds ! unat num) n))"
      using Cons by blast
    have "doomed_scan (dir_view ds) (p # ps) inside named = Ret (inside @ rs1 @ rs, named @ ?piece pd @ ns)"
      using IH(1) s Some q e by (simp add: rs1_def Let_def)
    moreover have "\<forall>(a, b) \<in> set (rs1 @ rs). a \<le> b" using IH(2) r1(2) by auto
    moreover have "(in_ranges (rs1 @ rs) num \<longleftrightarrow> (\<exists>p \<in> set (p # ps). path_holds p (ds ! unat num)))
        \<and> (\<forall>n. (num, n) \<in> set (?piece pd @ ns) \<longleftrightarrow> (\<exists>p \<in> set (p # ps). path_names p (ds ! unat num) n))"
      if "unat num < length ds" for num
      unfolding set_append Un_iff in_ranges_append ns1 [OF that] holds [OF that] using IH(3) that by auto
    ultimately show ?thesis by blast
  qed
qed auto

text \<open>
  A path as a walk of the filesystem reports it: below a directory that is absolute and ends in
  no separator.
\<close>

definition walked_path :: "bytes \<Rightarrow> bool" where
  "walked_path path \<longleftrightarrow>
     (let d = entry_parent path in d \<noteq> [] \<and> hd d = SLASH \<and> (d = [SLASH] \<or> last d \<noteq> SLASH)) \<and> \<not> bare_root_name path"

text \<open>
  What a batch takes: what is at or below one of its paths, but for a row that sits directly in
  the root and is itself the path.
\<close>

definition batch_takes :: "bytes list \<Rightarrow> bytes \<Rightarrow> bool" where
  "batch_takes ps path \<longleftrightarrow> (\<exists>p \<in> set ps. under path p \<and> (entry_parent path = [SLASH] \<longrightarrow> trim_slash p \<noteq> path))"

lemma path_names_iff:
  assumes path: "walked_path path" and p: "trim_slash p = [] \<or> walked_path (trim_slash p)"
  shows "path_names p (entry_parent path) (entry_name path) \<longleftrightarrow> trim_slash p = path \<and> entry_parent path \<noteq> [SLASH]"
proof
  assume "path_names p (entry_parent path) (entry_name path)"
  then obtain parent where r: "rsplit_once SLASH (trim_slash p) = Some (parent, entry_name path)" "parent \<noteq> []"
    "trim_slash parent = entry_parent path"
    by (auto simp: path_names_def)
  then have s: "split_path (trim_slash p) = (parent, entry_name path)" by (simp add: split_path_def)
  then have e: "entry_parent (trim_slash p) = parent" "entry_name (trim_slash p) = entry_name path"
    by (simp_all add: split_path_entry)
  have w: "walked_path (trim_slash p)" using p r(1) by (auto simp: rsplit_once_def rfind_def)
  have d: "entry_parent path \<noteq> []" using path by (simp add: walked_path_def Let_def)
  then have "parent \<noteq> [SLASH]" using r(3) by auto
  then have "last parent \<noteq> SLASH" using w e(1) by (simp add: walked_path_def Let_def)
  then have same: "entry_parent (trim_slash p) = entry_parent path" using r(3) e(1) by (simp add: trim_slash_id)
  have "trim_slash p = join_path (entry_parent (trim_slash p)) (entry_name (trim_slash p))"
    using join_split [of "trim_slash p"] w by (simp add: walked_path_def)
  also have "\<dots> = path" using join_split [of path] path by (simp add: same e(2) walked_path_def)
  finally show "trim_slash p = path \<and> entry_parent path \<noteq> [SLASH]" using \<open>parent \<noteq> [SLASH]\<close> same e(1) by simp
next
  assume a: "trim_slash p = path \<and> entry_parent path \<noteq> [SLASH]"
  obtain q r where "rsplit_once SLASH path = Some (q, r)"
    using path by (cases "rsplit_once SLASH path") (auto simp: walked_path_def Let_def entry_parent_def rsplit_once_def)
  moreover then have "split_path path = (if q = [] then ([SLASH], r) else (q, r))" by (simp add: split_path_def)
  then have "q = entry_parent path" "r = entry_name path" using a by (auto simp: split_path_entry split: if_splits)
  moreover have "entry_parent path \<noteq> []" "trim_slash (entry_parent path) = entry_parent path"
    using path a by (simp_all add: walked_path_def Let_def trim_slash_id)
  ultimately show "path_names p (entry_parent path) (entry_name path)" using a by (simp add: path_names_def)
qed

lemma path_takes_row:
  assumes path: "walked_path path" and p: "trim_slash p = [] \<or> walked_path (trim_slash p)"
  shows "path_holds p (entry_parent path) \<or> path_names p (entry_parent path) (entry_name path)
    \<longleftrightarrow> under path p \<and> (entry_parent path = [SLASH] \<longrightarrow> trim_slash p \<noteq> path)"
proof (cases "trim_slash p = []")
  case True
  obtain d where "entry_parent path = SLASH # d" using path by (cases "entry_parent path") (auto simp: walked_path_def Let_def)
  moreover have "path \<noteq> []" using path by (auto simp: walked_path_def Let_def entry_parent_def rfind_def)
  ultimately show ?thesis using True by (simp add: path_holds_def under_iff)
next
  case False
  have join: "join_path (entry_parent path) (entry_name path) = path"
    using join_split path by (simp add: walked_path_def)
  have l: "last (trim_slash p) \<noteq> SLASH" using trim_slash_last [of p] False by blast
  have "path_holds p (entry_parent path) \<longleftrightarrow> (\<exists>rest. path = trim_slash p @ SLASH # rest)"
    unfolding path_holds_def join_under [OF entry_name_no_slash [of path] False l, symmetric] join ..
  moreover have "path \<noteq> trim_slash p" if "path = trim_slash p @ SLASH # rest" for rest using that by auto
  ultimately show ?thesis using path_names_iff [OF path p] False by (auto simp: under_iff)
qed

lemma doomed_new_of:
  assumes fit: "dirs_fit ds" "sorted ds" "distinct ds" "\<forall>d \<in> set ds. d \<noteq> []"
  obtains dm where "doomed_new (dir_view ds) s = Ret dm" "ranges_apart (dm_inside dm)" "sorted (dm_named dm)"
    "\<And>num n. unat num < length ds \<Longrightarrow> in_ranges (dm_inside dm) num \<or> (num, n) \<in> set (dm_named dm)
      \<longleftrightarrow> (\<exists>p \<in> set (ps_paths s). path_holds p (ds ! unat num) \<or> path_names p (ds ! unat num) n)"
proof -
  obtain rs ns where r: "doomed_scan (dir_view ds) (ps_paths s) [] [] = Ret (rs, ns)" "\<forall>(a, b) \<in> set rs. a \<le> b"
    "\<forall>num. unat num < length ds \<longrightarrow>
       (in_ranges rs num \<longleftrightarrow> (\<exists>p \<in> set (ps_paths s). path_holds p (ds ! unat num)))
       \<and> (\<forall>n. (num, n) \<in> set ns \<longleftrightarrow> (\<exists>p \<in> set (ps_paths s). path_names p (ds ! unat num) n))"
    using doomed_scan_of [OF fit, of "ps_paths s" "[]" "[]"] by auto
  have "sorted (map fst (sort rs))"
    by (rule sorted_map_mono [of _ fst, unfolded mono_on_def]) (auto simp: less_eq_prod_def)
  then have m: "ranges_apart (merge_ranges [] (sort rs)) \<and> (\<forall>d. in_ranges (merge_ranges [] (sort rs)) d \<longleftrightarrow> in_ranges (sort rs) d)"
    using merge_ranges_of [of "[]" "sort rs"] r(2) by (simp add: ranges_apart_def)
  have same: "in_ranges (sort rs) d \<longleftrightarrow> in_ranges rs d" for d by (rule in_ranges_set) simp
  show thesis
    by (rule that [of "\<lparr>dm_inside = merge_ranges [] (sort rs), dm_named = sort ns\<rparr>"])
       (use m same r in \<open>auto simp: doomed_new_def\<close>)
qed

section \<open>The rows a removal leaves\<close>

text \<open>A segment after rows died: which, how many, and nothing else changed.\<close>

definition retired ::
  "(u8 \<Rightarrow> bytes \<Rightarrow> nat option) \<Rightarrow> (bytes \<Rightarrow> bytes) \<Rightarrow> (bytes \<Rightarrow> bytes) \<Rightarrow> entry list \<Rightarrow> (nat \<Rightarrow> bool) \<Rightarrow> u64 \<Rightarrow> live \<Rightarrow> live \<Rightarrow> bool" where
  "retired memchr fold_bytes fold_case es die gone lv lv' \<longleftrightarrow>
     live_holds memchr fold_bytes fold_case es lv'
     \<and> (\<forall>i < length es. live_is_alive lv' i \<longleftrightarrow> live_is_alive lv i \<and> \<not> die i)
     \<and> live_rows lv' \<le> live_rows lv \<and> gone = of_nat (live_rows lv - live_rows lv')
     \<and> lv_deaths lv' = lv_deaths lv + gone"

lemma retired_cong:
  "retired memchr fold_bytes fold_case es die gone lv lv' \<Longrightarrow> (\<And>i. i < length es \<Longrightarrow> live_is_alive lv i \<Longrightarrow> die i = die' i)
    \<Longrightarrow> retired memchr fold_bytes fold_case es die' gone lv lv'"
  by (auto simp: retired_def)

lemma retired_none:
  "live_holds memchr fold_bytes fold_case es lv \<Longrightarrow> retired memchr fold_bytes fold_case es (\<lambda>i. False) 0 lv lv"
  by (simp add: retired_def)

lemma retired_trans:
  assumes "retired memchr fold_bytes fold_case es die gone lv lv'" "retired memchr fold_bytes fold_case es die' gone' lv' lv''"
  shows "retired memchr fold_bytes fold_case es (\<lambda>i. die i \<or> die' i) (gone + gone') lv lv''"
proof -
  have "live_rows lv'' \<le> live_rows lv'" "live_rows lv' \<le> live_rows lv" using assms by (simp_all add: retired_def)
  then have "of_nat (live_rows lv - live_rows lv') + of_nat (live_rows lv' - live_rows lv'') = (of_nat (live_rows lv - live_rows lv'') :: u64)"
    by (simp flip: of_nat_add)
  then show ?thesis using assms by (auto simp: retired_def add.assoc)
qed

lemma retired_kill_all:
  assumes "live_holds memchr fold_bytes fold_case es lv" "kill_all rows lv 0 = (gone, lv')" "\<forall>i \<in> set rows. i < length es"
  shows "retired memchr fold_bytes fold_case es (\<lambda>i. i \<in> set rows) gone lv lv'"
proof -
  have rows: "lv_rows lv = length es" "length (lv_alive lv) = (lv_rows lv + 7) div 8"
    using assms(1) by (simp_all add: live_holds_def)
  note k = kill_all_of [OF assms(2) _ rows(2)]
  show ?thesis using k assms(1,3) rows by (simp add: retired_def live_holds_def)
qed

lemma retired_kill_paths:
  assumes "memchr_law memchr" "entries_fit fold_bytes es" "live_holds memchr fold_bytes fold_case es lv" "plain_paths es"
    "wanted_ok wanted"
  obtains gone lv' where "kill_paths memchr wanted lv = Ret (Inr (gone, lv'))"
    "retired memchr fold_bytes fold_case es (\<lambda>i. \<exists>(_, source, path) \<in> set wanted. same_path (es ! i) source path) gone lv lv'"
  using kill_paths_of [OF assms] unfolding retired_def by blast

lemma run_filter_Ret:
  "(\<And>x. x \<in> set xs \<Longrightarrow> f x = Ret (P x)) \<Longrightarrow> run_filter f xs = Ret (filter P xs)"
  by (induction xs) simp_all

lemma scan_blocks_append:
  "scan_blocks skips takes rows (bs @ cs) = bind_run (scan_blocks skips takes rows bs) (\<lambda>xs.
     bind_run (scan_blocks skips takes rows cs) (\<lambda>ys. Ret (xs @ ys)))"
proof (induction bs)
  case Nil
  then show ?case by (cases "scan_blocks skips takes rows cs") simp_all
next
  case (Cons b bs)
  show ?case
    using Cons by (cases "run_filter takes [b * BLOCK ..< min (b * BLOCK + BLOCK) rows]";
        cases "scan_blocks skips takes rows bs"; cases "scan_blocks skips takes rows cs") simp_all
qed

text \<open>Skipping a block that holds no victim loses nothing.\<close>

lemma scan_blocks_upto:
  assumes takes: "\<And>i. i < rows \<Longrightarrow> takes i = Ret (P i)"
    and skips: "\<And>i. i < rows \<Longrightarrow> skips (i div BLOCK) \<Longrightarrow> \<not> P i"
  shows "scan_blocks skips takes rows [0 ..< m] = Ret (filter P [0 ..< min (m * BLOCK) rows])"
proof (induction m)
  case (Suc m)
  let ?is = "[m * BLOCK ..< min (m * BLOCK + BLOCK) rows]"
  have one: "scan_blocks skips takes rows [m] = Ret (filter P ?is)"
  proof (cases "skips m")
    case True
    have "\<not> P i" if "i \<in> set ?is" for i
    proof -
      have "i div BLOCK = m" by (rule div_nat_eqI) (use that in simp_all)
      then show ?thesis using skips [of i] that True by simp
    qed
    then have "filter P ?is = []" by (simp only: filter_empty_conv) blast
    then show ?thesis using True by simp
  next
    case False
    have "run_filter takes ?is = Ret (filter P ?is)" using takes by (intro run_filter_Ret) simp
    then show ?thesis using False by simp
  qed
  have "[0 ..< min (Suc m * BLOCK) rows] = [0 ..< min (m * BLOCK) rows] @ ?is"
  proof (cases "m * BLOCK \<le> rows")
    case True
    then show ?thesis using upt_add_eq_append [of 0 "m * BLOCK" "min (m * BLOCK + BLOCK) rows - m * BLOCK"]
      by (simp add: min_def add.commute)
  qed simp
  then show ?case using Suc one by (simp add: scan_blocks_append)
qed simp

lemma scan_blocks_all:
  assumes "\<And>i. i < rows \<Longrightarrow> takes i = Ret (P i)" "\<And>i. i < rows \<Longrightarrow> skips (i div BLOCK) \<Longrightarrow> \<not> P i"
  shows "scan_blocks skips takes rows [0 ..< (rows + BLOCK - 1) div BLOCK] = Ret (filter P [0 ..< rows])"
proof -
  have "rows \<le> (rows + BLOCK - 1) div BLOCK * BLOCK" by simp
  then show ?thesis using scan_blocks_upto [of rows takes P skips, OF assms] by (simp add: min_def)
qed

text \<open>The zone of a row's block holds the row's directory.\<close>

lemma dir_zone:
  assumes "entries_fit fold_bytes es" "holds_entries fold_bytes fold_case es seg" "i < length es"
  defines "d \<equiv> dir_number (entry_dirs es) (entry_parent (e_path (es ! i)))"
  obtains lo hi where "block_range (sg_cols seg) DirId (i div BLOCK) = Some (ucast (lo :: u32), ucast (hi :: u32))"
    "lo \<le> d" "d \<le> hi"
proof -
  let ?rs = "entry_rows fold_case es"
  have fits: "column_fits ?rs" using entry_rows_ok [OF assms(1)] by (simp add: column_rows_ok_def)
  have at: "?rs ! j ! field_index DirId = ucast (dir_number (entry_dirs es) (entry_parent (e_path (es ! j))))" if "j < length es" for j
    using that entry_row_index [of fold_case _ "es ! j" DirId] by (simp add: entry_rows_def entry_cell_def)
  obtain least greatest where r: "block_range (column_view ?rs) DirId (i div BLOCK) = Some (least, greatest)"
    "sint least \<le> sint (?rs ! i ! field_index DirId)" "sint (?rs ! i ! field_index DirId) \<le> sint greatest"
    "least \<in> (\<lambda>r. r ! field_index DirId) ` set ?rs" "greatest \<in> (\<lambda>r. r ! field_index DirId) ` set ?rs"
    using column_range_vals [OF fits, of i DirId] assms(3) by auto
  have cell: "\<exists>w :: u32. v = ucast w" if "v \<in> (\<lambda>r. r ! field_index DirId) ` set ?rs" for v
    using that at by (auto simp: in_set_conv_nth) (rule exI, rule refl)
  obtain lo hi :: u32 where "least = ucast lo" "greatest = ucast hi" using cell r(4,5) by blast
  then show thesis
    using that [of lo hi] r(1-3) at [OF assms(3)] assms(2) by (simp add: d_def dir_cell holds_entries_def)
qed

lemma entry_dirs_named:
  assumes "entries_fit fold_bytes es" "\<forall>e \<in> set es. walked_path (e_path e)"
  shows "dirs_fit (entry_dirs es)" "sorted (entry_dirs es)" "distinct (entry_dirs es)" "\<forall>d \<in> set (entry_dirs es). d \<noteq> []"
  using assms dirs_small_fit
  by (auto simp: entries_fit_def entry_dirs_def entry_parents_def walked_path_def Let_def)

text \<open>A row is taken exactly when a path of the batch takes it.\<close>

lemma doomed_takes_row:
  assumes m: "memchr_law memchr" and fit: "entries_fit fold_bytes es" and h: "holds_entries fold_bytes fold_case es seg"
    and walked: "\<forall>e \<in> set es. walked_path (e_path e)"
    and ps: "\<forall>p \<in> set (ps_paths s). trim_slash p = [] \<or> walked_path (trim_slash p)"
  obtains dm where "doomed_new (sg_dirs seg) s = Ret dm" "ranges_apart (dm_inside dm)" "sorted (dm_named dm)"
    "\<And>i. i < length es \<Longrightarrow> doomed_takes memchr dm seg i (dir_number (entry_dirs es) (entry_parent (e_path (es ! i))))
       \<longleftrightarrow> batch_takes (ps_paths s) (e_path (es ! i))"
proof -
  note ds = entry_dirs_named [OF fit walked]
  obtain dm where dm: "doomed_new (dir_view (entry_dirs es)) s = Ret dm" "ranges_apart (dm_inside dm)" "sorted (dm_named dm)"
    "\<And>num n. unat num < length (entry_dirs es) \<Longrightarrow> in_ranges (dm_inside dm) num \<or> (num, n) \<in> set (dm_named dm)
      \<longleftrightarrow> (\<exists>p \<in> set (ps_paths s). path_holds p (entry_dirs es ! unat num) \<or> path_names p (entry_dirs es ! unat num) n)"
    using doomed_new_of [OF ds] by blast
  have "doomed_takes memchr dm seg i (dir_number (entry_dirs es) (entry_parent (e_path (es ! i))))
      \<longleftrightarrow> batch_takes (ps_paths s) (e_path (es ! i))" if i: "i < length es" for i
  proof -
    let ?path = "e_path (es ! i)" and ?d = "dir_number (entry_dirs es) (entry_parent (e_path (es ! i)))"
    have "entry_parent ?path \<in> set (entry_dirs es)" using i by (simp add: entry_dirs_def entry_parents_def)
    note num = dir_number_in [OF this entry_dirs_length [OF fit]]
    have "arena_get memchr (sg_names seg) i = Some (entry_name ?path)" using name_of_row [OF m fit h] i by simp
    then have "doomed_takes memchr dm seg i ?d \<longleftrightarrow> in_ranges (dm_inside dm) ?d \<or> (?d, entry_name ?path) \<in> set (dm_named dm)"
      using doomed_takes_eq [OF dm(2,3)] by simp
    also have "\<dots> \<longleftrightarrow> (\<exists>p \<in> set (ps_paths s). path_holds p (entry_parent ?path) \<or> path_names p (entry_parent ?path) (entry_name ?path))"
      using dm(4) [OF num(1)] num(2) by simp
    also have "\<dots> \<longleftrightarrow> batch_takes (ps_paths s) ?path"
      unfolding batch_takes_def by (intro bex_cong path_takes_row refl) (use ps walked i in auto)
    finally show ?thesis .
  qed
  moreover have "sg_dirs seg = dir_view (entry_dirs es)" using h by (simp add: holds_entries_def)
  ultimately show thesis using that dm(1-3) by simp
qed

lemma batch_takes_Nil [simp]: "\<not> batch_takes [] path"
  by (simp add: batch_takes_def)

lemma kill_under_of:
  assumes m: "memchr_law memchr" and fit: "entries_fit fold_bytes es" and lv: "live_holds memchr fold_bytes fold_case es lv"
    and walked: "\<forall>e \<in> set es. walked_path (e_path e)"
    and ps: "\<forall>p \<in> set (ps_paths s). trim_slash p = [] \<or> walked_path (trim_slash p)"
  obtains gone lv' where "kill_under memchr s lv = Ret (Inr (gone, lv'))"
    "retired memchr fold_bytes fold_case es (\<lambda>i. batch_takes (ps_paths s) (e_path (es ! i))) gone lv lv'"
proof -
  obtain seg where seg: "live_view lv = Inr seg" "holds_entries fold_bytes fold_case es seg"
    using live_view_holds [OF lv fit] by blast
  obtain dm where dm: "doomed_new (sg_dirs seg) s = Ret dm" "ranges_apart (dm_inside dm)" "sorted (dm_named dm)"
    "\<And>i. i < length es \<Longrightarrow> doomed_takes memchr dm seg i (dir_number (entry_dirs es) (entry_parent (e_path (es ! i))))
       \<longleftrightarrow> batch_takes (ps_paths s) (e_path (es ! i))"
    using doomed_takes_row [OF m fit seg(2) walked ps] by blast
  let ?die = "\<lambda>i. live_is_alive lv i \<and> batch_takes (ps_paths s) (e_path (es ! i))"
  have n: "lv_rows lv = length es" using lv by (simp add: live_holds_def)
  have victims: "(if doomed_is_empty dm then Ret []
      else scan_blocks (doomed_skips seg dm) (doomed_row memchr lv seg dm) (lv_rows lv) [0 ..< (lv_rows lv + BLOCK - 1) div BLOCK])
    = Ret (filter ?die [0 ..< length es])"
  proof (cases "doomed_is_empty dm")
    case True
    then have "\<not> batch_takes (ps_paths s) (e_path (es ! i))" if "i < length es" for i
      using dm(4) [OF that] doomed_takes_eq [OF dm(2,3)] by (simp add: doomed_is_empty_def)
    then show ?thesis using True by (auto simp: filter_empty_conv)
  next
    case False
    have "scan_blocks (doomed_skips seg dm) (doomed_row memchr lv seg dm) (length es) [0 ..< (length es + BLOCK - 1) div BLOCK]
        = Ret (filter ?die [0 ..< length es])"
    proof (rule scan_blocks_all)
      show "doomed_row memchr lv seg dm i = Ret (?die i)" if "i < length es" for i
        using that dm(4) seg_dir_of(1) [OF fit seg(2)] by (simp add: doomed_row_def)
      fix i assume i: "i < length es" and skip: "doomed_skips seg dm (i div BLOCK)"
      obtain lo hi where z: "block_range (sg_cols seg) DirId (i div BLOCK) = Some (ucast (lo :: u32), ucast (hi :: u32))"
        "lo \<le> dir_number (entry_dirs es) (entry_parent (e_path (es ! i)))" "dir_number (entry_dirs es) (entry_parent (e_path (es ! i))) \<le> hi"
        using dir_zone [OF fit seg(2) i] by blast
      have "\<not> doomed_touches dm lo hi" using skip z(1) by (simp add: doomed_skips_def dir_cell)
      then show "\<not> ?die i" using doomed_takes_touches [OF dm(2,3) _ z(2,3)] dm(4) [OF i] by blast
    qed
    then show ?thesis using False n by simp
  qed
  obtain gone lv' where k: "kill_all (filter ?die [0 ..< length es]) lv 0 = (gone, lv')" by fastforce
  have "kill_under memchr s lv = Ret (Inr (gone, lv'))"
    using k by (simp add: kill_under_def seg(1) dm(1) victims)
  moreover have "retired memchr fold_bytes fold_case es (\<lambda>i. i \<in> set (filter ?die [0 ..< length es])) gone lv lv'"
    by (rule retired_kill_all [OF lv k]) simp
  then have "retired memchr fold_bytes fold_case es (\<lambda>i. batch_takes (ps_paths s) (e_path (es ! i))) gone lv lv'"
    by (rule retired_cong) auto
  ultimately show thesis by (rule that)
qed

text \<open>A path of the batch that names no directory of the segment.\<close>

definition leaf_path :: "bytes list \<Rightarrow> bytes \<Rightarrow> bool" where
  "leaf_path ds p \<longleftrightarrow> trim_slash p \<noteq> [] \<and> (\<forall>d \<in> set ds. \<not> path_holds p d)"

definition leaf_keys :: "u32 list \<Rightarrow> bytes \<Rightarrow> wanted_path list" where
  "leaf_keys sources p = map (\<lambda>s. (key_of s (trim_slash p), s, trim_slash p)) sources"

lemma scope_is_empty_iff:
  assumes fit: "dirs_fit ds" "sorted ds" "distinct ds" and s: "subtree (dir_view ds) p = Ret s"
  shows "scope_is_empty s \<longleftrightarrow> (\<forall>d \<in> set ds. \<not> path_holds p d)"
proof
  assume e: "scope_is_empty s"
  show "\<forall>d \<in> set ds. \<not> path_holds p d"
  proof
    fix d assume "d \<in> set ds"
    then obtain k where k: "k < length ds" "ds ! k = d" by (auto simp: in_set_conv_nth)
    then have u: "unat (as_u32 k) = k" using fit(1) by (simp add: unat_u32 dirs_fit_def)
    have "\<not> scope_contains s (as_u32 k)" using scope_empty_contains [OF e] .
    then show "\<not> path_holds p d"
      using scope_contains_view [OF fit _ s, of "as_u32 k"] k by (simp add: u path_holds_def)
  qed
next
  assume none: "\<forall>d \<in> set ds. \<not> path_holds p d"
  have out: "\<not> scope_contains s num" if "unat num < length ds" for num
    using scope_contains_view [OF fit that s] none that by (simp add: path_holds_def)
  have parts: "own s = (if trim_slash p \<in> set ds then Some (as_u32 (first_ge ds (trim_slash p))) else None)"
    "below_start s = as_u32 (first_ge ds (trim_slash p @ [SLASH]))"
    "below_end s = max (as_u32 (first_ge ds (trim_slash p @ [0x30]))) (below_start s)"
    using s by (auto simp: subtree_def Let_def exact_view [OF fit] lower_bound_view [OF fit(1,2)])
  have n: "length ds < 2 ^ 32" using fit(1) by (simp add: dirs_fit_def)
  have u: "unat (as_u32 (first_ge ds x)) = first_ge ds x" for x
    using first_ge_le [of ds x] n by (intro unat_u32) simp
  have "own s = None"
  proof (rule ccontr)
    assume "own s \<noteq> None"
    then have "own s = Some (as_u32 (first_ge ds (trim_slash p)))" "first_ge ds (trim_slash p) < length ds"
      using parts(1) first_ge_member [OF fit(2,3)] by (auto split: if_splits)
    then show False using out [of "as_u32 (first_ge ds (trim_slash p))"] by (simp add: u scope_contains_def)
  qed
  moreover have "\<not> below_start s < below_end s"
  proof
    assume b: "below_start s < below_end s"
    then have "unat (below_start s) < first_ge ds (trim_slash p @ [0x30])"
      using parts(3) by (auto simp: word_less_nat_alt u max_def split: if_splits)
    then have "unat (below_start s) < length ds" using first_ge_le [of ds "trim_slash p @ [0x30]"] by simp
    then show False using out b by (auto simp: scope_contains_def)
  qed
  ultimately show "scope_is_empty s" by (simp add: scope_is_empty_def)
qed

lemma leaves_scan_of:
  assumes fit: "dirs_fit ds" "sorted ds" "distinct ds" and src: "sources \<noteq> []"
  shows "leaves_scan (dir_view ds) sources ps keep wanted = Ret (keep @ filter (\<lambda>p. \<not> leaf_path ds p) ps,
    wanted @ concat (map (leaf_keys sources) (filter (leaf_path ds) ps)))"
proof (induction ps arbitrary: keep wanted)
  case (Cons p ps)
  obtain s where s: "subtree (dir_view ds) p = Ret s" using subtree_total [OF fit] by blast
  have "scope_is_empty s \<and> trim_slash p \<noteq> [] \<longleftrightarrow> leaf_path ds p"
    using scope_is_empty_iff [OF fit s] by (auto simp: leaf_path_def)
  then show ?case using src s by (auto simp: Let_def Cons leaf_keys_def)
qed simp

lemma leaves_scan_nowhere: "leaves_scan t [] ps keep wanted = Ret (keep @ ps, wanted)"
  by (induction ps arbitrary: keep) (simp_all add: Let_def)

definition taken_leaf :: "bytes list \<Rightarrow> u32 list \<Rightarrow> bytes list \<Rightarrow> entry \<Rightarrow> bool" where
  "taken_leaf ds sources ps e \<longleftrightarrow> id_source (e_id e) \<in> set sources \<and> (\<exists>p \<in> set ps. leaf_path ds p \<and> e_path e = trim_slash p)"

lemma kill_leaves_of:
  assumes m: "memchr_law memchr" and fit: "entries_fit fold_bytes es" and lv: "live_holds memchr fold_bytes fold_case es lv"
    and walked: "\<forall>e \<in> set es. walked_path (e_path e)" and src: "sources \<noteq> []"
    and ps: "\<forall>p \<in> set (ps_paths s). trim_slash p = [] \<or> walked_path (trim_slash p)"
  obtains gone lv' where "kill_leaves memchr s sources lv
      = Ret (Inr (gone, prefix_set_new (filter (\<lambda>p. \<not> leaf_path (entry_dirs es) p) (ps_paths s)), lv'))"
    "retired memchr fold_bytes fold_case es (\<lambda>i. taken_leaf (entry_dirs es) sources (ps_paths s) (es ! i)) gone lv lv'"
proof -
  let ?ds = "entry_dirs es"
  let ?wanted = "concat (map (leaf_keys sources) (filter (leaf_path ?ds) (ps_paths s)))"
  let ?rest = "prefix_set_new (filter (\<lambda>p. \<not> leaf_path ?ds p) (ps_paths s))"
  obtain seg where seg: "live_view lv = Inr seg" "holds_entries fold_bytes fold_case es seg"
    using live_view_holds [OF lv fit] by blast
  have view: "sg_dirs seg = dir_view ?ds" using seg(2) by (simp add: holds_entries_def)
  have plain: "plain_paths es" using walked by (auto simp: plain_paths_def walked_path_def)
  have "wanted_ok (sort_key fst ?wanted)"
    using ps by (fastforce simp: wanted_ok_def leaf_keys_def leaf_path_def walked_path_def)
  then obtain gone lv' where k: "kill_paths memchr (sort_key fst ?wanted) lv = Ret (Inr (gone, lv'))"
    "retired memchr fold_bytes fold_case es (\<lambda>i. \<exists>(_, source, path) \<in> set (sort_key fst ?wanted). same_path (es ! i) source path) gone lv lv'"
    using retired_kill_paths [OF m fit lv plain] by blast
  have taken: "(\<exists>(_, source, path) \<in> set (sort_key fst ?wanted). same_path e source path) \<longleftrightarrow> taken_leaf ?ds sources (ps_paths s) e" for e
    by (auto simp: leaf_keys_def same_path_def taken_leaf_def)
  have run: "kill_leaves memchr s sources lv = Ret (Inr (gone, ?rest, lv'))"
    if "?wanted \<noteq> []"
    using that k(1) seg(1) view leaves_scan_of [OF entry_dirs_named(1-3) [OF fit walked] src, of "ps_paths s" "[]" "[]"]
    by (simp add: kill_leaves_def Let_def del: concat_eq_Nil_conv)
  have none: "kill_leaves memchr s sources lv = Ret (Inr (0, ?rest, lv))" if "?wanted = []"
    using that seg(1) view leaves_scan_of [OF entry_dirs_named(1-3) [OF fit walked] src, of "ps_paths s" "[]" "[]"]
    by (simp add: kill_leaves_def Let_def del: concat_eq_Nil_conv)
  show thesis
  proof (cases "?wanted = []")
    case True
    have "\<not> taken_leaf ?ds sources (ps_paths s) e" for e using True unfolding taken [symmetric] by simp
    then have "retired memchr fold_bytes fold_case es (\<lambda>i. taken_leaf ?ds sources (ps_paths s) (es ! i)) 0 lv lv"
      using retired_none [OF lv] by simp
    then show thesis using that none [OF True] by blast
  next
    case False
    then show thesis using that run [OF False] k(2) unfolding taken by blast
  qed
qed

text \<open>Reducing a batch takes nothing from it.\<close>

lemma under_antisym:
  assumes "under p q" "under q p" "trim_slash p \<noteq> []" "trim_slash q \<noteq> []"
  shows "trim_slash p = trim_slash q"
proof -
  have "under (trim_slash p) (trim_slash q)" "under (trim_slash q) (trim_slash p)"
    using assms(1,2) by (simp_all add: under_trim_path)
  then obtain x y where x: "trim_slash p = trim_slash q @ x" and y: "trim_slash q = trim_slash p @ y"
    using assms(3,4) unfolding under_iff trim_slash_idem by (metis append_Nil2)
  have "trim_slash p = trim_slash p @ (y @ x)" using x y by (metis append.assoc)
  then have "y = []" by simp
  then show ?thesis using y by simp
qed

lemma batch_takes_new: "batch_takes (ps_paths (prefix_set_new ps)) path \<longleftrightarrow> batch_takes ps path"
proof
  let ?ks = "ps_paths (prefix_set_new ps)" and ?ps = "remdups_adj (sort (map trim_slash ps))"
  have ks: "?ks = keep_loop [] ?ps" by (simp add: prefix_set_new_def reduce_def Let_def)
  show "batch_takes ps path" if takes: "batch_takes ?ks path"
  proof -
    obtain k where k: "k \<in> set ?ks" "under path k" "entry_parent path = [SLASH] \<longrightarrow> trim_slash k \<noteq> path"
      using takes unfolding batch_takes_def by blast
    then obtain p where "p \<in> set ps" "k = trim_slash p" using set_keep_loop [of "[]" ?ps] by (auto simp: ks set_reduced)
    then show ?thesis using k(2,3) by (auto simp: batch_takes_def)
  qed
  show "batch_takes ?ks path" if takes: "batch_takes ps path"
  proof -
    obtain p where p: "p \<in> set ps" "under path p" "entry_parent path = [SLASH] \<longrightarrow> trim_slash p \<noteq> path"
      using takes unfolding batch_takes_def by blast
    then obtain k where k: "k \<in> set ?ks" "under (trim_slash p) k"
      using keep_loop_covers [of "trim_slash p" "[]" ?ps] by (auto simp: ks set_reduced)
    have "trim_slash k \<noteq> path" if root: "entry_parent path = [SLASH]"
    proof
      assume same: "trim_slash k = path"
      have "path \<noteq> []" using root by (auto simp: entry_parent_def rfind_def)
      have "under p path" using k(2) same by (metis under_trim under_trim_path)
      then have "under (trim_slash p) path" by (simp add: under_trim_path)
      moreover have "trim_slash p \<noteq> path" using p(3) root by blast
      moreover have "trim_slash path = path" using same by auto
      ultimately show False
        using p(2) under_antisym [of p path] \<open>path \<noteq> []\<close> \<open>under p path\<close>
        by (cases "trim_slash p = []") (simp_all add: under_iff [of "[]"])
    qed
    moreover have "under path k" using p(2) k(2) by (metis under_trans under_trim under_trim_path)
    ultimately show ?thesis using k(1) by (auto simp: batch_takes_def)
  qed
qed

text \<open>
  What a removal takes of a segment: a row at or below a path of the batch, unless the row is
  the path, sits directly in the root, and the segment holds something below it.
\<close>

definition removal_takes :: "entry list \<Rightarrow> bytes list \<Rightarrow> bytes \<Rightarrow> bool" where
  "removal_takes es ps path \<longleftrightarrow>
     (\<exists>p \<in> set ps. under path p \<and> \<not> (entry_parent path = [SLASH] \<and> trim_slash p = path
        \<and> (\<exists>e \<in> set es. \<exists>rest. e_path e = path @ SLASH # rest)))"

lemma leaf_path_iff:
  assumes "\<forall>e \<in> set es. walked_path (e_path e)" "trim_slash p \<noteq> []"
  shows "leaf_path (entry_dirs es) p \<longleftrightarrow> \<not> (\<exists>e \<in> set es. \<exists>rest. e_path e = trim_slash p @ SLASH # rest)"
proof -
  have l: "last (trim_slash p) \<noteq> SLASH" using trim_slash_last [of p] assms(2) by blast
  have "path_holds p (entry_parent (e_path e)) \<longleftrightarrow> (\<exists>rest. e_path e = trim_slash p @ SLASH # rest)" if "e \<in> set es" for e
  proof -
    have "join_path (entry_parent (e_path e)) (entry_name (e_path e)) = e_path e"
      using join_split assms(1) that by (auto simp: walked_path_def)
    then show ?thesis
      unfolding path_holds_def join_under [OF entry_name_no_slash [of "e_path e"] assms(2) l, symmetric] by simp
  qed
  then show ?thesis using assms(2) by (auto simp: leaf_path_def entry_dirs_def entry_parents_def)
qed

lemma removal_split:
  assumes "\<forall>e \<in> set es. walked_path (e_path e)" "e \<in> set es" "id_source (e_id e) \<in> set sources"
  shows "taken_leaf (entry_dirs es) sources ps e \<or> batch_takes (filter (\<lambda>p. \<not> leaf_path (entry_dirs es) p) ps) (e_path e)
    \<longleftrightarrow> removal_takes es ps (e_path e)"
proof -
  have leaf: "leaf_path (entry_dirs es) p \<Longrightarrow> under (e_path e) p \<longleftrightarrow> e_path e = trim_slash p" for p
    using leaf_path_iff [OF assms(1), of p] assms(2) by (auto simp: leaf_path_def under_iff)
  have branch: "(\<exists>e \<in> set es. \<exists>rest. e_path e = trim_slash p @ SLASH # rest)"
    if "\<not> leaf_path (entry_dirs es) p" "trim_slash p = e_path e" for p
  proof -
    have "e_path e \<noteq> []" using assms(1,2) by (auto simp: walked_path_def Let_def entry_parent_def rfind_def)
    then show ?thesis using leaf_path_iff [OF assms(1), of p] that by auto
  qed
  let ?root = "entry_parent (e_path e) = [SLASH]" and ?leaf = "leaf_path (entry_dirs es)"
  have "(?leaf p \<and> e_path e = trim_slash p) \<or> (\<not> ?leaf p \<and> under (e_path e) p \<and> (?root \<longrightarrow> trim_slash p \<noteq> e_path e))
    \<longleftrightarrow> under (e_path e) p \<and> \<not> (?root \<and> trim_slash p = e_path e \<and> \<not> ?leaf p)" for p
    using leaf [of p] by (cases "?leaf p") auto
  then have "taken_leaf (entry_dirs es) sources ps e \<or> batch_takes (filter (\<lambda>p. \<not> ?leaf p) ps) (e_path e)
    \<longleftrightarrow> (\<exists>p \<in> set ps. under (e_path e) p \<and> \<not> (?root \<and> trim_slash p = e_path e \<and> \<not> ?leaf p))"
    using assms(3) unfolding taken_leaf_def batch_takes_def bex_disj_distrib [symmetric] by (auto simp flip: bex_disj_distrib)
  moreover have "trim_slash p = e_path e \<Longrightarrow> \<not> leaf_path (entry_dirs es) p
      \<longleftrightarrow> (\<exists>e' \<in> set es. \<exists>rest. e_path e' = e_path e @ SLASH # rest)" for p
    using branch [of p] leaf_path_iff [OF assms(1), of p] by (auto simp: leaf_path_def)
  ultimately show ?thesis unfolding removal_takes_def by metis
qed

lemma remove_subtrees_of:
  assumes m: "memchr_law memchr" and fit: "entries_fit fold_bytes es" and lv: "live_holds memchr fold_bytes fold_case es lv"
    and walked: "\<forall>e \<in> set es. walked_path (e_path e)"
    and src: "sources \<noteq> []" "\<forall>e \<in> set es. id_source (e_id e) \<in> set sources"
    and ps: "\<forall>p \<in> set (ps_paths s). trim_slash p = [] \<or> walked_path (trim_slash p)"
  obtains gone lv' where "remove_subtrees memchr s sources lv = Ret (Inr (gone, lv'))"
    "retired memchr fold_bytes fold_case es (\<lambda>i. removal_takes es (ps_paths s) (e_path (es ! i))) gone lv lv'"
proof -
  let ?keep = "filter (\<lambda>p. \<not> leaf_path (entry_dirs es) p) (ps_paths s)"
  let ?rest = "prefix_set_new ?keep"
  let ?taken = "\<lambda>i. taken_leaf (entry_dirs es) sources (ps_paths s) (es ! i) \<or> batch_takes ?keep (e_path (es ! i))"
  obtain gone lv1 where one: "kill_leaves memchr s sources lv = Ret (Inr (gone, ?rest, lv1))"
    "retired memchr fold_bytes fold_case es (\<lambda>i. taken_leaf (entry_dirs es) sources (ps_paths s) (es ! i)) gone lv lv1"
    using kill_leaves_of [OF m fit lv walked src(1) ps] by blast
  have split: "?taken i = removal_takes es (ps_paths s) (e_path (es ! i))" if "i < length es" for i
    using removal_split [OF walked, of "es ! i" sources "ps_paths s"] src(2) that by simp
  show thesis
  proof (cases "ps_paths ?rest = []")
    case True
    then have none: "\<not> batch_takes ?keep path" for path using batch_takes_new [of ?keep path] by simp
    have "removal_takes es (ps_paths s) (e_path (es ! i)) = taken_leaf (entry_dirs es) sources (ps_paths s) (es ! i)" if "i < length es" for i
      using split [OF that] none by simp
    then have "retired memchr fold_bytes fold_case es (\<lambda>i. removal_takes es (ps_paths s) (e_path (es ! i))) gone lv lv1"
      using one(2) by (elim retired_cong) simp
    then show thesis using that one(1) True by (simp add: remove_subtrees_def)
  next
    case False
    have lv1: "live_holds memchr fold_bytes fold_case es lv1" using one(2) by (simp add: retired_def)
    have sub: "set (ps_paths ?rest) \<subseteq> trim_slash ` set (ps_paths s)"
      using set_keep_loop [of "[]" "remdups_adj (sort (map trim_slash ?keep))"]
      by (auto simp: prefix_set_new_def reduce_def Let_def set_reduced)
    have "trim_slash p = [] \<or> walked_path (trim_slash p)" if p: "p \<in> set (ps_paths ?rest)" for p
    proof -
      obtain q where "q \<in> set (ps_paths s)" "p = trim_slash q" using sub p by blast
      then show ?thesis using ps by simp
    qed
    then obtain gone' lv2 where two: "kill_under memchr ?rest lv1 = Ret (Inr (gone', lv2))"
      "retired memchr fold_bytes fold_case es (\<lambda>i. batch_takes (ps_paths ?rest) (e_path (es ! i))) gone' lv1 lv2"
      using kill_under_of [OF m fit lv1 walked] by blast
    have "retired memchr fold_bytes fold_case es (\<lambda>i. removal_takes es (ps_paths s) (e_path (es ! i))) (gone + gone') lv lv2"
      using retired_trans [OF one(2) two(2)] split by (elim retired_cong) (simp add: batch_takes_new)
    then show thesis using that one(1) two(1) False by (simp add: remove_subtrees_def)
  qed
qed

section \<open>Properties\<close>



text \<open>
  A folder of the root survives its own removal.  The batch looks for the row named \<open>a\<close> in the
  directory \<open>/\<close>, and \<open>exact\<close> trims that to the empty path, which no table holds: after
  removing \<open>/a\<close>, what was below it is dead and the row of \<open>/a\<close> itself is alive.
\<close>

definition root_entries :: "entry list" where
  "root_entries = [sample_entry (str ''/a/x'') 20, sample_entry (str ''/a'') 10]"

lemma root_fit: "entries_fit (map ascii_lower) root_entries"
proof -
  have n: "entry_names root_entries = [str ''x'', str ''a'']"
    "entry_parents root_entries = [str ''/a'', str ''/'']"
    by (code_simp, code_simp)
  have f: "map (map ascii_lower) [str ''x'', str ''a''] = [str ''x'', str ''a'']" by code_simp
  show ?thesis
    unfolding entries_fit_def n f
    by (simp add: names_text_def names_fit_def terminated_def utf8_valid_ascii dirs_small_def tri_small_def root_entries_def)
qed

theorem root_folder_survives:
  "\<exists>sb lv gone lv'. build_sorted first_index (map ascii_lower) (map ascii_lower) root_entries = Ret sb
    \<and> from_bytes 1 1 sb = Ret (Inr lv)
    \<and> remove_subtrees first_index (prefix_set_new [str ''/a'']) [0] lv = Ret (Inr (gone, lv'))
    \<and> \<not> live_is_alive lv' 0 \<and> live_is_alive lv' 1 \<and> covers (prefix_set_new [str ''/a'']) (e_path (root_entries ! 1))"
proof -
  obtain sb where sb: "build_sorted first_index (map ascii_lower) (map ascii_lower) root_entries = Ret sb"
    using build_views [OF first_index_law root_fit, of "map ascii_lower"] by blast
  obtain lv where lv: "from_bytes 1 1 sb = Ret (Inr lv)" "live_holds first_index (map ascii_lower) (map ascii_lower) root_entries lv"
    "lv_alive lv = alive_bits (length root_entries)"
    using from_bytes_built [OF first_index_law root_fit sb] by blast
  have alive: "live_is_alive lv i" if "i < length root_entries" for i
    using that rows_in_bits [OF that] live_is_alive_bit [of i lv] alive_bits_bit [of i "length root_entries"] lv(3) by simp
  have paths: "length root_entries = 2" "e_path (root_entries ! 0) = str ''/a/x''" "e_path (root_entries ! 1) = str ''/a''"
    by (simp_all add: root_entries_def sample_entry_def)
  let ?s = "prefix_set_new [str ''/a'']"
  have s: "ps_paths ?s = [str ''/a'']" by (simp add: prefix_set_new_def reduce_def trim_slash_def)
  have walked: "\<forall>e \<in> set root_entries. walked_path (e_path e)" "\<forall>e \<in> set root_entries. id_source (e_id e) \<in> set [0]"
    by (simp_all add: root_entries_def sample_entry_def path_hash_def walked_path_def entry_parent_def rfind_def)
  have ps: "\<forall>p \<in> set (ps_paths ?s). trim_slash p = [] \<or> walked_path (trim_slash p)"
    unfolding s by (simp add: trim_slash_def walked_path_def entry_parent_def rfind_def)
  obtain gone lv' where r: "remove_subtrees first_index ?s [0] lv = Ret (Inr (gone, lv'))"
    "retired first_index (map ascii_lower) (map ascii_lower) root_entries
       (\<lambda>i. removal_takes root_entries (ps_paths ?s) (e_path (root_entries ! i))) gone lv lv'"
    using remove_subtrees_of [OF first_index_law root_fit lv(2) walked(1) _ walked(2) ps] by blast
  have "removal_takes root_entries (ps_paths ?s) (e_path (root_entries ! 0))"
    "\<not> removal_takes root_entries (ps_paths ?s) (e_path (root_entries ! 1))"
    unfolding s paths by (simp_all add: removal_takes_def under_def trim_slash_def entry_parent_def rfind_def
      root_entries_def sample_entry_def)
  then have "\<not> live_is_alive lv' 0" "live_is_alive lv' 1"
    using r(2) alive paths(1) by (simp_all add: retired_def)
  moreover have "covers ?s (e_path (root_entries ! 1))"
    unfolding paths covers_ok [OF prefix_set_new_ok] covered_by_def s by (simp add: under_def trim_slash_def)
  ultimately show ?thesis using sb lv(1) r(1) by blast
qed

end
