(* ===== verification/Tiers.thy ===== *)
theory Tiers
  imports Retire
begin

text \<open>
  Which segments to fold together: \<open>size_tiers\<close> and \<open>head_of\<close> of
  \<open>crates/scour-index-native/src/index.rs\<close>.

  Segments are put in tiers by size, a new tier at the first one larger than four times what the
  tier below holds; the smallest tier of two or more is folded, or everything when a quarter of
  the largest segment is dead.  The lemmas show that the tiers share the segments out, that each
  begins more than four times above the last, that a chosen group always has something to gain,
  and how few segments are left when nothing is chosen.  Counts of rows are \<open>u64\<close>, with the sum
  of a tier and \<open>dead * 4\<close> wrapping as a release build wraps them; the lemmas about sizes say within
  which counts neither does.
\<close>

section \<open>Tiers\<close>

definition saturating_u64 :: "u64 \<Rightarrow> u64 \<Rightarrow> u64" where
  "saturating_u64 a b = of_nat (saturating_mul (unat a) (unat b))"

abbreviation TIER_RATIO :: u64 where "TIER_RATIO \<equiv> 4"

fun tiers_loop :: "u64 list list \<Rightarrow> u64 \<Rightarrow> (u64 \<times> u64) list \<Rightarrow> u64 list list" where
  "tiers_loop tiers below [] = tiers"
| "tiers_loop tiers below ((number, rows) # sizes) =
     (if tiers \<noteq> [] \<and> rows \<le> saturating_u64 TIER_RATIO below
      then tiers_loop (butlast tiers @ [last tiers @ [number]]) (below + rows) sizes
      else tiers_loop (tiers @ [[number]]) rows sizes)"

definition size_tiers :: "(u64 \<times> u64) list \<Rightarrow> u64 list list" where
  "size_tiers sizes = tiers_loop [] 0 (sort_key (\<lambda>(number, rows). (rows, number)) sizes)"

record member =
  mb_number :: u64
  mb_rows :: u64
  mb_dead :: u64

text \<open>\<open>max_by_key\<close>: the last of the largest.\<close>

fun max_by_key :: "('a \<Rightarrow> 'b::linorder) \<Rightarrow> 'a list \<Rightarrow> 'a option" where
  "max_by_key f [] = None"
| "max_by_key f (x # xs) =
     (case max_by_key f xs of None \<Rightarrow> Some x | Some y \<Rightarrow> Some (if f x \<le> f y then y else x))"

definition head_of_members :: "member list \<Rightarrow> u64 list option" where
  "head_of_members members =
     (case max_by_key mb_rows members of
        None \<Rightarrow> None
      | Some biggest \<Rightarrow>
          if mb_rows biggest < mb_dead biggest * 4 then Some (map mb_number members)
          else
            let rest = filter (\<lambda>m. mb_number m \<noteq> mb_number biggest) members;
                tiers = size_tiers (map (\<lambda>m. (mb_number m, mb_rows m)) rest)
            in case find (\<lambda>tier. 2 \<le> length tier) tiers of
                 Some tier \<Rightarrow> Some tier
               | None \<Rightarrow> map_option (\<lambda>m. [mb_number m]) (find (\<lambda>m. mb_rows m < mb_dead m * 4) rest))"

section \<open>What the tiers are\<close>

text \<open>The same tiers with their rows as numbers, to reason about.\<close>

fun pair_tiers :: "(u64 \<times> nat) list list \<Rightarrow> (u64 \<times> nat) list \<Rightarrow> (u64 \<times> nat) list list" where
  "pair_tiers tiers [] = tiers"
| "pair_tiers tiers (x # xs) =
     (if tiers \<noteq> [] \<and> snd x \<le> saturating_mul 4 (sum_list (map snd (last tiers)))
      then pair_tiers (butlast tiers @ [last tiers @ [x]]) xs
      else pair_tiers (tiers @ [[x]]) xs)"

definition counted :: "u64 \<times> u64 \<Rightarrow> u64 \<times> nat" where
  "counted x = (fst x, unat (snd x))"

lemma counted_simps [simp]: "fst (counted x) = fst x" "snd (counted x) = unat (snd x)"
  by (simp_all add: counted_def)

lemma saturating_small: "saturating_mul a b < 2 ^ 64"
  by (simp add: saturating_mul_def)

lemma saturating_u64_le: "r \<le> saturating_u64 a b \<longleftrightarrow> unat r \<le> saturating_mul (unat a) (unat b)"
  using saturating_small [of "unat a" "unat b"] by (simp add: saturating_u64_def word_le_nat_alt unat_u64)

lemma tiers_pairs:
  "(tiers = [] \<Longrightarrow> below = 0) \<Longrightarrow> (tiers \<noteq> [] \<Longrightarrow> unat below = sum_list (map snd (last tiers)))
    \<Longrightarrow> unat below + sum_list (map (snd \<circ> counted) sizes) < 2 ^ 64
    \<Longrightarrow> tiers_loop (map (map fst) tiers) below sizes = map (map fst) (pair_tiers tiers (map counted sizes))"
proof (induction sizes arbitrary: tiers below)
  case (Cons x sizes)
  obtain n r where x: "x = (n, r)" by fastforce
  have r: "unat below + unat r < 2 ^ 64" using Cons.prems(3) x by simp
  have le: "r \<le> saturating_u64 TIER_RATIO below \<longleftrightarrow> unat r \<le> saturating_mul 4 (unat below)" by (simp add: saturating_u64_le)
  show ?case
  proof (cases "tiers \<noteq> [] \<and> r \<le> saturating_u64 TIER_RATIO below")
    case True
    have sum: "unat (below + r) = unat below + unat r" using r by (simp add: unat_word_ariths)
    have "tiers_loop (map (map fst) (butlast tiers @ [last tiers @ [counted x]])) (below + r) sizes
        = map (map fst) (pair_tiers (butlast tiers @ [last tiers @ [counted x]]) (map counted sizes))"
      by (rule Cons.IH) (use Cons.prems True x sum in simp_all)
    then show ?thesis using True Cons.prems x le by (simp add: map_butlast last_map)
  next
    case False
    have "tiers_loop (map (map fst) (tiers @ [[counted x]])) r sizes = map (map fst) (pair_tiers (tiers @ [[counted x]]) (map counted sizes))"
      by (rule Cons.IH) (use Cons.prems(3) x in simp_all)
    then show ?thesis using False Cons.prems x le by auto
  qed
qed simp

lemma concat_last: "xss \<noteq> [] \<Longrightarrow> concat (butlast xss) @ last xss = concat xss"
  by (induction xss rule: rev_induct) simp_all

lemma concat_pair_tiers: "concat (pair_tiers tiers xs) = concat tiers @ xs"
  by (induction tiers xs rule: pair_tiers.induct) (simp_all add: concat_last)

lemma pair_tiers_nonempty: "\<forall>t \<in> set tiers. t \<noteq> [] \<Longrightarrow> \<forall>t \<in> set (pair_tiers tiers xs). t \<noteq> []"
  by (induction tiers xs rule: pair_tiers.induct) (auto dest: in_set_butlastD)

text \<open>Each tier begins above four times the whole of the one before.\<close>

definition tier_above :: "(u64 \<times> nat) list \<Rightarrow> (u64 \<times> nat) list \<Rightarrow> bool" where
  "tier_above low high \<longleftrightarrow> 4 * sum_list (map snd low) < snd (hd high)"

lemma successively_snoc:
  "successively P (xs @ [x]) \<longleftrightarrow> successively P xs \<and> (xs \<noteq> [] \<longrightarrow> P (last xs) x)"
  by (auto simp: successively_append_iff)

lemma saturating_le: "r < 2 ^ 64 \<Longrightarrow> r \<le> saturating_mul a b \<longleftrightarrow> r \<le> a * b"
  by (auto simp: saturating_mul_def)

lemma pair_tiers_above:
  assumes "\<forall>x \<in> set xs. snd x < 2 ^ 64" "\<forall>t \<in> set tiers. t \<noteq> []" "successively tier_above tiers"
  shows "successively tier_above (pair_tiers tiers xs)"
  using assms
proof (induction tiers xs rule: pair_tiers.induct)
  case (2 tiers x xs)
  show ?case
  proof (cases "tiers \<noteq> [] \<and> snd x \<le> saturating_mul 4 (sum_list (map snd (last tiers)))")
    case True
    obtain front t where t: "tiers = front @ [t]" using True by (cases tiers rule: rev_cases) auto
    have "tier_above (last front) (t @ [x])" if "front \<noteq> []"
      using "2.prems"(2,3) that by (simp add: t successively_snoc tier_above_def)
    then have "successively tier_above (butlast tiers @ [last tiers @ [x]])"
      using "2.prems"(3) by (simp add: t successively_snoc)
    moreover have "\<forall>u \<in> set (butlast tiers @ [last tiers @ [x]]). u \<noteq> []" using "2.prems"(2) by (auto simp: t)
    ultimately show ?thesis using "2.IH"(1) [OF True] True "2.prems"(1) by simp
  next
    case False
    have "successively tier_above (tiers @ [[x]])"
      using "2.prems"(1,3) False saturating_le [of "snd x"] by (auto simp: successively_snoc tier_above_def)
    then show ?thesis using "2.IH"(2) [OF False] False "2.prems"(1,2) by auto
  qed
qed simp

text \<open>Tiers of one segment each: every size is more than four times the one before.\<close>

lemma lone_tiers_grow:
  assumes "successively tier_above tiers" "\<forall>t \<in> set tiers. t \<noteq> [] \<and> length t < 2"
  shows "successively (\<lambda>x y. 4 * snd x < snd y) (concat tiers)"
proof -
  have "tiers = map (\<lambda>x. [x]) (concat tiers)"
  proof -
    have "map (\<lambda>x. [x]) (concat tiers) = concat (map (map (\<lambda>x. [x])) tiers)" by (simp add: map_concat)
    also have "map (map (\<lambda>x. [x])) tiers = map (\<lambda>t. [t]) tiers"
      using assms(2) by (intro map_cong refl) (auto simp: length_Suc_conv less_2_cases_iff)
    finally show ?thesis by simp
  qed
  then obtain xs where xs: "tiers = map (\<lambda>x. [x]) xs" by blast
  show ?thesis using assms(1) by (simp add: xs successively_map tier_above_def)
qed

lemma grow_sum:
  assumes "successively (\<lambda>x y. 4 * x < y) (xs @ [x])" "\<forall>y \<in> set (xs @ [x]). 0 < (y :: nat)"
  shows "4 ^ Suc (length xs) \<le> 3 * x + 1"
  using assms
proof (induction xs arbitrary: x rule: rev_induct)
  case (snoc y xs)
  then have "4 ^ Suc (length xs) \<le> 3 * y + 1" "4 * y < x" by (simp_all add: successively_append_iff)
  then show ?case by simp
qed simp

section \<open>What is chosen\<close>

lemma max_by_key_None [simp]: "max_by_key f xs = None \<longleftrightarrow> xs = []"
  by (cases xs) (simp_all split: option.splits)

lemma max_by_key_Some: "max_by_key f xs = Some x \<Longrightarrow> x \<in> set xs \<and> (\<forall>y \<in> set xs. f y \<le> f x)"
  by (induction xs arbitrary: x) (auto split: option.splits if_splits)

definition by_rows :: "(u64 \<times> u64) list \<Rightarrow> (u64 \<times> u64) list" where
  "by_rows sizes = sort_key (\<lambda>(number, rows). (rows, number)) sizes"

definition tier_pairs :: "(u64 \<times> u64) list \<Rightarrow> (u64 \<times> nat) list list" where
  "tier_pairs sizes = pair_tiers [] (map counted (by_rows sizes))"

lemma sum_sorted: "sum_list (map f (by_rows sizes)) = (sum_list (map f sizes) :: nat)"
  using mset_map [of f "by_rows sizes"] sum_mset_sum_list [of "map f (by_rows sizes)"] sum_mset_sum_list [of "map f sizes"]
  by (simp add: by_rows_def)

lemma size_tiers_pairs:
  "sum_list (map (snd \<circ> counted) sizes) < 2 ^ 64 \<Longrightarrow> size_tiers sizes = map (map fst) (tier_pairs sizes)"
  using tiers_pairs [of "[]" 0 "by_rows sizes"] sum_sorted [of "snd \<circ> counted" sizes]
  by (simp add: size_tiers_def tier_pairs_def by_rows_def)

lemma unat_below: "unat (w :: u64) < 2 ^ 64"
  using unsigned_less [of w] by simp

lemma tier_pairs_facts:
  shows "concat (tier_pairs sizes) = map counted (by_rows sizes)"
    and "\<forall>t \<in> set (tier_pairs sizes). t \<noteq> []"
    and "successively tier_above (tier_pairs sizes)"
  using concat_pair_tiers [of "[]"] pair_tiers_nonempty [of "[]"] pair_tiers_above [of _ "[]"] unat_below
  by (simp_all add: tier_pairs_def)

text \<open>Whatever the sizes, the tiers share the segments out.\<close>

lemma tiers_loop_share:
  "concat (tiers_loop tiers below sizes) = concat tiers @ map fst sizes
    \<and> ((\<forall>t \<in> set tiers. t \<noteq> []) \<longrightarrow> (\<forall>t \<in> set (tiers_loop tiers below sizes). t \<noteq> []))"
  by (induction tiers below sizes rule: tiers_loop.induct) (auto simp: concat_last dest: in_set_butlastD)

lemma tiers_share:
  "mset (concat (size_tiers sizes)) = mset (map fst sizes)" "\<forall>t \<in> set (size_tiers sizes). t \<noteq> []"
  using tiers_loop_share [of "[]" 0] by (simp_all add: size_tiers_def)

lemma length_others:
  assumes "distinct (map mb_number ms)" "b \<in> set ms"
  shows "length (filter (\<lambda>m. mb_number m \<noteq> mb_number b) ms) = length ms - 1"
proof -
  have "filter (\<lambda>m. mb_number m \<noteq> mb_number b) ms = remove1 b ms"
    using assms
  proof (induction ms)
    case (Cons a ms)
    show ?case
    proof (cases "a = b")
      case True
      then have "\<forall>m \<in> set ms. mb_number m \<noteq> mb_number b" using Cons.prems(1) by (auto simp: image_iff)
      then show ?thesis using True by simp
    next
      case False
      then have "mb_number a \<noteq> mb_number b" using Cons.prems by force
      then show ?thesis using False Cons by simp
    qed
  qed simp
  then show ?thesis using assms(2) by (simp add: length_remove1)
qed

lemma sum_two:
  assumes "distinct (map mb_number ms)" "b \<in> set ms" "x \<in> set ms" "mb_number x \<noteq> mb_number b"
  shows "unat (mb_rows b) + unat (mb_rows x) \<le> sum_list (map (unat \<circ> mb_rows) ms)"
proof -
  have "x \<noteq> b" using assms(4) by auto
  then have "x \<in> set (remove1 b ms)" using assms(3) by (simp add: in_set_remove1)
  then have "unat (mb_rows x) \<le> sum_list (map (unat \<circ> mb_rows) (remove1 b ms))" by (intro member_le_sum_list) simp_all
  then show ?thesis using sum_list_map_remove1 [OF assms(2), of "unat \<circ> mb_rows"] by simp
qed

definition others :: "member list \<Rightarrow> member \<Rightarrow> member list" where
  "others ms b = filter (\<lambda>m. mb_number m \<noteq> mb_number b) ms"

definition other_tiers :: "member list \<Rightarrow> member \<Rightarrow> u64 list list" where
  "other_tiers ms b = size_tiers (map (\<lambda>m. (mb_number m, mb_rows m)) (others ms b))"

definition settled_at :: "member list \<Rightarrow> member \<Rightarrow> bool" where
  "settled_at ms b \<longleftrightarrow> b \<in> set ms \<and> (\<forall>m \<in> set ms. mb_rows m \<le> mb_rows b) \<and> mb_dead b * 4 \<le> mb_rows b
     \<and> (\<forall>t \<in> set (other_tiers ms b). length t < 2) \<and> (\<forall>m \<in> set (others ms b). mb_dead m * 4 \<le> mb_rows m)"

text \<open>The branches of the choice.\<close>

lemma head_of_cases:
  obtains (empty) "ms = []" "head_of_members ms = None"
  | (all) b where "b \<in> set ms" "mb_rows b < mb_dead b * 4" "head_of_members ms = Some (map mb_number ms)"
  | (tier) b t where "b \<in> set ms" "t \<in> set (other_tiers ms b)" "2 \<le> length t" "head_of_members ms = Some t"
  | (lone) b m where "b \<in> set ms" "m \<in> set (others ms b)" "mb_rows m < mb_dead m * 4" "head_of_members ms = Some [mb_number m]"
  | (settled) b where "settled_at ms b" "head_of_members ms = None"
proof (cases "max_by_key mb_rows ms")
  case None
  then show thesis using empty by (simp add: head_of_members_def)
next
  case (Some b)
  note big = max_by_key_Some [OF Some]
  show thesis
  proof (cases "mb_rows b < mb_dead b * 4")
    case True
    then show thesis using all [of b] big Some by (simp add: head_of_members_def)
  next
    case False
    then have h: "head_of_members ms = (case find (\<lambda>tier. 2 \<le> length tier) (other_tiers ms b) of Some tier \<Rightarrow> Some tier
        | None \<Rightarrow> map_option (\<lambda>m. [mb_number m]) (find (\<lambda>m. mb_rows m < mb_dead m * 4) (others ms b)))"
      using Some unfolding head_of_members_def Let_def other_tiers_def others_def by simp
    show thesis
    proof (cases "find (\<lambda>tier. 2 \<le> length tier) (other_tiers ms b)")
      case (Some t)
      moreover have "head_of_members ms = Some t" using h Some by simp
      ultimately show thesis using tier [of b t] big by (auto simp: find_Some_iff dest: nth_mem)
    next
      case no_tier: None
      show thesis
      proof (cases "find (\<lambda>m. mb_rows m < mb_dead m * 4) (others ms b)")
        case (Some m)
        moreover have "head_of_members ms = Some [mb_number m]" using h Some no_tier by simp
        ultimately show thesis using lone [of b m] big by (auto simp: find_Some_iff dest: nth_mem)
      next
        case None
        have "settled_at ms b"
          using None no_tier big False unfolding settled_at_def find_None_iff by (auto simp: not_le not_less)
        then show thesis using settled h None no_tier by simp
      qed
    qed
  qed
qed

text \<open>Counts within which nothing wraps.\<close>

definition counts_ok :: "member list \<Rightarrow> bool" where
  "counts_ok ms \<longleftrightarrow> sum_list (map (unat \<circ> mb_rows) ms) < 2 ^ 62 \<and> (\<forall>m \<in> set ms. 0 < mb_rows m \<and> mb_dead m \<le> mb_rows m)"

lemma dead_quarter:
  assumes "counts_ok ms" "m \<in> set ms"
  shows "mb_dead m * 4 \<le> mb_rows m \<longleftrightarrow> unat (mb_dead m) * 4 \<le> unat (mb_rows m)"
proof -
  have "unat (mb_rows m) \<le> sum_list (map (unat \<circ> mb_rows) ms)" using assms(2) by (intro member_le_sum_list) simp_all
  then have "unat (mb_dead m) * 4 < 2 ^ 64" using assms by (auto simp: counts_ok_def word_le_nat_alt)
  then have "unat (mb_dead m * 4) = unat (mb_dead m) * 4" by (simp add: unat_word_ariths)
  then show ?thesis by (simp add: word_le_nat_alt)
qed

lemma settled_small:
  assumes b: "settled_at ms b" and d: "distinct (map mb_number ms)" and n: "2 \<le> length ms" and ok: "counts_ok ms"
  shows "4 ^ (length ms - 2) < sum_list (map (unat \<circ> mb_rows) ms)"
proof -
  note b = b [unfolded settled_at_def]
  let ?sizes = "map (\<lambda>m. (mb_number m, mb_rows m)) (others ms b)"
  let ?rows = "map (unat \<circ> snd) (by_rows ?sizes)"
  have "mset (others ms b) \<subseteq># mset ms" by (simp add: others_def)
  then obtain rest where "mset ms = mset (others ms b) + mset rest" by (metis ex_mset subset_mset.le_iff_add)
  then have "sum_list (map (unat \<circ> mb_rows) ms) = sum_list (map (unat \<circ> mb_rows) (others ms b @ rest))"
    by (metis mset_append mset_map sum_mset_sum_list)
  then have "sum_list (map (snd \<circ> counted) ?sizes) < 2 ^ 64" using ok by (simp add: counts_ok_def o_def)
  then have "other_tiers ms b = map (map fst) (tier_pairs ?sizes)" by (simp add: other_tiers_def size_tiers_pairs)
  then have "successively (\<lambda>x y. 4 * snd x < snd y) (concat (tier_pairs ?sizes))"
    using lone_tiers_grow [OF tier_pairs_facts(3)] tier_pairs_facts(2) [of ?sizes] b by simp
  then have grow: "successively (\<lambda>x y. 4 * x < y) ?rows"
    by (simp add: tier_pairs_facts(1) successively_map)
  have len: "length ?rows = length ms - 1" using length_others [OF d] b by (simp add: others_def by_rows_def)
  then have "length ?rows \<noteq> 0" using n by simp
  then have "?rows \<noteq> []" by (metis list.size(3))
  then obtain xs x where split: "?rows = xs @ [x]" by (cases ?rows rule: rev_cases) simp_all
  have mem: "set ?rows = (unat \<circ> mb_rows) ` set (others ms b)" by (force simp: by_rows_def)
  have "4 ^ Suc (length xs) \<le> 3 * x + 1"
  proof (rule grow_sum)
    show "successively (\<lambda>x y. 4 * x < y) (xs @ [x])" using grow split by simp
    have "set (xs @ [x]) = (unat \<circ> mb_rows) ` set (others ms b)" using mem split by simp
    then show "\<forall>y \<in> set (xs @ [x]). 0 < y" using ok by (auto simp: others_def counts_ok_def word_less_nat_alt)
  qed
  moreover have "length ?rows = Suc (length xs)" by (simp only: split length_append_singleton)
  then have "length ms - 2 = length xs" using len by simp
  moreover have "x \<in> (unat \<circ> mb_rows) ` set (others ms b)" unfolding mem [symmetric] split by simp
  then obtain m where m: "m \<in> set ms" "mb_number m \<noteq> mb_number b" "unat (mb_rows m) = x" by (auto simp: others_def)
  have "x \<le> unat (mb_rows b)" "0 < x" using b ok m(1,3) by (auto simp: counts_ok_def word_le_nat_alt word_less_nat_alt)
  moreover have "unat (mb_rows b) + x \<le> sum_list (map (unat \<circ> mb_rows) ms)"
    using sum_two [OF d _ m(1,2)] b m(3) by simp
  ultimately show ?thesis by simp
qed

section \<open>Properties\<close>

text \<open>
  C17: compaction comes to rest on few segments.  When nothing is chosen to be folded, no
  segment has more than a quarter of its rows dead, and the number of segments exceeds the
  logarithm to base four of the rows they hold by less than two.  Asked of the counts: numbers
  are distinct, every segment has a row and no more dead ones than rows, and all together have
  fewer than 2 to the 62 rows, above which the product with four wraps.
\<close>

theorem compaction_settles:
  assumes "head_of_members ms = None" "distinct (map mb_number ms)" "2 \<le> length ms"
    and "sum_list (map (unat \<circ> mb_rows) ms) < 2 ^ 62" "\<forall>m \<in> set ms. 0 < mb_rows m \<and> mb_dead m \<le> mb_rows m"
  shows "(\<forall>m \<in> set ms. unat (mb_dead m) * 4 \<le> unat (mb_rows m)) \<and> 4 ^ (length ms - 2) < sum_list (map (unat \<circ> mb_rows) ms)"
proof -
  have ok: "counts_ok ms" using assms(4,5) by (simp add: counts_ok_def)
  obtain b where b: "settled_at ms b" using assms(1,3) by (cases ms rule: head_of_cases) auto
  have "mb_dead m * 4 \<le> mb_rows m" if "m \<in> set ms" for m
  proof (cases "mb_number m = mb_number b")
    case True
    then have "m = b" using assms(2) that b by (auto simp: settled_at_def distinct_map dest: inj_onD)
    then show ?thesis using b by (simp add: settled_at_def)
  qed (use b that in \<open>simp add: settled_at_def others_def\<close>)
  then show ?thesis using settled_small [OF b assms(2,3) ok] dead_quarter [OF ok] by blast
qed

text \<open>The bound on the counts is needed: 2 to the 62 rows, all dead, are left alone.\<close>

lemma wrapped_dead:
  "head_of_members [\<lparr>mb_number = 1, mb_rows = 2 ^ 62, mb_dead = 2 ^ 62\<rparr>] = None"
  by (simp add: head_of_members_def size_tiers_def)

definition sample_members :: "member list" where
  "sample_members = [\<lparr>mb_number = 1, mb_rows = 100, mb_dead = 5\<rparr>, \<lparr>mb_number = 2, mb_rows = 3, mb_dead = 0\<rparr>,
     \<lparr>mb_number = 3, mb_rows = 20, mb_dead = 1\<rparr>]"

theorem compaction_settles_witness:
  "head_of_members sample_members = None \<and> (4 :: nat) ^ (length sample_members - 2) < sum_list (map (unat \<circ> mb_rows) sample_members)"
proof -
  have none: "head_of_members sample_members = None"
    by (simp add: sample_members_def head_of_members_def size_tiers_def saturating_u64_def saturating_mul_def)
  have "distinct (map mb_number sample_members)" "2 \<le> length sample_members"
    "sum_list (map (unat \<circ> mb_rows) sample_members) < 2 ^ 62"
    "\<forall>m \<in> set sample_members. 0 < mb_rows m \<and> mb_dead m \<le> mb_rows m"
    by (simp_all add: sample_members_def)
  from compaction_settles [OF none this] none show ?thesis by blast
qed

text \<open>
  A chosen group is worth folding: its numbers are of the segments asked about, each once, and
  it has at least two segments or one with dead rows, which are the groups \<open>fold\<close> accepts.
\<close>

lemma fold_gains:
  assumes "head_of_members ms = Some chosen" "distinct (map mb_number ms)"
  shows "chosen \<noteq> [] \<and> distinct chosen \<and> set chosen \<subseteq> mb_number ` set ms
    \<and> (2 \<le> length chosen \<or> (\<exists>m \<in> set ms. mb_number m \<in> set chosen \<and> 0 < mb_dead m))"
proof (cases ms rule: head_of_cases)
  case (all b)
  then have "0 < mb_dead b" by (cases "mb_dead b = 0") (simp_all add: word_gt_0)
  then show ?thesis using all assms by auto
next
  case (tier b t)
  let ?tiers = "other_tiers ms b"
  have share: "mset (concat ?tiers) = mset (map mb_number (others ms b))"
    using tiers_share(1) [of "map (\<lambda>m. (mb_number m, mb_rows m)) (others ms b)"] by (simp add: other_tiers_def o_def)
  have "distinct (map mb_number (others ms b))" using assms(2) by (simp add: others_def distinct_map_filter)
  then have "distinct (concat ?tiers)" using share by (metis mset_eq_imp_distinct_iff)
  then have "distinct t" using tier(2) by (simp add: distinct_concat_iff)
  moreover have "set t \<subseteq> mb_number ` set ms" using tier(2) mset_eq_setD [OF share] by (auto simp: others_def)
  ultimately show ?thesis using tier(3,4) assms(1) by auto
next
  case (lone b m)
  then have "0 < mb_dead m" by (cases "mb_dead m = 0") (simp_all add: word_gt_0)
  then show ?thesis using lone assms by (auto simp: others_def)
qed (use assms in auto)

end
