(* ===== verification/Index.thy ===== *)
theory Index
  imports Doomed Tiers
begin

text \<open>
  The index as the rest of Scour sees it: \<open>Inner\<close>, \<open>Building\<close> and the operations that change
  them, \<open>crates/scour-index-native/src/index.rs\<close>.

  An upsert is staged and a removal hides a path; a flush turns both into dead rows and a new
  segment.  The state is one record; a step that can fail half way gives its error and the state
  it leaves.  Files, threads and the clock are outside: writing a segment, a bitmap or the
  manifest and starting a thread are functions of the environment that say whether they worked.
\<close>

section \<open>State\<close>

record flight =
  fl_number :: u64
  fl_paths :: "u64 set"
  fl_doomed :: "wanted_path list"
  fl_gone :: prefix_set

datatype landed =
    Built u64 live
  | Failed u64 "entry list" chars

record native_index =
  ix_segments :: "live list"
  ix_meta_dirty :: bool
  ix_dirty_alive :: "u64 set"
  ix_pending_erase :: "u64 set"
  ix_staged :: "entry list"
  ix_seen :: "u64 \<rightharpoonup> bytes"
  ix_spared :: nat
  ix_sources :: "u32 list"
  ix_staged_at :: "u64 \<rightharpoonup> nat"
  ix_hidden :: prefix_set
  ix_generation :: u64
  ix_open :: "u64 option"
  ix_next_segment :: u64
  ix_unwritten :: "u64 set"
  ix_flights :: "flight list"
  ix_landed :: "landed list"
  ix_build_failed :: nat

record manifest =
  mf_format :: u32
  mf_generation :: u64
  mf_next_segment :: u64
  mf_segments :: "(u64 \<times> u64) list"

record pending =
  pd_staged :: "(u64 \<times> u64 \<times> entry list) option"
  pd_alive :: "(u64 \<times> bytes) list"
  pd_prefixes :: prefix_set

definition pending_default :: pending where
  "pending_default = \<lparr>pd_staged = None, pd_alive = [], pd_prefixes = prefix_set_default\<rparr>"

record index_env =
  ie_memchr :: "u8 \<Rightarrow> bytes \<Rightarrow> nat option"
  ie_fold_bytes :: "bytes \<Rightarrow> bytes"
  ie_fold_case :: "bytes \<Rightarrow> bytes"
  ie_write_alive :: "u64 \<Rightarrow> bytes \<Rightarrow> unit res"
  ie_write :: "u64 \<Rightarrow> u64 \<Rightarrow> segment_bytes \<Rightarrow> live res"
  ie_save :: "manifest \<Rightarrow> unit res"
  ie_spawn :: "u64 \<Rightarrow> chars option"

abbreviation FORMAT :: u32 where "FORMAT \<equiv> 9"
abbreviation MAX_STAGED :: nat where "MAX_STAGED \<equiv> 100000"
abbreviation MAX_BUILDING :: nat where "MAX_BUILDING \<equiv> 4"

text \<open>A step: the error or the value, and the state it leaves.\<close>

type_synonym 'a step = "('a res \<times> native_index) run"

definition step_then :: "'a step \<Rightarrow> ('a \<Rightarrow> native_index \<Rightarrow> 'b step) \<Rightarrow> 'b step" where
  "step_then m f = bind_run m (\<lambda>(r, s). case r of Inl e \<Rightarrow> Ret (Inl e, s) | Inr x \<Rightarrow> f x s)"

section \<open>The manifest, and what a failed publication puts back\<close>

definition save_meta :: "index_env \<Rightarrow> native_index \<Rightarrow> unit res \<times> native_index" where
  "save_meta env s =
     (case ie_save env \<lparr>mf_format = FORMAT, mf_generation = ix_generation s, mf_next_segment = ix_next_segment s,
             mf_segments = map (\<lambda>lv. (lv_number lv, lv_generation lv))
               (filter (\<lambda>lv. lv_number lv \<notin> ix_unwritten s) (ix_segments s))\<rparr> of
        Inl e \<Rightarrow> (Inl e, s\<lparr>ix_meta_dirty := True\<rparr>)
      | Inr _ \<Rightarrow> (Inr (), s\<lparr>ix_meta_dirty := False, ix_pending_erase := {}\<rparr>))"

definition entry_digest :: "entry \<Rightarrow> u64" where
  "entry_digest e = path_digest (id_source (e_id e)) (e_path e)"

text \<open>Where each staged path sits.\<close>

definition staged_positions :: "entry list \<Rightarrow> u64 \<rightharpoonup> nat" where
  "staged_positions staged = foldl (\<lambda>at (i, e). at(entry_digest e \<mapsto> i)) Map.empty (List.enumerate 0 staged)"

text \<open>One entry into the staging buffer: over the one at its path, or behind the last.\<close>

definition stage :: "entry \<Rightarrow> native_index \<Rightarrow> native_index" where
  "stage e s =
     (case ix_staged_at s (entry_digest e) of
        Some i \<Rightarrow>
          (case nth_opt (ix_staged s) i of
             Some old \<Rightarrow>
               if e_path old = e_path e then s\<lparr>ix_staged := (ix_staged s)[i := e]\<rparr>
               else s\<lparr>ix_staged_at := (ix_staged_at s)(entry_digest e \<mapsto> length (ix_staged s)), ix_staged := ix_staged s @ [e]\<rparr>
           | None \<Rightarrow> s\<lparr>ix_staged_at := (ix_staged_at s)(entry_digest e \<mapsto> length (ix_staged s)), ix_staged := ix_staged s @ [e]\<rparr>)
      | None \<Rightarrow> s\<lparr>ix_staged_at := (ix_staged_at s)(entry_digest e \<mapsto> length (ix_staged s)), ix_staged := ix_staged s @ [e]\<rparr>)"

definition restore :: "pending \<Rightarrow> native_index \<Rightarrow> native_index" where
  "restore pending s =
     (let numbers = lv_number ` set (ix_segments s);
          s = s\<lparr>ix_dirty_alive := ix_dirty_alive s \<union> {n \<in> fst ` set (pd_alive pending). n \<in> numbers}\<rparr>;
          hidden = prefix_set_extend (pd_prefixes pending) (into_paths (ix_hidden s));
          s = s\<lparr>ix_hidden := foldl (\<lambda>h e. snd (forget h (e_path e))) hidden (ix_staged s)\<rparr>
      in case pd_staged pending of
           None \<Rightarrow> s
         | Some (_, _, staged) \<Rightarrow>
             foldl (\<lambda>s e. stage e s) (s\<lparr>ix_staged := staged, ix_staged_at := staged_positions staged\<rparr>) (ix_staged s))"

section \<open>Segments that were being built\<close>

definition install :: "index_env \<Rightarrow> wanted_path list \<Rightarrow> prefix_set \<Rightarrow> live \<Rightarrow> (unit res \<times> live) run" where
  "install env doomed gone lv =
     bind_run (if doomed = [] then Ret (Inr (0, lv)) else kill_paths (ie_memchr env) (sort_key fst doomed) lv) (\<lambda>r.
       case r of
         Inl e \<Rightarrow> Ret (Inl e, lv)
       | Inr (_, lv) \<Rightarrow>
           bind_run (if ps_paths gone = [] then Ret (Inr (0, lv)) else kill_under (ie_memchr env) gone lv) (\<lambda>r.
             case r of
               Inl e \<Rightarrow> Ret (Inl e, lv)
             | Inr (_, lv) \<Rightarrow>
                 Ret (if doomed = [] \<and> ps_paths gone = [] then Inr () else ie_write_alive env (lv_number lv) (lv_alive lv), lv)))"

definition in_flight :: "native_index \<Rightarrow> u64 \<Rightarrow> wanted_path list \<times> prefix_set" where
  "in_flight s number =
     (case find (\<lambda>f. fl_number f = number) (ix_flights s) of
        Some f \<Rightarrow> (fl_doomed f, fl_gone f) | None \<Rightarrow> ([], prefix_set_default))"

definition land :: "u64 \<Rightarrow> native_index \<Rightarrow> native_index" where
  "land number s = s\<lparr>ix_flights := filter (\<lambda>f. fl_number f \<noteq> number) (ix_flights s)\<rparr>"

definition by_number :: "native_index \<Rightarrow> native_index" where
  "by_number s = s\<lparr>ix_segments := sort_key lv_number (ix_segments s)\<rparr>"

fun collect_loop :: "index_env \<Rightarrow> landed list \<Rightarrow> bool \<Rightarrow> chars option \<Rightarrow> native_index \<Rightarrow> unit step" where
  "collect_loop env [] added failure s =
     (let (saved, s) = if added then save_meta env (by_number s) else (Inr (), s)
      in Ret (bind_res saved (\<lambda>_. case failure of Some detail \<Rightarrow> Inl (Io detail) | None \<Rightarrow> Inr ()), s))"
| "collect_loop env (Built number lv # rest) added failure s =
     (let (doomed, gone) = in_flight s number
      in bind_run (install env doomed gone lv) (\<lambda>(r, lv). case r of
           Inl e \<Rightarrow>
             let s = s\<lparr>ix_landed := ix_landed s @ Built number lv # rest\<rparr>
             in Ret (Inl e, if added then by_number s else s)
         | Inr _ \<Rightarrow>
             let s = land number s
             in collect_loop env rest True failure
                  (s\<lparr>ix_next_segment := max (ix_next_segment s) (number + 1), ix_segments := ix_segments s @ [lv],
                     ix_meta_dirty := True\<rparr>)))"
| "collect_loop env (Failed number rows detail # rest) added failure s =
     (let s = land number s; s = s\<lparr>ix_build_failed := ix_build_failed s + 1\<rparr>
      in collect_loop env rest added (Some detail)
           (restore (pending_default\<lparr>pd_staged := Some (number, ix_generation s, rows)\<rparr>) s))"

definition collect :: "index_env \<Rightarrow> native_index \<Rightarrow> unit step" where
  "collect env s =
     (let landed = ix_landed s
      in if landed = [] then Ret (Inr (), s) else collect_loop env landed False None (s\<lparr>ix_landed := []\<rparr>))"

section \<open>A flush, up to building the segment\<close>

text \<open>One pass over the segments: each is changed, and whether a row of it died is noted.\<close>

fun kill_each :: "(live \<Rightarrow> (u64 \<times> live) res run) \<Rightarrow> live list \<Rightarrow> (bool list res \<times> live list) run" where
  "kill_each f [] = Ret (Inr [], [])"
| "kill_each f (lv # lvs) =
     bind_run (f lv) (\<lambda>r. case r of
         Inl e \<Rightarrow> Ret (Inl e, lv # lvs)
       | Inr (gone, lv) \<Rightarrow>
           bind_run (kill_each f lvs) (\<lambda>(ts, lvs). Ret (bind_res ts (\<lambda>ts. Inr ((gone \<noteq> 0) # ts)), lv # lvs)))"

definition hide_rows :: "index_env \<Rightarrow> native_index \<Rightarrow> bool list step" where
  "hide_rows env s =
     (if ps_paths (ix_hidden s) = [] then Ret (Inr (map (\<lambda>_. False) (ix_segments s)), s)
      else
        let ps = ix_hidden s; s = s\<lparr>ix_hidden := prefix_set_default\<rparr>
        in bind_run (kill_each (remove_subtrees (ie_memchr env) ps (ix_sources s)) (ix_segments s)) (\<lambda>(r, lvs).
             let s = s\<lparr>ix_segments := lvs\<rparr>
             in case r of
                  Inl e \<Rightarrow> Ret (Inl e, s)
                | Inr touched \<Rightarrow>
                    Ret (Inr touched,
                      s\<lparr>ix_flights := map (\<lambda>f. f\<lparr>fl_gone := prefix_set_extend (fl_gone f) (ps_paths ps)\<rparr>) (ix_flights s),
                        ix_staged := filter (\<lambda>e. \<not> covers ps (e_path e)) (ix_staged s), ix_hidden := ps\<rparr>)))"

text \<open>The bits of the rows found unchanged, and the marks of a pass with more added.\<close>

definition mark_rows :: "(u32 \<times> nat) list \<Rightarrow> bytes \<Rightarrow> bytes" where
  "mark_rows hits bits =
     foldl (\<lambda>bits (_, row). case nth_opt bits (row div 8) of
         Some b \<Rightarrow> bits[row div 8 := b OR push_bit (row mod 8) 1] | None \<Rightarrow> bits) bits hits"

definition or_into :: "bytes \<Rightarrow> bytes \<Rightarrow> bytes" where
  "or_into held bits = map (\<lambda>i. if i < length bits then held ! i OR bits ! i else held ! i) [0 ..< length held]"

definition merge_marks :: "(u64 \<rightharpoonup> bytes) \<Rightarrow> (u64 \<rightharpoonup> bytes) \<Rightarrow> u64 \<rightharpoonup> bytes" where
  "merge_marks seen marks = (\<lambda>number. case marks number of
       None \<Rightarrow> seen number
     | Some bits \<Rightarrow>
         let held = (case seen number of Some h \<Rightarrow> h | None \<Rightarrow> replicate (length bits) 0)
         in Some (or_into (held @ replicate (length bits - length held) 0) bits))"

fun spare_segments ::
  "(u8 \<Rightarrow> bytes \<Rightarrow> nat option) \<Rightarrow> (u32 \<times> u32) list \<Rightarrow> entry list \<Rightarrow> live list \<Rightarrow> bool list \<Rightarrow> bool list \<Rightarrow> (u64 \<rightharpoonup> bytes) \<Rightarrow> nat
    \<Rightarrow> (bool list \<times> (u64 \<rightharpoonup> bytes) \<times> nat) res run" where
  "spare_segments memchr keys staged [] decided drop_at marks n = Ret (Inr (drop_at, marks, n))"
| "spare_segments memchr keys staged (lv # lvs) decided drop_at marks n =
     bind_run (spare_paths memchr keys staged lv decided []) (\<lambda>r. case r of
         Inl e \<Rightarrow> Ret (Inl e)
       | Inr (decided, hits) \<Rightarrow>
           if hits = [] then spare_segments memchr keys staged lvs decided drop_at marks n
           else
             let bits = (case marks (lv_number lv) of Some b \<Rightarrow> b | None \<Rightarrow> replicate ((lv_rows lv + 7) div 8) 0)
             in spare_segments memchr keys staged lvs decided (foldl (\<lambda>d (at, _). d[unat at := True]) drop_at hits)
                  (marks(lv_number lv \<mapsto> mark_rows hits bits)) (n + length hits))"

definition spare_keys :: "entry list \<Rightarrow> (u32 \<times> u32) list" where
  "spare_keys staged = sort (map (\<lambda>(i, e). (key_of (id_source (e_id e)) (e_path e), as_u32 i)) (List.enumerate 0 staged))"

definition keep_undropped :: "bool list \<Rightarrow> entry list \<Rightarrow> entry list" where
  "keep_undropped drop_at staged = map snd (filter (\<lambda>(i, e). \<not> drop_at ! i) (List.enumerate 0 staged))"

definition spare_unchanged :: "index_env \<Rightarrow> native_index \<Rightarrow> nat step" where
  "spare_unchanged env s =
     (if ix_open s = None \<or> ix_staged s = [] \<or> ix_segments s = [] then Ret (Inr 0, s)
      else
        let fresh = replicate (length (ix_staged s)) False
        in bind_run (spare_segments (ie_memchr env) (spare_keys (ix_staged s)) (ix_staged s) (ix_segments s) fresh fresh Map.empty 0) (\<lambda>r.
             case r of
               Inl e \<Rightarrow> Ret (Inl e, s)
             | Inr (drop_at, marks, n) \<Rightarrow>
                 if n = 0 then Ret (Inr 0, s)
                 else
                   let staged = keep_undropped drop_at (ix_staged s)
                   in Ret (Inr n, s\<lparr>ix_seen := merge_marks (ix_seen s) marks, ix_staged := staged,
                        ix_staged_at := staged_positions staged, ix_spared := ix_spared s + n\<rparr>)))"

definition wanted_of :: "entry list \<Rightarrow> wanted_path list" where
  "wanted_of staged =
     sort_key fst (map (\<lambda>e. (key_of (id_source (e_id e)) (e_path e), id_source (e_id e), e_path e)) staged)"

definition doom_flight :: "wanted_path list \<Rightarrow> flight \<Rightarrow> flight" where
  "doom_flight wanted f =
     f\<lparr>fl_doomed := fl_doomed f @ filter (\<lambda>(_, source, path). path_digest source path \<in> fl_paths f) wanted\<rparr>"

definition replace_rows :: "index_env \<Rightarrow> native_index \<Rightarrow> bool list step" where
  "replace_rows env s =
     (let wanted = wanted_of (ix_staged s)
      in bind_run (kill_each (kill_paths (ie_memchr env) wanted) (ix_segments s)) (\<lambda>(r, lvs).
           let s = s\<lparr>ix_segments := lvs\<rparr>
           in case r of
                Inl e \<Rightarrow> Ret (Inl e, s)
              | Inr touched \<Rightarrow> Ret (Inr touched, s\<lparr>ix_flights := map (doom_flight wanted) (ix_flights s)\<rparr>)))"

definition take_staged :: "bool \<Rightarrow> native_index \<Rightarrow> (u64 \<times> u64 \<times> entry list) option \<times> native_index" where
  "take_staged durable s =
     (if ix_staged s = [] then (None, s)
      else (Some (ix_next_segment s, ix_generation s, ix_staged s),
            s\<lparr>ix_next_segment := ix_next_segment s + 1, ix_meta_dirty := ix_meta_dirty s \<or> durable,
              ix_staged := [], ix_staged_at := Map.empty\<rparr>))"

definition take_dirty_alive :: "native_index \<Rightarrow> (u64 \<times> bytes) list \<times> native_index" where
  "take_dirty_alive s =
     (map (\<lambda>lv. (lv_number lv, lv_alive lv))
        (filter (\<lambda>lv. lv_number lv \<in> ix_dirty_alive s \<and> lv_number lv \<notin> ix_unwritten s) (ix_segments s)),
      s\<lparr>ix_dirty_alive := {}\<rparr>)"

definition emptied :: "live \<Rightarrow> bool" where
  "emptied lv \<longleftrightarrow> 0 < lv_rows lv \<and> live_rows lv = 0"

definition forget_empty :: "native_index \<Rightarrow> u64 list \<times> native_index" where
  "forget_empty s =
     (let gone = map lv_number (filter emptied (ix_segments s));
          written = filter (\<lambda>n. n \<notin> ix_unwritten s) gone
      in (gone, s\<lparr>ix_segments := filter (\<lambda>lv. \<not> emptied lv) (ix_segments s), ix_unwritten := ix_unwritten s - set gone,
           ix_meta_dirty := ix_meta_dirty s \<or> written \<noteq> [], ix_pending_erase := ix_pending_erase s \<union> set written\<rparr>))"

definition dirty_touched :: "bool list \<Rightarrow> bool list \<Rightarrow> native_index \<Rightarrow> native_index" where
  "dirty_touched hid killed s =
     s\<lparr>ix_dirty_alive := ix_dirty_alive s
        \<union> set (map (\<lambda>(_, lv). lv_number lv) (filter (\<lambda>(t, _). t) (zip (map2 (\<or>) hid killed) (ix_segments s))))\<rparr>"

definition flush_rest :: "index_env \<Rightarrow> bool \<Rightarrow> bool \<Rightarrow> bool list \<Rightarrow> bool list \<Rightarrow> native_index \<Rightarrow> pending step" where
  "flush_rest env discretionary durable hid killed s =
     (let (staged, s) = (if discretionary \<and> length (ix_staged s) < MAX_STAGED then (None, s) else take_staged durable s);
          (alive, s) = take_dirty_alive (dirty_touched hid killed s);
          ps = ix_hidden s; s = s\<lparr>ix_hidden := prefix_set_default\<rparr>;
          (gone, s) = forget_empty s;
          (saved, s) = (if durable \<and> ix_meta_dirty s then save_meta env s else (Inr (), s))
      in case saved of
           Inl e \<Rightarrow> Ret (Inl e, restore \<lparr>pd_staged = staged, pd_alive = alive, pd_prefixes = ps\<rparr> s)
         | Inr _ \<Rightarrow> Ret (Inr \<lparr>pd_staged = staged, pd_alive = filter (\<lambda>(n, _). n \<notin> set gone) alive, pd_prefixes = ps\<rparr>, s))"

definition flush_prepare :: "index_env \<Rightarrow> bool \<Rightarrow> bool \<Rightarrow> native_index \<Rightarrow> pending step" where
  "flush_prepare env discretionary durable s =
     step_then (collect env s) (\<lambda>_ s.
       if ix_staged s = [] \<and> ps_paths (ix_hidden s) = [] \<and> ix_dirty_alive s = {} then
         (let (saved, s) = (if durable \<and> ix_meta_dirty s then save_meta env s else (Inr (), s))
          in Ret (bind_res saved (\<lambda>_. Inr pending_default), s))
       else step_then (hide_rows env s) (\<lambda>hid s.
            step_then (spare_unchanged env s) (\<lambda>_ s.
            step_then (replace_rows env s) (\<lambda>killed s. flush_rest env discretionary durable hid killed s))))"

section \<open>Publishing, flushing and applying\<close>

definition add_segment :: "live \<Rightarrow> native_index \<Rightarrow> native_index" where
  "add_segment lv s = by_number (s\<lparr>ix_segments := ix_segments s @ [lv]\<rparr>)"

definition publish_locked :: "index_env \<Rightarrow> native_index \<Rightarrow> unit step" where
  "publish_locked env s =
     step_then (flush_prepare env False False s) (\<lambda>p s.
       let s = s\<lparr>ix_dirty_alive := ix_dirty_alive s \<union> fst ` set (pd_alive p)\<rparr>; p = p\<lparr>pd_alive := []\<rparr>
       in case pd_staged p of
            None \<Rightarrow> Ret (Inr (), s)
          | Some (number, generation, staged) \<Rightarrow>
              bind_run (build (ie_memchr env) (ie_fold_bytes env) (ie_fold_case env) staged) (\<lambda>sb.
              bind_run (from_bytes number generation sb) (\<lambda>r. case r of
                  Inl e \<Rightarrow> Ret (Inl e, restore p s)
                | Inr lv \<Rightarrow>
                    let s = add_segment lv (s\<lparr>ix_next_segment := max (ix_next_segment s) (number + 1)\<rparr>)
                    in Ret (Inr (), s\<lparr>ix_unwritten := insert number (ix_unwritten s)\<rparr>))))"

definition write_alive_all :: "index_env \<Rightarrow> (u64 \<times> bytes) list \<Rightarrow> unit res" where
  "write_alive_all env alive = foldl (\<lambda>r (n, bits). bind_res r (\<lambda>_. ie_write_alive env n bits)) (Inr ()) alive"

text \<open>
  The flush that writes: here, or when a buffer filled up during a walk on another thread, whose
  flight says which paths are in the air.
\<close>

definition flush_maybe_elsewhere :: "index_env \<Rightarrow> bool \<Rightarrow> native_index \<Rightarrow> unit step" where
  "flush_maybe_elsewhere env elsewhere s =
     step_then (flush_prepare env elsewhere True s) (\<lambda>p s.
       case write_alive_all env (pd_alive p) of
         Inl e \<Rightarrow> Ret (Inl e, restore p s)
       | Inr _ \<Rightarrow>
           (case pd_staged p of
              None \<Rightarrow> Ret (Inr (), s)
            | Some (number, generation, staged) \<Rightarrow>
                if \<not> elsewhere \<or> MAX_BUILDING \<le> length (ix_flights s) then
                  bind_run (build (ie_memchr env) (ie_fold_bytes env) (ie_fold_case env) staged) (\<lambda>sb.
                    case ie_write env number generation sb of
                      Inl e \<Rightarrow> Ret (Inl e, restore p s)
                    | Inr lv \<Rightarrow> Ret (save_meta env ((add_segment lv s)\<lparr>ix_meta_dirty := True\<rparr>)))
                else
                  let s = s\<lparr>ix_flights := ix_flights s @
                        [\<lparr>fl_number = number, fl_paths = entry_digest ` set staged, fl_doomed = [], fl_gone = prefix_set_default\<rparr>]\<rparr>
                  in case ie_spawn env number of
                       None \<Rightarrow> Ret (Inr (), s)
                     | Some detail \<Rightarrow> Ret (Inl (Io (chs ''no thread for a segment build: '' @ detail)), land number s)))"

datatype index_change =
    Upsert entry
  | RemoveSubtree bytes
  | Rescan bytes

record apply_report =
  ar_upserted :: nat
  ar_removed :: nat
  ar_subtrees_removed :: nat
  ar_unchanged :: nat

definition upsert :: "entry \<Rightarrow> native_index \<Rightarrow> native_index" where
  "upsert e s =
     (let s = (if id_source (e_id e) \<in> set (ix_sources s) then s else s\<lparr>ix_sources := ix_sources s @ [id_source (e_id e)]\<rparr>);
          s = (if ps_paths (ix_hidden s) = [] then s else s\<lparr>ix_hidden := snd (forget (ix_hidden s) (e_path e))\<rparr>)
      in stage e s)"

definition remove_subtree :: "bytes \<Rightarrow> native_index \<Rightarrow> native_index" where
  "remove_subtree path s = s\<lparr>ix_hidden := prefix_set_extend (ix_hidden s) [path]\<rparr>"

fun apply_loop :: "index_env \<Rightarrow> index_change list \<Rightarrow> apply_report \<Rightarrow> native_index \<Rightarrow> apply_report step" where
  "apply_loop env [] rep s = Ret (Inr rep, s)"
| "apply_loop env (Upsert e # cs) rep s =
     (let s = upsert e s; rep = rep\<lparr>ar_upserted := ar_upserted rep + 1\<rparr>
      in if MAX_STAGED \<le> length (ix_staged s)
         then step_then (flush_maybe_elsewhere env True s) (\<lambda>_ s. apply_loop env cs rep s)
         else apply_loop env cs rep s)"
| "apply_loop env (RemoveSubtree path # cs) rep s =
     apply_loop env cs (rep\<lparr>ar_subtrees_removed := ar_subtrees_removed rep + 1\<rparr>) (remove_subtree path s)"
| "apply_loop env (Rescan path # cs) rep s = apply_loop env cs rep s"

definition apply_changes :: "index_env \<Rightarrow> index_change list \<Rightarrow> native_index \<Rightarrow> apply_report step" where
  "apply_changes env cs s =
     step_then (apply_loop env cs \<lparr>ar_upserted = 0, ar_removed = 0, ar_subtrees_removed = 0, ar_unchanged = 0\<rparr> s) (\<lambda>rep s.
       Ret (Inr (rep\<lparr>ar_upserted := ar_upserted rep - ix_spared s, ar_unchanged := ix_spared s\<rparr>), s\<lparr>ix_spared := 0\<rparr>))"

section \<open>Generations\<close>

definition close_generation :: "u64 \<Rightarrow> native_index \<Rightarrow> native_index" where
  "close_generation generation s =
     (if ix_open s = Some generation
      then s\<lparr>ix_open := None, ix_generation := (if ix_generation s = - 1 then - 1 else ix_generation s + 1), ix_meta_dirty := True\<rparr>
      else s)"

text \<open>\<open>begin_generation\<close>, once nothing is being built.\<close>

definition begin_generation :: "index_env \<Rightarrow> native_index \<Rightarrow> u64 step" where
  "begin_generation env s =
     step_then (collect env s) (\<lambda>_ s.
     step_then (publish_locked env (s\<lparr>ix_open := None, ix_seen := Map.empty\<rparr>)) (\<lambda>_ s.
       let g = ix_generation s + 1
       in Ret (Inr g, s\<lparr>ix_generation := g, ix_open := Some g, ix_meta_dirty := True\<rparr>)))"

definition abandon_generation :: "u64 \<Rightarrow> native_index \<Rightarrow> native_index" where
  "abandon_generation generation s = (close_generation generation s)\<lparr>ix_seen := Map.empty\<rparr>"

definition fresh :: "u64 \<Rightarrow> native_index \<Rightarrow> nat" where
  "fresh generation s = sum_list (map live_rows (filter (\<lambda>lv. lv_generation lv = generation) (ix_segments s)))"

end
