(* ===== verification/Publish.thy ===== *)
theory Publish
  imports Index
begin

text \<open>
  What publishing does to the answer of the index: the steps of \<open>Index\<close> against a map from a
  source and a path to an entry.

  The rows of a segment are what \<open>Live::entries\<close> gives, so what the index shows is the entries
  of all its segments.  Each step of a flush is described by what it does to that set, and the
  theorems say that a batch of changes and a publish update the map as the batch says.
\<close>

section \<open>What a segment shows\<close>

definition env_ok :: "index_env \<Rightarrow> bool" where
  "env_ok env \<longleftrightarrow> memchr_law (ie_memchr env)"

definition fits_env :: "index_env \<Rightarrow> entry list \<Rightarrow> bool" where
  "fits_env env es \<longleftrightarrow> entries_fit (ie_fold_bytes env) es \<and> (\<forall>e \<in> set es. walked_path (e_path e))"

definition holds_env :: "index_env \<Rightarrow> entry list \<Rightarrow> live \<Rightarrow> bool" where
  "holds_env env es lv \<longleftrightarrow> fits_env env es \<and> live_holds (ie_memchr env) (ie_fold_bytes env) (ie_fold_case env) es lv"

definition segment_ok :: "index_env \<Rightarrow> u32 list \<Rightarrow> live \<Rightarrow> bool" where
  "segment_ok env sources lv \<longleftrightarrow>
     (\<exists>es. holds_env env es lv \<and> es \<noteq> [] \<and> (\<forall>e \<in> set es. id_source (e_id e) \<in> set sources))"

definition rows_of_live :: "index_env \<Rightarrow> live \<Rightarrow> entry list" where
  "rows_of_live env lv = (case live_entries (ie_memchr env) lv of Ret (Inr es) \<Rightarrow> es | _ \<Rightarrow> [])"

definition shown_rows :: "index_env \<Rightarrow> live list \<Rightarrow> entry set" where
  "shown_rows env lvs = set (concat (map (rows_of_live env) lvs))"

definition path_key :: "entry \<Rightarrow> u32 \<times> bytes" where
  "path_key e = (id_source (e_id e), e_path e)"

lemma stored_simps [simp]:
  "e_path (stored_entry e) = e_path e" "id_source (e_id (stored_entry e)) = id_source (e_id e)"
  "path_key (stored_entry e) = path_key e" "e_is_dir (stored_entry e) = e_is_dir e"
  by (simp_all add: stored_entry_def path_hash_def path_key_def)

lemma walked_plain: "\<forall>e \<in> set es. walked_path (e_path e) \<Longrightarrow> plain_paths es"
  by (auto simp: plain_paths_def walked_path_def)

lemma rows_of_held:
  assumes "env_ok env" "holds_env env es lv"
  shows "rows_of_live env lv = map (\<lambda>i. stored_entry (es ! i)) (filter (live_is_alive lv) [0 ..< length es])"
proof -
  have h: "entries_fit (ie_fold_bytes env) es" "plain_paths es" "live_holds (ie_memchr env) (ie_fold_bytes env) (ie_fold_case env) es lv"
    using assms(2) walked_plain by (simp_all add: holds_env_def fits_env_def)
  show ?thesis
    using live_entries_of [OF _ h] assms(1) by (simp add: rows_of_live_def env_ok_def)
qed

lemma shown_rows_simps [simp]:
  "shown_rows env [] = {}" "shown_rows env (lv # lvs) = set (rows_of_live env lv) \<union> shown_rows env lvs"
  "shown_rows env (lvs @ lvs') = shown_rows env lvs \<union> shown_rows env lvs'"
  by (auto simp: shown_rows_def)

lemma shown_rows_set: "set lvs = set lvs' \<Longrightarrow> shown_rows env lvs = shown_rows env lvs'"
  by (auto simp: shown_rows_def)

text \<open>Rows that died, described by what they say.\<close>

lemma retired_rows:
  assumes env: "env_ok env" and h: "holds_env env es lv"
    and r: "retired (ie_memchr env) (ie_fold_bytes env) (ie_fold_case env) es die gone lv lv'"
    and die: "\<And>i. i < length es \<Longrightarrow> live_is_alive lv i \<Longrightarrow> die i \<longleftrightarrow> D (stored_entry (es ! i))"
  shows "holds_env env es lv'" "set (rows_of_live env lv') = {e \<in> set (rows_of_live env lv). \<not> D e}"
proof -
  show h': "holds_env env es lv'" using h r by (simp add: holds_env_def retired_def)
  have "live_is_alive lv' i \<longleftrightarrow> live_is_alive lv i \<and> \<not> D (stored_entry (es ! i))" if "i < length es" for i
    using r die [OF that] that by (auto simp: retired_def)
  then show "set (rows_of_live env lv') = {e \<in> set (rows_of_live env lv). \<not> D e}"
    unfolding rows_of_held [OF env h] rows_of_held [OF env h'] by auto
qed

text \<open>One pass over the segments.\<close>

lemma kill_each_rows:
  assumes env: "env_ok env"
    and f: "\<And>lv. segment_ok env sources lv \<Longrightarrow> \<exists>gone lv'. f lv = Ret (Inr (gone, lv')) \<and> segment_ok env sources lv'
        \<and> set (rows_of_live env lv') = {e \<in> set (rows_of_live env lv). \<not> D e}"
    and lvs: "\<forall>lv \<in> set lvs. segment_ok env sources lv"
  shows "\<exists>ts lvs'. kill_each f lvs = Ret (Inr ts, lvs') \<and> (\<forall>lv \<in> set lvs'. segment_ok env sources lv)
    \<and> shown_rows env lvs' = {e \<in> shown_rows env lvs. \<not> D e}"
  using lvs
proof (induction lvs)
  case (Cons lv lvs)
  obtain gone lv' where one: "f lv = Ret (Inr (gone, lv'))" "segment_ok env sources lv'"
    "set (rows_of_live env lv') = {e \<in> set (rows_of_live env lv). \<not> D e}"
    using f [of lv] Cons.prems by auto
  obtain ts lvs' where IH: "kill_each f lvs = Ret (Inr ts, lvs')" "\<forall>lv \<in> set lvs'. segment_ok env sources lv"
    "shown_rows env lvs' = {e \<in> shown_rows env lvs. \<not> D e}"
    using Cons by auto
  have "kill_each f (lv # lvs) = Ret (Inr ((gone \<noteq> 0) # ts), lv' # lvs')" using one(1) IH(1) by simp
  moreover have "shown_rows env (lv' # lvs') = {e \<in> shown_rows env (lv # lvs). \<not> D e}" using one(3) IH(3) by auto
  moreover have "\<forall>lv \<in> set (lv' # lvs'). segment_ok env sources lv" using one(2) IH(2) by simp
  ultimately show ?case by blast
qed simp

section \<open>Removals\<close>

text \<open>
  Paths a watcher reports: none of them names an entry that sits directly in the root, which is
  where a removal can miss a row.
\<close>

definition removable :: "bytes \<Rightarrow> bool" where
  "removable p \<longleftrightarrow> trim_slash p = [] \<or> walked_path (trim_slash p) \<and> entry_parent (trim_slash p) \<noteq> [SLASH]"

lemma removal_takes_covers:
  assumes "prefix_set_ok s" "\<forall>p \<in> set (ps_paths s). removable p" "path \<noteq> []"
  shows "removal_takes es (ps_paths s) path \<longleftrightarrow> covers s path"
proof -
  have "\<not> (entry_parent path = [SLASH] \<and> trim_slash p = path \<and> x)" if "p \<in> set (ps_paths s)" for p x
    using assms(2,3) that by (auto simp: removable_def)
  then have "removal_takes es (ps_paths s) path \<longleftrightarrow> (\<exists>p \<in> set (ps_paths s). under path p)"
    unfolding removal_takes_def by (intro bex_cong refl) blast
  then show ?thesis by (simp add: covers_ok [OF assms(1)] covered_by_def)
qed

lemma walked_nonempty: "walked_path path \<Longrightarrow> path \<noteq> []"
  by (auto simp: walked_path_def Let_def entry_parent_def rfind_def)

lemma remove_subtrees_rows:
  assumes env: "env_ok env" and lv: "segment_ok env sources lv"
    and ps: "prefix_set_ok s" "\<forall>p \<in> set (ps_paths s). removable p"
  shows "\<exists>gone lv'. remove_subtrees (ie_memchr env) s sources lv = Ret (Inr (gone, lv')) \<and> segment_ok env sources lv'
    \<and> set (rows_of_live env lv') = {e \<in> set (rows_of_live env lv). \<not> covers s (e_path e)}"
proof -
  obtain es where es: "holds_env env es lv" "\<forall>e \<in> set es. id_source (e_id e) \<in> set sources" "es \<noteq> []"
    using lv by (auto simp: segment_ok_def)
  note h = es(1) [unfolded holds_env_def fits_env_def]
  have src: "sources \<noteq> []" using es(2,3) by (cases es) auto
  have p: "\<forall>p \<in> set (ps_paths s). trim_slash p = [] \<or> walked_path (trim_slash p)" using ps(2) by (auto simp: removable_def)
  obtain gone lv' where r: "remove_subtrees (ie_memchr env) s sources lv = Ret (Inr (gone, lv'))"
    "retired (ie_memchr env) (ie_fold_bytes env) (ie_fold_case env) es (\<lambda>i. removal_takes es (ps_paths s) (e_path (es ! i))) gone lv lv'"
    using remove_subtrees_of [of "ie_memchr env" "ie_fold_bytes env" es "ie_fold_case env" lv sources s] env h src es(2) p
    unfolding env_ok_def by blast
  have "removal_takes es (ps_paths s) (e_path (es ! i)) \<longleftrightarrow> covers s (e_path (stored_entry (es ! i)))" if "i < length es" for i
    using removal_takes_covers [OF ps] walked_nonempty h that by simp
  note rows = retired_rows [OF env es(1) r(2), of "\<lambda>e. covers s (e_path e)", OF this]
  have "segment_ok env sources lv'" using rows(1) es(2,3) by (auto simp: segment_ok_def)
  then show ?thesis using r(1) rows(2) by blast
qed

section \<open>Replacements\<close>

lemma wanted_of_ok:
  assumes "\<forall>e \<in> set staged. walked_path (e_path e)"
  shows "wanted_ok (wanted_of staged)"
  using assms by (auto simp: wanted_ok_def wanted_of_def walked_path_def)

lemma replace_rows_of:
  assumes env: "env_ok env" and lv: "segment_ok env sources lv" and staged: "\<forall>e \<in> set staged. walked_path (e_path e)"
  shows "\<exists>gone lv'. kill_paths (ie_memchr env) (wanted_of staged) lv = Ret (Inr (gone, lv')) \<and> segment_ok env sources lv'
    \<and> set (rows_of_live env lv') = {e \<in> set (rows_of_live env lv). path_key e \<notin> path_key ` set staged}"
proof -
  obtain es where es: "holds_env env es lv" "\<forall>e \<in> set es. id_source (e_id e) \<in> set sources" "es \<noteq> []"
    using lv by (auto simp: segment_ok_def)
  note h = es(1) [unfolded holds_env_def fits_env_def]
  have plain: "plain_paths es" using h walked_plain by blast
  obtain gone lv' where r: "kill_paths (ie_memchr env) (wanted_of staged) lv = Ret (Inr (gone, lv'))"
    "retired (ie_memchr env) (ie_fold_bytes env) (ie_fold_case env) es
      (\<lambda>i. \<exists>(_, source, path) \<in> set (wanted_of staged). same_path (es ! i) source path) gone lv lv'"
    using retired_kill_paths [of "ie_memchr env" "ie_fold_bytes env" es "ie_fold_case env" lv "wanted_of staged"] env h plain wanted_of_ok [OF staged]
    unfolding env_ok_def by blast
  have "(\<exists>(_, source, path) \<in> set (wanted_of staged). same_path (es ! i) source path)
      \<longleftrightarrow> path_key (stored_entry (es ! i)) \<in> path_key ` set staged" for i
    by (auto simp: wanted_of_def same_path_def path_key_def)
  note rows = retired_rows [OF env es(1) r(2), of "\<lambda>e. path_key e \<in> path_key ` set staged", OF this]
  have "segment_ok env sources lv'" using rows(1) es(2,3) by (auto simp: segment_ok_def)
  then show ?thesis using r(1) rows(2) by blast
qed

section \<open>Entries found unchanged\<close>

text \<open>A row that says what an entry says, as far as sparing looks.\<close>

definition same_entry :: "entry \<Rightarrow> entry \<Rightarrow> bool" where
  "same_entry r e \<longleftrightarrow> path_key r = path_key e \<and> meta_same r (e_meta e) (e_is_dir e)"

lemma meta_same_stored [simp]: "meta_same (stored_entry e) m d = meta_same e m d"
  by (simp add: meta_same_def stored_entry_def)

lemma enumerate_map: "List.enumerate 0 xs = map (\<lambda>i. (i, xs ! i)) [0 ..< length xs]"
  by (rule nth_equalityI) (simp_all add: nth_enumerate_eq)

lemma spare_keys_ok:
  assumes "length staged < 2 ^ 32" "\<forall>e \<in> set staged. walked_path (e_path e)"
  shows "keys_ok (spare_keys staged) staged" "snd ` set (spare_keys staged) = as_u32 ` {..< length staged}"
proof -
  have u: "unat (as_u32 i) = i" if "i < length staged" for i using that assms(1) by (simp add: unat_u32)
  have set: "set (spare_keys staged)
      = (\<lambda>i. (key_of (id_source (e_id (staged ! i))) (e_path (staged ! i)), as_u32 i)) ` {..< length staged}"
    by (simp add: spare_keys_def enumerate_map image_image atLeast0LessThan)
  have "sorted (map fst (spare_keys staged))"
    unfolding spare_keys_def by (rule sorted_map_mono [of _ fst, unfolded mono_on_def]) (auto simp: less_eq_prod_def)
  then show "keys_ok (spare_keys staged) staged"
    using u assms(2) by (auto simp: keys_ok_def set walked_path_def)
  show "snd ` set (spare_keys staged) = as_u32 ` {..< length staged}" unfolding set by (simp add: image_image)
qed

lemma spare_paths_rows:
  assumes env: "env_ok env" and lv: "segment_ok env sources lv" and inj: "inj_on path_key (set (rows_of_live env lv))"
    and staged: "length staged < 2 ^ 32" "\<forall>e \<in> set staged. walked_path (e_path e)" and len: "length decided = length staged"
  obtains decided' hits where
    "spare_paths (ie_memchr env) (spare_keys staged) staged lv decided [] = Ret (Inr (decided', hits))"
    "length decided' = length staged" "\<forall>h \<in> set hits. unat (fst h) < length staged"
    "\<And>a. a < length staged \<Longrightarrow> decided' ! a \<longleftrightarrow> decided ! a \<or> (\<exists>r \<in> set (rows_of_live env lv). path_key r = path_key (staged ! a))"
    "\<And>a. a < length staged \<Longrightarrow> as_u32 a \<in> fst ` set hits
      \<longleftrightarrow> \<not> decided ! a \<and> (\<exists>r \<in> set (rows_of_live env lv). same_entry r (staged ! a))"
proof -
  obtain es where es: "holds_env env es lv" using lv by (auto simp: segment_ok_def)
  note h = es [unfolded holds_env_def fits_env_def]
  have plain: "plain_paths es" using h walked_plain by blast
  note keys = spare_keys_ok [OF staged]
  obtain decided' hits where r:
    "spare_paths (ie_memchr env) (spare_keys staged) staged lv decided [] = Ret (Inr (decided', hits))"
    "length decided' = length staged"
    "\<forall>a < length staged. decided' ! a \<longleftrightarrow> decided ! a
       \<or> a \<in> unat ` snd ` set (spare_keys staged) \<and> (\<exists>i < length es. settling es lv (staged ! a) i)"
    "\<forall>b i. (b, i) \<in> set hits \<longleftrightarrow> b \<in> snd ` set (spare_keys staged) \<and> \<not> decided ! unat b
       \<and> find (settling es lv (staged ! unat b)) [0 ..< length es] = Some i
       \<and> meta_same (es ! i) (e_meta (staged ! unat b)) (e_is_dir (staged ! unat b))"
    using spare_paths_of [of "ie_memchr env" "ie_fold_bytes env" es "ie_fold_case env" lv "spare_keys staged" staged decided "[]"] env h plain keys(1) len
    unfolding env_ok_def by auto
  have u: "unat (as_u32 a) = a" if "a < length staged" for a using that staged(1) by (simp add: unat_u32)
  have rows: "set (rows_of_live env lv) = {stored_entry (es ! i) | i. i < length es \<and> live_is_alive lv i}"
    unfolding rows_of_held [OF env es] by auto
  have settle: "settling es lv e i \<longleftrightarrow> live_is_alive lv i \<and> path_key (stored_entry (es ! i)) = path_key e" for e i
    by (auto simp: settling_def same_path_def path_key_def)
  have at: "(\<exists>i < length es. settling es lv e i) \<longleftrightarrow> (\<exists>r \<in> set (rows_of_live env lv). path_key r = path_key e)" for e
    unfolding rows settle by auto
  have found: "(\<exists>i. find (settling es lv e) [0 ..< length es] = Some i \<and> meta_same (es ! i) (e_meta e) (e_is_dir e))
      \<longleftrightarrow> (\<exists>r \<in> set (rows_of_live env lv). same_entry r e)" for e
  proof
    assume "\<exists>i. find (settling es lv e) [0 ..< length es] = Some i \<and> meta_same (es ! i) (e_meta e) (e_is_dir e)"
    then obtain i where i: "find (settling es lv e) [0 ..< length es] = Some i" "meta_same (es ! i) (e_meta e) (e_is_dir e)" by blast
    then have "i < length es" "settling es lv e i" by (auto simp: find_Some_iff)
    then show "\<exists>r \<in> set (rows_of_live env lv). same_entry r e"
      using i(2) unfolding rows same_entry_def settle by (intro bexI [of _ "stored_entry (es ! i)"]) auto
  next
    assume "\<exists>r \<in> set (rows_of_live env lv). same_entry r e"
    then obtain j where j: "j < length es" "settling es lv e j" "meta_same (es ! j) (e_meta e) (e_is_dir e)"
      unfolding rows settle by (auto simp: same_entry_def)
    then obtain i where i: "find (settling es lv e) [0 ..< length es] = Some i"
      by (cases "find (settling es lv e) [0 ..< length es]") (auto simp: find_None_iff)
    then have l: "i < length es" "settling es lv e i" by (auto simp: find_Some_iff)
    have "stored_entry (es ! i) = stored_entry (es ! j)"
      by (rule inj_onD [OF inj]) (use l j settle in \<open>auto simp: rows\<close>)
    then have "meta_same (es ! i) (e_meta e) (e_is_dir e)" using j(3) meta_same_stored by metis
    then show "\<exists>i. find (settling es lv e) [0 ..< length es] = Some i \<and> meta_same (es ! i) (e_meta e) (e_is_dir e)"
      using i by blast
  qed
  show thesis
  proof (rule that [OF r(1,2)])
    show "\<forall>h \<in> set hits. unat (fst h) < length staged"
      using r(4) keys(2) u by (auto simp: image_iff)
    fix a assume a: "a < length staged"
    have "a \<in> unat ` snd ` set (spare_keys staged)" using a u unfolding keys(2) by force
    then show "decided' ! a \<longleftrightarrow> decided ! a \<or> (\<exists>r \<in> set (rows_of_live env lv). path_key r = path_key (staged ! a))"
      using r(3) a at by blast
    have "as_u32 a \<in> snd ` set (spare_keys staged)" using a unfolding keys(2) by blast
    moreover have "as_u32 a \<in> fst ` set hits \<longleftrightarrow> (\<exists>i. (as_u32 a, i) \<in> set hits)" by force
    ultimately show "as_u32 a \<in> fst ` set hits \<longleftrightarrow> \<not> decided ! a \<and> (\<exists>r \<in> set (rows_of_live env lv). same_entry r (staged ! a))"
      unfolding found [symmetric] using r(4) u [OF a] by auto
  qed
qed

lemma drop_marked:
  assumes "\<forall>h \<in> set hits. unat (fst h) < length drop_at" "length drop_at < 2 ^ 32"
  shows "length (foldl (\<lambda>d (at, _). d[unat at := True]) drop_at hits) = length drop_at
    \<and> (\<forall>a < length drop_at. foldl (\<lambda>d (at, _). d[unat (at :: u32) := True]) drop_at hits ! a
         \<longleftrightarrow> drop_at ! a \<or> as_u32 a \<in> fst ` set hits)"
  using assms
proof (induction hits arbitrary: drop_at)
  case (Cons h hits)
  obtain b i where h: "h = (b, i)" by fastforce
  have "as_u32 a = b \<longleftrightarrow> a = unat b" if "a < length drop_at" for a
    using that Cons.prems(2) unat_u32 [of a] by auto
  then show ?case
    using Cons.IH [of "drop_at[unat b := True]"] Cons.prems by (auto simp: h nth_list_update)
qed simp

lemma spare_segments_of:
  assumes env: "env_ok env" and staged: "length staged < 2 ^ 32" "\<forall>e \<in> set staged. walked_path (e_path e)"
  shows "\<forall>lv \<in> set lvs. segment_ok env sources lv \<Longrightarrow> inj_on path_key (shown_rows env lvs) \<Longrightarrow>
    length decided = length staged \<Longrightarrow> length drop_at = length staged \<Longrightarrow>
    \<exists>drop' marks' n'. spare_segments (ie_memchr env) (spare_keys staged) staged lvs decided drop_at marks n = Ret (Inr (drop', marks', n'))
      \<and> length drop' = length staged \<and> n \<le> n' \<and> (n' = n \<longrightarrow> drop' = drop_at)
      \<and> (\<forall>a < length staged. drop' ! a \<longleftrightarrow> drop_at ! a \<or> \<not> decided ! a \<and> (\<exists>r \<in> shown_rows env lvs. same_entry r (staged ! a)))"
proof (induction lvs arbitrary: decided drop_at marks n)
  case (Cons lv lvs)
  have ok: "segment_ok env sources lv" "\<forall>lv \<in> set lvs. segment_ok env sources lv" using Cons.prems(1) by simp_all
  have inj: "inj_on path_key (set (rows_of_live env lv))" "inj_on path_key (shown_rows env lvs)"
    using Cons.prems(2) by (auto intro: inj_on_subset)
  obtain decided' hits where one:
    "spare_paths (ie_memchr env) (spare_keys staged) staged lv decided [] = Ret (Inr (decided', hits))"
    "length decided' = length staged" "\<forall>h \<in> set hits. unat (fst h) < length staged"
    "\<And>a. a < length staged \<Longrightarrow> decided' ! a \<longleftrightarrow> decided ! a \<or> (\<exists>r \<in> set (rows_of_live env lv). path_key r = path_key (staged ! a))"
    "\<And>a. a < length staged \<Longrightarrow> as_u32 a \<in> fst ` set hits
      \<longleftrightarrow> \<not> decided ! a \<and> (\<exists>r \<in> set (rows_of_live env lv). same_entry r (staged ! a))"
    using spare_paths_rows [OF env ok(1) inj(1) staged Cons.prems(3)] by blast
  define dropped where "dropped = foldl (\<lambda>d (at, _). d[unat at := True]) drop_at hits"
  let ?marks = "if hits = [] then marks else marks(lv_number lv \<mapsto> mark_rows hits
    (case marks (lv_number lv) of Some b \<Rightarrow> b | None \<Rightarrow> replicate ((lv_rows lv + 7) div 8) 0))"
  have marked: "length dropped = length staged" "\<And>a. a < length staged \<Longrightarrow> dropped ! a \<longleftrightarrow> drop_at ! a \<or> as_u32 a \<in> fst ` set hits"
    using drop_marked [of hits drop_at] one(3) Cons.prems(4) staged(1) by (auto simp: dropped_def)
  obtain drop' marks' n' where IH:
    "spare_segments (ie_memchr env) (spare_keys staged) staged lvs decided' dropped ?marks (n + length hits) = Ret (Inr (drop', marks', n'))"
    "length drop' = length staged" "n + length hits \<le> n'" "n' = n + length hits \<longrightarrow> drop' = dropped"
    "\<forall>a < length staged. drop' ! a \<longleftrightarrow> dropped ! a \<or> \<not> decided' ! a \<and> (\<exists>r \<in> shown_rows env lvs. same_entry r (staged ! a))"
    using Cons.IH [OF ok(2) inj(2) one(2) marked(1)] by blast
  have "spare_segments (ie_memchr env) (spare_keys staged) staged (lv # lvs) decided drop_at marks n = Ret (Inr (drop', marks', n'))"
    using one(1) IH(1) by (cases "hits = []") (simp_all add: Let_def dropped_def)
  moreover have "n \<le> n'" "n' = n \<longrightarrow> drop' = drop_at" using IH(3,4) by (cases hits; simp add: dropped_def)+
  moreover have "drop' ! a \<longleftrightarrow> drop_at ! a \<or> \<not> decided ! a \<and> (\<exists>r \<in> shown_rows env (lv # lvs). same_entry r (staged ! a))"
    if a: "a < length staged" for a
  proof -
    define here where "here \<longleftrightarrow> (\<exists>r \<in> set (rows_of_live env lv). same_entry r (staged ! a))"
    define there where "there \<longleftrightarrow> (\<exists>r \<in> shown_rows env lvs. same_entry r (staged ! a))"
    define keyed where "keyed \<longleftrightarrow> (\<exists>r \<in> set (rows_of_live env lv). path_key r = path_key (staged ! a))"
    have "r = r0" if "r \<in> shown_rows env lvs" "same_entry r (staged ! a)" "r0 \<in> set (rows_of_live env lv)" "path_key r0 = path_key (staged ! a)" for r r0
      using inj_onD [OF Cons.prems(2), of r r0] that by (simp add: same_entry_def)
    then have "keyed \<and> there \<Longrightarrow> here" unfolding here_def there_def keyed_def by blast
    moreover have "dropped ! a \<longleftrightarrow> drop_at ! a \<or> (\<not> decided ! a \<and> here)"
      unfolding marked(2) [OF a] one(5) [OF a] here_def ..
    moreover have "decided' ! a \<longleftrightarrow> decided ! a \<or> keyed" unfolding one(4) [OF a] keyed_def ..
    moreover have "drop' ! a \<longleftrightarrow> dropped ! a \<or> (\<not> decided' ! a \<and> there)"
      using IH(5) [rule_format, OF a] unfolding there_def .
    moreover have "(\<exists>r \<in> shown_rows env (lv # lvs). same_entry r (staged ! a)) \<longleftrightarrow> here \<or> there"
      unfolding here_def there_def by auto
    ultimately show ?thesis by blast
  qed
  ultimately show ?case using IH(2) by blast
qed simp

lemma keep_undropped_of:
  assumes "length drop_at = length staged" "\<forall>a < length staged. drop_at ! a \<longleftrightarrow> P (staged ! a)"
  shows "keep_undropped drop_at staged = filter (\<lambda>e. \<not> P e) staged"
proof -
  have "keep_undropped drop_at staged = map ((!) staged) (filter (\<lambda>i. \<not> drop_at ! i) [0 ..< length staged])"
    by (simp add: keep_undropped_def enumerate_map filter_map o_def)
  also have "filter (\<lambda>i. \<not> drop_at ! i) [0 ..< length staged] = filter (\<lambda>i. \<not> P (staged ! i)) [0 ..< length staged]"
    using assms(2) by (intro filter_cong refl) simp
  also have "map ((!) staged) \<dots> = filter (\<lambda>e. \<not> P e) (map ((!) staged) [0 ..< length staged])"
    by (simp add: filter_map o_def)
  finally show ?thesis by (simp add: map_nth)
qed

text \<open>What a pass of the filesystem leaves staged.\<close>

definition unspared :: "index_env \<Rightarrow> native_index \<Rightarrow> entry list" where
  "unspared env s =
     (if ix_open s = None then ix_staged s
      else filter (\<lambda>e. \<not> (\<exists>r \<in> shown_rows env (ix_segments s). same_entry r e)) (ix_staged s))"

lemma spare_unchanged_of:
  assumes env: "env_ok env" and staged: "length (ix_staged s) < 2 ^ 32" "\<forall>e \<in> set (ix_staged s). walked_path (e_path e)"
    and segs: "\<forall>lv \<in> set (ix_segments s). segment_ok env sources lv" "inj_on path_key (shown_rows env (ix_segments s))"
  shows "\<exists>n seen at k. spare_unchanged env s = Ret (Inr n, s\<lparr>ix_seen := seen, ix_staged := unspared env s, ix_staged_at := at, ix_spared := k\<rparr>)"
proof (cases "ix_open s = None \<or> ix_staged s = [] \<or> ix_segments s = []")
  case True
  then have "unspared env s = ix_staged s" by (auto simp: unspared_def)
  then have "spare_unchanged env s = Ret (Inr 0, s\<lparr>ix_seen := ix_seen s, ix_staged := unspared env s, ix_staged_at := ix_staged_at s, ix_spared := ix_spared s\<rparr>)"
    using True by (simp add: spare_unchanged_def)
  then show ?thesis by blast
next
  case False
  let ?fresh = "replicate (length (ix_staged s)) False"
  let ?P = "\<lambda>e. \<exists>r \<in> shown_rows env (ix_segments s). same_entry r e"
  obtain drop' marks n where r: "spare_segments (ie_memchr env) (spare_keys (ix_staged s)) (ix_staged s) (ix_segments s) ?fresh ?fresh Map.empty 0
      = Ret (Inr (drop', marks, n))"
    "length drop' = length (ix_staged s)" "n = 0 \<longrightarrow> drop' = ?fresh"
    "\<forall>a < length (ix_staged s). drop' ! a \<longleftrightarrow> ?fresh ! a \<or> \<not> ?fresh ! a \<and> ?P (ix_staged s ! a)"
    using spare_segments_of [OF env staged segs, of ?fresh ?fresh Map.empty 0] by auto
  have keep: "keep_undropped drop' (ix_staged s) = unspared env s"
    using keep_undropped_of [of drop' "ix_staged s" ?P] r(2,4) False by (cases "ix_open s") (simp_all add: unspared_def)
  show ?thesis
  proof (cases "n = 0")
    case True
    then have "keep_undropped drop' (ix_staged s) = ix_staged s"
      using keep_undropped_of [of drop' "ix_staged s" "\<lambda>_. False"] r(3) by simp
    then have "spare_unchanged env s = Ret (Inr 0, s\<lparr>ix_seen := ix_seen s, ix_staged := unspared env s, ix_staged_at := ix_staged_at s, ix_spared := ix_spared s\<rparr>)"
      using False r(1) True keep by (simp add: spare_unchanged_def Let_def)
    then show ?thesis by blast
  next
    case nonzero: False
    show ?thesis using False r(1) nonzero keep by (auto simp: spare_unchanged_def Let_def)
  qed
qed

section \<open>A flush\<close>

text \<open>Fewer entries fit where more did.\<close>

lemma sum_list_mset_le:
  assumes "mset xs \<subseteq># mset ys"
  shows "sum_list (map f xs) \<le> (sum_list (map f ys) :: nat)"
proof -
  obtain zs where "mset ys = mset (xs @ zs)" using assms by (metis mset_append ex_mset subset_mset.le_iff_add)
  then have "sum_list (map f ys) = sum_list (map f (xs @ zs))" by (metis mset_map sum_mset_sum_list)
  then show ?thesis by simp
qed

lemma length_terminated: "length (terminated ns) = sum_list (map (\<lambda>n. length n + 1) ns)"
  by (simp add: terminated_def length_concat o_def)

lemma fits_env_sub:
  assumes "mset xs \<subseteq># mset ys" "fits_env env ys"
  shows "fits_env env xs"
proof -
  have sub: "mset (map f xs) \<subseteq># mset (map f ys)" for f :: "entry \<Rightarrow> bytes"
    using image_mset_subseteq_mono [OF assms(1)] by simp
  have le: "length xs \<le> length ys" using size_mset_mono [OF assms(1)] by simp
  have sums: "sum_list (map h (map f xs)) \<le> sum_list (map h (map f ys))" for h :: "bytes \<Rightarrow> nat" and f :: "entry \<Rightarrow> bytes"
    by (rule sum_list_mset_le [OF sub])
  have sets: "set xs \<subseteq> set ys" using set_mset_mono [OF assms(1)] by simp
  have "map (ie_fold_bytes env) (entry_names zs) = map (\<lambda>e. ie_fold_bytes env (entry_name (e_path e))) zs" for zs
    by (simp add: entry_names_def o_def)
  then show ?thesis
    using assms(2) le sets sums [of "\<lambda>n. length n + 1" "\<lambda>e. entry_name (e_path e)"]
      sums [of "\<lambda>n. length n + 1" "\<lambda>e. ie_fold_bytes env (entry_name (e_path e))"]
      sums [of "\<lambda>p. 20 + length p" "\<lambda>e. entry_parent (e_path e)"]
      sums [of length "\<lambda>e. ie_fold_bytes env (entry_name (e_path e))"]
    by (auto simp: fits_env_def entries_fit_def names_text_def names_fit_def dirs_small_def tri_small_def length_terminated
        entry_names_def entry_parents_def o_def)
qed

definition segments_ok :: "index_env \<Rightarrow> native_index \<Rightarrow> bool" where
  "segments_ok env s \<longleftrightarrow> (\<forall>lv \<in> set (ix_segments s). segment_ok env (ix_sources s) lv)
     \<and> inj_on path_key (shown_rows env (ix_segments s))"

definition hidden_ok :: "native_index \<Rightarrow> bool" where
  "hidden_ok s \<longleftrightarrow> prefix_set_ok (ix_hidden s) \<and> (\<forall>p \<in> set (ps_paths (ix_hidden s)). removable p)"

definition staged_ok :: "index_env \<Rightarrow> native_index \<Rightarrow> bool" where
  "staged_ok env s \<longleftrightarrow> fits_env env (ix_staged s) \<and> distinct (map path_key (ix_staged s))
     \<and> (\<forall>e \<in> set (ix_staged s). id_source (e_id e) \<in> set (ix_sources s))"

definition index_ok :: "index_env \<Rightarrow> native_index \<Rightarrow> bool" where
  "index_ok env s \<longleftrightarrow> env_ok env \<and> segments_ok env s \<and> hidden_ok s \<and> staged_ok env s \<and> ix_landed s = []"

lemma staged_small: "staged_ok env s \<Longrightarrow> length (ix_staged s) < 2 ^ 32"
  by (simp add: staged_ok_def fits_env_def entries_fit_def)

definition hides :: "native_index \<Rightarrow> entry \<Rightarrow> bool" where
  "hides s e \<longleftrightarrow> covers (ix_hidden s) (e_path e)"

lemma hide_rows_of:
  assumes env: "env_ok env" and segs: "segments_ok env s" and hid: "hidden_ok s"
  obtains ts lvs fl where "hide_rows env s = Ret (Inr ts,
      s\<lparr>ix_segments := lvs, ix_flights := fl, ix_staged := filter (\<lambda>e. \<not> hides s e) (ix_staged s)\<rparr>)"
    "segments_ok env (s\<lparr>ix_segments := lvs\<rparr>)" "shown_rows env lvs = {e \<in> shown_rows env (ix_segments s). \<not> hides s e}"
proof (cases "ps_paths (ix_hidden s) = []")
  case True
  then have none: "\<not> hides s e" for e by (simp add: hides_def covers_def)
  have "hide_rows env s = Ret (Inr (map (\<lambda>_. False) (ix_segments s)),
      s\<lparr>ix_segments := ix_segments s, ix_flights := ix_flights s, ix_staged := filter (\<lambda>e. \<not> hides s e) (ix_staged s)\<rparr>)"
    using True none by (simp add: hide_rows_def)
  then show thesis using that [of _ "ix_flights s" "ix_segments s"] segs none by simp
next
  case False
  have ps: "prefix_set_ok (ix_hidden s)" "\<forall>p \<in> set (ps_paths (ix_hidden s)). removable p" using hid by (simp_all add: hidden_ok_def)
  obtain ts lvs where k: "kill_each (remove_subtrees (ie_memchr env) (ix_hidden s) (ix_sources s)) (ix_segments s) = Ret (Inr ts, lvs)"
    "\<forall>lv \<in> set lvs. segment_ok env (ix_sources s) lv"
    "shown_rows env lvs = {e \<in> shown_rows env (ix_segments s). \<not> covers (ix_hidden s) (e_path e)}"
    using kill_each_rows [OF env remove_subtrees_rows [OF env _ ps], of "ix_sources s" "ix_segments s"] segs
    unfolding segments_ok_def by blast
  have "segments_ok env (s\<lparr>ix_segments := lvs\<rparr>)"
    using k(2,3) segs by (auto simp: segments_ok_def intro: inj_on_subset)
  then show thesis
    using that [of ts "map (\<lambda>f. f\<lparr>fl_gone := prefix_set_extend (fl_gone f) (ps_paths (ix_hidden s))\<rparr>) (ix_flights s)" lvs] k(1,3) False
    by (simp add: hide_rows_def Let_def hides_def)
qed

lemma replace_rows_step:
  assumes env: "env_ok env" and segs: "segments_ok env s" and staged: "\<forall>e \<in> set (ix_staged s). walked_path (e_path e)"
  obtains ts lvs fl where "replace_rows env s = Ret (Inr ts, s\<lparr>ix_segments := lvs, ix_flights := fl\<rparr>)"
    "segments_ok env (s\<lparr>ix_segments := lvs\<rparr>)"
    "shown_rows env lvs = {e \<in> shown_rows env (ix_segments s). path_key e \<notin> path_key ` set (ix_staged s)}"
proof -
  obtain ts lvs where k: "kill_each (kill_paths (ie_memchr env) (wanted_of (ix_staged s))) (ix_segments s) = Ret (Inr ts, lvs)"
    "\<forall>lv \<in> set lvs. segment_ok env (ix_sources s) lv"
    "shown_rows env lvs = {e \<in> shown_rows env (ix_segments s). path_key e \<notin> path_key ` set (ix_staged s)}"
    using kill_each_rows [OF env replace_rows_of [OF env _ staged], of "ix_sources s" "ix_segments s"] segs
    unfolding segments_ok_def by blast
  have "segments_ok env (s\<lparr>ix_segments := lvs\<rparr>)"
    using k(2,3) segs by (auto simp: segments_ok_def intro: inj_on_subset)
  then show thesis
    using that [of ts "map (doom_flight (wanted_of (ix_staged s))) (ix_flights s)" lvs] k(1,3)
    by (simp add: replace_rows_def Let_def)
qed

text \<open>A segment with no live row shows nothing.\<close>

lemma emptied_rows:
  assumes env: "env_ok env" and lv: "segment_ok env sources lv" and e: "emptied lv"
  shows "set (rows_of_live env lv) = {}"
proof -
  obtain es where es: "holds_env env es lv" using lv by (auto simp: segment_ok_def)
  have zero: "\<forall>b \<in> set (lv_alive lv). \<forall>k < 8. \<not> bit b k"
    using e by (auto simp: emptied_def live_rows_def filter_empty_conv)
  have "\<not> live_is_alive lv i" for i
  proof (cases "i div 8 < length (lv_alive lv)")
    case True
    then show ?thesis using zero by (simp add: live_is_alive_bit)
  qed (simp add: live_is_alive_def nth_opt_def)
  then show ?thesis unfolding rows_of_held [OF env es] by simp
qed

lemma forget_empty_rows:
  assumes env: "env_ok env" and segs: "\<forall>lv \<in> set lvs. segment_ok env sources lv"
  shows "shown_rows env (filter (\<lambda>lv. \<not> emptied lv) lvs) = shown_rows env lvs"
  using segs by (induction lvs) (auto simp: emptied_rows [OF env])

text \<open>What is still to be written once the hidden and the unchanged have left the buffer.\<close>

definition left_staged :: "index_env \<Rightarrow> native_index \<Rightarrow> entry list" where
  "left_staged env s = filter (\<lambda>e. \<not> hides s e
     \<and> \<not> (ix_open s \<noteq> None \<and> (\<exists>r \<in> shown_rows env (ix_segments s). same_entry r e))) (ix_staged s)"

definition kept_rows :: "index_env \<Rightarrow> native_index \<Rightarrow> entry set" where
  "kept_rows env s = {e \<in> shown_rows env (ix_segments s). \<not> hides s e \<and> path_key e \<notin> path_key ` set (left_staged env s)}"

lemma filter_sub: "mset (filter P xs) \<subseteq># mset xs"
  by simp

text \<open>The index between the parts of a flush: nothing staged, nothing hidden.\<close>

definition flushed :: "index_env \<Rightarrow> native_index \<Rightarrow> native_index \<Rightarrow> pending \<Rightarrow> bool" where
  "flushed env s s' p \<longleftrightarrow> segments_ok env s' \<and> shown_rows env (ix_segments s') = kept_rows env s
     \<and> ix_staged s' = [] \<and> ps_paths (ix_hidden s') = [] \<and> prefix_set_ok (ix_hidden s') \<and> ix_landed s' = [] \<and> ix_sources s' = ix_sources s
     \<and> ix_open s' = ix_open s \<and> pd_staged p = (if left_staged env s = [] then None
          else Some (ix_next_segment s, ix_generation s, left_staged env s))
     \<and> ps_paths (pd_prefixes p) = ps_paths (ix_hidden s) \<and> prefix_set_ok (pd_prefixes p)"

lemma flushed_cong:
  assumes "ix_segments t = ix_segments s'" "ix_sources t = ix_sources s'" "ix_staged t = ix_staged s'" "ix_hidden t = ix_hidden s'"
    "ix_landed t = ix_landed s'" "ix_open t = ix_open s'"
  shows "flushed env s t p = flushed env s s' p"
  by (simp add: flushed_def segments_ok_def assms)

text \<open>How a flush ends: the manifest is saved if it has to be, and if that fails all is put back.\<close>

definition saved_or_back :: "index_env \<Rightarrow> bool \<Rightarrow> pending \<Rightarrow> pending \<Rightarrow> native_index \<Rightarrow> pending step" where
  "saved_or_back env durable p0 p s =
     (let (saved, s) = (if durable \<and> ix_meta_dirty s then save_meta env s else (Inr (), s))
      in case saved of Inl e \<Rightarrow> Ret (Inl e, restore p0 s) | Inr _ \<Rightarrow> Ret (Inr p, s))"

text \<open>Putting back a flush that had nothing to do changes nothing.\<close>

lemma restore_default:
  assumes "ps_paths (ix_hidden s) = []" "prefix_set_ok (ix_hidden s)" "ix_staged s = []"
  shows "restore pending_default s = s"
proof -
  have "ix_hidden s = prefix_set_default"
    using assms(1,2) by (cases "ix_hidden s") (simp add: prefix_set_ok_def prefix_set_default_def)
  then show ?thesis
    using assms(3) by (cases s) (simp add: restore_def pending_default_def into_paths_def prefix_set_default_def
        prefix_set_extend_def reduce_def Let_def)
qed

lemma save_meta_cases:
  obtains r d pe where "save_meta env s = (r, s\<lparr>ix_meta_dirty := d, ix_pending_erase := pe\<rparr>)"
proof (cases "save_meta env s")
  case (Pair r s')
  have "s' = s\<lparr>ix_meta_dirty := ix_meta_dirty s', ix_pending_erase := ix_pending_erase s'\<rparr>"
    using Pair by (auto simp: save_meta_def split: sum.splits)
  then show thesis using that Pair by metis
qed

lemma flush_rest_of:
  assumes env: "env_ok env" and segs: "segments_ok env s" and l: "ix_landed s = []"
  obtains p0 p s' where "flush_rest env False durable hid killed s = saved_or_back env durable p0 p s'" "segments_ok env s'"
    "shown_rows env (ix_segments s') = shown_rows env (ix_segments s)" "ix_staged s' = []"
    "ix_hidden s' = prefix_set_default" "ix_landed s' = []" "ix_sources s' = ix_sources s" "ix_open s' = ix_open s"
    "pd_staged p = (if ix_staged s = [] then None else Some (ix_next_segment s, ix_generation s, ix_staged s))"
    "pd_prefixes p = ix_hidden s" "pd_staged p0 = pd_staged p" "pd_prefixes p0 = pd_prefixes p"
proof -
  obtain staged s1 where t: "take_staged durable s = (staged, s1)" by fastforce
  then have s1: "ix_segments s1 = ix_segments s" "ix_staged s1 = []" "ix_landed s1 = []" "ix_sources s1 = ix_sources s" "ix_open s1 = ix_open s" "ix_hidden s1 = ix_hidden s"
    "staged = (if ix_staged s = [] then None else Some (ix_next_segment s, ix_generation s, ix_staged s))"
    using l by (auto simp: take_staged_def split: if_splits)
  obtain alive s2 where a: "take_dirty_alive (dirty_touched hid killed s1) = (alive, s2)" by fastforce
  then have s2: "ix_segments s2 = ix_segments s" "ix_staged s2 = []" "ix_landed s2 = []" "ix_sources s2 = ix_sources s" "ix_open s2 = ix_open s" "ix_hidden s2 = ix_hidden s"
    using s1 by (auto simp: take_dirty_alive_def dirty_touched_def)
  obtain gone s3 where g: "forget_empty (s2\<lparr>ix_hidden := prefix_set_default\<rparr>) = (gone, s3)" by fastforce
  then have s3: "ix_segments s3 = filter (\<lambda>lv. \<not> emptied lv) (ix_segments s)" "ix_staged s3 = []" "ix_landed s3 = []"
    "ix_sources s3 = ix_sources s" "ix_hidden s3 = prefix_set_default" "ix_open s3 = ix_open s"
    using s2 by (auto simp: forget_empty_def Let_def)
  have run: "flush_rest env False durable hid killed s = saved_or_back env durable
      \<lparr>pd_staged = staged, pd_alive = alive, pd_prefixes = ix_hidden s2\<rparr>
      \<lparr>pd_staged = staged, pd_alive = filter (\<lambda>(n, _). n \<notin> set gone) alive, pd_prefixes = ix_hidden s2\<rparr> s3"
    by (simp add: flush_rest_def saved_or_back_def Let_def t a g split: prod.split)
  have shown: "shown_rows env (ix_segments s3) = shown_rows env (ix_segments s)"
    using forget_empty_rows [OF env, of "ix_segments s" "ix_sources s"] segs by (simp add: s3(1) segments_ok_def)
  have "segments_ok env s3" using segs shown by (auto simp: segments_ok_def s3(1,4))
  then show thesis using that [OF run] shown s1(7) s2(6) s3 by simp
qed

lemma flush_prepare_of:
  assumes ok: "index_ok env s"
  obtains p0 p s' where "flush_prepare env False durable s = saved_or_back env durable p0 p s'"
    "flushed env s s' p0" "flushed env s s' p"
proof -
  note i = ok [unfolded index_ok_def]
  have collect: "collect env s = Ret (Inr (), s)" using i by (simp add: collect_def)
  show thesis
  proof (cases "ix_staged s = [] \<and> ps_paths (ix_hidden s) = [] \<and> ix_dirty_alive s = {}")
    case True
    have same: "restore pending_default (s\<lparr>ix_meta_dirty := d, ix_pending_erase := pe\<rparr>) = s\<lparr>ix_meta_dirty := d, ix_pending_erase := pe\<rparr>" for d pe
      by (rule restore_default) (use True i in \<open>simp_all add: hidden_ok_def\<close>)
    obtain r d pe where m: "save_meta env s = (r, s\<lparr>ix_meta_dirty := d, ix_pending_erase := pe\<rparr>)" by (rule save_meta_cases)
    have "flush_prepare env False durable s = saved_or_back env durable pending_default pending_default s"
      using True same by (cases r) (simp_all add: flush_prepare_def saved_or_back_def step_then_def collect m)
    moreover have "flushed env s s pending_default"
      using True i by (auto simp: flushed_def left_staged_def kept_rows_def hides_def covers_def pending_default_def hidden_ok_def prefix_set_default_def prefix_set_ok_def)
    ultimately show thesis using that by blast
  next
    case False
    obtain hid lvs fl where h: "hide_rows env s = Ret (Inr hid,
        s\<lparr>ix_segments := lvs, ix_flights := fl, ix_staged := filter (\<lambda>e. \<not> hides s e) (ix_staged s)\<rparr>)"
      "segments_ok env (s\<lparr>ix_segments := lvs\<rparr>)" "shown_rows env lvs = {e \<in> shown_rows env (ix_segments s). \<not> hides s e}"
      by (rule hide_rows_of [of env s]) (use i in simp_all)
    define s1 where "s1 = s\<lparr>ix_segments := lvs, ix_flights := fl, ix_staged := filter (\<lambda>e. \<not> hides s e) (ix_staged s)\<rparr>"
    have st: "length (ix_staged s1) < 2 ^ 32" "\<forall>e \<in> set (ix_staged s1). walked_path (e_path e)"
      using le_less_trans [OF length_filter_le staged_small [of env s]] i
      by (simp_all add: s1_def staged_ok_def fits_env_def)
    have segs1: "\<forall>lv \<in> set (ix_segments s1). segment_ok env (ix_sources s) lv" "inj_on path_key (shown_rows env (ix_segments s1))"
      using h(2) by (simp_all add: segments_ok_def s1_def)
    obtain n seen at k where sp: "spare_unchanged env s1
        = Ret (Inr n, s1\<lparr>ix_seen := seen, ix_staged := unspared env s1, ix_staged_at := at, ix_spared := k\<rparr>)"
      using spare_unchanged_of [OF _ st segs1] i by blast
    define s2 where "s2 = s1\<lparr>ix_seen := seen, ix_staged := unspared env s1, ix_staged_at := at, ix_spared := k\<rparr>"
    have left: "ix_staged s2 = left_staged env s"
    proof -
      have "\<not> hides s r" if "same_entry r e" "\<not> hides s e" for r e using that by (simp add: same_entry_def path_key_def hides_def)
      then have "(\<exists>r \<in> shown_rows env lvs. same_entry r e) \<longleftrightarrow> (\<exists>r \<in> shown_rows env (ix_segments s). same_entry r e)" if "\<not> hides s e" for e
        using that unfolding h(3) by blast
      then show ?thesis
        by (auto simp: s2_def s1_def unspared_def left_staged_def intro!: filter_cong)
    qed
    have segs2: "segments_ok env s2" using h(2) by (simp add: s2_def s1_def segments_ok_def)
    have walked: "\<forall>e \<in> set (ix_staged s2). walked_path (e_path e)" using i by (auto simp: left left_staged_def staged_ok_def fits_env_def)
    obtain killed lvs3 fl3 where r: "replace_rows env s2 = Ret (Inr killed, s2\<lparr>ix_segments := lvs3, ix_flights := fl3\<rparr>)"
      "segments_ok env (s2\<lparr>ix_segments := lvs3\<rparr>)"
      "shown_rows env lvs3 = {e \<in> shown_rows env (ix_segments s2). path_key e \<notin> path_key ` set (ix_staged s2)}"
      by (rule replace_rows_step [OF _ segs2 walked]) (use i in simp_all)
    define s3 where "s3 = s2\<lparr>ix_segments := lvs3, ix_flights := fl3\<rparr>"
    have same: "ix_staged s3 = left_staged env s" "ix_landed s3 = []" "ix_sources s3 = ix_sources s"
      "ix_next_segment s3 = ix_next_segment s" "ix_generation s3 = ix_generation s" "ix_segments s3 = lvs3" "ix_open s3 = ix_open s"
      using left i by (simp_all add: s3_def) (simp_all add: s2_def s1_def)
    have shown: "shown_rows env lvs3 = kept_rows env s" unfolding r(3) left by (auto simp: s2_def s1_def h(3) kept_rows_def)
    have segs3: "segments_ok env s3" using r(2) by (simp add: s3_def segments_ok_def)
    obtain p0 p s4 where f: "flush_rest env False durable hid killed s3 = saved_or_back env durable p0 p s4" "segments_ok env s4"
      "shown_rows env (ix_segments s4) = shown_rows env (ix_segments s3)" "ix_staged s4 = []"
      "ix_hidden s4 = prefix_set_default" "ix_landed s4 = []" "ix_sources s4 = ix_sources s3" "ix_open s4 = ix_open s3"
      "pd_staged p = (if ix_staged s3 = [] then None else Some (ix_next_segment s3, ix_generation s3, ix_staged s3))"
      "pd_prefixes p = ix_hidden s3" "pd_staged p0 = pd_staged p" "pd_prefixes p0 = pd_prefixes p"
      by (rule flush_rest_of [OF _ segs3 same(2)]) (use i in simp_all)
    have hid3: "ix_hidden s3 = ix_hidden s" by (simp add: s3_def) (simp add: s2_def s1_def)
    have run: "flush_prepare env False durable s = saved_or_back env durable p0 p s4"
      unfolding flush_prepare_def step_then_def collect
      by (simp add: if_not_P [OF False] h(1) s1_def [symmetric] sp s2_def [symmetric] r(1) s3_def [symmetric] f(1))
    have fl: "flushed env s s4 q" if "pd_staged q = pd_staged p" "pd_prefixes q = pd_prefixes p" for q
      using f same shown pset.ok_empty i hid3 that unfolding flushed_def by (simp add: prefix_set_default_def hidden_ok_def)
    show thesis by (rule that [OF run fl [OF f(11,12)] fl [OF refl refl]])
  qed
qed

section \<open>A publish\<close>

lemma left_staged_facts:
  assumes "staged_ok env s"
  shows "fits_env env (sort_key stored_key (left_staged env s))" "distinct (map path_key (left_staged env s))"
    "\<forall>e \<in> set (left_staged env s). id_source (e_id e) \<in> set (ix_sources s)"
proof -
  have "mset (sort_key stored_key (left_staged env s)) \<subseteq># mset (ix_staged s)" by (simp add: left_staged_def)
  then show "fits_env env (sort_key stored_key (left_staged env s))"
    using fits_env_sub assms by (auto simp: staged_ok_def)
  show "distinct (map path_key (left_staged env s))" using assms by (simp add: staged_ok_def left_staged_def distinct_map_filter)
  show "\<forall>e \<in> set (left_staged env s). id_source (e_id e) \<in> set (ix_sources s)"
    using assms by (auto simp: staged_ok_def left_staged_def)
qed

text \<open>The segment a flush builds shows what was staged.\<close>

lemma built_segment:
  assumes env: "env_ok env" and fit: "fits_env env (sort_key stored_key staged)" and some: "staged \<noteq> []"
    and src: "\<forall>e \<in> set staged. id_source (e_id e) \<in> set sources"
  obtains sb lv where "build (ie_memchr env) (ie_fold_bytes env) (ie_fold_case env) staged = Ret sb"
    "from_bytes number generation sb = Ret (Inr lv)" "segment_ok env sources lv"
    "set (rows_of_live env lv) = stored_entry ` set staged"
proof -
  let ?es = "sort_key stored_key staged"
  have m: "memchr_law (ie_memchr env)" "entries_fit (ie_fold_bytes env) ?es"
    using env fit by (simp_all add: env_ok_def fits_env_def)
  obtain sb where sb: "build_sorted (ie_memchr env) (ie_fold_bytes env) (ie_fold_case env) ?es = Ret sb"
    using build_views [OF m, of "ie_fold_case env"] by blast
  obtain lv where lv: "from_bytes number generation sb = Ret (Inr lv)"
    "live_holds (ie_memchr env) (ie_fold_bytes env) (ie_fold_case env) ?es lv" "lv_alive lv = alive_bits (length ?es)"
    using from_bytes_built [OF m sb] by blast
  have h: "holds_env env ?es lv" using lv(2) fit by (simp add: holds_env_def)
  have alive: "live_is_alive lv i" if "i < length ?es" for i
    using rows_in_bits [OF that] live_is_alive_bit [of i lv] alive_bits_bit [of i "length ?es"] lv(3) that by simp
  have "set (rows_of_live env lv) = stored_entry ` (\<lambda>i. ?es ! i) ` {..< length ?es}"
    unfolding rows_of_held [OF env h] using alive by auto
  also have "(\<lambda>i. ?es ! i) ` {..< length ?es} = set staged" by (metis set_sort atLeast0LessThan atLeast_upt list.set_map map_nth)
  finally have rows: "set (rows_of_live env lv) = stored_entry ` set staged" .
  have "?es \<noteq> []" using some by (metis length_0_conv length_sort)
  then have "segment_ok env sources lv" using h src by (auto simp: segment_ok_def)
  then show thesis using that sb lv(1) rows by (simp add: build_def)
qed

text \<open>The index once that segment is in its list.\<close>

lemma flushed_index_ok:
  assumes "index_ok env s" "flushed env s s' p"
  shows "index_ok env s'"
proof -
  have "fits_env env []" using fits_env_sub [of "[]" "ix_staged s" env] assms(1) by (simp add: index_ok_def staged_ok_def)
  then show ?thesis using assms by (simp add: index_ok_def flushed_def hidden_ok_def staged_ok_def)
qed

lemma added_segment:
  assumes ok: "index_ok env s" and fl: "flushed env s s' p" and lv: "segment_ok env (ix_sources s) lv"
    and rows: "set (rows_of_live env lv) = stored_entry ` set (left_staged env s)"
    and t: "set (ix_segments t) = insert lv (set (ix_segments s'))" "ix_sources t = ix_sources s'" "ix_staged t = []"
      "ix_landed t = []" "ix_hidden t = ix_hidden s'"
  shows "index_ok env t" "shown_rows env (ix_segments t) = kept_rows env s \<union> stored_entry ` set (left_staged env s)"
proof -
  let ?left = "left_staged env s"
  note f = fl [unfolded flushed_def segments_ok_def] and i = ok [unfolded index_ok_def]
  have "shown_rows env (ix_segments t) = shown_rows env (lv # ix_segments s')" by (rule shown_rows_set) (simp add: t(1))
  then show shown: "shown_rows env (ix_segments t) = kept_rows env s \<union> stored_entry ` set ?left" using rows f by auto
  have "inj_on path_key (stored_entry ` set ?left)"
    using left_staged_facts(2) [of env s] i by (auto simp: distinct_map inj_on_def)
  moreover have "inj_on path_key (kept_rows env s)" using f by auto
  moreover have "path_key ` kept_rows env s \<inter> path_key ` stored_entry ` set ?left = {}"
    unfolding kept_rows_def image_image stored_simps by blast
  ultimately have "inj_on path_key (shown_rows env (ix_segments t))" unfolding shown inj_on_Un by blast
  then show "index_ok env t"
    using flushed_index_ok [OF ok fl] lv t f by (auto simp: index_ok_def segments_ok_def hidden_ok_def staged_ok_def)
qed

lemma publish_locked_of:
  assumes ok: "index_ok env s"
  obtains s' where "publish_locked env s = Ret (Inr (), s')" "index_ok env s'" "ix_open s' = ix_open s" "ix_staged s' = []" "ps_paths (ix_hidden s') = []"
    "shown_rows env (ix_segments s') = kept_rows env s \<union> stored_entry ` set (left_staged env s)"
proof -
  note i = ok [unfolded index_ok_def]
  let ?left = "left_staged env s"
  obtain p0 p s1 where "flush_prepare env False False s = saved_or_back env False p0 p s1" "flushed env s s1 p"
    by (rule flush_prepare_of [OF ok])
  then have f: "flush_prepare env False False s = Ret (Inr p, s1)" "flushed env s s1 p"
    by (simp_all add: saved_or_back_def)
  define s2 where "s2 = s1\<lparr>ix_dirty_alive := ix_dirty_alive s1 \<union> fst ` set (pd_alive p)\<rparr>"
  have fl: "flushed env s s2 p" using f(2) flushed_cong [of s2 s1 env s p] by (simp add: s2_def)
  note s2 = fl [unfolded flushed_def]
  show thesis
  proof (cases "?left = []")
    case True
    then have "publish_locked env s = Ret (Inr (), s2)"
      using f by (simp add: publish_locked_def step_then_def Let_def s2_def flushed_def)
    then show thesis using that flushed_index_ok [OF ok fl] s2 True by simp
  next
    case False
    obtain sb lv where b: "build (ie_memchr env) (ie_fold_bytes env) (ie_fold_case env) ?left = Ret sb"
      "from_bytes (ix_next_segment s) (ix_generation s) sb = Ret (Inr lv)" "segment_ok env (ix_sources s) lv"
      "set (rows_of_live env lv) = stored_entry ` set ?left"
      using built_segment [OF _ left_staged_facts(1) False left_staged_facts(3)] i by blast
    define s3 where "s3 = add_segment lv (s2\<lparr>ix_next_segment := max (ix_next_segment s2) (ix_next_segment s + 1)\<rparr>)"
    define s4 where "s4 = s3\<lparr>ix_unwritten := insert (ix_next_segment s) (ix_unwritten s3)\<rparr>"
    have run: "publish_locked env s = Ret (Inr (), s4)"
      using f b(1,2) False
      by (simp add: publish_locked_def step_then_def Let_def flushed_def s2_def s3_def s4_def)
    have same: "set (ix_segments s4) = insert lv (set (ix_segments s2))" "ix_sources s4 = ix_sources s2" "ix_staged s4 = []"
      "ix_landed s4 = []" "ix_hidden s4 = ix_hidden s2" "ix_open s4 = ix_open s"
      using s2 by (simp_all add: s4_def s3_def add_segment_def by_number_def)
    show thesis using that [OF run] added_segment [OF ok fl b(3,4) same(1-5)] same s2 by simp
  qed
qed

end
