(* ===== verification/Changes.thy ===== *)
theory Changes
  imports Publish
begin

text \<open>
  A batch of changes against what it promises.

  \<open>promised\<close> is what the index will show once it has published: the rows it shows, less the
  hidden and the replaced, and what is staged.  Every change of a batch does to it what the
  change says, so a batch followed by a publish shows exactly the promise: an upsert is one
  entry at its path, a removal leaves nothing at or below its path.
\<close>

section \<open>Steps that simulate a specification\<close>

fun all_ok :: "('c \<Rightarrow> 's \<Rightarrow> bool) \<Rightarrow> ('c \<Rightarrow> 's \<Rightarrow> 's) \<Rightarrow> 'c list \<Rightarrow> 's \<Rightarrow> bool" where
  "all_ok ok step [] s = True"
| "all_ok ok step (c # cs) s = (ok c s \<and> all_ok ok step cs (step c s))"

locale simulates =
  fixes abs :: "'s \<Rightarrow> 'v"
    and inv :: "'s \<Rightarrow> bool"
    and ok :: "'c \<Rightarrow> 's \<Rightarrow> bool"
    and step :: "'c \<Rightarrow> 's \<Rightarrow> 's"
    and spec :: "'c \<Rightarrow> 'v \<Rightarrow> 'v"
  assumes keeps: "inv s \<Longrightarrow> ok c s \<Longrightarrow> inv (step c s)"
    and commutes: "inv s \<Longrightarrow> ok c s \<Longrightarrow> abs (step c s) = spec c (abs s)"
begin

lemma keeps_all: "inv s \<Longrightarrow> all_ok ok step cs s \<Longrightarrow> inv (fold step cs s)"
  by (induction cs arbitrary: s) (auto intro: keeps)

lemma commutes_all: "inv s \<Longrightarrow> all_ok ok step cs s \<Longrightarrow> abs (fold step cs s) = fold spec cs (abs s)"
  by (induction cs arbitrary: s) (auto simp: keeps commutes)

end

section \<open>The staging buffer\<close>

text \<open>Where an entry sits is known; what the map says of other paths does not matter.\<close>

definition buffer_ok :: "native_index \<Rightarrow> bool" where
  "buffer_ok s \<longleftrightarrow> (\<forall>i < length (ix_staged s). ix_staged_at s (entry_digest (ix_staged s ! i)) = Some i)"

text \<open>
  One path is one source's, and no two paths digest alike.  The buffer compares the path alone,
  so it needs both.
\<close>

definition apart :: "entry \<Rightarrow> entry list \<Rightarrow> bool" where
  "apart e staged \<longleftrightarrow> (\<forall>x \<in> set staged. e_path x = e_path e \<or> entry_digest x = entry_digest e \<longrightarrow> path_key x = path_key e)"

lemma entry_digest_key: "path_key x = path_key y \<Longrightarrow> entry_digest x = entry_digest y \<and> e_path x = e_path y"
  by (simp add: path_key_def entry_digest_def)

lemma stage_of:
  assumes buf: "buffer_ok s" and far: "apart e (ix_staged s)" and dist: "distinct (map path_key (ix_staged s))"
  obtains staged at where "stage e s = s\<lparr>ix_staged := staged, ix_staged_at := at\<rparr>"
    "buffer_ok (s\<lparr>ix_staged := staged, ix_staged_at := at\<rparr>)"
    "set staged = insert e {x \<in> set (ix_staged s). path_key x \<noteq> path_key e}"
    "distinct (map path_key staged)"
proof -
  let ?d = "entry_digest e" and ?st = "ix_staged s"
  let ?over = "\<lambda>i. ix_staged_at s ?d = Some i \<and> i < length ?st \<and> e_path (?st ! i) = e_path e"
  show thesis
  proof (cases "\<exists>i. ?over i")
    case True
    then obtain i where i: "ix_staged_at s ?d = Some i" "i < length ?st" "e_path (?st ! i) = e_path e" by blast
    then have key: "path_key (?st ! i) = path_key e" using far by (auto simp: apart_def)
    have run: "stage e s = s\<lparr>ix_staged := ?st[i := e], ix_staged_at := ix_staged_at s\<rparr>"
      using i by (simp add: stage_def nth_opt_def)
    have keys: "map path_key (?st[i := e]) = map path_key ?st"
      using i(2) key by (simp add: map_update list_update_same_conv)
    have "buffer_ok (s\<lparr>ix_staged := ?st[i := e], ix_staged_at := ix_staged_at s\<rparr>)"
      using buf i(1) entry_digest_key [OF key] by (auto simp: buffer_ok_def nth_list_update [OF i(2)])
    moreover have "x \<in> set ?st - {?st ! i} \<longleftrightarrow> x \<in> set ?st \<and> path_key x \<noteq> path_key e" for x
      using dist i(2) key by (auto simp: distinct_map inj_on_def)
    then have "set (?st[i := e]) = insert e {x \<in> set ?st. path_key x \<noteq> path_key e}"
      using set_update_distinct [of ?st i e] distinct_map [THEN iffD1, OF dist] i(2) by blast
    ultimately show thesis using that [OF run] keys dist by simp
  next
    case False
    then have run: "stage e s = s\<lparr>ix_staged := ?st @ [e], ix_staged_at := (ix_staged_at s)(?d \<mapsto> length ?st)\<rparr>"
      by (auto simp: stage_def nth_opt_def split: option.splits)
    have new: "path_key (?st ! i) \<noteq> path_key e" if i: "i < length ?st" for i
    proof
      assume "path_key (?st ! i) = path_key e"
      then have "?over i" using buf i entry_digest_key [of "?st ! i" e] by (auto simp: buffer_ok_def)
      then show False using False by blast
    qed
    have other: "entry_digest (?st ! i) \<noteq> ?d" if "i < length ?st" for i
      using far new [OF that] that by (auto simp: apart_def)
    have "buffer_ok (s\<lparr>ix_staged := ?st @ [e], ix_staged_at := (ix_staged_at s)(?d \<mapsto> length ?st)\<rparr>)"
      using buf other by (auto simp: buffer_ok_def nth_append less_Suc_eq)
    moreover have "\<forall>x \<in> set ?st. path_key x \<noteq> path_key e" using new by (metis in_set_conv_nth)
    then have "set (?st @ [e]) = insert e {x \<in> set ?st. path_key x \<noteq> path_key e}" "distinct (map path_key (?st @ [e]))"
      using dist by auto
    ultimately show thesis using that [OF run] by simp
  qed
qed

section \<open>What is hidden\<close>

lemma hides_iff: "prefix_set_ok (ix_hidden s) \<Longrightarrow> hides s r \<longleftrightarrow> (\<exists>p \<in> set (ps_paths (ix_hidden s)). under (e_path r) p)"
  by (simp add: hides_def covers_ok covered_by_def)

lemma hides_key: "path_key x = path_key y \<Longrightarrow> hides s x = hides s y"
  by (simp add: hides_def path_key_def)

lemma removable_trim [simp]: "removable (trim_slash p) = removable p"
  by (simp add: removable_def)

lemma hides_remove:
  assumes "hidden_ok s"
  shows "hides (remove_subtree p s) r \<longleftrightarrow> hides s r \<or> under (e_path r) p"
  using pset.covers_extend [of "ix_hidden s" "[p]" "e_path r"] assms
  by (simp add: hides_def remove_subtree_def hidden_ok_def covered_by_def)

lemma hidden_remove:
  assumes "hidden_ok s" "removable p"
  shows "hidden_ok (remove_subtree p s)"
proof -
  have "set (ps_paths (prefix_set_extend (ix_hidden s) [p])) \<subseteq> trim_slash ` (set (ps_paths (ix_hidden s)) \<union> {p})"
    using set_keep_loop [of "[]"] by (fastforce simp: prefix_set_extend_def reduce_def Let_def)
  then show ?thesis
    using assms prefix_set_extend_ok by (fastforce simp: hidden_ok_def remove_subtree_def)
qed

text \<open>An entry that comes back is under no removal, or it is itself what was removed.\<close>

definition comes_back :: "index_env \<Rightarrow> native_index \<Rightarrow> entry \<Rightarrow> bool" where
  "comes_back env s e \<longleftrightarrow> (\<forall>p \<in> set (ps_paths (ix_hidden s)). under (e_path e) p \<longrightarrow>
     p = trim_slash (e_path e)
     \<and> (\<forall>r \<in> shown_rows env (ix_segments s) \<union> set (ix_staged s). under (e_path r) p \<longrightarrow> path_key r = path_key e))"

text \<open>The hidden paths once an entry is staged.\<close>

definition unhide :: "entry \<Rightarrow> native_index \<Rightarrow> prefix_set" where
  "unhide e s = (if ps_paths (ix_hidden s) = [] then ix_hidden s else snd (forget (ix_hidden s) (e_path e)))"

lemma unhide_paths:
  assumes "prefix_set_ok (ix_hidden s)"
  shows "set (ps_paths (unhide e s)) = set (ps_paths (ix_hidden s)) - {trim_slash (e_path e)}" "prefix_set_ok (unhide e s)"
proof -
  have "ps_lookup (ix_hidden s) = set (ps_paths (ix_hidden s))" using assms by (simp add: prefix_set_ok_def)
  then show "set (ps_paths (unhide e s)) = set (ps_paths (ix_hidden s)) - {trim_slash (e_path e)}"
    by (auto simp: unhide_def forget_def Let_def)
  show "prefix_set_ok (unhide e s)" using assms forget_ok [OF assms] by (simp add: unhide_def)
qed

lemma unhide_hides:
  assumes ok: "hidden_ok s" and ret: "comes_back env s e"
    and s': "ix_hidden s' = unhide e s"
  shows "\<not> hides s' e"
    "r \<in> shown_rows env (ix_segments s) \<union> set (ix_staged s) \<Longrightarrow> path_key r \<noteq> path_key e \<Longrightarrow> hides s' r \<longleftrightarrow> hides s r"
proof -
  have set_ok: "prefix_set_ok (ix_hidden s)" using ok by (simp add: hidden_ok_def)
  note paths = unhide_paths [OF set_ok, of e]
  have h': "hides s' x \<longleftrightarrow> (\<exists>p \<in> set (ps_paths (ix_hidden s)). p \<noteq> trim_slash (e_path e) \<and> under (e_path x) p)" for x
    using hides_iff [of s' x] paths unfolding s' by auto
  have only: "p = trim_slash (e_path e)"
      "r \<in> shown_rows env (ix_segments s) \<union> set (ix_staged s) \<Longrightarrow> under (e_path r) p \<Longrightarrow> path_key r = path_key e"
    if "p \<in> set (ps_paths (ix_hidden s))" "under (e_path e) p" for p r
    using ret that unfolding comes_back_def by blast+
  show "\<not> hides s' e" unfolding h' using only(1) by blast
  show "hides s' r \<longleftrightarrow> hides s r" if r: "r \<in> shown_rows env (ix_segments s) \<union> set (ix_staged s)" "path_key r \<noteq> path_key e"
  proof -
    have "p \<noteq> trim_slash (e_path e) \<and> under (e_path r) p \<longleftrightarrow> under (e_path r) p" if p: "p \<in> set (ps_paths (ix_hidden s))" for p
      using only(2) [OF p _ r(1)] r(2) under_refl [of "e_path e"] by auto
    then show ?thesis unfolding h' hides_iff [OF set_ok] by (rule bex_cong [OF refl])
  qed
qed

section \<open>What the index has promised\<close>

definition unhidden :: "native_index \<Rightarrow> entry set" where
  "unhidden s = {e \<in> set (ix_staged s). \<not> hides s e}"

definition promised :: "index_env \<Rightarrow> native_index \<Rightarrow> entry set" where
  "promised env s =
     {r \<in> shown_rows env (ix_segments s). \<not> hides s r \<and> path_key r \<notin> path_key ` unhidden s} \<union> stored_entry ` unhidden s"

text \<open>What a change says.\<close>

fun promise :: "index_change \<Rightarrow> entry set \<Rightarrow> entry set" where
  "promise (Upsert e) V = insert (stored_entry e) {r \<in> V. path_key r \<noteq> path_key e}"
| "promise (RemoveSubtree p) V = {r \<in> V. \<not> under (e_path r) p}"
| "promise (Rescan p) V = V"

fun change_step :: "index_change \<Rightarrow> native_index \<Rightarrow> native_index" where
  "change_step (Upsert e) s = upsert e s"
| "change_step (RemoveSubtree p) s = remove_subtree p s"
| "change_step (Rescan p) s = s"

fun change_ok :: "index_env \<Rightarrow> index_change \<Rightarrow> native_index \<Rightarrow> bool" where
  "change_ok env (Upsert e) s \<longleftrightarrow> length (ix_staged s) + 1 < MAX_STAGED \<and> fits_env env (e # filter (\<lambda>x. path_key x \<noteq> path_key e) (ix_staged s))
     \<and> apart e (ix_staged s) \<and> comes_back env s e"
| "change_ok env (RemoveSubtree p) s \<longleftrightarrow> removable p"
| "change_ok env (Rescan p) s \<longleftrightarrow> True"

definition taking :: "index_env \<Rightarrow> native_index \<Rightarrow> bool" where
  "taking env s \<longleftrightarrow> index_ok env s \<and> buffer_ok s"

lemma upsert_of:
  assumes inv: "taking env s" and ok: "change_ok env (Upsert e) s"
  shows "taking env (upsert e s)" "promised env (upsert e s) = promise (Upsert e) (promised env s)"
    "length (ix_staged (upsert e s)) \<le> length (ix_staged s) + 1"
proof -
  note i = inv [unfolded taking_def index_ok_def]
  let ?src = "if id_source (e_id e) \<in> set (ix_sources s) then ix_sources s else ix_sources s @ [id_source (e_id e)]"
  define t where "t = s\<lparr>ix_sources := ?src, ix_hidden := unhide e s\<rparr>"
  have t: "ix_staged t = ix_staged s" "ix_staged_at t = ix_staged_at s" "ix_segments t = ix_segments s" "ix_landed t = ix_landed s"
    by (simp_all add: t_def)
  have run: "upsert e s = stage e t" by (cases s) (simp add: upsert_def t_def unhide_def Let_def)
  have far: "buffer_ok t" "apart e (ix_staged t)" "distinct (map path_key (ix_staged t))"
    using i ok by (simp_all add: t buffer_ok_def staged_ok_def)
  obtain staged at where st: "stage e t = t\<lparr>ix_staged := staged, ix_staged_at := at\<rparr>"
    "buffer_ok (t\<lparr>ix_staged := staged, ix_staged_at := at\<rparr>)"
    "set staged = insert e {x \<in> set (ix_staged t). path_key x \<noteq> path_key e}"
    "distinct (map path_key staged)" 
    by (rule stage_of [OF far])
  note st = st [unfolded run [symmetric] t]
  have once: "mset staged = mset (e # filter (\<lambda>x. path_key x \<noteq> path_key e) (ix_staged s))"
    using st(3,4) i by (intro set_eq_iff_mset_eq_distinct [THEN iffD1]) (auto simp: staged_ok_def distinct_map)
  have u: "ix_hidden (upsert e s) = unhide e s" "ix_sources (upsert e s) = ?src" "ix_segments (upsert e s) = ix_segments s"
    "ix_landed (upsert e s) = ix_landed s" "ix_staged (upsert e s) = staged"
    by (simp_all add: st(1) t_def)
  have hid: "hidden_ok s" "prefix_set_ok (ix_hidden s)" "comes_back env s e" using i ok by (simp_all add: hidden_ok_def)
  note h = unhide_hides [OF hid(1,3) u(1)]
  have "segments_ok env (upsert e s)" using i unfolding segments_ok_def u by (fastforce simp: segment_ok_def)
  moreover have "hidden_ok (upsert e s)"
    using hid(1) unhide_paths [OF hid(2), of e] unfolding hidden_ok_def u(1) by blast
  moreover have "staged_ok env (upsert e s)"
    using i ok st(3,4) fits_env_sub [OF subset_mset.eq_refl [OF once]] unfolding staged_ok_def u by auto
  ultimately show "taking env (upsert e s)" using i st(1,2) u(4) by (simp add: taking_def index_ok_def)
  show "length (ix_staged (upsert e s)) \<le> length (ix_staged s) + 1"
    using mset_eq_length [OF once] length_filter_le [of "\<lambda>x. path_key x \<noteq> path_key e" "ix_staged s"] by (simp add: u)
  have un: "unhidden (upsert e s) = insert e {x \<in> unhidden s. path_key x \<noteq> path_key e}"
    using h unfolding unhidden_def u(5) st(3) by blast
  show "promised env (upsert e s) = promise (Upsert e) (promised env s)"
  proof -
    have "{r \<in> shown_rows env (ix_segments s). \<not> hides (upsert e s) r \<and> path_key r \<notin> path_key ` unhidden (upsert e s)}
        = {r \<in> shown_rows env (ix_segments s). \<not> hides s r \<and> path_key r \<notin> path_key ` unhidden s \<and> path_key r \<noteq> path_key e}"
      using h(2) unfolding un by auto
    then show ?thesis unfolding promised_def u(3) un by auto
  qed
qed

lemma remove_of:
  assumes inv: "taking env s" and ok: "removable p"
  shows "taking env (remove_subtree p s)" "promised env (remove_subtree p s) = promise (RemoveSubtree p) (promised env s)"
proof -
  note i = inv [unfolded taking_def index_ok_def]
  have hid: "hidden_ok s" using i by simp
  show "taking env (remove_subtree p s)"
    using i hidden_remove [OF hid ok]
    by (simp add: taking_def index_ok_def segments_ok_def staged_ok_def buffer_ok_def remove_subtree_def)
  note h = hides_remove [OF hid, of p]
  have same: "ix_staged (remove_subtree p s) = ix_staged s" "ix_segments (remove_subtree p s) = ix_segments s"
    by (simp_all add: remove_subtree_def)
  have un: "unhidden (remove_subtree p s) = {x \<in> unhidden s. \<not> under (e_path x) p}" by (auto simp: unhidden_def h same)
  have "path_key r \<in> path_key ` {x \<in> unhidden s. \<not> under (e_path x) p} \<longleftrightarrow> path_key r \<in> path_key ` unhidden s \<and> \<not> under (e_path r) p" for r
    by (auto simp: path_key_def image_iff)
  then show "promised env (remove_subtree p s) = promise (RemoveSubtree p) (promised env s)"
    unfolding promised_def un same h by auto
qed

interpretation changing: simulates "promised env" "taking env" "change_ok env" change_step promise for env
proof unfold_locales
  fix s c assume "taking env s" "change_ok env c s"
  then show "taking env (change_step c s)" by (cases c) (auto simp: upsert_of remove_of)
next
  fix s c assume "taking env s" "change_ok env c s"
  then show "promised env (change_step c s) = promise c (promised env s)" by (cases c) (auto simp: upsert_of remove_of)
qed

lemma apply_loop_of:
  assumes "taking env s" "all_ok (change_ok env) change_step cs s"
  shows "\<exists>rep'. apply_loop env cs rep s = Ret (Inr rep', fold change_step cs s)"
  using assms
proof (induction cs arbitrary: rep s)
  case (Cons c cs)
  have IH: "\<exists>rep'. apply_loop env cs rep (change_step c s) = Ret (Inr rep', fold change_step cs (change_step c s))" for rep
    using Cons.IH Cons.prems changing.keeps by simp
  show ?case
  proof (cases c)
    case (Upsert e)
    have "length (ix_staged (upsert e s)) < MAX_STAGED"
      using upsert_of(3) [of env s e] Cons.prems Upsert by simp
    then show ?thesis using IH Upsert by (simp add: Let_def)
  qed (use IH in simp_all)
qed simp

lemma change_step_open: "ix_open (change_step c s) = ix_open s"
  by (cases c) (auto simp: upsert_def remove_subtree_def stage_def Let_def split: option.splits)

lemma fold_change_open: "ix_open (fold change_step cs s) = ix_open s"
  by (induction cs arbitrary: s) (simp_all add: change_step_open)

text \<open>A publish keeps the promise.\<close>

lemma publish_promised:
  assumes "ix_open s = None"
  shows "kept_rows env s \<union> stored_entry ` set (left_staged env s) = promised env s"
proof -
  have "set (left_staged env s) = unhidden s" using assms by (auto simp: left_staged_def unhidden_def)
  then show ?thesis by (simp add: kept_rows_def promised_def)
qed

lemma nothing_pending:
  assumes "ix_staged s = []" "ps_paths (ix_hidden s) = []"
  shows "promised env s = shown_rows env (ix_segments s)" "buffer_ok s"
  using assms by (simp_all add: promised_def unhidden_def buffer_ok_def hides_def covers_def)

section \<open>An index to try it on\<close>

text \<open>An index: nothing in it, and files that always write.\<close>

definition sample_env :: index_env where
  "sample_env = \<lparr>ie_memchr = first_index, ie_fold_bytes = map ascii_lower, ie_fold_case = map ascii_lower,
     ie_write_alive = (\<lambda>_ _. Inr ()),
     ie_write = (\<lambda>number generation sb. case from_bytes number generation sb of Ret (Inr lv) \<Rightarrow> Inr lv | _ \<Rightarrow> Inl (Io [])), ie_save = (\<lambda>_. Inr ()), ie_spawn = (\<lambda>_. None)\<rparr>"

definition empty_index :: native_index where
  "empty_index = \<lparr>ix_segments = [], ix_meta_dirty = False, ix_dirty_alive = {}, ix_pending_erase = {}, ix_staged = [],
     ix_seen = Map.empty, ix_spared = 0, ix_sources = [], ix_staged_at = Map.empty, ix_hidden = prefix_set_default,
     ix_generation = 1, ix_open = None, ix_next_segment = 1, ix_unwritten = {}, ix_flights = [], ix_landed = [], ix_build_failed = 0\<rparr>"

abbreviation main_rs :: entry where
  "main_rs \<equiv> sample_entry (str ''/a/main.rs'') 20"

lemma sample_env_simps [simp]:
  "ie_memchr sample_env = first_index" "ie_fold_bytes sample_env = map ascii_lower" "ie_fold_case sample_env = map ascii_lower"
  by (simp_all add: sample_env_def)

lemma sample_env_ok: "env_ok sample_env" "fits_env sample_env sample_entries"
  using first_index_law sample_fit(1)
  by (simp_all add: env_ok_def fits_env_def sample_entries_def sample_entry_def walked_path_def entry_parent_def rfind_def)

lemma sample_env_fits:
  "fits_env sample_env []" "fits_env sample_env [main_rs]"
  by (rule fits_env_sub [OF _ sample_env_ok(2)]; simp add: sample_entries_def)+

lemma empty_index_ok: "index_ok sample_env empty_index" "buffer_ok empty_index" "ix_open empty_index = None"
  using sample_env_ok sample_env_fits pset.ok_empty
  by (simp_all add: index_ok_def segments_ok_def hidden_ok_def staged_ok_def buffer_ok_def empty_index_def prefix_set_default_def)

text \<open>A file that was removed and has come back.\<close>

definition there_and_back :: "index_change list" where
  "there_and_back = [Upsert main_rs, RemoveSubtree (str ''/a/main.rs''), Upsert main_rs]"

lemma there_and_back_ok: "all_ok (change_ok sample_env) change_step there_and_back empty_index"
proof -
  define q where "q = str ''/a/main.rs''"
  define e where "e = main_rs"
  have q: "trim_slash q = q" "removable q"
    by (simp_all add: q_def trim_slash_def removable_def walked_path_def entry_parent_def rfind_def)
  have e: "e_path e = q" "id_source (e_id e) = 0" "fits_env sample_env [e]"
    using sample_env_fits(2) by (simp_all add: e_def q_def sample_entry_def path_hash_def)
  have i: "ix_staged empty_index = []" "ix_sources empty_index = []" "ix_staged_at empty_index = Map.empty"
    "ix_hidden empty_index = prefix_set_default" "ix_segments empty_index = []" "ps_paths prefix_set_default = []"
    by (simp_all add: empty_index_def prefix_set_default_def)
  have h: "ps_paths (prefix_set_extend prefix_set_default [q]) = [q]"
    by (simp add: prefix_set_extend_def reduce_def i q)
  have staged: "ix_staged (upsert e empty_index) = [e]" "ix_hidden (upsert e empty_index) = prefix_set_default"
    "ix_segments (upsert e empty_index) = []"
    by (simp_all add: upsert_def stage_def i Let_def)
  have batch: "there_and_back = [Upsert e, RemoveSubtree q, Upsert e]" by (simp add: there_and_back_def e_def q_def)
  have "change_ok sample_env (Upsert e) empty_index" by (simp add: apart_def comes_back_def i e)
  moreover have "change_ok sample_env (Upsert e) (remove_subtree q (upsert e empty_index))"
    by (simp add: apart_def comes_back_def remove_subtree_def staged e q h)
  ultimately show ?thesis unfolding batch by (simp add: q)
qed

section \<open>Properties\<close>

text \<open>
  C3: a batch shows what it says.  Applying a batch of changes and publishing succeeds, and the
  rows the index then shows are those it had promised before, changed by the batch in order: an
  upsert is one entry at its source and path, replacing what was there, and a removal leaves
  nothing at or below its path.  The index is ready for the next batch, its promise being what
  it shows.

  Asked of the index (\<open>index_ok\<close>): no walk is open and no built segment waits to be
  collected; its rows were written from entries with absolute paths that fit the format, one row
  a source and path, of sources the index has learned; what is staged fits a segment, one entry
  a source and path; what is hidden is the whole tree or lies below a folder of the root, not
  directly in the root.  Asked of each change when its turn comes (\<open>change_ok\<close>): a
  removal is of the whole tree or of such a path; an upsert leaves the buffer below the size at
  which it is flushed and within the format, no other entry staged has its path or its digest,
  and if a hidden path is at or above it, that path is its own and nothing else at or below it
  is shown or staged.  What these exclude is recorded: \<open>root_folder_survives\<close> for a
  removal directly in the root, and an upsert below a removed path, which the code drops.
\<close>

theorem batch_published:
  assumes "index_ok env s" "buffer_ok s" "ix_open s = None" "all_ok (change_ok env) change_step cs s"
  shows "\<exists>rep s1 s2. apply_changes env cs s = Ret (Inr rep, s1) \<and> publish_locked env s1 = Ret (Inr (), s2)
    \<and> shown_rows env (ix_segments s2) = fold promise cs (promised env s)
    \<and> promised env s2 = shown_rows env (ix_segments s2) \<and> index_ok env s2 \<and> buffer_ok s2 \<and> ix_open s2 = None"
proof -
  let ?t = "fold change_step cs s"
  have inv: "taking env s" using assms by (simp add: taking_def)
  obtain rep where "apply_loop env cs \<lparr>ar_upserted = 0, ar_removed = 0, ar_subtrees_removed = 0, ar_unchanged = 0\<rparr> s = Ret (Inr rep, ?t)"
    using apply_loop_of [OF inv assms(4)] by blast
  then have run: "apply_changes env cs s = Ret (Inr (rep\<lparr>ar_upserted := ar_upserted rep - ix_spared ?t, ar_unchanged := ix_spared ?t\<rparr>),
      ?t\<lparr>ix_spared := 0\<rparr>)"
    by (simp add: apply_changes_def step_then_def)
  have t: "taking env ?t" "promised env ?t = fold promise cs (promised env s)"
    using changing.keeps_all [OF inv assms(4)] changing.commutes_all [OF inv assms(4)] by simp_all
  define s1 where "s1 = ?t\<lparr>ix_spared := 0\<rparr>"
  have s1: "index_ok env s1" "ix_open s1 = None" "promised env s1 = promised env ?t"
    using t(1) assms(3) unfolding s1_def taking_def index_ok_def segments_ok_def hidden_ok_def staged_ok_def promised_def unhidden_def hides_def
    by (simp_all add: fold_change_open)
  obtain s2 where s2: "publish_locked env s1 = Ret (Inr (), s2)" "index_ok env s2" "ix_open s2 = ix_open s1" "ix_staged s2 = []"
    "ps_paths (ix_hidden s2) = []" "shown_rows env (ix_segments s2) = kept_rows env s1 \<union> stored_entry ` set (left_staged env s1)"
    by (rule publish_locked_of [OF s1(1)])
  have "shown_rows env (ix_segments s2) = fold promise cs (promised env s)"
    unfolding s2(6) publish_promised [OF s1(2)] s1(3) t(2) ..
  then show ?thesis
    using run s2(1-3) s1(2) nothing_pending [OF s2(4,5)] unfolding s1_def by (intro exI conjI) simp_all
qed

theorem batch_published_witness:
  "\<exists>rep s1 s2. apply_changes sample_env there_and_back empty_index = Ret (Inr rep, s1)
    \<and> publish_locked sample_env s1 = Ret (Inr (), s2) \<and> shown_rows sample_env (ix_segments s2) = {stored_entry main_rs}"
proof -
  have "promised sample_env empty_index = {}" by (simp add: promised_def unhidden_def empty_index_def)
  then have "fold promise there_and_back (promised sample_env empty_index) = {stored_entry main_rs}"
    by (auto simp: there_and_back_def)
  then show ?thesis using batch_published [OF empty_index_ok there_and_back_ok] by auto
qed

text \<open>
  C6: a publish settles what was staged.  It succeeds; what it shows is the rows that no removal
  hides and no staged entry replaces, and every staged entry that is not hidden, the ones a pass
  over the filesystem found unchanged keeping the row they have.  Nothing is staged or hidden
  then. A walk may be open.  Asked of the index (\<open>index_ok\<close>): no built segment
  waits to be collected; its rows were written from entries with absolute paths that fit the
  format, one row a source and path, of sources the index has learned (after it is opened again
  it has not, and a removal of a file is then lost); what is staged fits a segment, one entry a
  source and path; and what is hidden is the whole tree or lies below a folder of the root, not
  directly in the root (there the row of the folder would survive,
  \<open>root_folder_survives\<close>).
\<close>

theorem publish_settles:
  assumes "index_ok env s"
  shows "\<exists>s'. publish_locked env s = Ret (Inr (), s') \<and> index_ok env s' \<and> ix_staged s' = [] \<and> ps_paths (ix_hidden s') = []
    \<and> (let shown = shown_rows env (ix_segments s);
           same = (\<lambda>e. ix_open s \<noteq> None \<and> (\<exists>r \<in> shown. path_key r = path_key e \<and> meta_same r (e_meta e) (e_is_dir e)));
           new = {e \<in> set (ix_staged s). \<not> covers (ix_hidden s) (e_path e) \<and> \<not> same e}
       in shown_rows env (ix_segments s') = {r \<in> shown. \<not> covers (ix_hidden s) (e_path r) \<and> path_key r \<notin> path_key ` new} \<union> stored_entry ` new)"
proof -
  obtain s' where s': "publish_locked env s = Ret (Inr (), s')" "index_ok env s'" "ix_open s' = ix_open s" "ix_staged s' = []"
    "ps_paths (ix_hidden s') = []" "shown_rows env (ix_segments s') = kept_rows env s \<union> stored_entry ` set (left_staged env s)"
    by (rule publish_locked_of [OF assms])
  have "set (left_staged env s) = {e \<in> set (ix_staged s). \<not> covers (ix_hidden s) (e_path e) \<and> \<not> (ix_open s \<noteq> None
      \<and> (\<exists>r \<in> shown_rows env (ix_segments s). path_key r = path_key e \<and> meta_same r (e_meta e) (e_is_dir e)))}"
    by (auto simp: left_staged_def hides_def same_entry_def)
  then show ?thesis using s' by (simp add: kept_rows_def hides_def Let_def)
qed

theorem publish_settles_witness:
  "\<exists>s'. publish_locked sample_env (empty_index\<lparr>ix_open := Some 1, ix_sources := [0], ix_staged := sample_entries\<rparr>) = Ret (Inr (), s')
    \<and> shown_rows sample_env (ix_segments s') = stored_entry ` set sample_entries"
proof -
  let ?s = "empty_index\<lparr>ix_open := Some 1, ix_sources := [0], ix_staged := sample_entries\<rparr>"
  have "distinct (map path_key sample_entries)" "\<forall>e \<in> set sample_entries. id_source (e_id e) = 0"
    by (simp_all add: sample_entries_def sample_entry_def path_key_def path_hash_def)
  then have ok: "index_ok sample_env ?s"
    using empty_index_ok(1) sample_env_ok(2)
    by (simp add: index_ok_def segments_ok_def hidden_ok_def staged_ok_def empty_index_def)
  have "\<not> covers (ix_hidden ?s) p" for p by (simp add: empty_index_def prefix_set_default_def covers_def)
  then show ?thesis using publish_settles [OF ok] by (auto simp: empty_index_def Let_def)
qed

end
