(* ===== verification/Sweep.thy ===== *)
theory Sweep
  imports Durable
begin

text \<open>
  The end of a walk, \<open>sweep\<close> of \<open>crates/scour-index-native/src/index.rs\<close>, and the forgetting of a
  source.

  A sweep kills the rows a walk should have met and did not: those of its source below its roots,
  in segments older than the walk, that the walk did not stamp and that are not somewhere it could
  not look.  Directory numbers decide where they can, so blocks are skipped by their zone and no
  path is built unless there are places to spare.
\<close>

section \<open>One segment\<close>

definition sweep_whole :: "bytes list \<Rightarrow> bool" where
  "sweep_whole roots \<longleftrightarrow> list_ex (\<lambda>p. p = [] \<or> p = [SLASH]) roots \<or> roots = []"

fun sweep_scopes :: "dir_table \<Rightarrow> bytes list \<Rightarrow> dir_scope list run" where
  "sweep_scopes t [] = Ret []"
| "sweep_scopes t (p # ps) = bind_run (subtree t p) (\<lambda>s. bind_run (sweep_scopes t ps) (\<lambda>ss. Ret (s # ss)))"

text \<open>The rows of the roots themselves: the parent's number and the name.\<close>

fun sweep_owns :: "dir_table \<Rightarrow> bytes list \<Rightarrow> (u32 \<times> bytes) list run" where
  "sweep_owns t [] = Ret []"
| "sweep_owns t (p # ps) =
     (case rsplit_once SLASH (trim_slash p) of
        None \<Rightarrow> sweep_owns t ps
      | Some (parent, name) \<Rightarrow>
          bind_run (exact t (if parent = [] then [SLASH] else parent)) (\<lambda>pd.
          bind_run (sweep_owns t ps) (\<lambda>owns. Ret (case pd of Some pd \<Rightarrow> (pd, name) # owns | None \<Rightarrow> owns))))"

definition stamped :: "bytes option \<Rightarrow> nat \<Rightarrow> bool" where
  "stamped seen row =
     (case seen of None \<Rightarrow> False
      | Some bits \<Rightarrow> (case nth_opt bits (row div 8) of Some b \<Rightarrow> b AND push_bit (row mod 8) 1 \<noteq> 0 | None \<Rightarrow> False))"

definition sweep_inside ::
  "(u8 \<Rightarrow> bytes \<Rightarrow> nat option) \<Rightarrow> segment \<Rightarrow> dir_scope list \<Rightarrow> (u32 \<times> bytes) list \<Rightarrow> nat \<Rightarrow> u32 \<Rightarrow> bool" where
  "sweep_inside memchr seg scopes owns row d \<longleftrightarrow>
     list_ex (\<lambda>s. scope_contains s d) scopes
     \<or> list_ex (\<lambda>(pd, name). pd = d \<and> arena_get memchr (sg_names seg) row = Some name) owns"

definition sweep_skips :: "segment \<Rightarrow> bool \<Rightarrow> dir_scope list \<Rightarrow> (u32 \<times> bytes) list \<Rightarrow> nat \<Rightarrow> bool" where
  "sweep_skips seg whole scopes owns block \<longleftrightarrow> \<not> (whole \<or>
     (case block_range (sg_cols seg) DirId block of
        Some (lo, hi) \<Rightarrow>
          if 0 \<le> sint lo then
            let lo = ucast lo; hi = ucast hi
            in list_ex (\<lambda>s. scope_intersects s lo hi) scopes \<or> list_ex (\<lambda>(pd, _). lo \<le> pd \<and> pd \<le> hi) owns
          else True
      | None \<Rightarrow> True))"

definition sweep_row ::
  "(u8 \<Rightarrow> bytes \<Rightarrow> nat option) \<Rightarrow> live \<Rightarrow> segment \<Rightarrow> u32 \<Rightarrow> prefix_set \<Rightarrow> bytes option \<Rightarrow> bool \<Rightarrow> dir_scope list \<Rightarrow> (u32 \<times> bytes) list
    \<Rightarrow> nat \<Rightarrow> bool run" where
  "sweep_row memchr lv seg source spare seen whole scopes owns row =
     (if \<not> live_is_alive lv row then Ret False
      else if stamped seen row then Ret False
      else bind_run (if whole then Ret True else bind_run (seg_dir_id seg row) (\<lambda>d. Ret (sweep_inside memchr seg scopes owns row d))) (\<lambda>inside.
        if \<not> inside then Ret False
        else bind_run (source_of seg row) (\<lambda>s.
          if s \<noteq> source then Ret False
          else if ps_paths spare = [] then Ret True
          else bind_run (seg_path seg row (case arena_get memchr (sg_names seg) row of Some n \<Rightarrow> n | None \<Rightarrow> [])) (\<lambda>path.
            Ret (\<not> covers spare path)))))"

definition sweep_segment ::
  "(u8 \<Rightarrow> bytes \<Rightarrow> nat option) \<Rightarrow> u32 \<Rightarrow> bytes list \<Rightarrow> u64 \<Rightarrow> prefix_set \<Rightarrow> (u64 \<rightharpoonup> bytes) \<Rightarrow> live \<Rightarrow> (u64 \<times> live) res run" where
  "sweep_segment memchr source roots generation spare seen lv =
     (if generation \<le> lv_generation lv then Ret (Inr (0, lv))
      else case live_view lv of
        Inl e \<Rightarrow> Ret (Inl e)
      | Inr seg \<Rightarrow>
          let whole = sweep_whole roots
          in bind_run (sweep_scopes (sg_dirs seg) roots) (\<lambda>scopes.
             bind_run (if whole then Ret [] else sweep_owns (sg_dirs seg) roots) (\<lambda>owns.
             bind_run (if \<not> whole \<and> list_all scope_is_empty scopes \<and> owns = [] then Ret []
                       else scan_blocks (sweep_skips seg whole scopes owns)
                              (sweep_row memchr lv seg source spare (seen (lv_number lv)) whole scopes owns) (lv_rows lv)
                              [0 ..< (lv_rows lv + BLOCK - 1) div BLOCK])
               (\<lambda>victims. Ret (Inr (kill_all victims lv 0))))))"


section \<open>The index\<close>

text \<open>One pass over the segments, with the count of the rows that died.\<close>

fun count_each :: "(live \<Rightarrow> (u64 \<times> live) res run) \<Rightarrow> live list \<Rightarrow> u64 \<Rightarrow> ((bool list \<times> u64) res \<times> live list) run" where
  "count_each f [] gone = Ret (Inr ([], gone), [])"
| "count_each f (lv # lvs) gone =
     bind_run (f lv) (\<lambda>r. case r of
         Inl e \<Rightarrow> Ret (Inl e, lv # lvs)
       | Inr (n, lv) \<Rightarrow>
           bind_run (count_each f lvs (gone + n)) (\<lambda>(r, lvs).
             Ret (bind_res r (\<lambda>(ts, gone). Inr ((n \<noteq> 0) # ts, gone)), lv # lvs)))"

definition touched_numbers :: "bool list \<Rightarrow> live list \<Rightarrow> u64 set" where
  "touched_numbers touched lvs = set (map (\<lambda>(_, lv). lv_number lv) (filter (\<lambda>(t, _). t) (zip touched lvs)))"


text \<open>\<open>publish_now\<close>, when nothing comes between its two locks, and \<open>forget\<close> and \<open>sweep\<close> once nothing is being built.\<close>

definition publish_now :: "index_env \<Rightarrow> native_index \<Rightarrow> unit step" where
  "publish_now env s = step_then (collect env s) (\<lambda>_ s. publish_locked env s)"


definition sweep :: "index_env \<Rightarrow> u32 \<Rightarrow> bytes list \<Rightarrow> u64 \<Rightarrow> prefix_set \<Rightarrow> native_index \<Rightarrow> u64 step" where
  "sweep env source roots generation spare s =
     step_then (collect env s) (\<lambda>_ s.
     step_then (publish_now env s) (\<lambda>_ s.
     step_then (publish_locked env s) (\<lambda>_ s.
       let s = close_generation generation s; seen = ix_seen s; s = s\<lparr>ix_seen := Map.empty\<rparr>
       in bind_run (count_each (sweep_segment (ie_memchr env) source roots generation spare seen) (ix_segments s) 0) (\<lambda>(r, lvs).
            let s = s\<lparr>ix_segments := lvs\<rparr>
            in case r of
                 Inl e \<Rightarrow> Ret (Inl e, s)
               | Inr (touched, gone) \<Rightarrow>
                   let s = s\<lparr>ix_dirty_alive := ix_dirty_alive s \<union> touched_numbers touched lvs\<rparr>
                   in Ret (Inr gone, snd (forget_empty s))))))"

section \<open>What a sweep judges\<close>

lemma sweep_scopes_of:
  assumes fit: "dirs_fit ds" "sorted ds" "distinct ds"
  obtains scopes where "sweep_scopes (dir_view ds) ps = Ret scopes"
    "\<And>num. unat num < length ds \<Longrightarrow> list_ex (\<lambda>s. scope_contains s num) scopes \<longleftrightarrow> (\<exists>p \<in> set ps. path_holds p (ds ! unat num))"
    "list_all scope_is_empty scopes \<Longrightarrow> \<forall>num. \<not> list_ex (\<lambda>s. scope_contains s num) scopes"
proof -
  have "\<exists>scopes. sweep_scopes (dir_view ds) ps = Ret scopes
    \<and> (\<forall>num. unat num < length ds \<longrightarrow> (list_ex (\<lambda>s. scope_contains s num) scopes \<longleftrightarrow> (\<exists>p \<in> set ps. path_holds p (ds ! unat num))))"
  proof (induction ps)
    case (Cons p ps)
    obtain s where s: "subtree (dir_view ds) p = Ret s" using subtree_total [OF fit] by blast
    then show ?case using Cons scope_contains_view [OF fit _ s] by (auto simp: path_holds_def)
  qed simp
  moreover have "\<not> list_ex (\<lambda>s. scope_contains s num) scopes" if "list_all scope_is_empty scopes" for scopes num
    using that by (auto simp: list_all_iff list_ex_iff scope_is_empty_def scope_contains_def)
  ultimately show thesis using that by blast
qed

lemma sweep_owns_of:
  assumes fit: "dirs_fit ds" "sorted ds" "distinct ds" "\<forall>d \<in> set ds. d \<noteq> []"
  obtains owns where "sweep_owns (dir_view ds) ps = Ret owns"
    "\<And>num n. unat num < length ds \<Longrightarrow> (num, n) \<in> set owns \<longleftrightarrow> (\<exists>p \<in> set ps. path_names p (ds ! unat num) n)"
proof -
  have "\<exists>owns. sweep_owns (dir_view ds) ps = Ret owns
    \<and> (\<forall>num n. unat num < length ds \<longrightarrow> ((num, n) \<in> set owns \<longleftrightarrow> (\<exists>p \<in> set ps. path_names p (ds ! unat num) n)))"
  proof (induction ps)
    case (Cons p ps)
    then obtain owns where IH: "sweep_owns (dir_view ds) ps = Ret owns"
      "\<forall>num n. unat num < length ds \<longrightarrow> ((num, n) \<in> set owns \<longleftrightarrow> (\<exists>p \<in> set ps. path_names p (ds ! unat num) n))"
      by blast
    show ?case
    proof (cases "rsplit_once SLASH (trim_slash p)")
      case None
      then show ?thesis using IH by (auto simp: path_names_def)
    next
      case (Some q)
      obtain parent name where q: "q = (parent, name)" by fastforce
      obtain pd where e: "exact (dir_view ds) (if parent = [] then [SLASH] else parent) = Ret pd"
        by (auto simp: exact_view [OF fit(1-3)])
      have one: "(num, n) \<in> set (case pd of Some pd \<Rightarrow> [(pd, name)] | None \<Rightarrow> []) \<longleftrightarrow> path_names p (ds ! unat num) n"
        if "unat num < length ds" for num n
      proof -
        have "ds ! unat num \<noteq> []" using fit(4) that by simp
        moreover have "path_names p d n \<Longrightarrow> n = name" for d using Some q by (auto simp: path_names_def)
        ultimately show ?thesis
          using named_piece [OF fit(1-3) that _ Some [unfolded q], of n] e by auto
      qed
      have "sweep_owns (dir_view ds) (p # ps) = Ret ((case pd of Some pd \<Rightarrow> [(pd, name)] | None \<Rightarrow> []) @ owns)"
        using IH(1) e Some q by (simp split: option.splits)
      moreover have "(num, n) \<in> set ((case pd of Some pd \<Rightarrow> [(pd, name)] | None \<Rightarrow> []) @ owns)
          \<longleftrightarrow> (\<exists>p \<in> set (p # ps). path_names p (ds ! unat num) n)" if "unat num < length ds" for num n
        unfolding set_append Un_iff one [OF that] using IH(2) that by auto
      ultimately show ?thesis by blast
    qed
  qed simp
  then show thesis using that by blast
qed

text \<open>Whether a row is below a root.\<close>

lemma sweep_inside_row:
  assumes m: "memchr_law memchr" and fit: "entries_fit fold_bytes es" and h: "holds_entries fold_bytes fold_case es seg"
    and walked: "\<forall>e \<in> set es. walked_path (e_path e)"
    and roots: "\<forall>p \<in> set roots. trim_slash p = [] \<or> walked_path (trim_slash p)"
  obtains scopes owns where "sweep_scopes (sg_dirs seg) roots = Ret scopes" "sweep_owns (sg_dirs seg) roots = Ret owns"
    "\<And>i. i < length es \<Longrightarrow> sweep_inside memchr seg scopes owns i (dir_number (entry_dirs es) (entry_parent (e_path (es ! i))))
       \<longleftrightarrow> batch_takes roots (e_path (es ! i))"
    "list_all scope_is_empty scopes \<Longrightarrow> owns = [] \<Longrightarrow> \<forall>i < length es. \<not> batch_takes roots (e_path (es ! i))"
proof -
  note ds = entry_dirs_named [OF fit walked]
  obtain scopes where sc: "sweep_scopes (dir_view (entry_dirs es)) roots = Ret scopes"
    "\<And>num. unat num < length (entry_dirs es) \<Longrightarrow> list_ex (\<lambda>s. scope_contains s num) scopes \<longleftrightarrow> (\<exists>p \<in> set roots. path_holds p (entry_dirs es ! unat num))"
    "list_all scope_is_empty scopes \<Longrightarrow> \<forall>num. \<not> list_ex (\<lambda>s. scope_contains s num) scopes"
    using sweep_scopes_of [OF ds(1-3)] by blast
  obtain owns where ow: "sweep_owns (dir_view (entry_dirs es)) roots = Ret owns"
    "\<And>num n. unat num < length (entry_dirs es) \<Longrightarrow> (num, n) \<in> set owns \<longleftrightarrow> (\<exists>p \<in> set roots. path_names p (entry_dirs es ! unat num) n)"
    using sweep_owns_of [OF ds] by blast
  have inside: "sweep_inside memchr seg scopes owns i (dir_number (entry_dirs es) (entry_parent (e_path (es ! i))))
      \<longleftrightarrow> batch_takes roots (e_path (es ! i))" if i: "i < length es" for i
  proof -
    let ?path = "e_path (es ! i)" and ?d = "dir_number (entry_dirs es) (entry_parent (e_path (es ! i)))"
    have "entry_parent ?path \<in> set (entry_dirs es)" using i by (simp add: entry_dirs_def entry_parents_def)
    note num = dir_number_in [OF this entry_dirs_length [OF fit]]
    have name: "arena_get memchr (sg_names seg) i = Some (entry_name ?path)" using name_of_row [OF m fit h] i by simp
    have "list_ex (\<lambda>(pd, name). pd = ?d \<and> arena_get memchr (sg_names seg) i = Some name) owns \<longleftrightarrow> (?d, entry_name ?path) \<in> set owns"
      by (auto simp: list_ex_iff name)
    then have "sweep_inside memchr seg scopes owns i ?d
        \<longleftrightarrow> (\<exists>p \<in> set roots. path_holds p (entry_parent ?path) \<or> path_names p (entry_parent ?path) (entry_name ?path))"
      using sc(2) [OF num(1)] ow(2) [OF num(1)] num(2) by (auto simp: sweep_inside_def)
    also have "\<dots> \<longleftrightarrow> batch_takes roots ?path"
      unfolding batch_takes_def by (intro bex_cong path_takes_row refl) (use roots walked i in auto)
    finally show ?thesis .
  qed
  have "\<forall>i < length es. \<not> batch_takes roots (e_path (es ! i))" if "list_all scope_is_empty scopes" "owns = []"
    using inside sc(3) [OF that(1)] that(2) by (simp add: sweep_inside_def)
  moreover have "sg_dirs seg = dir_view (entry_dirs es)" using h by (simp add: holds_entries_def)
  ultimately show thesis using that sc(1) ow(1) inside by simp
qed

text \<open>A row a walk should have met and did not.\<close>

definition unmet :: "u32 \<Rightarrow> bytes list \<Rightarrow> prefix_set \<Rightarrow> bytes option \<Rightarrow> nat \<Rightarrow> entry \<Rightarrow> bool" where
  "unmet source roots spare seen i e \<longleftrightarrow> \<not> stamped seen i \<and> (sweep_whole roots \<or> batch_takes roots (e_path e))
     \<and> id_source (e_id e) = source \<and> \<not> covers spare (e_path e)"

lemma sweep_row_of:
  assumes m: "memchr_law memchr" and fit: "entries_fit fold_bytes es" and h: "holds_entries fold_bytes fold_case es seg"
    and walked: "\<forall>e \<in> set es. walked_path (e_path e)" and i: "i < length es"
    and inside: "\<not> whole \<Longrightarrow> sweep_inside memchr seg scopes owns i (dir_number (entry_dirs es) (entry_parent (e_path (es ! i))))
       \<longleftrightarrow> batch_takes roots (e_path (es ! i))"
    and whole: "whole = sweep_whole roots"
  shows "sweep_row memchr lv seg source spare seen whole scopes owns i
    = Ret (live_is_alive lv i \<and> unmet source roots spare seen i (es ! i))"
proof -
  have plain: "plain_paths es" using walked by (auto simp: plain_paths_def walked_path_def)
  have none: "ps_paths spare = [] \<Longrightarrow> \<not> covers spare path" for path by (simp add: covers_def)
  show ?thesis
    using inside none name_of_row [OF m fit h, of i] seg_path_of [OF fit h i plain] source_of_row [OF fit h i] seg_dir_of(1) [OF fit h i] i
    by (auto simp: sweep_row_def unmet_def whole)
qed

lemma sweep_segment_of:
  assumes m: "memchr_law memchr" and fit: "entries_fit fold_bytes es" and lv: "live_holds memchr fold_bytes fold_case es lv"
    and walked: "\<forall>e \<in> set es. walked_path (e_path e)"
    and roots: "\<forall>p \<in> set roots. trim_slash p = [] \<or> walked_path (trim_slash p)"
  obtains gone lv' where "sweep_segment memchr source roots generation spare seen lv = Ret (Inr (gone, lv'))"
    "retired memchr fold_bytes fold_case es
      (\<lambda>i. lv_generation lv < generation \<and> unmet source roots spare (seen (lv_number lv)) i (es ! i)) gone lv lv'"
proof (cases "generation \<le> lv_generation lv")
  case True
  then show thesis
    using that [of 0 lv] retired_none [OF lv] retired_cong [OF retired_none [OF lv]] by (simp add: sweep_segment_def not_less)
next
  case False
  obtain seg where seg: "live_view lv = Inr seg" "holds_entries fold_bytes fold_case es seg"
    using live_view_holds [OF lv fit] by blast
  obtain scopes owns where sc: "sweep_scopes (sg_dirs seg) roots = Ret scopes" "sweep_owns (sg_dirs seg) roots = Ret owns"
    "\<And>i. i < length es \<Longrightarrow> sweep_inside memchr seg scopes owns i (dir_number (entry_dirs es) (entry_parent (e_path (es ! i))))
       \<longleftrightarrow> batch_takes roots (e_path (es ! i))"
    "list_all scope_is_empty scopes \<Longrightarrow> owns = [] \<Longrightarrow> \<forall>i < length es. \<not> batch_takes roots (e_path (es ! i))"
    using sweep_inside_row [OF m fit seg(2) walked roots] by blast
  let ?whole = "sweep_whole roots" and ?seen = "seen (lv_number lv)"
  define os where "os = (if ?whole then [] else owns)"
  have os: "(if ?whole then Ret [] else sweep_owns (sg_dirs seg) roots) = Ret os" using sc(2) by (simp add: os_def)
  let ?die = "\<lambda>i. live_is_alive lv i \<and> unmet source roots spare ?seen i (es ! i)"
  have n: "lv_rows lv = length es" using lv by (simp add: live_holds_def)
  have victims: "(if \<not> ?whole \<and> list_all scope_is_empty scopes \<and> os = [] then Ret []
      else scan_blocks (sweep_skips seg ?whole scopes os) (sweep_row memchr lv seg source spare ?seen ?whole scopes os) (lv_rows lv)
             [0 ..< (lv_rows lv + BLOCK - 1) div BLOCK])
    = Ret (filter ?die [0 ..< length es])"
  proof (cases "\<not> ?whole \<and> list_all scope_is_empty scopes \<and> os = []")
    case True
    then have "\<forall>i < length es. \<not> ?die i" using sc(4) by (auto simp: os_def unmet_def)
    then show ?thesis using True by (simp add: filter_empty_conv)
  next
    case outer: False
    have "scan_blocks (sweep_skips seg ?whole scopes os) (sweep_row memchr lv seg source spare ?seen ?whole scopes os) (length es)
        [0 ..< (length es + BLOCK - 1) div BLOCK] = Ret (filter ?die [0 ..< length es])"
    proof (rule scan_blocks_all)
      show "sweep_row memchr lv seg source spare ?seen ?whole scopes os i = Ret (?die i)" if i: "i < length es" for i
        by (rule sweep_row_of [OF m fit seg(2) walked i]) (use sc(3) [OF i] in \<open>simp_all add: os_def\<close>)
      fix i assume i: "i < length es" and skip: "sweep_skips seg ?whole scopes os (i div BLOCK)"
      let ?d = "dir_number (entry_dirs es) (entry_parent (e_path (es ! i)))"
      obtain lo hi where z: "block_range (sg_cols seg) DirId (i div BLOCK) = Some (ucast (lo :: u32), ucast (hi :: u32))" "lo \<le> ?d" "?d \<le> hi"
        using dir_zone [OF fit seg(2) i] by blast
      have s: "\<not> ?whole" "\<not> list_ex (\<lambda>s. scope_intersects s lo hi) scopes" "\<not> list_ex (\<lambda>(pd, _). lo \<le> pd \<and> pd \<le> hi) os"
        using skip z(1) by (auto simp: sweep_skips_def dir_cell)
      have "\<not> sweep_inside memchr seg scopes os i ?d"
        using s(2,3) scope_intersects [OF _ z(2,3)] z(2,3) by (auto simp: sweep_inside_def list_ex_iff)
      then show "\<not> ?die i" using sc(3) [OF i] s(1) by (simp add: unmet_def os_def)
    qed
    then show ?thesis unfolding if_not_P [OF outer] n .
  qed
  obtain gone lv' where k: "kill_all (filter ?die [0 ..< length es]) lv 0 = (gone, lv')" by fastforce
  have "sweep_segment memchr source roots generation spare seen lv = Ret (Inr (gone, lv'))"
    unfolding sweep_segment_def if_not_P [OF False] seg(1) by (simp add: Let_def sc(1) os victims k)
  moreover have "retired memchr fold_bytes fold_case es (\<lambda>i. i \<in> set (filter ?die [0 ..< length es])) gone lv lv'"
    by (rule retired_kill_all [OF lv k]) simp
  then have "retired memchr fold_bytes fold_case es (\<lambda>i. lv_generation lv < generation \<and> unmet source roots spare ?seen i (es ! i)) gone lv lv'"
    by (rule retired_cong) (use False in auto)
  ultimately show thesis by (rule that)
qed


section \<open>Forgetting a source\<close>









text \<open>A segment carries the number and the generation it was made with.\<close>

lemma from_bytes_stamp:
  assumes "from_bytes number generation sb = Ret (Inr lv)"
  shows "lv_number lv = number" "lv_generation lv = generation"
proof -
  obtain names where n: "arena_open (sb_names sb) = Some names"
    using assms by (cases "arena_open (sb_names sb)") (simp_all add: from_bytes_def assemble_def)
  obtain dirs where d: "count_dirs (sb_cols sb) (na_rows names) = Ret dirs"
    using assms n by (cases "count_dirs (sb_cols sb) (na_rows names)")
      (simp_all add: from_bytes_def assemble_def Let_def split: if_splits sum.splits)
  show "lv_number lv = number" "lv_generation lv = generation"
    using assms by (auto simp: from_bytes_def assemble_def Let_def n d split: if_splits sum.splits)
qed

section \<open>Properties\<close>



text \<open>
  C8: a sweep kills what the walk should have met and did not, and nothing else.  A row of a segment
  dies exactly when the segment is older than the walk, the row is alive, of the walk's source, at or
  below one of its roots (all of them when a root is the whole tree), not stamped as seen, and not
  somewhere the walk could not look; but the row of a root that sits directly in \<open>/\<close> is not judged.
\<close>

theorem sweep_exact:
  assumes "memchr_law memchr" "entries_fit fold_bytes es" "live_holds memchr fold_bytes fold_case es lv"
    and "\<forall>e \<in> set es. walked_path (e_path e)" "\<forall>p \<in> set roots. trim_slash p = [] \<or> walked_path (trim_slash p)"
  shows "\<exists>gone lv'. sweep_segment memchr source roots generation spare seen lv = Ret (Inr (gone, lv'))
    \<and> live_holds memchr fold_bytes fold_case es lv'
    \<and> (\<forall>i < length es. live_is_alive lv' i \<longleftrightarrow> live_is_alive lv i \<and> \<not> (lv_generation lv < generation
         \<and> id_source (e_id (es ! i)) = source \<and> \<not> stamped (seen (lv_number lv)) i \<and> \<not> covers spare (e_path (es ! i))
         \<and> (sweep_whole roots \<or> (\<exists>p \<in> set roots. under (e_path (es ! i)) p
              \<and> (entry_parent (e_path (es ! i)) = [SLASH] \<longrightarrow> trim_slash p \<noteq> e_path (es ! i))))))
    \<and> gone = of_nat (live_rows lv - live_rows lv')"
proof -
  obtain gone lv' where "sweep_segment memchr source roots generation spare seen lv = Ret (Inr (gone, lv'))"
    "retired memchr fold_bytes fold_case es
      (\<lambda>i. lv_generation lv < generation \<and> unmet source roots spare (seen (lv_number lv)) i (es ! i)) gone lv lv'"
    using sweep_segment_of [OF assms, of source generation spare seen] by blast
  then show ?thesis by (fastforce simp: retired_def unmet_def batch_takes_def)
qed

theorem sweep_exact_witness:
  "\<exists>sb lv gone lv'. build_sorted first_index (map ascii_lower) (map ascii_lower) sample_entries = Ret sb
    \<and> from_bytes 1 1 sb = Ret (Inr lv)
    \<and> sweep_segment first_index 0 [str ''/a''] 2 prefix_set_default Map.empty lv = Ret (Inr (gone, lv'))
    \<and> \<not> live_is_alive lv' 0 \<and> live_is_alive lv' 1"
proof -
  obtain sb lv where lv: "build_sorted first_index (map ascii_lower) (map ascii_lower) sample_entries = Ret sb"
    "from_bytes 1 1 sb = Ret (Inr lv)" "live_holds first_index (map ascii_lower) (map ascii_lower) sample_entries lv"
    "\<forall>i < length sample_entries. live_is_alive lv i"
    using sample_built by blast
  have g: "lv_generation lv = 1" using from_bytes_stamp [OF lv(2)] by simp
  have walked: "\<forall>e \<in> set sample_entries. walked_path (e_path e)"
    by (simp add: sample_entries_def sample_entry_def walked_path_def entry_parent_def rfind_def)
  have roots: "\<forall>p \<in> set [str ''/a'']. trim_slash p = [] \<or> walked_path (trim_slash p)"
    by (simp add: trim_slash_def walked_path_def entry_parent_def rfind_def)
  have r: "\<not> sweep_whole [str ''/a'']" "\<not> covers prefix_set_default p" for p
    by (simp_all add: sweep_whole_def covers_def prefix_set_default_def)
  show ?thesis
    using sweep_exact [OF first_index_law sample_fit(1) lv(3) walked roots, of 0 2 prefix_set_default Map.empty] lv(1,2,4) g r
    by (fastforce simp: sample_rows stamped_def under_def trim_slash_def entry_parent_def rfind_def)
qed

end
