(* ===== verification/Spec2Isabelle.thy ===== *)
theory Spec2Isabelle
  imports Paths Varint Utf8 Columns Dirs Blocks Trigram Names Ids Orders Glob Rank Chars Dates Kinds Ast Query Pages Errors Segment Build Live Retire
    Text Folded Reference Plan Marks Answers Narrow Sorting Search Visits Ranked Bounded Found
    Doomed Tiers Index Publish Changes Durable Sweep
begin

text \<open>
  Scour: a verification library for the file-search program's core.

  Scour keeps an index of every file of a machine and answers queries over it as they are typed.
  A daemon reads the filesystem into entries; the engine hands them to the native index, which
  stores them in immutable segments of column files and, for a removal, clears a bit; a query is
  parsed once, compiled against each segment and walked over its rows; a face keeps the pages of
  the answer it is looking at.  This library models the parts that decide what is found: the
  path sets of \<open>scour-core\<close>, the query language of \<open>scour-query\<close>, the files, the segments and the
  query walk of \<open>scour-index-native\<close>, the reference answer of \<open>scour-mock\<close> the program's tests
  compare with, and the page cache of \<open>scour-page\<close>.

  \<^bold>\<open>Conventions.\<close>  A machine integer is a word of its width (\<open>u8\<close>, \<open>u16\<close>, \<open>u32\<close>, \<open>u64\<close>, \<open>i64\<close>, the last
  read with \<open>sint\<close>); a \<open>usize\<close> that only counts or indexes is a \<open>nat\<close>; a text is its UTF-8 bytes
  where the code works on bytes and a list of code points where it works on characters.
  \<open>'a run\<close> is \<open>Panic\<close> or \<open>Ret\<close>: it marks code that can panic on a damaged file, and the lemmas show
  that it does not on a file the writers made.  \<open>'a res\<close> is an error of \<open>error.rs\<close> or a value.  A
  loop that stops is a \<open>fun\<close> or a \<open>function\<close> with its termination proof; no fuel is used.

  \<^bold>\<open>Parameters.\<close>  Code outside the repository is an argument of the definitions that call it, with
  its documented behaviour as a named hypothesis: \<open>memchr\<close> (\<open>memchr_law\<close>, \<open>memmem_law\<close>), the
  Unicode tables of the standard library (\<open>lower_laws\<close>, \<open>lowers\<close>, \<open>keeps_marks\<close>), the \<open>regex\<close>
  crate (any function), the local time zone of dates.  \<open>outside\<close> (Reference) gathers them for a
  query.  Each hypothesis is met by a concrete table or function in the witnesses.

  \<^bold>\<open>Theories, in the order they build on each other.\<close>
  \<^item> \<^theory_text>\<open>Prelude\<close>: types, \<open>run\<close>, slices with their panics, little-endian words, arrays in a file, binary
    search; the collection \<open>file_simps\<close> and the locale \<open>table_file\<close> (a file that reads back the rows
    it was written from), interpreted by columns, names, identities and directories.
  \<^item> \<^theory_text>\<open>Paths\<close> (prefix.rs, entry.rs): \<open>PrefixSet\<close> and its two ways of asking \<open>covers\<close>; names, parents and
    extensions of a path; the locale of a set extended in batches.
  \<^item> \<^theory_text>\<open>Varint\<close> (varint.rs, columns.rs): variable-length integers, bit packing with one width a block.
  \<^item> \<^theory_text>\<open>Columns\<close>, \<^theory_text>\<open>Blocks\<close> (columns.rs): column files, their zone maps, and the locale \<open>block_filter\<close>:
    whatever says which blocks to open, the walk over them finds what the walk over every row finds.
  \<^item> \<^theory_text>\<open>Utf8\<close>, \<^theory_text>\<open>Dirs\<close> (dirs.rs): well-formed text; the front-coded directory table with its searches,
    scopes and scans.  \<^theory_text>\<open>Trigram\<close> (trigram.rs): posting lists, the second interpretation of
    \<open>block_filter\<close>.  \<^theory_text>\<open>Names\<close> (names.rs): the two arenas, their walks and the sequential reader.
    \<^theory_text>\<open>Ids\<close> (ids.rs): the table of digests.  \<^theory_text>\<open>Orders\<close> (path_order.rs, name_order.rs,
    extension_order.rs): stored orders and their groups.  \<^theory_text>\<open>Rank\<close> (rank.rs): ranks of live rows.
  \<^item> \<^theory_text>\<open>Chars\<close>, \<^theory_text>\<open>Text\<close>, \<^theory_text>\<open>Folded\<close> (text.rs, names.rs): texts as characters, UTF-8 between the two, the
    canonical case fold and the index's own folder, which writes the same bytes.
  \<^item> \<^theory_text>\<open>Glob\<close>, \<^theory_text>\<open>Dates\<close>, \<^theory_text>\<open>Kinds\<close>, \<^theory_text>\<open>Ast\<close>, \<^theory_text>\<open>Query\<close> (glob.rs, time.rs, kind.rs, ast.rs, lib.rs of scour-query):
    the matcher of wildcards, query dates, kinds of file, the query tree and its parser.
  \<^item> \<^theory_text>\<open>Pages\<close> (scour-page): the page cache, with its calls as a step relation.  \<^theory_text>\<open>Errors\<close> (error.rs).
  \<^item> \<^theory_text>\<open>Segment\<close>, \<^theory_text>\<open>Build\<close>, \<^theory_text>\<open>Live\<close>, \<^theory_text>\<open>Retire\<close> (search.rs, build.rs, segment.rs): one row read from the files;
    the files written from entries; a segment in memory with its live bits; bulk killing and
    sparing of paths by two strategies.
  \<^item> \<^theory_text>\<open>Reference\<close> (reference.rs of scour-mock), \<^theory_text>\<open>Plan\<close>, \<^theory_text>\<open>Marks\<close>, \<^theory_text>\<open>Answers\<close>, \<^theory_text>\<open>Narrow\<close> (search.rs): the
    reference answer; a query compiled against a segment and asked of a row; that the two agree,
    condition by condition; and that skipping blocks loses nothing.
  \<^item> \<^theory_text>\<open>Sorting\<close>, \<^theory_text>\<open>Search\<close> (search.rs): sort keys whole and abbreviated, the trim of the page, the order
    of the blocks; \<open>run_with\<close> with its four ways through a segment (the rows as stored or
    backwards, along a stored order, best block first, every row keyed) and its answer.
    \<^theory_text>\<open>Visits\<close>: what each kind of walk keeps, over the locale \<open>ranking\<close>, interpreted by the order of
    keys and the order of rows.  \<^theory_text>\<open>Ranked\<close>, \<^theory_text>\<open>Bounded\<close>, \<^theory_text>\<open>Found\<close>: the ways one by one, the reach of a block,
    and the answer, against \<open>brute_force\<close> of reference.rs.
  \<^item> \<^theory_text>\<open>Doomed\<close>, \<^theory_text>\<open>Tiers\<close> (index.rs): the rows a batch of removals takes from a segment, by identity or by
    ranges of directories; which segments are folded together next, and the bound on their number.
  \<^item> \<^theory_text>\<open>Index\<close> (index.rs): the state of the index (\<open>Inner\<close>, \<open>Building\<close>) and its operations: staging and
    hiding, the flush and what a failed one restores, publishing, built segments that are collected,
    \<open>apply\<close>, the generations.  \<^theory_text>\<open>Publish\<close>: what a publish does to the rows the index shows.
    \<^theory_text>\<open>Changes\<close>: batches of changes against what they promise, over the locale \<open>simulates\<close>.
    \<^theory_text>\<open>Durable\<close>: the flush that writes, followed through every write that can fail.  \<^theory_text>\<open>Sweep\<close>: the
    end of a walk, and forgetting a source.

  \<^bold>\<open>What the groups of lemmas show.\<close>  For each file: that opening what the writer made gives back
  what was written (\<open>_view\<close>, \<open>_file\<close>, \<open>_of\<close> lemmas), that its searches answer what a scan would, and
  the lengths within which its offsets fit (\<open>_fit\<close>, \<open>_fits\<close>, \<open>_small\<close>: the formats hold 32-bit
  offsets, and the bounds are sums over the rows, so they can be checked before writing).
  \<open>Build.build_views\<close> puts the files together and \<open>Live.live_view_holds\<close> opens them again, so that
  everything about a segment rests on \<open>holds_entries\<close>: its files are those of a list of entries.
  On top of that stand the round trip of a segment, lookups by path, killing, sparing, the
  equivalence of a compiled query with the reference and the exactness of the walk.  A search
  is related to sorting everything by \<open>Sorting.holds_page\<close>: a set of rows that leaves out only what
  is behind a page's worth of what it holds.  Every trim, boundary and skipped block keeps it, and
  from such a set the same page is cut (\<open>page_of_covers\<close>).
  \<open>Answers.comparable\<close> names the corners in which code and reference may differ: rows of the root
  and rows without a directory for depth, parent and path terms, extensions the index does not see,
  names whose fold has another number of characters.  A compiled query answers of every row
  (\<open>Narrow.plan_accepts\<close>), and of a row outside the corners as the reference; the walk and the
  search are exact about what it accepts, and where all rows are outside the corners, about what
  the reference accepts.
  \<open>Publish.index_ok\<close> is the invariant of the index between its operations: every segment is that of
  a list of entries, no path is shown twice, the staged entries fit a segment.  \<open>Changes.promised\<close>
  is the abstraction of its state, a set of entries, one a source and path; \<open>Changes.promise\<close> says
  what a change does to it.  A step of the index gives its error or its value and the state it
  leaves; the environment \<open>index_env\<close> says which writes and which threads succeed.

  \<^bold>\<open>Not modelled.\<close>  The roll-up of folder sizes (usage.rs, sizes.rs) is an argument of the search, as
  it is in the code.  Of the index (index.rs) the fold of segments, persisting what was published,
  the merge of several segments' rankings and the aggregates are not modelled; \<open>apply\<close> is proved
  while its buffer does not fill, and the flush handed to another thread is defined but not proved.
  Waiting for builder threads is left out: what they produced is in \<open>ix_landed\<close> when an operation
  starts, and the theorems about operations start where it is empty.  Left out whole: locks and
  durable files (lock.rs, durable.rs); the engine's threads and channels; the kernel interfaces of
  the filesystem source (fanotify, inotify, io_uring, change journals); the faces, which draw; and
  the desktop services, which call other programs.
\<close>

end
